(* ===== verification/Paros_Prelude.thy ===== *)
theory Paros_Prelude
  imports Main "HOL-Library.Finite_Map" "HOL-Library.Monad_Syntax" "HOL-Library.Option_ord"
begin

section \<open>Shared vocabulary of the development\<close>

text \<open>
  This theory holds what every component shares: the reading of a Rust panic, the
  64-bit arithmetic of \<open>Slot\<close>, \<open>Seq\<close> and the counters, and the ordered maps and sets the
  crate takes from \<^verbatim>\<open>std::collections\<close>.

  \<^item> A function of the crate that holds an \<^verbatim>\<open>assert!\<close>, an \<^verbatim>\<open>expect\<close> or an arithmetic
    operation that can overflow is a function into \<open>option\<close>: \<open>None\<close> is the panic and \<open>Some\<close>
    the value returned. \<open>check\<close> is the \<^verbatim>\<open>assert!\<close> itself, in the \<^verbatim>\<open>do\<close> notation of the
    option monad, so every assertion of the source stands in the model where the source has
    it, and that it never fires is a theorem.
  \<^item> A \<^verbatim>\<open>BTreeMap\<close> is a finite map of \<open>HOL-Library.Finite_Map\<close> over a linearly ordered key,
    with the ordered readings below (\<open>fm_keys\<close>, \<open>fm_first\<close>, \<open>fm_last\<close>, \<open>fm_from\<close>).
  \<^item> A \<^verbatim>\<open>BTreeSet\<close> is a set.
\<close>

subsection \<open>Panics\<close>

definition check :: "bool \<Rightarrow> unit option" where
  "check b = (if b then Some () else None)"

text \<open>\<^verbatim>\<open>Iterator::all\<close>, \<^verbatim>\<open>Iterator::any\<close> and \<^verbatim>\<open>Iterator::map\<close> over a function that may panic, left to
  right; the first two stop at the first answer that settles the question.\<close>

fun try_all :: "('a \<Rightarrow> bool option) \<Rightarrow> 'a list \<Rightarrow> bool option" where
  "try_all p [] = Some True"
| "try_all p (c # cs) = do { b \<leftarrow> p c; if b then try_all p cs else Some False }"

fun try_any :: "('a \<Rightarrow> bool option) \<Rightarrow> 'a list \<Rightarrow> bool option" where
  "try_any p [] = Some False"
| "try_any p (c # cs) = do { b \<leftarrow> p c; if b then Some True else try_any p cs }"

fun try_map :: "('a \<Rightarrow> 'b option) \<Rightarrow> 'a list \<Rightarrow> 'b list option" where
  "try_map f [] = Some []"
| "try_map f (c # cs) = do { y \<leftarrow> f c; ys \<leftarrow> try_map f cs; Some (y # ys) }"

text \<open>A \<^verbatim>\<open>for\<close> loop whose body may panic.\<close>

fun try_fold :: "('a \<Rightarrow> 's \<Rightarrow> 's option) \<Rightarrow> 'a list \<Rightarrow> 's \<Rightarrow> 's option" where
  "try_fold f [] s = Some s"
| "try_fold f (c # cs) s = f c s \<bind> try_fold f cs"

named_theorems total_simps \<open>a checked operation under its precondition is its value\<close>
named_theorems inv_intros \<open>every operation preserves the component's invariant\<close>

lemma check_simps [simp]:
  "check True = Some ()"
  "check False = None"
  "(check b = Some u) \<longleftrightarrow> b"
  "(check b = None) \<longleftrightarrow> \<not> b"
  by (simp_all add: check_def)

lemma check_bind_Some [simp]:
  "(check b \<bind> f) = Some x \<longleftrightarrow> b \<and> f () = Some x"
  by (cases b) simp_all

lemma check_bind_True: "b \<Longrightarrow> (check b \<bind> f) = f ()"
  by simp

lemma check_bind_None [simp]:
  "(check b \<bind> f) = None \<longleftrightarrow> (b \<longrightarrow> f () = None)"
  by (cases b) simp_all

lemma bind_Some_iff:
  "((m :: 'a option) \<bind> f) = Some y \<longleftrightarrow> (\<exists>x. m = Some x \<and> f x = Some y)"
  by (cases m) simp_all

lemma try_all_total:
  "(\<And>c. c \<in> set cs \<Longrightarrow> p c = Some (b c)) \<Longrightarrow> try_all p cs = Some (\<forall>c \<in> set cs. b c)"
  by (induction cs) auto

lemma try_any_total:
  "(\<And>c. c \<in> set cs \<Longrightarrow> p c = Some (b c)) \<Longrightarrow> try_any p cs = Some (\<exists>c \<in> set cs. b c)"
  by (induction cs) auto

lemma try_map_total:
  "(\<And>c. c \<in> set cs \<Longrightarrow> f c = Some (g c)) \<Longrightarrow> try_map f cs = Some (map g cs)"
  by (induction cs) auto

lemma try_fold_total:
  "(\<And>c s. c \<in> set cs \<Longrightarrow> f c s = Some (g c s)) \<Longrightarrow> try_fold f cs s = Some (fold g cs s)"
  by (induction cs arbitrary: s) auto

lemma try_fold_inv:
  assumes "\<And>c s. c \<in> set cs \<Longrightarrow> P s \<Longrightarrow> f c s = Some (g c s) \<and> P (g c s)" and "P s"
  shows "try_fold f cs s = Some (fold g cs s) \<and> P (fold g cs s)"
  using assms by (induction cs arbitrary: s) auto

lemma try_fold_append: "try_fold f (xs @ ys) s = try_fold f xs s \<bind> try_fold f ys"
proof (induction xs arbitrary: s)
  case (Cons x xs)
  then show ?case by (cases "f x s") simp_all
qed simp

lemma not_Some_pair [simp]: "(\<forall>a b. x \<noteq> Some (a, b)) \<longleftrightarrow> x = None"
  by (cases x) auto

subsection \<open>64-bit counters\<close>

definition u64_max :: nat where
  "u64_max = 18446744073709551615"

text \<open>The most elements a vector can hold.\<close>

definition isize_max :: nat where
  "isize_max = 9223372036854775807"

definition checked_add64 :: "nat \<Rightarrow> nat \<Rightarrow> nat option" where
  "checked_add64 a b = (if a + b \<le> u64_max then Some (a + b) else None)"

definition saturating_add64 :: "nat \<Rightarrow> nat \<Rightarrow> nat" where
  "saturating_add64 a b = min (a + b) u64_max"

definition checked_mul64 :: "nat \<Rightarrow> nat \<Rightarrow> nat option" where
  "checked_mul64 a b = (if a * b \<le> u64_max then Some (a * b) else None)"

definition saturating_mul64 :: "nat \<Rightarrow> nat \<Rightarrow> nat" where
  "saturating_mul64 a b = min (a * b) u64_max"

definition checked_sub64 :: "nat \<Rightarrow> nat \<Rightarrow> nat option" where
  "checked_sub64 a b = (if b \<le> a then Some (a - b) else None)"

lemma u64_max_pos [simp]: "0 < u64_max"
  by (simp add: u64_max_def)

lemma isize_max_u64: "u64_max = 2 * isize_max + 1"
  by (simp add: u64_max_def isize_max_def)

lemma isize_less_u64: "n \<le> isize_max \<Longrightarrow> n < u64_max"
  by (simp add: isize_max_u64)

lemma checked_add64_Some [simp]:
  "checked_add64 a b = Some c \<longleftrightarrow> c = a + b \<and> a + b \<le> u64_max"
  by (auto simp: checked_add64_def)

lemma checked_add64_None [simp]: "checked_add64 a b = None \<longleftrightarrow> u64_max < a + b"
  by (auto simp: checked_add64_def)

lemma checked_mul64_Some [simp]:
  "checked_mul64 a b = Some c \<longleftrightarrow> c = a * b \<and> a * b \<le> u64_max"
  by (auto simp: checked_mul64_def)

lemma checked_sub64_Some [simp]: "checked_sub64 a b = Some c \<longleftrightarrow> b \<le> a \<and> c = a - b"
  by (auto simp: checked_sub64_def)

lemma saturating_add64_le [simp]: "saturating_add64 a b \<le> u64_max"
  by (simp add: saturating_add64_def)

lemma saturating_add64_less: "a < u64_max \<Longrightarrow> 0 < b \<Longrightarrow> a < saturating_add64 a b"
  by (simp add: saturating_add64_def)

lemma saturating_add64_id: "a + b \<le> u64_max \<Longrightarrow> saturating_add64 a b = a + b"
  by (simp add: saturating_add64_def)

subsection \<open>Ordered maps\<close>

definition fm_keys :: "('k::linorder, 'v) fmap \<Rightarrow> 'k list" where
  "fm_keys m = sorted_list_of_set (fmdom' m)"

definition fm_entries :: "('k::linorder, 'v) fmap \<Rightarrow> ('k \<times> 'v) list" where
  "fm_entries m = map (\<lambda>k. (k, the (fmlookup m k))) (fm_keys m)"

definition fm_len :: "('k, 'v) fmap \<Rightarrow> nat" where
  "fm_len m = card (fmdom' m)"

definition fm_first :: "('k::linorder, 'v) fmap \<Rightarrow> 'k option" where
  "fm_first m = (if m = fmempty then None else Some (Min (fmdom' m)))"

definition fm_last :: "('k::linorder, 'v) fmap \<Rightarrow> 'k option" where
  "fm_last m = (if m = fmempty then None else Some (Max (fmdom' m)))"

definition fm_from :: "'k::linorder \<Rightarrow> ('k, 'v) fmap \<Rightarrow> ('k, 'v) fmap" where
  "fm_from k m = fmfilter (\<lambda>k'. k \<le> k') m"

lemma finite_fmdom' [simp]: "finite (fmdom' m)"
  by (simp add: fmdom'_alt_def)

lemma fmdom'_iff: "k \<in> fmdom' m \<longleftrightarrow> fmlookup m k \<noteq> None"
  by (auto simp: fmlookup_dom'_iff)

lemma fmdom'_empty_iff [simp]: "fmdom' m = {} \<longleftrightarrow> m = fmempty"
proof
  assume "fmdom' m = {}"
  then have "fmlookup m k = None" for k
    by (metis empty_iff fmdom'_iff)
  then show "m = fmempty" by (intro fmap_ext) simp
qed simp

lemma set_fm_keys [simp]: "set (fm_keys m) = fmdom' m"
  by (simp add: fm_keys_def)

lemma sorted_fm_keys [simp]: "sorted (fm_keys m)" "distinct (fm_keys m)"
  by (simp_all add: fm_keys_def)

lemma fm_len_keys: "length (fm_keys m) = fm_len m"
  by (simp add: fm_keys_def fm_len_def)

lemma fst_fm_entries [simp]: "map fst (fm_entries m) = fm_keys m"
  by (simp add: fm_entries_def comp_def)

lemma in_fm_entries [simp]: "(k, v) \<in> set (fm_entries m) \<longleftrightarrow> fmlookup m k = Some v"
  by (auto simp: fm_entries_def fmdom'_iff)

lemma fm_len_empty [simp]: "fm_len fmempty = 0"
  by (simp add: fm_len_def)

lemma fm_len_fmupd: "fm_len (fmupd k v m) = (if k \<in> fmdom' m then fm_len m else Suc (fm_len m))"
  by (auto simp: fm_len_def insert_absorb)

lemma fm_first_None [simp]: "fm_first m = None \<longleftrightarrow> m = fmempty"
  by (simp add: fm_first_def)

lemma fm_last_None [simp]: "fm_last m = None \<longleftrightarrow> m = fmempty"
  by (simp add: fm_last_def)

lemma fm_first_ex [simp]: "(\<exists>k. fm_first m = Some k) \<longleftrightarrow> m \<noteq> fmempty"
  by (simp add: fm_first_def)

lemma fm_last_ex [simp]: "(\<exists>k. fm_last m = Some k) \<longleftrightarrow> m \<noteq> fmempty"
  by (simp add: fm_last_def)

lemma fm_ends_empty [simp]: "fm_first fmempty = None" "fm_last fmempty = None"
  by simp_all

lemma fm_first_SomeD:
  assumes "fm_first m = Some k"
  shows "k \<in> fmdom' m" "\<And>k'. k' \<in> fmdom' m \<Longrightarrow> k \<le> k'"
  using assms by (auto simp: fm_first_def split: if_splits)

lemma fm_last_SomeD:
  assumes "fm_last m = Some k"
  shows "k \<in> fmdom' m" "\<And>k'. k' \<in> fmdom' m \<Longrightarrow> k' \<le> k"
  using assms by (auto simp: fm_last_def split: if_splits)

text \<open>The probe \<^verbatim>\<open>keys().next().is_none_or(|first| *first >= floor)\<close> of the source says that every key is at
  or above the floor.\<close>

lemma fm_first_is_none_or:
  "(case fm_first m of None \<Rightarrow> True | Some k \<Rightarrow> b \<le> k) \<longleftrightarrow> (\<forall>k \<in> fmdom' m. b \<le> k)"
  by (auto simp: fm_first_def)

lemma fm_last_is_none_or:
  "(case fm_last m of None \<Rightarrow> True | Some k \<Rightarrow> k < b) \<longleftrightarrow> (\<forall>k \<in> fmdom' m. k < b)"
  by (auto simp: fm_last_def)

lemma fmlookup_fm_from [simp]:
  "fmlookup (fm_from k m) k' = (if k \<le> k' then fmlookup m k' else None)"
  by (simp add: fm_from_def)

lemma fmdom'_fm_from [simp]: "fmdom' (fm_from k m) = {k' \<in> fmdom' m. k \<le> k'}"
  by (auto simp: fmdom'_iff split: if_splits)

lemma fm_from_idem: "(\<forall>k' \<in> fmdom' m. k \<le> k') \<Longrightarrow> fm_from k m = m"
  by (rule fmap_ext) (auto simp: fmdom'_iff)

subsection \<open>Optional keys\<close>

text \<open>\<^verbatim>\<open>into_iter().flatten()\<close> over options and \<^verbatim>\<open>Iterator::max\<close>; an absent key is below every
  present one, as in the derived order of \<^verbatim>\<open>Option\<close>.\<close>

definition flatten_opts :: "'a option list \<Rightarrow> 'a list" where
  "flatten_opts xs = map the (filter (\<lambda>x. x \<noteq> None) xs)"

definition iter_max :: "'a::linorder list \<Rightarrow> 'a option" where
  "iter_max xs = (if xs = [] then None else Some (Max (set xs)))"

lemma flatten_opts_simps [simp]:
  "flatten_opts [] = []"
  "flatten_opts (None # xs) = flatten_opts xs"
  "flatten_opts (Some x # xs) = x # flatten_opts xs"
  by (simp_all add: flatten_opts_def)

lemma iter_max_simps [simp]:
  "iter_max [] = None"
  "iter_max (x # xs) = Some (case iter_max xs of None \<Rightarrow> x | Some y \<Rightarrow> max x y)"
  by (simp_all add: iter_max_def)

lemma max_option_simps [simp]:
  "max None y = y" "max x None = x" "max (Some a) (Some b) = Some (max a b)"
  by (cases x; cases y; simp add: max_def)+

lemma iter_max_flatten:
  "iter_max (flatten_opts (x # xs)) = max x (iter_max (flatten_opts xs))"
  by (cases x; cases "iter_max (flatten_opts xs)") simp_all

lemma in_flatten_opts: "x \<in> set (flatten_opts xs) \<longleftrightarrow> Some x \<in> set xs"
  by (auto simp: flatten_opts_def) force

text \<open>Raising the last key.\<close>

lemma fm_last_fmupd: "fm_last (fmupd k v m) = max (Some k) (fm_last m)"
  by (cases "m = fmempty") (simp_all add: fm_last_def flip: fmdom'_empty_iff)

lemma fm_last_mono:
  "fmdom' m \<subseteq> fmdom' m' \<Longrightarrow> fm_last m \<le> fm_last m'"
  by (auto simp: fm_last_def Max_mono)

lemma fm_last_from:
  "fm_last (fm_from b m) = (case fm_last m of None \<Rightarrow> None | Some k \<Rightarrow> if b \<le> k then Some k else None)"
proof (cases "m = fmempty")
  case True
  then have "fm_from b m = fmempty" by (auto simp flip: fmdom'_empty_iff)
  with True show ?thesis by simp
next
  case False
  then obtain k where k: "fm_last m = Some k" by (auto simp: fm_last_def)
  note kd = fm_last_SomeD[OF k]
  show ?thesis
  proof (cases "b \<le> k")
    case True
    then have "fm_from b m \<noteq> fmempty" using kd(1) by (auto simp flip: fmdom'_empty_iff)
    moreover have "Max {k' \<in> fmdom' m. b \<le> k'} = k"
      using kd True by (intro Max_eqI) auto
    ultimately show ?thesis using k True by (simp add: fm_last_def)
  next
    case False
    then have "fm_from b m = fmempty" using kd(2) by (force simp flip: fmdom'_empty_iff)
    then show ?thesis using k False by simp
  qed
qed

end
