(* ===== verification/Ballots.thy ===== *)
theory Ballots
  imports Paros_Prelude "HOL-Library.Word"
begin

section \<open>Core types: identities, slots, fingerprints and ballots\<close>

text \<open>
  The types of \<^verbatim>\<open>paros-core/src/types.rs\<close>. An identity and a slot are newtypes over \<^verbatim>\<open>u64\<close> and
  are natural numbers here (the operations that could leave the 64-bit range are checked or saturate,
  see the prelude); a value is its bytes. A ballot is a datatype so that the order the source writes
  by hand is an instance of the library's \<open>linorder\<close> class, and every fact about linear orders
  applies to it.
\<close>

type_synonym node_id = nat
type_synonym slot = nat
type_synonym value_bytes = "8 word list"
type_synonym fingerprint = "64 word"

datatype ballot = Ballot (ballot_round: nat) (ballot_node: node_id)

datatype ordering = Less | Equal | Greater

definition ballot_zero :: ballot where
  "ballot_zero = Ballot 0 0"

definition nat_cmp :: "nat \<Rightarrow> nat \<Rightarrow> ordering" where
  "nat_cmp a b = (if a < b then Less else if a = b then Equal else Greater)"

text \<open>\<open>Ord::cmp\<close> of a ballot, with the assertion it ends on.\<close>

definition ballot_cmp :: "ballot \<Rightarrow> ballot \<Rightarrow> ordering option" where
  "ballot_cmp a b = do {
     let order = (case nat_cmp (ballot_round a) (ballot_round b) of
                    Equal \<Rightarrow> nat_cmp (ballot_node a) (ballot_node b)
                  | ord \<Rightarrow> ord);
     check ((order = Equal) = (a = b));
     Some order
   }"

instantiation ballot :: linorder
begin

definition less_eq_ballot :: "ballot \<Rightarrow> ballot \<Rightarrow> bool" where
  "less_eq_ballot a b \<longleftrightarrow> ballot_round a < ballot_round b \<or>
     ballot_round a = ballot_round b \<and> ballot_node a \<le> ballot_node b"

definition less_ballot :: "ballot \<Rightarrow> ballot \<Rightarrow> bool" where
  "less_ballot a b \<longleftrightarrow> ballot_round a < ballot_round b \<or>
     ballot_round a = ballot_round b \<and> ballot_node a < ballot_node b"

instance
  by intro_classes (auto simp: less_eq_ballot_def less_ballot_def intro: ballot.expand)

end

subsection \<open>Fingerprints\<close>

unbundle bit_operations_syntax

definition FNV_OFFSET :: fingerprint where
  "FNV_OFFSET = 0xcbf29ce484222325"

definition fnv_prime :: fingerprint where
  "fnv_prime = 0x100000001b3"

definition fnv1a_step :: "fingerprint \<Rightarrow> 8 word \<Rightarrow> fingerprint" where
  "fnv1a_step hash byte = (hash XOR ucast byte) * fnv_prime"

definition fnv1a :: "fingerprint \<Rightarrow> 8 word list \<Rightarrow> fingerprint" where
  "fnv1a hash bytes = fold (\<lambda>byte hash. fnv1a_step hash byte) bytes hash"

subsection \<open>The order on ballots\<close>

lemma ballot_zero_least [simp]: "ballot_zero \<le> b"
  by (auto simp: ballot_zero_def less_eq_ballot_def)

lemma not_less_ballot_zero [simp]: "\<not> b < ballot_zero"
  by (simp add: not_less)

lemma ballot_less_simps [simp]:
  "Ballot r n < Ballot r' n' \<longleftrightarrow> r < r' \<or> r = r' \<and> n < n'"
  "Ballot r n \<le> Ballot r' n' \<longleftrightarrow> r < r' \<or> r = r' \<and> n \<le> n'"
  by (simp_all add: less_ballot_def less_eq_ballot_def)

lemma ballot_cmp_total:
  "ballot_cmp a b = Some (if a < b then Less else if a = b then Equal else Greater)"
  by (cases a; cases b) (auto simp: ballot_cmp_def nat_cmp_def)

subsection \<open>Folding bytes\<close>

lemma fnv1a_append: "fnv1a h (xs @ ys) = fnv1a (fnv1a h xs) ys"
  by (simp add: fnv1a_def)

lemma fnv_prime_odd: "fnv_prime * 0xce965057aff6957b = 1"
  by (simp add: fnv_prime_def)

text \<open>The prime is odd, so it is invertible modulo \<open>2 ^ 64\<close> and one mixing step loses nothing of the
  hash it folds into: two states that differ stay different under the same bytes.\<close>

lemma fnv1a_step_inj: "fnv1a_step h b = fnv1a_step h' b \<longleftrightarrow> h = h'"
proof
  assume "fnv1a_step h b = fnv1a_step h' b"
  then have "fnv1a_step h b * 0xce965057aff6957b = fnv1a_step h' b * 0xce965057aff6957b"
    by simp
  then have "h XOR ucast b = h' XOR ucast b"
    by (simp add: fnv1a_step_def mult.assoc fnv_prime_odd)
  then have "(h XOR ucast b) XOR ucast b = (h' XOR ucast b) XOR ucast b"
    by simp
  then show "h = h'"
    by (simp add: xor.assoc)
qed simp

lemma fnv1a_inj: "fnv1a h bytes = fnv1a h' bytes \<longleftrightarrow> h = h'"
  by (induction bytes arbitrary: h h') (simp_all add: fnv1a_def fnv1a_step_inj)

end
