(* ===== verification/Quorum_System.thy ===== *)
theory Quorum_System
  imports Ballots
begin

section \<open>Quorum systems\<close>

text \<open>
  The quorum systems of \<^verbatim>\<open>paros-core/src/membership/quorum_system.rs\<close>: which sets of acceptors count
  as a quorum of Phase 1 and of Phase 2. The definitions come first, in the order of the source, each
  with the assertions of the source (\<open>None\<close> is the panic). The second half gives each predicate its
  total reading (\<open>phase1_holds\<close>, \<open>phase2_holds\<close>), shows that no assertion fires over a sorted
  membership the system admits, and that every Phase-1 quorum meets every Phase-2 quorum, the named
  rows and columns of a grid included. The locale \<open>quorum_family\<close> is the contract the protocol
  theories rely on; the acceptor side's configurations and the matchmakers' majorities both provide it.
\<close>

datatype quorum_system =
    Majority
  | Flexible (flexible_q1: nat) (flexible_q2: nat)
  | Grid (grid_rows: nat) (grid_cols: nat) (grid_acks: nat)

subsection \<open>Counting\<close>

definition majority_of :: "nat \<Rightarrow> nat option" where
  "majority_of members = do {
     let majority = members div 2 + 1;
     check (saturating_mul64 majority 2 > members);
     check (members > 0 \<longrightarrow> majority \<le> members);
     Some majority
   }"

definition counted :: "'id::linorder list \<Rightarrow> 'id set \<Rightarrow> nat option" where
  "counted members voters = do {
     check (sorted_wrt (<) members);
     let count = length (filter (\<lambda>v. v \<in> set members) (sorted_list_of_set voters));
     check (count \<le> length members);
     Some count
   }"

definition grid_row :: "'id list \<Rightarrow> nat \<Rightarrow> nat \<Rightarrow> 'id list option" where
  "grid_row members cols row = do {
     let start = min (saturating_mul64 row cols) (length members);
     let end' = min (saturating_add64 start cols) (length members);
     check (start \<le> end');
     check (end' - start \<le> cols);
     Some (take (end' - start) (drop start members))
   }"

text \<open>\<^verbatim>\<open>Iterator::step_by\<close>: the first element and then every \<open>n\<close>-th one.\<close>

fun step_by :: "nat \<Rightarrow> 'a list \<Rightarrow> 'a list" where
  "step_by n [] = []"
| "step_by n (x # xs) = x # step_by n (drop (n - 1) xs)"

definition grid_column :: "'id list \<Rightarrow> nat \<Rightarrow> nat \<Rightarrow> 'id list option" where
  "grid_column members cols column = do {
     check (cols \<ge> 1);
     Some (step_by cols (drop column members))
   }"

definition residue :: "nat \<Rightarrow> nat \<Rightarrow> nat option" where
  "residue value modulus = do {
     let modulus = max modulus 1;
     let residue = value mod modulus;
     check (residue < modulus);
     Some residue
   }"

definition rank_is_in :: "nat \<Rightarrow> nat \<Rightarrow> bool option" where
  "rank_is_in rank count = do {
     let inside = rank < count;
     check (count = 0 \<longrightarrow> \<not> inside);
     Some inside
   }"

definition slot_rank :: "slot \<Rightarrow> nat \<Rightarrow> nat option option" where
  "slot_rank slot count = do {
     let rank = (if count \<noteq> 0 then Some (slot mod count) else None);
     (case rank of
        None \<Rightarrow> Some ()
      | Some r \<Rightarrow> do { inside \<leftarrow> rank_is_in r count; check inside });
     Some rank
   }"

definition column_votes :: "'id list \<Rightarrow> nat \<Rightarrow> nat \<Rightarrow> 'id set \<Rightarrow> nat option" where
  "column_votes members cols column voters = do {
     cell \<leftarrow> grid_column members cols column;
     let height = length cell;
     let voted = length (filter (\<lambda>m. m \<in> voters) cell);
     check (voted \<le> height);
     Some voted
   }"

definition all_voted :: "'id list \<Rightarrow> 'id set \<Rightarrow> bool" where
  "all_voted cell voters = list_all (\<lambda>m. m \<in> voters) cell"

subsection \<open>Sizes and admission\<close>

definition qs_grid :: "nat \<Rightarrow> nat \<Rightarrow> quorum_system" where
  "qs_grid rows cols = Grid rows cols rows"

definition qs_partitions :: "nat \<Rightarrow> nat \<Rightarrow> quorum_system" where
  "qs_partitions f partitions = Grid (2 * f + 1) partitions (f + 1)"

fun phase1_per_column :: "quorum_system \<Rightarrow> nat option option" where
  "phase1_per_column Majority = Some None"
| "phase1_per_column (Flexible _ _) = Some None"
| "phase1_per_column (Grid rows _ acks) = do {
     let per_column = saturating_add64 (rows - acks) 1;
     (if 1 \<le> acks \<and> acks \<le> rows
      then do { total \<leftarrow> checked_add64 per_column acks; check (total > rows) }
      else Some ());
     Some (Some per_column)
   }"

definition phase1_quorum_size :: "quorum_system \<Rightarrow> nat \<Rightarrow> nat option" where
  "phase1_quorum_size q members = do {
     size \<leftarrow> (case q of
        Majority \<Rightarrow> majority_of members
      | Flexible q1 _ \<Rightarrow> Some q1
      | Grid _ cols _ \<Rightarrow> do {
          per_column \<leftarrow> phase1_per_column q;
          Some (saturating_mul64 cols (case per_column of None \<Rightarrow> 0 | Some n \<Rightarrow> n))
        });
     (case q of
        Grid rows cols acks \<Rightarrow>
          check (1 \<le> acks \<and> acks \<le> rows \<and> checked_mul64 rows cols = Some members
                   \<longrightarrow> size \<le> members)
      | _ \<Rightarrow> Some ());
     Some size
   }"

definition phase2_quorum_size :: "quorum_system \<Rightarrow> nat \<Rightarrow> nat option" where
  "phase2_quorum_size q members = do {
     size \<leftarrow> (case q of
        Majority \<Rightarrow> majority_of members
      | Flexible _ q2 \<Rightarrow> Some q2
      | Grid _ _ acks \<Rightarrow> Some acks);
     (case q of
        Grid rows cols _ \<Rightarrow>
          check (checked_mul64 rows cols = Some members \<and> size \<le> rows \<longrightarrow> size \<le> members)
      | _ \<Rightarrow> Some ());
     Some size
   }"

definition cross_intersects :: "quorum_system \<Rightarrow> nat \<Rightarrow> bool option" where
  "cross_intersects q members = do {
     intersects \<leftarrow> (case q of
        Grid rows _ acks \<Rightarrow> Some (1 \<le> acks \<and> acks \<le> rows)
      | _ \<Rightarrow> do {
          s1 \<leftarrow> phase1_quorum_size q members;
          s2 \<leftarrow> phase2_quorum_size q members;
          Some (saturating_add64 s1 s2 > members)
        });
     check (q = Majority \<longrightarrow> intersects);
     (case q of
        Grid rows _ _ \<Rightarrow>
          if intersects
          then do {
            per_column \<leftarrow> phase1_per_column q;
            check (case per_column of None \<Rightarrow> False | Some n \<Rightarrow> n \<le> rows)
          }
          else Some ()
      | _ \<Rightarrow> Some ());
     Some intersects
   }"

definition admits :: "quorum_system \<Rightarrow> nat \<Rightarrow> bool option" where
  "admits q members = do {
     admits \<leftarrow> (case q of
        Grid rows cols acks \<Rightarrow>
          Some (rows \<ge> 1 \<and> cols \<ge> 1 \<and> 1 \<le> acks \<and> acks \<le> rows
                \<and> checked_mul64 rows cols = Some members)
      | _ \<Rightarrow> do {
          s1 \<leftarrow> phase1_quorum_size q members;
          s2 \<leftarrow> phase2_quorum_size q members;
          if members \<ge> 1 \<and> 1 \<le> s1 \<and> s1 \<le> members \<and> 1 \<le> s2 \<and> s2 \<le> members
          then cross_intersects q members
          else Some False
        });
     (if admits
      then do {
        crosses \<leftarrow> cross_intersects q members;
        check crosses;
        check (members \<ge> 1)
      }
      else Some ());
     Some admits
   }"

subsection \<open>Addressing: columns and rows\<close>

definition column_of :: "quorum_system \<Rightarrow> slot \<Rightarrow> nat option option" where
  "column_of q slot = do {
     column \<leftarrow> (case q of
        Grid _ cols _ \<Rightarrow> do { r \<leftarrow> residue slot cols; Some (Some r) }
      | _ \<Rightarrow> Some None);
     (case (q, column) of
        (Grid _ cols _, Some column) \<Rightarrow> check (column < max cols 1)
      | _ \<Rightarrow> check (column = None));
     Some column
   }"

definition is_majority :: "'id::linorder list \<Rightarrow> 'id set \<Rightarrow> bool option" where
  "is_majority members voters = do {
     count \<leftarrow> counted members voters;
     need \<leftarrow> majority_of (length members);
     let majority = count \<ge> need;
     check (majority \<and> members \<noteq> [] \<longrightarrow> voters \<noteq> {});
     Some majority
   }"

definition row_of :: "quorum_system \<Rightarrow> nat \<Rightarrow> nat option option" where
  "row_of q ctx = do {
     row \<leftarrow> (case q of
        Grid rows _ acks \<Rightarrow>
          if acks = rows then do { r \<leftarrow> residue ctx rows; Some (Some r) } else Some None
      | _ \<Rightarrow> Some None);
     (case (q, row) of
        (Grid rows _ acks, Some row) \<Rightarrow> do { check (row < max rows 1); check (acks = rows) }
      | _ \<Rightarrow> check (row = None));
     Some row
   }"

fun admits_read_row :: "quorum_system \<Rightarrow> nat option \<Rightarrow> bool" where
  "admits_read_row _ None = True"
| "admits_read_row (Grid rows _ acks) (Some row) = (acks = rows \<and> row < rows)"
| "admits_read_row _ (Some _) = False"

definition read_row :: "quorum_system \<Rightarrow> nat \<Rightarrow> nat option \<Rightarrow> nat option option" where
  "read_row q ctx chosen = do {
     row \<leftarrow> (case chosen of
        Some row \<Rightarrow> if admits_read_row q (Some row) then Some (Some row) else row_of q ctx
      | None \<Rightarrow> row_of q ctx);
     (case q of
        Grid rows _ _ \<Rightarrow> check (rows \<ge> 1 \<longrightarrow> admits_read_row q row)
      | _ \<Rightarrow> Some ());
     Some row
   }"

subsection \<open>Quorum predicates and fan-outs\<close>

definition is_phase1_quorum_in ::
  "quorum_system \<Rightarrow> 'id::linorder list \<Rightarrow> 'id set \<Rightarrow> nat option \<Rightarrow> bool option" where
  "is_phase1_quorum_in q members voters row = do {
     quorum \<leftarrow> (case q of
        Majority \<Rightarrow> do { check (row = None); is_majority members voters }
      | Flexible q1 _ \<Rightarrow> do {
          check (row = None);
          count \<leftarrow> counted members voters;
          Some (count \<ge> q1)
        }
      | Grid rows cols acks \<Rightarrow>
          (case row of
             Some row \<Rightarrow>
               if acks = rows \<and> row < rows
               then do { cell \<leftarrow> grid_row members cols row; Some (all_voted cell voters) }
               else Some False
           | None \<Rightarrow> do {
               per_column \<leftarrow> phase1_per_column q;
               let per_column = (case per_column of None \<Rightarrow> u64_max | Some n \<Rightarrow> n);
               if cols \<ge> 1
               then try_all (\<lambda>c. do {
                      votes \<leftarrow> column_votes members cols c voters;
                      Some (votes \<ge> per_column)
                    }) [0..<cols]
               else Some False
             }));
     (if quorum \<and> members \<noteq> []
      then do { count \<leftarrow> counted members voters; check (count \<ge> 1) }
      else Some ());
     Some quorum
   }"

definition is_phase1_quorum ::
  "quorum_system \<Rightarrow> 'id::linorder list \<Rightarrow> 'id set \<Rightarrow> bool option" where
  "is_phase1_quorum q members voters = do {
     quorum \<leftarrow> is_phase1_quorum_in q members voters None;
     (if q = Majority
      then do { m \<leftarrow> is_majority members voters; check (quorum = m) }
      else Some ());
     Some quorum
   }"

definition is_phase2_quorum_in ::
  "quorum_system \<Rightarrow> 'id::linorder list \<Rightarrow> 'id set \<Rightarrow> nat option \<Rightarrow> bool option" where
  "is_phase2_quorum_in q members voters column = do {
     quorum \<leftarrow> (case q of
        Majority \<Rightarrow> do { check (column = None); is_majority members voters }
      | Flexible _ q2 \<Rightarrow> do {
          check (column = None);
          count \<leftarrow> counted members voters;
          Some (count \<ge> q2)
        }
      | Grid _ cols acks \<Rightarrow>
          (case column of
             Some column \<Rightarrow>
               if column < cols
               then do { votes \<leftarrow> column_votes members cols column voters; Some (votes \<ge> acks) }
               else Some False
           | None \<Rightarrow>
               try_any (\<lambda>c. do {
                 votes \<leftarrow> column_votes members cols c voters;
                 Some (votes \<ge> acks)
               }) [0..<cols]));
     (if quorum \<and> members \<noteq> []
      then do { count \<leftarrow> counted members voters; check (count \<ge> 1) }
      else Some ());
     Some quorum
   }"

definition is_phase2_quorum ::
  "quorum_system \<Rightarrow> 'id::linorder list \<Rightarrow> 'id set \<Rightarrow> bool option" where
  "is_phase2_quorum q members voters = do {
     quorum \<leftarrow> is_phase2_quorum_in q members voters None;
     (if q = Majority
      then do { m \<leftarrow> is_majority members voters; check (quorum = m) }
      else Some ());
     Some quorum
   }"

text \<open>\<^verbatim>\<open>binary_search\<close> of a sorted membership: the position of the element, if it is there.\<close>

fun position_of :: "'id list \<Rightarrow> 'id \<Rightarrow> nat option" where
  "position_of [] x = None"
| "position_of (y # ys) x = (if y = x then Some 0 else map_option Suc (position_of ys x))"

definition is_phase1_addressee ::
  "quorum_system \<Rightarrow> 'id::linorder list \<Rightarrow> 'id \<Rightarrow> nat option \<Rightarrow> bool option" where
  "is_phase1_addressee q members node row =
     (case position_of members node of
        None \<Rightarrow> Some False
      | Some position \<Rightarrow>
          (case q of
             Grid _ cols _ \<Rightarrow>
               Some (case row of None \<Rightarrow> True | Some row \<Rightarrow> cols \<ge> 1 \<and> position div cols = row)
           | _ \<Rightarrow> do { check (row = None); Some True }))"

definition phase1_addressees ::
  "quorum_system \<Rightarrow> 'id list \<Rightarrow> nat option \<Rightarrow> 'id list option" where
  "phase1_addressees q members row = do {
     addressees \<leftarrow> (case q of
        Grid _ cols _ \<Rightarrow>
          (case row of Some row \<Rightarrow> grid_row members cols row | None \<Rightarrow> Some members)
      | _ \<Rightarrow> do { check (row = None); Some members });
     check (length addressees \<le> length members);
     check (row = None \<longrightarrow> length addressees = length members);
     Some addressees
   }"

definition is_phase2_addressee ::
  "quorum_system \<Rightarrow> 'id::linorder list \<Rightarrow> 'id \<Rightarrow> nat option \<Rightarrow> bool option" where
  "is_phase2_addressee q members node column =
     (case position_of members node of
        None \<Rightarrow> Some False
      | Some position \<Rightarrow>
          (case q of
             Grid _ cols _ \<Rightarrow>
               Some (case column of
                       None \<Rightarrow> True
                     | Some column \<Rightarrow> cols \<ge> 1 \<and> position mod cols = column)
           | _ \<Rightarrow> do { check (column = None); Some True }))"

definition phase2_addressees ::
  "quorum_system \<Rightarrow> 'id list \<Rightarrow> nat option \<Rightarrow> 'id list option" where
  "phase2_addressees q members column = do {
     addressees \<leftarrow> (case q of
        Grid _ cols _ \<Rightarrow>
          (case column of Some column \<Rightarrow> grid_column members cols column | None \<Rightarrow> Some members)
      | _ \<Rightarrow> do { check (column = None); Some members });
     check (length addressees \<le> length members);
     check (column = None \<longrightarrow> length addressees = length members);
     Some addressees
   }"


section \<open>What the quorum systems guarantee\<close>

subsection \<open>The cells of a grid\<close>

lemma step_by_nths: "1 \<le> n \<Longrightarrow> step_by n xs = nths xs {i. i mod n = 0}"
proof (induction n xs rule: step_by.induct)
  case (2 n x xs)
  have "{j. Suc j mod n = 0} = (+) (n - 1) ` {i. i mod n = 0}"
  proof (intro set_eqI iffI)
    fix j
    assume "j \<in> {j. Suc j mod n = 0}"
    then have z: "Suc j mod n = 0" by simp
    with 2(2) have "n \<le> Suc j"
      by (metis Suc_neq_Zero mod_less not_le)
    then have "(Suc j - n) mod n = 0"
      using z le_mod_geq by metis
    moreover from \<open>n \<le> Suc j\<close> 2(2) have "j = n - 1 + (Suc j - n)" by linarith
    ultimately show "j \<in> (+) (n - 1) ` {i. i mod n = 0}"
      by (intro image_eqI[of _ _ "Suc j - n"]) simp_all
  next
    fix j
    assume "j \<in> (+) (n - 1) ` {i. i mod n = 0}"
    then obtain i where "Suc j = n + i" "i mod n = 0" using 2(2) by auto
    then show "j \<in> {j. Suc j mod n = 0}" by simp
  qed
  then show ?case
    using 2 by (simp add: nths_Cons nths_drop)
qed simp

lemma grid_column_nths:
  assumes "column < cols"
  shows "grid_column members cols column = Some (nths members {i. i mod cols = column})"
proof -
  have "{i. i mod cols = column} = (+) column ` {i. i mod cols = 0}"
  proof (intro set_eqI iffI)
    fix i
    assume "i \<in> {i. i mod cols = column}"
    then have i: "i mod cols = column" by simp
    then have "column \<le> i" by (metis mod_less_eq_dividend)
    moreover from i this have "(i - column) mod cols = 0"
      by (metis mod_eq_dvd_iff_nat mod_mod_trivial dvd_eq_mod_eq_0)
    ultimately show "i \<in> (+) column ` {i. i mod cols = 0}"
      by (intro image_eqI[of _ _ "i - column"]) simp_all
    next
    fix i
    assume "i \<in> (+) column ` {i. i mod cols = 0}"
    then obtain j where "i = column + j" "j mod cols = 0" by auto
    then have "i mod cols = column mod cols" by (metis mod_add_right_eq add_0_right)
    with assms show "i \<in> {i. i mod cols = column}" by simp
  qed
  with assms show ?thesis
    by (simp add: grid_column_def step_by_nths nths_drop)
qed

lemma card_column:
  assumes "column < cols"
  shows "card {i. i < rows * cols \<and> i mod cols = column} = rows"
proof -
  have "{i. i < rows * cols \<and> i mod cols = column} = (\<lambda>k. k * cols + column) ` {..<rows}"
  proof (intro set_eqI iffI)
    fix i
    assume "i \<in> {i. i < rows * cols \<and> i mod cols = column}"
    then have "i = i div cols * cols + column" "i div cols < rows"
      using assms by (auto simp: less_mult_imp_div_less)
    then show "i \<in> (\<lambda>k. k * cols + column) ` {..<rows}" by blast
  next
    fix i
    assume "i \<in> (\<lambda>k. k * cols + column) ` {..<rows}"
    then obtain k where k: "i = k * cols + column" "k < rows" by blast
    then have "Suc k * cols \<le> rows * cols" by (intro mult_le_mono1) simp
    with k assms show "i \<in> {i. i < rows * cols \<and> i mod cols = column}" by simp
  qed
  moreover have "inj_on (\<lambda>k. k * cols + column) {..<rows}"
    using assms by (auto simp: inj_on_def)
  ultimately show ?thesis
    by (simp add: card_image)
qed

text \<open>The two cells of a grid as sets of members.\<close>

definition column_cell :: "'id list \<Rightarrow> nat \<Rightarrow> nat \<Rightarrow> 'id set" where
  "column_cell members cols column = set (nths members {i. i mod cols = column})"

definition row_cell :: "'id list \<Rightarrow> nat \<Rightarrow> nat \<Rightarrow> 'id set" where
  "row_cell members cols row = set (nths members {i. i div cols = row})"

lemma column_cell_iff:
  "m \<in> column_cell members cols column \<longleftrightarrow>
     (\<exists>i < length members. i mod cols = column \<and> members ! i = m)"
  by (auto simp: column_cell_def set_nths)

lemma row_cell_iff:
  "m \<in> row_cell members cols row \<longleftrightarrow>
     (\<exists>i < length members. i div cols = row \<and> members ! i = m)"
  by (auto simp: row_cell_def set_nths)

lemma column_cell_subset: "column_cell members cols column \<subseteq> set members"
  by (auto simp: column_cell_iff)

lemma finite_column_cell [simp]: "finite (column_cell members cols column)"
  by (simp add: column_cell_def)

lemma card_column_cell:
  assumes "distinct members" "length members = rows * cols" "column < cols"
  shows "card (column_cell members cols column) = rows"
proof -
  have "card (column_cell members cols column) = length (nths members {i. i mod cols = column})"
    using assms(1) by (simp add: column_cell_def distinct_card)
  also have "\<dots> = rows"
    using assms(2) card_column[OF assms(3), of rows] by (simp add: length_nths)
  finally show ?thesis .
qed

lemma grid_row_slice:
  assumes "length members < u64_max" "1 \<le> cols"
  shows "\<exists>cell. grid_row members cols row = Some cell \<and> set cell = row_cell members cols row \<and>
    length cell \<le> length members"
proof -
  define s where "s = min (row * cols) (length members)"
  define e where "e = min (s + cols) (length members)"
  have sat: "min (saturating_mul64 row cols) (length members) = s"
    "min (saturating_add64 s cols) (length members) = e"
    using assms by (auto simp: s_def e_def saturating_mul64_def saturating_add64_def)
  have slice: "s \<le> i \<and> i < e \<longleftrightarrow> i div cols = row" if "i < length members" for i
  proof -
    have "i div cols = row \<longleftrightarrow> row \<le> i div cols \<and> i div cols < Suc row"
      by auto
    also have "\<dots> \<longleftrightarrow> row * cols \<le> i \<and> i < row * cols + cols"
      using assms(2) by (simp add: less_eq_div_iff_mult_less_eq div_less_iff_less_mult add.commute)
    finally have "i div cols = row \<longleftrightarrow> row * cols \<le> i \<and> i < row * cols + cols" .
    with that show ?thesis by (simp add: s_def e_def min_def)
  qed
  have "m \<in> set (take (e - s) (drop s members)) \<longleftrightarrow> m \<in> row_cell members cols row" for m
  proof
    assume "m \<in> set (take (e - s) (drop s members))"
    then obtain j where "j < e - s" "s + j < length members" "m = members ! (s + j)"
      by (auto simp: in_set_conv_nth)
    with slice[of "s + j"] show "m \<in> row_cell members cols row"
      by (auto simp: row_cell_iff)
  next
    assume "m \<in> row_cell members cols row"
    then obtain i where i: "i < length members" "s \<le> i" "i < e" "m = members ! i"
      using slice by (auto simp: row_cell_iff)
    then have "m = take (e - s) (drop s members) ! (i - s)" "i - s < length (take (e - s) (drop s members))"
      by (simp_all add: diff_less_mono)
    then show "m \<in> set (take (e - s) (drop s members))"
      by (metis nth_mem)
  qed
  moreover have "s \<le> e" "e - s \<le> cols"
    by (auto simp: s_def e_def)
  then have "grid_row members cols row = Some (take (e - s) (drop s members))"
    unfolding grid_row_def Let_def sat by simp
  ultimately show ?thesis by auto
qed

subsection \<open>Total readings\<close>

text \<open>A membership the crate builds is sorted and deduplicated, and its length is that of a vector.\<close>

definition members_ok :: "'id::linorder list \<Rightarrow> bool" where
  "members_ok members \<longleftrightarrow> sorted_wrt (<) members \<and> length members < u64_max"

fun runs_over :: "quorum_system \<Rightarrow> nat \<Rightarrow> bool" where
  "runs_over Majority n \<longleftrightarrow> 1 \<le> n"
| "runs_over (Flexible q1 q2) n \<longleftrightarrow> 1 \<le> q1 \<and> q1 \<le> n \<and> 1 \<le> q2 \<and> q2 \<le> n \<and> n < q1 + q2"
| "runs_over (Grid rows cols acks) n \<longleftrightarrow> 1 \<le> acks \<and> acks \<le> rows \<and> 1 \<le> cols \<and> rows * cols = n"

fun phase1_holds :: "quorum_system \<Rightarrow> 'id list \<Rightarrow> 'id set \<Rightarrow> nat option \<Rightarrow> bool" where
  "phase1_holds Majority members voters _ \<longleftrightarrow>
     length members < 2 * card (voters \<inter> set members)"
| "phase1_holds (Flexible q1 _) members voters _ \<longleftrightarrow> q1 \<le> card (voters \<inter> set members)"
| "phase1_holds (Grid rows cols acks) members voters None \<longleftrightarrow>
     (\<forall>c < cols. rows < card (voters \<inter> column_cell members cols c) + acks)"
| "phase1_holds (Grid rows cols acks) members voters (Some row) \<longleftrightarrow>
     acks = rows \<and> row < rows \<and> row_cell members cols row \<subseteq> voters"

fun phase2_holds :: "quorum_system \<Rightarrow> 'id list \<Rightarrow> 'id set \<Rightarrow> nat option \<Rightarrow> bool" where
  "phase2_holds Majority members voters _ \<longleftrightarrow>
     length members < 2 * card (voters \<inter> set members)"
| "phase2_holds (Flexible _ q2) members voters _ \<longleftrightarrow> q2 \<le> card (voters \<inter> set members)"
| "phase2_holds (Grid rows cols acks) members voters None \<longleftrightarrow>
     (\<exists>c < cols. acks \<le> card (voters \<inter> column_cell members cols c))"
| "phase2_holds (Grid rows cols acks) members voters (Some c) \<longleftrightarrow>
     c < cols \<and> acks \<le> card (voters \<inter> column_cell members cols c)"

text \<open>Only a grid may be asked about a named row or column.\<close>

fun names_cell :: "quorum_system \<Rightarrow> nat option \<Rightarrow> bool" where
  "names_cell (Grid _ _ _) _ = True"
| "names_cell _ cell = (cell = None)"

lemma members_ok_distinct: "members_ok members \<Longrightarrow> distinct members"
  by (auto simp: members_ok_def strict_sorted_iff)

lemma card_members: "members_ok members \<Longrightarrow> card (set members) = length members"
  by (simp add: distinct_card members_ok_distinct)

lemma majority_of_total [total_simps]:
  assumes "n < u64_max"
  shows "majority_of n = Some (n div 2 + 1)"
proof -
  have "n < (n div 2 + 1) * 2" "0 < n \<Longrightarrow> n div 2 + 1 \<le> n" by presburger+
  with assms show ?thesis
    by (auto simp: majority_of_def saturating_mul64_def)
qed

lemma counted_total [total_simps]:
  assumes "members_ok members" "finite voters"
  shows "counted members voters = Some (card (voters \<inter> set members))"
proof -
  have "length (filter (\<lambda>v. v \<in> set members) (sorted_list_of_set voters)) = card (voters \<inter> set members)"
    using assms(2) by (simp add: distinct_length_filter Int_commute)
  moreover
  have "card (voters \<inter> set members) \<le> length members"
    by (rule le_trans[OF card_mono card_length]) auto
  ultimately show ?thesis
    using assms(1) by (simp add: counted_def members_ok_def)
qed

lemma is_majority_total [total_simps]:
  assumes "members_ok members" "finite voters"
  shows "is_majority members voters = Some (length members < 2 * card (voters \<inter> set members))"
proof -
  have "voters \<noteq> {}" if "length members div 2 + 1 \<le> card (voters \<inter> set members)"
    using that by auto
  moreover have "length members div 2 + 1 \<le> k \<longleftrightarrow> length members < 2 * k" for k
    by auto
  ultimately show ?thesis
    using assms by (auto simp: is_majority_def members_ok_def total_simps)
qed

lemma column_votes_total [total_simps]:
  assumes "members_ok members" "column < cols"
  shows "column_votes members cols column voters =
    Some (card (voters \<inter> column_cell members cols column))"
  using assms
  by (simp add: column_votes_def grid_column_nths column_cell_def distinct_length_filter
      members_ok_distinct Int_def)

lemma phase1_per_column_total [total_simps]:
  "1 \<le> acks \<Longrightarrow> acks \<le> rows \<Longrightarrow> rows < u64_max \<Longrightarrow>
   phase1_per_column (Grid rows cols acks) = Some (Some (rows - acks + 1))"
  by (simp add: saturating_add64_def checked_add64_def)

declare phase1_per_column.simps(3) [simp del]

lemma admits_total [total_simps]:
  assumes "n < u64_max"
  shows "admits q n = Some (runs_over q n)"
proof (cases q)
  case (Flexible a b)
  with assms show ?thesis
    by (auto simp: admits_def cross_intersects_def phase1_quorum_size_def phase2_quorum_size_def
        saturating_add64_def)
next
  case Majority
  with assms show ?thesis
    by (auto simp: admits_def cross_intersects_def phase1_quorum_size_def phase2_quorum_size_def
        saturating_add64_def total_simps)
next
  case (Grid rows cols acks)
  have "rows < u64_max" if "1 \<le> cols" "rows * cols = n"
    using assms that by (metis le_less_trans mult.right_neutral mult_le_mono2)
  with assms Grid show ?thesis
    by (auto simp: admits_def cross_intersects_def total_simps)
qed

lemma runs_over_nonempty: "runs_over q n \<Longrightarrow> 1 \<le> n"
  by (cases q) auto

lemma runs_over_grid_rows:
  "runs_over (Grid rows cols acks) n \<Longrightarrow> n < u64_max \<Longrightarrow> rows < u64_max"
  by (auto intro: le_less_trans[of rows "rows * cols"])

text \<open>No assertion of the two predicates fires over a membership the system runs over, and each
  answers its reading.\<close>

lemma quorum_has_member:
  assumes "1 \<le> card (voters \<inter> S)" "S \<subseteq> set members"
  shows "Suc 0 \<le> card (voters \<inter> set members)"
proof -
  have "card (voters \<inter> S) \<le> card (voters \<inter> set members)"
    using assms(2) by (intro card_mono) auto
  with assms(1) show ?thesis by simp
qed

lemma phase1_holds_member:
  assumes "members_ok members" "runs_over q (length members)" "phase1_holds q members voters row"
  shows "Suc 0 \<le> card (voters \<inter> set members)"
proof (cases q)
  case (Grid rows cols acks)
  show ?thesis
  proof (cases row)
    case None
    with assms Grid show ?thesis
      by (intro quorum_has_member[OF _ column_cell_subset[of members cols 0]]) force
  next
    case (Some r)
    with assms Grid have "0 < cols" "r < rows" "length members = rows * cols"
      "row_cell members cols r \<subseteq> voters"
      by auto
    moreover from this have "r * cols < length members" "r * cols div cols = r" by simp_all
    moreover from this have "members ! (r * cols) \<in> row_cell members cols r"
      unfolding row_cell_iff by blast
    ultimately show ?thesis
      by (auto simp: Suc_le_eq card_gt_0_iff)
  qed
qed (use assms in auto)

lemma phase2_holds_member:
  assumes "members_ok members" "runs_over q (length members)" "phase2_holds q members voters column"
  shows "Suc 0 \<le> card (voters \<inter> set members)"
proof (cases q)
  case (Grid rows cols acks)
  with assms obtain c where "acks \<le> card (voters \<inter> column_cell members cols c)" "1 \<le> acks"
    by (cases column) auto
  then show ?thesis
    by (intro quorum_has_member[OF _ column_cell_subset[of members cols c]]) simp
qed (use assms in auto)

lemma is_phase1_quorum_in_total [total_simps]:
  assumes ok: "members_ok members" "runs_over q (length members)" "names_cell q row"
    "finite voters"
  shows "is_phase1_quorum_in q members voters row = Some (phase1_holds q members voters row)"
proof -
  have len: "length members < u64_max" using ok by (simp add: members_ok_def)
  note member = phase1_holds_member[OF ok(1,2), of voters row]
  show ?thesis
  proof (cases q)
    case (Grid rows cols acks)
    with ok len have rows: "rows < u64_max" and cols: "1 \<le> cols" "1 \<le> acks" "acks \<le> rows"
      using runs_over_grid_rows by auto
    show ?thesis
    proof (cases row)
      case None
      have "try_all (\<lambda>c. column_votes members cols c voters \<bind>
              (\<lambda>votes. Some (rows - acks + 1 \<le> votes))) [0..<cols] =
            Some (\<forall>c \<in> set [0..<cols]. rows - acks + 1 \<le> card (voters \<inter> column_cell members cols c))"
        using ok by (intro try_all_total) (simp add: total_simps)
      also have "\<dots> = Some (phase1_holds q members voters row)"
      proof -
        have "rows - acks + 1 \<le> k \<longleftrightarrow> rows < k + acks" for k using cols by auto
        then show ?thesis using None Grid by (auto simp: Ball_def)
      qed
      finally show ?thesis
        using None Grid ok rows cols member
        by (simp add: is_phase1_quorum_in_def total_simps del: phase1_holds.simps)
    next
      case (Some r)
      obtain cell where "grid_row members cols r = Some cell" "set cell = row_cell members cols r"
        using grid_row_slice[OF len cols(1)] by blast
      then show ?thesis
        using Some Grid ok member
        by (auto simp: is_phase1_quorum_in_def total_simps all_voted_def list_all_iff)
    qed
  qed (use ok member in \<open>auto simp: is_phase1_quorum_in_def total_simps\<close>)
qed

lemma is_phase2_quorum_in_total [total_simps]:
  assumes ok: "members_ok members" "runs_over q (length members)" "names_cell q column"
    "finite voters"
  shows "is_phase2_quorum_in q members voters column = Some (phase2_holds q members voters column)"
proof -
  note member = phase2_holds_member[OF ok(1,2), of voters column]
  show ?thesis
  proof (cases q)
    case (Grid rows cols acks)
    show ?thesis
    proof (cases column)
      case None
      have "try_any (\<lambda>c. column_votes members cols c voters \<bind>
              (\<lambda>votes. Some (acks \<le> votes))) [0..<cols] =
            Some (\<exists>c \<in> set [0..<cols]. acks \<le> card (voters \<inter> column_cell members cols c))"
        using ok by (intro try_any_total) (simp add: total_simps)
      also have "\<dots> = Some (phase2_holds q members voters column)"
        using None Grid by auto
      finally show ?thesis
        using None Grid ok member
        by (simp add: is_phase2_quorum_in_def total_simps del: phase2_holds.simps)
    qed (use Grid ok member in \<open>auto simp: is_phase2_quorum_in_def total_simps\<close>)
  qed (use ok member in \<open>auto simp: is_phase2_quorum_in_def total_simps\<close>)
qed

lemma names_cell_None [simp]: "names_cell q None"
  by (cases q) auto

lemma is_phase1_quorum_total [total_simps]:
  "members_ok members \<Longrightarrow> runs_over q (length members) \<Longrightarrow> finite voters \<Longrightarrow>
   is_phase1_quorum q members voters = Some (phase1_holds q members voters None)"
  by (auto simp: is_phase1_quorum_def total_simps)

lemma is_phase2_quorum_total [total_simps]:
  "members_ok members \<Longrightarrow> runs_over q (length members) \<Longrightarrow> finite voters \<Longrightarrow>
   is_phase2_quorum q members voters = Some (phase2_holds q members voters None)"
  by (auto simp: is_phase2_quorum_def total_simps)

subsection \<open>Every Phase-1 quorum meets every Phase-2 quorum\<close>

lemma pigeonhole_meet:
  assumes "finite S" "card S < card (A \<inter> S) + card (B \<inter> S)"
  shows "\<exists>x \<in> S. x \<in> A \<and> x \<in> B"
proof (rule ccontr)
  assume "\<not> ?thesis"
  then have "(A \<inter> S) \<inter> (B \<inter> S) = {}" by blast
  then have "card (A \<inter> S) + card (B \<inter> S) = card ((A \<inter> S) \<union> (B \<inter> S))"
    using assms(1) by (simp add: card_Un_disjoint)
  also have "\<dots> \<le> card S" using assms(1) by (intro card_mono) auto
  finally show False using assms(2) by simp
qed

lemma row_meets_column:
  assumes "row < rows" "column < cols" "length members = rows * cols"
  shows "\<exists>m. m \<in> row_cell members cols row \<and> m \<in> column_cell members cols column"
proof -
  have "Suc row * cols \<le> rows * cols" using assms(1) by (intro mult_le_mono1) simp
  with assms(2,3) have "row * cols + column < length members" by simp
  moreover have "(row * cols + column) div cols = row" "(row * cols + column) mod cols = column"
    using assms(2) by simp_all
  ultimately show ?thesis
    unfolding row_cell_iff column_cell_iff by blast
qed

lemma whole_column:
  assumes "finite S" "card S \<le> card (A \<inter> S)"
  shows "S \<subseteq> A"
  using card_subset_eq[OF assms(1), of "A \<inter> S"] assms
  by (metis Int_lower2 card_mono inf.absorb_iff2 le_antisym)

lemma phases_intersect:
  assumes ok: "members_ok members" "runs_over q (length members)"
    and p1: "phase1_holds q members A row" and p2: "phase2_holds q members B column"
  shows "\<exists>m \<in> set members. m \<in> A \<and> m \<in> B"
proof (cases q)
  case (Grid rows cols acks)
  obtain c where c: "c < cols" "acks \<le> card (B \<inter> column_cell members cols c)"
    using p2 Grid by (cases column) auto
  have card: "card (column_cell members cols c) = rows"
    using ok Grid c by (intro card_column_cell) (auto dest: members_ok_distinct)
  have "\<exists>m \<in> column_cell members cols c. m \<in> A \<and> m \<in> B"
  proof (cases row)
    case None
    then show ?thesis
      using p1 Grid c card by (intro pigeonhole_meet) auto
  next
    case (Some r)
    with p1 Grid have r: "acks = rows" "r < rows" "row_cell members cols r \<subseteq> A" by auto
    moreover have "column_cell members cols c \<subseteq> B"
      using whole_column c card r by (metis finite_column_cell)
    moreover obtain m where "m \<in> row_cell members cols r" "m \<in> column_cell members cols c"
      using row_meets_column[OF r(2) c(1), of members] ok Grid by auto
    ultimately show ?thesis by blast
  qed
  then show ?thesis using column_cell_subset[of members cols c] by blast
next
  case Majority
  with p1 p2 show ?thesis by (intro pigeonhole_meet) (simp_all add: card_members[OF ok(1)])
next
  case (Flexible a b)
  with ok(2) p1 p2 show ?thesis by (intro pigeonhole_meet) (simp_all add: card_members[OF ok(1)])
qed

lemma card_Int_mono: "A \<subseteq> B \<Longrightarrow> finite S \<Longrightarrow> card (A \<inter> S) \<le> card (B \<inter> S)"
  by (intro card_mono) auto

lemma phase1_holds_mono:
  assumes "phase1_holds q members A row" "A \<subseteq> B"
  shows "phase1_holds q members B row"
proof -
  have all: "card (A \<inter> set members) \<le> card (B \<inter> set members)"
    using assms(2) by (simp add: card_Int_mono)
  have cell: "card (A \<inter> column_cell members cols c) \<le> card (B \<inter> column_cell members cols c)" for cols c
    using assms(2) by (simp add: card_Int_mono)
  show ?thesis
  proof (cases q)
    case (Grid rows cols acks)
    show ?thesis
    proof (cases row)
      case None
      have "rows < card (B \<inter> column_cell members cols c) + acks" if "c < cols" for c
        using assms(1) Grid None that cell[of cols c] by fastforce
      with Grid None show ?thesis by simp
    qed (use assms Grid in auto)
  qed (use assms(1) all in auto)
qed

lemma phase2_holds_mono:
  assumes "phase2_holds q members A column" "A \<subseteq> B"
  shows "phase2_holds q members B column"
proof -
  have all: "card (A \<inter> set members) \<le> card (B \<inter> set members)"
    using assms(2) by (simp add: card_Int_mono)
  have cell: "acks \<le> card (B \<inter> column_cell members cols c)"
    if "acks \<le> card (A \<inter> column_cell members cols c)" for acks cols c
    using assms(2) that by (meson card_Int_mono finite_column_cell le_trans)
  show ?thesis
  proof (cases q)
    case (Grid rows cols acks)
    with assms(1) cell show ?thesis by (cases column) auto
  qed (use assms(1) all in auto)
qed

lemma everyone_is_quorum:
  assumes ok: "members_ok members" "runs_over q (length members)"
  shows "phase1_holds q members (set members) None" "phase2_holds q members (set members) None"
proof -
  note card = distinct_card[OF members_ok_distinct[OF ok(1)]]
  have cell: "card (set members \<inter> column_cell members cols c) = rows"
    if "q = Grid rows cols acks" "c < cols" for rows cols acks c
    using that ok card_column_cell[of members rows cols c] column_cell_subset[of members cols c]
    by (simp add: members_ok_distinct inf.absorb2)
  show "phase1_holds q members (set members) None"
    using ok card cell by (cases q) auto
  show "phase2_holds q members (set members) None"
    using ok card cell by (cases q) (auto intro: exI[of _ 0])
qed

subsection \<open>Sizes\<close>

lemma card_by_columns:
  assumes "distinct members" "1 \<le> cols"
  shows "card (V \<inter> set members) = (\<Sum>c < cols. card (V \<inter> column_cell members cols c))"
proof -
  have "V \<inter> set members = (\<Union>c < cols. V \<inter> column_cell members cols c)"
  proof (intro set_eqI iffI)
    fix m
    assume m: "m \<in> V \<inter> set members"
    then obtain i where "i < length members" "members ! i = m" by (auto simp: in_set_conv_nth)
    with assms(2) m have "m \<in> V \<inter> column_cell members cols (i mod cols)" "i mod cols < cols"
      by (auto simp: column_cell_iff)
    then show "m \<in> (\<Union>c < cols. V \<inter> column_cell members cols c)" by blast
  qed (auto simp: column_cell_iff)
  moreover have "column_cell members cols c \<inter> column_cell members cols d = {}" if "c \<noteq> d" for c d
    using that assms(1) by (auto simp: column_cell_iff nth_eq_iff_index_eq)
  then have "card (\<Union>c < cols. V \<inter> column_cell members cols c) =
      (\<Sum>c < cols. card (V \<inter> column_cell members cols c))"
    by (intro card_UN_disjoint) auto
  ultimately show ?thesis by simp
qed

lemma phase1_quorum_size_total [total_simps]:
  assumes "n < u64_max" "runs_over q n"
  shows "phase1_quorum_size q n = Some (case q of
      Majority \<Rightarrow> n div 2 + 1 | Flexible a _ \<Rightarrow> a | Grid rows cols acks \<Rightarrow> cols * (rows - acks + 1))"
proof (cases q)
  case (Grid rows cols acks)
  with assms have ok: "1 \<le> acks" "acks \<le> rows" "rows * cols = n" "rows < u64_max"
    using runs_over_grid_rows by auto
  from ok(1,2) have "rows - acks + 1 \<le> rows" by linarith
  then have "cols * (rows - acks + 1) \<le> cols * rows" by (rule mult_le_mono2)
  with ok(3) have "cols * (rows - acks + 1) \<le> n" by (simp add: mult.commute)
  with assms(1) ok Grid show ?thesis
    by (simp add: phase1_quorum_size_def total_simps saturating_mul64_def)
qed (use assms in \<open>simp_all add: phase1_quorum_size_def total_simps\<close>)

lemma phase2_quorum_size_total [total_simps]:
  assumes "n < u64_max" "runs_over q n"
  shows "phase2_quorum_size q n = Some (case q of
      Majority \<Rightarrow> n div 2 + 1 | Flexible _ b \<Rightarrow> b | Grid rows cols acks \<Rightarrow> acks)"
proof (cases q)
  case (Grid rows cols acks)
  with assms have "acks \<le> n"
    by (auto intro: le_trans[of acks rows])
  with Grid show ?thesis
    by (simp add: phase2_quorum_size_def)
qed (use assms in \<open>simp_all add: phase2_quorum_size_def total_simps\<close>)

text \<open>A whole row of a full-column grid holds a member of every column.\<close>

lemma phase1_row_holds:
  assumes ok: "runs_over q (length members)" and p1: "phase1_holds q members V row"
  shows "phase1_holds q members V None"
proof (cases "\<exists>rows cols acks r. q = Grid rows cols acks \<and> row = Some r")
  case True
  then obtain rows cols acks r where q: "q = Grid rows cols acks" "row = Some r" by blast
  with p1 have r: "acks = rows" "r < rows" "row_cell members cols r \<subseteq> V" by auto
  have "1 \<le> card (V \<inter> column_cell members cols c)" if "c < cols" for c
    using row_meets_column[OF r(2) that, of members] ok q r(3)
    by (auto simp: Suc_le_eq card_gt_0_iff)
  with q r show ?thesis by (auto simp: Suc_le_eq)
next
  case False
  with p1 show ?thesis by (cases q; cases row) auto
qed

lemma phase1_quorum_size_least:
  assumes ok: "members_ok members" "runs_over q (length members)"
    and p1': "phase1_holds q members V row" and size: "phase1_quorum_size q (length members) = Some k"
  shows "k \<le> card (V \<inter> set members)"
proof -
  have len: "length members < u64_max" using ok(1) by (simp add: members_ok_def)
  have p1: "phase1_holds q members V None" using phase1_row_holds[OF ok(2) p1'] .
  show ?thesis
  proof (cases q)
    case (Grid rows cols acks)
    have cell: "rows - acks + 1 \<le> card (V \<inter> column_cell members cols c)" if "c < cols" for c
    proof -
      from p1 Grid that have "rows < card (V \<inter> column_cell members cols c) + acks" by simp
      moreover have "acks \<le> rows" using ok(2) Grid by simp
      ultimately show ?thesis by linarith
    qed
    have "k = (\<Sum>c < cols. rows - acks + 1)"
      using size phase1_quorum_size_total[OF len ok(2)] Grid by simp
    also have "\<dots> \<le> (\<Sum>c < cols. card (V \<inter> column_cell members cols c))"
      using cell by (intro sum_mono) simp
    also have "\<dots> = card (V \<inter> set members)"
      using ok Grid by (subst card_by_columns) (auto dest: members_ok_distinct)
    finally show ?thesis .
  qed (use size p1 phase1_quorum_size_total[OF len ok(2)] in auto)
qed

lemma phase2_quorum_size_least:
  assumes ok: "members_ok members" "runs_over q (length members)"
    and p2: "phase2_holds q members V column" and size: "phase2_quorum_size q (length members) = Some k"
  shows "k \<le> card (V \<inter> set members)"
proof -
  have len: "length members < u64_max" using ok(1) by (simp add: members_ok_def)
  show ?thesis
  proof (cases q)
    case (Grid rows cols acks)
    with p2 obtain c where "acks \<le> card (V \<inter> column_cell members cols c)" by (cases column) auto
    also have "\<dots> \<le> card (V \<inter> set members)"
      using column_cell_subset[of members cols c] by (intro card_mono) auto
    finally show ?thesis
      using size phase2_quorum_size_total[OF len ok(2)] Grid by simp
  qed (use size p2 phase2_quorum_size_total[OF len ok(2)] in auto)
qed

subsection \<open>Fan-outs and the tallies they feed\<close>

lemma position_of_Some:
  "distinct members \<Longrightarrow>
   position_of members node = Some i \<longleftrightarrow> i < length members \<and> members ! i = node"
proof (induction members arbitrary: i)
  case (Cons m members)
  show ?case
  proof (cases "m = node")
    case True
    with Cons.prems have "members ! j \<noteq> node" if "j < length members" for j
      using that by auto
    with True show ?thesis by (cases i) auto
  next
    case False
    with Cons show ?thesis by (cases i) auto
  qed
qed simp

lemma position_of_None: "position_of members node = None \<longleftrightarrow> node \<notin> set members"
  by (induction members) auto

lemma position_of_cases:
  assumes "distinct members"
  obtains "position_of members node = None" "node \<notin> set members"
  | i where "position_of members node = Some i" "i < length members" "members ! i = node"
  using assms position_of_None[of members node] position_of_Some[of members node]
  by (cases "position_of members node") blast+

lemma in_cell_iff:
  assumes "distinct members" "i < length members" "members ! i = node"
  shows "node \<in> set (nths members I) \<longleftrightarrow> i \<in> I"
  using assms by (auto simp: set_nths nth_eq_iff_index_eq)

lemma length_nths_le: "length (nths xs I) \<le> length xs"
  using length_filter_le[of _ "zip xs [0..<length xs]"] by (simp add: nths_def)

lemma is_phase2_addressee_iff:
  assumes ok: "members_ok members" "names_cell q column"
    and col: "\<And>c. column = Some c \<Longrightarrow> c < grid_cols q"
  shows "\<exists>to. phase2_addressees q members column = Some to \<and>
    is_phase2_addressee q members node column = Some (node \<in> set to)"
proof (cases "\<exists>c. column = Some c")
  case True
  then obtain c where c: "column = Some c" by blast
  with ok(2) obtain rows cols acks where q: "q = Grid rows cols acks" by (cases q) auto
  with col c have lt: "c < cols" by simp
  then have to: "phase2_addressees q members column = Some (nths members {i. i mod cols = c})"
    by (simp add: phase2_addressees_def q c grid_column_nths length_nths_le)
  from members_ok_distinct[OF ok(1)] have
    "is_phase2_addressee q members node column = Some (node \<in> set (nths members {i. i mod cols = c}))"
  proof (cases rule: position_of_cases[where node = node])
    case 1
    then show ?thesis
      using set_nths_subset[of members] by (auto simp: is_phase2_addressee_def)
  next
    case (2 i)
    then show ?thesis
      using lt in_cell_iff[OF members_ok_distinct[OF ok(1)] 2(2,3)]
      by (simp add: is_phase2_addressee_def q c)
  qed
  with to show ?thesis by blast
next
  case False
  then have "phase2_addressees q members column = Some members"
    by (cases q; cases column) (simp_all add: phase2_addressees_def)
  moreover have "is_phase2_addressee q members node column = Some (node \<in> set members)"
    using False position_of_None[of members node]
    by (cases q; cases column; cases "position_of members node")
      (simp_all add: is_phase2_addressee_def)
  ultimately show ?thesis by blast
qed

lemma is_phase1_addressee_iff:
  assumes ok: "members_ok members" "names_cell q row" "runs_over q (length members)"
  shows "\<exists>to. phase1_addressees q members row = Some to \<and>
    is_phase1_addressee q members node row = Some (node \<in> set to)"
proof (cases "\<exists>r. row = Some r")
  case True
  then obtain r where r: "row = Some r" by blast
  with ok(2) obtain rows cols acks where q: "q = Grid rows cols acks" by (cases q) auto
  with ok(3) have cols: "1 \<le> cols" by simp
  then obtain cell where cell: "grid_row members cols r = Some cell"
    "set cell = row_cell members cols r" "length cell \<le> length members"
    using grid_row_slice[of members cols r] ok(1) by (auto simp: members_ok_def)
  have to: "phase1_addressees q members row = Some cell"
    by (simp add: phase1_addressees_def q r cell)
  from members_ok_distinct[OF ok(1)] have
    "is_phase1_addressee q members node row = Some (node \<in> row_cell members cols r)"
  proof (cases rule: position_of_cases[where node = node])
    case 1
    then show ?thesis
      using set_nths_subset[of members] by (auto simp: is_phase1_addressee_def row_cell_def)
  next
    case (2 i)
    then show ?thesis
      using cols in_cell_iff[OF members_ok_distinct[OF ok(1)] 2(2,3)]
      by (simp add: is_phase1_addressee_def q r row_cell_def)
  qed
  with to cell show ?thesis by simp
next
  case False
  then have "phase1_addressees q members row = Some members"
    by (cases q; cases row) (simp_all add: phase1_addressees_def)
  moreover have "is_phase1_addressee q members node row = Some (node \<in> set members)"
    using False position_of_None[of members node]
    by (cases q; cases row; cases "position_of members node")
      (simp_all add: is_phase1_addressee_def)
  ultimately show ?thesis by blast
qed

text \<open>A round addressed to one cell is decided by that cell alone: votes from outside it change
  nothing.\<close>

lemma phase2_holds_addressees:
  assumes "members_ok members" "names_cell q column" "phase2_addressees q members column = Some to"
  shows "phase2_holds q members V column \<longleftrightarrow> phase2_holds q members (V \<inter> set to) column"
proof (cases "\<exists>rows cols acks c. q = Grid rows cols acks \<and> column = Some c")
  case True
  then obtain rows cols acks c where q: "q = Grid rows cols acks" "column = Some c" by blast
  show ?thesis
  proof (cases "c < cols")
    case lt: True
    then have "set to = column_cell members cols c"
      using assms(3) q
      by (simp add: phase2_addressees_def grid_column_nths column_cell_def length_nths_le)
    then show ?thesis by (simp add: q Int_assoc)
  qed (simp add: q)
next
  case False
  then have "to = members"
    using assms(2,3) by (cases q; cases column) (auto simp: phase2_addressees_def)
  moreover have "V \<inter> set members \<inter> column_cell members cols c = V \<inter> column_cell members cols c" for cols c
    using column_cell_subset[of members cols c] by blast
  ultimately show ?thesis
    using False by (cases q; cases column) (simp_all add: Int_assoc)
qed

subsection \<open>The contract\<close>

text \<open>What the protocol needs of a family of quorums: over a well-formed configuration the two phases
  intersect, and more votes never lose a quorum.\<close>

locale quorum_family =
  fixes wf :: "'c \<Rightarrow> bool"
    and Q1 :: "'c \<Rightarrow> 'id set \<Rightarrow> bool"
    and Q2 :: "'c \<Rightarrow> 'id set \<Rightarrow> bool"
  assumes phases_meet: "wf c \<Longrightarrow> Q1 c A \<Longrightarrow> Q2 c B \<Longrightarrow> A \<inter> B \<noteq> {}"
    and Q1_mono: "Q1 c A \<Longrightarrow> A \<subseteq> B \<Longrightarrow> Q1 c B"
    and Q2_mono: "Q2 c A \<Longrightarrow> A \<subseteq> B \<Longrightarrow> Q2 c B"
    and Q2_exists: "wf c \<Longrightarrow> \<exists>B. Q2 c B"
begin

lemma Q1_nonempty: "wf c \<Longrightarrow> Q1 c A \<Longrightarrow> A \<noteq> {}"
  using Q2_exists phases_meet by blast

text \<open>A Phase-1 quorum that all refuse to vote leaves no Phase-2 quorum behind it.\<close>

lemma fenced: "wf c \<Longrightarrow> Q1 c A \<Longrightarrow> B \<inter> A = {} \<Longrightarrow> \<not> Q2 c B"
  using phases_meet by blast

text \<open>Once a value is chosen, every Phase-1 quorum holds a witness of it.\<close>

lemma chosen_has_witness:
  assumes "wf c" "Q2 c B" "B \<subseteq> voted" "Q1 c A"
  shows "\<exists>a \<in> A. a \<in> voted"
  using assms phases_meet[of c A B] by blast

end

interpretation qs: quorum_family
  "\<lambda>(q, members). members_ok members \<and> runs_over q (length members)"
  "\<lambda>(q, members) V. \<exists>row. phase1_holds q members V row"
  "\<lambda>(q, members) V. \<exists>column. phase2_holds q members V column"
proof (unfold_locales, goal_cases)
  case (1 c A B)
  then show ?case
    using phases_intersect by (cases c) fastforce
qed (auto dest: phase1_holds_mono phase2_holds_mono everyone_is_quorum)

section \<open>Properties\<close>

lemma quorum_in_names_cell:
  "is_phase1_quorum_in q members voters row = Some b \<Longrightarrow> names_cell q row"
  "is_phase2_quorum_in q members voters row = Some b \<Longrightarrow> names_cell q row"
  by (cases q; force simp: is_phase1_quorum_in_def is_phase2_quorum_in_def bind_Some_iff)+

lemma admits_runs_over:
  "members_ok members \<Longrightarrow> admits q (length members) = Some True \<Longrightarrow> runs_over q (length members)"
  by (simp add: members_ok_def admits_total)

text \<open>C14: over a sorted membership that the quorum system admits, every set of voters that
  \<open>is_phase1_quorum_in\<close> accepts, whatever row it was asked in, shares a member with every set of voters
  that \<open>is_phase2_quorum_in\<close> accepts, whatever column it was asked in. This is the one fact Paxos
  safety rests on, for majorities, flexible splits and grids alike.\<close>

theorem quorum_phases_intersect:
  assumes "members_ok members" "admits q (length members) = Some True" "finite A" "finite B"
    and "is_phase1_quorum_in q members A row = Some True"
    and "is_phase2_quorum_in q members B column = Some True"
  shows "\<exists>m \<in> set members. m \<in> A \<and> m \<in> B"
proof -
  have over: "runs_over q (length members)" using assms admits_runs_over by blast
  have "phase1_holds q members A row"
    using assms over quorum_in_names_cell(1)[of q members A row] by (simp add: total_simps)
  moreover have "phase2_holds q members B column"
    using assms over quorum_in_names_cell(2)[of q members B column] by (simp add: total_simps)
  ultimately show ?thesis using assms over phases_intersect by blast
qed

lemmas quorum_eval = is_phase1_quorum_in_def is_phase2_quorum_in_def counted_def column_votes_def
  grid_column_def grid_row_def all_voted_def phase1_per_column.simps upt_rec
  checked_add64_def saturating_add64_def saturating_mul64_def u64_max_def

theorem quorum_phases_intersect_witness:
  "\<exists>m \<in> set [1, 2, 3, 4, 5, 6 :: nat]. m \<in> {1, 2, 3, 4} \<and> m \<in> {3, 4, 2, 6}"
proof (rule quorum_phases_intersect)
  show "members_ok [1, 2, 3, 4, 5, 6 :: nat]" by (simp add: members_ok_def u64_max_def)
  show "admits (Grid 3 2 2) (length [1, 2, 3, 4, 5, 6 :: nat]) = Some True"
    by (simp add: admits_total u64_max_def)
  show "is_phase1_quorum_in (Grid 3 2 2) [1, 2, 3, 4, 5, 6 :: nat] {1, 2, 3, 4} None = Some True"
    by (simp add: quorum_eval)
  show "is_phase2_quorum_in (Grid 3 2 2) [1, 2, 3, 4, 5, 6 :: nat] {3, 4, 2, 6} (Some 1) = Some True"
    by (simp add: quorum_eval)
qed simp_all

text \<open>C15: over a membership the system admits, none of the assertions of the two quorum predicates
  fires (only a grid is asked about a named cell), and each answers exactly its specification: a count
  above half, at least \<open>q1\<close> or \<open>q2\<close> members, \<open>rows - acks + 1\<close> of every column or a whole row of a
  full-column grid, and \<open>acks\<close> of one column.\<close>

theorem quorum_predicates_answer:
  assumes "members_ok members" "admits q (length members) = Some True" "finite voters"
    and "names_cell q cell"
  shows "is_phase1_quorum_in q members voters cell = Some (phase1_holds q members voters cell) \<and>
    is_phase2_quorum_in q members voters cell = Some (phase2_holds q members voters cell) \<and>
    is_phase1_quorum q members voters = Some (phase1_holds q members voters None) \<and>
    is_phase2_quorum q members voters = Some (phase2_holds q members voters None)"
  using assms admits_runs_over[OF assms(1,2)] by (simp_all add: total_simps)

theorem quorum_predicates_answer_witness:
  "is_phase1_quorum_in (Grid 2 2 2) [1, 2, 3, 4 :: nat] {3, 4} (Some 1) =
     Some (phase1_holds (Grid 2 2 2) [1, 2, 3, 4 :: nat] {3, 4} (Some 1))"
  using quorum_predicates_answer[of "[1, 2, 3, 4 :: nat]" "Grid 2 2 2" "{3, 4}" "Some 1"]
  by (simp add: members_ok_def admits_total u64_max_def)

text \<open>C16: the fan-out and the tally agree. \<open>phase2_addressees\<close> returns exactly the nodes that
  \<open>is_phase2_addressee\<close> lets into a tally, and a vote from outside that fan-out never changes whether
  the round's quorum holds: acks from two columns never add up.\<close>

theorem phase2_fan_out_is_the_tally:
  assumes "members_ok members" "admits q (length members) = Some True" "names_cell q column"
    and "\<And>c. column = Some c \<Longrightarrow> c < grid_cols q"
  shows "\<exists>to. phase2_addressees q members column = Some to \<and>
    (\<forall>node. is_phase2_addressee q members node column = Some (node \<in> set to)) \<and>
    (\<forall>voters. finite voters \<longrightarrow> is_phase2_quorum_in q members voters column =
       is_phase2_quorum_in q members (voters \<inter> set to) column)"
proof -
  obtain to where to: "phase2_addressees q members column = Some to"
    using is_phase2_addressee_iff[OF assms(1,3,4)] by blast
  then have "is_phase2_addressee q members node column = Some (node \<in> set to)" for node
    using is_phase2_addressee_iff[OF assms(1,3,4), of node] by auto
  moreover have "is_phase2_quorum_in q members voters column =
      is_phase2_quorum_in q members (voters \<inter> set to) column" if "finite voters" for voters
    using that assms admits_runs_over[OF assms(1,2)] phase2_holds_addressees[OF assms(1,3) to]
    by (simp add: total_simps)
  ultimately show ?thesis using to by blast
qed

theorem phase2_fan_out_is_the_tally_witness:
  "\<exists>to. phase2_addressees (Grid 2 2 1) [1, 2, 3, 4 :: nat] (Some 1) = Some to \<and>
    (\<forall>node. is_phase2_addressee (Grid 2 2 1) [1, 2, 3, 4] node (Some 1) = Some (node \<in> set to)) \<and>
    (\<forall>voters. finite voters \<longrightarrow> is_phase2_quorum_in (Grid 2 2 1) [1, 2, 3, 4] voters (Some 1) =
       is_phase2_quorum_in (Grid 2 2 1) [1, 2, 3, 4] (voters \<inter> set to) (Some 1))"
  by (rule phase2_fan_out_is_the_tally) (simp_all add: members_ok_def admits_total u64_max_def)

end
