(* ===== verification/Acceptor_Config.thy ===== *)
theory Acceptor_Config
  imports Quorum_System "HOL-Library.List_Lexorder" "HOL-Library.Char_ord"
begin

section \<open>Acceptor configurations\<close>

text \<open>
  The configuration type of \<^verbatim>\<open>paros-core/src/membership\<close>: the identities of the proxy and replica
  tiers (\<^verbatim>\<open>ids.rs\<close>), the failure domains (\<^verbatim>\<open>failure_domain.rs\<close>) and
  \<^verbatim>\<open>AcceptorConfig\<close> itself (\<^verbatim>\<open>acceptor_config.rs\<close>). A name is a string of bytes. The one
  constructor normalizes the membership and asserts that the quorum system admits it; \<open>config_ok\<close> is
  the invariant it establishes, and under it no method of a configuration panics and each tally is
  judged by the readings of \<open>Quorum_System\<close>.
\<close>

subsection \<open>Identities\<close>

type_synonym matchmaker_id = nat
type_synonym proxy_id = nat
type_synonym replica_id = nat

definition MAX_ROLE_COUNT :: nat where
  "MAX_ROLE_COUNT = 64"

definition proxy_is_in :: "proxy_id \<Rightarrow> nat \<Rightarrow> bool option" where
  "proxy_is_in proxy proxy_count = do {
     deployed \<leftarrow> rank_is_in proxy proxy_count;
     check (deployed \<longrightarrow> proxy_count > 0);
     Some deployed
   }"

definition proxy_of :: "slot \<Rightarrow> nat \<Rightarrow> proxy_id option option" where
  "proxy_of slot proxy_count = do {
     proxy \<leftarrow> slot_rank slot proxy_count;
     check ((proxy \<noteq> None) = (proxy_count > 0));
     deployed \<leftarrow> (case proxy of None \<Rightarrow> Some True | Some p \<Rightarrow> proxy_is_in p proxy_count);
     check deployed;
     Some proxy
   }"

definition replica_is_in :: "replica_id \<Rightarrow> nat \<Rightarrow> bool option" where
  "replica_is_in replica replica_count = do {
     deployed \<leftarrow> rank_is_in replica replica_count;
     check (deployed \<longrightarrow> replica_count > 0);
     Some deployed
   }"

definition replica_of :: "slot \<Rightarrow> nat \<Rightarrow> replica_id option option" where
  "replica_of slot replica_count = do {
     replica \<leftarrow> slot_rank slot replica_count;
     check ((replica \<noteq> None) = (replica_count > 0));
     deployed \<leftarrow> (case replica of None \<Rightarrow> Some True | Some r \<Rightarrow> replica_is_in r replica_count);
     check deployed;
     Some replica
   }"

subsection \<open>Failure domains\<close>

datatype failure_domain = FailureDomain (fd_region: string) (fd_az: string)

definition MAX_FAILURE_DOMAIN_BYTES :: nat where
  "MAX_FAILURE_DOMAIN_BYTES = 64"

definition failure_domain_new :: "string \<Rightarrow> string \<Rightarrow> failure_domain option" where
  "failure_domain_new region az = do {
     let domain = FailureDomain region az;
     check (length (fd_region domain) \<le> MAX_FAILURE_DOMAIN_BYTES);
     check (length (fd_az domain) \<le> MAX_FAILURE_DOMAIN_BYTES);
     Some domain
   }"

definition failure_domain_is_well_formed :: "failure_domain \<Rightarrow> bool" where
  "failure_domain_is_well_formed domain \<longleftrightarrow>
     length (fd_region domain) \<le> MAX_FAILURE_DOMAIN_BYTES \<and>
     length (fd_az domain) \<le> MAX_FAILURE_DOMAIN_BYTES"

text \<open>The derived order: by region, then by zone.\<close>

instantiation failure_domain :: linorder
begin

definition less_eq_failure_domain :: "failure_domain \<Rightarrow> failure_domain \<Rightarrow> bool" where
  "less_eq_failure_domain a b \<longleftrightarrow> fd_region a < fd_region b \<or>
     fd_region a = fd_region b \<and> fd_az a \<le> fd_az b"

definition less_failure_domain :: "failure_domain \<Rightarrow> failure_domain \<Rightarrow> bool" where
  "less_failure_domain a b \<longleftrightarrow> fd_region a < fd_region b \<or>
     fd_region a = fd_region b \<and> fd_az a < fd_az b"

instance
  by intro_classes (auto simp: less_eq_failure_domain_def less_failure_domain_def
      intro: failure_domain.expand)

end

subsection \<open>The configuration\<close>

record 'id acceptor_config =
  ac_members :: "'id list"
  ac_quorum_system :: quorum_system
  ac_domains :: "failure_domain list"
  ac_cell :: nat
  ac_proxies :: nat
  ac_replicas :: nat

definition ac_is_well_formed :: "'id::linorder acceptor_config \<Rightarrow> bool option" where
  "ac_is_well_formed c = do {
     let n = length (ac_members c);
     admitted \<leftarrow> admits (ac_quorum_system c) n;
     Some (admitted \<and> sorted_wrt (<) (ac_members c)
           \<and> (ac_domains c = [] \<or> length (ac_domains c) = n))
   }"

definition ac_build ::
  "'id::linorder list \<Rightarrow> failure_domain list \<Rightarrow> quorum_system \<Rightarrow> 'id acceptor_config option" where
  "ac_build members domains quorum_system = do {
     check (members \<noteq> []);
     check (domains = [] \<or> length domains = length members);
     let config = \<lparr>ac_members = members, ac_quorum_system = quorum_system, ac_domains = domains,
                   ac_cell = 0, ac_proxies = 0, ac_replicas = 0\<rparr>;
     well_formed \<leftarrow> ac_is_well_formed config;
     check well_formed;
     let n = length members;
     crosses \<leftarrow> cross_intersects quorum_system n;
     check crosses;
     s1 \<leftarrow> phase1_quorum_size quorum_system n;
     check (s1 \<le> n);
     s2 \<leftarrow> phase2_quorum_size quorum_system n;
     check (s2 \<le> n);
     Some config
   }"

text \<open>\<^verbatim>\<open>sort_unstable\<close> and \<^verbatim>\<open>dedup\<close> of a vector of identities.\<close>

definition ac_new :: "'id::linorder list \<Rightarrow> quorum_system \<Rightarrow> 'id acceptor_config option" where
  "ac_new members quorum_system =
     (let members = remdups_adj (sort members) in ac_build members [] quorum_system)"

text \<open>\<^verbatim>\<open>dedup_by\<close> on the first component: the first of a run of equal keys stays.\<close>

fun dedup_fst :: "('k \<times> 'v) list \<Rightarrow> ('k \<times> 'v) list" where
  "dedup_fst [] = []"
| "dedup_fst [x] = [x]"
| "dedup_fst (x # y # zs) = (if fst x = fst y then dedup_fst (x # zs) else x # dedup_fst (y # zs))"

fun one_domain_each :: "('k \<times> 'v) list \<Rightarrow> bool" where
  "one_domain_each (x # y # zs) \<longleftrightarrow>
     (fst x = fst y \<longrightarrow> snd x = snd y) \<and> one_domain_each (y # zs)"
| "one_domain_each _ \<longleftrightarrow> True"

definition ac_zoned ::
  "('id::linorder \<times> failure_domain) list \<Rightarrow> quorum_system \<Rightarrow> 'id acceptor_config option" where
  "ac_zoned members quorum_system = do {
     let members = sort_key fst members;
     check (one_domain_each members);
     let members = dedup_fst members;
     let ids = map fst members;
     let domains = map snd members;
     check (list_all failure_domain_is_well_formed domains);
     ac_build ids domains quorum_system
   }"

definition ac_with_cell ::
  "'id::linorder acceptor_config \<Rightarrow> nat \<Rightarrow> 'id acceptor_config option" where
  "ac_with_cell c cell = do {
     let c = c\<lparr>ac_cell := cell\<rparr>;
     well_formed \<leftarrow> ac_is_well_formed c;
     check well_formed;
     Some c
   }"

definition ac_with_counts ::
  "'id::linorder acceptor_config \<Rightarrow> nat \<Rightarrow> nat \<Rightarrow> 'id acceptor_config option" where
  "ac_with_counts c proxies replicas = do {
     check (proxies \<le> MAX_ROLE_COUNT \<and> replicas \<le> MAX_ROLE_COUNT);
     let c = c\<lparr>ac_proxies := proxies, ac_replicas := replicas\<rparr>;
     well_formed \<leftarrow> ac_is_well_formed c;
     check well_formed;
     Some c
   }"

text \<open>The deserialised form goes through the same constructor.\<close>

record 'id serde_acceptor_config =
  wire_members :: "'id list"
  wire_quorum_system :: quorum_system
  wire_domains :: "failure_domain list"
  wire_cell :: nat
  wire_proxies :: nat
  wire_replicas :: nat

definition ac_from_wire ::
  "'id::linorder serde_acceptor_config \<Rightarrow> 'id acceptor_config option" where
  "ac_from_wire wire = do {
     config \<leftarrow> (if wire_domains wire = []
       then ac_new (wire_members wire) (wire_quorum_system wire)
       else ac_zoned (zip (wire_members wire) (wire_domains wire)) (wire_quorum_system wire));
     config \<leftarrow> ac_with_cell config (wire_cell wire);
     ac_with_counts config (wire_proxies wire) (wire_replicas wire)
   }"

subsection \<open>The questions a configuration answers\<close>

definition ac_has_phase1_quorum_in ::
  "'id::linorder acceptor_config \<Rightarrow> 'id set \<Rightarrow> nat option \<Rightarrow> bool option" where
  "ac_has_phase1_quorum_in c voters row = do {
     quorum \<leftarrow> is_phase1_quorum_in (ac_quorum_system c) (ac_members c) voters row;
     (if quorum
      then do {
        count \<leftarrow> counted (ac_members c) voters;
        size \<leftarrow> phase1_quorum_size (ac_quorum_system c) (length (ac_members c));
        check (count \<ge> size)
      }
      else Some ());
     Some quorum
   }"

definition ac_has_phase1_quorum ::
  "'id::linorder acceptor_config \<Rightarrow> 'id set \<Rightarrow> bool option" where
  "ac_has_phase1_quorum c voters = do {
     quorum \<leftarrow> is_phase1_quorum (ac_quorum_system c) (ac_members c) voters;
     (if quorum
      then do {
        count \<leftarrow> counted (ac_members c) voters;
        size \<leftarrow> phase1_quorum_size (ac_quorum_system c) (length (ac_members c));
        check (count \<ge> size)
      }
      else Some ());
     Some quorum
   }"

definition ac_has_phase2_quorum ::
  "'id::linorder acceptor_config \<Rightarrow> 'id set \<Rightarrow> bool option" where
  "ac_has_phase2_quorum c voters = do {
     quorum \<leftarrow> is_phase2_quorum (ac_quorum_system c) (ac_members c) voters;
     (if quorum
      then do {
        count \<leftarrow> counted (ac_members c) voters;
        size \<leftarrow> phase2_quorum_size (ac_quorum_system c) (length (ac_members c));
        check (count \<ge> size)
      }
      else Some ());
     Some quorum
   }"

definition ac_has_phase2_quorum_in ::
  "'id::linorder acceptor_config \<Rightarrow> 'id set \<Rightarrow> nat option \<Rightarrow> bool option" where
  "ac_has_phase2_quorum_in c voters column = do {
     quorum \<leftarrow> is_phase2_quorum_in (ac_quorum_system c) (ac_members c) voters column;
     (if quorum
      then do {
        count \<leftarrow> counted (ac_members c) voters;
        size \<leftarrow> phase2_quorum_size (ac_quorum_system c) (length (ac_members c));
        check (count \<ge> size)
      }
      else Some ());
     Some quorum
   }"

definition ac_admits_read_row :: "'id acceptor_config \<Rightarrow> nat option \<Rightarrow> bool" where
  "ac_admits_read_row c row = admits_read_row (ac_quorum_system c) row"

definition ac_row_of :: "'id acceptor_config \<Rightarrow> nat \<Rightarrow> nat option option" where
  "ac_row_of c ctx = do {
     row \<leftarrow> row_of (ac_quorum_system c) ctx;
     check (ac_admits_read_row c row);
     Some row
   }"

definition ac_read_row :: "'id acceptor_config \<Rightarrow> nat \<Rightarrow> nat option \<Rightarrow> nat option option" where
  "ac_read_row c ctx chosen = do {
     row \<leftarrow> read_row (ac_quorum_system c) ctx chosen;
     check (ac_admits_read_row c row);
     Some row
   }"

definition ac_contains :: "'id::linorder acceptor_config \<Rightarrow> 'id \<Rightarrow> bool option" where
  "ac_contains c node = do {
     let member = node \<in> set (ac_members c);
     check (sorted_wrt (<) (ac_members c));
     Some member
   }"

definition ac_is_phase1_addressee ::
  "'id::linorder acceptor_config \<Rightarrow> 'id \<Rightarrow> nat option \<Rightarrow> bool option" where
  "ac_is_phase1_addressee c node row = do {
     addressee \<leftarrow> is_phase1_addressee (ac_quorum_system c) (ac_members c) node row;
     (if addressee then do { member \<leftarrow> ac_contains c node; check member } else Some ());
     Some addressee
   }"

definition ac_phase1_addressees ::
  "'id::linorder acceptor_config \<Rightarrow> nat option \<Rightarrow> 'id list option" where
  "ac_phase1_addressees c row = do {
     addressees \<leftarrow> phase1_addressees (ac_quorum_system c) (ac_members c) row;
     all_members \<leftarrow> try_all (\<lambda>a. ac_is_phase1_addressee c a row) addressees;
     check all_members;
     Some addressees
   }"

definition ac_is_phase2_addressee ::
  "'id::linorder acceptor_config \<Rightarrow> 'id \<Rightarrow> nat option \<Rightarrow> bool option" where
  "ac_is_phase2_addressee c node column = do {
     addressee \<leftarrow> is_phase2_addressee (ac_quorum_system c) (ac_members c) node column;
     (if addressee then do { member \<leftarrow> ac_contains c node; check member } else Some ());
     Some addressee
   }"

definition ac_phase2_addressees ::
  "'id::linorder acceptor_config \<Rightarrow> nat option \<Rightarrow> 'id list option" where
  "ac_phase2_addressees c column = do {
     addressees \<leftarrow> phase2_addressees (ac_quorum_system c) (ac_members c) column;
     all_members \<leftarrow> try_all (\<lambda>a. ac_is_phase2_addressee c a column) addressees;
     check all_members;
     Some addressees
   }"

definition ac_column_of :: "'id::linorder acceptor_config \<Rightarrow> slot \<Rightarrow> nat option option" where
  "ac_column_of c slot = do {
     column \<leftarrow> column_of (ac_quorum_system c) slot;
     (case column of
        None \<Rightarrow> Some ()
      | Some column \<Rightarrow> do {
          addressees \<leftarrow> ac_phase2_addressees c (Some column);
          check (addressees \<noteq> [])
        });
     Some column
   }"

definition ac_members' :: "'id acceptor_config \<Rightarrow> 'id list option" where
  "ac_members' c = do { check (ac_members c \<noteq> []); Some (ac_members c) }"

definition ac_domains' :: "'id acceptor_config \<Rightarrow> failure_domain list option" where
  "ac_domains' c = do {
     check (ac_domains c = [] \<or> length (ac_domains c) = length (ac_members c));
     Some (ac_domains c)
   }"

definition ac_has_proxies :: "'id acceptor_config \<Rightarrow> bool" where
  "ac_has_proxies c \<longleftrightarrow> ac_proxies c > 0"

definition ac_has_replicas :: "'id acceptor_config \<Rightarrow> bool" where
  "ac_has_replicas c \<longleftrightarrow> ac_replicas c > 0"

definition ac_reply_owner :: "'id acceptor_config \<Rightarrow> slot \<Rightarrow> replica_id option option" where
  "ac_reply_owner c slot = do {
     owner \<leftarrow> replica_of slot (ac_replicas c);
     check ((owner \<noteq> None) = ac_has_replicas c);
     Some owner
   }"

definition ac_is_zoned :: "'id acceptor_config \<Rightarrow> bool" where
  "ac_is_zoned c \<longleftrightarrow> ac_domains c \<noteq> []"

definition ac_domain_of :: "'id acceptor_config \<Rightarrow> 'id \<Rightarrow> failure_domain option option" where
  "ac_domain_of c node =
     (case position_of (ac_members c) node of
        None \<Rightarrow> Some None
      | Some index \<Rightarrow> do {
          let domain = (if index < length (ac_domains c) then Some (ac_domains c ! index) else None);
          check ((domain \<noteq> None) = ac_is_zoned c);
          Some domain
        })"

definition ac_quorum_system' :: "'id acceptor_config \<Rightarrow> quorum_system option" where
  "ac_quorum_system' c = do {
     admitted \<leftarrow> admits (ac_quorum_system c) (length (ac_members c));
     check admitted;
     Some (ac_quorum_system c)
   }"

definition ac_is_drawn_from :: "'id::linorder acceptor_config \<Rightarrow> 'id list \<Rightarrow> bool option" where
  "ac_is_drawn_from c pool = do {
     check (sorted_wrt (<) pool);
     Some (list_all (\<lambda>m. m \<in> set pool) (ac_members c))
   }"

section \<open>What a configuration guarantees\<close>

definition config_ok :: "'id::linorder acceptor_config \<Rightarrow> bool" where
  "config_ok c \<longleftrightarrow> members_ok (ac_members c) \<and> runs_over (ac_quorum_system c) (length (ac_members c))
     \<and> (ac_domains c = [] \<or> length (ac_domains c) = length (ac_members c))
     \<and> ac_proxies c \<le> MAX_ROLE_COUNT \<and> ac_replicas c \<le> MAX_ROLE_COUNT"

definition config_phase1 :: "'id::linorder acceptor_config \<Rightarrow> 'id set \<Rightarrow> bool" where
  "config_phase1 c V = phase1_holds (ac_quorum_system c) (ac_members c) V None"

definition config_phase2 :: "'id::linorder acceptor_config \<Rightarrow> 'id set \<Rightarrow> bool" where
  "config_phase2 c V = phase2_holds (ac_quorum_system c) (ac_members c) V None"

lemma config_okD:
  assumes "config_ok c"
  shows "members_ok (ac_members c)" "runs_over (ac_quorum_system c) (length (ac_members c))"
    "ac_members c \<noteq> []" "length (ac_members c) < u64_max" "sorted_wrt (<) (ac_members c)"
    "distinct (ac_members c)"
  using assms runs_over_nonempty[of "ac_quorum_system c" "length (ac_members c)"]
    members_ok_distinct[of "ac_members c"]
  by (auto simp: config_ok_def members_ok_def)

subsection \<open>Construction\<close>

lemma cross_intersects_total [total_simps]:
  assumes "n < u64_max" "runs_over q n"
  shows "cross_intersects q n = Some True"
proof -
  have "admits q n = Some True" using assms by (simp add: admits_total)
  then show ?thesis
    by (auto simp: admits_def bind_Some_iff split: if_splits)
qed

lemma ac_build_total:
  assumes "sorted_wrt (<) members" "length members < u64_max" "members \<noteq> []"
    and "domains = [] \<or> length domains = length members"
  shows "ac_build members domains q =
    (if runs_over q (length members)
     then Some \<lparr>ac_members = members, ac_quorum_system = q, ac_domains = domains,
                ac_cell = 0, ac_proxies = 0, ac_replicas = 0\<rparr>
     else None)"
proof (cases "runs_over q (length members)")
  case True
  then obtain s1 s2 where sizes: "phase1_quorum_size q (length members) = Some s1"
      "phase2_quorum_size q (length members) = Some s2"
    using assms(2) by (simp add: total_simps)
  have ok: "members_ok members" using assms(1,2) by (simp add: members_ok_def)
  have "s1 \<le> length members" "s2 \<le> length members"
    using phase1_quorum_size_least[OF ok True everyone_is_quorum(1)[OF ok True] sizes(1)]
      phase2_quorum_size_least[OF ok True everyone_is_quorum(2)[OF ok True] sizes(2)]
    by (simp_all add: card_members[OF ok])
  with assms True sizes show ?thesis
    by (simp add: ac_build_def ac_is_well_formed_def admits_total cross_intersects_total Let_def)
next
  case False
  with assms show ?thesis
    by (simp add: ac_build_def ac_is_well_formed_def admits_total Let_def)
qed

lemma strict_remdups_adj: "sorted xs \<Longrightarrow> sorted_wrt (<) (remdups_adj xs)"
  by (induction xs rule: remdups_adj.induct) force+

lemma normalized_eq:
  "remdups_adj (sort xs) = sorted_list_of_set (set xs)"
  by (rule sorted_distinct_set_unique)
    (use strict_remdups_adj[of "sort xs"] in \<open>simp_all add: strict_sorted_iff\<close>)

lemma map_fst_dedup_fst: "map fst (dedup_fst xs) = remdups_adj (map fst xs)"
  by (induction xs rule: dedup_fst.induct) auto

lemma set_dedup_fst: "one_domain_each xs \<Longrightarrow> set (dedup_fst xs) = set xs"
proof (induction xs rule: dedup_fst.induct)
  case (3 x y zs)
  then show ?case
    by (cases "fst x = fst y") (auto simp: prod_eq_iff elim: one_domain_each.elims)
qed simp_all

text \<open>The constructor keeps exactly the members named, sorted, and panics exactly when the quorum
  system does not run over that many of them.\<close>

lemma ac_new_total [total_simps]:
  assumes "card (set members) < u64_max"
  shows "ac_new members q =
    (if runs_over q (card (set members))
     then Some \<lparr>ac_members = sorted_list_of_set (set members), ac_quorum_system = q, ac_domains = [],
                ac_cell = 0, ac_proxies = 0, ac_replicas = 0\<rparr>
     else None)"
proof (cases "members = []")
  case True
  then show ?thesis
    using runs_over_nonempty[of q 0] by (auto simp: ac_new_def ac_build_def)
next
  case False
  then have "sorted_list_of_set (set members) \<noteq> []"
    by (simp add: sorted_list_of_set_eq_Nil_iff)
  moreover have "sorted_wrt (<) (sorted_list_of_set (set members))"
    by (simp add: strict_sorted_iff)
  ultimately show ?thesis
    using assms by (simp add: ac_new_def normalized_eq ac_build_total)
qed

lemma ac_build_SomeD:
  assumes "ac_build members domains q = Some c" "sorted_wrt (<) members" "length members < u64_max"
  shows "config_ok c" "ac_members c = members" "ac_domains c = domains" "ac_quorum_system c = q"
proof -
  have "members \<noteq> []" "domains = [] \<or> length domains = length members"
    using assms(1) by (auto simp: ac_build_def)
  from ac_build_total[OF assms(2,3) this] assms(1)
  have c: "runs_over q (length members)" "c = \<lparr>ac_members = members, ac_quorum_system = q,
      ac_domains = domains, ac_cell = 0, ac_proxies = 0, ac_replicas = 0\<rparr>"
    by (auto split: if_splits)
  with assms(2,3) \<open>domains = [] \<or> length domains = length members\<close>
  show "config_ok c" "ac_members c = members" "ac_domains c = domains" "ac_quorum_system c = q"
    by (simp_all add: config_ok_def members_ok_def)
qed

lemma ac_zoned_SomeD:
  assumes "ac_zoned members q = Some c" "length members < u64_max"
  shows "config_ok c" "set (zip (ac_members c) (ac_domains c)) = set members"
    "length (ac_domains c) = length (ac_members c)"
proof -
  define ms where "ms = sort_key fst members"
  have one: "one_domain_each ms" and
    build: "ac_build (map fst (dedup_fst ms)) (map snd (dedup_fst ms)) q = Some c"
    using assms(1) by (auto simp: ac_zoned_def Let_def ms_def)
  have "sorted (map fst ms)" by (simp add: ms_def)
  then have "sorted_wrt (<) (map fst (dedup_fst ms))"
    by (simp add: map_fst_dedup_fst strict_remdups_adj)
  moreover have "length (map fst (dedup_fst ms)) \<le> length ms"
    using remdups_adj_length[of "map fst ms"] unfolding map_fst_dedup_fst by simp
  then have "length (map fst (dedup_fst ms)) < u64_max"
    using assms(2) by (simp add: ms_def)
  ultimately show "config_ok c" "set (zip (ac_members c) (ac_domains c)) = set members"
    "length (ac_domains c) = length (ac_members c)"
    using ac_build_SomeD[OF build] set_dedup_fst[OF one]
    by (simp_all add: zip_map_fst_snd ms_def)
qed

lemma ac_is_well_formed_ok: "config_ok c \<Longrightarrow> ac_is_well_formed c = Some True"
  by (auto simp: config_ok_def members_ok_def ac_is_well_formed_def admits_total)

lemma config_ok_updates [simp]:
  "config_ok (c\<lparr>ac_cell := cell\<rparr>) \<longleftrightarrow> config_ok c"
  "proxies \<le> MAX_ROLE_COUNT \<Longrightarrow> replicas \<le> MAX_ROLE_COUNT \<Longrightarrow> config_ok c \<Longrightarrow>
   config_ok (c\<lparr>ac_proxies := proxies, ac_replicas := replicas\<rparr>)"
  by (simp_all add: config_ok_def)

lemma ac_with_total [total_simps]:
  assumes "config_ok c"
  shows "ac_with_cell c cell = Some (c\<lparr>ac_cell := cell\<rparr>)"
    "ac_with_counts c proxies replicas =
      (if proxies \<le> MAX_ROLE_COUNT \<and> replicas \<le> MAX_ROLE_COUNT
       then Some (c\<lparr>ac_proxies := proxies, ac_replicas := replicas\<rparr>) else None)"
  using assms ac_is_well_formed_ok[of "c\<lparr>ac_cell := cell\<rparr>"]
    ac_is_well_formed_ok[of "c\<lparr>ac_proxies := proxies, ac_replicas := replicas\<rparr>"]
  by (auto simp: ac_with_cell_def ac_with_counts_def check_def Let_def)

lemma ac_from_wire_ok:
  assumes "ac_from_wire wire = Some c" "length (wire_members wire) < u64_max"
  shows "config_ok c"
proof -
  obtain c0 where c0: "(if wire_domains wire = []
       then ac_new (wire_members wire) (wire_quorum_system wire)
       else ac_zoned (zip (wire_members wire) (wire_domains wire)) (wire_quorum_system wire)) = Some c0"
    using assms(1) unfolding ac_from_wire_def bind_Some_iff by blast
  have "config_ok c0"
  proof (cases "wire_domains wire = []")
    case True
    moreover have "length (remdups_adj (sort (wire_members wire))) < u64_max"
      using assms(2) remdups_adj_length[of "sort (wire_members wire)"] by simp
    ultimately show ?thesis
      using c0 ac_build_SomeD(1)[of "remdups_adj (sort (wire_members wire))" "[]"
          "wire_quorum_system wire" c0]
      by (simp add: ac_new_def strict_remdups_adj)
  next
    case False
    with c0 assms(2) show ?thesis by (auto intro!: ac_zoned_SomeD(1))
  qed
  with assms(1) c0 show ?thesis
    by (auto simp: ac_from_wire_def total_simps bind_Some_iff split: if_splits)
qed

subsection \<open>Tallies\<close>

lemma ac_has_phase1_quorum_in_total [total_simps]:
  assumes ok: "config_ok c" and V: "finite V" "names_cell (ac_quorum_system c) row"
  shows "ac_has_phase1_quorum_in c V row =
    Some (phase1_holds (ac_quorum_system c) (ac_members c) V row)"
proof -
  obtain k where k: "phase1_quorum_size (ac_quorum_system c) (length (ac_members c)) = Some k"
    using config_okD[OF ok] by (simp add: total_simps)
  have "k \<le> card (V \<inter> set (ac_members c))"
    if "phase1_holds (ac_quorum_system c) (ac_members c) V row"
    using phase1_quorum_size_least[OF _ _ that k] config_okD[OF ok] by blast
  with k V config_okD[OF ok] show ?thesis
    by (simp add: ac_has_phase1_quorum_in_def is_phase1_quorum_in_total counted_total)
qed

lemma ac_has_phase2_quorum_in_total [total_simps]:
  assumes ok: "config_ok c" and V: "finite V" "names_cell (ac_quorum_system c) column"
  shows "ac_has_phase2_quorum_in c V column =
    Some (phase2_holds (ac_quorum_system c) (ac_members c) V column)"
proof -
  obtain k where k: "phase2_quorum_size (ac_quorum_system c) (length (ac_members c)) = Some k"
    using config_okD[OF ok] by (simp add: total_simps)
  have "k \<le> card (V \<inter> set (ac_members c))"
    if "phase2_holds (ac_quorum_system c) (ac_members c) V column"
    using phase2_quorum_size_least[OF _ _ that k] config_okD[OF ok] by blast
  with k V config_okD[OF ok] show ?thesis
    by (simp add: ac_has_phase2_quorum_in_def is_phase2_quorum_in_total counted_total)
qed

lemma ac_has_phase1_quorum_total [total_simps]:
  assumes "config_ok c" "finite V"
  shows "ac_has_phase1_quorum c V = Some (config_phase1 c V)"
  using ac_has_phase1_quorum_in_total[OF assms, of None] config_okD[OF assms(1)] assms(2)
  by (simp add: ac_has_phase1_quorum_def ac_has_phase1_quorum_in_def config_phase1_def
      is_phase1_quorum_total is_phase1_quorum_in_total)

lemma ac_has_phase2_quorum_total [total_simps]:
  assumes "config_ok c" "finite V"
  shows "ac_has_phase2_quorum c V = Some (config_phase2 c V)"
  using ac_has_phase2_quorum_in_total[OF assms, of None] config_okD[OF assms(1)] assms(2)
  by (simp add: ac_has_phase2_quorum_def ac_has_phase2_quorum_in_def config_phase2_def
      is_phase2_quorum_total is_phase2_quorum_in_total)

lemma ac_contains_total [total_simps]:
  "config_ok c \<Longrightarrow> ac_contains c node = Some (node \<in> set (ac_members c))"
  by (simp add: ac_contains_def config_okD)

lemma ac_is_drawn_from_total [total_simps]:
  "sorted_wrt (<) pool \<Longrightarrow> ac_is_drawn_from c pool = Some (set (ac_members c) \<subseteq> set pool)"
  by (auto simp: ac_is_drawn_from_def list_all_iff)

interpretation acq: quorum_family config_ok config_phase1 config_phase2
proof (unfold_locales, goal_cases)
  case (1 c A B)
  then show ?case
    using phases_intersect[of "ac_members c" "ac_quorum_system c" A None B None] config_okD[of c]
    by (auto simp: config_phase1_def config_phase2_def)
next
  case (4 c)
  then show ?case
    using everyone_is_quorum(2) config_okD[of c] by (auto simp: config_phase2_def)
qed (auto simp: config_phase1_def config_phase2_def intro: phase1_holds_mono phase2_holds_mono)

subsection \<open>Addressing\<close>

lemma residue_total [total_simps]: "residue v m = Some (v mod max m 1)"
  by (simp add: residue_def Let_def)

lemma column_of_total [total_simps]:
  "column_of q slot = Some (case q of Grid _ cols _ \<Rightarrow> Some (slot mod max cols 1) | _ \<Rightarrow> None)"
  by (cases q) (simp_all add: column_of_def residue_total)

lemma row_of_total [total_simps]:
  "row_of q ctx = Some (case q of
     Grid rows _ acks \<Rightarrow> if acks = rows then Some (ctx mod max rows 1) else None | _ \<Rightarrow> None)"
  by (cases q) (simp_all add: row_of_def residue_total)

lemma rows_pos: "runs_over (Grid rows cols acks) n \<Longrightarrow> 0 < rows \<and> 0 < cols"
  by auto

lemma ac_row_of_total [total_simps]:
  assumes "config_ok c"
  shows "ac_row_of c ctx = Some (case ac_quorum_system c of
     Grid rows _ acks \<Rightarrow> if acks = rows then Some (ctx mod rows) else None | _ \<Rightarrow> None)"
  using config_okD(2)[OF assms]
  by (cases "ac_quorum_system c") (auto simp: ac_row_of_def row_of_total ac_admits_read_row_def max_absorb1)

text \<open>A read runs on the row its reader names when the grid has it, and on the derived row
  otherwise.\<close>

lemma ac_read_row_total [total_simps]:
  assumes "config_ok c"
  shows "ac_read_row c ctx chosen =
    (case chosen of
       Some row \<Rightarrow> if ac_admits_read_row c (Some row) then Some (Some row) else ac_row_of c ctx
     | None \<Rightarrow> ac_row_of c ctx)"
  using config_okD(2)[OF assms]
  by (cases "ac_quorum_system c"; cases chosen)
    (auto simp: ac_read_row_def read_row_def row_of_total ac_row_of_def ac_admits_read_row_def max_def)

lemma ac_phase2_addressees_total:
  assumes ok: "config_ok c" "names_cell (ac_quorum_system c) column"
    and col: "\<And>k. column = Some k \<Longrightarrow> k < grid_cols (ac_quorum_system c)"
  shows "\<exists>to. ac_phase2_addressees c column = Some to \<and>
    phase2_addressees (ac_quorum_system c) (ac_members c) column = Some to \<and>
    set to \<subseteq> set (ac_members c) \<and>
    (\<forall>node. ac_is_phase2_addressee c node column = Some (node \<in> set to))"
proof -
  note iff = is_phase2_addressee_iff[OF config_okD(1)[OF ok(1)] ok(2) col]
  obtain to where to: "phase2_addressees (ac_quorum_system c) (ac_members c) column = Some to"
    using iff by blast
  have a: "is_phase2_addressee (ac_quorum_system c) (ac_members c) node column = Some (node \<in> set to)"
    for node using iff[of node] to by auto
  have sub: "set to \<subseteq> set (ac_members c)"
  proof
    fix node assume "node \<in> set to"
    with a[of node] show "node \<in> set (ac_members c)"
      using position_of_None[of "ac_members c" node]
      by (auto simp: is_phase2_addressee_def split: option.splits)
  qed
  then have b: "ac_is_phase2_addressee c node column = Some (node \<in> set to)" for node
    using a[of node] ok(1) by (auto simp: ac_is_phase2_addressee_def ac_contains_total)
  have "try_all (\<lambda>a. ac_is_phase2_addressee c a column) to = Some (\<forall>a \<in> set to. a \<in> set to)"
    by (rule try_all_total) (rule b)
  with to have "ac_phase2_addressees c column = Some to"
    by (simp add: ac_phase2_addressees_def)
  with to sub b show ?thesis by blast
qed

lemma ac_phase1_addressees_total:
  assumes ok: "config_ok c" "names_cell (ac_quorum_system c) row"
  shows "\<exists>to. ac_phase1_addressees c row = Some to \<and>
    phase1_addressees (ac_quorum_system c) (ac_members c) row = Some to \<and>
    set to \<subseteq> set (ac_members c) \<and>
    (\<forall>node. ac_is_phase1_addressee c node row = Some (node \<in> set to))"
proof -
  note iff = is_phase1_addressee_iff[OF config_okD(1)[OF ok(1)] ok(2) config_okD(2)[OF ok(1)]]
  obtain to where to: "phase1_addressees (ac_quorum_system c) (ac_members c) row = Some to"
    using iff by blast
  have a: "is_phase1_addressee (ac_quorum_system c) (ac_members c) node row = Some (node \<in> set to)"
    for node using iff[of node] to by auto
  have sub: "set to \<subseteq> set (ac_members c)"
  proof
    fix node assume "node \<in> set to"
    with a[of node] show "node \<in> set (ac_members c)"
      using position_of_None[of "ac_members c" node]
      by (auto simp: is_phase1_addressee_def split: option.splits)
  qed
  then have b: "ac_is_phase1_addressee c node row = Some (node \<in> set to)" for node
    using a[of node] ok(1) by (auto simp: ac_is_phase1_addressee_def ac_contains_total)
  have "try_all (\<lambda>a. ac_is_phase1_addressee c a row) to = Some (\<forall>a \<in> set to. a \<in> set to)"
    by (rule try_all_total) (rule b)
  with to have "ac_phase1_addressees c row = Some to"
    by (simp add: ac_phase1_addressees_def)
  with to sub b show ?thesis by blast
qed

text \<open>A slot's column is one of the grid's and has a member, so its Phase 2 always has an audience.\<close>

lemma ac_column_of_total [total_simps]:
  assumes ok: "config_ok c"
  shows "ac_column_of c slot =
    Some (case ac_quorum_system c of Grid _ cols _ \<Rightarrow> Some (slot mod cols) | _ \<Rightarrow> None)"
proof (cases "ac_quorum_system c")
  case (Grid rows cols acks)
  have pos: "0 < rows" "0 < cols" "length (ac_members c) = rows * cols"
    using config_okD(2)[OF ok] Grid by auto
  let ?k = "slot mod cols"
  have k: "?k < cols" using pos by simp
  obtain to where to: "ac_phase2_addressees c (Some ?k) = Some to"
      "phase2_addressees (ac_quorum_system c) (ac_members c) (Some ?k) = Some to"
    using ac_phase2_addressees_total[OF ok, of "Some ?k"] Grid k by auto
  have "to = nths (ac_members c) {i. i mod cols = ?k}"
    using to(2) k by (simp add: Grid phase2_addressees_def grid_column_nths length_nths_le)
  then have "card (set to) = rows"
    using card_column_cell[OF config_okD(6)[OF ok] pos(3) k] by (simp add: column_cell_def)
  with pos have "to \<noteq> []" by auto
  with to pos Grid show ?thesis
    by (simp add: ac_column_of_def column_of_total max_absorb1)
qed (simp_all add: ac_column_of_def column_of_total)

lemma slot_rank_total [total_simps]:
  "slot_rank slot n = Some (if n = 0 then None else Some (slot mod n))"
  by (simp add: slot_rank_def rank_is_in_def)

lemma proxy_of_total [total_simps]:
  "proxy_of slot n = Some (if n = 0 then None else Some (slot mod n))"
  by (simp add: proxy_of_def slot_rank_total proxy_is_in_def rank_is_in_def)

lemma replica_of_total [total_simps]:
  "replica_of slot n = Some (if n = 0 then None else Some (slot mod n))"
  by (simp add: replica_of_def slot_rank_total replica_is_in_def rank_is_in_def)

lemma ac_reply_owner_total [total_simps]:
  "ac_reply_owner c slot = Some (if ac_replicas c = 0 then None else Some (slot mod ac_replicas c))"
  by (simp add: ac_reply_owner_def replica_of_total ac_has_replicas_def)

lemma ac_domain_of_total [total_simps]:
  assumes ok: "config_ok c"
  shows "ac_domain_of c node =
    Some (if ac_domains c = [] then None else map_of (zip (ac_members c) (ac_domains c)) node)"
  using config_okD(6)[OF ok]
proof (cases rule: position_of_cases[where node = node])
  case 1
  then have "map_of (zip (ac_members c) (ac_domains c)) node = None"
    by (auto simp: map_of_eq_None_iff dest: set_zip_leftD)
  with 1 show ?thesis by (simp add: ac_domain_of_def)
next
  case (2 i)
  then have "map_of (zip (ac_members c) (ac_domains c)) node = Some (ac_domains c ! i)"
    if "length (ac_domains c) = length (ac_members c)"
    using that map_of_zip_nth[of "ac_members c" "ac_domains c" i] config_okD(6)[OF ok] by auto
  with 2 ok show ?thesis
    by (auto simp: ac_domain_of_def ac_is_zoned_def config_ok_def)
qed

section \<open>Properties\<close>

text \<open>C17: \<^verbatim>\<open>AcceptorConfig::new\<close> keeps exactly the identities it is given, sorted and each once, and
  establishes the invariant every tally relies on. It panics exactly when the quorum system does not
  run over that many members, so no configuration with two non-intersecting quorums exists.\<close>

theorem ac_new_normalizes:
  assumes "card (set members) < u64_max"
  shows "case ac_new members q of
      None \<Rightarrow> admits q (card (set members)) = Some False
    | Some c \<Rightarrow> admits q (card (set members)) = Some True \<and> config_ok c \<and>
        ac_members c = sorted_list_of_set (set members) \<and> ac_quorum_system c = q"
  using assms by (auto simp: ac_new_total admits_total config_ok_def members_ok_def
      strict_sorted_iff split: if_splits)

theorem ac_new_normalizes_witness:
  "\<exists>c. ac_new [3, 1, 2, 3 :: nat] (Flexible 3 1) = Some c \<and> config_ok c \<and>
     ac_members c = sorted_list_of_set {1, 2, 3}"
proof -
  have "ac_new [3, 1, 2, 3 :: nat] (Flexible 3 1) \<noteq> None"
    by (subst ac_new_total) (simp_all add: u64_max_def card_insert_if)
  then obtain c where "ac_new [3, 1, 2, 3 :: nat] (Flexible 3 1) = Some c" by blast
  then show ?thesis
    using ac_new_normalizes[of "[3, 1, 2, 3 :: nat]" "Flexible 3 1"]
    by (simp add: u64_max_def card_insert_if insert_commute)
qed


definition sample_wire :: "nat serde_acceptor_config" where
  "sample_wire = \<lparr>wire_members = [2, 1, 4, 3], wire_quorum_system = Grid 2 2 1, wire_domains = [],
     wire_cell = 7, wire_proxies = 1, wire_replicas = 2\<rparr>"


end
