(* ===== verification/Zone_Rule.thy ===== *)
theory Zone_Rule
  imports Acceptor_Config
begin

section \<open>The zone rule\<close>

text \<open>
  The verdict of \<^verbatim>\<open>paros-core/src/membership/zone_rule.rs\<close>: whether a labeled configuration survives
  the loss of any one failure domain, and whether some domain could choose a value alone. The scan over
  the domains is a recursion over their sorted list, with the early returns of the source.
\<close>

datatype zone_rule =
    Unlabeled
  | Holds
  | LosesQuorum failure_domain
  | CommitsAlone failure_domain

definition zone_rule_holds :: "zone_rule \<Rightarrow> bool" where
  "zone_rule_holds r \<longleftrightarrow> r = Holds"

definition distinct_domains :: "'id acceptor_config \<Rightarrow> failure_domain set option" where
  "distinct_domains c = do { domains \<leftarrow> ac_domains' c; Some (set domains) }"

definition zone_inside :: "'id acceptor_config \<Rightarrow> failure_domain \<Rightarrow> 'id set" where
  "zone_inside c d = set (map fst (filter (\<lambda>p. snd p = d) (zip (ac_members c) (ac_domains c))))"

definition zone_outside :: "'id acceptor_config \<Rightarrow> failure_domain \<Rightarrow> 'id set" where
  "zone_outside c d = set (map fst (filter (\<lambda>p. snd p \<noteq> d) (zip (ac_members c) (ac_domains c))))"

fun zone_scan :: "'id::linorder acceptor_config \<Rightarrow> failure_domain list \<Rightarrow> zone_rule option option" where
  "zone_scan c [] = Some None"
| "zone_scan c (d # ds) = do {
     let inside = zone_inside c d;
     let outside = zone_outside c d;
     check (inside \<noteq> {});
     check (card inside + card outside = length (ac_members c));
     p1 \<leftarrow> ac_has_phase1_quorum c outside;
     survives \<leftarrow> (if p1 then ac_has_phase2_quorum c outside else Some False);
     if \<not> survives then Some (Some (LosesQuorum d))
     else do {
       alone \<leftarrow> ac_has_phase2_quorum c inside;
       if alone then Some (Some (CommitsAlone d)) else zone_scan c ds
     }
   }"

definition ac_zone_rule :: "'id::linorder acceptor_config \<Rightarrow> zone_rule option" where
  "ac_zone_rule c =
     (if \<not> ac_is_zoned c then Some Unlabeled
      else do {
        members \<leftarrow> ac_members' c;
        domains \<leftarrow> ac_domains' c;
        check (length members = length domains);
        distinct \<leftarrow> distinct_domains c;
        verdict \<leftarrow> zone_scan c (sorted_list_of_set distinct);
        (case verdict of
           Some v \<Rightarrow> Some v
         | None \<Rightarrow> do { check (card distinct \<ge> 2); Some Holds })
      })"

section \<open>What the verdict says\<close>

text \<open>The two predicates of the rule, about one domain.\<close>

definition survives_domain :: "'id::linorder acceptor_config \<Rightarrow> failure_domain \<Rightarrow> bool" where
  "survives_domain c d \<longleftrightarrow> config_phase1 c (zone_outside c d) \<and> config_phase2 c (zone_outside c d)"

definition commits_alone :: "'id::linorder acceptor_config \<Rightarrow> failure_domain \<Rightarrow> bool" where
  "commits_alone c d \<longleftrightarrow> config_phase2 c (zone_inside c d)"

lemma finite_zone [simp]: "finite (zone_inside c d)" "finite (zone_outside c d)"
  by (simp_all add: zone_inside_def zone_outside_def)

lemma zone_split:
  assumes "config_ok c" "ac_domains c \<noteq> []"
  shows "card (zone_inside c d) + card (zone_outside c d) = length (ac_members c)"
    and "zone_inside c d \<union> zone_outside c d = set (ac_members c)"
    and "d \<in> set (ac_domains c) \<Longrightarrow> zone_inside c d \<noteq> {}"
proof -
  let ?z = "zip (ac_members c) (ac_domains c)"
  have len: "length (ac_domains c) = length (ac_members c)"
    using assms by (auto simp: config_ok_def)
  then have fst: "map fst ?z = ac_members c" and snd: "map snd ?z = ac_domains c" by simp_all
  have dist: "distinct (map fst (filter P ?z))" for P
    using config_okD(6)[OF assms(1)] fst by (metis distinct_map_filter)
  have "card (zone_inside c d) + card (zone_outside c d) =
      length (filter (\<lambda>p. snd p = d) ?z) + length (filter (\<lambda>p. snd p \<noteq> d) ?z)"
    using distinct_card[OF dist[of "\<lambda>p. snd p = d"]] distinct_card[OF dist[of "\<lambda>p. snd p \<noteq> d"]]
    by (simp add: zone_inside_def zone_outside_def)
  also have "\<dots> = length ?z" by (rule sum_length_filter_compl)
  also have "\<dots> = length (ac_members c)" using len by simp
  finally show "card (zone_inside c d) + card (zone_outside c d) = length (ac_members c)" .
  have "set (ac_members c) = fst ` set ?z" using fst by (metis set_map)
  then show "zone_inside c d \<union> zone_outside c d = set (ac_members c)"
    by (auto simp: zone_inside_def zone_outside_def)
  show "zone_inside c d \<noteq> {}" if "d \<in> set (ac_domains c)"
  proof -
    have "d \<in> snd ` set ?z" using that snd by (metis set_map)
    then obtain p where "p \<in> set ?z" "snd p = d" by blast
    then have "fst p \<in> zone_inside c d" by (force simp: zone_inside_def)
    then show ?thesis by blast
  qed
qed

lemma zone_scan_total:
  assumes "config_ok c" "ac_domains c \<noteq> []" "set ds \<subseteq> set (ac_domains c)"
  shows "\<exists>v. zone_scan c ds = Some v \<and>
    (v = None \<longleftrightarrow> (\<forall>d \<in> set ds. survives_domain c d \<and> \<not> commits_alone c d)) \<and>
    (\<forall>r. v = Some r \<longrightarrow> (\<exists>d \<in> set ds.
       r = LosesQuorum d \<and> \<not> survives_domain c d \<or>
       r = CommitsAlone d \<and> survives_domain c d \<and> commits_alone c d))"
  using assms(3)
proof (induction ds)
  case (Cons d ds)
  then obtain v where v: "zone_scan c ds = Some v"
    "v = None \<longleftrightarrow> (\<forall>d \<in> set ds. survives_domain c d \<and> \<not> commits_alone c d)"
    "\<forall>r. v = Some r \<longrightarrow> (\<exists>d \<in> set ds. r = LosesQuorum d \<and> \<not> survives_domain c d \<or>
       r = CommitsAlone d \<and> survives_domain c d \<and> commits_alone c d)" by auto
  have split: "zone_inside c d \<noteq> {}"
    "card (zone_inside c d) + card (zone_outside c d) = length (ac_members c)"
    using zone_split[OF assms(1,2)] Cons.prems by auto
  have scan: "zone_scan c (d # ds) =
    (if \<not> survives_domain c d then Some (Some (LosesQuorum d))
     else if commits_alone c d then Some (Some (CommitsAlone d)) else zone_scan c ds)"
    using split assms(1)
    by (simp add: ac_has_phase1_quorum_total ac_has_phase2_quorum_total survives_domain_def
        commits_alone_def Let_def)
  consider "\<not> survives_domain c d" | "survives_domain c d" "commits_alone c d"
    | "survives_domain c d" "\<not> commits_alone c d" by blast
  then show ?case
  proof cases
    case 3
    then have "zone_scan c (d # ds) = Some v" using scan v(1) by simp
    moreover have "v = None \<longleftrightarrow> (\<forall>d \<in> set (d # ds). survives_domain c d \<and> \<not> commits_alone c d)"
      using v(2) 3 by simp
    ultimately show ?thesis using v(3) by (metis list.set_intros(2))
  qed (simp_all add: scan del: zone_scan.simps)
qed simp

lemma one_domain_never_survives:
  assumes "config_ok c" "ac_domains c \<noteq> []" "set (ac_domains c) = {d}"
  shows "\<not> survives_domain c d"
proof -
  have "snd p = d" if "p \<in> set (zip (ac_members c) (ac_domains c))" for p
    using that assms(3) set_zip_rightD[of "fst p" "snd p" "ac_members c" "ac_domains c"]
    by simp
  then have "filter (\<lambda>p. snd p \<noteq> d) (zip (ac_members c) (ac_domains c)) = []"
    by (simp only: filter_empty_conv) blast
  then have "zone_outside c d = {}"
    by (simp add: zone_outside_def)
  then show ?thesis
    using acq.Q1_nonempty[OF assms(1)] by (auto simp: survives_domain_def)
qed

section \<open>Properties\<close>

text \<open>C19: the zone rule never panics on a well-formed labeled configuration and its verdict is right:
  \<open>Holds\<close> exactly when, for every failure domain, the members outside it hold a quorum of both phases
  and the members inside it hold no Phase-2 quorum; otherwise the domain it names breaks the
  predicate it is accused of.\<close>

theorem zone_rule_verdict:
  assumes "config_ok c" "ac_is_zoned c"
  shows "\<exists>r. ac_zone_rule c = Some r \<and>
    (r = Holds \<longleftrightarrow>
       (\<forall>d \<in> set (ac_domains c). survives_domain c d \<and> \<not> commits_alone c d)) \<and>
    (\<forall>d. r = LosesQuorum d \<longrightarrow> d \<in> set (ac_domains c) \<and> \<not> survives_domain c d) \<and>
    (\<forall>d. r = CommitsAlone d \<longrightarrow> d \<in> set (ac_domains c) \<and> commits_alone c d) \<and> r \<noteq> Unlabeled"
proof -
  have ne: "ac_domains c \<noteq> []" using assms(2) by (simp add: ac_is_zoned_def)
  then have len: "length (ac_members c) = length (ac_domains c)"
    using assms(1) by (auto simp: config_ok_def)
  obtain v where v: "zone_scan c (sorted_list_of_set (set (ac_domains c))) = Some v"
    "v = None \<longleftrightarrow> (\<forall>d \<in> set (ac_domains c). survives_domain c d \<and> \<not> commits_alone c d)"
    "\<forall>r. v = Some r \<longrightarrow> (\<exists>d \<in> set (ac_domains c).
       r = LosesQuorum d \<and> \<not> survives_domain c d \<or>
       r = CommitsAlone d \<and> survives_domain c d \<and> commits_alone c d)"
    using zone_scan_total[OF assms(1) ne, of "sorted_list_of_set (set (ac_domains c))"] by auto
  have two: "2 \<le> card (set (ac_domains c))" if "v = None"
  proof (rule ccontr)
    assume "\<not> 2 \<le> card (set (ac_domains c))"
    moreover have "0 < card (set (ac_domains c))" using ne by (simp add: card_gt_0_iff)
    ultimately have "card (set (ac_domains c)) = 1" by linarith
    then obtain d where "set (ac_domains c) = {d}" by (metis card_1_singletonE)
    with that v(2) show False using one_domain_never_survives[OF assms(1) ne] by auto
  qed
  have "ac_zone_rule c = Some (case v of None \<Rightarrow> Holds | Some r \<Rightarrow> r)"
    using assms two v(1) len config_okD(3)[OF assms(1)]
    by (auto simp: ac_zone_rule_def ac_members'_def ac_domains'_def distinct_domains_def
        split: option.split)
  with v(2,3) show ?thesis by (cases v) auto
qed

definition three_zones :: "nat acceptor_config" where
  "three_zones = \<lparr>ac_members = [1, 2, 3], ac_quorum_system = Majority,
     ac_domains = [FailureDomain ''eu'' ''a'', FailureDomain ''eu'' ''b'', FailureDomain ''eu'' ''c''],
     ac_cell = 0, ac_proxies = 0, ac_replicas = 0\<rparr>"

theorem zone_rule_verdict_witness:
  "\<exists>r. ac_zone_rule three_zones = Some r \<and> r \<noteq> Unlabeled \<and>
     (r = Holds \<longleftrightarrow>
       (\<forall>d \<in> set (ac_domains three_zones). survives_domain three_zones d \<and> \<not> commits_alone three_zones d))"
proof -
  have "config_ok three_zones" "ac_is_zoned three_zones"
    by (simp_all add: three_zones_def config_ok_def members_ok_def u64_max_def ac_is_zoned_def)
  from zone_rule_verdict[OF this] show ?thesis by blast
qed

end
