(* ===== verification/Matchmaker_Set.thy ===== *)
theory Matchmaker_Set
  imports Acceptor_Config
begin

section \<open>Matchmaker sets and their generations\<close>

text \<open>
  \<^verbatim>\<open>paros-core/src/membership/matchmaker_set.rs\<close>: the set of matchmakers that is authoritative for a
  generation, and the majority every matchmaker-side tally is judged by. The set provides the same
  contract as an acceptor configuration, with one family of quorums for both phases.
\<close>

type_synonym matchmaker_generation = nat

record matchmaker_set =
  ms_generation :: matchmaker_generation
  ms_members :: "matchmaker_id list"

definition generation_next :: "matchmaker_generation \<Rightarrow> matchmaker_generation option" where
  "generation_next g = do {
     let next = saturating_add64 g 1;
     check (next \<ge> g);
     check (g < u64_max \<longrightarrow> next > g);
     Some next
   }"

definition ms_quorum_size :: "matchmaker_set \<Rightarrow> nat option" where
  "ms_quorum_size s = do {
     quorum \<leftarrow> majority_of (length (ms_members s));
     twice \<leftarrow> checked_mul64 quorum 2;
     check (twice > length (ms_members s));
     Some quorum
   }"

definition ms_is_well_formed :: "matchmaker_set \<Rightarrow> bool option" where
  "ms_is_well_formed s =
     (let n = length (ms_members s)
      in if n = 0 then Some False
         else do {
           crosses \<leftarrow> cross_intersects Majority n;
           Some (crosses \<and> sorted_wrt (<) (ms_members s))
         })"

definition ms_new :: "matchmaker_generation \<Rightarrow> matchmaker_id list \<Rightarrow> matchmaker_set option" where
  "ms_new generation members = do {
     let members = remdups_adj (sort members);
     check (members \<noteq> []);
     let s = \<lparr>ms_generation = generation, ms_members = members\<rparr>;
     well_formed \<leftarrow> ms_is_well_formed s;
     check well_formed;
     size \<leftarrow> ms_quorum_size s;
     check (size \<le> length (ms_members s));
     Some s
   }"

definition ms_members' :: "matchmaker_set \<Rightarrow> matchmaker_id list option" where
  "ms_members' s = do { check (ms_members s \<noteq> []); Some (ms_members s) }"

definition ms_has_quorum :: "matchmaker_set \<Rightarrow> matchmaker_id set \<Rightarrow> bool option" where
  "ms_has_quorum s voters = do {
     quorum \<leftarrow> is_majority (ms_members s) voters;
     (if quorum
      then do {
        count \<leftarrow> counted (ms_members s) voters;
        size \<leftarrow> ms_quorum_size s;
        check (count \<ge> size)
      }
      else Some ());
     Some quorum
   }"

definition ms_remaining :: "matchmaker_set \<Rightarrow> matchmaker_id set \<Rightarrow> nat option" where
  "ms_remaining s voters = do {
     size \<leftarrow> ms_quorum_size s;
     let remaining = size - card voters;
     quorum \<leftarrow> ms_has_quorum s voters;
     check (quorum \<longrightarrow> remaining = 0);
     size \<leftarrow> ms_quorum_size s;
     check (remaining \<le> size);
     Some remaining
   }"

definition ms_unanswered :: "matchmaker_set \<Rightarrow> matchmaker_id set \<Rightarrow> matchmaker_id list" where
  "ms_unanswered s voters = filter (\<lambda>mm. mm \<notin> voters) (ms_members s)"

definition ms_contains :: "matchmaker_set \<Rightarrow> matchmaker_id \<Rightarrow> bool option" where
  "ms_contains s mm = do {
     let member = mm \<in> set (ms_members s);
     check (sorted_wrt (<) (ms_members s));
     Some member
   }"

text \<open>The little-endian bytes of a 64-bit identity, and the identity a set of matchmakers carries
  through Phase 2 of the successor decree.\<close>

definition to_le_bytes :: "nat \<Rightarrow> 8 word list" where
  "to_le_bytes n = map (\<lambda>i. word_of_nat (n div 256 ^ i)) [0..<8]"

definition matchmakers_fingerprint :: "matchmaker_id list \<Rightarrow> fingerprint" where
  "matchmakers_fingerprint members =
     fold (\<lambda>member hash. fnv1a hash (to_le_bytes member)) members FNV_OFFSET"

section \<open>What a matchmaker set guarantees\<close>

definition ms_ok :: "matchmaker_set \<Rightarrow> bool" where
  "ms_ok s \<longleftrightarrow> sorted_wrt (<) (ms_members s) \<and> ms_members s \<noteq> [] \<and> length (ms_members s) \<le> isize_max"

definition ms_quorum :: "matchmaker_set \<Rightarrow> matchmaker_id set \<Rightarrow> bool" where
  "ms_quorum s V \<longleftrightarrow> length (ms_members s) < 2 * card (V \<inter> set (ms_members s))"

lemma ms_ok_members: "ms_ok s \<Longrightarrow> members_ok (ms_members s)"
  by (simp add: ms_ok_def members_ok_def isize_less_u64)

lemma generation_next_total [total_simps]:
  "g \<le> u64_max \<Longrightarrow> generation_next g = Some (saturating_add64 g 1)"
  by (auto simp: generation_next_def saturating_add64_def)

lemma ms_quorum_size_total [total_simps]:
  assumes "ms_ok s"
  shows "ms_quorum_size s = Some (length (ms_members s) div 2 + 1)"
proof -
  let ?n = "length (ms_members s)"
  have n: "?n \<le> isize_max" using assms by (simp add: ms_ok_def)
  have "(?n div 2 + 1) * 2 \<le> ?n + 2" "?n < (?n div 2 + 1) * 2" by presburger+
  moreover have "?n + 2 \<le> u64_max" using n by (simp add: u64_max_def isize_max_def)
  ultimately show ?thesis
    using isize_less_u64[OF n] by (simp add: ms_quorum_size_def majority_of_total checked_mul64_def)
qed

lemma ms_has_quorum_total [total_simps]:
  assumes "ms_ok s" "finite V"
  shows "ms_has_quorum s V = Some (ms_quorum s V)"
proof -
  have "length (ms_members s) div 2 + 1 \<le> card (V \<inter> set (ms_members s))" if "ms_quorum s V"
    using that unfolding ms_quorum_def by presburger
  moreover have "is_majority (ms_members s) V = Some (ms_quorum s V)"
    "counted (ms_members s) V = Some (card (V \<inter> set (ms_members s)))"
    using assms ms_ok_members by (simp_all add: is_majority_total counted_total ms_quorum_def)
  ultimately show ?thesis
    using assms by (simp add: ms_has_quorum_def ms_quorum_size_total)
qed

lemma ms_contains_total [total_simps]:
  "ms_ok s \<Longrightarrow> ms_contains s mm = Some (mm \<in> set (ms_members s))"
  by (simp add: ms_ok_def ms_contains_def)

lemma ms_quorum_card:
  assumes "finite V" "ms_quorum s V"
  shows "length (ms_members s) div 2 + 1 \<le> card V"
proof -
  have "card (V \<inter> set (ms_members s)) \<le> card V" using assms(1) by (intro card_mono) auto
  with assms(2) show ?thesis unfolding ms_quorum_def by presburger
qed

lemma ms_remaining_total [total_simps]:
  assumes "ms_ok s" "finite V"
  shows "ms_remaining s V = Some (length (ms_members s) div 2 + 1 - card V)"
  using assms ms_quorum_card[OF assms(2), of s]
  by (simp add: ms_remaining_def ms_quorum_size_total ms_has_quorum_total)

text \<open>A tally drawn from the set owes an answer exactly as long as it holds no quorum.\<close>

lemma ms_remaining_zero_iff:
  assumes "ms_ok s" "V \<subseteq> set (ms_members s)"
  shows "ms_remaining s V = Some 0 \<longleftrightarrow> ms_quorum s V"
proof -
  have "finite V" using assms(2) finite_subset by blast
  moreover have "V \<inter> set (ms_members s) = V" using assms(2) by blast
  ultimately show ?thesis
    using assms(1) by (auto simp: ms_remaining_total ms_quorum_def)
qed

lemma ms_new_total [total_simps]:
  assumes "card (set members) \<le> isize_max"
  shows "ms_new g members =
    (if members = [] then None
     else Some \<lparr>ms_generation = g, ms_members = sorted_list_of_set (set members)\<rparr>)"
proof (cases "members = []")
  case True
  then show ?thesis by (simp add: ms_new_def)
next
  case False
  let ?ms = "sorted_list_of_set (set members)"
  let ?s = "\<lparr>ms_generation = g, ms_members = ?ms\<rparr>"
  have ok: "ms_ok ?s"
    using False assms by (simp add: ms_ok_def strict_sorted_iff sorted_list_of_set_eq_Nil_iff)
  have pos: "0 < card (set members)" using False by (simp add: card_gt_0_iff)
  then have "ms_is_well_formed ?s = Some True"
    using ok isize_less_u64[OF assms]
    by (simp add: ms_is_well_formed_def cross_intersects_total ms_ok_def)
  moreover have "card (set members) div 2 + 1 \<le> card (set members)" using pos by presburger
  ultimately show ?thesis
    using ok False ms_quorum_size_total[OF ok]
    by (simp add: ms_new_def normalized_eq ms_ok_def)
qed

lemma ms_new_ok: "ms_new g members = Some s \<Longrightarrow> card (set members) \<le> isize_max \<Longrightarrow> ms_ok s"
  by (auto simp: ms_new_total ms_ok_def strict_sorted_iff
      sorted_list_of_set_eq_Nil_iff split: if_splits)

lemma ms_ok_nonzero: "ms_ok s \<Longrightarrow> card (set (ms_members s)) = length (ms_members s)"
  using ms_ok_members by (rule card_members)

interpretation mmq: quorum_family ms_ok ms_quorum ms_quorum
proof (unfold_locales, goal_cases)
  case (1 s A B)
  then have "card (set (ms_members s)) < card (A \<inter> set (ms_members s)) + card (B \<inter> set (ms_members s))"
    using ms_ok_nonzero by (simp add: ms_quorum_def)
  then show ?case using pigeonhole_meet[of "set (ms_members s)"] by blast
next
  case (2 s A B)
  then show ?case
    using card_Int_mono[of A B "set (ms_members s)"] by (simp add: ms_quorum_def)
next
  case (3 s)
  then have "ms_quorum s (set (ms_members s))"
    using ms_ok_nonzero[of s] by (simp add: ms_quorum_def ms_ok_def)
  then show ?case by blast
qed

section \<open>Properties\<close>

text \<open>C20: matchmaker quorums are majorities that always intersect. For every set the constructor
  returns, two groups of voters that \<open>ms_has_quorum\<close> accepts share a member of the set, and a tally
  drawn from the set reports nothing more to wait for exactly when it holds a quorum.\<close>

theorem matchmaker_quorums:
  assumes "ms_new g members = Some s" "card (set members) \<le> isize_max"
    and "finite A" "finite B" "ms_has_quorum s A = Some True" "ms_has_quorum s B = Some True"
  shows "A \<inter> B \<noteq> {} \<and>
    (\<forall>V \<subseteq> set (ms_members s). ms_remaining s V = Some 0 \<longleftrightarrow> ms_has_quorum s V = Some True)"
proof -
  have ok: "ms_ok s" using assms(1,2) by (rule ms_new_ok)
  then have "A \<inter> B \<noteq> {}"
    using assms mmq.phases_meet[of s A B] by (simp add: ms_has_quorum_total)
  moreover have "ms_remaining s V = Some 0 \<longleftrightarrow> ms_has_quorum s V = Some True"
    if "V \<subseteq> set (ms_members s)" for V
    using ms_remaining_zero_iff[OF ok that] ms_has_quorum_total[OF ok, of V] that
      finite_subset[OF that] by simp
  ultimately show ?thesis by blast
qed

theorem matchmaker_quorums_witness:
  "{2, 3, 4} \<inter> {3, 4, 5 :: nat} \<noteq> {} \<and> ms_new 0 [5, 4, 3, 2] \<noteq> None"
proof -
  let ?s = "\<lparr>ms_generation = 0, ms_members = [2, 3, 4, 5]\<rparr>"
  have s: "ms_new 0 [5, 4, 3, 2] = Some ?s"
    by (subst ms_new_total) (simp_all add: isize_max_def card_insert_if)
  have ok: "ms_ok ?s" by (rule ms_new_ok[OF s]) (simp add: isize_max_def card_insert_if)
  have "ms_has_quorum ?s {2, 3, 4} = Some True" "ms_has_quorum ?s {3, 4, 5} = Some True"
    by (simp_all add: ms_has_quorum_total[OF ok] ms_quorum_def)
  then show ?thesis
    using s matchmaker_quorums[OF s, of "{2, 3, 4}" "{3, 4, 5}"]
    by (simp add: isize_max_def card_insert_if)
qed

end
