(* ===== verification/Retained_Window.thy ===== *)
theory Retained_Window
  imports Ballots
begin

section \<open>The retained window\<close>

text \<open>
  \<^verbatim>\<open>paros-core/src/retained.rs\<close>: a map with a floor under it. The acceptor keeps its accepted records
  and its faulty entries in one each, and the matchmaker its registry. The locale \<open>floored_map\<close> is the
  contract its owners rely on: nothing below the floor, the floor never falls, and what sits at or above
  the floor is an ordinary map.
\<close>

record ('k, 'v) retained_window =
  rw_map :: "('k, 'v) fmap"
  rw_base :: 'k

definition rw_first_key :: "('k::linorder, 'v) retained_window \<Rightarrow> 'k option option" where
  "rw_first_key w = do {
     let first = fm_first (rw_map w);
     check ((first \<noteq> None) \<noteq> (rw_map w = fmempty));
     Some first
   }"

definition rw_assert_invariants :: "('k::linorder, 'v) retained_window \<Rightarrow> unit option" where
  "rw_assert_invariants w = do {
     first \<leftarrow> rw_first_key w;
     check (case first of None \<Rightarrow> True | Some first \<Rightarrow> rw_base w \<le> first)
   }"

definition rw_new :: "('k::linorder, 'v) fmap \<Rightarrow> 'k \<Rightarrow> ('k, 'v) retained_window option" where
  "rw_new entries base = do {
     let count = fm_len entries;
     let window = \<lparr>rw_map = entries, rw_base = base\<rparr>;
     rw_assert_invariants window;
     check (fm_len (rw_map window) = count);
     Some window
   }"

definition rw_floor :: "('k::linorder, 'v) retained_window \<Rightarrow> 'k option" where
  "rw_floor w = do {
     check (case fm_first (rw_map w) of None \<Rightarrow> True | Some first \<Rightarrow> rw_base w \<le> first);
     Some (rw_base w)
   }"

definition rw_below_floor :: "('k::linorder, 'v) retained_window \<Rightarrow> 'k \<Rightarrow> bool option" where
  "rw_below_floor w key = do {
     let below = key < rw_base w;
     check (below \<longrightarrow> fmlookup (rw_map w) key = None);
     Some below
   }"

definition rw_entries :: "('k::linorder, 'v) retained_window \<Rightarrow> ('k, 'v) fmap option" where
  "rw_entries w = do {
     check (case fm_first (rw_map w) of None \<Rightarrow> True | Some first \<Rightarrow> rw_base w \<le> first);
     Some (rw_map w)
   }"

definition rw_get :: "('k::linorder, 'v) retained_window \<Rightarrow> 'k \<Rightarrow> 'v option option" where
  "rw_get w key = do {
     let value = fmlookup (rw_map w) key;
     (if value \<noteq> None then do { below \<leftarrow> rw_below_floor w key; check (\<not> below) } else Some ());
     Some value
   }"

definition rw_contains_key :: "('k::linorder, 'v) retained_window \<Rightarrow> 'k \<Rightarrow> bool option" where
  "rw_contains_key w key = do {
     let contains = fmlookup (rw_map w) key \<noteq> None;
     (if contains then do { below \<leftarrow> rw_below_floor w key; check (\<not> below) } else Some ());
     Some contains
   }"

text \<open>The two ranges its owners ask for: \<^verbatim>\<open>range(from..)\<close>, and \<^verbatim>\<open>range(from..to)\<close>, on which
  \<^verbatim>\<open>BTreeMap::range\<close> panics when the start lies past the end.\<close>

definition rw_range_from :: "('k::linorder, 'v) retained_window \<Rightarrow> 'k \<Rightarrow> ('k \<times> 'v) list" where
  "rw_range_from w from = fm_entries (fm_from from (rw_map w))"

definition rw_range :: "('k::linorder, 'v) retained_window \<Rightarrow> 'k \<Rightarrow> 'k \<Rightarrow> ('k \<times> 'v) list option" where
  "rw_range w from to = do {
     check (from \<le> to);
     Some (fm_entries (fmfilter (\<lambda>k. from \<le> k \<and> k < to) (rw_map w)))
   }"

definition rw_last_key :: "('k::linorder, 'v) retained_window \<Rightarrow> 'k option option" where
  "rw_last_key w = do {
     let last = fm_last (rw_map w);
     check (case last of None \<Rightarrow> True | Some k \<Rightarrow> rw_base w \<le> k);
     Some last
   }"

definition rw_insert ::
  "('k::linorder, 'v) retained_window \<Rightarrow> 'k \<Rightarrow> 'v \<Rightarrow> (('k, 'v) retained_window \<times> 'v option) option" where
  "rw_insert w key value = do {
     below \<leftarrow> rw_below_floor w key;
     check (\<not> below);
     let previous = fmlookup (rw_map w) key;
     let w = w\<lparr>rw_map := fmupd key value (rw_map w)\<rparr>;
     check (fmlookup (rw_map w) key \<noteq> None);
     Some (w, previous)
   }"

definition rw_remove ::
  "('k, 'v) retained_window \<Rightarrow> 'k \<Rightarrow> ('k, 'v) retained_window \<times> 'v option" where
  "rw_remove w key = (w\<lparr>rw_map := fmdrop key (rw_map w)\<rparr>, fmlookup (rw_map w) key)"

definition rw_raise_floor ::
  "('k::linorder, 'v) retained_window \<Rightarrow> 'k \<Rightarrow> ('k, 'v) retained_window option" where
  "rw_raise_floor w base = do {
     check (rw_base w \<le> base);
     let w = w\<lparr>rw_map := fm_from base (rw_map w)\<rparr>;
     let w = w\<lparr>rw_base := base\<rparr>;
     check (rw_base w = base);
     rw_assert_invariants w;
     Some w
   }"

section \<open>The invariant and the contract\<close>

definition rw_ok :: "('k::linorder, 'v) retained_window \<Rightarrow> bool" where
  "rw_ok w \<longleftrightarrow> (\<forall>k \<in> fmdom' (rw_map w). rw_base w \<le> k)"

lemma rw_okD: "rw_ok w \<Longrightarrow> fmlookup (rw_map w) k = Some v \<Longrightarrow> rw_base w \<le> k"
  by (simp add: rw_ok_def fmdom'I)

lemma rw_below_lookup: "rw_ok w \<Longrightarrow> k < rw_base w \<Longrightarrow> fmlookup (rw_map w) k = None"
  using rw_okD[of w k] by (cases "fmlookup (rw_map w) k") (auto simp: not_less[symmetric])

lemma rw_assert_invariants_iff [simp]: "rw_assert_invariants w = Some u \<longleftrightarrow> rw_ok w"
  by (simp add: rw_assert_invariants_def rw_first_key_def fm_first_is_none_or rw_ok_def Let_def)

lemma rw_assert_total [total_simps]: "rw_ok w \<Longrightarrow> rw_assert_invariants w = Some ()"
  by simp

lemma rw_new_total [total_simps]:
  "rw_new m base = (if \<forall>k \<in> fmdom' m. base \<le> k then Some \<lparr>rw_map = m, rw_base = base\<rparr> else None)"
  by (cases "\<forall>k \<in> fmdom' m. base \<le> k")
    (auto simp: rw_new_def rw_assert_invariants_def rw_first_key_def fm_first_is_none_or Let_def)

lemma rw_read_total [total_simps]:
  assumes "rw_ok w"
  shows "rw_floor w = Some (rw_base w)"
    "rw_entries w = Some (rw_map w)"
    "rw_first_key w = Some (fm_first (rw_map w))"
    "rw_below_floor w k = Some (k < rw_base w)"
  using assms
  by (auto simp: rw_floor_def rw_entries_def rw_first_key_def rw_below_floor_def
      fm_first_is_none_or rw_ok_def rw_below_lookup Let_def check_def)

lemma rw_get_total [total_simps]:
  assumes "rw_ok w"
  shows "rw_get w k = Some (fmlookup (rw_map w) k)"
    "rw_contains_key w k = Some (fmlookup (rw_map w) k \<noteq> None)"
  using assms rw_below_lookup[OF assms, of k]
  by (auto simp: rw_get_def rw_contains_key_def rw_read_total check_def Let_def not_less[symmetric])

lemma rw_last_key_total [total_simps]:
  assumes "rw_ok w"
  shows "rw_last_key w = Some (fm_last (rw_map w))"
  using assms fm_last_SomeD(1)[of "rw_map w"]
  by (cases "fm_last (rw_map w)") (auto simp: rw_last_key_def rw_ok_def check_def Let_def)

lemma rw_insert_total [total_simps]:
  assumes "rw_ok w"
  shows "rw_insert w k v =
    (if rw_base w \<le> k
     then Some (w\<lparr>rw_map := fmupd k v (rw_map w)\<rparr>, fmlookup (rw_map w) k) else None)"
  using assms by (auto simp: rw_insert_def rw_read_total not_less Let_def)

lemma rw_ok_fm_from [simp]: "rw_ok (w\<lparr>rw_map := fm_from b m, rw_base := b\<rparr>)"
  by (simp add: rw_ok_def)

lemma rw_raise_floor_total [total_simps]:
  "rw_raise_floor w b =
    (if rw_base w \<le> b then Some (w\<lparr>rw_map := fm_from b (rw_map w), rw_base := b\<rparr>) else None)"
  by (auto simp: rw_raise_floor_def rw_assert_total Let_def)

lemma rw_ok_fmupd [inv_intros]:
  "rw_ok w \<Longrightarrow> rw_base w \<le> k \<Longrightarrow> rw_ok (w\<lparr>rw_map := fmupd k v (rw_map w)\<rparr>)"
  by (auto simp: rw_ok_def)

lemma rw_ok_fmdrop [inv_intros]: "rw_ok w \<Longrightarrow> rw_ok (w\<lparr>rw_map := fmdrop k (rw_map w)\<rparr>)"
  by (auto simp: rw_ok_def)

text \<open>A run of insertions and floor raises, as an owner drives them.\<close>

fun run_ops ::
  "('w \<Rightarrow> 'k \<Rightarrow> 'v \<Rightarrow> 'w option) \<Rightarrow> ('w \<Rightarrow> 'k \<Rightarrow> 'w option) \<Rightarrow> ('k \<times> 'v option) list \<Rightarrow> 'w \<Rightarrow> 'w option" where
  "run_ops put raise [] w = Some w"
| "run_ops put raise ((k, Some v) # ops) w = put w k v \<bind> run_ops put raise ops"
| "run_ops put raise ((k, None) # ops) w = raise w k \<bind> run_ops put raise ops"

locale floored_map =
  fixes inv :: "'w \<Rightarrow> bool"
    and base :: "'w \<Rightarrow> 'k::linorder"
    and lookup :: "'w \<Rightarrow> 'k \<Rightarrow> 'v option"
    and put :: "'w \<Rightarrow> 'k \<Rightarrow> 'v \<Rightarrow> 'w option"
    and raise :: "'w \<Rightarrow> 'k \<Rightarrow> 'w option"
  assumes lookup_below: "inv w \<Longrightarrow> k < base w \<Longrightarrow> lookup w k = None"
    and put_iff: "inv w \<Longrightarrow> put w k v = None \<longleftrightarrow> k < base w"
    and put_law: "inv w \<Longrightarrow> put w k v = Some w' \<Longrightarrow>
      inv w' \<and> base w' = base w \<and> lookup w' = (lookup w)(k \<mapsto> v)"
    and raise_iff: "raise w b = None \<longleftrightarrow> b < base w"
    and raise_law: "inv w \<Longrightarrow> raise w b = Some w' \<Longrightarrow>
      inv w' \<and> base w' = b \<and> lookup w' = (\<lambda>k. if b \<le> k then lookup w k else None)"
begin

lemma run_ops_inv: "inv w \<Longrightarrow> run_ops put raise ops w = Some w' \<Longrightarrow> inv w' \<and> base w \<le> base w'"
proof (induction ops arbitrary: w)
  case (Cons op ops)
  obtain k ov where op: "op = (k, ov)" by fastforce
  show ?case
  proof (cases ov)
    case None
    with Cons.prems op obtain x where x: "raise w k = Some x" "run_ops put raise ops x = Some w'"
      by (auto simp: bind_Some_iff)
    moreover have "base w \<le> k" using x(1) raise_iff[of w k] by (auto simp: not_less[symmetric])
    ultimately show ?thesis using Cons.IH[of x] raise_law[OF Cons.prems(1) x(1)] by auto
  next
    case (Some v)
    with Cons.prems op obtain x where x: "put w k v = Some x" "run_ops put raise ops x = Some w'"
      by (auto simp: bind_Some_iff)
    then show ?thesis using Cons.IH[of x] put_law[OF Cons.prems(1) x(1)] by simp
  qed
qed simp

text \<open>What was dropped stays dropped: after any run, nothing sits below the floor it started from.\<close>

lemma run_ops_below:
  "inv w \<Longrightarrow> run_ops put raise ops w = Some w' \<Longrightarrow> k < base w \<Longrightarrow> lookup w' k = None"
  using run_ops_inv[of w ops w'] lookup_below[of w' k] by auto

end

interpretation rw: floored_map rw_ok rw_base "\<lambda>w. fmlookup (rw_map w)"
  "\<lambda>w k v. map_option fst (rw_insert w k v)" rw_raise_floor
proof (unfold_locales, goal_cases)
  case (3 w k v w')
  then show ?case by (auto simp: rw_insert_total split: if_splits intro: rw_ok_fmupd)
next
  case (5 w b w')
  then show ?case by (auto simp: rw_raise_floor_total split: if_splits)
qed (auto simp: rw_below_lookup rw_insert_total rw_raise_floor_total)

section \<open>Properties\<close>

text \<open>C21: a retained window never takes back what raising its floor dropped. Over any run of inserts
  and floor raises that does not panic, the invariant holds, the floor only rises, and a key below the
  floor the run started from is absent at the end; and one insert panics exactly when its key lies
  below the floor, one raise exactly when it would lower it.\<close>

theorem retained_window_monotone:
  assumes "rw_ok w"
  shows "(run_ops (\<lambda>w k v. map_option fst (rw_insert w k v)) rw_raise_floor ops w = Some w' \<longrightarrow> rw_ok w' \<and> rw_base w \<le> rw_base w' \<and>
      (\<forall>k < rw_base w. fmlookup (rw_map w') k = None)) \<and>
    (rw_insert w k v = None \<longleftrightarrow> k < rw_base w) \<and> (rw_raise_floor w k = None \<longleftrightarrow> k < rw_base w)"
  using rw.run_ops_inv[OF assms] rw.run_ops_below[OF assms] assms
  by (auto simp: rw_insert_total rw_raise_floor_total)

theorem retained_window_monotone_witness:
  "\<exists>w'. run_ops (\<lambda>w k v. map_option fst (rw_insert w k v)) rw_raise_floor
      [(5, Some 7), (4, None), (6, Some 8)] \<lparr>rw_map = fmempty, rw_base = 2\<rparr> = Some w' \<and>
    rw_ok w' \<and> fmlookup (rw_map w') (1::nat) = (None :: nat option)"
proof -
  let ?put = "\<lambda>w k v. map_option fst (rw_insert w k v)"
  let ?w = "\<lparr>rw_map = fmempty, rw_base = 2\<rparr> :: (nat, nat) retained_window"
  have ok: "rw_ok ?w" by (simp add: rw_ok_def)
  have "run_ops ?put rw_raise_floor [(5, Some 7), (4, None), (6, Some 8)] ?w \<noteq> None"
    by (simp add: rw_insert_def rw_below_floor_def rw_raise_floor_total)
  then obtain w' where
    "run_ops ?put rw_raise_floor [(5, Some 7), (4, None), (6, Some 8)] ?w = Some w'" by blast
  with retained_window_monotone[OF ok, of "[(5, Some 7), (4, None), (6, Some 8)]" w' 5 1]
  show ?thesis by simp
qed

end
