(* ===== verification/Acceptor.thy ===== *)
theory Acceptor
  imports Retained_Window
begin

section \<open>The acceptor\<close>

text \<open>
  The voting role of \<^verbatim>\<open>paros-core/src/acceptor.rs\<close>: the promise, the accepted records above the
  compaction floor, and the tri-state's faulty entries (voted, value lost). Every operation that
  changes durable state appends the write that makes it durable to the batch it is handed; the batch
  type is the caller's, so the injection \<open>into\<close> (\<^verbatim>\<open>W: From<AcceptorWrite<V>>\<close>) is a parameter.
  The invariant \<open>acceptor_ok\<close> is what \<open>acceptor_assert_invariants\<close> samples in constant time: under it
  no operation panics, the promise only rises, and the vote watermark only rises.
\<close>

definition PROMISE_BATCH :: nat where
  "PROMISE_BATCH = 64"

datatype prepare_outcome = PrepareBelowFloor | PrepareRefused | Promised (promised_raised: bool)

datatype accept_outcome = AcceptBelowFloor | AcceptRefused | Admitted

datatype 'v acceptor_write = SetPromise ballot | AppendAccepted slot ballot 'v

record 'v promise_page =
  pp_accepted :: "(slot, ballot \<times> 'v) fmap"
  pp_faulty :: "(slot, ballot) fmap"
  pp_next_from_slot :: "slot option"

record 'v acceptor =
  acc_promised :: ballot
  acc_records :: "(slot, ballot \<times> 'v) retained_window"
  acc_faulty :: "(slot, ballot) retained_window"
  acc_faulty_repaired :: nat
  acc_ceiling :: ballot

subsection \<open>Reads\<close>

definition acceptor_first_slot :: "'v acceptor \<Rightarrow> slot option" where
  "acceptor_first_slot a = do {
     base \<leftarrow> rw_floor (acc_records a);
     fbase \<leftarrow> rw_floor (acc_faulty a);
     check (base = fbase);
     Some base
   }"

text \<open>The probe of the first and the last entry against the ballot ceiling.\<close>

definition ends_bounded ::
  "('r \<Rightarrow> ballot) \<Rightarrow> (slot, 'r) retained_window \<Rightarrow> ballot \<Rightarrow> bool option" where
  "ends_bounded bal w bound = do {
     first \<leftarrow> rw_first_key w;
     last \<leftarrow> rw_last_key w;
     try_all (\<lambda>slot. do {
       entry \<leftarrow> rw_get w slot;
       Some (case entry of None \<Rightarrow> True | Some r \<Rightarrow> bal r \<le> bound)
     }) (flatten_opts [first, last])
   }"

definition acceptor_assert_invariants :: "'v acceptor \<Rightarrow> unit option" where
  "acceptor_assert_invariants a = do {
     first \<leftarrow> rw_first_key (acc_records a);
     first_slot \<leftarrow> acceptor_first_slot a;
     check (case first of None \<Rightarrow> True | Some s \<Rightarrow> first_slot \<le> s);
     first \<leftarrow> rw_first_key (acc_faulty a);
     check (case first of None \<Rightarrow> True | Some s \<Rightarrow> first_slot \<le> s);
     base \<leftarrow> rw_floor (acc_records a);
     fbase \<leftarrow> rw_floor (acc_faulty a);
     check (base = fbase);
     faulty \<leftarrow> rw_entries (acc_faulty a);
     disjoint \<leftarrow> try_all (\<lambda>s. do { b \<leftarrow> rw_contains_key (acc_records a) s; Some (\<not> b) })
                    (fm_keys faulty);
     check disjoint;
     check (acc_ceiling a \<le> acc_promised a);
     bounded \<leftarrow> ends_bounded fst (acc_records a) (acc_ceiling a);
     check bounded;
     bounded \<leftarrow> ends_bounded id (acc_faulty a) (acc_ceiling a);
     check bounded
   }"

definition acceptor_new ::
  "ballot \<Rightarrow> (slot, ballot \<times> 'v) fmap \<Rightarrow> slot \<Rightarrow> (slot, ballot) fmap \<Rightarrow> 'v acceptor option" where
  "acceptor_new promised records first_slot faulty = do {
     check (case fm_first records of None \<Rightarrow> True | Some s \<Rightarrow> first_slot \<le> s);
     check (case fm_first faulty of None \<Rightarrow> True | Some s \<Rightarrow> first_slot \<le> s);
     let bound = (case iter_max (map (fst \<circ> snd) (fm_entries records)
                                   @ map snd (fm_entries faulty)) of
                      None \<Rightarrow> ballot_zero | Some b \<Rightarrow> b);
     records \<leftarrow> rw_new records first_slot;
     faulty \<leftarrow> rw_new faulty first_slot;
     let acceptor = \<lparr>acc_promised = promised, acc_records = records, acc_faulty = faulty,
                     acc_faulty_repaired = 0, acc_ceiling = bound\<rparr>;
     acceptor_assert_invariants acceptor;
     Some acceptor
   }"

definition acceptor_promised :: "'v acceptor \<Rightarrow> ballot option" where
  "acceptor_promised a = do {
     last \<leftarrow> rw_last_key (acc_records a);
     record \<leftarrow> (case last of None \<Rightarrow> Some None | Some s \<Rightarrow> rw_get (acc_records a) s);
     check (case record of None \<Rightarrow> True | Some (b, _) \<Rightarrow> b \<le> acc_promised a);
     Some (acc_promised a)
   }"

definition acceptor_records :: "'v acceptor \<Rightarrow> (slot, ballot \<times> 'v) fmap option" where
  "acceptor_records a = do {
     records \<leftarrow> rw_entries (acc_records a);
     first_slot \<leftarrow> acceptor_first_slot a;
     check (case fm_first records of None \<Rightarrow> True | Some s \<Rightarrow> first_slot \<le> s);
     Some records
   }"

definition acceptor_record :: "'v acceptor \<Rightarrow> slot \<Rightarrow> (ballot \<times> 'v) option option" where
  "acceptor_record a slot = do {
     record \<leftarrow> rw_get (acc_records a) slot;
     (case record of
        None \<Rightarrow> Some ()
      | Some (ballot, _) \<Rightarrow> do {
          below \<leftarrow> rw_below_floor (acc_records a) slot;
          check (\<not> below);
          check (ballot \<le> acc_promised a);
          faulty \<leftarrow> rw_contains_key (acc_faulty a) slot;
          check (\<not> faulty)
        });
     Some record
   }"

definition acceptor_faulty :: "'v acceptor \<Rightarrow> (slot, ballot) fmap option" where
  "acceptor_faulty a = do {
     faulty \<leftarrow> rw_entries (acc_faulty a);
     first_slot \<leftarrow> acceptor_first_slot a;
     check (case fm_first faulty of None \<Rightarrow> True | Some s \<Rightarrow> first_slot \<le> s);
     Some faulty
   }"

definition acceptor_vote_watermark :: "'v acceptor \<Rightarrow> slot option option" where
  "acceptor_vote_watermark a = do {
     first_slot \<leftarrow> acceptor_first_slot a;
     let truncated = checked_sub64 first_slot 1;
     last_record \<leftarrow> rw_last_key (acc_records a);
     last_faulty \<leftarrow> rw_last_key (acc_faulty a);
     let watermark = iter_max (flatten_opts [last_record, last_faulty, truncated]);
     check (watermark \<ge> last_record);
     check (watermark \<ge> last_faulty);
     check (watermark \<ge> truncated);
     Some watermark
   }"

subsection \<open>Phase 1\<close>

definition acceptor_set_promise ::
  "('v acceptor_write \<Rightarrow> 'w) \<Rightarrow> 'v acceptor \<Rightarrow> ballot \<Rightarrow> 'w list \<Rightarrow> ('v acceptor \<times> 'w list) option" where
  "acceptor_set_promise into a ballot writes = do {
     check (ballot \<ge> acc_promised a);
     let writes_before = length writes;
     let (a, writes) = (if acc_promised a \<noteq> ballot
                        then (a\<lparr>acc_promised := ballot\<rparr>, writes @ [into (SetPromise ballot)])
                        else (a, writes));
     check (acc_promised a = ballot);
     check (length writes \<le> writes_before + 1);
     Some (a, writes)
   }"

definition acceptor_prepare ::
  "('v acceptor_write \<Rightarrow> 'w) \<Rightarrow> 'v acceptor \<Rightarrow> ballot \<Rightarrow> slot \<Rightarrow> 'w list \<Rightarrow>
   (prepare_outcome \<times> 'v acceptor \<times> 'w list) option" where
  "acceptor_prepare into a ballot from_slot writes = do {
     let writes_before = length writes;
     below \<leftarrow> rw_below_floor (acc_records a) from_slot;
     if below then Some (PrepareBelowFloor, a, writes)
     else if ballot < acc_promised a then Some (PrepareRefused, a, writes)
     else do {
       let raised = (ballot > acc_promised a);
       (a, writes) \<leftarrow> (if raised then acceptor_set_promise into a ballot writes
                       else Some (a, writes));
       check (acc_promised a = ballot);
       (if raised then check (length writes = writes_before + 1)
        else check (length writes = writes_before));
       Some (Promised raised, a, writes)
     }
   }"

text \<open>The page loop: the two peeked ranges are merged slot by slot until the page is full.\<close>

fun promise_fill ::
  "nat \<Rightarrow> (slot \<times> ballot \<times> 'v) list \<Rightarrow> (slot \<times> ballot) list \<Rightarrow>
   (slot, ballot \<times> 'v) fmap \<Rightarrow> (slot, ballot) fmap \<Rightarrow> 'v promise_page" where
  "promise_fill limit readable rotted accepted faulty =
     (if fm_len accepted + fm_len faulty < limit
      then (case (readable, rotted) of
              ([], []) \<Rightarrow>
                \<lparr>pp_accepted = accepted, pp_faulty = faulty, pp_next_from_slot = None\<rparr>
            | ((slot, record) # readable', []) \<Rightarrow>
                promise_fill limit readable' [] (fmupd slot record accepted) faulty
            | ([], (slot, fb) # rotted') \<Rightarrow>
                promise_fill limit [] rotted' accepted (fmupd slot fb faulty)
            | ((ra, record) # readable', (rf, fb) # rotted') \<Rightarrow>
                if ra < rf
                then promise_fill limit readable' rotted (fmupd ra record accepted) faulty
                else promise_fill limit readable rotted' accepted (fmupd rf fb faulty))
      else
        \<lparr>pp_accepted = accepted, pp_faulty = faulty,
         pp_next_from_slot = (case (readable, rotted) of
              ([], []) \<Rightarrow> None
            | ((slot, _) # _, []) \<Rightarrow> Some slot
            | ([], (slot, _) # _) \<Rightarrow> Some slot
            | ((ra, _) # _, (rf, _) # _) \<Rightarrow> Some (min ra rf))\<rparr>)"

definition acceptor_promise_page :: "'v acceptor \<Rightarrow> slot \<Rightarrow> nat \<Rightarrow> 'v promise_page option" where
  "acceptor_promise_page a from_slot limit = do {
     check (limit > 0);
     check (limit \<le> PROMISE_BATCH);
     let page = promise_fill limit (rw_range_from (acc_records a) from_slot)
                  (rw_range_from (acc_faulty a) from_slot) fmempty fmempty;
     let keys = fm_keys (pp_accepted page) @ fm_keys (pp_faulty page);
     check (fm_len (pp_accepted page) + fm_len (pp_faulty page) \<le> limit);
     check (list_all (\<lambda>s. fmlookup (pp_accepted page) s = None) (fm_keys (pp_faulty page)));
     check (list_all (\<lambda>s. from_slot \<le> s) keys);
     (case pp_next_from_slot page of
        None \<Rightarrow> Some ()
      | Some next \<Rightarrow> do {
          check (list_all (\<lambda>s. s < next) keys);
          check (fm_len (pp_accepted page) + fm_len (pp_faulty page) = limit)
        });
     Some page
   }"

declare promise_fill.simps [simp del]

subsection \<open>Phase 2\<close>

definition acceptor_admit :: "'v acceptor \<Rightarrow> ballot \<Rightarrow> slot \<Rightarrow> accept_outcome option" where
  "acceptor_admit a ballot slot = do {
     below \<leftarrow> rw_below_floor (acc_records a) slot;
     if below then Some AcceptBelowFloor
     else if ballot < acc_promised a then Some AcceptRefused
     else Some Admitted
   }"

definition acceptor_record_accepted ::
  "('v acceptor_write \<Rightarrow> 'w) \<Rightarrow> 'v acceptor \<Rightarrow> slot \<Rightarrow> ballot \<Rightarrow> 'v \<Rightarrow> 'w list \<Rightarrow>
   (bool \<times> 'v acceptor \<times> 'w list) option" where
  "acceptor_record_accepted into a slot ballot command writes = do {
     below \<leftarrow> rw_below_floor (acc_records a) slot;
     check (\<not> below);
     check (ballot \<le> acc_promised a);
     watermark_before \<leftarrow> acceptor_vote_watermark a;
     let writes_before = length writes;
     let (faulty, removed) = rw_remove (acc_faulty a) slot;
     let repaired = (removed \<noteq> None);
     let repaired_before = acc_faulty_repaired a;
     count \<leftarrow> (if repaired then checked_add64 repaired_before 1 else Some repaired_before);
     let a = a\<lparr>acc_faulty := faulty, acc_faulty_repaired := count\<rparr>;
     check (acc_faulty_repaired a = repaired_before + (if repaired then 1 else 0));
     held \<leftarrow> rw_get (acc_records a) slot;
     (case held of
        None \<Rightarrow> Some ()
      | Some (recorded_ballot, recorded) \<Rightarrow>
          check (ballot \<le> recorded_ballot \<longrightarrow> recorded = command));
     check (case held of None \<Rightarrow> True | Some (held, _) \<Rightarrow> ballot \<ge> held);
     (records, _) \<leftarrow> rw_insert (acc_records a) slot (ballot, command);
     let a = a\<lparr>acc_records := records, acc_ceiling := max (acc_ceiling a) ballot\<rparr>;
     let writes = writes @ [into (AppendAccepted slot ballot command)];
     watermark \<leftarrow> acceptor_vote_watermark a;
     check (watermark \<ge> watermark_before);
     check (length writes = writes_before + 1);
     now \<leftarrow> rw_get (acc_records a) slot;
     check (case now of None \<Rightarrow> False | Some (b, _) \<Rightarrow> b = ballot);
     still \<leftarrow> rw_contains_key (acc_faulty a) slot;
     check (\<not> still);
     Some (repaired, a, writes)
   }"

definition acceptor_rewrite ::
  "('v acceptor_write \<Rightarrow> 'w) \<Rightarrow> 'v acceptor \<Rightarrow> slot \<Rightarrow> 'w list \<Rightarrow>
   (ballot option \<times> 'v acceptor \<times> 'w list) option" where
  "acceptor_rewrite into a slot writes = do {
     record \<leftarrow> acceptor_record a slot;
     case record of
       None \<Rightarrow> Some (None, a, writes)
     | Some (ballot, value) \<Rightarrow> do {
         watermark_before \<leftarrow> acceptor_vote_watermark a;
         let promised_before = acc_promised a;
         let writes_before = length writes;
         count \<leftarrow> checked_add64 (acc_faulty_repaired a) 1;
         let a = a\<lparr>acc_faulty_repaired := count\<rparr>;
         let writes = writes @ [into (AppendAccepted slot ballot value)];
         check (length writes = writes_before + 1);
         now \<leftarrow> rw_get (acc_records a) slot;
         check (now = Some (ballot, value));
         check (acc_promised a = promised_before);
         watermark \<leftarrow> acceptor_vote_watermark a;
         check (watermark = watermark_before);
         Some (Some ballot, a, writes)
       }
   }"

section \<open>The invariant\<close>

definition acceptor_ok :: "'v acceptor \<Rightarrow> bool" where
  "acceptor_ok a \<longleftrightarrow> rw_ok (acc_records a) \<and> rw_ok (acc_faulty a) \<and>
     rw_base (acc_records a) = rw_base (acc_faulty a) \<and>
     (\<forall>s. fmlookup (rw_map (acc_faulty a)) s \<noteq> None \<longrightarrow> fmlookup (rw_map (acc_records a)) s = None) \<and>
     acc_ceiling a \<le> acc_promised a \<and>
     (\<forall>s b v. fmlookup (rw_map (acc_records a)) s = Some (b, v) \<longrightarrow> b \<le> acc_ceiling a) \<and>
     (\<forall>s b. fmlookup (rw_map (acc_faulty a)) s = Some b \<longrightarrow> b \<le> acc_ceiling a)"

abbreviation acc_floor :: "'v acceptor \<Rightarrow> slot" where
  "acc_floor a \<equiv> rw_base (acc_records a)"

abbreviation acc_record :: "'v acceptor \<Rightarrow> slot \<Rightarrow> (ballot \<times> 'v) option" where
  "acc_record a s \<equiv> fmlookup (rw_map (acc_records a)) s"

definition acc_watermark :: "'v acceptor \<Rightarrow> slot option" where
  "acc_watermark a = max (fm_last (rw_map (acc_records a))) (max (fm_last (rw_map (acc_faulty a)))
     (if acc_floor a = 0 then None else Some (acc_floor a - 1)))"

lemma acceptor_okD:
  assumes "acceptor_ok a"
  shows "rw_ok (acc_records a)" "rw_ok (acc_faulty a)"
    "rw_base (acc_faulty a) = acc_floor a"
    "acc_ceiling a \<le> acc_promised a"
    "fmlookup (rw_map (acc_faulty a)) s = Some fb \<Longrightarrow> acc_record a s = None"
    "acc_record a s = Some (b, v) \<Longrightarrow> fmlookup (rw_map (acc_faulty a)) s = None"
    "acc_record a s = Some (b, v) \<Longrightarrow> b \<le> acc_ceiling a"
    "fmlookup (rw_map (acc_faulty a)) s = Some fb \<Longrightarrow> fb \<le> acc_ceiling a"
  using assms unfolding acceptor_ok_def
  by (simp, simp, simp, simp, blast, (metis option.distinct(1)), blast, blast)

lemma acceptor_record_promised:
  "acceptor_ok a \<Longrightarrow> acc_record a s = Some (b, v) \<Longrightarrow> b \<le> acc_promised a"
  using order_trans[OF acceptor_okD(7) acceptor_okD(4)] .

lemma acceptor_first_slot_total [total_simps]:
  "acceptor_ok a \<Longrightarrow> acceptor_first_slot a = Some (acc_floor a)"
  by (simp add: acceptor_first_slot_def rw_read_total acceptor_okD)

lemma ends_bounded_total:
  assumes "rw_ok w" "\<And>s r. fmlookup (rw_map w) s = Some r \<Longrightarrow> bal r \<le> bound"
  shows "ends_bounded bal w bound = Some True"
proof -
  have "try_all (\<lambda>slot. do {
       entry \<leftarrow> rw_get w slot;
       Some (case entry of None \<Rightarrow> True | Some r \<Rightarrow> bal r \<le> bound)
     }) xs = Some (\<forall>c \<in> set xs. True)" for xs
    using assms by (intro try_all_total) (auto simp: rw_get_total split: option.split)
  then show ?thesis
    using assms(1) by (simp add: ends_bounded_def rw_read_total rw_last_key_total)
qed

lemma acceptor_assert_total [total_simps]:
  assumes "acceptor_ok a"
  shows "acceptor_assert_invariants a = Some ()"
proof -
  note ok = acceptor_okD[OF assms]
  have "try_all (\<lambda>s. rw_contains_key (acc_records a) s \<bind> (\<lambda>b. Some (\<not> b)))
      (fm_keys (rw_map (acc_faulty a))) = Some (\<forall>s \<in> set (fm_keys (rw_map (acc_faulty a))). True)"
    using ok by (intro try_all_total) (auto simp: rw_get_total fmlookup_dom'_iff)
  moreover have "(case fm_first (rw_map (acc_faulty a)) of None \<Rightarrow> True | Some s \<Rightarrow> acc_floor a \<le> s)"
    using ok(2,3) by (simp add: fm_first_is_none_or rw_ok_def)
  moreover have "(case fm_first (rw_map (acc_records a)) of None \<Rightarrow> True | Some s \<Rightarrow> acc_floor a \<le> s)"
    using ok(1) by (simp add: fm_first_is_none_or rw_ok_def)
  moreover have "ends_bounded fst (acc_records a) (acc_ceiling a) = Some True"
    using ok(1,7) by (intro ends_bounded_total) auto
  moreover have "ends_bounded id (acc_faulty a) (acc_ceiling a) = Some True"
    using ok(2,8) by (intro ends_bounded_total) auto
  ultimately show ?thesis
    using ok(1-4) assms
    by (simp add: acceptor_assert_invariants_def rw_read_total acceptor_first_slot_total)
qed

lemma acceptor_vote_watermark_total [total_simps]:
  assumes "acceptor_ok a"
  shows "acceptor_vote_watermark a = Some (acc_watermark a)"
proof -
  have "checked_sub64 n 1 = (if n = 0 then None else Some (n - 1))" for n
    by (simp add: checked_sub64_def)
  moreover have "iter_max (flatten_opts [x, y, z]) = max x (max y z)" for x y z :: "slot option"
    by (simp only: iter_max_flatten) simp
  ultimately show ?thesis
    using assms acceptor_okD[OF assms]
    by (simp add: acceptor_vote_watermark_def acceptor_first_slot_total rw_last_key_total
        acc_watermark_def Let_def le_max_iff_disj)
qed

lemma acceptor_reads_total [total_simps]:
  assumes "acceptor_ok a"
  shows "acceptor_promised a = Some (acc_promised a)"
    "acceptor_records a = Some (rw_map (acc_records a))"
    "acceptor_faulty a = Some (rw_map (acc_faulty a))"
    "acceptor_record a s = Some (acc_record a s)"
proof -
  note ok = acceptor_okD[OF assms]
  note reads = rw_read_total rw_get_total rw_last_key_total acceptor_first_slot_total[OF assms]
  show "acceptor_promised a = Some (acc_promised a)"
    using ok acceptor_record_promised[OF assms]
    by (simp add: acceptor_promised_def reads split: option.split)
  show "acceptor_records a = Some (rw_map (acc_records a))"
    "acceptor_faulty a = Some (rw_map (acc_faulty a))"
    using ok(1-3) by (simp_all add: acceptor_records_def acceptor_faulty_def reads
        fm_first_is_none_or rw_ok_def)
  show "acceptor_record a s = Some (acc_record a s)"
    using ok acceptor_record_promised[OF assms] rw_okD[OF ok(1)]
    by (auto simp: acceptor_record_def reads not_less split: option.split)
qed

subsection \<open>Boot\<close>

lemma iter_max_bound:
  "x \<in> set xs \<Longrightarrow> x \<le> (case iter_max xs of None \<Rightarrow> z | Some y \<Rightarrow> y)"
  by (auto simp: iter_max_def)

lemma iter_max_least:
  "(case iter_max xs of None \<Rightarrow> ballot_zero | Some y \<Rightarrow> y) \<le> p \<longleftrightarrow> (\<forall>x \<in> set xs. x \<le> p)"
  by (cases "xs = []") (simp_all add: iter_max_def)

lemma set_fm_entries: "set (fm_entries m) = {(k, v). fmlookup m k = Some v}"
  by auto

lemma held_ballots:
  "set (map (fst \<circ> snd) (fm_entries records) @ map snd (fm_entries faulty)) =
    {b. \<exists>s v. fmlookup records s = Some (b, v)} \<union> {b. \<exists>s. fmlookup faulty s = Some b}"
proof -
  have "(fst \<circ> snd) ` {(k, v). fmlookup records k = Some v} = {b. \<exists>s v. fmlookup records s = Some (b, v)}"
    unfolding image_def by fastforce
  moreover have "snd ` {(k, v). fmlookup faulty k = Some v} = {b. \<exists>s. fmlookup faulty s = Some b}"
    unfolding image_def by fastforce
  ultimately show ?thesis by (simp add: set_fm_entries)
qed

text \<open>The boot scan the acceptor is rebuilt from, and the acceptor it gives.\<close>

definition boot_ok ::
  "ballot \<Rightarrow> (slot, ballot \<times> 'v) fmap \<Rightarrow> slot \<Rightarrow> (slot, ballot) fmap \<Rightarrow> bool" where
  "boot_ok promised records first_slot faulty \<longleftrightarrow>
     (\<forall>s \<in> fmdom' records. first_slot \<le> s) \<and> (\<forall>s \<in> fmdom' faulty. first_slot \<le> s) \<and>
     (\<forall>s \<in> fmdom' faulty. fmlookup records s = None) \<and>
     (\<forall>s b v. fmlookup records s = Some (b, v) \<longrightarrow> b \<le> promised) \<and>
     (\<forall>s b. fmlookup faulty s = Some b \<longrightarrow> b \<le> promised)"

definition boot_ceiling :: "(slot, ballot \<times> 'v) fmap \<Rightarrow> (slot, ballot) fmap \<Rightarrow> ballot" where
  "boot_ceiling records faulty =
     (case iter_max (map (fst \<circ> snd) (fm_entries records) @ map snd (fm_entries faulty)) of
        None \<Rightarrow> ballot_zero | Some b \<Rightarrow> b)"

definition booted ::
  "ballot \<Rightarrow> (slot, ballot \<times> 'v) fmap \<Rightarrow> slot \<Rightarrow> (slot, ballot) fmap \<Rightarrow> 'v acceptor" where
  "booted promised records first_slot faulty =
     \<lparr>acc_promised = promised, acc_records = \<lparr>rw_map = records, rw_base = first_slot\<rparr>,
      acc_faulty = \<lparr>rw_map = faulty, rw_base = first_slot\<rparr>, acc_faulty_repaired = 0,
      acc_ceiling = boot_ceiling records faulty\<rparr>"

lemma boot_ceiling_le:
  "boot_ceiling records faulty \<le> p \<longleftrightarrow> (\<forall>s b v. fmlookup records s = Some (b, v) \<longrightarrow> b \<le> p) \<and>
     (\<forall>s b. fmlookup faulty s = Some b \<longrightarrow> b \<le> p)"
  unfolding boot_ceiling_def iter_max_least held_ballots by blast

lemma boot_ceiling_upper:
  "fmlookup records s = Some (b, v) \<Longrightarrow> b \<le> boot_ceiling records faulty"
  "fmlookup faulty s = Some b \<Longrightarrow> b \<le> boot_ceiling records faulty"
  using boot_ceiling_le[of records faulty "boot_ceiling records faulty"] by blast+

lemma booted_ok:
  assumes "boot_ok promised records first_slot faulty"
  shows "acceptor_ok (booted promised records first_slot faulty)"
proof -
  have "boot_ceiling records faulty \<le> promised"
    using assms by (simp add: boot_ok_def boot_ceiling_le)
  with assms show ?thesis
    by (auto simp: boot_ok_def acceptor_ok_def booted_def rw_ok_def fmdom'_iff
        intro: boot_ceiling_upper)
qed

text \<open>A boot scan is accepted exactly when it satisfies the invariant: everything at or above the
  floor, no slot both readable and faulty, and every ballot under the promise.\<close>

lemma acceptor_new_total [total_simps]:
  "acceptor_new promised records first_slot faulty =
    (if boot_ok promised records first_slot faulty
     then Some (booted promised records first_slot faulty) else None)"
proof (cases "(\<forall>s \<in> fmdom' records. first_slot \<le> s) \<and> (\<forall>s \<in> fmdom' faulty. first_slot \<le> s)")
  case base: True
  let ?a = "booted promised records first_slot faulty"
  have rw: "rw_ok (acc_records ?a)" "rw_ok (acc_faulty ?a)"
    using base by (simp_all add: booted_def rw_ok_def)
  have new: "acceptor_new promised records first_slot faulty =
      acceptor_assert_invariants ?a \<bind> (\<lambda>_. Some ?a)"
    using base
    by (simp add: acceptor_new_def rw_new_total fm_first_is_none_or Let_def booted_def boot_ceiling_def)
  show ?thesis
  proof (cases "boot_ok promised records first_slot faulty")
    case True
    then show ?thesis using new booted_ok[OF True] by (simp add: acceptor_assert_total)
  next
    case False
    have "try_all (\<lambda>s. rw_contains_key (acc_records ?a) s \<bind> (\<lambda>b. Some (\<not> b))) (fm_keys faulty)
        = Some (\<forall>s \<in> set (fm_keys faulty). fmlookup records s = None)"
      using rw by (intro try_all_total) (simp add: rw_get_total booted_def)
    moreover have "\<not> ((\<forall>s \<in> fmdom' faulty. fmlookup records s = None) \<and> boot_ceiling records faulty \<le> promised)"
      using False base by (simp add: boot_ok_def boot_ceiling_le)
    ultimately have "acceptor_assert_invariants ?a = None"
      using rw by (auto simp: acceptor_assert_invariants_def acceptor_first_slot_def rw_read_total
          booted_def)
    then show ?thesis using new False by simp
  qed
next
  case False
  then have "acceptor_new promised records first_slot faulty = None"
    by (auto simp: acceptor_new_def fm_first_is_none_or)
  with False show ?thesis by (auto simp: boot_ok_def)
qed

lemma acceptor_new_ok:
  "acceptor_new promised records first_slot faulty = Some a \<Longrightarrow> acceptor_ok a"
  by (auto simp: acceptor_new_total booted_ok split: if_splits)

subsection \<open>Phase 1 and Phase 2\<close>

lemma acceptor_set_promise_total [total_simps]:
  "acceptor_set_promise into a b writes =
    (if acc_promised a \<le> b
     then Some (a\<lparr>acc_promised := b\<rparr>,
                writes @ (if acc_promised a = b then [] else [into (SetPromise b)]))
     else None)"
  by (cases "acc_promised a = b") (auto simp: acceptor_set_promise_def)

lemma acceptor_ok_promise [inv_intros]:
  "acceptor_ok a \<Longrightarrow> acc_promised a \<le> b \<Longrightarrow> acceptor_ok (a\<lparr>acc_promised := b\<rparr>)"
  by (auto simp: acceptor_ok_def)

lemma acceptor_prepare_total [total_simps]:
  assumes "acceptor_ok a"
  shows "acceptor_prepare into a b from writes = Some
    (if from < acc_floor a then (PrepareBelowFloor, a, writes)
     else if b < acc_promised a then (PrepareRefused, a, writes)
     else (Promised (acc_promised a < b), a\<lparr>acc_promised := b\<rparr>,
           writes @ (if acc_promised a < b then [into (SetPromise b)] else [])))"
  using acceptor_okD(1)[OF assms]
  by (auto simp: acceptor_prepare_def rw_read_total acceptor_set_promise_total Let_def)

lemma acceptor_admit_total [total_simps]:
  assumes "acceptor_ok a"
  shows "acceptor_admit a b slot = Some
    (if slot < acc_floor a then AcceptBelowFloor
     else if b < acc_promised a then AcceptRefused else Admitted)"
  using acceptor_okD(1)[OF assms] by (simp add: acceptor_admit_def rw_read_total)

text \<open>The acceptor after it recorded \<open>(b, v)\<close> at a slot.\<close>

definition acceptor_recorded :: "'v acceptor \<Rightarrow> slot \<Rightarrow> ballot \<Rightarrow> 'v \<Rightarrow> 'v acceptor" where
  "acceptor_recorded a slot b v = a\<lparr>
     acc_records := (acc_records a)\<lparr>rw_map := fmupd slot (b, v) (rw_map (acc_records a))\<rparr>,
     acc_faulty := (acc_faulty a)\<lparr>rw_map := fmdrop slot (rw_map (acc_faulty a))\<rparr>,
     acc_faulty_repaired := acc_faulty_repaired a +
       (if fmlookup (rw_map (acc_faulty a)) slot = None then 0 else 1),
     acc_ceiling := max (acc_ceiling a) b\<rparr>"

lemma acceptor_ok_recorded [inv_intros]:
  assumes "acceptor_ok a" "acc_floor a \<le> slot" "b \<le> acc_promised a"
  shows "acceptor_ok (acceptor_recorded a slot b v)"
proof -
  note ok = acceptor_okD[OF assms(1)]
  have "rw_ok ((acc_records a)\<lparr>rw_map := fmupd slot (b, v) (rw_map (acc_records a))\<rparr>)"
    "rw_ok ((acc_faulty a)\<lparr>rw_map := fmdrop slot (rw_map (acc_faulty a))\<rparr>)"
    using ok(1,2) assms(2) by (auto intro: rw_ok_fmupd rw_ok_fmdrop)
  moreover have "c \<le> max (acc_ceiling a) b" if "c \<le> acc_ceiling a" for c
    using that by (simp add: le_max_iff_disj)
  ultimately show ?thesis
    using ok assms(3) by (auto simp: acceptor_ok_def acceptor_recorded_def)
qed

lemma max_swap:
  fixes s :: "'x::linorder"
  assumes "max s f' = max s f"
  shows "max (max s r) (max f' t) = max s (max r (max f t))"
proof -
  have "max (max s r) (max f' t) = max r (max (max s f') t)" by (simp add: ac_simps)
  also have "\<dots> = max r (max (max s f) t)" using assms by simp
  also have "\<dots> = max s (max r (max f t))" by (simp add: ac_simps)
  finally show ?thesis .
qed

lemma acc_watermark_recorded:
  assumes "acceptor_ok a"
  shows "acc_watermark (acceptor_recorded a slot b v) = max (Some slot) (acc_watermark a)"
proof -
  let ?f = "rw_map (acc_faulty a)"
  have "max (Some slot) (fm_last (fmdrop slot ?f)) = max (Some slot) (fm_last ?f)"
  proof (cases "fmlookup ?f slot")
    case None
    then have "fmdrop slot ?f = ?f" by (intro fmap_ext) auto
    then show ?thesis by simp
  next
    case (Some c)
    then have "fmupd slot c (fmdrop slot ?f) = ?f" by (intro fmap_ext) auto
    then show ?thesis using fm_last_fmupd[of slot c "fmdrop slot ?f"]
      by (metis max.left_idem)
  qed
  then show ?thesis
    unfolding acc_watermark_def acceptor_recorded_def by (simp add: fm_last_fmupd max_swap)
qed

lemma acceptor_record_accepted_total [total_simps]:
  assumes ok: "acceptor_ok a" and fl: "acc_floor a \<le> slot" and b: "b \<le> acc_promised a"
    and held: "\<And>b' v'. acc_record a slot = Some (b', v') \<Longrightarrow> b' < b \<or> b' = b \<and> v' = v"
    and count: "fmlookup (rw_map (acc_faulty a)) slot \<noteq> None \<Longrightarrow> acc_faulty_repaired a < u64_max"
  shows "acceptor_record_accepted into a slot b v writes =
    Some (fmlookup (rw_map (acc_faulty a)) slot \<noteq> None, acceptor_recorded a slot b v,
          writes @ [into (AppendAccepted slot b v)])"
proof -
  note ok' = acceptor_okD[OF ok]
  let ?r = "if fmlookup (rw_map (acc_faulty a)) slot = None then 0 else 1 :: nat"
  let ?a1 = "a\<lparr>acc_faulty := (acc_faulty a)\<lparr>rw_map := fmdrop slot (rw_map (acc_faulty a))\<rparr>,
      acc_faulty_repaired := acc_faulty_repaired a + ?r\<rparr>"
  have faulty: "rw_ok (acc_faulty ?a1)" using ok'(2) by (simp add: rw_ok_fmdrop)
  have count': "(if fmlookup (rw_map (acc_faulty a)) slot \<noteq> None
      then checked_add64 (acc_faulty_repaired a) 1 else Some (acc_faulty_repaired a)) =
      Some (acc_faulty_repaired a + ?r)"
    using count by (auto simp: checked_add64_def)
  have ok2: "acceptor_ok (acceptor_recorded a slot b v)" using ok fl b by (rule acceptor_ok_recorded)
  have rec: "acceptor_recorded a slot b v =
    ?a1\<lparr>acc_records := (acc_records a)\<lparr>rw_map := fmupd slot (b, v) (rw_map (acc_records a))\<rparr>,
      acc_ceiling := max (acc_ceiling a) b\<rparr>"
    by (simp add: acceptor_recorded_def)
  have wm: "acc_watermark (acceptor_recorded a slot b v) \<ge> acc_watermark a"
    by (simp add: acc_watermark_recorded[OF ok])
  have held': "(case acc_record a slot of None \<Rightarrow> Some () | Some (b', v') \<Rightarrow> check (b \<le> b' \<longrightarrow> v' = v)) = Some ()"
    "(case acc_record a slot of None \<Rightarrow> True | Some (b', v') \<Rightarrow> b' \<le> b)"
    using held by (auto split: option.split)
  note ok2' = acceptor_okD[OF ok2]
  show ?thesis
    using fl b count' held' faulty ok'(1) ok2' acceptor_vote_watermark_total[OF ok]
      acceptor_vote_watermark_total[OF ok2] wm
    unfolding acceptor_record_accepted_def rec
    by (simp add: rw_read_total rw_get_total rw_insert_total rw_remove_def not_less)
qed

lemma acceptor_rewrite_total [total_simps]:
  assumes "acceptor_ok a" "acc_faulty_repaired a < u64_max"
  shows "acceptor_rewrite into a slot writes = Some
    (case acc_record a slot of
       None \<Rightarrow> (None, a, writes)
     | Some (b, v) \<Rightarrow> (Some b, a\<lparr>acc_faulty_repaired := acc_faulty_repaired a + 1\<rparr>,
                       writes @ [into (AppendAccepted slot b v)]))"
proof -
  have ok': "acceptor_ok (a\<lparr>acc_faulty_repaired := n\<rparr>)" for n
    using assms(1) by (simp add: acceptor_ok_def)
  have wm: "acceptor_vote_watermark (a\<lparr>acc_faulty_repaired := n\<rparr>) = Some (acc_watermark a)" for n
    using acceptor_vote_watermark_total[OF ok'] by (simp add: acc_watermark_def)
  show ?thesis
  proof (cases "acc_record a slot")
    case None
    then show ?thesis using assms(1) by (simp add: acceptor_rewrite_def acceptor_reads_total)
  next
    case (Some r)
    moreover obtain b v where "r = (b, v)" by fastforce
    ultimately show ?thesis
      using assms acceptor_okD(1)[OF assms(1)] acceptor_vote_watermark_total[OF assms(1)]
      by (simp add: acceptor_rewrite_def acceptor_reads_total rw_get_total wm checked_add64_def)
  qed
qed

subsection \<open>Promise pages\<close>

lemma map_of_fm_entries: "map_of (fm_entries m) = fmlookup m"
proof
  fix k
  have dist: "distinct (map fst (fm_entries m))" by simp
  show "map_of (fm_entries m) k = fmlookup m k"
  proof (cases "fmlookup m k")
    case None
    then have "k \<notin> fst ` set (fm_entries m)"
      by (metis fst_fm_entries set_map set_fm_keys fmdom'_notI)
    with None show ?thesis by (simp add: map_of_eq_None_iff)
  next
    case (Some v)
    with dist show ?thesis by (simp add: map_of_is_SomeI)
  qed
qed

definition before_next :: "slot option \<Rightarrow> slot \<Rightarrow> bool" where
  "before_next next s \<longleftrightarrow> (case next of None \<Rightarrow> True | Some k \<Rightarrow> s < k)"

definition fill_post ::
  "nat \<Rightarrow> (slot \<times> ballot \<times> 'v) list \<Rightarrow> (slot \<times> ballot) list \<Rightarrow>
   (slot, ballot \<times> 'v) fmap \<Rightarrow> (slot, ballot) fmap \<Rightarrow> 'v promise_page \<Rightarrow> bool" where
  "fill_post limit rs fs acc fl page \<longleftrightarrow>
     (\<forall>s. fmlookup (pp_accepted page) s = (case fmlookup acc s of Some r \<Rightarrow> Some r
        | None \<Rightarrow> if before_next (pp_next_from_slot page) s then map_of rs s else None)) \<and>
     (\<forall>s. fmlookup (pp_faulty page) s = (case fmlookup fl s of Some r \<Rightarrow> Some r
        | None \<Rightarrow> if before_next (pp_next_from_slot page) s then map_of fs s else None)) \<and>
     fm_len (pp_accepted page) + fm_len (pp_faulty page) \<le> limit \<and>
     (\<forall>k. pp_next_from_slot page = Some k \<longrightarrow> k \<in> fst ` set rs \<union> fst ` set fs \<and>
        fm_len (pp_accepted page) + fm_len (pp_faulty page) = limit)"

lemma fill_post_readable:
  assumes "fill_post limit rs fs (fmupd a r acc) fl page"
    and "\<forall>k \<in> fst ` set rs \<union> fst ` set fs. a < k" "fmlookup acc a = None"
  shows "fill_post limit ((a, r) # rs) fs acc fl page"
proof -
  have "before_next (pp_next_from_slot page) a"
    using assms(1,2) by (auto simp: before_next_def fill_post_def split: option.split)
  with assms show ?thesis
    unfolding fill_post_def by (auto split: option.splits)
qed

lemma fill_post_rotted:
  assumes "fill_post limit rs fs acc (fmupd a b fl) page"
    and "\<forall>k \<in> fst ` set rs \<union> fst ` set fs. a < k" "fmlookup fl a = None"
  shows "fill_post limit rs ((a, b) # fs) acc fl page"
proof -
  have "before_next (pp_next_from_slot page) a"
    using assms(1,2) by (auto simp: before_next_def fill_post_def split: option.split)
  with assms show ?thesis
    unfolding fill_post_def by (auto split: option.splits)
qed

definition fill_pre ::
  "nat \<Rightarrow> (slot \<times> ballot \<times> 'v) list \<Rightarrow> (slot \<times> ballot) list \<Rightarrow>
   (slot, ballot \<times> 'v) fmap \<Rightarrow> (slot, ballot) fmap \<Rightarrow> bool" where
  "fill_pre limit rs fs acc fl \<longleftrightarrow>
     sorted_wrt (<) (map fst rs) \<and> sorted_wrt (<) (map fst fs) \<and>
     fst ` set rs \<inter> fst ` set fs = {} \<and>
     (\<forall>k \<in> fmdom' acc \<union> fmdom' fl. \<forall>s \<in> fst ` set rs \<union> fst ` set fs. k < s) \<and>
     fm_len acc + fm_len fl \<le> limit"

lemma fill_pre_readable:
  assumes "fill_pre limit ((a, r) # rs) fs acc fl" "\<forall>k \<in> fst ` set fs. a < k"
    and "fm_len acc + fm_len fl < limit"
  shows "fill_pre limit rs fs (fmupd a r acc) fl" "fmlookup acc a = None"
    "\<forall>k \<in> fst ` set rs \<union> fst ` set fs. a < k"
proof -
  have notin: "a \<notin> fmdom' acc" "a \<notin> fmdom' fl"
    using assms(1) by (auto simp: fill_pre_def)
  then show "fmlookup acc a = None" by (simp add: fmdom'_notD)
  show less: "\<forall>k \<in> fst ` set rs \<union> fst ` set fs. a < k"
    using assms(1,2) by (auto simp: fill_pre_def)
  show "fill_pre limit rs fs (fmupd a r acc) fl"
    using assms less notin by (auto simp: fill_pre_def fm_len_fmupd)
qed

lemma fill_pre_rotted:
  assumes "fill_pre limit rs ((a, b) # fs) acc fl" "\<forall>k \<in> fst ` set rs. a < k"
    and "fm_len acc + fm_len fl < limit"
  shows "fill_pre limit rs fs acc (fmupd a b fl)" "fmlookup fl a = None"
    "\<forall>k \<in> fst ` set rs \<union> fst ` set fs. a < k"
proof -
  have notin: "a \<notin> fmdom' acc" "a \<notin> fmdom' fl"
    using assms(1) by (auto simp: fill_pre_def)
  then show "fmlookup fl a = None" by (simp add: fmdom'_notD)
  show less: "\<forall>k \<in> fst ` set rs \<union> fst ` set fs. a < k"
    using assms(1,2) by (auto simp: fill_pre_def)
  show "fill_pre limit rs fs acc (fmupd a b fl)"
    using assms less notin by (auto simp: fill_pre_def fm_len_fmupd)
qed

lemma fill_post_full:
  assumes "fill_pre limit rs fs acc fl" "\<not> fm_len acc + fm_len fl < limit"
  shows "fill_post limit rs fs acc fl (promise_fill limit rs fs acc fl)"
proof -
  have len: "fm_len acc + fm_len fl = limit" using assms by (simp add: fill_pre_def)
  define nx where "nx = pp_next_from_slot (promise_fill limit rs fs acc fl)"
  have page: "promise_fill limit rs fs acc fl =
      \<lparr>pp_accepted = acc, pp_faulty = fl, pp_next_from_slot = nx\<rparr>"
    using assms(2) by (simp add: nx_def promise_fill.simps[of limit])
  have cases: "nx = (case (rs, fs) of ([], []) \<Rightarrow> None | ((s, _) # _, []) \<Rightarrow> Some s
      | ([], (s, _) # _) \<Rightarrow> Some s | ((ra, _) # _, (rf, _) # _) \<Rightarrow> Some (min ra rf))"
    using assms(2) by (simp add: nx_def promise_fill.simps[of limit])
  have "map_of rs s = None" if "before_next nx s" for s
  proof (cases rs)
    case (Cons r rs')
    then have "\<forall>k \<in> fst ` set rs. fst r \<le> k"
      using assms(1) by (auto simp: fill_pre_def)
    moreover have "s < fst r"
      using that Cons cases by (cases r; cases fs) (auto simp: before_next_def)
    ultimately show ?thesis by (force simp: map_of_eq_None_iff)
  qed simp
  moreover have "map_of fs s = None" if "before_next nx s" for s
  proof (cases fs)
    case (Cons f fs')
    then have "\<forall>k \<in> fst ` set fs. fst f \<le> k"
      using assms(1) by (auto simp: fill_pre_def)
    moreover have "s < fst f"
      using that Cons cases by (cases f; cases rs) (auto simp: before_next_def)
    ultimately show ?thesis by (force simp: map_of_eq_None_iff)
  qed simp
  moreover have "k \<in> fst ` set rs \<union> fst ` set fs" if "nx = Some k" for k
    using that cases by (cases rs; cases fs) (auto simp: min_def split: if_splits)
  ultimately show ?thesis
    using len page by (auto simp: fill_post_def split: option.split)
qed

lemma promise_fill_take:
  assumes "fm_len acc + fm_len fl < limit"
  shows "\<forall>k \<in> fst ` set fs. a < k \<Longrightarrow>
      promise_fill limit ((a, r) # rs) fs acc fl = promise_fill limit rs fs (fmupd a r acc) fl"
    and "\<forall>k \<in> fst ` set rs'. c < k \<Longrightarrow>
      promise_fill limit rs' ((c, b) # fs') acc fl = promise_fill limit rs' fs' acc (fmupd c b fl)"
  using assms by (cases fs; cases rs'; force simp: promise_fill.simps[of limit _ _ acc])+

lemma fill_pre_cases:
  assumes "fill_pre limit rs fs acc fl"
  obtains "rs = []" "fs = []"
  | a r rs' where "rs = (a, r) # rs'" "\<forall>k \<in> fst ` set fs. a < k"
  | c b fs' where "fs = (c, b) # fs'" "\<forall>k \<in> fst ` set rs. c < k"
proof (cases rs)
  case Nil
  then show thesis using that(1,3) by (cases fs) auto
next
  case (Cons x rs')
  then obtain a r where x: "rs = (a, r) # rs'" by (cases x) auto
  show thesis
  proof (cases fs)
    case Nil
    then show thesis using that(2)[OF x] by simp
  next
    case (Cons y fs')
    then obtain c b where y: "fs = (c, b) # fs'" by (cases y) auto
    have "a \<noteq> c" "\<forall>k \<in> fst ` set rs'. a < k" "\<forall>k \<in> fst ` set fs'. c < k"
      using assms x y by (auto simp: fill_pre_def)
    then show thesis using that(2)[OF x] that(3)[OF y] x y by (cases "a < c") force+
  qed
qed

lemma promise_fill_post:
  "fill_pre limit rs fs acc fl \<Longrightarrow> fill_post limit rs fs acc fl (promise_fill limit rs fs acc fl)"
proof (induction "length rs + length fs" arbitrary: rs fs acc fl rule: less_induct)
  case less
  show ?case
  proof (cases "fm_len acc + fm_len fl < limit")
    case False
    with less.prems show ?thesis by (rule fill_post_full)
  next
    case lt: True
    from less.prems show ?thesis
    proof (cases rule: fill_pre_cases)
      case 1
      then show ?thesis
        using lt by (simp add: promise_fill.simps[of limit] fill_post_def split: option.split)
    next
      case (2 a r rs')
      note pre = fill_pre_readable[OF less.prems[unfolded 2(1)] 2(2) lt]
      show ?thesis
        unfolding 2(1) promise_fill_take(1)[OF lt 2(2)]
        using less.hyps[OF _ pre(1)] 2(1) pre(2,3) by (intro fill_post_readable) auto
    next
      case (3 c b fs')
      note pre = fill_pre_rotted[OF less.prems[unfolded 3(1)] 3(2) lt]
      show ?thesis
        unfolding 3(1) promise_fill_take(2)[OF lt 3(2)]
        using less.hyps[OF _ pre(1)] 3(1) pre(2,3) by (intro fill_post_rotted) auto
    qed
  qed
qed

definition page_of :: "'v acceptor \<Rightarrow> slot \<Rightarrow> slot option \<Rightarrow> 'v promise_page" where
  "page_of a from next =
     \<lparr>pp_accepted = fmfilter (before_next next) (fm_from from (rw_map (acc_records a))),
      pp_faulty = fmfilter (before_next next) (fm_from from (rw_map (acc_faulty a))),
      pp_next_from_slot = next\<rparr>"

definition held_from :: "'v acceptor \<Rightarrow> slot \<Rightarrow> slot set" where
  "held_from a from = fmdom' (fm_from from (rw_map (acc_records a))) \<union>
     fmdom' (fm_from from (rw_map (acc_faulty a)))"

lemma finite_held_from [simp]: "finite (held_from a from)"
  by (simp add: held_from_def)

lemma page_of_len:
  assumes "acceptor_ok a"
  shows "fm_len (pp_accepted (page_of a from next)) + fm_len (pp_faulty (page_of a from next)) =
    card {s \<in> held_from a from. before_next next s}"
proof -
  let ?R = "fmdom' (pp_accepted (page_of a from next))"
  let ?F = "fmdom' (pp_faulty (page_of a from next))"
  have "?R \<inter> ?F = {}"
    using acceptor_okD(5)[OF assms] by (auto simp: page_of_def fmdom'_iff split: if_splits)
  then have "card ?R + card ?F = card (?R \<union> ?F)"
    by (simp add: card_Un_disjoint)
  also have "?R \<union> ?F = {s \<in> held_from a from. before_next next s}"
    by (auto simp: page_of_def held_from_def fmdom'_iff split: if_splits)
  finally show ?thesis by (simp add: fm_len_def)
qed

text \<open>A page is the slot-ordered prefix of what the acceptor holds at or after the requested slot: cut
  at the cursor it carries, full when it carries one, everything when it does not.\<close>

lemma acceptor_promise_page_total:
  assumes ok: "acceptor_ok a" and limit: "0 < limit" "limit \<le> PROMISE_BATCH"
  shows "\<exists>next. acceptor_promise_page a from limit = Some (page_of a from next) \<and>
    card {s \<in> held_from a from. before_next next s} \<le> limit \<and>
    (\<forall>k. next = Some k \<longrightarrow> k \<in> held_from a from \<and>
       card {s \<in> held_from a from. before_next next s} = limit)"
proof -
  let ?rm = "fm_from from (rw_map (acc_records a))"
  let ?fm = "fm_from from (rw_map (acc_faulty a))"
  let ?page = "promise_fill limit (fm_entries ?rm) (fm_entries ?fm) fmempty fmempty"
  let ?next = "pp_next_from_slot ?page"
  have keys: "fst ` set (fm_entries m) = fmdom' m" for m :: "(slot, 'z) fmap"
    by (metis fst_fm_entries set_map set_fm_keys)
  have disj: "fmdom' ?rm \<inter> fmdom' ?fm = {}"
    using acceptor_okD(5)[OF ok] by (auto simp: fmdom'_iff)
  then have "fill_pre limit (fm_entries ?rm) (fm_entries ?fm) fmempty fmempty"
    by (simp add: fill_pre_def keys strict_sorted_iff)
  note post = promise_fill_post[OF this, unfolded fill_post_def map_of_fm_entries keys]
  have page: "?page = page_of a from ?next"
  proof -
    have "pp_accepted ?page = fmfilter (before_next ?next) ?rm"
      "pp_faulty ?page = fmfilter (before_next ?next) ?fm"
      using post by (auto intro!: fmap_ext)
    then show ?thesis unfolding page_of_def by (cases ?page) simp
  qed
  note len = page_of_len[OF ok, of "from" ?next, folded page]
  have "acceptor_promise_page a from limit = Some ?page"
  proof -
    have "set (fm_keys (pp_accepted ?page)) \<union> set (fm_keys (pp_faulty ?page)) =
        {s \<in> held_from a from. before_next ?next s}"
      unfolding set_fm_keys
      by (subst page, subst (2) page) (auto simp: page_of_def held_from_def fmdom'_iff split: if_splits)
    then have "list_all (\<lambda>s. from \<le> s) (fm_keys (pp_accepted ?page) @ fm_keys (pp_faulty ?page))"
      "\<forall>k. ?next = Some k \<longrightarrow> list_all (\<lambda>s. s < k) (fm_keys (pp_accepted ?page) @ fm_keys (pp_faulty ?page))"
      by (auto simp: list_all_iff held_from_def before_next_def)
    moreover have "list_all (\<lambda>s. fmlookup (pp_accepted ?page) s = None) (fm_keys (pp_faulty ?page))"
      using acceptor_okD(5)[OF ok]
      by (subst page, subst (2) page)
        (auto simp: page_of_def list_all_iff fmdom'_iff split: if_splits)
    ultimately show ?thesis
      using post limit unfolding acceptor_promise_page_def rw_range_from_def
      by (simp add: Let_def split: option.split)
  qed
  with page post len show ?thesis
    unfolding held_from_def by (intro exI[of _ ?next]) simp
qed

text \<open>Reading an acceptor's suffix page by page, following the cursor.\<close>

fun read_suffix ::
  "nat \<Rightarrow> 'v acceptor \<Rightarrow> nat \<Rightarrow> slot \<Rightarrow> ((slot, ballot \<times> 'v) fmap \<times> (slot, ballot) fmap) option" where
  "read_suffix 0 a limit from = None"
| "read_suffix (Suc n) a limit from = do {
     page \<leftarrow> acceptor_promise_page a from limit;
     (case pp_next_from_slot page of
        None \<Rightarrow> Some (pp_accepted page, pp_faulty page)
      | Some next \<Rightarrow> do {
          (accepted, faulty) \<leftarrow> read_suffix n a limit next;
          Some (pp_accepted page ++\<^sub>f accepted, pp_faulty page ++\<^sub>f faulty)
        })
   }"

lemma last_page [simp]: "fmfilter (before_next None) m = m"
  by (intro fmap_ext) (simp add: before_next_def)

lemma join_pages:
  assumes "from \<le> next"
  shows "fmfilter (before_next (Some next)) (fm_from from m) ++\<^sub>f fm_from next m = fm_from from m"
  using assms by (intro fmap_ext) (auto simp: before_next_def fmdom'_iff fmlookup_dom_iff)

lemma read_suffix_total:
  assumes ok: "acceptor_ok a" and limit: "0 < limit" "limit \<le> PROMISE_BATCH"
  shows "card (held_from a from) < n \<Longrightarrow> read_suffix n a limit from =
    Some (fm_from from (rw_map (acc_records a)), fm_from from (rw_map (acc_faulty a)))"
proof (induction n arbitrary: "from")
  case (Suc n)
  obtain nx where page: "acceptor_promise_page a from limit = Some (page_of a from nx)"
    and more: "\<forall>k. nx = Some k \<longrightarrow> k \<in> held_from a from \<and>
       card {s \<in> held_from a from. before_next nx s} = limit"
    using acceptor_promise_page_total[OF ok limit] by blast
  show ?case
  proof (cases nx)
    case None
    then show ?thesis using page by (simp add: page_of_def)
  next
    case (Some k)
    have k: "from \<le> k" "card {s \<in> held_from a from. s < k} = limit"
      using more Some by (auto simp: held_from_def before_next_def)
    have "held_from a from = {s \<in> held_from a from. s < k} \<union> held_from a k"
      using k(1) by (auto simp: held_from_def)
    moreover have "{s \<in> held_from a from. s < k} \<inter> held_from a k = {}"
      by (auto simp: held_from_def)
    ultimately have "card (held_from a from) = limit + card (held_from a k)"
      using k(2) by (metis (no_types, lifting) card_Un_disjoint finite_held_from finite_Un)
    then have "card (held_from a k) < n" using Suc.prems limit(1) by simp
    from Suc.IH[OF this] show ?thesis
      using page Some k(1) by (simp add: page_of_def join_pages)
  qed
qed simp

subsection \<open>Voting as a step relation\<close>

text \<open>One message handled by an acceptor, with the writes it emits: a \<^verbatim>\<open>Prepare\<close>, an \<^verbatim>\<open>Accept\<close> that is
  admitted (the caller raises the promise and records the value), or the scrub's rewrite.\<close>

inductive acceptor_step :: "'v acceptor \<Rightarrow> 'v acceptor_write list \<Rightarrow> 'v acceptor \<Rightarrow> bool" where
  prepare: "acceptor_prepare id a b from [] = Some (out, a', ws) \<Longrightarrow> acceptor_step a ws a'"
| accept: "acceptor_admit a b slot = Some Admitted \<Longrightarrow>
    acceptor_set_promise id a b [] = Some (a1, ws1) \<Longrightarrow>
    acceptor_record_accepted id a1 slot b v ws1 = Some (repaired, a', ws) \<Longrightarrow> acceptor_step a ws a'"
| rewrite: "acceptor_rewrite id a slot [] = Some (out, a', ws) \<Longrightarrow> acceptor_step a ws a'"

text \<open>The durable half of an acceptor and what a write does to it.\<close>

definition durable :: "'v acceptor \<Rightarrow> ballot \<times> (slot, ballot \<times> 'v) fmap" where
  "durable a = (acc_promised a, rw_map (acc_records a))"

fun replay_write ::
  "'v acceptor_write \<Rightarrow> ballot \<times> (slot, ballot \<times> 'v) fmap \<Rightarrow> ballot \<times> (slot, ballot \<times> 'v) fmap" where
  "replay_write (SetPromise b) (p, m) = (b, m)"
| "replay_write (AppendAccepted s b v) (p, m) = (p, fmupd s (b, v) m)"

text \<open>What one step may do to an acceptor.\<close>

definition vote_extends :: "'v acceptor \<Rightarrow> 'v acceptor \<Rightarrow> bool" where
  "vote_extends a a' \<longleftrightarrow> acc_promised a \<le> acc_promised a' \<and> acc_watermark a \<le> acc_watermark a' \<and>
     acc_floor a \<le> acc_floor a' \<and>
     (\<forall>s b v. acc_record a s = Some (b, v) \<longrightarrow> acc_floor a' \<le> s \<longrightarrow>
        (\<exists>b' v'. acc_record a' s = Some (b', v') \<and> (b < b' \<or> b = b' \<and> v = v')))"

lemma vote_extends_refl [simp]: "vote_extends a a"
  by (auto simp: vote_extends_def)

lemma vote_extends_trans:
  assumes "vote_extends a a'" "vote_extends a' a''"
  shows "vote_extends a a''"
  unfolding vote_extends_def
proof (intro conjI allI impI)
  fix s b v
  assume "acc_record a s = Some (b, v)" "acc_floor a'' \<le> s"
  moreover from this(2) assms(2) have "acc_floor a' \<le> s" by (simp add: vote_extends_def)
  ultimately obtain b1 v1 where 1: "acc_record a' s = Some (b1, v1)" "b < b1 \<or> b = b1 \<and> v = v1"
    using assms(1) unfolding vote_extends_def by meson
  with assms(2) \<open>acc_floor a'' \<le> s\<close> obtain b2 v2 where
    "acc_record a'' s = Some (b2, v2)" "b1 < b2 \<or> b1 = b2 \<and> v1 = v2"
    unfolding vote_extends_def by meson
  with 1(2) show "\<exists>b' v'. acc_record a'' s = Some (b', v') \<and> (b < b' \<or> b = b' \<and> v = v')"
    by (auto intro: less_trans)
qed (use assms in \<open>auto simp: vote_extends_def\<close>)

lemma record_accepted_precondition:
  assumes "acceptor_record_accepted into a slot b v ws = Some r"
  shows "\<not> slot < acc_floor a" "b \<le> acc_promised a"
    "acc_record a slot = Some (b', v') \<Longrightarrow> b' < b \<or> b' = b \<and> v' = v"
    "fmlookup (rw_map (acc_faulty a)) slot \<noteq> None \<Longrightarrow> acc_faulty_repaired a < u64_max"
  using assms
  by (auto simp: acceptor_record_accepted_def rw_below_floor_def rw_get_def rw_remove_def
      bind_Some_iff Let_def split: if_splits)

lemma recorded_durable:
  "durable (acceptor_recorded a s b v) = replay_write (AppendAccepted s b v) (durable a)"
  by (simp add: durable_def acceptor_recorded_def)

lemma recorded_extends:
  assumes "acceptor_ok a" "\<And>b' v'. acc_record a slot = Some (b', v') \<Longrightarrow> b' < b \<or> b' = b \<and> v' = v"
  shows "vote_extends a (acceptor_recorded a slot b v)"
  using assms(2) acc_watermark_recorded[OF assms(1)]
  by (auto simp: vote_extends_def acceptor_recorded_def)

lemma acc_watermark_updates [simp]:
  "acc_watermark (a\<lparr>acc_promised := b\<rparr>) = acc_watermark a"
  "acc_watermark (a\<lparr>acc_faulty_repaired := n\<rparr>) = acc_watermark a"
  by (simp_all add: acc_watermark_def)

lemma promise_extends: "acc_promised a \<le> b \<Longrightarrow> vote_extends a (a\<lparr>acc_promised := b\<rparr>)"
  by (auto simp: vote_extends_def)

lemma acceptor_step_preserves:
  assumes "acceptor_step a ws a'" "acceptor_ok a" "acc_faulty_repaired a < u64_max"
  shows "acceptor_ok a' \<and> vote_extends a a' \<and> fold replay_write ws (durable a) = durable a'"
  using assms
proof (cases rule: acceptor_step.cases)
  case (prepare b "from" out)
  then show ?thesis
    using assms(2)
    by (auto simp: acceptor_prepare_total durable_def not_less intro: acceptor_ok_promise promise_extends
        split: if_splits)
next
  case (accept b slot a1 ws1 v repaired)
  have b: "acc_promised a \<le> b"
    and a1: "a1 = a\<lparr>acc_promised := b\<rparr>"
    and ws1: "fold replay_write ws1 (durable a) = durable a1"
    using accept(2) by (auto simp: acceptor_set_promise_total durable_def split: if_splits)
  have ok1: "acceptor_ok a1" using assms(2) b a1 by (simp add: acceptor_ok_promise)
  have fl: "acc_floor a1 \<le> slot" using record_accepted_precondition(1)[OF accept(3)] by simp
  have held: "b' < b \<or> b' = b \<and> v' = v" if "acc_record a1 slot = Some (b', v')" for b' v'
    using record_accepted_precondition(3)[OF accept(3) that] .
  have count: "acc_faulty_repaired a1 < u64_max" using a1 assms(3) by simp
  have "a' = acceptor_recorded a1 slot b v" "ws = ws1 @ [AppendAccepted slot b v]"
    using acceptor_record_accepted_total[OF ok1 fl _ held, of id ws1] accept(3) a1 count by auto
  then show ?thesis
    using ok1 fl a1 ws1 recorded_extends[OF ok1 held] promise_extends[OF b]
    by (auto simp: recorded_durable intro: acceptor_ok_recorded vote_extends_trans)
next
  case (rewrite slot out)
  have ok': "acceptor_ok (a\<lparr>acc_faulty_repaired := n\<rparr>)" "vote_extends a (a\<lparr>acc_faulty_repaired := n\<rparr>)" for n
    using assms(2) by (simp_all add: acceptor_ok_def vote_extends_def)
  have "fmupd slot r (rw_map (acc_records a)) = rw_map (acc_records a)" if "acc_record a slot = Some r" for r
    using that by (intro fmap_ext) auto
  then show ?thesis
    using rewrite acceptor_rewrite_total[OF assms(2,3), of id slot "[]"] assms(2) ok'
    by (auto simp: durable_def split: option.splits)
qed

lemma acceptor_step_count:
  assumes "acceptor_step a ws a'" "acceptor_ok a" "acc_faulty_repaired a < u64_max"
  shows "acc_faulty_repaired a' \<le> acc_faulty_repaired a + 1"
  using assms
proof (cases rule: acceptor_step.cases)
  case (prepare b "from" out)
  then show ?thesis
    using acceptor_prepare_total[OF assms(2), of id b "from" "[]"] by (auto split: if_splits)
next
  case (accept b slot a1 ws1 v repaired)
  then show ?thesis
    by (auto simp: acceptor_set_promise_total acceptor_record_accepted_def bind_Some_iff Let_def
        rw_remove_def split: if_splits)
next
  case (rewrite slot out)
  then show ?thesis
    using acceptor_rewrite_total[OF assms(2,3), of id slot "[]"] by (auto split: option.splits)
qed

inductive acceptor_run :: "'v acceptor \<Rightarrow> 'v acceptor_write list list \<Rightarrow> 'v acceptor \<Rightarrow> bool" where
  run_nil: "acceptor_run a [] a"
| run_step: "acceptor_step a ws a1 \<Longrightarrow> acceptor_run a1 wss a' \<Longrightarrow> acceptor_run a (ws # wss) a'"

section \<open>Properties\<close>


definition fresh_acceptor :: "nat acceptor" where
  "fresh_acceptor = booted ballot_zero fmempty 0 fmempty"




text \<open>C24: promise pages lose nothing. Reading an acceptor from any slot by following the continuation
  cursor, whatever legal page size, never panics, ends after at most one page per held slot and one
  more, and returns exactly the readable records and the faulty entries at or after that slot.\<close>

theorem promise_pages_are_complete:
  assumes "acceptor_ok a" "0 < limit" "limit \<le> PROMISE_BATCH" "card (held_from a from) < fuel"
  shows "read_suffix fuel a limit from =
    Some (fm_from from (rw_map (acc_records a)), fm_from from (rw_map (acc_faulty a)))"
  using assms by (rule read_suffix_total)

theorem promise_pages_are_complete_witness:
  "read_suffix 3 (booted (Ballot 1 1) (fmap_of_list [(2, (Ballot 1 1, 10)), (4, (Ballot 1 1, 11 :: nat))]) 1 fmempty) 1 1 =
    Some (fm_from 1 (fmap_of_list [(2, (Ballot 1 1, 10)), (4, (Ballot 1 1, 11))]), fm_from 1 fmempty)"
proof -
  let ?m = "fmap_of_list [(2, (Ballot 1 1, 10)), (4, (Ballot 1 1, 11 :: nat))] :: (slot, ballot \<times> nat) fmap"
  let ?a = "booted (Ballot 1 1) ?m 1 fmempty"
  have ok: "acceptor_ok ?a"
    by (rule booted_ok) (auto simp: boot_ok_def split: if_splits)
  have "fmdom' ?m = {2, 4}" by simp
  then have "held_from ?a 1 = {2, 4}" by (auto simp: held_from_def booted_def)
  then have "card (held_from ?a 1) < 3" by simp
  from promise_pages_are_complete[OF ok _ _ this, of 1] show ?thesis
    by (simp add: PROMISE_BATCH_def booted_def)
qed

end
