(* ===== verification/Journal.thy ===== *)
theory Journal
  imports Acceptor_Config Matchmaker_Set
begin

section \<open>The journal state machine\<close>

text \<open>
  \<^verbatim>\<open>paros-core/src/journal\<close>: the commands a slot decides (\<^verbatim>\<open>command.rs\<close>), the identifiers
  (\<^verbatim>\<open>ids.rs\<close>) and the state machine every node folds over the decided slots (\<^verbatim>\<open>state.rs\<close>). The
  lookup of an accepted write, which the replica answers from its log, is the parameter \<open>accepted_at\<close>
  of the operations; \<open>journal_fold\<close> instantiates it with the writes the fold itself accepted.
\<close>

subsection \<open>Identifiers\<close>

type_synonym tenant_id = nat
type_synonym journal_id = nat
type_synonym leader_uuid = nat
type_synonym seq = nat

definition tenant_is_set :: "tenant_id \<Rightarrow> bool" where
  "tenant_is_set t \<longleftrightarrow> t \<noteq> 0"

definition journal_is_set :: "journal_id \<Rightarrow> bool" where
  "journal_is_set j \<longleftrightarrow> j \<noteq> 0"

record journal_identifier =
  ji_tenant :: tenant_id
  ji_journal :: journal_id

definition ji_is_set :: "journal_identifier \<Rightarrow> bool" where
  "ji_is_set i \<longleftrightarrow> tenant_is_set (ji_tenant i) \<and> journal_is_set (ji_journal i)"

definition uuid_is_set :: "leader_uuid \<Rightarrow> bool" where
  "uuid_is_set u \<longleftrightarrow> u \<noteq> 0"

subsection \<open>Commands\<close>

record entry =
  e_leader :: leader_uuid
  e_seq :: seq
  e_records :: "value_bytes list"

definition entry_count :: "entry \<Rightarrow> nat" where
  "entry_count e = length (e_records e)"

datatype control =
    Truncate leader_uuid seq
  | SetLeader leader_uuid "leader_uuid option"
  | Noop

datatype command = Write entry | Control control

fun command_write :: "command \<Rightarrow> entry option" where
  "command_write (Write e) = Some e"
| "command_write (Control _) = None"

text \<open>The little-endian bytes of a 128-bit leader uuid.\<close>

definition to_le_bytes16 :: "nat \<Rightarrow> 8 word list" where
  "to_le_bytes16 n = map (\<lambda>i. word_of_nat (n div 256 ^ i)) [0..<16]"

definition fold_record :: "value_bytes \<Rightarrow> fingerprint \<Rightarrow> fingerprint" where
  "fold_record record hash = fnv1a (fnv1a hash (to_le_bytes (length record))) record"

fun command_fingerprint :: "command \<Rightarrow> fingerprint" where
  "command_fingerprint (Write e) =
     (let hash = fnv1a FNV_OFFSET [0];
          hash = fnv1a hash (to_le_bytes16 (e_leader e));
          hash = fnv1a hash (to_le_bytes (e_seq e));
          hash = fnv1a hash (to_le_bytes (entry_count e))
      in fold fold_record (e_records e) hash)"
| "command_fingerprint (Control (Truncate leader up_to)) =
     (let hash = fnv1a FNV_OFFSET [1];
          hash = fnv1a hash (to_le_bytes16 leader)
      in fnv1a hash (to_le_bytes up_to))"
| "command_fingerprint (Control Noop) = fnv1a FNV_OFFSET [2]"
| "command_fingerprint (Control (SetLeader new old)) =
     (let hash = fnv1a FNV_OFFSET [3];
          hash = fnv1a hash (to_le_bytes16 new)
      in fnv1a hash (to_le_bytes16 (case old of None \<Rightarrow> 0 | Some old \<Rightarrow> old)))"

subsection \<open>The state\<close>

datatype writer_mode = Single | Multi

record journal_state =
  js_leader :: "leader_uuid option"
  js_term :: nat
  js_next_seq :: seq
  js_first_seq :: seq

record journal_view =
  jv_leader :: "leader_uuid option"
  jv_next_seq :: seq
  jv_first_seq :: seq

datatype outcome =
    Accepted seq nat
  | Duplicate seq nat
  | Refused journal_view
  | Truncated journal_view
  | Leader journal_view
  | LeaderRefused journal_view
  | Trimmed journal_view
  | TruncateRefused journal_view
  | WrongMode journal_view
  | OutcomeNoop

definition js_default :: journal_state where
  "js_default = \<lparr>js_leader = None, js_term = 0, js_next_seq = 0, js_first_seq = 0\<rparr>"

definition js_view :: "journal_state \<Rightarrow> journal_view" where
  "js_view s = \<lparr>jv_leader = js_leader s, jv_next_seq = js_next_seq s, jv_first_seq = js_first_seq s\<rparr>"

definition js_is_current :: "journal_state \<Rightarrow> leader_uuid \<Rightarrow> bool option" where
  "js_is_current s leader = do {
     let current = (js_leader s = Some leader);
     check (current \<longrightarrow> js_term s > 0);
     check (current \<longrightarrow> uuid_is_set leader);
     Some current
   }"

definition js_assert_invariants :: "journal_state \<Rightarrow> unit option" where
  "js_assert_invariants s = do {
     check (js_first_seq s \<le> js_next_seq s);
     check ((js_leader s \<noteq> None) = (js_term s > 0));
     check (case js_leader s of None \<Rightarrow> True | Some u \<Rightarrow> uuid_is_set u)
   }"

subsection \<open>The transitions\<close>

definition js_apply_write ::
  "journal_state \<Rightarrow> entry \<Rightarrow> (seq \<Rightarrow> entry option) \<Rightarrow> (outcome \<times> journal_state) option" where
  "js_apply_write s entry accepted_at =
     (if e_seq entry < js_first_seq s then Some (Truncated (js_view s), s)
      else if e_seq entry < js_next_seq s
      then (case accepted_at (e_seq entry) of
              Some original \<Rightarrow>
                if original = entry
                then do {
                  past \<leftarrow> checked_add64 (e_seq entry) (entry_count entry);
                  check (past \<le> js_next_seq s);
                  Some (Duplicate (e_seq entry) (entry_count entry), s)
                }
                else Some (Refused (js_view s), s)
            | None \<Rightarrow> Some (Refused (js_view s), s))
      else do {
        current \<leftarrow> js_is_current s (e_leader entry);
        if \<not> current \<or> e_seq entry \<noteq> js_next_seq s \<or> e_records entry = []
        then Some (Refused (js_view s), s)
        else do {
          check (entry_count entry > 0);
          check (e_seq entry = js_next_seq s);
          let seq = js_next_seq s;
          next \<leftarrow> checked_add64 seq (entry_count entry);
          let s = s\<lparr>js_next_seq := next\<rparr>;
          check (js_next_seq s > seq);
          Some (Accepted seq (entry_count entry), s)
        }
      })"

definition js_apply_append :: "journal_state \<Rightarrow> entry \<Rightarrow> (outcome \<times> journal_state) option" where
  "js_apply_append s entry = do {
     check (\<not> uuid_is_set (e_leader entry));
     if e_records entry = [] then Some (Refused (js_view s), s)
     else do {
       let seq = js_next_seq s;
       next \<leftarrow> checked_add64 seq (entry_count entry);
       let s = s\<lparr>js_next_seq := next\<rparr>;
       check (js_next_seq s > seq);
       Some (Accepted seq (entry_count entry), s)
     }
   }"

definition js_apply_set_leader ::
  "journal_state \<Rightarrow> leader_uuid \<Rightarrow> leader_uuid option \<Rightarrow> (outcome \<times> journal_state) option" where
  "js_apply_set_leader s new old =
     (if old \<noteq> js_leader s \<or> \<not> uuid_is_set new \<or> Some new = js_leader s
      then Some (LeaderRefused (js_view s), s)
      else do {
        check (old = js_leader s);
        check (uuid_is_set new);
        check (Some new \<noteq> js_leader s);
        let before = js_term s;
        term' \<leftarrow> checked_add64 (js_term s) 1;
        let s = s\<lparr>js_term := term', js_leader := Some new\<rparr>;
        check (js_term s > before);
        current \<leftarrow> js_is_current s new;
        check current;
        Some (Leader (js_view s), s)
      })"

definition js_trim :: "journal_state \<Rightarrow> seq \<Rightarrow> (outcome \<times> journal_state) option" where
  "js_trim s up_to = do {
     let before = js_first_seq s;
     let s = s\<lparr>js_first_seq := max (js_first_seq s) (min up_to (js_next_seq s))\<rparr>;
     check (js_first_seq s \<ge> before);
     check (js_first_seq s \<le> js_next_seq s);
     Some (Trimmed (js_view s), s)
   }"

definition js_apply_truncate ::
  "journal_state \<Rightarrow> leader_uuid \<Rightarrow> seq \<Rightarrow> (outcome \<times> journal_state) option" where
  "js_apply_truncate s leader up_to = do {
     current \<leftarrow> js_is_current s leader;
     if \<not> current then Some (TruncateRefused (js_view s), s) else js_trim s up_to
   }"

definition js_judge ::
  "journal_state \<Rightarrow> writer_mode \<Rightarrow> command \<Rightarrow> (seq \<Rightarrow> entry option) \<Rightarrow>
   (outcome \<times> journal_state) option" where
  "js_judge s mode command accepted_at =
     (case (mode, command) of
        (_, Control Noop) \<Rightarrow> Some (OutcomeNoop, s)
      | (Single, Write entry) \<Rightarrow>
          if \<not> uuid_is_set (e_leader entry) then Some (WrongMode (js_view s), s)
          else js_apply_write s entry accepted_at
      | (Single, Control (Truncate leader up_to)) \<Rightarrow>
          if \<not> uuid_is_set leader then Some (WrongMode (js_view s), s)
          else js_apply_truncate s leader up_to
      | (Single, Control (SetLeader new old)) \<Rightarrow> js_apply_set_leader s new old
      | (Multi, Write entry) \<Rightarrow>
          if \<not> uuid_is_set (e_leader entry) then js_apply_append s entry
          else Some (WrongMode (js_view s), s)
      | (Multi, Control (Truncate leader up_to)) \<Rightarrow>
          if \<not> uuid_is_set leader then js_trim s up_to
          else Some (WrongMode (js_view s), s)
      | (Multi, Control (SetLeader _ _)) \<Rightarrow> Some (WrongMode (js_view s), s))"

definition js_assert_mode :: "journal_state \<Rightarrow> writer_mode \<Rightarrow> outcome \<Rightarrow> unit option" where
  "js_assert_mode s mode outcome =
     (if mode = Multi
      then do {
        check (js_leader s = None);
        check (js_term s = 0);
        check (case outcome of
                 Duplicate _ _ \<Rightarrow> False
               | Truncated _ \<Rightarrow> False
               | Leader _ \<Rightarrow> False
               | LeaderRefused _ \<Rightarrow> False
               | TruncateRefused _ \<Rightarrow> False
               | _ \<Rightarrow> True)
      }
      else Some ())"

text \<open>The negative space of \<^verbatim>\<open>apply\<close>: what each outcome may have moved.\<close>

fun js_assert_outcome :: "journal_state \<Rightarrow> journal_state \<Rightarrow> outcome \<Rightarrow> unit option" where
  "js_assert_outcome before s (Accepted seq count) = do {
     check (seq = js_next_seq before);
     check (count > 0);
     past \<leftarrow> checked_add64 seq count;
     check (js_next_seq s = past);
     check (js_term s = js_term before);
     check (js_first_seq s = js_first_seq before)
   }"
| "js_assert_outcome before s (Leader after) = do {
     check (after = js_view s);
     raised \<leftarrow> checked_add64 (js_term before) 1;
     check (js_term s = raised);
     check (js_leader s \<noteq> js_leader before);
     check (js_next_seq s = js_next_seq before)
   }"
| "js_assert_outcome before s (Trimmed after) = do {
     check (after = js_view s);
     check (js_next_seq s = js_next_seq before);
     check (js_term s = js_term before)
   }"
| "js_assert_outcome before s _ = check (s = before)"

fun refusal_view :: "outcome \<Rightarrow> journal_view option" where
  "refusal_view (Refused v) = Some v"
| "refusal_view (Truncated v) = Some v"
| "refusal_view (LeaderRefused v) = Some v"
| "refusal_view (TruncateRefused v) = Some v"
| "refusal_view (WrongMode v) = Some v"
| "refusal_view _ = None"

definition js_apply ::
  "journal_state \<Rightarrow> writer_mode \<Rightarrow> command \<Rightarrow> (seq \<Rightarrow> entry option) \<Rightarrow>
   (outcome \<times> journal_state) option" where
  "js_apply s mode command accepted_at = do {
     js_assert_invariants s;
     check (mode = Multi \<longrightarrow> js_leader s = None);
     let before = s;
     (outcome, s) \<leftarrow> js_judge s mode command accepted_at;
     js_assert_mode s mode outcome;
     check (js_term s \<ge> js_term before);
     check (js_next_seq s \<ge> js_next_seq before);
     check (js_first_seq s \<ge> js_first_seq before);
     check (js_leader s \<noteq> js_leader before \<longrightarrow> js_term s > js_term before);
     js_assert_outcome before s outcome;
     check (case refusal_view outcome of None \<Rightarrow> True | Some judged \<Rightarrow> judged = js_view before);
     js_assert_invariants s;
     Some (outcome, s)
   }"

section \<open>The invariant\<close>

definition js_ok :: "writer_mode \<Rightarrow> journal_state \<Rightarrow> bool" where
  "js_ok mode s \<longleftrightarrow> js_first_seq s \<le> js_next_seq s \<and> (js_leader s \<noteq> None) = (js_term s > 0) \<and>
     js_leader s \<noteq> Some 0 \<and> (mode = Multi \<longrightarrow> js_leader s = None)"

text \<open>Room left in the 64-bit counters for one more command.\<close>

definition js_room :: "journal_state \<Rightarrow> command \<Rightarrow> bool" where
  "js_room s c \<longleftrightarrow> js_term s < u64_max \<and>
     (case c of Write e \<Rightarrow> js_next_seq s + entry_count e \<le> u64_max | Control _ \<Rightarrow> True)"

text \<open>What the log promises of its lookup: a write accepted at a position lies below the next one.\<close>

definition lookup_ok :: "journal_state \<Rightarrow> (seq \<Rightarrow> entry option) \<Rightarrow> bool" where
  "lookup_ok s accepted_at \<longleftrightarrow>
     (\<forall>q e. accepted_at q = Some e \<longrightarrow> q + entry_count e \<le> js_next_seq s)"

lemma js_default_ok [simp]: "js_ok mode js_default"
  by (simp add: js_ok_def js_default_def)

lemma js_assert_total [total_simps]: "js_ok mode s \<Longrightarrow> js_assert_invariants s = Some ()"
  by (auto simp: js_ok_def js_assert_invariants_def uuid_is_set_def split: option.split)

lemma js_is_current_total [total_simps]:
  "js_ok mode s \<Longrightarrow> js_is_current s u = Some (js_leader s = Some u)"
  by (auto simp: js_ok_def js_is_current_def uuid_is_set_def)

lemma entry_count_pos [simp]: "0 < entry_count e \<longleftrightarrow> e_records e \<noteq> []"
  by (simp add: entry_count_def)

lemma js_apply_write_total [total_simps]:
  assumes "js_ok mode s" "lookup_ok s look" "js_next_seq s \<le> u64_max"
    "js_next_seq s + entry_count e \<le> u64_max"
  shows "js_apply_write s e look = Some
    (if e_seq e < js_first_seq s then (Truncated (js_view s), s)
     else if e_seq e < js_next_seq s
     then (if look (e_seq e) = Some e then (Duplicate (e_seq e) (entry_count e), s)
           else (Refused (js_view s), s))
     else if js_leader s = Some (e_leader e) \<and> e_seq e = js_next_seq s \<and> e_records e \<noteq> []
     then (Accepted (js_next_seq s) (entry_count e), s\<lparr>js_next_seq := js_next_seq s + entry_count e\<rparr>)
     else (Refused (js_view s), s))"
proof -
  have dup: "e_seq e + entry_count e \<le> js_next_seq s" if "look (e_seq e) = Some e"
    using assms(2) that by (auto simp: lookup_ok_def)
  then show ?thesis
    using assms(1,3,4)
    by (auto simp: js_apply_write_def js_is_current_total checked_add64_def Let_def split: option.split)
qed

lemma js_apply_append_total [total_simps]:
  assumes "\<not> uuid_is_set (e_leader e)" "js_next_seq s + entry_count e \<le> u64_max"
  shows "js_apply_append s e = Some
    (if e_records e = [] then (Refused (js_view s), s)
     else (Accepted (js_next_seq s) (entry_count e), s\<lparr>js_next_seq := js_next_seq s + entry_count e\<rparr>))"
  using assms by (simp add: js_apply_append_def checked_add64_def Let_def)

lemma js_apply_set_leader_total [total_simps]:
  assumes "js_term s < u64_max"
  shows "js_apply_set_leader s new old = Some
    (if old = js_leader s \<and> uuid_is_set new \<and> js_leader s \<noteq> Some new
     then (let s' = s\<lparr>js_term := js_term s + 1, js_leader := Some new\<rparr> in (Leader (js_view s'), s'))
     else (LeaderRefused (js_view s), s))"
  using assms by (auto simp: js_apply_set_leader_def js_is_current_def checked_add64_def Let_def)

lemma js_trim_total [total_simps]:
  assumes "js_ok mode s"
  shows "js_trim s up_to = Some
    (let s' = s\<lparr>js_first_seq := max (js_first_seq s) (min up_to (js_next_seq s))\<rparr>
     in (Trimmed (js_view s'), s'))"
  using assms by (simp add: js_trim_def js_ok_def Let_def)

lemma js_apply_truncate_total [total_simps]:
  assumes "js_ok mode s"
  shows "js_apply_truncate s leader up_to =
    (if js_leader s = Some leader then js_trim s up_to else Some (TruncateRefused (js_view s), s))"
  using assms by (simp add: js_apply_truncate_def js_is_current_total)

text \<open>What one applied command may do: the outcome it answers and the only scalars it moves.\<close>

fun moves :: "writer_mode \<Rightarrow> journal_state \<Rightarrow> command \<Rightarrow> (seq \<Rightarrow> entry option) \<Rightarrow> outcome \<Rightarrow> journal_state \<Rightarrow> bool" where
  "moves mode s c look (Accepted q n) s' \<longleftrightarrow> (\<exists>e. c = Write e \<and> q = js_next_seq s \<and> n = entry_count e \<and>
     e_records e \<noteq> [] \<and> s' = s\<lparr>js_next_seq := q + n\<rparr> \<and>
     (mode = Single \<longrightarrow> js_leader s = Some (e_leader e) \<and> e_seq e = q) \<and>
     (mode = Multi \<longrightarrow> e_leader e = 0))"
| "moves mode s c look (Duplicate q n) s' \<longleftrightarrow> (\<exists>e. c = Write e \<and> q = e_seq e \<and> n = entry_count e \<and>
     look q = Some e \<and> js_first_seq s \<le> q \<and> q + n \<le> js_next_seq s) \<and> mode = Single \<and> s' = s"
| "moves mode s c look (Leader v) s' \<longleftrightarrow> (\<exists>new. c = Control (SetLeader new (js_leader s)) \<and> new \<noteq> 0 \<and>
     js_leader s \<noteq> Some new \<and> s' = s\<lparr>js_term := js_term s + 1, js_leader := Some new\<rparr>) \<and>
     mode = Single \<and> v = js_view s'"
| "moves mode s c look (Trimmed v) s' \<longleftrightarrow> (\<exists>u up_to. c = Control (Truncate u up_to) \<and>
     (if mode = Single then js_leader s = Some u else u = 0) \<and>
     s' = s\<lparr>js_first_seq := max (js_first_seq s) (min up_to (js_next_seq s))\<rparr>) \<and> v = js_view s'"
| "moves mode s c look OutcomeNoop s' \<longleftrightarrow> c = Control Noop \<and> s' = s"
| "moves mode s c look (Truncated v) s' \<longleftrightarrow> (\<exists>e. c = Write e \<and> e_seq e < js_first_seq s) \<and>
     mode = Single \<and> v = js_view s \<and> s' = s"
| "moves mode s c look (Refused v) s' \<longleftrightarrow> (\<exists>e. c = Write e \<and>
     (if mode = Multi then e_records e = []
      else js_first_seq s \<le> e_seq e \<and>
        (if e_seq e < js_next_seq s then look (e_seq e) \<noteq> Some e
         else js_leader s \<noteq> Some (e_leader e) \<or> e_seq e \<noteq> js_next_seq s \<or> e_records e = []))) \<and>
     v = js_view s \<and> s' = s"
| "moves mode s c look (LeaderRefused v) s' \<longleftrightarrow> (\<exists>new old. c = Control (SetLeader new old) \<and>
     (old \<noteq> js_leader s \<or> new = 0 \<or> js_leader s = Some new)) \<and> mode = Single \<and> v = js_view s \<and> s' = s"
| "moves mode s c look (TruncateRefused v) s' \<longleftrightarrow> (\<exists>u up_to. c = Control (Truncate u up_to) \<and>
     js_leader s \<noteq> Some u) \<and> mode = Single \<and> v = js_view s \<and> s' = s"
| "moves mode s c look (WrongMode v) s' \<longleftrightarrow>
     (case c of
        Write e \<Rightarrow> (mode = Single) = (e_leader e = 0)
      | Control (Truncate u _) \<Rightarrow> (mode = Single) = (u = 0)
      | Control (SetLeader _ _) \<Rightarrow> mode = Multi
      | Control Noop \<Rightarrow> False) \<and> v = js_view s \<and> s' = s"

lemma js_judge_moves:
  assumes ok: "js_ok mode s" and look: "lookup_ok s look" and room: "js_room s c"
  shows "\<exists>out s'. js_judge s mode c look = Some (out, s') \<and> moves mode s c look out s'"
proof (cases c)
  case (Write e)
  have le: "js_next_seq s + entry_count e \<le> u64_max" "js_next_seq s \<le> u64_max"
    using room Write by (auto simp: js_room_def)
  have dup: "e_seq e + entry_count e \<le> js_next_seq s" if "look (e_seq e) = Some e"
    using look that by (auto simp: lookup_ok_def)
  show ?thesis
  proof (cases mode)
    case Single
    then show ?thesis
      using Write js_apply_write_total[OF ok look le(2,1)] dup
      by (auto simp: js_judge_def uuid_is_set_def)
  next
    case Multi
    then show ?thesis
      using Write js_apply_append_total[OF _ le(1)] by (auto simp: js_judge_def uuid_is_set_def)
  qed
next
  case (Control k)
  have t: "js_term s < u64_max" using room by (simp add: js_room_def)
  show ?thesis
  proof (cases k)
    case (Truncate u up_to)
    then show ?thesis
      using Control ok js_trim_total[OF ok, of up_to] js_apply_truncate_total[OF ok, of u up_to]
      by (cases mode) (auto simp: js_judge_def uuid_is_set_def Let_def)
  next
    case (SetLeader new old)
    then show ?thesis
      using Control js_apply_set_leader_total[OF t, of new old]
      by (cases mode) (auto simp: js_judge_def uuid_is_set_def Let_def)
  next
    case Noop
    then show ?thesis using Control by (cases mode) (simp_all add: js_judge_def)
  qed
qed

lemma moves_ok:
  assumes "moves mode s c look out s'" "js_ok mode s"
  shows "js_ok mode s'"
  using assms by (cases out) (auto simp: js_ok_def)

lemma js_apply_total:
  assumes ok: "js_ok mode s" and look: "lookup_ok s look" and room: "js_room s c"
  shows "\<exists>out s'. js_apply s mode c look = Some (out, s') \<and> moves mode s c look out s' \<and> js_ok mode s'"
proof -
  obtain out s' where judge: "js_judge s mode c look = Some (out, s')"
    and m: "moves mode s c look out s'"
    using js_judge_moves[OF assms] by blast
  have ok': "js_ok mode s'" using m ok by (rule moves_ok)
  have multi: "mode = Multi \<Longrightarrow> js_leader s = None" using ok by (simp add: js_ok_def)
  have "js_assert_mode s' mode out = Some ()"
    using m ok' by (cases out) (auto simp: js_assert_mode_def js_ok_def)
  moreover have "js_assert_outcome s s' out = Some ()"
    using m room by (cases out) (auto simp: js_room_def checked_add64_def)
  moreover have "js_term s \<le> js_term s'" "js_next_seq s \<le> js_next_seq s'"
    "js_first_seq s \<le> js_first_seq s'" "js_leader s' \<noteq> js_leader s \<longrightarrow> js_term s < js_term s'"
    using m by (cases out; auto)+
  moreover have "case refusal_view out of None \<Rightarrow> True | Some judged \<Rightarrow> judged = js_view s"
    using m by (cases out) auto
  ultimately have "js_apply s mode c look = Some (out, s')"
    using ok ok' multi judge by (simp add: js_apply_def js_assert_total)
  with m ok' show ?thesis by blast
qed

subsection \<open>The fold over a decided log\<close>

text \<open>The state together with the writes accepted so far, by the position of their first record: what
  the lookup is answered from.\<close>

type_synonym fold_state = "journal_state \<times> (seq, entry) fmap"

definition journal_step :: "writer_mode \<Rightarrow> fold_state \<Rightarrow> command \<Rightarrow> (outcome \<times> fold_state) option" where
  "journal_step mode st c = do {
     (out, s) \<leftarrow> js_apply (fst st) mode c (fmlookup (snd st));
     Some (out, s, case (out, c) of (Accepted q _, Write e) \<Rightarrow> fmupd q e (snd st) | _ \<Rightarrow> snd st)
   }"

fun journal_fold :: "writer_mode \<Rightarrow> fold_state \<Rightarrow> command list \<Rightarrow> (outcome list \<times> fold_state) option" where
  "journal_fold mode st [] = Some ([], st)"
| "journal_fold mode st (c # cs) = do {
     (out, st) \<leftarrow> journal_step mode st c;
     (outs, st) \<leftarrow> journal_fold mode st cs;
     Some (out # outs, st)
   }"

definition covers :: "(seq, entry) fmap \<Rightarrow> seq \<Rightarrow> seq \<Rightarrow> bool" where
  "covers log q p \<longleftrightarrow> (\<exists>e. fmlookup log q = Some e \<and> q \<le> p \<and> p < q + entry_count e)"

definition fold_ok :: "writer_mode \<Rightarrow> fold_state \<Rightarrow> bool" where
  "fold_ok mode st \<longleftrightarrow> js_ok mode (fst st) \<and> lookup_ok (fst st) (fmlookup (snd st)) \<and>
     (\<forall>p < js_next_seq (fst st). \<exists>!q. covers (snd st) q p) \<and>
     (\<forall>q e. fmlookup (snd st) q = Some e \<longrightarrow> e_records e \<noteq> [] \<and>
        (mode = Single \<longrightarrow> e_seq e = q \<and> e_leader e \<noteq> 0))"

definition command_count :: "command \<Rightarrow> nat" where
  "command_count c = (case c of Write e \<Rightarrow> entry_count e | Control _ \<Rightarrow> 0)"

lemma fold_ok_default: "fold_ok mode (js_default, fmempty)"
  by (simp add: fold_ok_def lookup_ok_def js_default_def js_ok_def)

lemma covers_append:
  assumes "lookup_ok s (fmlookup log)" "js_next_seq s = n"
  shows "covers (fmupd n e log) q p \<longleftrightarrow>
    (if q = n then n \<le> p \<and> p < n + entry_count e else covers log q p)"
  by (auto simp: covers_def)

lemma covers_below: "lookup_ok s (fmlookup log) \<Longrightarrow> covers log q p \<Longrightarrow> p < js_next_seq s"
  by (fastforce simp: covers_def lookup_ok_def)

lemma fold_ok_accept:
  assumes ok: "fold_ok mode (s, log)" and m: "moves mode s (Write e) (fmlookup log) (Accepted q n) s'"
  shows "fold_ok mode (s', fmupd q e log)"
proof -
  have s': "s' = s\<lparr>js_next_seq := q + n\<rparr>" and q: "q = js_next_seq s" and n: "n = entry_count e"
    using m by auto
  have look: "lookup_ok s (fmlookup log)" and js: "js_ok mode s" using ok by (simp_all add: fold_ok_def)
  have "\<exists>!r. covers (fmupd q e log) r p" if "p < q + n" for p
  proof (cases "p < q")
    case True
    then have "\<exists>!r. covers log r p" using ok q by (simp add: fold_ok_def)
    moreover have "covers (fmupd q e log) r p \<longleftrightarrow> covers log r p" for r
      using True by (auto simp: covers_def)
    ultimately show ?thesis by simp
  next
    case False
    then have none: "\<not> covers log r p" for r using covers_below[OF look, of r p] q by auto
    show ?thesis
      using False that n none covers_append[OF look q[symmetric], of e _ p] by (intro ex1I[of _ q]) (auto split: if_splits)
  qed
  moreover have "js_ok mode s'" using moves_ok[OF m js] .
  moreover have "lookup_ok s' (fmlookup (fmupd q e log))"
    using look s' q n by (fastforce simp: lookup_ok_def)
  moreover have "e_leader e \<noteq> 0 \<and> e_seq e = q" if "mode = Single"
    using m that js by (auto simp: js_ok_def)
  moreover have "e_records e \<noteq> []" using m by auto
  ultimately show ?thesis using ok s' by (auto simp: fold_ok_def)
qed

lemma fold_ok_step:
  assumes ok: "fold_ok mode (s, log)" and m: "moves mode s c (fmlookup log) out s'"
    and no: "\<And>q n. out \<noteq> Accepted q n"
  shows "fold_ok mode (s', log)"
proof -
  have "js_next_seq s' = js_next_seq s" using m no by (cases out) auto
  moreover have "js_ok mode s'" using m ok by (auto simp: fold_ok_def intro: moves_ok)
  ultimately show ?thesis using ok by (auto simp: fold_ok_def lookup_ok_def)
qed

lemma journal_step_total:
  assumes ok: "fold_ok mode st" and room: "js_room (fst st) c"
  shows "\<exists>out s' log'. journal_step mode st c = Some (out, s', log') \<and> fold_ok mode (s', log') \<and>
    moves mode (fst st) c (fmlookup (snd st)) out s' \<and>
    js_next_seq s' \<le> js_next_seq (fst st) + command_count c \<and> js_term s' \<le> js_term (fst st) + 1"
proof -
  obtain s log where st: "st = (s, log)" by fastforce
  obtain out s' where app: "js_apply s mode c (fmlookup log) = Some (out, s')"
    and m: "moves mode s c (fmlookup log) out s'"
    using js_apply_total[of mode s "fmlookup log" c] ok room st by (auto simp: fold_ok_def)
  have bounds: "js_next_seq s' \<le> js_next_seq s + command_count c" "js_term s' \<le> js_term s + 1"
    using m by (cases out; auto simp: command_count_def)+
  show ?thesis
  proof (cases "\<exists>q n e. out = Accepted q n \<and> c = Write e")
    case True
    then obtain q n e where o: "out = Accepted q n" "c = Write e" by blast
    then have "fold_ok mode (s', fmupd q e log)" using fold_ok_accept ok m st by blast
    then show ?thesis using app m bounds o st by (auto simp: journal_step_def)
  next
    case False
    then have no: "out \<noteq> Accepted q n" for q n using m by auto
    then have "fold_ok mode (s', log)" using fold_ok_step ok m st by blast
    moreover have "journal_step mode st c = Some (out, s', log)"
      using app no st by (cases out) (auto simp: journal_step_def)
    ultimately show ?thesis using m bounds st by auto
  qed
qed

lemma journal_fold_total:
  assumes "fold_ok mode st"
    "js_next_seq (fst st) + sum_list (map command_count cs) \<le> u64_max"
    "js_term (fst st) + length cs \<le> u64_max"
  shows "\<exists>outs st'. journal_fold mode st cs = Some (outs, st') \<and> fold_ok mode st' \<and>
    length outs = length cs"
  using assms
proof (induction cs arbitrary: st)
  case (Cons c cs)
  have room: "js_room (fst st) c"
    using Cons.prems by (auto simp: js_room_def command_count_def split: command.split)
  obtain out s' log' where step: "journal_step mode st c = Some (out, s', log')"
    "fold_ok mode (s', log')" "js_next_seq s' \<le> js_next_seq (fst st) + command_count c"
    "js_term s' \<le> js_term (fst st) + 1"
    using journal_step_total[OF Cons.prems(1) room] by blast
  with Cons.prems Cons.IH[of "(s', log')"] show ?case by fastforce
qed simp

text \<open>A retry of an accepted write is acknowledged with the position it was accepted at, as long as
  the position was not truncated.\<close>

lemma js_apply_duplicate:
  assumes ok: "fold_ok Single (s, log)" and e: "fmlookup log q = Some e" "js_first_seq s \<le> q"
    and room: "js_next_seq s \<le> u64_max"
  shows "js_apply s Single (Write e) (fmlookup log) = Some (Duplicate q (entry_count e), s)"
proof -
  have js: "js_ok Single s" and eq: "e_seq e = q" "e_leader e \<noteq> 0" "e_records e \<noteq> []"
    and le: "q + entry_count e \<le> js_next_seq s"
    using ok e(1) by (auto simp: fold_ok_def lookup_ok_def)
  have lt: "q < js_next_seq s" using le eq(3) entry_count_pos[of e] by linarith
  have "js_apply_write s e (fmlookup log) = Some (Duplicate q (entry_count e), s)"
    using e eq le lt room by (simp add: js_apply_write_def checked_add64_def)
  then have "js_judge s Single (Write e) (fmlookup log) = Some (Duplicate q (entry_count e), s)"
    using eq by (simp add: js_judge_def uuid_is_set_def)
  then show ?thesis
    using js by (simp add: js_apply_def js_assert_mode_def js_assert_total)
qed

section \<open>Properties\<close>


definition led_journal :: journal_state where
  "led_journal = \<lparr>js_leader = Some 5, js_term = 1, js_next_seq = 2, js_first_seq = 0\<rparr>"


text \<open>C27: positions are dense. Folding any decided log from the empty journal never panics while its
  records and its length fit the 64-bit counters, and afterwards every position below the next one
  belongs to exactly one accepted batch, no batch reaches past it, and the invariant holds: a reader
  never sees a hole or a position twice.\<close>

theorem journal_positions_are_dense:
  assumes "sum_list (map command_count cs) \<le> u64_max" "length cs \<le> u64_max"
  shows "\<exists>outs s log. journal_fold mode (js_default, fmempty) cs = Some (outs, s, log) \<and>
    js_ok mode s \<and> (\<forall>p. (p < js_next_seq s) = (\<exists>q. covers log q p)) \<and>
    (\<forall>p q q'. covers log q p \<longrightarrow> covers log q' p \<longrightarrow> q = q')"
proof -
  obtain outs s log where f: "journal_fold mode (js_default, fmempty) cs = Some (outs, s, log)"
    and ok: "fold_ok mode (s, log)"
    using journal_fold_total[OF fold_ok_default, of cs mode] assms by (auto simp: js_default_def)
  then have look: "lookup_ok s (fmlookup log)" "js_ok mode s"
    and un: "\<forall>p < js_next_seq s. \<exists>!q. covers log q p" by (auto simp: fold_ok_def)
  moreover have "\<exists>q. covers log q p" if "p < js_next_seq s" for p using un that by blast
  moreover have "q = q'" if "covers log q p" "covers log q' p" for p q q'
    using un that covers_below[OF look(1) that(1)] by blast
  ultimately show ?thesis using f covers_below[OF look(1)] by blast
qed

theorem journal_positions_are_dense_witness:
  "\<exists>outs s log. journal_fold Multi (js_default, fmempty)
      [Write \<lparr>e_leader = 0, e_seq = 0, e_records = [[], []]\<rparr>, Control Noop,
       Write \<lparr>e_leader = 0, e_seq = 0, e_records = [[]]\<rparr>] = Some (outs, s, log) \<and> js_ok Multi s"
  using journal_positions_are_dense[of "[Write \<lparr>e_leader = 0, e_seq = 0, e_records = [[], []]\<rparr>,
      Control Noop, Write \<lparr>e_leader = 0, e_seq = 0, e_records = [[]]\<rparr>]" Multi]
  by (auto simp: command_count_def entry_count_def u64_max_def)

text \<open>C28: retries are idempotent. Whatever single-writer log was folded, re-applying a write that was
  accepted at a position not yet truncated answers \<open>Duplicate\<close> with that position and its record
  count, and moves nothing, even after the leader changed.\<close>

theorem journal_retry_is_duplicate:
  assumes "journal_fold Single (js_default, fmempty) cs = Some (outs, s, log)"
    and "sum_list (map command_count cs) \<le> u64_max" "length cs \<le> u64_max"
    and "fmlookup log q = Some e" "js_first_seq s \<le> q" "js_next_seq s \<le> u64_max"
  shows "js_apply s Single (Write e) (fmlookup log) = Some (Duplicate q (entry_count e), s)"
proof -
  have "fold_ok Single (s, log)"
    using journal_fold_total[OF fold_ok_default, of cs Single] assms(1-3) by (auto simp: js_default_def)
  then show ?thesis using assms(4-6) by (rule js_apply_duplicate)
qed

theorem journal_retry_is_duplicate_witness:
  "\<exists>s log. journal_fold Single (js_default, fmempty)
      [Control (SetLeader 5 None), Write \<lparr>e_leader = 5, e_seq = 0, e_records = [[]]\<rparr>] =
        Some ([Leader (js_view (led_journal\<lparr>js_next_seq := 0\<rparr>)), Accepted 0 1], s, log) \<and>
    js_apply s Single (Write \<lparr>e_leader = 5, e_seq = 0, e_records = [[]]\<rparr>) (fmlookup log) =
      Some (Duplicate 0 1, s)"
proof -
  let ?e = "\<lparr>e_leader = 5, e_seq = 0, e_records = [[]]\<rparr> :: entry"
  let ?cs = "[Control (SetLeader 5 None), Write ?e]"
  let ?s = "\<lparr>js_leader = Some 5, js_term = 1, js_next_seq = 1, js_first_seq = 0\<rparr>"
  have f: "journal_fold Single (js_default, fmempty) ?cs =
      Some ([Leader (js_view (led_journal\<lparr>js_next_seq := 0\<rparr>)), Accepted 0 1], ?s, fmupd 0 ?e fmempty)"
    by (simp add: journal_step_def js_apply_def js_judge_def js_apply_set_leader_def js_apply_write_def
        js_assert_invariants_def js_assert_mode_def js_is_current_def js_view_def js_default_def
        led_journal_def uuid_is_set_def entry_count_def checked_add64_def u64_max_def)
  show ?thesis
    using f journal_retry_is_duplicate[OF f, of 0 ?e]
    by (simp add: command_count_def entry_count_def u64_max_def)
qed

end
