(* ===== verification/Retention.thy ===== *)
theory Retention
  imports Acceptor Journal
begin

section \<open>Durable writes and log retention\<close>

text \<open>
  The write batch of a node (\<^verbatim>\<open>paros-core/src/contract/write.rs\<close>) and the two operations that move the
  acceptor's compaction floor (\<^verbatim>\<open>paros-core/src/acceptor/retention.rs\<close>).
\<close>

datatype write_op =
    AcceptorOp "command acceptor_write"
  | Learned slot ballot command
  | SetChosenIndex slot
  | TruncateOp slot journal_state
  | TrimmedTo slot journal_state

datatype must_sync = Sync | Relaxed

fun needs_sync :: "write_op \<Rightarrow> bool" where
  "needs_sync (AcceptorOp _) = True"
| "needs_sync (Learned _ _ _) = True"
| "needs_sync (TruncateOp _ _) = True"
| "needs_sync (TrimmedTo _ _) = True"
| "needs_sync (SetChosenIndex _) = False"

fun is_acceptor_op :: "write_op \<Rightarrow> bool" where
  "is_acceptor_op (AcceptorOp _) = True"
| "is_acceptor_op _ = False"

definition must_sync_for_batch :: "write_op list \<Rightarrow> must_sync option" where
  "must_sync_for_batch writes = do {
     let sync = (if list_ex needs_sync writes then Sync else Relaxed);
     check (list_ex is_acceptor_op writes \<longrightarrow> sync = Sync);
     Some sync
   }"

definition acceptor_drop_prefix :: "'v acceptor \<Rightarrow> slot \<Rightarrow> 'v acceptor option" where
  "acceptor_drop_prefix a first = do {
     first_slot \<leftarrow> acceptor_first_slot a;
     check (first \<ge> first_slot);
     watermark_before \<leftarrow> acceptor_vote_watermark a;
     records \<leftarrow> rw_raise_floor (acc_records a) first;
     faulty \<leftarrow> rw_raise_floor (acc_faulty a) first;
     let a = a\<lparr>acc_records := records, acc_faulty := faulty\<rparr>;
     acceptor_assert_invariants a;
     first_key \<leftarrow> rw_first_key (acc_records a);
     check (case first_key of None \<Rightarrow> True | Some s \<Rightarrow> s \<ge> first);
     watermark \<leftarrow> acceptor_vote_watermark a;
     check (watermark \<ge> watermark_before);
     Some a
   }"

definition acceptor_truncate ::
  "'v acceptor \<Rightarrow> slot \<Rightarrow> journal_state \<Rightarrow> write_op list \<Rightarrow> ('v acceptor \<times> write_op list) option" where
  "acceptor_truncate a first sealed writes = do {
     promised \<leftarrow> acceptor_promised a;
     a \<leftarrow> acceptor_drop_prefix a first;
     let writes = writes @ [TruncateOp first sealed];
     first_slot \<leftarrow> acceptor_first_slot a;
     check (first_slot = first);
     now \<leftarrow> acceptor_promised a;
     check (now = promised);
     Some (a, writes)
   }"

definition acceptor_trim_to ::
  "'v acceptor \<Rightarrow> slot \<Rightarrow> journal_state \<Rightarrow> write_op list \<Rightarrow> ('v acceptor \<times> write_op list) option" where
  "acceptor_trim_to a point state writes = do {
     promised \<leftarrow> acceptor_promised a;
     a \<leftarrow> acceptor_drop_prefix a point;
     let writes = writes @ [TrimmedTo point state];
     first_slot \<leftarrow> acceptor_first_slot a;
     check (first_slot = point);
     now \<leftarrow> acceptor_promised a;
     check (now = promised);
     Some (a, writes)
   }"

section \<open>What retention keeps\<close>

definition acceptor_dropped :: "'v acceptor \<Rightarrow> slot \<Rightarrow> 'v acceptor" where
  "acceptor_dropped a first = a\<lparr>
     acc_records := (acc_records a)\<lparr>rw_map := fm_from first (rw_map (acc_records a)), rw_base := first\<rparr>,
     acc_faulty := (acc_faulty a)\<lparr>rw_map := fm_from first (rw_map (acc_faulty a)), rw_base := first\<rparr>\<rparr>"

lemma acceptor_ok_dropped [inv_intros]: "acceptor_ok a \<Longrightarrow> acceptor_ok (acceptor_dropped a first)"
  by (auto simp: acceptor_ok_def acceptor_dropped_def)

lemma max3_mono:
  fixes r :: "'x::linorder"
  assumes "r \<le> max r' t'" "f \<le> max f' t'" "t \<le> t'"
  shows "max r (max f t) \<le> max r' (max f' t')"
  using assms by (auto simp: le_max_iff_disj)

lemma watermark_dropped:
  assumes "acceptor_ok a" "acc_floor a \<le> first"
  shows "acc_watermark a \<le> acc_watermark (acceptor_dropped a first)"
proof -
  let ?t = "if first = 0 then None else Some (first - 1)"
  have step: "x \<le> max y ?t" if "x \<le> y \<or> x < Some first" for x y
    using that by (cases x; cases y) (auto simp: max_def)
  have keep: "fm_last m \<le> fm_last (fm_from first m) \<or> fm_last m < Some first" for m :: "(slot, 'z) fmap"
    by (cases "fm_last m") (auto simp: fm_last_from)
  have "fm_last (rw_map (acc_records a)) \<le> max (fm_last (fm_from first (rw_map (acc_records a)))) ?t"
    "fm_last (rw_map (acc_faulty a)) \<le> max (fm_last (fm_from first (rw_map (acc_faulty a)))) ?t"
    by (rule step, rule keep)+
  moreover have "(if acc_floor a = 0 then None else Some (acc_floor a - 1)) \<le> ?t"
    using assms(2) by auto
  moreover have "acc_watermark (acceptor_dropped a first) =
      max (fm_last (fm_from first (rw_map (acc_records a))))
        (max (fm_last (fm_from first (rw_map (acc_faulty a)))) ?t)"
    by (simp add: acc_watermark_def acceptor_dropped_def)
  ultimately show ?thesis
    unfolding acc_watermark_def[of a] by (simp only: max3_mono)
qed

lemma acceptor_drop_prefix_total [total_simps]:
  assumes ok: "acceptor_ok a"
  shows "acceptor_drop_prefix a first =
    (if acc_floor a \<le> first then Some (acceptor_dropped a first) else None)"
proof (cases "acc_floor a \<le> first")
  case True
  note ok' = acceptor_okD[OF ok]
  have okd: "acceptor_ok (acceptor_dropped a first)" using ok by (rule acceptor_ok_dropped)
  have d: "a\<lparr>acc_records := (acc_records a)\<lparr>rw_map := fm_from first (rw_map (acc_records a)), rw_base := first\<rparr>,
     acc_faulty := (acc_faulty a)\<lparr>rw_map := fm_from first (rw_map (acc_faulty a)), rw_base := first\<rparr>\<rparr> =
     acceptor_dropped a first" by (simp add: acceptor_dropped_def)
  have first: "case fm_first (fm_from first (rw_map (acc_records a))) of None \<Rightarrow> True | Some s \<Rightarrow> first \<le> s"
    unfolding fm_first_is_none_or by simp
  show ?thesis
    using True ok ok'(3) okd first watermark_dropped[OF ok True] acceptor_okD(1)[OF okd]
    by (simp add: acceptor_drop_prefix_def acceptor_first_slot_total acceptor_vote_watermark_total
        rw_raise_floor_total acceptor_assert_total rw_read_total d)
qed (simp add: acceptor_drop_prefix_def acceptor_first_slot_total[OF ok])

lemma dropped_fields [simp]:
  "acc_promised (acceptor_dropped a first) = acc_promised a"
  "acc_floor (acceptor_dropped a first) = first"
  "acc_record (acceptor_dropped a first) s = (if first \<le> s then acc_record a s else None)"
  by (simp_all add: acceptor_dropped_def)

lemma dropped_extends:
  "acceptor_ok a \<Longrightarrow> acc_floor a \<le> first \<Longrightarrow> vote_extends a (acceptor_dropped a first)"
  using watermark_dropped by (auto simp: vote_extends_def)

section \<open>Properties\<close>

lemma acceptor_retention_total [total_simps]:
  assumes "acceptor_ok a"
  shows "acceptor_truncate a first sealed ws = (if acc_floor a \<le> first
      then Some (acceptor_dropped a first, ws @ [TruncateOp first sealed]) else None)"
    and "acceptor_trim_to a first sealed ws = (if acc_floor a \<le> first
      then Some (acceptor_dropped a first, ws @ [TrimmedTo first sealed]) else None)"
  using assms acceptor_ok_dropped[OF assms, of first]
  by (simp_all add: acceptor_truncate_def acceptor_trim_to_def acceptor_drop_prefix_total
      acceptor_reads_total acceptor_first_slot_total)

text \<open>C25: a truncation and a trim-point jump panic exactly when they would lower the floor. Otherwise
  they keep the acceptor's invariant, move neither the promise nor any vote at or above the new floor,
  never lower the vote watermark (the floor stands in for the dropped votes), leave nothing below the
  floor, and emit exactly the write that makes the move durable, which is always flushed.\<close>

theorem retention_keeps_the_vote:
  assumes "acceptor_ok a"
  shows "(acceptor_truncate a first sealed ws = None \<longleftrightarrow> first < acc_floor a) \<and>
    (acceptor_trim_to a first sealed ws = None \<longleftrightarrow> first < acc_floor a) \<and>
    (\<forall>a' ws'. acceptor_truncate a first sealed ws = Some (a', ws') \<or>
        acceptor_trim_to a first sealed ws = Some (a', ws') \<longrightarrow>
      acceptor_ok a' \<and> vote_extends a a' \<and> acc_promised a' = acc_promised a \<and> acc_floor a' = first \<and>
      (\<forall>s < first. acc_record a' s = None) \<and> must_sync_for_batch ws' = Some Sync)"
proof -
  have okd: "acceptor_ok (acceptor_dropped a first)" using assms by (rule acceptor_ok_dropped)
  have "must_sync_for_batch (ws @ [TruncateOp first sealed]) = Some Sync"
    "must_sync_for_batch (ws @ [TrimmedTo first sealed]) = Some Sync"
    by (simp_all add: must_sync_for_batch_def)
  with acceptor_retention_total[OF assms] okd assms show ?thesis by (auto intro: dropped_extends)
qed

theorem retention_keeps_the_vote_witness:
  "\<exists>a' ws'. acceptor_truncate fresh_acceptor 3 js_default [] = Some (a', ws') \<and> acceptor_ok a' \<and>
     acc_floor a' = 3 \<and> must_sync_for_batch ws' = Some Sync"
proof -
  have ok: "acceptor_ok fresh_acceptor"
    unfolding fresh_acceptor_def by (rule booted_ok) (simp add: boot_ok_def)
  note r = retention_keeps_the_vote[OF ok, of 3 js_default "[]"]
  have "acc_floor fresh_acceptor = 0" by (simp add: fresh_acceptor_def booted_def)
  with r have "acceptor_truncate fresh_acceptor 3 js_default [] \<noteq> None" by simp
  then obtain a' ws' where "acceptor_truncate fresh_acceptor 3 js_default [] = Some (a', ws')" by auto
  with r show ?thesis by blast
qed

end
