(* ===== verification/Voting.thy ===== *)
theory Voting
  imports Ballots
begin

section \<open>The abstract voting machine\<close>

text \<open>
  What the consensus protocol promises, apart from every message, page, tally and log: acceptors raise a
  promise and vote at or above it, for proposals only, and a proposal is made only where no other value can
  still gather a quorum at a lower ballot. Agreement is proved here, once, for any family of Phase-2 quorums
  that names a member; the consensus theory shows that the components of the code refine this machine.
\<close>

type_synonym 'id quorums = "ballot \<Rightarrow> 'id set \<Rightarrow> bool"

record ('id, 'v) voting =
  vo_promised :: "'id \<Rightarrow> ballot"
  vo_votes :: "('id \<times> slot \<times> ballot \<times> 'v) set"
  vo_proposed :: "(ballot \<times> slot \<times> 'v) set"

text \<open>A value is chosen at a ballot once a quorum of that ballot voted for it; it can still be chosen while
  every member of some quorum has voted for it or may yet vote.\<close>

definition chosen_at :: "'id quorums \<Rightarrow> ('id, 'v) voting \<Rightarrow> ballot \<Rightarrow> slot \<Rightarrow> 'v \<Rightarrow> bool" where
  "chosen_at Q2 V b s v \<longleftrightarrow> (\<exists>Q. Q2 b Q \<and> (\<forall>a \<in> Q. (a, s, b, v) \<in> vo_votes V))"

definition choosable :: "'id quorums \<Rightarrow> ('id, 'v) voting \<Rightarrow> ballot \<Rightarrow> slot \<Rightarrow> 'v \<Rightarrow> bool" where
  "choosable Q2 V b s v \<longleftrightarrow> (\<exists>Q. Q2 b Q \<and> (\<forall>a \<in> Q. (a, s, b, v) \<in> vo_votes V \<or> vo_promised V a \<le> b))"

inductive voting_step :: "'id quorums \<Rightarrow> ('id, 'v) voting \<Rightarrow> ('id, 'v) voting \<Rightarrow> bool" for Q2 where
  raise: "vo_promised V a \<le> b \<Longrightarrow> voting_step Q2 V (V\<lparr>vo_promised := (vo_promised V)(a := b)\<rparr>)"
| cast: "vo_promised V a \<le> b \<Longrightarrow> (b, s, v) \<in> vo_proposed V \<Longrightarrow>
    voting_step Q2 V (V\<lparr>vo_promised := (vo_promised V)(a := b), vo_votes := insert (a, s, b, v) (vo_votes V)\<rparr>)"
| propose: "(\<forall>w. (b, s, w) \<in> vo_proposed V \<longrightarrow> w = v) \<Longrightarrow>
    (\<forall>b' w. b' < b \<longrightarrow> choosable Q2 V b' s w \<longrightarrow> w = v) \<Longrightarrow>
    voting_step Q2 V (V\<lparr>vo_proposed := insert (b, s, v) (vo_proposed V)\<rparr>)"

definition voting_start :: "('id, 'v) voting \<Rightarrow> bool" where
  "voting_start V \<longleftrightarrow> vo_votes V = {} \<and> vo_proposed V = {}"

definition voting_ok :: "'id quorums \<Rightarrow> ('id, 'v) voting \<Rightarrow> bool" where
  "voting_ok Q2 V \<longleftrightarrow>
     (\<forall>a s b v. (a, s, b, v) \<in> vo_votes V \<longrightarrow> (b, s, v) \<in> vo_proposed V \<and> b \<le> vo_promised V a) \<and>
     (\<forall>b s v w. (b, s, v) \<in> vo_proposed V \<longrightarrow> (b, s, w) \<in> vo_proposed V \<longrightarrow> v = w) \<and>
     (\<forall>b s v b' w. (b, s, v) \<in> vo_proposed V \<longrightarrow> b' < b \<longrightarrow> choosable Q2 V b' s w \<longrightarrow> w = v)"

lemma voting_okD:
  assumes "voting_ok Q2 V"
  shows "(a, s, b, v) \<in> vo_votes V \<Longrightarrow> (b, s, v) \<in> vo_proposed V"
    and "(a, s, b, v) \<in> vo_votes V \<Longrightarrow> b \<le> vo_promised V a"
    and "(b, s, v) \<in> vo_proposed V \<Longrightarrow> (b, s, w) \<in> vo_proposed V \<Longrightarrow> v = w"
    and "(b, s, v) \<in> vo_proposed V \<Longrightarrow> b' < b \<Longrightarrow> choosable Q2 V b' s w \<Longrightarrow> w = v"
  using assms unfolding voting_ok_def by blast+

text \<open>How the machine moves: promises rise, votes and proposals accumulate, and a new vote is never cast
  below the promise its acceptor had made.\<close>

definition voting_grows :: "('id, 'v) voting \<Rightarrow> ('id, 'v) voting \<Rightarrow> bool" where
  "voting_grows V V' \<longleftrightarrow> (\<forall>a. vo_promised V a \<le> vo_promised V' a) \<and> vo_votes V \<subseteq> vo_votes V' \<and>
     vo_proposed V \<subseteq> vo_proposed V' \<and>
     (\<forall>a s b v. (a, s, b, v) \<in> vo_votes V' \<longrightarrow> (a, s, b, v) \<in> vo_votes V \<or> vo_promised V a \<le> b)"

lemma voting_growsD:
  assumes "voting_grows V V'"
  shows "vo_promised V a \<le> vo_promised V' a"
    and "(a, s, b, v) \<in> vo_votes V \<Longrightarrow> (a, s, b, v) \<in> vo_votes V'"
    and "(b, s, v) \<in> vo_proposed V \<Longrightarrow> (b, s, v) \<in> vo_proposed V'"
    and "(a, s, b, v) \<in> vo_votes V' \<Longrightarrow> b < vo_promised V a \<Longrightarrow> (a, s, b, v) \<in> vo_votes V"
  using assms unfolding voting_grows_def by (blast, blast, blast, meson leD)

lemma voting_grows_refl [simp]: "voting_grows V V"
  by (simp add: voting_grows_def)

lemma voting_step_grows: "voting_step Q2 V V' \<Longrightarrow> voting_grows V V'"
  by (induction rule: voting_step.induct) (auto simp: voting_grows_def)

lemma voting_grows_trans:
  assumes "voting_grows U V" "voting_grows V W"
  shows "voting_grows U W"
  using assms unfolding voting_grows_def by (meson order_trans subset_iff)

lemma chosen_at_grows: "chosen_at Q2 V b s v \<Longrightarrow> voting_grows V V' \<Longrightarrow> chosen_at Q2 V' b s v"
  unfolding chosen_at_def using voting_growsD(2) by meson

lemma choosable_grows:
  assumes "choosable Q2 V' b s v" "voting_grows V V'"
  shows "choosable Q2 V b s v"
proof -
  obtain Q where Q: "Q2 b Q" "\<forall>a \<in> Q. (a, s, b, v) \<in> vo_votes V' \<or> vo_promised V' a \<le> b"
    using assms(1) by (auto simp: choosable_def)
  have "(a, s, b, v) \<in> vo_votes V \<or> vo_promised V a \<le> b" if "a \<in> Q" for a
    using Q(2) that voting_growsD(1,4)[OF assms(2)] by (meson leI order_trans)
  then show ?thesis using Q(1) unfolding choosable_def by blast
qed

lemma chosen_choosable: "chosen_at Q2 V b s v \<Longrightarrow> choosable Q2 V b s v"
  by (auto simp: chosen_at_def choosable_def)

lemma voting_step_ok:
  assumes "voting_step Q2 V V'" "voting_ok Q2 V"
  shows "voting_ok Q2 V'"
proof -
  note ok = voting_okD[OF assms(2)]
  note old = choosable_grows[OF _ voting_step_grows[OF assms(1)]]
  have votes: "(b, s, v) \<in> vo_proposed V' \<and> b \<le> vo_promised V' a" if "(a, s, b, v) \<in> vo_votes V'" for a s b v
    using assms(1) that
    by (cases rule: voting_step.cases) (auto dest: ok(1,2) intro: order_trans)
  have uniq: "v = w" if "(b, s, v) \<in> vo_proposed V'" "(b, s, w) \<in> vo_proposed V'" for b s v w
    using assms(1) that by (cases rule: voting_step.cases) (auto dest: ok(3))
  have safe: "w = v" if "(b, s, v) \<in> vo_proposed V'" "b' < b" "choosable Q2 V' b' s w" for b s v b' w
    using assms(1) that(1,2) old[OF that(3)] by (cases rule: voting_step.cases) (auto dest: ok(4))
  show ?thesis unfolding voting_ok_def using votes uniq safe by blast
qed

lemma voting_run_ok:
  assumes "(voting_step Q2)\<^sup>*\<^sup>* V V'" "voting_ok Q2 V"
  shows "voting_ok Q2 V'" "voting_grows V V'"
  using assms
  by (induction rule: rtranclp_induct) (auto intro: voting_step_ok voting_grows_trans voting_step_grows)

text \<open>The interface: all the protocol asks of its Phase-2 quorums is that each has a member.\<close>

locale voting_system =
  fixes Q2 :: "'id quorums"
  assumes member: "Q2 b Q \<Longrightarrow> Q \<noteq> {}"
begin

lemma chosen_proposed:
  assumes "voting_ok Q2 V" "chosen_at Q2 V b s v"
  shows "(b, s, v) \<in> vo_proposed V"
proof -
  obtain Q where Q: "Q2 b Q" "\<forall>a \<in> Q. (a, s, b, v) \<in> vo_votes V" using assms(2) by (auto simp: chosen_at_def)
  then obtain a where "a \<in> Q" using member by fastforce
  then show ?thesis using Q(2) voting_okD(1)[OF assms(1)] by blast
qed

lemma chosen_rules_above:
  assumes "voting_ok Q2 V" "chosen_at Q2 V b s v" "(b', s, w) \<in> vo_proposed V" "b \<le> b'"
  shows "w = v"
  using assms chosen_proposed[OF assms(1,2)] voting_okD(3,4)[OF assms(1)] chosen_choosable[OF assms(2)]
  by (metis order_le_imp_less_or_eq)

lemma agreement:
  assumes "voting_ok Q2 V" "chosen_at Q2 V b s v" "chosen_at Q2 V b' s w"
  shows "v = w"
  using assms chosen_rules_above chosen_proposed linear by metis

end

end
