(* ===== verification/Promise_Tally.thy ===== *)
theory Promise_Tally
  imports Acceptor Acceptor_Config
begin

section \<open>The Phase-1 tally\<close>

text \<open>
  The free functions and the paging tally of \<^verbatim>\<open>paros-core/src/proposer.rs\<close>, shared by the election
  and by the leader's repair probe: which promise page counts, how a page closes, the highest-ballot
  merge of the reports (the P2c selection rule), and the predicate that decides a slot some acceptor
  reported faulty.

  The facts the rest of the proposer rests on: a tally keeps its paging invariant and no assertion of
  a page that \<open>pt_accepts\<close> admits fires; merging pages takes the highest ballot per slot whatever the
  order, and panics exactly when two reports of one ballot disagree; and a decidable faulty slot hides
  no chosen value.
\<close>

subsection \<open>Model\<close>

record 'id promise_tally =
  pt_ballot :: ballot
  pt_from_slot :: slot
  pt_answered :: "'id set"
  pt_promise_next :: "('id, slot) fmap"

datatype promise_fold = Ignored | Continue slot | Answered

definition pt_assert_invariants :: "'id::linorder promise_tally \<Rightarrow> unit option" where
  "pt_assert_invariants t = do {
     check (list_all (\<lambda>id. id \<notin> pt_answered t) (fm_keys (pt_promise_next t)));
     check (list_all (\<lambda>(_, next). next > pt_from_slot t) (fm_entries (pt_promise_next t)));
     Some ()
   }"

definition pt_new :: "ballot \<Rightarrow> slot \<Rightarrow> 'id::linorder set \<Rightarrow> 'id promise_tally option" where
  "pt_new ballot from_slot answered = do {
     let tally = \<lparr>pt_ballot = ballot, pt_from_slot = from_slot, pt_answered = answered,
                  pt_promise_next = fmempty\<rparr>;
     pt_assert_invariants tally;
     Some tally
   }"

definition promise_page_shape_valid ::
  "slot \<Rightarrow> (slot, ballot \<times> 'v) fmap \<Rightarrow> (slot, ballot) fmap \<Rightarrow> slot \<Rightarrow> slot option \<Rightarrow> bool" where
  "promise_page_shape_valid expected accepted faulty from_slot next_from_slot \<longleftrightarrow>
     (let len = fm_len accepted + fm_len faulty in
      from_slot = expected \<and> len \<le> PROMISE_BATCH \<and>
      list_all (\<lambda>slot. from_slot \<le> slot) (fm_keys accepted) \<and>
      list_all (\<lambda>slot. from_slot \<le> slot \<and> fmlookup accepted slot = None) (fm_keys faulty) \<and>
      (case next_from_slot of None \<Rightarrow> True
       | Some next \<Rightarrow> len > 0 \<and> next > from_slot \<and>
           (case fm_last accepted of None \<Rightarrow> True | Some k \<Rightarrow> next > k) \<and>
           (case fm_last faulty of None \<Rightarrow> True | Some k \<Rightarrow> next > k)))"

text \<open>The cursor a sender owes next.\<close>

definition pt_expected :: "'id promise_tally \<Rightarrow> 'id \<Rightarrow> slot" where
  "pt_expected t from = (case fmlookup (pt_promise_next t) from of None \<Rightarrow> pt_from_slot t | Some next \<Rightarrow> next)"

definition pt_accepts ::
  "'id promise_tally \<Rightarrow> 'id \<Rightarrow> ballot \<Rightarrow> slot \<Rightarrow> (slot, ballot \<times> 'v) fmap \<Rightarrow> (slot, ballot) fmap \<Rightarrow>
   slot option \<Rightarrow> bool option" where
  "pt_accepts t from ballot from_slot accepted faulty next_from_slot =
     (if pt_ballot t \<noteq> ballot \<or> from \<in> pt_answered t then Some False
      else do {
        let expected = pt_expected t from;
        check (expected \<ge> pt_from_slot t);
        Some (promise_page_shape_valid expected accepted faulty from_slot next_from_slot)
      })"

definition pt_close_page ::
  "'id::linorder promise_tally \<Rightarrow> 'id \<Rightarrow> slot option \<Rightarrow> (promise_fold \<times> 'id promise_tally) option" where
  "pt_close_page t from next_from_slot = do {
     check (from \<notin> pt_answered t);
     let previous = pt_expected t from;
     (fold, t) \<leftarrow> (case next_from_slot of
        Some next \<Rightarrow> do {
          check (next > previous);
          Some (Continue next, t\<lparr>pt_promise_next := fmupd from next (pt_promise_next t)\<rparr>)
        }
      | None \<Rightarrow> Some (Answered, t\<lparr>pt_promise_next := fmdrop from (pt_promise_next t),
                                 pt_answered := insert from (pt_answered t)\<rparr>));
     pt_assert_invariants t;
     Some (fold, t)
   }"

text \<open>The P2c merge of one report, and of a whole page in slot order.\<close>

definition merge_report ::
  "(slot, ballot \<times> 'v) fmap \<Rightarrow> slot \<Rightarrow> ballot \<Rightarrow> 'v \<Rightarrow> (slot, ballot \<times> 'v) fmap option" where
  "merge_report tally slot ballot command =
     (let replace = do {
        let tally = fmupd slot (ballot, command) tally;
        check (case fmlookup tally slot of None \<Rightarrow> False | Some (held, _) \<Rightarrow> held = ballot);
        Some tally
      } in
      case fmlookup tally slot of
        Some (held, recorded) \<Rightarrow>
          if ballot < held then Some tally
          else if ballot = held then do { check (recorded = command); Some tally }
          else replace
      | None \<Rightarrow> replace)"

fun merge_reports ::
  "(slot, ballot \<times> 'v) fmap \<Rightarrow> (slot \<times> ballot \<times> 'v) list \<Rightarrow> (slot, ballot \<times> 'v) fmap option" where
  "merge_reports tally [] = Some tally"
| "merge_reports tally ((slot, (ballot, command)) # rest) = do {
     tally \<leftarrow> merge_report tally slot ballot command;
     merge_reports tally rest
   }"

text \<open>\<^verbatim>\<open>entry(slot).or_default().insert(from, ballot)\<close> for every faulty entry of a page.\<close>

fun add_faulty ::
  "'id \<Rightarrow> (slot, ('id, ballot) fmap) fmap \<Rightarrow> (slot \<times> ballot) list \<Rightarrow> (slot, ('id, ballot) fmap) fmap" where
  "add_faulty from reports [] = reports"
| "add_faulty from reports ((slot, fb) # rest) =
     add_faulty from (fmupd slot (fmupd from fb (case fmlookup reports slot of None \<Rightarrow> fmempty | Some r \<Rightarrow> r))
       reports) rest"

definition qualifying_answers ::
  "'id::linorder set \<Rightarrow> ('id, ballot) fmap option \<Rightarrow> ballot option \<Rightarrow> 'id set option" where
  "qualifying_answers answered reporters threshold = do {
     let qualifying = {node \<in> answered.
           case reporters of None \<Rightarrow> True
           | Some reporters \<Rightarrow> (case fmlookup reporters node of None \<Rightarrow> True
                               | Some ballot \<Rightarrow> Some ballot \<le> threshold)};
     (case reporters of None \<Rightarrow> Some ()
      | Some reporters \<Rightarrow>
          check (list_all (\<lambda>(node, ballot). Some ballot > threshold \<longrightarrow> node \<notin> qualifying)
                   (fm_entries reporters)));
     Some qualifying
   }"

definition member_union :: "'id::linorder acceptor_config list \<Rightarrow> 'id list option" where
  "member_union configs = do {
     lists \<leftarrow> try_map ac_members' configs;
     let members = remdups_adj (sort (concat lists));
     check (sorted_wrt (<) members);
     Some members
   }"

definition slot_decidable ::
  "'id::linorder acceptor_config list \<Rightarrow> 'id set \<Rightarrow> ('id, ballot) fmap option \<Rightarrow> ballot option \<Rightarrow>
   bool option" where
  "slot_decidable prior answered reporters threshold = do {
     qualifying \<leftarrow> qualifying_answers answered reporters threshold;
     try_all (\<lambda>config. ac_has_phase1_quorum config qualifying) prior
   }"

subsection \<open>Paging\<close>

definition tally_ok :: "'id::linorder promise_tally \<Rightarrow> bool" where
  "tally_ok t \<longleftrightarrow> finite (pt_answered t) \<and>
     (\<forall>id next. fmlookup (pt_promise_next t) id = Some next \<longrightarrow>
        id \<notin> pt_answered t \<and> pt_from_slot t < next)"

lemma pt_assert_total [total_simps]: "tally_ok t \<Longrightarrow> pt_assert_invariants t = Some ()"
  by (auto simp: pt_assert_invariants_def tally_ok_def list_all_iff fmdom'_iff)

lemma pt_new_total [total_simps]:
  "pt_new b from A = Some \<lparr>pt_ballot = b, pt_from_slot = from, pt_answered = A, pt_promise_next = fmempty\<rparr>"
  by (simp add: pt_new_def pt_assert_invariants_def fm_keys_def fm_entries_def)

lemma pt_expected_ge: "tally_ok t \<Longrightarrow> pt_from_slot t \<le> pt_expected t from"
  by (auto simp: tally_ok_def pt_expected_def split: option.splits dest: less_imp_le)

text \<open>A page the tally admits.\<close>

definition page_admitted ::
  "'id promise_tally \<Rightarrow> 'id \<Rightarrow> ballot \<Rightarrow> slot \<Rightarrow> (slot, ballot \<times> 'v) fmap \<Rightarrow> (slot, ballot) fmap \<Rightarrow>
   slot option \<Rightarrow> bool" where
  "page_admitted t from b from_slot accepted faulty next \<longleftrightarrow> pt_ballot t = b \<and> from \<notin> pt_answered t \<and>
     promise_page_shape_valid (pt_expected t from) accepted faulty from_slot next"

lemma pt_accepts_total [total_simps]:
  "tally_ok t \<Longrightarrow> pt_accepts t from b from_slot accepted faulty next =
     Some (page_admitted t from b from_slot accepted faulty next)"
  by (auto simp: pt_accepts_def page_admitted_def pt_expected_ge)

lemma page_shapeD:
  assumes "promise_page_shape_valid expected accepted faulty from_slot next"
  shows "from_slot = expected" "\<And>s r. fmlookup accepted s = Some r \<Longrightarrow> from_slot \<le> s"
    "\<And>s r. fmlookup faulty s = Some r \<Longrightarrow> from_slot \<le> s \<and> fmlookup accepted s = None"
    "\<And>k. next = Some k \<Longrightarrow> from_slot < k"
  using assms by (auto simp: promise_page_shape_valid_def Let_def list_all_iff fmdom'_iff)

text \<open>The tally after a page.\<close>

definition page_closed :: "'id promise_tally \<Rightarrow> 'id \<Rightarrow> slot option \<Rightarrow> 'id promise_tally" where
  "page_closed t from next = (case next of
     Some k \<Rightarrow> t\<lparr>pt_promise_next := fmupd from k (pt_promise_next t)\<rparr>
   | None \<Rightarrow> t\<lparr>pt_promise_next := fmdrop from (pt_promise_next t), pt_answered := insert from (pt_answered t)\<rparr>)"

lemma page_closed_ok [inv_intros]:
  assumes "tally_ok t" "from \<notin> pt_answered t" "\<And>k. next = Some k \<Longrightarrow> pt_expected t from < k"
  shows "tally_ok (page_closed t from next)"
proof (cases "next")
  case (Some k)
  then show ?thesis
    using assms(1,2) le_less_trans[OF pt_expected_ge[OF assms(1)] assms(3)[OF Some]]
    by (auto simp: page_closed_def tally_ok_def)
next
  case None
  then show ?thesis using assms(1) by (auto simp: page_closed_def tally_ok_def)
qed

lemma page_closed_simps [simp]:
  "pt_ballot (page_closed t from next) = pt_ballot t"
  "pt_from_slot (page_closed t from next) = pt_from_slot t"
  "pt_answered (page_closed t from next) =
     (if next = None then insert from (pt_answered t) else pt_answered t)"
  by (simp_all add: page_closed_def split: option.splits)

lemma pt_close_page_total [total_simps]:
  assumes "tally_ok t" "from \<notin> pt_answered t" "\<And>k. next = Some k \<Longrightarrow> pt_expected t from < k"
  shows "pt_close_page t from next =
    Some (case next of None \<Rightarrow> Answered | Some k \<Rightarrow> Continue k, page_closed t from next)"
proof -
  have "tally_ok (page_closed t from next)" using assms by (rule page_closed_ok)
  then have "pt_assert_invariants (page_closed t from next) = Some ()" by (rule pt_assert_total)
  then show ?thesis
    using assms(2,3) by (cases "next") (simp_all add: pt_close_page_def page_closed_def)
qed

lemma page_admitted_advances:
  "page_admitted t from b from_slot accepted faulty next \<Longrightarrow> next = Some k \<Longrightarrow> pt_expected t from < k"
  using page_shapeD(1,4) by (fastforce simp: page_admitted_def)

subsection \<open>The highest-ballot merge\<close>

fun best_vote :: "(ballot \<times> 'v) option \<Rightarrow> (ballot \<times> 'v) option \<Rightarrow> (ballot \<times> 'v) option" where
  "best_vote None y = y"
| "best_vote x None = x"
| "best_vote (Some (b, v)) (Some (c, w)) = (if c \<le> b then Some (b, v) else Some (c, w))"

definition votes_agree :: "(ballot \<times> 'v) option \<Rightarrow> (ballot \<times> 'v) option \<Rightarrow> bool" where
  "votes_agree x y \<longleftrightarrow> (\<forall>b v w. x = Some (b, v) \<longrightarrow> y = Some (b, w) \<longrightarrow> v = w)"

lemma best_vote_None [simp]: "best_vote x None = x"
  by (cases x) auto

lemma best_vote_Some_iff: "best_vote x y = None \<longleftrightarrow> x = None \<and> y = None"
  by (cases x; cases y) (auto split: if_splits)

lemma merge_report_total [total_simps]:
  "merge_report tally slot b v =
    (if votes_agree (fmlookup tally slot) (Some (b, v))
     then Some (case best_vote (fmlookup tally slot) (Some (b, v)) of None \<Rightarrow> tally | Some r \<Rightarrow> fmupd slot r tally)
     else None)"
proof (cases "fmlookup tally slot")
  case None
  then show ?thesis by (simp add: merge_report_def votes_agree_def)
next
  case (Some r)
  have same: "fmupd slot r tally = tally" using Some by (intro fmap_ext) auto
  obtain held recorded where r: "r = (held, recorded)" by force
  consider "b < held" | "b = held" | "held < b" by (rule linorder_cases)
  then show ?thesis
    by cases (use Some same in \<open>auto simp: merge_report_def votes_agree_def r\<close>)
qed

lemma merge_report_lookup:
  assumes "merge_report tally slot b v = Some tally'"
  shows "fmlookup tally' s =
    (if s = slot then best_vote (fmlookup tally slot) (Some (b, v)) else fmlookup tally s)"
  using assms
  by (auto simp: merge_report_total best_vote_Some_iff split: if_splits option.splits)

lemma merge_reports_total:
  assumes "distinct (map fst rs)" "\<And>s. votes_agree (fmlookup tally s) (map_of rs s)"
  shows "\<exists>tally'. merge_reports tally rs = Some tally' \<and>
    (\<forall>s. fmlookup tally' s = best_vote (fmlookup tally s) (map_of rs s))"
  using assms
proof (induction rs arbitrary: tally)
  case (Cons r rs)
  obtain slot b v where r: "r = (slot, (b, v))" using prod_cases3 by blast
  have "votes_agree (fmlookup tally slot) (Some (b, v))" using Cons.prems(2)[of slot] by (simp add: r)
  then obtain t1 where t1: "merge_report tally slot b v = Some t1" by (simp add: merge_report_total)
  note look = merge_report_lookup[OF t1]
  have none: "map_of rs slot = None" using Cons.prems(1) by (simp add: r map_of_eq_None_iff)
  have "votes_agree (fmlookup t1 s) (map_of rs s)" for s
    using Cons.prems(2)[of s] none by (auto simp: look r votes_agree_def)
  from Cons.IH[OF _ this] Cons.prems(1) obtain t2 where t2: "merge_reports t1 rs = Some t2"
    "\<And>s. fmlookup t2 s = best_vote (fmlookup t1 s) (map_of rs s)" by auto
  show ?case using t1 t2 none by (auto simp: r look)
qed simp

lemma merge_reports_conflict:
  assumes "distinct (map fst rs)" "merge_reports tally rs = Some tally'"
  shows "votes_agree (fmlookup tally s) (map_of rs s)"
  using assms
proof (induction rs arbitrary: tally)
  case (Cons r rs)
  obtain slot b v where r: "r = (slot, (b, v))" using prod_cases3 by blast
  from Cons.prems(2) obtain t1 where t1: "merge_report tally slot b v = Some t1" "merge_reports t1 rs = Some tally'"
    by (auto simp: r bind_Some_iff)
  have "votes_agree (fmlookup tally slot) (Some (b, v))"
    using t1(1) by (simp add: merge_report_total split: if_splits)
  then show ?case
    using Cons.IH[of t1] Cons.prems(1) t1(2) merge_report_lookup[OF t1(1), of s] by (auto simp: r)
qed (simp add: votes_agree_def)

lemma merge_page:
  assumes "\<And>s. votes_agree (fmlookup tally s) (fmlookup page s)"
  obtains tally' where "merge_reports tally (fm_entries page) = Some tally'"
    "\<And>s. fmlookup tally' s = best_vote (fmlookup tally s) (fmlookup page s)"
  using merge_reports_total[of "fm_entries page" tally] assms by (auto simp: map_of_fm_entries)

lemma merge_page_iff:
  "(\<exists>tally'. merge_reports tally (fm_entries page) = Some tally') \<longleftrightarrow>
   (\<forall>s. votes_agree (fmlookup tally s) (fmlookup page s))"
proof
  assume "\<exists>tally'. merge_reports tally (fm_entries page) = Some tally'"
  then show "\<forall>s. votes_agree (fmlookup tally s) (fmlookup page s)"
    using merge_reports_conflict[of "fm_entries page" tally] by (auto simp: map_of_fm_entries)
next
  assume "\<forall>s. votes_agree (fmlookup tally s) (fmlookup page s)"
  then show "\<exists>tally'. merge_reports tally (fm_entries page) = Some tally'"
    using merge_reports_total[of "fm_entries page" tally] by (auto simp: map_of_fm_entries)
qed

text \<open>Merging is the maximum by ballot: nothing reported lies above the winner, and the winner was
  reported.\<close>

lemma best_vote_upper:
  "x = Some (b, v) \<Longrightarrow> \<exists>c w. best_vote x y = Some (c, w) \<and> b \<le> c"
  "y = Some (b, v) \<Longrightarrow> \<exists>c w. best_vote x y = Some (c, w) \<and> b \<le> c"
  by (cases x; cases y; auto)+

lemma best_vote_in: "best_vote x y = x \<or> best_vote x y = y"
  by (cases x; cases y) auto

lemma best_vote_commute: "votes_agree x y \<Longrightarrow> best_vote x y = best_vote y x"
  by (cases x; cases y) (auto simp: votes_agree_def)

lemma best_vote_assoc: "best_vote (best_vote x y) z = best_vote x (best_vote y z)"
  by (cases x; cases y; cases z) auto

subsection \<open>Faulty reports\<close>

lemma add_faulty_lookup:
  assumes "distinct (map fst fs)"
  shows "fmlookup (add_faulty from reports fs) s = (case map_of fs s of
     None \<Rightarrow> fmlookup reports s
   | Some fb \<Rightarrow> Some (fmupd from fb (case fmlookup reports s of None \<Rightarrow> fmempty | Some r \<Rightarrow> r)))"
  using assms
proof (induction fs arbitrary: reports)
  case (Cons f fs)
  obtain slot fb where f: "f = (slot, fb)" by force
  have "map_of fs slot = None" using Cons.prems by (simp add: f map_of_eq_None_iff)
  then show ?case using Cons by (cases "s = slot") (auto simp: f split: option.split)
qed simp

text \<open>The set \<open>qualifying_answers\<close> returns: the answered acceptors with no faulty report above the
  threshold.\<close>

definition qualifies :: "('id, ballot) fmap option \<Rightarrow> ballot option \<Rightarrow> 'id \<Rightarrow> bool" where
  "qualifies reporters threshold node \<longleftrightarrow>
     (\<forall>r fb. reporters = Some r \<longrightarrow> fmlookup r node = Some fb \<longrightarrow> Some fb \<le> threshold)"

lemma qualifying_answers_total [total_simps]:
  "qualifying_answers answered reporters threshold = Some {node \<in> answered. qualifies reporters threshold node}"
proof -
  have "(case reporters of None \<Rightarrow> True
           | Some reporters \<Rightarrow> (case fmlookup reporters node of None \<Rightarrow> True
                               | Some ballot \<Rightarrow> Some ballot \<le> threshold)) = qualifies reporters threshold node" for node
    by (auto simp: qualifies_def split: option.splits)
  then have q: "qualifying_answers answered reporters threshold =
      do { (case reporters of None \<Rightarrow> Some ()
            | Some r \<Rightarrow> check (list_all (\<lambda>(node, ballot). Some ballot > threshold \<longrightarrow>
                node \<notin> {node \<in> answered. qualifies reporters threshold node}) (fm_entries r)));
           Some {node \<in> answered. qualifies reporters threshold node} }"
    by (simp add: qualifying_answers_def Let_def)
  show ?thesis
  proof (cases reporters)
    case (Some r)
    have "list_all (\<lambda>(node, ballot). Some ballot > threshold \<longrightarrow>
        node \<notin> {node \<in> answered. qualifies (Some r) threshold node}) (fm_entries r)"
      by (auto simp: list_all_iff qualifies_def not_le[symmetric])
    then show ?thesis unfolding q by (simp add: Some)
  next
    case None
    then show ?thesis unfolding q by simp
  qed
qed

lemma slot_decidable_total [total_simps]:
  assumes "finite answered" "\<And>c. c \<in> set prior \<Longrightarrow> config_ok c"
  shows "slot_decidable prior answered reporters threshold =
    Some (\<forall>c \<in> set prior. config_phase1 c {node \<in> answered. qualifies reporters threshold node})"
proof -
  have "try_all (\<lambda>c. ac_has_phase1_quorum c {node \<in> answered. qualifies reporters threshold node}) prior =
      Some (\<forall>c \<in> set prior. config_phase1 c {node \<in> answered. qualifies reporters threshold node})"
    using assms by (intro try_all_total) (simp add: ac_has_phase1_quorum_total)
  then show ?thesis by (simp add: slot_decidable_def qualifying_answers_total)
qed

lemma member_union_total [total_simps]:
  assumes "\<And>c. c \<in> set configs \<Longrightarrow> config_ok c"
  shows "member_union configs = Some (sorted_list_of_set (\<Union>c \<in> set configs. set (ac_members c)))"
proof -
  have "try_map ac_members' configs = Some (map ac_members configs)"
    using assms by (intro try_map_total) (simp add: ac_members'_def config_okD)
  then show ?thesis by (simp add: member_union_def normalized_eq)
qed

lemma decidable_covers:
  assumes "slot_decidable prior answered reporters threshold = Some True"
    and "finite answered" "\<forall>c \<in> set prior. config_ok c" "C \<in> set prior"
    and "phase2_holds (ac_quorum_system C) (ac_members C) Q column"
    and "\<forall>a \<in> Q \<inter> answered. Some b \<le> threshold \<or>
      (\<exists>r fb. reporters = Some r \<and> fmlookup r a = Some fb \<and> b \<le> fb)"
  shows "Some b \<le> threshold"
proof -
  let ?S = "{node \<in> answered. qualifies reporters threshold node}"
  have C: "config_ok C" using assms(3,4) by simp
  have "config_phase1 C ?S" using assms(1-4) by (simp add: slot_decidable_total)
  then obtain a where a: "a \<in> ?S" "a \<in> Q"
    using phases_intersect[OF config_okD(1,2)[OF C] _ assms(5)] unfolding config_phase1_def by blast
  consider "Some b \<le> threshold" | r fb where "reporters = Some r" "fmlookup r a = Some fb" "b \<le> fb"
    using assms(6) a by blast
  then show ?thesis
  proof cases
    case (2 r fb)
    then have "Some b \<le> Some fb" "Some fb \<le> threshold" using a(1) by (auto simp: qualifies_def)
    then show ?thesis by (rule order_trans)
  qed
qed

text \<open>C29: a decidable slot hides no chosen value. Suppose a Phase-2 quorum of one of the prior
  configurations, in whatever column the round ran, accepted at ballot \<open>b\<close>, and every answered member
  of that quorum reported what it holds truthfully: a readable copy, which bounds the best reported
  ballot from below, or a faulty one at \<open>b\<close> or above. If \<open>slot_decidable\<close> says yes, the best readable
  report is at \<open>b\<close> or above, so the leader neither fills the slot nor proposes an older value over it.\<close>

theorem decidable_slot_hides_nothing:
  assumes "slot_decidable prior answered reporters threshold = Some True"
    and "finite answered" "\<forall>c \<in> set prior. config_ok c" "C \<in> set prior"
    and "phase2_holds (ac_quorum_system C) (ac_members C) Q column"
    and "\<forall>a \<in> Q \<inter> answered. Some b \<le> threshold \<or>
      (\<exists>r fb. reporters = Some r \<and> fmlookup r a = Some fb \<and> b \<le> fb)"
  shows "Some b \<le> threshold"
  using assms by (rule decidable_covers)

text \<open>Three acceptors under a majority: the first voted at ballot 5 and lost its copy to a faulty
  record, the second holds it readable, the third answered nothing. The two answers at or below the
  best report are a majority, so the slot is decidable, and the decision covers ballot 5.\<close>

definition three_acceptors :: "nat acceptor_config" where
  "three_acceptors = \<lparr>ac_members = [2, 3, 4], ac_quorum_system = Majority, ac_domains = [], ac_cell = 0,
     ac_proxies = 0, ac_replicas = 0\<rparr>"

lemma three_acceptors_ok: "config_ok three_acceptors"
  by (simp add: config_ok_def three_acceptors_def members_ok_def u64_max_def)

theorem decidable_slot_hides_nothing_witness:
  "slot_decidable [three_acceptors] {2, 3} (Some (fmupd 2 (Ballot 5 2) fmempty)) (Some (Ballot 5 2)) = Some True \<and>
   Some (Ballot 5 2) \<le> Some (Ballot 5 2)"
proof -
  have d: "slot_decidable [three_acceptors] {2, 3} (Some (fmupd 2 (Ballot 5 2) fmempty)) (Some (Ballot 5 2)) = Some True"
  proof -
    have "{node \<in> {2, 3 :: nat}. qualifies (Some (fmupd 2 (Ballot 5 2) fmempty)) (Some (Ballot 5 2)) node} = {2, 3}"
      by (auto simp: qualifies_def)
    then show ?thesis
      using slot_decidable_total[of "{2, 3}" "[three_acceptors]"] three_acceptors_ok
      by (simp del: Collect_disj_eq) (simp add: config_phase1_def three_acceptors_def)
  qed
  moreover have "phase2_holds (ac_quorum_system three_acceptors) (ac_members three_acceptors) {2, 3} None"
    by (simp add: three_acceptors_def)
  ultimately show ?thesis
    using decidable_slot_hides_nothing[OF d, of three_acceptors "{2, 3}" None "Ballot 5 2"] three_acceptors_ok
    by simp
qed

end
