(* ===== verification/Election.thy ===== *)
theory Election
  imports Promise_Tally
begin

section \<open>The election and the repair probe\<close>

text \<open>
  The two Phase-1 states of the proposer: \<^verbatim>\<open>Election\<close> (\<^verbatim>\<open>paros-core/src/proposer/election.rs\<close>), one
  ballot's promise tally across every prior configuration, and \<^verbatim>\<open>RepairProbe\<close>
  (\<^verbatim>\<open>paros-core/src/proposer/probe.rs\<close>), the same Phase 1 still running for the slots the election
  could not decide. This theory has the types and their own methods; the operations the proposer runs
  on them are in \<open>Proposer\<close>.
\<close>

subsection \<open>The election\<close>

record ('id, 'v) election =
  el_promises :: "'id promise_tally"
  el_config :: "'id acceptor_config"
  el_prior :: "'id acceptor_config list"
  el_recovered :: "(slot, ballot \<times> 'v) fmap"
  el_faulty_reports :: "(slot, ('id, ballot) fmap) fmap"

text \<open>\<^verbatim>\<open>keys().next().is_none_or(|s| *s >= from)\<close>.\<close>

definition starts_at :: "slot \<Rightarrow> (slot, 'r) fmap \<Rightarrow> bool" where
  "starts_at from m \<longleftrightarrow> (case fm_first m of None \<Rightarrow> True | Some s \<Rightarrow> from \<le> s)"

definition el_ballot :: "('id, 'v) election \<Rightarrow> ballot option" where
  "el_ballot e = do {
     check (starts_at (pt_from_slot (el_promises e)) (el_recovered e));
     check (starts_at (pt_from_slot (el_promises e)) (el_faulty_reports e));
     Some (pt_ballot (el_promises e))
   }"

definition el_config' :: "('id::linorder, 'v) election \<Rightarrow> 'id acceptor_config option" where
  "el_config' e = do {
     well_formed \<leftarrow> ac_is_well_formed (el_config e);
     check well_formed;
     Some (el_config e)
   }"

definition el_prior' :: "('id::linorder, 'v) election \<Rightarrow> 'id acceptor_config list option" where
  "el_prior' e = do {
     well_formed \<leftarrow> try_all ac_is_well_formed (el_prior e);
     check well_formed;
     check (list_all (\<lambda>i. el_prior e ! i \<notin> set (take i (el_prior e))) [0..<length (el_prior e)]);
     Some (el_prior e)
   }"

definition el_covered :: "('id::linorder, 'v) election \<Rightarrow> bool option" where
  "el_covered e = try_all (\<lambda>config. ac_has_phase1_quorum config (pt_answered (el_promises e))) (el_prior e)"

definition el_targets :: "('id::linorder, 'v) election \<Rightarrow> 'id option \<Rightarrow> 'id list option" where
  "el_targets e me = do {
     members \<leftarrow> member_union (el_prior e @ [el_config e]);
     let targets = filter (\<lambda>p. Some p \<noteq> me) members;
     (case me of None \<Rightarrow> Some () | Some me \<Rightarrow> check (me \<notin> set targets));
     config_members \<leftarrow> ac_members' (el_config e);
     check (list_all (\<lambda>m. Some m = me \<or> m \<in> set targets) config_members);
     Some targets
   }"

definition el_unpromised :: "('id::linorder, 'v) election \<Rightarrow> 'id option \<Rightarrow> 'id list option" where
  "el_unpromised e me = do {
     targets \<leftarrow> el_targets e me;
     let unpromised = filter (\<lambda>p. p \<notin> pt_answered (el_promises e)) targets;
     (case me of None \<Rightarrow> Some () | Some me \<Rightarrow> check (me \<notin> set unpromised));
     Some unpromised
   }"

definition el_promised :: "('id::linorder, 'v) election \<Rightarrow> 'id set option" where
  "el_promised e = do {
     check (list_all (\<lambda>id. id \<notin> pt_answered (el_promises e)) (fm_keys (pt_promise_next (el_promises e))));
     Some (pt_answered (el_promises e))
   }"

definition el_from_slot :: "('id::linorder, 'v) election \<Rightarrow> slot option" where
  "el_from_slot e = do {
     check (list_all (\<lambda>(_, next). next > pt_from_slot (el_promises e)) (fm_entries (pt_promise_next (el_promises e))));
     Some (pt_from_slot (el_promises e))
   }"

definition el_keep_alive_from :: "('id, 'v) election \<Rightarrow> slot option" where
  "el_keep_alive_from e = do {
     let reported = iter_max (flatten_opts [fm_last (el_recovered e), fm_last (el_faulty_reports e)]);
     from \<leftarrow> (case reported of None \<Rightarrow> Some (pt_from_slot (el_promises e)) | Some slot \<Rightarrow> checked_add64 slot 1);
     check (from \<ge> pt_from_slot (el_promises e));
     check (list_all (\<lambda>slot. slot < from) (fm_keys (el_recovered e)));
     check (list_all (\<lambda>slot. slot < from) (fm_keys (el_faulty_reports e)));
     Some from
   }"

definition el_paging :: "('id::linorder, 'v) election \<Rightarrow> bool option" where
  "el_paging e = do {
     let paging = (pt_promise_next (el_promises e) \<noteq> fmempty);
     check (list_all (\<lambda>id. id \<notin> pt_answered (el_promises e)) (fm_keys (pt_promise_next (el_promises e))));
     Some paging
   }"

definition el_recovered' :: "('id, 'v) election \<Rightarrow> (slot, ballot \<times> 'v) fmap option" where
  "el_recovered' e = do {
     check (starts_at (pt_from_slot (el_promises e)) (el_recovered e));
     Some (el_recovered e)
   }"

subsection \<open>The repair probe\<close>

record ('id, 'v) repair_probe =
  rp_promises :: "'id promise_tally"
  rp_prior :: "'id acceptor_config list"
  rp_faulty_reports :: "(slot, ('id, ballot) fmap) fmap"
  rp_best_have :: "(slot, ballot \<times> 'v) fmap"
  rp_blocked :: "slot set"
  rp_elapsed :: nat

record 'id repair_query =
  rq_ballot :: ballot
  rq_from_slot :: slot
  rq_to :: "'id list"

text \<open>\<^verbatim>\<open>BTreeSet::first\<close>.\<close>

definition set_first :: "'a::linorder set \<Rightarrow> 'a option" where
  "set_first S = (if S = {} then None else Some (Min S))"

definition rp_assert_invariants :: "('id, 'v) repair_probe \<Rightarrow> unit option" where
  "rp_assert_invariants p = do {
     check (rp_blocked p \<noteq> {});
     check (list_all (\<lambda>s. s \<in> rp_blocked p) (fm_keys (rp_best_have p)));
     check (list_all (\<lambda>s. s \<in> rp_blocked p) (fm_keys (rp_faulty_reports p)));
     check (case set_first (rp_blocked p) of None \<Rightarrow> True | Some s \<Rightarrow> pt_from_slot (rp_promises p) \<le> s);
     Some ()
   }"

definition rp_ballot :: "('id, 'v) repair_probe \<Rightarrow> ballot option" where
  "rp_ballot p = do { check (rp_blocked p \<noteq> {}); Some (pt_ballot (rp_promises p)) }"

definition rp_blocked' :: "('id, 'v) repair_probe \<Rightarrow> slot set option" where
  "rp_blocked' p = do {
     check (rp_blocked p \<noteq> {});
     check (list_all (\<lambda>s. s \<in> rp_blocked p) (fm_keys (rp_best_have p)));
     Some (rp_blocked p)
   }"

definition rp_answered' :: "('id, 'v) repair_probe \<Rightarrow> 'id set option" where
  "rp_answered' p = do { check (pt_answered (rp_promises p) \<noteq> {}); Some (pt_answered (rp_promises p)) }"

definition rp_prior' :: "('id, 'v) repair_probe \<Rightarrow> 'id acceptor_config list option" where
  "rp_prior' p = do { check (rp_prior p \<noteq> []); Some (rp_prior p) }"

definition rp_requery :: "('id::linorder, 'v) repair_probe \<Rightarrow> 'id \<Rightarrow> 'id repair_query option" where
  "rp_requery p me = do {
     members \<leftarrow> member_union (rp_prior p);
     let to = filter (\<lambda>n. n \<noteq> me \<and> n \<notin> pt_answered (rp_promises p)) members;
     check (me \<notin> set to);
     check (case set_first (rp_blocked p) of None \<Rightarrow> True | Some s \<Rightarrow> pt_from_slot (rp_promises p) \<le> s);
     Some \<lparr>rq_ballot = pt_ballot (rp_promises p), rq_from_slot = pt_from_slot (rp_promises p), rq_to = to\<rparr>
   }"

subsection \<open>Invariants\<close>

definition election_ok :: "('id::linorder, 'v) election \<Rightarrow> bool" where
  "election_ok e \<longleftrightarrow> tally_ok (el_promises e) \<and> config_ok (el_config e) \<and>
     (\<forall>c \<in> set (el_prior e). config_ok c) \<and>
     (\<forall>s \<in> fmdom' (el_recovered e). pt_from_slot (el_promises e) \<le> s) \<and>
     (\<forall>s \<in> fmdom' (el_faulty_reports e). pt_from_slot (el_promises e) \<le> s)"

definition probe_ok :: "('id::linorder, 'v) repair_probe \<Rightarrow> bool" where
  "probe_ok p \<longleftrightarrow> tally_ok (rp_promises p) \<and> (\<forall>c \<in> set (rp_prior p). config_ok c) \<and>
     finite (rp_blocked p) \<and> rp_blocked p \<noteq> {} \<and>
     (\<forall>s \<in> rp_blocked p. pt_from_slot (rp_promises p) \<le> s) \<and>
     fmdom' (rp_best_have p) \<subseteq> rp_blocked p \<and> fmdom' (rp_faulty_reports p) \<subseteq> rp_blocked p"

lemma election_okD:
  assumes "election_ok e"
  shows "tally_ok (el_promises e)" "config_ok (el_config e)" "\<And>c. c \<in> set (el_prior e) \<Longrightarrow> config_ok c"
    "\<And>s. s \<in> fmdom' (el_recovered e) \<Longrightarrow> pt_from_slot (el_promises e) \<le> s"
    "\<And>s. s \<in> fmdom' (el_faulty_reports e) \<Longrightarrow> pt_from_slot (el_promises e) \<le> s"
    "finite (pt_answered (el_promises e))"
  using assms by (auto simp: election_ok_def tally_ok_def)

lemma probe_okD:
  assumes "probe_ok p"
  shows "tally_ok (rp_promises p)" "\<And>c. c \<in> set (rp_prior p) \<Longrightarrow> config_ok c" "finite (rp_blocked p)"
    "rp_blocked p \<noteq> {}" "\<And>s. s \<in> rp_blocked p \<Longrightarrow> pt_from_slot (rp_promises p) \<le> s"
    "fmdom' (rp_best_have p) \<subseteq> rp_blocked p" "fmdom' (rp_faulty_reports p) \<subseteq> rp_blocked p"
    "finite (pt_answered (rp_promises p))"
  using assms by (auto simp: probe_ok_def tally_ok_def)

lemma starts_at_iff: "starts_at from m \<longleftrightarrow> (\<forall>s \<in> fmdom' m. from \<le> s)"
  unfolding starts_at_def by (rule fm_first_is_none_or)

lemma set_first_is_none_or:
  "finite S \<Longrightarrow> (case set_first S of None \<Rightarrow> True | Some s \<Rightarrow> b \<le> s) \<longleftrightarrow> (\<forall>s \<in> S. b \<le> s)"
  by (auto simp: set_first_def)

lemma tally_senders: "tally_ok t \<Longrightarrow> list_all (\<lambda>id. id \<notin> pt_answered t) (fm_keys (pt_promise_next t))"
  by (auto simp: tally_ok_def list_all_iff fmdom'_iff)

lemma el_covered_total [total_simps]:
  assumes "election_ok e"
  shows "el_covered e = Some (\<forall>c \<in> set (el_prior e). config_phase1 c (pt_answered (el_promises e)))"
  unfolding el_covered_def
  using election_okD[OF assms] by (intro try_all_total) (simp add: ac_has_phase1_quorum_total)

lemma el_targets_total [total_simps]:
  assumes "election_ok e"
  shows "el_targets e me = Some (filter (\<lambda>p. Some p \<noteq> me)
    (sorted_list_of_set (\<Union>c \<in> insert (el_config e) (set (el_prior e)). set (ac_members c))))"
proof -
  note ok = election_okD[OF assms]
  let ?U = "\<Union>c \<in> insert (el_config e) (set (el_prior e)). set (ac_members c)"
  have "member_union (el_prior e @ [el_config e]) = Some (sorted_list_of_set ?U)"
    using ok(2,3) by (subst member_union_total) auto
  moreover have "set (sorted_list_of_set ?U) = ?U" by (rule set_sorted_list_of_set) simp
  ultimately show ?thesis
    using config_okD(3)[OF ok(2)]
    by (cases me) (auto simp: el_targets_def ac_members'_def list_all_iff Let_def)
qed

lemma el_reads_total [total_simps]:
  assumes "election_ok e"
  shows "el_ballot e = Some (pt_ballot (el_promises e))"
    "el_config' e = Some (el_config e)"
    "el_promised e = Some (pt_answered (el_promises e))"
    "el_from_slot e = Some (pt_from_slot (el_promises e))"
    "el_paging e = Some (pt_promise_next (el_promises e) \<noteq> fmempty)"
    "el_recovered' e = Some (el_recovered e)"
  using election_okD[OF assms] tally_senders[OF election_okD(1)[OF assms]]
  by (auto simp: el_ballot_def el_config'_def el_promised_def el_from_slot_def el_paging_def el_recovered'_def
      starts_at_iff ac_is_well_formed_ok tally_ok_def list_all_iff)

lemma distinct_prefixes: "distinct xs \<Longrightarrow> i < length xs \<Longrightarrow> xs ! i \<notin> set (take i xs)"
  by (auto simp: in_set_conv_nth distinct_conv_nth)

lemma el_prior_total [total_simps]:
  assumes "election_ok e" "distinct (el_prior e)"
  shows "el_prior' e = Some (el_prior e)"
proof -
  have "try_all ac_is_well_formed (el_prior e) = Some (\<forall>c \<in> set (el_prior e). True)"
    using election_okD(3)[OF assms(1)] by (intro try_all_total) (simp add: ac_is_well_formed_ok)
  then show ?thesis using distinct_prefixes[OF assms(2)] by (simp add: el_prior'_def list_all_iff)
qed

lemma el_unpromised_total [total_simps]:
  assumes "election_ok e"
  shows "el_unpromised e me = Some (filter (\<lambda>p. Some p \<noteq> me \<and> p \<notin> pt_answered (el_promises e))
    (sorted_list_of_set (\<Union>c \<in> insert (el_config e) (set (el_prior e)). set (ac_members c))))"
  by (cases me) (auto simp: el_unpromised_def el_targets_total[OF assms] conj_commute Let_def)

lemma rp_assert_total [total_simps]: "probe_ok p \<Longrightarrow> rp_assert_invariants p = Some ()"
  using probe_okD[of p] by (auto simp: rp_assert_invariants_def list_all_iff set_first_is_none_or)

lemma rp_requery_total [total_simps]:
  assumes "probe_ok p"
  shows "\<exists>q. rp_requery p me = Some q \<and> rq_ballot q = pt_ballot (rp_promises p) \<and>
    rq_from_slot q = pt_from_slot (rp_promises p) \<and>
    set (rq_to q) = (\<Union>c \<in> set (rp_prior p). set (ac_members c)) - pt_answered (rp_promises p) - {me}"
proof -
  note ok = probe_okD[OF assms]
  have "set (sorted_list_of_set (\<Union>c \<in> set (rp_prior p). set (ac_members c))) =
      (\<Union>c \<in> set (rp_prior p). set (ac_members c))"
    by (rule set_sorted_list_of_set) simp
  then show ?thesis
    using ok(2,3,5) by (auto simp: rp_requery_def member_union_total set_first_is_none_or)
qed

text \<open>A keep-alive asks past everything the campaign was told about.\<close>

lemma el_keep_alive_from_total [total_simps]:
  assumes "election_ok e"
    and "\<And>s. s \<in> fmdom' (el_recovered e) \<union> fmdom' (el_faulty_reports e) \<Longrightarrow> s < u64_max"
  shows "\<exists>from. el_keep_alive_from e = Some from \<and> pt_from_slot (el_promises e) \<le> from \<and>
    (\<forall>s \<in> fmdom' (el_recovered e) \<union> fmdom' (el_faulty_reports e). s < from)"
proof -
  note ok = election_okD[OF assms(1)]
  let ?r = "fm_last (el_recovered e)" and ?f = "fm_last (el_faulty_reports e)"
  have mx: "iter_max (flatten_opts [?r, ?f]) = max ?r ?f" by (simp only: iter_max_flatten) simp
  show ?thesis
  proof (cases "max ?r ?f")
    case None
    then have "el_recovered e = fmempty" "el_faulty_reports e = fmempty"
      by (cases ?r; cases ?f; simp)+
    then show ?thesis using None by (simp add: el_keep_alive_from_def mx fm_keys_def)
  next
    case (Some k)
    have upper: "s \<le> k" if "s \<in> fmdom' (el_recovered e) \<union> fmdom' (el_faulty_reports e)" for s
    proof -
      have "Some s \<le> max ?r ?f"
        using that fm_last_SomeD(2)[of "el_recovered e"] fm_last_SomeD(2)[of "el_faulty_reports e"]
        by (cases ?r; cases ?f; fastforce simp: le_max_iff_disj)
      then show ?thesis using Some by simp
    qed
    have "k \<in> fmdom' (el_recovered e) \<union> fmdom' (el_faulty_reports e)"
      using Some fm_last_SomeD(1)[of "el_recovered e"] fm_last_SomeD(1)[of "el_faulty_reports e"]
      by (cases ?r; cases ?f) (auto simp: max_def split: if_splits)
    then have "k < u64_max" "pt_from_slot (el_promises e) \<le> k" using assms(2) ok(4,5) by blast+
    then show ?thesis
      using upper Some by (simp add: el_keep_alive_from_def mx list_all_iff checked_add64_def less_Suc_eq_le)
  qed
qed

end
