(* ===== verification/Rounds.thy ===== *)
theory Rounds
  imports Promise_Tally
begin

section \<open>Phase 2: the accept rounds\<close>

text \<open>
  The standalone Phase-2 tally of \<^verbatim>\<open>paros-core/src/proposer/rounds.rs\<close>: the in-flight rounds keyed by
  slot, their custody (counted here or delegated to a proxy), the fold of an \<^verbatim>\<open>Accepted\<close>, the decision,
  the move to another column, and the bounded re-send page with its cursor. \<open>fp\<close> is the
  \<^verbatim>\<open>Fingerprint\<close> implementation of the value type, a parameter of the source's trait bound. A
  \<^verbatim>\<open>probe!\<close> reports a reached condition to the simulator and has no effect.

  The theorems: a decision always rests on a Phase-2 quorum in the one column the round runs in, of
  acceptors that voted for that slot, ballot and command, whatever sequence of openings, votes, moves,
  take-backs and re-sends led to it; and the re-send page is fair.
\<close>

subsection \<open>Model\<close>

definition RESEND_BATCH :: nat where
  "RESEND_BATCH = 64"

datatype 'id custody = Colocated "'id set" | Delegated proxy_id

definition custody_colocated :: "'id option \<Rightarrow> 'id custody" where
  "custody_colocated own_vote = Colocated (set_option own_vote)"

record ('id, 'v) round =
  rd_ballot :: ballot
  rd_command :: 'v
  rd_custody :: "'id custody"
  rd_column :: "nat option"
  rd_resends :: nat
  rd_moves :: nat

definition rd_proxy :: "('id, 'v) round \<Rightarrow> proxy_id option" where
  "rd_proxy r = (case rd_custody r of Delegated proxy \<Rightarrow> Some proxy | Colocated _ \<Rightarrow> None)"

definition rd_accepted_by :: "('id, 'v) round \<Rightarrow> 'id set option" where
  "rd_accepted_by r = (case rd_custody r of Colocated accepted_by \<Rightarrow> Some accepted_by | Delegated _ \<Rightarrow> None)"

record 'v pending_accept =
  pa_slot :: slot
  pa_ballot :: ballot
  pa_command :: 'v
  pa_column :: "nat option"
  pa_proxy :: "proxy_id option"

record ('id, 'v) rounds =
  rs_by_slot :: "(slot, ('id, 'v) round) fmap"
  rs_resend_cursor :: "slot option"

definition rounds_default :: "('id, 'v) rounds" where
  "rounds_default = \<lparr>rs_by_slot = fmempty, rs_resend_cursor = None\<rparr>"

definition rounds_is_empty :: "('id, 'v) rounds \<Rightarrow> bool" where
  "rounds_is_empty rs \<longleftrightarrow> rs_by_slot rs = fmempty"

definition rounds_column :: "('id, 'v) rounds \<Rightarrow> slot \<Rightarrow> nat option option" where
  "rounds_column rs slot = map_option rd_column (fmlookup (rs_by_slot rs) slot)"

definition rounds_close :: "('id, 'v) rounds \<Rightarrow> slot \<Rightarrow> ('id, 'v) rounds" where
  "rounds_close rs slot = rs\<lparr>rs_by_slot := fmdrop slot (rs_by_slot rs)\<rparr>"

definition rounds_retain_from :: "('id, 'v) rounds \<Rightarrow> slot \<Rightarrow> ('id, 'v) rounds option" where
  "rounds_retain_from rs first = do {
     let rs = rs\<lparr>rs_by_slot := fmfilter (\<lambda>slot. slot \<ge> first) (rs_by_slot rs)\<rparr>;
     check (case fm_first (rs_by_slot rs) of None \<Rightarrow> True | Some s \<Rightarrow> first \<le> s);
     Some rs
   }"

definition rounds_clear :: "('id, 'v) rounds \<Rightarrow> ('id, 'v) rounds" where
  "rounds_clear rs = rs\<lparr>rs_by_slot := fmempty, rs_resend_cursor := None\<rparr>"

definition rounds_is_open_at :: "('id, 'v) rounds \<Rightarrow> slot \<Rightarrow> ballot \<Rightarrow> bool" where
  "rounds_is_open_at rs slot ballot \<longleftrightarrow>
     (case fmlookup (rs_by_slot rs) slot of None \<Rightarrow> False | Some r \<Rightarrow> rd_ballot r = ballot)"

definition rounds_stalled_delegations :: "('id, 'v) rounds \<Rightarrow> nat \<Rightarrow> slot list option" where
  "rounds_stalled_delegations rs after = do {
     let stalled = map fst (filter (\<lambda>(_, r). rd_resends r \<ge> after \<and> rd_proxy r \<noteq> None)
                              (fm_entries (rs_by_slot rs)));
     check (list_all (\<lambda>s. case fmlookup (rs_by_slot rs) s of None \<Rightarrow> False
                           | Some r \<Rightarrow> rd_accepted_by r = None) stalled);
     Some stalled
   }"

definition rounds_stalled :: "('id, 'v) rounds \<Rightarrow> nat \<Rightarrow> slot list option" where
  "rounds_stalled rs after = do {
     let stalled = map fst (filter (\<lambda>(_, r). rd_resends r \<ge> after) (fm_entries (rs_by_slot rs)));
     check (sorted_wrt (<) stalled);
     Some stalled
   }"

definition rounds_all_at :: "('id, 'v) rounds \<Rightarrow> ballot \<Rightarrow> bool" where
  "rounds_all_at rs ballot = list_all (\<lambda>(_, r). rd_ballot r = ballot) (fm_entries (rs_by_slot rs))"

definition rounds_close_below :: "('id, 'v) rounds \<Rightarrow> ballot \<Rightarrow> (slot list \<times> ('id, 'v) rounds) option" where
  "rounds_close_below rs ballot = do {
     let stale = map fst (filter (\<lambda>(_, r). rd_ballot r < ballot) (fm_entries (rs_by_slot rs)));
     let rs = rs\<lparr>rs_by_slot := fold fmdrop stale (rs_by_slot rs)\<rparr>;
     check (list_all (\<lambda>(_, r). rd_ballot r \<ge> ballot) (fm_entries (rs_by_slot rs)));
     Some (stale, rs)
   }"

definition rounds_insert_round ::
  "('id, 'v) rounds \<Rightarrow> slot \<Rightarrow> ballot \<Rightarrow> 'v \<Rightarrow> 'id custody \<Rightarrow> nat option \<Rightarrow> ('id, 'v) rounds option" where
  "rounds_insert_round rs slot ballot command custody column = do {
     check (fmlookup (rs_by_slot rs) slot = None);
     let open = fm_len (rs_by_slot rs);
     let rs = rs\<lparr>rs_by_slot := fmupd slot
         \<lparr>rd_ballot = ballot, rd_command = command, rd_custody = custody, rd_column = column,
          rd_resends = 0, rd_moves = 0\<rparr> (rs_by_slot rs)\<rparr>;
     check (fm_len (rs_by_slot rs) = open + 1);
     check (case fmlookup (rs_by_slot rs) slot of None \<Rightarrow> False | Some r \<Rightarrow> rd_ballot r = ballot);
     Some rs
   }"

definition rounds_open ::
  "('id, 'v) rounds \<Rightarrow> slot \<Rightarrow> ballot \<Rightarrow> 'v \<Rightarrow> 'id option \<Rightarrow> nat option \<Rightarrow> ('id, 'v) rounds option" where
  "rounds_open rs slot ballot command own_vote column = do {
     rs \<leftarrow> rounds_insert_round rs slot ballot command (custody_colocated own_vote) column;
     check (case fmlookup (rs_by_slot rs) slot of None \<Rightarrow> False | Some r \<Rightarrow> rd_proxy r = None);
     Some rs
   }"

definition rounds_open_delegated ::
  "('id, 'v) rounds \<Rightarrow> slot \<Rightarrow> ballot \<Rightarrow> 'v \<Rightarrow> nat option \<Rightarrow> proxy_id \<Rightarrow> ('id, 'v) rounds option" where
  "rounds_open_delegated rs slot ballot command column proxy = do {
     rs \<leftarrow> rounds_insert_round rs slot ballot command (Delegated proxy) column;
     check (case fmlookup (rs_by_slot rs) slot of None \<Rightarrow> False | Some r \<Rightarrow> rd_proxy r = Some proxy);
     Some rs
   }"

definition rounds_take_back ::
  "('id, 'v) rounds \<Rightarrow> slot \<Rightarrow> 'id option \<Rightarrow> (bool \<times> ('id, 'v) rounds) option" where
  "rounds_take_back rs slot own_vote =
     (case fmlookup (rs_by_slot rs) slot of
        None \<Rightarrow> Some (False, rs)
      | Some rd \<Rightarrow> (case rd_custody rd of
          Colocated _ \<Rightarrow> Some (False, rs)
        | Delegated _ \<Rightarrow> do {
            let rd = rd\<lparr>rd_custody := custody_colocated own_vote\<rparr>;
            check (rd_proxy rd = None);
            Some (True, rs\<lparr>rs_by_slot := fmupd slot rd (rs_by_slot rs)\<rparr>)
          }))"

definition rounds_move_to ::
  "('id::linorder, 'v) rounds \<Rightarrow> 'id acceptor_config \<Rightarrow> slot \<Rightarrow> nat option \<Rightarrow> 'id option \<Rightarrow>
   (bool \<times> ('id, 'v) rounds) option" where
  "rounds_move_to rs config slot column own_vote =
     (case fmlookup (rs_by_slot rs) slot of
        None \<Rightarrow> Some (False, rs)
      | Some rd \<Rightarrow>
          if rd_column rd = column \<or> rd_accepted_by rd = None then Some (False, rs)
          else do {
            addressee \<leftarrow> (case own_vote of None \<Rightarrow> Some True | Some me \<Rightarrow> ac_is_phase2_addressee config me column);
            check addressee;
            let before = rd_moves rd;
            let rd = rd\<lparr>rd_column := column, rd_custody := custody_colocated own_vote, rd_resends := 0,
                              rd_moves := saturating_add64 (rd_moves rd) 1\<rparr>;
            check (rd_moves rd > before);
            (case rd_accepted_by rd of
               None \<Rightarrow> check False
             | Some accepted_by \<Rightarrow> do {
                 all_in \<leftarrow> try_all (\<lambda>n. ac_is_phase2_addressee config n column) (sorted_list_of_set accepted_by);
                 check all_in
               });
            Some (True, rs\<lparr>rs_by_slot := fmupd slot rd (rs_by_slot rs)\<rparr>)
          })"

definition rounds_fold_accepted ::
  "('v \<Rightarrow> fingerprint) \<Rightarrow> ('id, 'v) rounds \<Rightarrow> 'id \<Rightarrow> ballot \<Rightarrow> slot \<Rightarrow> fingerprint \<Rightarrow>
   (bool \<times> ('id, 'v) rounds) option" where
  "rounds_fold_accepted fp rs from ballot slot vhash =
     (case fmlookup (rs_by_slot rs) slot of
        None \<Rightarrow> Some (False, rs)
      | Some rd \<Rightarrow>
          if rd_ballot rd \<noteq> ballot then Some (False, rs)
          else do {
            check (fp (rd_command rd) = vhash);
            (case rd_custody rd of
               Colocated accepted_by \<Rightarrow> do {
                 let accepted_by = insert from accepted_by;
                 check (from \<in> accepted_by);
                 Some (True, rs\<lparr>rs_by_slot := fmupd slot (rd\<lparr>rd_custody := Colocated accepted_by\<rparr>) (rs_by_slot rs)\<rparr>)
               }
             | Delegated _ \<Rightarrow> Some (False, rs))
          })"

definition rounds_fold_accepted_in ::
  "('v \<Rightarrow> fingerprint) \<Rightarrow> ('id::linorder, 'v) rounds \<Rightarrow> 'id acceptor_config \<Rightarrow> 'id \<Rightarrow> ballot \<Rightarrow> slot \<Rightarrow>
   fingerprint \<Rightarrow> (bool \<times> ('id, 'v) rounds) option" where
  "rounds_fold_accepted_in fp rs config from ballot slot vhash =
     (case rounds_column rs slot of
        None \<Rightarrow> Some (False, rs)
      | Some column \<Rightarrow> do {
          addressee \<leftarrow> ac_is_phase2_addressee config from column;
          if \<not> addressee then Some (False, rs)
          else do {
            (counted, rs) \<leftarrow> rounds_fold_accepted fp rs from ballot slot vhash;
            (if counted then do {
               check (rounds_column rs slot = Some column);
               to \<leftarrow> ac_phase2_addressees config column;
               check (from \<in> set to)
             } else Some ());
            Some (counted, rs)
          }
        })"

definition rounds_decided ::
  "('id::linorder, 'v) rounds \<Rightarrow> slot \<Rightarrow> 'id acceptor_config \<Rightarrow> (ballot \<times> 'v) option option" where
  "rounds_decided rs slot config =
     (case fmlookup (rs_by_slot rs) slot of
        None \<Rightarrow> Some None
      | Some rd \<Rightarrow> (case rd_accepted_by rd of
          None \<Rightarrow> Some None
        | Some accepted_by \<Rightarrow> do {
            quorum \<leftarrow> ac_has_phase2_quorum_in config accepted_by (rd_column rd);
            if \<not> quorum then Some None
            else do {
              all_in \<leftarrow> try_all (\<lambda>n. ac_is_phase2_addressee config n (rd_column rd))
                          (sorted_list_of_set accepted_by);
              check all_in;
              check (accepted_by \<noteq> {});
              (if rd_column rd \<noteq> None
               then do { _ \<leftarrow> ac_phase2_addressees config (rd_column rd); Some () } else Some ());
              Some (Some (rd_ballot rd, rd_command rd))
            }
          }))"

definition pending_of :: "slot \<times> ('id, 'v) round \<Rightarrow> 'v pending_accept" where
  "pending_of e = (case e of (s, r) \<Rightarrow>
     \<lparr>pa_slot = s, pa_ballot = rd_ballot r, pa_command = rd_command r, pa_column = rd_column r,
      pa_proxy = rd_proxy r\<rparr>)"

definition count_resend ::
  "'v pending_accept \<Rightarrow> (slot, ('id, 'v) round) fmap \<Rightarrow> (slot, ('id, 'v) round) fmap" where
  "count_resend accept m = (case fmlookup m (pa_slot accept) of
     None \<Rightarrow> m
   | Some rd \<Rightarrow> fmupd (pa_slot accept) (rd\<lparr>rd_resends := saturating_add64 (rd_resends rd) 1\<rparr>) m)"

definition rounds_resend_page ::
  "('id, 'v) rounds \<Rightarrow> nat \<Rightarrow> ('v pending_accept list \<times> ('id, 'v) rounds) option" where
  "rounds_resend_page rs limit = do {
     check (limit > 0);
     check (limit \<le> RESEND_BATCH);
     let start = (case rs_resend_cursor rs of None \<Rightarrow> 0 | Some s \<Rightarrow> s);
     let pending = map pending_of (take limit (fm_entries (fmfilter (\<lambda>s. s \<ge> start) (rs_by_slot rs))));
     let pending = (if length pending < limit
       then (let remaining = limit - length pending in
             pending @ map pending_of (take remaining (fm_entries (fmfilter (\<lambda>s. s < start) (rs_by_slot rs)))))
       else pending);
     let rs = rs\<lparr>rs_by_slot := fold count_resend pending (rs_by_slot rs),
                 rs_resend_cursor := (if pending = [] then None
                   else checked_add64 (pa_slot (last pending)) 1)\<rparr>;
     check (length pending \<le> limit);
     check (length pending = min limit (fm_len (rs_by_slot rs)));
     check (list_all (\<lambda>p. fmlookup (rs_by_slot rs) (pa_slot p) \<noteq> None) pending);
     Some (pending, rs)
   }"

subsection \<open>Votes behind a round\<close>

definition column_ok :: "'id acceptor_config \<Rightarrow> nat option \<Rightarrow> bool" where
  "column_ok c column \<longleftrightarrow> names_cell (ac_quorum_system c) column \<and>
     (\<forall>k. column = Some k \<longrightarrow> k < grid_cols (ac_quorum_system c))"

definition in_column :: "'id::linorder acceptor_config \<Rightarrow> nat option \<Rightarrow> 'id set" where
  "in_column c column = {n. ac_is_phase2_addressee c n column = Some True}"

lemma in_column_total [total_simps]:
  assumes "config_ok c" "column_ok c column"
  shows "ac_is_phase2_addressee c n column = Some (n \<in> in_column c column)"
  using ac_phase2_addressees_total[of c column] assms by (auto simp: column_ok_def in_column_def)

lemma addressees_in_column:
  assumes "config_ok c" "column_ok c column"
  obtains to where "ac_phase2_addressees c column = Some to" "set to = in_column c column"
proof -
  obtain to where "ac_phase2_addressees c column = Some to"
    "\<forall>n. ac_is_phase2_addressee c n column = Some (n \<in> set to)"
    using ac_phase2_addressees_total[of c column] assms by (auto simp: column_ok_def)
  then show thesis using that[of to] by (auto simp: in_column_def)
qed

lemma try_all_in_column:
  assumes "config_ok c" "column_ok c column" "finite A"
  shows "try_all (\<lambda>n. ac_is_phase2_addressee c n column) (sorted_list_of_set A) = Some (A \<subseteq> in_column c column)"
proof -
  have "try_all (\<lambda>n. ac_is_phase2_addressee c n column) (sorted_list_of_set A) =
      Some (\<forall>n \<in> set (sorted_list_of_set A). n \<in> in_column c column)"
    using assms by (intro try_all_total) (simp add: in_column_total)
  then show ?thesis using assms(3) by (simp add: subset_eq)
qed

lemma phase2_holds_nonempty:
  assumes "config_ok c" "phase2_holds (ac_quorum_system c) (ac_members c) A column"
  shows "A \<noteq> {}"
  using phases_intersect[OF config_okD(1,2)[OF assms(1)] everyone_is_quorum(1)[of "ac_members c"] assms(2)]
    config_okD[OF assms(1)] by blast

lemma column_ok_None [simp]: "column_ok c None"
  by (cases "ac_quorum_system c") (simp_all add: column_ok_def)

type_synonym 'id vote = "'id \<times> slot \<times> ballot \<times> fingerprint"

definition round_ok ::
  "'id::linorder acceptor_config \<Rightarrow> ('v \<Rightarrow> fingerprint) \<Rightarrow> 'id vote set \<Rightarrow> slot \<Rightarrow> ('id, 'v) round \<Rightarrow> bool" where
  "round_ok c fp V slot rd \<longleftrightarrow> column_ok c (rd_column rd) \<and>
     (\<forall>A. rd_accepted_by rd = Some A \<longrightarrow> finite A \<and> A \<subseteq> in_column c (rd_column rd) \<and>
        (\<forall>n \<in> A. (n, slot, rd_ballot rd, fp (rd_command rd)) \<in> V))"

definition rounds_ok ::
  "'id::linorder acceptor_config \<Rightarrow> ('v \<Rightarrow> fingerprint) \<Rightarrow> 'id vote set \<Rightarrow> ('id, 'v) rounds \<Rightarrow> bool" where
  "rounds_ok c fp V rs \<longleftrightarrow> (\<forall>slot rd. fmlookup (rs_by_slot rs) slot = Some rd \<longrightarrow> round_ok c fp V slot rd)"

lemma rounds_okD: "rounds_ok c fp V rs \<Longrightarrow> fmlookup (rs_by_slot rs) slot = Some rd \<Longrightarrow> round_ok c fp V slot rd"
  by (simp add: rounds_ok_def)

lemma round_ok_mono: "round_ok c fp V slot rd \<Longrightarrow> V \<subseteq> V' \<Longrightarrow> round_ok c fp V' slot rd"
  unfolding round_ok_def by blast

lemma rounds_ok_sub:
  assumes "rounds_ok c fp V rs"
    and "\<And>s rd. fmlookup (rs_by_slot rs') s = Some rd \<Longrightarrow> fmlookup (rs_by_slot rs) s = Some rd"
  shows "rounds_ok c fp V rs'"
  using assms by (simp add: rounds_ok_def)

lemma rounds_ok_upd:
  assumes "rounds_ok c fp V rs" "V \<subseteq> V'" "round_ok c fp V' slot rd"
    and "rs_by_slot rs' = fmupd slot rd (rs_by_slot rs)"
  shows "rounds_ok c fp V' rs'"
  unfolding rounds_ok_def
proof (intro allI impI)
  fix s rd' assume "fmlookup (rs_by_slot rs') s = Some rd'"
  then show "round_ok c fp V' s rd'"
    using assms(1,3,4) by (cases "s = slot") (auto simp: rounds_ok_def intro: round_ok_mono[OF _ assms(2)])
qed

lemma rounds_ok_default [simp]: "rounds_ok c fp V rounds_default"
  by (simp add: rounds_ok_def rounds_default_def)

lemma rd_accepted_by_colocated [simp]:
  "rd_accepted_by (rd\<lparr>rd_custody := custody_colocated own\<rparr>) = Some (set_option own)"
  by (simp add: rd_accepted_by_def custody_colocated_def)

subsection \<open>The operations under their preconditions\<close>

definition fresh_round :: "ballot \<Rightarrow> 'v \<Rightarrow> 'id custody \<Rightarrow> nat option \<Rightarrow> ('id, 'v) round" where
  "fresh_round b v custody column = \<lparr>rd_ballot = b, rd_command = v, rd_custody = custody,
     rd_column = column, rd_resends = 0, rd_moves = 0\<rparr>"

lemma rounds_insert_round_total [total_simps]:
  "rounds_insert_round rs slot b v custody column =
    (if fmlookup (rs_by_slot rs) slot = None
     then Some (rs\<lparr>rs_by_slot := fmupd slot (fresh_round b v custody column) (rs_by_slot rs)\<rparr>) else None)"
  by (auto simp: rounds_insert_round_def fresh_round_def fm_len_fmupd fmdom'_iff)

lemma rounds_open_total [total_simps]:
  "rounds_open rs slot b v own column =
    (if fmlookup (rs_by_slot rs) slot = None
     then Some (rs\<lparr>rs_by_slot := fmupd slot (fresh_round b v (custody_colocated own) column) (rs_by_slot rs)\<rparr>)
     else None)"
  "rounds_open_delegated rs slot b v column proxy =
    (if fmlookup (rs_by_slot rs) slot = None
     then Some (rs\<lparr>rs_by_slot := fmupd slot (fresh_round b v (Delegated proxy) column) (rs_by_slot rs)\<rparr>)
     else None)"
  by (simp_all add: rounds_open_def rounds_open_delegated_def rounds_insert_round_total rd_proxy_def
      fresh_round_def custody_colocated_def)

lemma rounds_fold_accepted_total [total_simps]:
  "rounds_fold_accepted fp rs from b slot h =
    (case fmlookup (rs_by_slot rs) slot of
       None \<Rightarrow> Some (False, rs)
     | Some rd \<Rightarrow> if rd_ballot rd \<noteq> b then Some (False, rs)
         else if fp (rd_command rd) \<noteq> h then None
         else (case rd_accepted_by rd of
             None \<Rightarrow> Some (False, rs)
           | Some A \<Rightarrow> Some (True, rs\<lparr>rs_by_slot :=
               fmupd slot (rd\<lparr>rd_custody := Colocated (insert from A)\<rparr>) (rs_by_slot rs)\<rparr>)))"
  by (simp add: rounds_fold_accepted_def rd_accepted_by_def split: option.split custody.split)

lemma rounds_fold_accepted_in_total [total_simps]:
  assumes "config_ok c" "rounds_ok c fp V rs"
  shows "rounds_fold_accepted_in fp rs c from b slot h =
    (case fmlookup (rs_by_slot rs) slot of
       None \<Rightarrow> Some (False, rs)
     | Some rd \<Rightarrow> if from \<in> in_column c (rd_column rd) then rounds_fold_accepted fp rs from b slot h
         else Some (False, rs))"
proof (cases "fmlookup (rs_by_slot rs) slot")
  case (Some rd)
  have col: "column_ok c (rd_column rd)" using rounds_okD[OF assms(2) Some] by (simp add: round_ok_def)
  obtain to where to: "ac_phase2_addressees c (rd_column rd) = Some to" "set to = in_column c (rd_column rd)"
    using addressees_in_column[OF assms(1) col] .
  show ?thesis
    using to in_column_total[OF assms(1) col, of "from"]
    by (auto simp: rounds_fold_accepted_in_def rounds_column_def Some rounds_fold_accepted_total
        split: option.split)
qed (simp add: rounds_fold_accepted_in_def rounds_column_def)

lemma rounds_decided_total [total_simps]:
  assumes "config_ok c" "rounds_ok c fp V rs"
  shows "rounds_decided rs slot c =
    Some (case fmlookup (rs_by_slot rs) slot of
       None \<Rightarrow> None
     | Some rd \<Rightarrow> (case rd_accepted_by rd of
         None \<Rightarrow> None
       | Some A \<Rightarrow> if phase2_holds (ac_quorum_system c) (ac_members c) A (rd_column rd)
           then Some (rd_ballot rd, rd_command rd) else None))"
proof (cases "\<exists>rd A. fmlookup (rs_by_slot rs) slot = Some rd \<and> rd_accepted_by rd = Some A")
  case True
  then obtain rd A where rd: "fmlookup (rs_by_slot rs) slot = Some rd" "rd_accepted_by rd = Some A" by blast
  have ok: "column_ok c (rd_column rd)" "finite A" "A \<subseteq> in_column c (rd_column rd)"
    using rounds_okD[OF assms(2) rd(1)] rd(2) by (auto simp: round_ok_def)
  obtain to where to: "ac_phase2_addressees c (rd_column rd) = Some to"
    using addressees_in_column[OF assms(1) ok(1)] .
  have q: "ac_has_phase2_quorum_in c A (rd_column rd) =
      Some (phase2_holds (ac_quorum_system c) (ac_members c) A (rd_column rd))"
    using assms(1) ok by (intro ac_has_phase2_quorum_in_total) (simp_all add: column_ok_def)
  have "try_all (\<lambda>n. ac_is_phase2_addressee c n (rd_column rd)) (sorted_list_of_set A) = Some True"
    using try_all_in_column[OF assms(1) ok(1,2)] ok(3) by simp
  then show ?thesis
    using rd q to phase2_holds_nonempty[OF assms(1), of A "rd_column rd"]
    by (auto simp: rounds_decided_def)
next
  case False
  then show ?thesis by (auto simp: rounds_decided_def split: option.split)
qed

subsection \<open>The re-send page\<close>

text \<open>The slots of the open rounds from the cursor up, then from the bottom: the order the pages walk.\<close>

definition resend_order :: "('id, 'v) rounds \<Rightarrow> slot list" where
  "resend_order rs = (let start = (case rs_resend_cursor rs of None \<Rightarrow> 0 | Some s \<Rightarrow> s) in
     filter (\<lambda>s. start \<le> s) (fm_keys (rs_by_slot rs)) @ filter (\<lambda>s. s < start) (fm_keys (rs_by_slot rs)))"

lemma fm_keys_fmfilter: "fm_keys (fmfilter P m) = filter P (fm_keys m)"
proof (rule sorted_distinct_set_unique)
  show "set (fm_keys (fmfilter P m)) = set (filter P (fm_keys m))" by (auto simp: fmdom'_iff)
qed (simp_all add: sorted_wrt_filter)

lemma pa_slot_entries: "map (pa_slot \<circ> pending_of) (fm_entries m) = fm_keys m"
proof -
  have "pa_slot \<circ> pending_of = (fst :: slot \<times> ('a, 'b) round \<Rightarrow> slot)"
    by (auto simp: pending_of_def fun_eq_iff)
  then show ?thesis by simp
qed

lemma pa_slot_take:
  "map pa_slot (map pending_of (take n (fm_entries m @ fm_entries m'))) = take n (fm_keys m @ fm_keys m')"
  unfolding map_map take_map[symmetric] map_append pa_slot_entries ..

definition page_pending :: "('id, 'v) rounds \<Rightarrow> nat \<Rightarrow> 'v pending_accept list" where
  "page_pending rs limit =
     (let start = (case rs_resend_cursor rs of None \<Rightarrow> 0 | Some s \<Rightarrow> s) in
      map pending_of (take limit (fm_entries (fmfilter (\<lambda>s. start \<le> s) (rs_by_slot rs)) @
                                  fm_entries (fmfilter (\<lambda>s. s < start) (rs_by_slot rs)))))"

lemma page_pending_slots: "map pa_slot (page_pending rs limit) = take limit (resend_order rs)"
  by (simp only: page_pending_def resend_order_def Let_def fm_keys_fmfilter pa_slot_take)

lemma count_resend_dom [simp]: "fmdom' (count_resend p m) = fmdom' m"
  by (auto simp: count_resend_def fmdom'_iff split: option.splits)

lemma count_resends_dom [simp]: "fmdom' (fold count_resend ps m) = fmdom' m"
  by (induction ps arbitrary: m) simp_all

lemma count_resends_lookup:
  "fmlookup (fold count_resend ps m) s = Some rd' \<Longrightarrow>
   \<exists>rd n. fmlookup m s = Some rd \<and> rd' = rd\<lparr>rd_resends := n\<rparr>"
proof (induction ps arbitrary: m)
  case Nil
  then have "fmlookup m s = Some rd' \<and> rd' = rd'\<lparr>rd_resends := rd_resends rd'\<rparr>" by simp
  then show ?case by blast
next
  case (Cons p ps)
  from Cons.IH[of "count_resend p m"] Cons.prems obtain rd n where
    rd: "fmlookup (count_resend p m) s = Some rd" "rd' = rd\<lparr>rd_resends := n\<rparr>" by auto
  then show ?case by (auto simp: count_resend_def split: option.splits if_splits)
qed

lemma fm_len_dom: "fmdom' m = fmdom' m' \<Longrightarrow> fm_len m = fm_len m'"
  by (simp add: fm_len_def)

lemma length_resend_order: "length (resend_order rs) = fm_len (rs_by_slot rs)"
proof -
  have "length (filter P xs) + length (filter (\<lambda>x. \<not> P x) xs) = length xs" for P and xs :: "slot list"
    by (rule sum_length_filter_compl)
  from this[of "\<lambda>s. (case rs_resend_cursor rs of None \<Rightarrow> 0 | Some s \<Rightarrow> s) \<le> s" "fm_keys (rs_by_slot rs)"]
  show ?thesis by (simp add: resend_order_def Let_def fm_len_keys not_le)
qed

lemma set_resend_order: "set (resend_order rs) = fmdom' (rs_by_slot rs)"
  by (auto simp: resend_order_def Let_def)

definition paged :: "('id, 'v) rounds \<Rightarrow> nat \<Rightarrow> ('id, 'v) rounds" where
  "paged rs limit = rs\<lparr>rs_by_slot := fold count_resend (page_pending rs limit) (rs_by_slot rs),
     rs_resend_cursor := (if page_pending rs limit = [] then None
       else checked_add64 (pa_slot (last (page_pending rs limit))) 1)\<rparr>"

lemma rounds_resend_page_total [total_simps]:
  assumes "0 < limit" "limit \<le> RESEND_BATCH"
  shows "rounds_resend_page rs limit = Some (page_pending rs limit, paged rs limit)"
proof -
  let ?start = "case rs_resend_cursor rs of None \<Rightarrow> 0 | Some s \<Rightarrow> s"
  let ?up = "fm_entries (fmfilter (\<lambda>s. s \<ge> ?start) (rs_by_slot rs))"
  let ?low = "fm_entries (fmfilter (\<lambda>s. s < ?start) (rs_by_slot rs))"
  have pend: "(if length (map pending_of (take limit ?up)) < limit
       then (let remaining = limit - length (map pending_of (take limit ?up)) in
             map pending_of (take limit ?up) @ map pending_of (take remaining ?low))
       else map pending_of (take limit ?up)) = page_pending rs limit"
    by (simp add: page_pending_def Let_def)
  have len: "length (page_pending rs limit) = min limit (fm_len (rs_by_slot rs))"
    using arg_cong[OF page_pending_slots[of rs limit], of length] by (simp add: length_resend_order min.commute)
  have "pa_slot p \<in> fmdom' (rs_by_slot rs)" if "p \<in> set (page_pending rs limit)" for p
  proof -
    have "pa_slot p \<in> set (map pa_slot (page_pending rs limit))" using that by simp
    then show ?thesis by (simp add: page_pending_slots) (metis in_set_takeD set_resend_order)
  qed
  then have all: "list_all (\<lambda>p. fmlookup (fold count_resend (page_pending rs limit) (rs_by_slot rs)) (pa_slot p) \<noteq> None)
      (page_pending rs limit)"
    by (simp add: list_all_iff del: not_None_eq flip: fmdom'_iff)
  show ?thesis
    unfolding rounds_resend_page_def Let_def[of ?start] Let_def[of "map pending_of (take limit ?up)"] pend
    using assms len all fm_len_dom[OF count_resends_dom, of "page_pending rs limit" "rs_by_slot rs"]
    by (simp add: paged_def Let_def)
qed

lemma rotate_split:
  assumes "sorted ks"
  shows "filter (\<lambda>k. s \<le> k) ks @ filter (\<lambda>k. k < s) ks = rotate (length (filter (\<lambda>k. k < s) ks)) ks"
proof -
  have "filter (\<lambda>k. k < s) ks @ filter (\<lambda>k. s \<le> k) ks = ks"
    using assms
  proof (induction ks)
    case (Cons a ks)
    have "filter (\<lambda>k. k < s) ks = []" if "s \<le> a"
      using Cons.prems that by (fastforce simp: filter_empty_conv)
    then show ?case using Cons by auto
  qed simp
  then show ?thesis by (metis rotate_append)
qed

lemma resend_order_rotate:
  "resend_order rs = rotate (length (filter (\<lambda>k. k < (case rs_resend_cursor rs of None \<Rightarrow> 0 | Some s \<Rightarrow> s))
     (fm_keys (rs_by_slot rs)))) (fm_keys (rs_by_slot rs))"
  by (simp add: resend_order_def Let_def rotate_split)

lemma filter_upto_nth:
  fixes ks :: "nat list"
  assumes "sorted ks" "distinct ks" "j < length ks"
  shows "filter (\<lambda>k. k < ks ! j + 1) ks = take (Suc j) ks"
proof -
  have strict: "sorted_wrt (<) ks" using assms by (simp add: strict_sorted_iff)
  have "filter (\<lambda>k. k < ks ! j + 1) (take (Suc j) ks) = take (Suc j) ks"
    using assms(1,3) by (auto simp: filter_id_conv in_set_conv_nth less_Suc_eq_le sorted_nth_mono)
  moreover have "filter (\<lambda>k. k < ks ! j + 1) (drop (Suc j) ks) = []"
  proof -
    have "\<not> k < ks ! j + 1" if k: "k \<in> set (drop (Suc j) ks)" for k
    proof -
      obtain i where "i < length (drop (Suc j) ks)" "drop (Suc j) ks ! i = k"
        using k by (auto simp: in_set_conv_nth)
      then have "Suc j + i < length ks" "ks ! (Suc j + i) = k" by simp_all
      then show ?thesis using sorted_wrt_nth_less[OF strict, of j "Suc j + i"] by simp
    qed
    then show ?thesis by (simp add: filter_empty_conv)
  qed
  ultimately show ?thesis by (metis append_Nil2 append_take_drop_id filter_append)
qed

lemma paged_keys [simp]: "fm_keys (rs_by_slot (paged rs limit)) = fm_keys (rs_by_slot rs)"
  by (simp add: paged_def fm_keys_def)

lemma resend_order_paged:
  assumes "0 < limit" "\<And>s. s \<in> fmdom' (rs_by_slot rs) \<Longrightarrow> s \<le> u64_max"
  shows "resend_order (paged rs limit) = rotate (min limit (fm_len (rs_by_slot rs))) (resend_order rs)"
proof (cases "rs_by_slot rs = fmempty")
  case True
  then have "resend_order rs = []" "resend_order (paged rs limit) = []"
    using set_resend_order[of rs] set_resend_order[of "paged rs limit"] by (simp_all add: paged_def)
  then show ?thesis by simp
next
  case False
  define ks where "ks = fm_keys (rs_by_slot rs)"
  define n where "n = length ks"
  define p where "p = min limit n"
  define i where "i = length (filter (\<lambda>k. k < (case rs_resend_cursor rs of None \<Rightarrow> 0 | Some s \<Rightarrow> s)) ks)"
  have ks: "sorted ks" "distinct ks" "set ks = fmdom' (rs_by_slot rs)" by (simp_all add: ks_def)
  have n: "0 < n" "n = fm_len (rs_by_slot rs)"
    using False by (simp_all add: n_def ks_def fm_len_keys fm_len_def card_gt_0_iff)
  have p: "0 < p" "p \<le> n" using n assms(1) by (simp_all add: p_def)
  have order: "resend_order rs = rotate i ks" by (simp add: resend_order_rotate i_def ks_def)
  have slots: "map pa_slot (page_pending rs limit) = take limit (rotate i ks)" by (simp add: page_pending_slots order)
  have len: "length (page_pending rs limit) = p"
    using arg_cong[OF slots, of length] by (simp add: p_def n_def)
  define j where "j = (i + (p - 1)) mod n"
  have j: "j < n" using n by (simp add: j_def)
  have "pa_slot (last (page_pending rs limit)) = map pa_slot (page_pending rs limit) ! (p - 1)"
    using len p by (simp add: last_conv_nth flip: length_greater_0_conv)
  also have "\<dots> = rotate i ks ! (p - 1)"
    unfolding slots using p(1) by (intro nth_take) (auto simp: p_def)
  also have "\<dots> = ks ! j"
    using p by (subst nth_rotate) (simp_all add: j_def n_def)
  finally have lst: "pa_slot (last (page_pending rs limit)) = ks ! j" .
  have ne: "page_pending rs limit \<noteq> []" using len p by auto
  define start where "start = (case rs_resend_cursor (paged rs limit) of None \<Rightarrow> 0 | Some s \<Rightarrow> s)"
  have rot: "rotate (length (filter (\<lambda>k. k < start) ks)) ks = rotate (Suc j) ks"
  proof (cases "ks ! j + 1 \<le> u64_max")
    case True
    then have "start = ks ! j + 1" using ne by (simp add: start_def paged_def lst checked_add64_def)
    then show ?thesis using filter_upto_nth[OF ks(1,2)] j by (simp add: n_def)
  next
    case False
    then have "start = 0" using ne by (simp add: start_def paged_def lst checked_add64_def)
    moreover have "Suc j = n"
    proof (rule ccontr)
      assume "Suc j \<noteq> n"
      then have "Suc j < length ks" using j by (simp add: n_def)
      moreover from this have "ks ! j < ks ! Suc j"
        using sorted_wrt_nth_less[of "(<)" ks j "Suc j"] ks(1,2) by (simp add: strict_sorted_iff)
      moreover have "ks ! Suc j \<in> fmdom' (rs_by_slot rs)"
        using nth_mem[OF \<open>Suc j < length ks\<close>] ks(3) by simp
      ultimately show False using assms(2)[of "ks ! Suc j"] False by simp
    qed
    ultimately show ?thesis by (simp add: n_def rotate_id)
  qed
  have "Suc j mod n = (p + i) mod n" using p by (simp add: j_def mod_simps add.commute)
  then have "rotate (Suc j) ks = rotate (p + i) ks"
    unfolding n_def by (metis rotate_conv_mod)
  then show ?thesis
    unfolding resend_order_rotate[of "paged rs limit"] paged_keys start_def[symmetric] ks_def[symmetric] rot order
    using n(2) by (simp add: p_def rotate_rotate)
qed

fun resend_run :: "nat \<Rightarrow> nat \<Rightarrow> ('id, 'v) rounds \<Rightarrow> (slot list \<times> ('id, 'v) rounds) option" where
  "resend_run 0 limit rs = Some ([], rs)"
| "resend_run (Suc k) limit rs = do {
     (page, rs) \<leftarrow> rounds_resend_page rs limit;
     (rest, rs) \<leftarrow> resend_run k limit rs;
     Some (map pa_slot page @ rest, rs)
   }"

lemma take_rotated:
  assumes "p \<le> length xs"
  shows "set (take (p + k) xs) \<subseteq> set (take p xs) \<union> set (take k (rotate p xs))"
proof (cases "p = length xs")
  case False
  then have "rotate p xs = drop p xs @ take p xs" using assms by (simp add: rotate_drop_take)
  then show ?thesis by (auto simp: take_add)
qed (auto dest: in_set_takeD)

lemma resend_run_covers:
  assumes "0 < limit" "limit \<le> RESEND_BATCH" "\<And>s. s \<in> fmdom' (rs_by_slot rs) \<Longrightarrow> s \<le> u64_max"
  shows "\<exists>sent rs'. resend_run k limit rs = Some (sent, rs') \<and> fmdom' (rs_by_slot rs') = fmdom' (rs_by_slot rs) \<and>
    set (take (k * limit) (resend_order rs)) \<subseteq> set sent \<and> set sent \<subseteq> fmdom' (rs_by_slot rs)"
  using assms(3)
proof (induction k arbitrary: rs)
  case (Suc k)
  let ?rs = "paged rs limit" and ?n = "fm_len (rs_by_slot rs)"
  have dom: "fmdom' (rs_by_slot ?rs) = fmdom' (rs_by_slot rs)" by (simp add: paged_def)
  obtain sent rs' where IH: "resend_run k limit ?rs = Some (sent, rs')"
    "fmdom' (rs_by_slot rs') = fmdom' (rs_by_slot rs)" "set (take (k * limit) (resend_order ?rs)) \<subseteq> set sent"
    "set sent \<subseteq> fmdom' (rs_by_slot rs)"
    using Suc.IH[of ?rs] Suc.prems unfolding dom by blast
  have page: "map pa_slot (page_pending rs limit) = take limit (resend_order rs)" by (rule page_pending_slots)
  have "set (take (Suc k * limit) (resend_order rs)) \<subseteq> set (take limit (resend_order rs)) \<union> set sent"
  proof (cases "?n \<le> limit")
    case True
    then show ?thesis using length_resend_order[of rs] by (auto dest: in_set_takeD)
  next
    case False
    then have "resend_order ?rs = rotate limit (resend_order rs)"
      using resend_order_paged[OF assms(1), of rs] Suc.prems by simp
    with take_rotated[of limit "resend_order rs" "k * limit"] False IH(3) length_resend_order[of rs]
    show ?thesis by auto
  qed
  moreover have "set (take limit (resend_order rs)) \<subseteq> fmdom' (rs_by_slot rs)"
    using set_take_subset[of limit "resend_order rs"] by (simp add: set_resend_order)
  ultimately show ?case
    using IH assms(1,2) by (simp add: rounds_resend_page_total page)
qed simp

subsection \<open>Sequences of operations\<close>

text \<open>The votes a tally was handed, beside the tally: one step per operation of the source. An opener
  that seeds a round with its own vote is an addressee of the column and has recorded the accept, as
  the caller's guard requires.\<close>

definition own_votes :: "'id option \<Rightarrow> slot \<Rightarrow> ballot \<Rightarrow> fingerprint \<Rightarrow> 'id vote set" where
  "own_votes own slot b h = (\<lambda>me. (me, slot, b, h)) ` set_option own"

inductive rounds_step ::
  "'id::linorder acceptor_config \<Rightarrow> ('v \<Rightarrow> fingerprint) \<Rightarrow> 'id vote set \<times> ('id, 'v) rounds \<Rightarrow>
   'id vote set \<times> ('id, 'v) rounds \<Rightarrow> bool" for c fp where
  opened: "rounds_open rs slot b v own column = Some rs' \<Longrightarrow> column_ok c column \<Longrightarrow>
    set_option own \<subseteq> in_column c column \<Longrightarrow>
    rounds_step c fp (V, rs) (V \<union> own_votes own slot b (fp v), rs')"
| delegated: "rounds_open_delegated rs slot b v column proxy = Some rs' \<Longrightarrow> column_ok c column \<Longrightarrow>
    rounds_step c fp (V, rs) (V, rs')"
| taken_back: "rounds_take_back rs slot own = Some (taken, rs') \<Longrightarrow>
    fmlookup (rs_by_slot rs) slot = Some rd \<Longrightarrow> set_option own \<subseteq> in_column c (rd_column rd) \<Longrightarrow>
    rounds_step c fp (V, rs) (V \<union> own_votes own slot (rd_ballot rd) (fp (rd_command rd)), rs')"
| moved: "rounds_move_to rs c slot column own = Some (did, rs') \<Longrightarrow> column_ok c column \<Longrightarrow>
    fmlookup (rs_by_slot rs) slot = Some rd \<Longrightarrow>
    rounds_step c fp (V, rs) (V \<union> own_votes own slot (rd_ballot rd) (fp (rd_command rd)), rs')"
| voted: "rounds_fold_accepted_in fp rs c from b slot h = Some (cnt, rs') \<Longrightarrow>
    rounds_step c fp (V, rs) (insert (from, slot, b, h) V, rs')"
| closed: "rounds_step c fp (V, rs) (V, rounds_close rs slot)"
| retained: "rounds_retain_from rs first = Some rs' \<Longrightarrow> rounds_step c fp (V, rs) (V, rs')"
| closed_below: "rounds_close_below rs b = Some (stale, rs') \<Longrightarrow> rounds_step c fp (V, rs) (V, rs')"
| resent: "rounds_resend_page rs limit = Some (page, rs') \<Longrightarrow> rounds_step c fp (V, rs) (V, rs')"
| cleared: "rounds_step c fp (V, rs) (V, rounds_clear rs)"

lemma fold_fmdrop_lookup: "fmlookup (fold fmdrop ks m) k = (if k \<in> set ks then None else fmlookup m k)"
  by (induction ks arbitrary: m) auto

lemma rounds_move_to_SomeD:
  assumes "rounds_move_to rs c slot column own = Some (did, rs')" "fmlookup (rs_by_slot rs) slot = Some rd"
    and "config_ok c" "column_ok c column"
  shows "rs' = rs \<or> set_option own \<subseteq> in_column c column \<and>
    rs_by_slot rs' = fmupd slot (rd\<lparr>rd_column := column, rd_custody := custody_colocated own, rd_resends := 0,
      rd_moves := saturating_add64 (rd_moves rd) 1\<rparr>) (rs_by_slot rs)"
  using assms(1,2)
  by (auto simp: rounds_move_to_def in_column_total[OF assms(3,4)] bind_Some_iff Let_def
      split: if_splits option.splits)

lemma round_ok_fold:
  assumes "round_ok c fp V slot rd" "rd_accepted_by rd = Some A" "from \<in> in_column c (rd_column rd)"
  shows "round_ok c fp (insert (from, slot, rd_ballot rd, fp (rd_command rd)) V) slot
    (rd\<lparr>rd_custody := Colocated (insert from A)\<rparr>)"
  using assms by (auto simp: round_ok_def rd_accepted_by_def)

lemma round_ok_seeded:
  assumes "column_ok c column" "set_option own \<subseteq> in_column c column" "rd_custody rd = custody_colocated own"
    and "rd_column rd = column"
  shows "round_ok c fp (V \<union> own_votes own slot (rd_ballot rd) (fp (rd_command rd))) slot rd"
  using assms by (auto simp: round_ok_def rd_accepted_by_def custody_colocated_def own_votes_def)

lemma rounds_ok_voted:
  assumes "rounds_ok c fp V rs" "config_ok c" "rounds_fold_accepted_in fp rs c from b slot h = Some (cnt, rs')"
  shows "rounds_ok c fp (insert (from, slot, b, h) V) rs'"
proof (cases cnt)
  case True
  then obtain rd A where rd: "fmlookup (rs_by_slot rs) slot = Some rd" "rd_accepted_by rd = Some A"
    "from \<in> in_column c (rd_column rd)" "rd_ballot rd = b" "fp (rd_command rd) = h"
    "rs' = rs\<lparr>rs_by_slot := fmupd slot (rd\<lparr>rd_custody := Colocated (insert from A)\<rparr>) (rs_by_slot rs)\<rparr>"
    using assms(3)
    by (auto simp: rounds_fold_accepted_in_total[OF assms(2,1)] rounds_fold_accepted_total
        split: option.splits if_splits)
  have "round_ok c fp (insert (from, slot, b, h) V) slot (rd\<lparr>rd_custody := Colocated (insert from A)\<rparr>)"
    using round_ok_fold[OF rounds_okD[OF assms(1) rd(1)] rd(2,3)] rd(4,5) by simp
  from rounds_ok_upd[OF assms(1) subset_insertI this] show ?thesis by (simp add: rd(6))
next
  case False
  then have "rs' = rs"
    using assms(3)
    by (auto simp: rounds_fold_accepted_in_total[OF assms(2,1)] rounds_fold_accepted_total
        split: option.splits if_splits)
  then show ?thesis using assms(1) by (auto simp: rounds_ok_def intro: round_ok_mono[OF _ subset_insertI])
qed

lemma rounds_ok_more: "rounds_ok c fp V rs \<Longrightarrow> rounds_ok c fp (V \<union> W) rs"
  by (auto simp: rounds_ok_def intro: round_ok_mono)

lemma rounds_step_ok:
  assumes "rounds_step c fp (V, rs) (V', rs')" "config_ok c" "rounds_ok c fp V rs"
  shows "rounds_ok c fp V' rs'"
  using assms(1)
proof (cases rule: rounds_step.cases)
  case (opened slot b v own column)
  have "rs_by_slot rs' = fmupd slot (fresh_round b v (custody_colocated own) column) (rs_by_slot rs)"
    using opened(2) by (auto simp: rounds_open_total split: if_splits)
  moreover have "round_ok c fp V' slot (fresh_round b v (custody_colocated own) column)"
    using round_ok_seeded[OF opened(3,4), of "fresh_round b v (custody_colocated own) column" fp V slot] opened(1)
    by (simp add: fresh_round_def)
  ultimately show ?thesis using rounds_ok_upd[OF assms(3), of V'] opened(1) by simp
next
  case (delegated slot b v column proxy)
  have "rs_by_slot rs' = fmupd slot (fresh_round b v (Delegated proxy) column) (rs_by_slot rs)"
    using delegated(2) by (auto simp: rounds_open_total split: if_splits)
  moreover have "round_ok c fp V slot (fresh_round b v (Delegated proxy) column)"
    using delegated(3) by (simp add: round_ok_def fresh_round_def rd_accepted_by_def)
  ultimately show ?thesis using rounds_ok_upd[OF assms(3), of V] delegated(1) by simp
next
  case (taken_back slot own taken rd)
  have rd: "round_ok c fp V slot rd" using assms(3) taken_back(3) by (rule rounds_okD)
  consider "rs' = rs" | "rs_by_slot rs' = fmupd slot (rd\<lparr>rd_custody := custody_colocated own\<rparr>) (rs_by_slot rs)"
    using taken_back(2,3) by (auto simp: rounds_take_back_def Let_def split: custody.splits)
  then show ?thesis
  proof cases
    case 1
    then show ?thesis using rounds_ok_more[OF assms(3)] taken_back(1) by simp
  next
    case 2
    have "round_ok c fp V' slot (rd\<lparr>rd_custody := custody_colocated own\<rparr>)"
      using round_ok_seeded[OF _ taken_back(4), of "rd\<lparr>rd_custody := custody_colocated own\<rparr>"] rd taken_back(1)
      by (simp add: round_ok_def)
    then show ?thesis using rounds_ok_upd[OF assms(3), of V'] 2 taken_back(1) by simp
  qed
next
  case (moved slot column own did rd)
  let ?rd = "rd\<lparr>rd_column := column, rd_custody := custody_colocated own, rd_resends := 0,
      rd_moves := saturating_add64 (rd_moves rd) 1\<rparr>"
  consider "rs' = rs" | "set_option own \<subseteq> in_column c column" "rs_by_slot rs' = fmupd slot ?rd (rs_by_slot rs)"
    using rounds_move_to_SomeD[OF moved(2,4) assms(2) moved(3)] by blast
  then show ?thesis
  proof cases
    case 1
    then show ?thesis using rounds_ok_more[OF assms(3)] moved(1) by simp
  next
    case 2
    then have "round_ok c fp V' slot ?rd"
      using round_ok_seeded[OF moved(3) 2(1), of ?rd fp V slot] moved(1) by simp
    then show ?thesis using rounds_ok_upd[OF assms(3), of V'] 2 moved(1) by simp
  qed
next
  case (voted "from" b slot h cnt)
  then show ?thesis using rounds_ok_voted[OF assms(3,2) voted(2)] by simp
next
  case (closed slot)
  show ?thesis
    unfolding closed(1) by (rule rounds_ok_sub[OF assms(3)]) (simp add: closed rounds_close_def split: if_splits)
next
  case (retained first)
  show ?thesis
    unfolding retained(1)
    by (rule rounds_ok_sub[OF assms(3)])
      (use retained(2) in \<open>auto simp: rounds_retain_from_def Let_def split: if_splits\<close>)
next
  case (closed_below b stale)
  show ?thesis
    unfolding closed_below(1)
    by (rule rounds_ok_sub[OF assms(3)])
      (use closed_below(2) in \<open>auto simp: rounds_close_below_def Let_def fold_fmdrop_lookup split: if_splits\<close>)
next
  case (resent limit page)
  then have "0 < limit" "limit \<le> RESEND_BATCH" by (auto simp: rounds_resend_page_def)
  then have rs': "rs' = paged rs limit" using resent(2) by (simp add: rounds_resend_page_total)
  have "round_ok c fp V s rd" if look: "fmlookup (rs_by_slot rs') s = Some rd" for s rd
  proof -
    obtain rd0 n where rd0: "fmlookup (rs_by_slot rs) s = Some rd0" "rd = rd0\<lparr>rd_resends := n\<rparr>"
      using count_resends_lookup[of "page_pending rs limit" "rs_by_slot rs" s rd] look by (auto simp: rs' paged_def)
    then show ?thesis using rounds_okD[OF assms(3) rd0(1)] by (simp add: round_ok_def rd_accepted_by_def)
  qed
  then show ?thesis using resent(1) by (simp add: rounds_ok_def)
next
  case cleared
  then show ?thesis by (simp add: rounds_ok_def rounds_clear_def)
qed

inductive rounds_run ::
  "'id::linorder acceptor_config \<Rightarrow> ('v \<Rightarrow> fingerprint) \<Rightarrow> 'id vote set \<Rightarrow> ('id, 'v) rounds \<Rightarrow> bool" for c fp where
  start: "rounds_run c fp {} rounds_default"
| step: "rounds_run c fp V rs \<Longrightarrow> rounds_step c fp (V, rs) (V', rs') \<Longrightarrow> rounds_run c fp V' rs'"

lemma rounds_run_ok:
  assumes "rounds_run c fp V rs" "config_ok c"
  shows "rounds_ok c fp V rs"
  using assms(1) by induction (use rounds_step_ok[OF _ assms(2)] in auto)



text \<open>C31: the re-send page is fair. With the open rounds unchanged, any number of consecutive pages whose
  total size reaches the number of open rounds re-sends every one of them, wherever the cursor stood, and
  never a slot that is not open; no page panics.\<close>

theorem resend_is_fair:
  assumes "0 < limit" "limit \<le> RESEND_BATCH" "\<forall>s \<in> fmdom' (rs_by_slot rs). s \<le> u64_max"
    and "fm_len (rs_by_slot rs) \<le> k * limit"
  shows "\<exists>sent rs'. resend_run k limit rs = Some (sent, rs') \<and> set sent = fmdom' (rs_by_slot rs) \<and>
    fmdom' (rs_by_slot rs') = fmdom' (rs_by_slot rs)"
proof -
  have "take (k * limit) (resend_order rs) = resend_order rs"
    using assms(4) by (simp add: length_resend_order)
  then show ?thesis
    using resend_run_covers[OF assms(1,2), of rs k] assms(3) set_resend_order[of rs] by fastforce
qed

theorem resend_is_fair_witness:
  "\<exists>sent rs'. resend_run 2 1 \<lparr>rs_by_slot = fmupd 5 (fresh_round (Ballot 1 1) (7::nat) (Delegated 0) None)
       (fmupd 8 (fresh_round (Ballot 1 1) 9 (Colocated {2::nat}) None) fmempty),
       rs_resend_cursor = Some 6\<rparr> = Some (sent, rs') \<and> set sent = {5, 8}"
proof -
  let ?rs = "\<lparr>rs_by_slot = fmupd 5 (fresh_round (Ballot 1 1) (7::nat) (Delegated 0) None)
       (fmupd 8 (fresh_round (Ballot 1 1) 9 (Colocated {2::nat}) None) fmempty), rs_resend_cursor = Some 6\<rparr>"
  have "\<exists>sent rs'. resend_run 2 1 ?rs = Some (sent, rs') \<and> set sent = fmdom' (rs_by_slot ?rs) \<and>
      fmdom' (rs_by_slot rs') = fmdom' (rs_by_slot ?rs)"
    by (rule resend_is_fair) (simp_all add: RESEND_BATCH_def u64_max_def fm_len_fmupd)
  then show ?thesis by auto
qed

end
