(* ===== verification/Leadership.thy ===== *)
theory Leadership
  imports Acceptor_Config
begin

section \<open>What a leadership holds: its recovery and its authority\<close>

text \<open>
  The two tallies of a leadership that are not Paxos rounds: \<^verbatim>\<open>Recovery\<close>
  (\<^verbatim>\<open>paros-core/src/proposer/recovery.rs\<close>), the bounded walk over the inherited suffix, and
  \<^verbatim>\<open>Authority\<close> (\<^verbatim>\<open>paros-core/src/proposer/authority.rs\<close>), the fence and the \<^verbatim>\<open>CheckQuorum\<close> window.
  The proposer's wrappers around them are in \<open>Proposer\<close>.
\<close>

subsection \<open>The recovery\<close>

datatype recovery_policy = Phase1Backed | Inherited

record 'v recovery =
  rc_recovered :: "(slot, 'v) fmap"
  rc_blocked :: "slot set"
  rc_cursor :: slot
  rc_end :: slot
  rc_policy :: recovery_policy

datatype 'v recovery_step = Recovered 'v | Fill | Undescribed

definition rc_policy' :: "'v recovery \<Rightarrow> recovery_policy option" where
  "rc_policy' r = do {
     (if rc_policy r = Inherited then check (rc_blocked r = {}) else Some ());
     check (rc_cursor r \<le> rc_end r);
     Some (rc_policy r)
   }"

definition rc_is_blocked :: "'v recovery \<Rightarrow> slot \<Rightarrow> bool option" where
  "rc_is_blocked r slot = do {
     let blocked = (slot \<in> rc_blocked r);
     (if blocked then do {
        check (slot < rc_end r);
        check (rc_policy r = Phase1Backed)
      } else Some ());
     Some blocked
   }"

definition rc_remaining :: "'v recovery \<Rightarrow> nat option" where
  "rc_remaining r = do {
     check (rc_cursor r \<le> rc_end r);
     let remaining = rc_end r - rc_cursor r;
     (if rc_cursor r = rc_end r then check (remaining = 0) else Some ());
     Some remaining
   }"

definition rc_cursor' :: "'v recovery \<Rightarrow> slot option" where
  "rc_cursor' r = do { check (rc_cursor r \<le> rc_end r); Some (rc_cursor r) }"

definition rc_end' :: "'v recovery \<Rightarrow> slot option" where
  "rc_end' r = do { check (rc_end r \<ge> rc_cursor r); Some (rc_end r) }"

text \<open>One step of the pump (the body of \<^verbatim>\<open>Proposer::recovery_next\<close>) and its result.\<close>

definition rc_next :: "'v recovery \<Rightarrow> ((slot \<times> 'v recovery_step) option \<times> 'v recovery) option" where
  "rc_next r =
     (if rc_cursor r \<ge> rc_end r then Some (None, r)
      else do {
        let slot = rc_cursor r;
        check (slot < rc_end r);
        let r = r\<lparr>rc_cursor := saturating_add64 (rc_cursor r) 1\<rparr>;
        check (rc_cursor r > slot);
        let step = (case fmlookup (rc_recovered r) slot of
            Some command \<Rightarrow> Recovered command
          | None \<Rightarrow> (case rc_policy r of Phase1Backed \<Rightarrow> Fill | Inherited \<Rightarrow> Undescribed));
        Some (Some (slot, step), r\<lparr>rc_recovered := fmdrop slot (rc_recovered r)\<rparr>)
      })"

definition recovery_ok :: "'v recovery \<Rightarrow> bool" where
  "recovery_ok r \<longleftrightarrow> rc_cursor r \<le> rc_end r \<and> rc_end r \<le> u64_max \<and> finite (rc_blocked r) \<and>
     (\<forall>s \<in> rc_blocked r. s < rc_end r) \<and> (rc_policy r = Inherited \<longrightarrow> rc_blocked r = {})"

lemma rc_reads_total [total_simps]:
  assumes "recovery_ok r"
  shows "rc_policy' r = Some (rc_policy r)" "rc_is_blocked r slot = Some (slot \<in> rc_blocked r)"
    "rc_remaining r = Some (rc_end r - rc_cursor r)" "rc_cursor' r = Some (rc_cursor r)"
    "rc_end' r = Some (rc_end r)"
  using assms
  by (cases "rc_policy r";
      auto simp: recovery_ok_def rc_policy'_def rc_is_blocked_def rc_remaining_def rc_cursor'_def rc_end'_def Let_def)+

definition step_at :: "'v recovery \<Rightarrow> slot \<Rightarrow> 'v recovery_step" where
  "step_at r slot = (case fmlookup (rc_recovered r) slot of
     Some command \<Rightarrow> Recovered command
   | None \<Rightarrow> (case rc_policy r of Phase1Backed \<Rightarrow> Fill | Inherited \<Rightarrow> Undescribed))"

definition rc_advanced :: "'v recovery \<Rightarrow> 'v recovery" where
  "rc_advanced r = r\<lparr>rc_cursor := rc_cursor r + 1, rc_recovered := fmdrop (rc_cursor r) (rc_recovered r)\<rparr>"

lemma rc_next_total [total_simps]:
  assumes "recovery_ok r"
  shows "rc_next r = Some (if rc_cursor r = rc_end r then (None, r)
    else (Some (rc_cursor r, step_at r (rc_cursor r)), rc_advanced r))"
proof (cases "rc_cursor r = rc_end r")
  case False
  then have "rc_cursor r < rc_end r" "rc_end r \<le> u64_max" using assms by (auto simp: recovery_ok_def)
  then show ?thesis
    by (auto simp: rc_next_def saturating_add64_def step_at_def rc_advanced_def Let_def min_def split: option.split)
qed (simp add: rc_next_def)

lemma rc_advanced_ok [inv_intros]:
  "recovery_ok r \<Longrightarrow> rc_cursor r \<noteq> rc_end r \<Longrightarrow> recovery_ok (rc_advanced r)"
  by (auto simp: recovery_ok_def rc_advanced_def)

text \<open>Draining the pump.\<close>

fun rc_drain :: "nat \<Rightarrow> 'v recovery \<Rightarrow> ((slot \<times> 'v recovery_step) list \<times> 'v recovery) option" where
  "rc_drain 0 r = Some ([], r)"
| "rc_drain (Suc n) r = do {
     (out, r) \<leftarrow> rc_next r;
     (case out of
        None \<Rightarrow> Some ([], r)
      | Some step \<Rightarrow> do { (steps, r) \<leftarrow> rc_drain n r; Some (step # steps, r) })
   }"

lemma step_at_advanced [simp]: "s \<noteq> rc_cursor r \<Longrightarrow> step_at (rc_advanced r) s = step_at r s"
  by (simp add: step_at_def rc_advanced_def split: option.split)

lemma rc_drain_total:
  assumes "recovery_ok r" "rc_end r - rc_cursor r \<le> n"
  shows "\<exists>r'. rc_drain n r = Some (map (\<lambda>s. (s, step_at r s)) [rc_cursor r..<rc_end r], r') \<and>
    recovery_ok r' \<and> rc_cursor r' = rc_end r \<and> rc_end r' = rc_end r \<and>
    (\<forall>s. fmlookup (rc_recovered r') s =
       (if rc_cursor r \<le> s \<and> s < rc_end r then None else fmlookup (rc_recovered r) s))"
  using assms
proof (induction n arbitrary: r)
  case 0
  then have "rc_cursor r = rc_end r" by (simp add: recovery_ok_def)
  then show ?case using 0 by auto
next
  case (Suc n)
  show ?case
  proof (cases "rc_cursor r = rc_end r")
    case True
    then show ?thesis using Suc.prems by (auto simp: rc_next_total)
  next
    case False
    let ?r = "rc_advanced r"
    have less: "rc_cursor r < rc_end r" using False Suc.prems(1) by (simp add: recovery_ok_def)
    have adv: "rc_cursor ?r = Suc (rc_cursor r)" "rc_end ?r = rc_end r" by (simp_all add: rc_advanced_def)
    have left: "rc_end ?r - rc_cursor ?r \<le> n" using Suc.prems(2) by (simp add: adv)
    obtain r' where r': "rc_drain n ?r = Some (map (\<lambda>s. (s, step_at ?r s)) [Suc (rc_cursor r)..<rc_end r], r')"
      "recovery_ok r'" "rc_cursor r' = rc_end r" "rc_end r' = rc_end r"
      "\<And>s. fmlookup (rc_recovered r') s =
         (if Suc (rc_cursor r) \<le> s \<and> s < rc_end r then None else fmlookup (rc_recovered ?r) s)"
      using Suc.IH[OF rc_advanced_ok[OF Suc.prems(1) False] left] unfolding adv by blast
    have "map (\<lambda>s. (s, step_at ?r s)) [Suc (rc_cursor r)..<rc_end r] =
        map (\<lambda>s. (s, step_at r s)) [Suc (rc_cursor r)..<rc_end r]"
      by simp
    moreover have "[rc_cursor r..<rc_end r] = rc_cursor r # [Suc (rc_cursor r)..<rc_end r]"
      using less by (rule upt_conv_Cons)
    moreover have "fmlookup (rc_recovered ?r) s = (if s = rc_cursor r then None else fmlookup (rc_recovered r) s)" for s
      by (simp add: rc_advanced_def)
    ultimately show ?thesis
      using r' False less by (auto simp: rc_next_total[OF Suc.prems(1)])
  qed
qed

text \<open>C32: the recovery pump visits every slot of its range once, in order, re-proposes exactly the
  recovered command of each slot that has one, and fills an unreported slot only when a won Phase 1 backs
  the recovery: an inherited recovery never invents a value. It never panics, it ends, and afterwards no
  recovered slot at or past the old cursor is left unvisited.\<close>

theorem recovery_drains:
  assumes "recovery_ok r" "rc_end r - rc_cursor r \<le> n"
  shows "\<exists>steps r'. rc_drain n r = Some (steps, r') \<and> map fst steps = [rc_cursor r..<rc_end r] \<and>
    (\<forall>s v. (s, Recovered v) \<in> set steps \<longleftrightarrow>
       rc_cursor r \<le> s \<and> s < rc_end r \<and> fmlookup (rc_recovered r) s = Some v) \<and>
    (\<forall>s. (s, Fill) \<in> set steps \<longrightarrow> rc_policy r = Phase1Backed \<and> fmlookup (rc_recovered r) s = None) \<and>
    rc_next r' = Some (None, r')"
proof -
  obtain r' where r': "rc_drain n r = Some (map (\<lambda>s. (s, step_at r s)) [rc_cursor r..<rc_end r], r')"
    "recovery_ok r'" "rc_cursor r' = rc_end r" "rc_end r' = rc_end r"
    using rc_drain_total[OF assms] by blast
  have rec: "(step_at r s = Recovered v) = (fmlookup (rc_recovered r) s = Some v)" for s v
    by (auto simp: step_at_def split: option.splits recovery_policy.splits)
  have fill: "step_at r s = Fill \<Longrightarrow> rc_policy r = Phase1Backed \<and> fmlookup (rc_recovered r) s = None" for s
    by (auto simp: step_at_def split: option.splits recovery_policy.splits)
  let ?steps = "map (\<lambda>s. (s, step_at r s)) [rc_cursor r..<rc_end r]"
  have "map fst ?steps = [rc_cursor r..<rc_end r]" by (simp add: comp_def)
  moreover have "(s, Recovered v) \<in> set ?steps \<longleftrightarrow>
      rc_cursor r \<le> s \<and> s < rc_end r \<and> fmlookup (rc_recovered r) s = Some v" for s v
    using rec[of s v] by auto
  moreover have "rc_policy r = Phase1Backed \<and> fmlookup (rc_recovered r) s = None" if "(s, Fill) \<in> set ?steps" for s
    using fill[of s] that by auto
  moreover have "rc_next r' = Some (None, r')" using r'(2-4) by (simp add: rc_next_total)
  ultimately show ?thesis using r'(1) by blast
qed

theorem recovery_drains_witness:
  "\<exists>steps r'. rc_drain 3 \<lparr>rc_recovered = fmupd 5 (70::nat) fmempty, rc_blocked = {}, rc_cursor = 4, rc_end = 7,
      rc_policy = Phase1Backed\<rparr> = Some (steps, r') \<and> map fst steps = [4, 5, 6] \<and>
    (5, Recovered 70) \<in> set steps"
proof -
  let ?r = "\<lparr>rc_recovered = fmupd 5 (70::nat) fmempty, rc_blocked = {}, rc_cursor = 4, rc_end = 7,
      rc_policy = Phase1Backed\<rparr>"
  have "recovery_ok ?r" by (simp add: recovery_ok_def u64_max_def)
  from recovery_drains[OF this, of 3] obtain steps r' where
    r: "rc_drain 3 ?r = Some (steps, r')" "map fst steps = [4..<7]"
    "\<forall>s v. (s, Recovered v) \<in> set steps \<longleftrightarrow> 4 \<le> s \<and> s < 7 \<and> fmlookup (rc_recovered ?r) s = Some v"
    by auto
  have "(5, Recovered 70) \<in> set steps" using r(3) by simp
  then show ?thesis using r(1,2) by (auto simp: upt_rec)
qed

subsection \<open>The authority\<close>

record 'id authority =
  au_fence :: "slot option"
  au_quorum_acked_by :: "'id set"
  au_quorum_elapsed :: nat

definition authority_default :: "'id authority" where
  "authority_default = \<lparr>au_fence = None, au_quorum_acked_by = {}, au_quorum_elapsed = 0\<rparr>"

definition authority_renew :: "'id authority \<Rightarrow> 'id option \<Rightarrow> 'id authority option" where
  "authority_renew a own_vote = do {
     let a = a\<lparr>au_quorum_elapsed := 0, au_quorum_acked_by := {}\<rparr>;
     let a = (case own_vote of None \<Rightarrow> a
              | Some me \<Rightarrow> a\<lparr>au_quorum_acked_by := insert me (au_quorum_acked_by a)\<rparr>);
     check (card (au_quorum_acked_by a) = (if own_vote \<noteq> None then 1 else 0));
     check (au_quorum_elapsed a = 0);
     Some a
   }"

definition authority_open :: "'id authority \<Rightarrow> slot option \<Rightarrow> 'id option \<Rightarrow> 'id authority option" where
  "authority_open a fence own_vote = do {
     let a = a\<lparr>au_fence := fence\<rparr>;
     a \<leftarrow> authority_renew a own_vote;
     check (au_fence a = fence);
     check (au_quorum_elapsed a = 0);
     Some a
   }"

definition authority_credit :: "'id authority \<Rightarrow> 'id \<Rightarrow> 'id authority option" where
  "authority_credit a from = do {
     let before = card (au_quorum_acked_by a);
     let a = a\<lparr>au_quorum_acked_by := insert from (au_quorum_acked_by a)\<rparr>;
     check (from \<in> au_quorum_acked_by a);
     check (card (au_quorum_acked_by a) \<ge> before);
     Some a
   }"

definition authority_tick :: "'id authority \<Rightarrow> (nat \<times> 'id authority) option" where
  "authority_tick a = do {
     let before = au_quorum_elapsed a;
     let a = a\<lparr>au_quorum_elapsed := saturating_add64 (au_quorum_elapsed a) 1\<rparr>;
     check (au_quorum_elapsed a > 0);
     check (au_quorum_elapsed a \<ge> before);
     Some (au_quorum_elapsed a, a)
   }"

definition authority_holds :: "'id::linorder authority \<Rightarrow> 'id acceptor_config \<Rightarrow> bool option" where
  "authority_holds a config = do {
     holds \<leftarrow> ac_has_phase2_quorum config (au_quorum_acked_by a);
     (if holds then check (au_quorum_acked_by a \<noteq> {}) else Some ());
     Some holds
   }"

definition authority_ok :: "'id authority \<Rightarrow> bool" where
  "authority_ok a \<longleftrightarrow> finite (au_quorum_acked_by a) \<and> au_quorum_elapsed a \<le> u64_max"

lemma authority_renew_total [total_simps]:
  "authority_renew a own = Some (a\<lparr>au_quorum_elapsed := 0, au_quorum_acked_by := set_option own\<rparr>)"
  by (cases own) (simp_all add: authority_renew_def)

lemma authority_open_total [total_simps]:
  "authority_open a fence own =
    Some \<lparr>au_fence = fence, au_quorum_acked_by = set_option own, au_quorum_elapsed = 0\<rparr>"
  by (simp add: authority_open_def authority_renew_total)

lemma authority_credit_total [total_simps]:
  "authority_ok a \<Longrightarrow> authority_credit a from = Some (a\<lparr>au_quorum_acked_by := insert from (au_quorum_acked_by a)\<rparr>)"
  by (simp add: authority_credit_def authority_ok_def card_insert_le)

lemma authority_tick_total [total_simps]:
  "authority_ok a \<Longrightarrow> authority_tick a =
    Some (saturating_add64 (au_quorum_elapsed a) 1, a\<lparr>au_quorum_elapsed := saturating_add64 (au_quorum_elapsed a) 1\<rparr>)"
  by (simp add: authority_tick_def authority_ok_def saturating_add64_def Let_def)

lemma authority_holds_total [total_simps]:
  assumes "authority_ok a" "config_ok c"
  shows "authority_holds a c = Some (config_phase2 c (au_quorum_acked_by a))"
proof -
  have "au_quorum_acked_by a \<noteq> {}" if "config_phase2 c (au_quorum_acked_by a)"
    using acq.phases_meet[OF assms(2) _ that] everyone_is_quorum(1)[of "ac_members c"] config_okD[OF assms(2)]
    by (auto simp: config_phase1_def)
  then show ?thesis
    using assms by (auto simp: authority_holds_def ac_has_phase2_quorum_total authority_ok_def)
qed

lemma authority_ok_simps [inv_intros]:
  "authority_ok authority_default"
  "authority_ok \<lparr>au_fence = fence, au_quorum_acked_by = set_option own, au_quorum_elapsed = 0\<rparr>"
  "authority_ok a \<Longrightarrow> authority_ok (a\<lparr>au_quorum_elapsed := 0, au_quorum_acked_by := set_option own\<rparr>)"
  "authority_ok a \<Longrightarrow> authority_ok (a\<lparr>au_quorum_acked_by := insert from (au_quorum_acked_by a)\<rparr>)"
  "authority_ok a \<Longrightarrow> authority_ok (a\<lparr>au_quorum_elapsed := saturating_add64 (au_quorum_elapsed a) 1\<rparr>)"
  by (simp_all add: authority_ok_def authority_default_def)

end
