(* ===== verification/Proposer.thy ===== *)
theory Proposer
  imports Election Rounds Leadership
begin

section \<open>The proposer\<close>

text \<open>
  The proposer role of \<^verbatim>\<open>paros-core/src/proposer.rs\<close> and of its submodules: one record that holds the
  open election, the repair probe, the Phase-2 rounds, the recovery, the slot allocator and the standing
  authority, and one definition per method. \<open>close_scan\<close> and \<open>resolve_scan\<close> are the loop bodies of
  \<^verbatim>\<open>close_phase1\<close> and \<^verbatim>\<open>resolve_probe\<close>, over the entries in key order.

  The invariant \<open>proposer_ok\<close> is what the assertions scattered over the methods say together; every
  operation keeps it, and under it the assertions hold. The Phase-1 facts are stated per method: when a
  campaign is won, which slots a closed campaign leaves blocked, and what a straggler's page resolves.
\<close>

subsection \<open>Model\<close>

record 'id campaign =
  cm_me :: "'id option"
  cm_ballot :: ballot
  cm_config :: "'id acceptor_config"
  cm_prior :: "'id acceptor_config list"
  cm_from_slot :: slot

record 'v probe_decision =
  pd_slot :: slot
  pd_command :: "'v option"

record ('id, 'v) phase1_outcome =
  po_ballot :: ballot
  po_config :: "'id acceptor_config"
  po_prior :: "'id acceptor_config list"
  po_promised_by :: "'id set"
  po_recovered :: "(slot, ballot \<times> 'v) fmap"
  po_blocked :: "slot set"
  po_highest_reported :: "slot option"

record ('id, 'v) proposer =
  pr_election :: "('id, 'v) election option"
  pr_probe :: "('id, 'v) repair_probe option"
  pr_rounds :: "('id, 'v) rounds"
  pr_recovery :: "'v recovery option"
  pr_next_slot :: slot
  pr_authority :: "'id authority"

definition proposer_default :: "('id, 'v) proposer" where
  "proposer_default = \<lparr>pr_election = None, pr_probe = None, pr_rounds = rounds_default, pr_recovery = None,
     pr_next_slot = 0, pr_authority = authority_default\<rparr>"

definition proposer_assert_invariants :: "('id, 'v) proposer \<Rightarrow> unit option" where
  "proposer_assert_invariants p = do {
     check (case pr_probe p of None \<Rightarrow> True | Some q \<Rightarrow> rp_blocked q \<noteq> {});
     (case pr_recovery p of
        None \<Rightarrow> Some ()
      | Some r \<Rightarrow> do { policy \<leftarrow> rc_policy' r; check (policy = Phase1Backed \<or> rc_blocked r = {}) });
     (if pr_election p \<noteq> None then do {
        check (pr_probe p = None);
        check (pr_recovery p = None)
      } else Some ());
     (case pr_probe p of None \<Rightarrow> Some () | Some q \<Rightarrow> rp_assert_invariants q)
   }"

definition proposer_abandon :: "('id, 'v) proposer \<Rightarrow> ('id, 'v) proposer option" where
  "proposer_abandon p = do {
     let p = p\<lparr>pr_election := None, pr_probe := None, pr_rounds := rounds_clear (pr_rounds p),
               pr_recovery := None, pr_authority := authority_default\<rparr>;
     check (rounds_is_empty (pr_rounds p));
     check (au_fence (pr_authority p) = None);
     Some p
   }"

subsubsection \<open>Phase 1\<close>

definition proposer_election :: "('id, 'v) proposer \<Rightarrow> ('id, 'v) election option option" where
  "proposer_election p = do {
     (if pr_election p \<noteq> None then do {
        check (pr_probe p = None);
        check (pr_recovery p = None)
      } else Some ());
     Some (pr_election p)
   }"

definition open_phase1 ::
  "('id::linorder, 'v) proposer \<Rightarrow> 'id campaign \<Rightarrow> (slot, ballot \<times> 'v) fmap \<Rightarrow> (slot, ballot) fmap \<Rightarrow>
   ('id list \<times> ('id, 'v) proposer) option" where
  "open_phase1 p campaign own_records own_faulty = do {
     check (pr_election p = None);
     check (rounds_is_empty (pr_rounds p));
     check (pr_probe p = None);
     check (pr_recovery p = None);
     let me = cm_me campaign;
     let from_slot = cm_from_slot campaign;
     let recovered = fm_from from_slot own_records;
     let faulty_reports = (case me of None \<Rightarrow> fmempty
       | Some me \<Rightarrow> add_faulty me fmempty (fm_entries (fm_from from_slot own_faulty)));
     promises \<leftarrow> pt_new (cm_ballot campaign) from_slot (set_option me);
     let election = \<lparr>el_promises = promises, el_config = cm_config campaign, el_prior = cm_prior campaign,
                     el_recovered = recovered, el_faulty_reports = faulty_reports\<rparr>;
     targets \<leftarrow> el_targets election me;
     check (card (pt_answered (el_promises election)) = (if me \<noteq> None then 1 else 0));
     check (starts_at from_slot (el_recovered election));
     Some (targets, p\<lparr>pr_election := Some election\<rparr>)
   }"

definition fold_promise ::
  "('id::linorder, 'v) proposer \<Rightarrow> 'id \<Rightarrow> ballot \<Rightarrow> slot \<Rightarrow> (slot, ballot \<times> 'v) fmap \<Rightarrow> (slot, ballot) fmap \<Rightarrow>
   slot option \<Rightarrow> (promise_fold \<times> ('id, 'v) proposer) option" where
  "fold_promise p from ballot from_slot accepted faulty next_from_slot =
     (case pr_election p of
        None \<Rightarrow> Some (Ignored, p)
      | Some e \<Rightarrow> do {
          in_config \<leftarrow> ac_contains (el_config e) from;
          in_prior \<leftarrow> (if in_config then Some True else try_any (\<lambda>c. ac_contains c from) (el_prior e));
          if \<not> in_prior then Some (Ignored, p)
          else do {
            accepts \<leftarrow> pt_accepts (el_promises e) from ballot from_slot accepted faulty next_from_slot;
            if \<not> accepts then Some (Ignored, p)
            else do {
              recovered \<leftarrow> merge_reports (el_recovered e) (fm_entries accepted);
              let e = e\<lparr>el_recovered := recovered,
                        el_faulty_reports := add_faulty from (el_faulty_reports e) (fm_entries faulty)\<rparr>;
              (fold, promises) \<leftarrow> pt_close_page (el_promises e) from next_from_slot;
              let e = e\<lparr>el_promises := promises\<rparr>;
              check (starts_at (pt_from_slot (el_promises e)) (el_recovered e));
              check (starts_at (pt_from_slot (el_promises e)) (el_faulty_reports e));
              Some (fold, p\<lparr>pr_election := Some e\<rparr>)
            }
          }
        })"

definition phase1_won :: "('id::linorder, 'v) proposer \<Rightarrow> ballot \<Rightarrow> bool option" where
  "phase1_won p promise =
     (case pr_election p of
        None \<Rightarrow> Some False
      | Some e \<Rightarrow> do {
          covered \<leftarrow> el_covered e;
          let won = (covered \<and> pt_ballot (el_promises e) \<ge> promise);
          (if won then do {
             (if el_prior e \<noteq> [] then check (pt_answered (el_promises e) \<noteq> {}) else Some ());
             check (pt_ballot (el_promises e) \<ge> promise)
           } else Some ());
          Some won
        })"

fun close_scan ::
  "(slot \<Rightarrow> bool) \<Rightarrow> ('id::linorder, 'v) election \<Rightarrow> (slot \<times> ('id, ballot) fmap) list \<Rightarrow>
   slot set \<times> (slot, ballot \<times> 'v) fmap \<times> (slot, ('id, ballot) fmap) fmap \<Rightarrow>
   (slot set \<times> (slot, ballot \<times> 'v) fmap \<times> (slot, ('id, ballot) fmap) fmap) option" where
  "close_scan is_chosen e [] acc = Some acc"
| "close_scan is_chosen e ((slot, reporters) # rest) (blocked, probe_have, probe_faulty) =
     (if is_chosen slot then close_scan is_chosen e rest (blocked, probe_have, probe_faulty)
      else do {
        let have = fmlookup (el_recovered e) slot;
        let threshold = map_option fst have;
        decidable \<leftarrow> slot_decidable (el_prior e) (pt_answered (el_promises e)) (Some reporters) threshold;
        if decidable then close_scan is_chosen e rest (blocked, probe_have, probe_faulty)
        else close_scan is_chosen e rest
          (insert slot blocked,
           (case have of None \<Rightarrow> probe_have | Some r \<Rightarrow> fmupd slot r probe_have),
           fmupd slot reporters probe_faulty)
      })"

definition close_phase1 ::
  "('id::linorder, 'v) proposer \<Rightarrow> (slot \<Rightarrow> bool) \<Rightarrow> (('id, 'v) phase1_outcome \<times> ('id, 'v) proposer) option" where
  "close_phase1 p is_chosen =
     (case pr_election p of
        None \<Rightarrow> None
      | Some e \<Rightarrow> do {
          let p = p\<lparr>pr_election := None\<rparr>;
          covered \<leftarrow> el_covered e;
          check covered;
          check (pr_probe p = None);
          let p = p\<lparr>pr_rounds := rounds_clear (pr_rounds p)\<rparr>;
          (blocked, probe_have, probe_faulty) \<leftarrow>
            close_scan is_chosen e (fm_entries (el_faulty_reports e)) ({}, fmempty, fmempty);
          let highest_reported = iter_max (fm_keys (el_recovered e) @ fm_keys (el_faulty_reports e));
          check (blocked \<subseteq> fmdom' (el_faulty_reports e));
          p \<leftarrow> (if blocked \<noteq> {} then do {
              promises \<leftarrow> pt_new (pt_ballot (el_promises e)) (pt_from_slot (el_promises e)) (pt_answered (el_promises e));
              Some (p\<lparr>pr_probe := Some \<lparr>rp_promises = promises, rp_prior = el_prior e,
                       rp_faulty_reports = probe_faulty, rp_best_have = probe_have, rp_blocked = blocked,
                       rp_elapsed = 0\<rparr>\<rparr>)
            } else Some p);
          check ((pr_probe p \<noteq> None) \<noteq> (blocked = {}));
          check (rounds_is_empty (pr_rounds p));
          Some (\<lparr>po_ballot = pt_ballot (el_promises e), po_config = el_config e, po_prior = el_prior e,
                 po_promised_by = pt_answered (el_promises e), po_recovered = el_recovered e,
                 po_blocked = blocked, po_highest_reported = highest_reported\<rparr>, p)
        })"

subsubsection \<open>The repair probe\<close>

definition proposer_probe :: "('id, 'v) proposer \<Rightarrow> ('id, 'v) repair_probe option option" where
  "proposer_probe p = do {
     (case pr_probe p of
        None \<Rightarrow> Some ()
      | Some q \<Rightarrow> do { check (pr_election p = None); check (rp_blocked q \<noteq> {}) });
     Some (pr_probe p)
   }"

definition tick_probe :: "('id, 'v) proposer \<Rightarrow> (nat option \<times> ('id, 'v) proposer) option" where
  "tick_probe p =
     (case pr_probe p of
        None \<Rightarrow> Some (None, p)
      | Some q \<Rightarrow> do {
          let q = q\<lparr>rp_elapsed := saturating_add64 (rp_elapsed q) 1\<rparr>;
          check (rp_elapsed q > 0);
          Some (Some (rp_elapsed q), p\<lparr>pr_probe := Some q\<rparr>)
        })"

definition probe_elapsed :: "('id, 'v) proposer \<Rightarrow> nat option option" where
  "probe_elapsed p = do {
     let elapsed = map_option rp_elapsed (pr_probe p);
     check ((elapsed \<noteq> None) = (pr_probe p \<noteq> None));
     (if elapsed \<noteq> None then check (pr_election p = None) else Some ());
     Some elapsed
   }"

definition fold_probe_promise ::
  "('id::linorder, 'v) proposer \<Rightarrow> 'id \<Rightarrow> ballot \<Rightarrow> slot \<Rightarrow> (slot, ballot \<times> 'v) fmap \<Rightarrow> (slot, ballot) fmap \<Rightarrow>
   slot option \<Rightarrow> (promise_fold \<times> ('id, 'v) proposer) option" where
  "fold_probe_promise p from ballot from_slot accepted faulty next_from_slot =
     (case pr_probe p of
        None \<Rightarrow> Some (Ignored, p)
      | Some q \<Rightarrow> do {
          in_prior \<leftarrow> try_any (\<lambda>c. ac_contains c from) (rp_prior q);
          if \<not> in_prior then Some (Ignored, p)
          else do {
            accepts \<leftarrow> pt_accepts (rp_promises q) from ballot from_slot accepted faulty next_from_slot;
            if \<not> accepts then Some (Ignored, p)
            else do {
              best_have \<leftarrow> merge_reports (rp_best_have q)
                 (filter (\<lambda>(slot, _). slot \<in> rp_blocked q) (fm_entries accepted));
              let q = q\<lparr>rp_best_have := best_have,
                        rp_faulty_reports := add_faulty from (rp_faulty_reports q)
                          (filter (\<lambda>(slot, _). slot \<in> rp_blocked q) (fm_entries faulty))\<rparr>;
              (fold, promises) \<leftarrow> pt_close_page (rp_promises q) from next_from_slot;
              let q = q\<lparr>rp_promises := promises\<rparr>;
              rp_assert_invariants q;
              (if fold = Answered then check (from \<in> pt_answered (rp_promises q)) else Some ());
              check (fold \<noteq> Ignored);
              Some (fold, p\<lparr>pr_probe := Some q\<rparr>)
            }
          }
        })"

text \<open>A slot leaves the three tallies of the probe.\<close>

definition rp_forget :: "('id, 'v) repair_probe \<Rightarrow> slot \<Rightarrow> ('id, 'v) repair_probe" where
  "rp_forget q slot = q\<lparr>rp_blocked := rp_blocked q - {slot}, rp_best_have := fmdrop slot (rp_best_have q),
     rp_faulty_reports := fmdrop slot (rp_faulty_reports q)\<rparr>"

fun resolve_scan ::
  "slot list \<Rightarrow> ('id::linorder, 'v) repair_probe \<Rightarrow> 'v probe_decision list \<Rightarrow>
   ('v probe_decision list \<times> ('id, 'v) repair_probe) option" where
  "resolve_scan [] q decisions = Some (decisions, q)"
| "resolve_scan (slot # slots) q decisions = do {
     let have = fmlookup (rp_best_have q) slot;
     let threshold = map_option fst have;
     decidable \<leftarrow> slot_decidable (rp_prior q) (pt_answered (rp_promises q))
        (fmlookup (rp_faulty_reports q) slot) threshold;
     if \<not> decidable then resolve_scan slots q decisions
     else resolve_scan slots (rp_forget q slot)
            (decisions @ [\<lparr>pd_slot = slot, pd_command = map_option snd have\<rparr>])
   }"

definition close_if_drained ::
  "('id, 'v) proposer \<Rightarrow> ('id, 'v) repair_probe \<Rightarrow> ('id, 'v) proposer option" where
  "close_if_drained p q =
     (if rp_blocked q = {} then Some (p\<lparr>pr_probe := None\<rparr>)
      else do { rp_assert_invariants q; Some (p\<lparr>pr_probe := Some q\<rparr>) })"

definition resolve_probe ::
  "('id::linorder, 'v) proposer \<Rightarrow> ('v probe_decision list \<times> ('id, 'v) proposer) option" where
  "resolve_probe p =
     (case pr_probe p of
        None \<Rightarrow> Some ([], p)
      | Some q \<Rightarrow> do {
          (decisions, q) \<leftarrow> resolve_scan (sorted_list_of_set (rp_blocked q)) q [];
          check (list_all (\<lambda>d. pd_slot d \<notin> rp_blocked q) decisions);
          p \<leftarrow> close_if_drained p q;
          Some (decisions, p)
        })"

definition probe_resolved_elsewhere :: "('id, 'v) proposer \<Rightarrow> slot \<Rightarrow> ('id, 'v) proposer option" where
  "probe_resolved_elsewhere p slot =
     (case pr_probe p of
        None \<Rightarrow> Some p
      | Some q \<Rightarrow>
          if slot \<notin> rp_blocked q then Some p
          else do {
            let q = rp_forget q slot;
            check (slot \<notin> rp_blocked q);
            close_if_drained p q
          })"

definition probe_retain_from :: "('id, 'v) proposer \<Rightarrow> slot \<Rightarrow> ('id, 'v) proposer option" where
  "probe_retain_from p first = do {
     p \<leftarrow> (case pr_probe p of
        None \<Rightarrow> Some p
      | Some q \<Rightarrow> do {
          let q = q\<lparr>rp_blocked := {s \<in> rp_blocked q. first \<le> s}, rp_best_have := fm_from first (rp_best_have q),
                    rp_faulty_reports := fm_from first (rp_faulty_reports q)\<rparr>;
          check (case set_first (rp_blocked q) of None \<Rightarrow> True | Some s \<Rightarrow> first \<le> s);
          Some (p\<lparr>pr_probe := (if rp_blocked q = {} then None else Some q)\<rparr>)
        });
     check (case pr_probe p of None \<Rightarrow> True | Some q \<Rightarrow> rp_blocked q \<noteq> {});
     Some p
   }"

subsubsection \<open>The recovery\<close>

definition proposer_recovery :: "('id, 'v) proposer \<Rightarrow> 'v recovery option option" where
  "proposer_recovery p = do {
     (case pr_recovery p of
        None \<Rightarrow> Some ()
      | Some r \<Rightarrow> do { check (pr_election p = None); check (rc_cursor r \<le> rc_end r) });
     Some (pr_recovery p)
   }"

definition set_last :: "'a::linorder set \<Rightarrow> 'a option" where
  "set_last S = (if S = {} then None else Some (Max S))"

definition open_recovery ::
  "('id, 'v) proposer \<Rightarrow> (slot, 'v) fmap \<Rightarrow> slot set \<Rightarrow> slot \<Rightarrow> slot \<Rightarrow> recovery_policy \<Rightarrow>
   ('id, 'v) proposer option" where
  "open_recovery p recovered blocked cursor end policy = do {
     check (pr_recovery p = None);
     (if policy = Inherited then check (blocked = {}) else Some ());
     check (cursor \<le> end);
     check (case set_last blocked of None \<Rightarrow> True | Some s \<Rightarrow> s < end);
     Some (p\<lparr>pr_recovery := Some \<lparr>rc_recovered = recovered, rc_blocked = blocked, rc_cursor = cursor,
              rc_end = end, rc_policy = policy\<rparr>\<rparr>)
   }"

definition recovery_next ::
  "('id, 'v) proposer \<Rightarrow> ((slot \<times> 'v recovery_step) option \<times> ('id, 'v) proposer) option" where
  "recovery_next p =
     (case pr_recovery p of
        None \<Rightarrow> Some (None, p)
      | Some r \<Rightarrow> do { (step, r) \<leftarrow> rc_next r; Some (step, p\<lparr>pr_recovery := Some r\<rparr>) })"

definition recovery_blocked :: "('id, 'v) proposer \<Rightarrow> slot \<Rightarrow> bool option" where
  "recovery_blocked p slot = do {
     blocked \<leftarrow> (case pr_recovery p of None \<Rightarrow> Some False | Some r \<Rightarrow> rc_is_blocked r slot);
     (if blocked then check (case pr_recovery p of None \<Rightarrow> False | Some r \<Rightarrow> rc_policy r = Phase1Backed)
      else Some ());
     Some blocked
   }"

definition recovery_remaining :: "('id, 'v) proposer \<Rightarrow> nat option" where
  "recovery_remaining p = do {
     remaining \<leftarrow> (case pr_recovery p of None \<Rightarrow> Some 0 | Some r \<Rightarrow> rc_remaining r);
     (if pr_recovery p = None then check (remaining = 0) else Some ());
     Some remaining
   }"

definition close_drained_recovery :: "('id, 'v) proposer \<Rightarrow> ('id, 'v) proposer option" where
  "close_drained_recovery p = do {
     remaining \<leftarrow> recovery_remaining p;
     if remaining \<noteq> 0 then Some p
     else (case pr_recovery p of
        None \<Rightarrow> Some p
      | Some r \<Rightarrow> do {
          check (rc_cursor r \<ge> rc_end r);
          check (fm_from (rc_cursor r) (rc_recovered r) = fmempty);
          Some (p\<lparr>pr_recovery := None\<rparr>)
        })
   }"

subsubsection \<open>The slot allocator\<close>

definition proposer_allocate :: "('id, 'v) proposer \<Rightarrow> (slot \<times> ('id, 'v) proposer) option" where
  "proposer_allocate p = do {
     let slot = pr_next_slot p;
     check (slot < u64_max);
     check (fmlookup (rs_by_slot (pr_rounds p)) slot = None);
     Some (slot, p\<lparr>pr_next_slot := slot + 1\<rparr>)
   }"

definition set_next_slot :: "('id, 'v) proposer \<Rightarrow> slot \<Rightarrow> ('id, 'v) proposer option" where
  "set_next_slot p slot = do {
     let p = p\<lparr>pr_next_slot := slot\<rparr>;
     check (pr_next_slot p = slot);
     Some p
   }"

definition raise_next_slot :: "('id, 'v) proposer \<Rightarrow> slot \<Rightarrow> ('id, 'v) proposer option" where
  "raise_next_slot p slot = do {
     let before = pr_next_slot p;
     let p = p\<lparr>pr_next_slot := max (pr_next_slot p) slot\<rparr>;
     check (pr_next_slot p \<ge> slot);
     check (pr_next_slot p \<ge> before);
     Some p
   }"

subsubsection \<open>Phase 2\<close>

definition open_round ::
  "('id, 'v) proposer \<Rightarrow> slot \<Rightarrow> ballot \<Rightarrow> 'v \<Rightarrow> 'id option \<Rightarrow> nat option \<Rightarrow> ('id, 'v) proposer option" where
  "open_round p slot ballot command own_vote column = do {
     check (pr_election p = None);
     rs \<leftarrow> rounds_open (pr_rounds p) slot ballot command own_vote column;
     check (rounds_is_open_at rs slot ballot);
     Some (p\<lparr>pr_rounds := rs\<rparr>)
   }"

definition open_delegated_round ::
  "('id, 'v) proposer \<Rightarrow> slot \<Rightarrow> ballot \<Rightarrow> 'v \<Rightarrow> nat option \<Rightarrow> proxy_id \<Rightarrow> ('id, 'v) proposer option" where
  "open_delegated_round p slot ballot command column proxy = do {
     check (pr_election p = None);
     rs \<leftarrow> rounds_open_delegated (pr_rounds p) slot ballot command column proxy;
     check (rounds_is_open_at rs slot ballot);
     Some (p\<lparr>pr_rounds := rs\<rparr>)
   }"

definition take_back_round ::
  "('id, 'v) proposer \<Rightarrow> slot \<Rightarrow> 'id option \<Rightarrow> (bool \<times> ('id, 'v) proposer) option" where
  "take_back_round p slot own_vote = do {
     (taken, rs) \<leftarrow> rounds_take_back (pr_rounds p) slot own_vote;
     (if taken then check (case fmlookup (rs_by_slot rs) slot of None \<Rightarrow> False | Some r \<Rightarrow> rd_proxy r = None)
      else Some ());
     Some (taken, p\<lparr>pr_rounds := rs\<rparr>)
   }"

definition move_round ::
  "('id::linorder, 'v) proposer \<Rightarrow> 'id acceptor_config \<Rightarrow> slot \<Rightarrow> nat option \<Rightarrow> 'id option \<Rightarrow>
   (bool \<times> ('id, 'v) proposer) option" where
  "move_round p config slot column own_vote = do {
     (did, rs) \<leftarrow> rounds_move_to (pr_rounds p) config slot column own_vote;
     (if did then check (rounds_column rs slot = Some column) else Some ());
     Some (did, p\<lparr>pr_rounds := rs\<rparr>)
   }"

definition stalled_delegations :: "('id, 'v) proposer \<Rightarrow> nat \<Rightarrow> slot list option" where
  "stalled_delegations p after = do {
     stalled \<leftarrow> rounds_stalled_delegations (pr_rounds p) after;
     check (list_all (\<lambda>s. case fmlookup (rs_by_slot (pr_rounds p)) s of None \<Rightarrow> False
                           | Some r \<Rightarrow> rd_resends r \<ge> after) stalled);
     Some stalled
   }"

definition fold_accepted ::
  "('v \<Rightarrow> fingerprint) \<Rightarrow> ('id, 'v) proposer \<Rightarrow> 'id \<Rightarrow> ballot \<Rightarrow> slot \<Rightarrow> fingerprint \<Rightarrow>
   (bool \<times> ('id, 'v) proposer) option" where
  "fold_accepted fp p from ballot slot vhash = do {
     (cnt, rs) \<leftarrow> rounds_fold_accepted fp (pr_rounds p) from ballot slot vhash;
     (if cnt then do {
        check (rounds_is_open_at rs slot ballot);
        check (pr_election p = None)
      } else Some ());
     Some (cnt, p\<lparr>pr_rounds := rs\<rparr>)
   }"

definition fold_accepted_in ::
  "('v \<Rightarrow> fingerprint) \<Rightarrow> ('id::linorder, 'v) proposer \<Rightarrow> 'id acceptor_config \<Rightarrow> 'id \<Rightarrow> ballot \<Rightarrow> slot \<Rightarrow>
   fingerprint \<Rightarrow> (bool \<times> ('id, 'v) proposer) option" where
  "fold_accepted_in fp p config from ballot slot vhash = do {
     (cnt, rs) \<leftarrow> rounds_fold_accepted_in fp (pr_rounds p) config from ballot slot vhash;
     Some (cnt, p\<lparr>pr_rounds := rs\<rparr>)
   }"

definition proposer_decided ::
  "('id::linorder, 'v) proposer \<Rightarrow> slot \<Rightarrow> 'id acceptor_config \<Rightarrow> (ballot \<times> 'v) option option" where
  "proposer_decided p slot config = do {
     decided \<leftarrow> rounds_decided (pr_rounds p) slot config;
     (case decided of
        None \<Rightarrow> Some ()
      | Some (ballot, _) \<Rightarrow> do {
          check (rounds_is_open_at (pr_rounds p) slot ballot);
          check (pr_election p = None)
        });
     Some decided
   }"

definition close_round :: "('id, 'v) proposer \<Rightarrow> slot \<Rightarrow> ('id, 'v) proposer" where
  "close_round p slot = p\<lparr>pr_rounds := rounds_close (pr_rounds p) slot\<rparr>"

definition retain_rounds_from :: "('id, 'v) proposer \<Rightarrow> slot \<Rightarrow> ('id, 'v) proposer option" where
  "retain_rounds_from p first = do {
     rs \<leftarrow> rounds_retain_from (pr_rounds p) first;
     check (starts_at first (rs_by_slot rs));
     Some (p\<lparr>pr_rounds := rs\<rparr>)
   }"

definition resend_page ::
  "('id, 'v) proposer \<Rightarrow> nat \<Rightarrow> ('v pending_accept list \<times> ('id, 'v) proposer) option" where
  "resend_page p limit = do {
     (page, rs) \<leftarrow> rounds_resend_page (pr_rounds p) limit;
     check (length page \<le> limit);
     check (list_all (\<lambda>a. rounds_is_open_at rs (pa_slot a) (pa_ballot a)) page);
     Some (page, p\<lparr>pr_rounds := rs\<rparr>)
   }"

definition proposer_supersedes :: "('id, 'v) proposer \<Rightarrow> ballot \<Rightarrow> slot \<Rightarrow> bool option" where
  "proposer_supersedes p ballot slot = do {
     let campaign = (case pr_election p of None \<Rightarrow> False | Some e \<Rightarrow> pt_ballot (el_promises e) = ballot);
     let round_open = rounds_is_open_at (pr_rounds p) slot ballot;
     (if campaign then check (\<not> round_open) else Some ());
     Some (campaign \<or> round_open)
   }"

subsubsection \<open>The standing authority\<close>

definition proposer_fence :: "('id, 'v) proposer \<Rightarrow> slot option option" where
  "proposer_fence p = do {
     let fence = au_fence (pr_authority p);
     (case fence of None \<Rightarrow> Some ()
      | Some f \<Rightarrow> do { check (f < pr_next_slot p); check (pr_election p = None) });
     Some fence
   }"

definition open_authority ::
  "('id, 'v) proposer \<Rightarrow> slot option \<Rightarrow> 'id option \<Rightarrow> ('id, 'v) proposer option" where
  "open_authority p fence own_vote = do {
     (case fence of None \<Rightarrow> Some () | Some f \<Rightarrow> check (f < pr_next_slot p));
     a \<leftarrow> authority_open (pr_authority p) fence own_vote;
     let p = p\<lparr>pr_authority := a\<rparr>;
     held \<leftarrow> proposer_fence p;
     check (held = fence);
     Some p
   }"

definition renew_authority :: "('id, 'v) proposer \<Rightarrow> 'id option \<Rightarrow> ('id, 'v) proposer option" where
  "renew_authority p own_vote = do {
     check (pr_election p = None);
     let fence = au_fence (pr_authority p);
     a \<leftarrow> authority_renew (pr_authority p) own_vote;
     check (au_fence a = fence);
     Some (p\<lparr>pr_authority := a\<rparr>)
   }"

definition credit_authority :: "('id, 'v) proposer \<Rightarrow> 'id \<Rightarrow> ('id, 'v) proposer option" where
  "credit_authority p from = do {
     check (pr_election p = None);
     a \<leftarrow> authority_credit (pr_authority p) from;
     Some (p\<lparr>pr_authority := a\<rparr>)
   }"

definition tick_authority :: "('id, 'v) proposer \<Rightarrow> (nat \<times> ('id, 'v) proposer) option" where
  "tick_authority p = do {
     check (pr_election p = None);
     (age, a) \<leftarrow> authority_tick (pr_authority p);
     check (age > 0);
     Some (age, p\<lparr>pr_authority := a\<rparr>)
   }"

definition proposer_authority_holds :: "('id::linorder, 'v) proposer \<Rightarrow> 'id acceptor_config \<Rightarrow> bool option" where
  "proposer_authority_holds p config = do {
     well_formed \<leftarrow> ac_is_well_formed config;
     check well_formed;
     holds \<leftarrow> authority_holds (pr_authority p) config;
     (if holds then check (pr_election p = None) else Some ());
     Some holds
   }"

subsection \<open>The invariant\<close>

definition proposer_ok :: "('id::linorder, 'v) proposer \<Rightarrow> bool" where
  "proposer_ok p \<longleftrightarrow>
     (\<forall>e. pr_election p = Some e \<longrightarrow> election_ok e \<and> pr_probe p = None \<and> pr_recovery p = None \<and>
        rounds_is_empty (pr_rounds p) \<and> au_fence (pr_authority p) = None) \<and>
     (\<forall>q. pr_probe p = Some q \<longrightarrow> probe_ok q) \<and>
     (\<forall>r. pr_recovery p = Some r \<longrightarrow> recovery_ok r) \<and>
     authority_ok (pr_authority p) \<and>
     (\<forall>f. au_fence (pr_authority p) = Some f \<longrightarrow> f < pr_next_slot p)"

lemma proposer_okD:
  assumes "proposer_ok p"
  shows "pr_election p = Some e \<Longrightarrow> election_ok e" "pr_election p = Some e \<Longrightarrow> pr_probe p = None"
    "pr_election p = Some e \<Longrightarrow> pr_recovery p = None" "pr_election p = Some e \<Longrightarrow> rounds_is_empty (pr_rounds p)"
    "pr_election p = Some e \<Longrightarrow> au_fence (pr_authority p) = None"
    "pr_probe p = Some q \<Longrightarrow> probe_ok q" "pr_recovery p = Some r \<Longrightarrow> recovery_ok r"
    "authority_ok (pr_authority p)" "au_fence (pr_authority p) = Some f \<Longrightarrow> f < pr_next_slot p"
  using assms by (auto simp: proposer_ok_def)

lemma rounds_is_empty_simps [simp]:
  "rounds_is_empty rounds_default" "rounds_is_empty (rounds_clear rs)"
  by (simp_all add: rounds_is_empty_def rounds_default_def rounds_clear_def)

lemma proposer_ok_default [inv_intros]: "proposer_ok proposer_default"
  by (simp add: proposer_ok_def proposer_default_def authority_ok_simps authority_default_def authority_ok_def)

lemma proposer_assert_total [total_simps]:
  assumes "proposer_ok p"
  shows "proposer_assert_invariants p = Some ()"
proof -
  have rec: "(case pr_recovery p of None \<Rightarrow> Some ()
      | Some r \<Rightarrow> rc_policy' r \<bind> (\<lambda>policy. check (policy = Phase1Backed \<or> rc_blocked r = {}))) = Some ()"
  proof (cases "pr_recovery p")
    case (Some r)
    then have "recovery_ok r" using proposer_okD(7)[OF assms] by blast
    then show ?thesis using Some by (cases "rc_policy r") (auto simp: rc_reads_total recovery_ok_def)
  qed simp
  have probe: "(case pr_probe p of None \<Rightarrow> Some () | Some q \<Rightarrow> rp_assert_invariants q) = Some ()"
    using proposer_okD(6)[OF assms] by (cases "pr_probe p") (simp_all add: rp_assert_total)
  have "(case pr_probe p of None \<Rightarrow> True | Some q \<Rightarrow> rp_blocked q \<noteq> {})"
    using proposer_okD(6)[OF assms] by (cases "pr_probe p") (simp_all add: probe_ok_def)
  then show ?thesis
    using proposer_okD(2,3)[OF assms] rec probe
    by (cases "pr_election p") (simp_all add: proposer_assert_invariants_def)
qed

lemma proposer_abandon_total [total_simps]:
  "proposer_abandon p = Some (p\<lparr>pr_election := None, pr_probe := None, pr_rounds := rounds_clear (pr_rounds p),
     pr_recovery := None, pr_authority := authority_default\<rparr>)"
  by (simp add: proposer_abandon_def authority_default_def)

subsection \<open>Phase 1\<close>

definition opened_election ::
  "'id campaign \<Rightarrow> (slot, ballot \<times> 'v) fmap \<Rightarrow> (slot, ballot) fmap \<Rightarrow> ('id, 'v) election" where
  "opened_election cm own_records own_faulty =
     \<lparr>el_promises = \<lparr>pt_ballot = cm_ballot cm, pt_from_slot = cm_from_slot cm, pt_answered = set_option (cm_me cm),
                     pt_promise_next = fmempty\<rparr>,
      el_config = cm_config cm, el_prior = cm_prior cm, el_recovered = fm_from (cm_from_slot cm) own_records,
      el_faulty_reports = (case cm_me cm of None \<Rightarrow> fmempty
        | Some me \<Rightarrow> add_faulty me fmempty (fm_entries (fm_from (cm_from_slot cm) own_faulty)))\<rparr>"

definition campaign_ok :: "'id::linorder campaign \<Rightarrow> bool" where
  "campaign_ok cm \<longleftrightarrow> config_ok (cm_config cm) \<and> (\<forall>c \<in> set (cm_prior cm). config_ok c)"

lemma add_faulty_entries:
  "fmlookup (add_faulty from reports (fm_entries faulty)) s = (case fmlookup faulty s of
     None \<Rightarrow> fmlookup reports s
   | Some fb \<Rightarrow> Some (fmupd from fb (case fmlookup reports s of None \<Rightarrow> fmempty | Some r \<Rightarrow> r)))"
  by (subst add_faulty_lookup) (simp_all add: map_of_fm_entries)

lemma add_faulty_dom: "fmdom' (add_faulty from reports (fm_entries faulty)) = fmdom' reports \<union> fmdom' faulty"
  by (auto simp: fmdom'_iff add_faulty_entries split: option.splits)

lemma opened_election_ok:
  assumes "campaign_ok cm"
  shows "election_ok (opened_election cm own_records own_faulty)"
  using assms
  by (cases "cm_me cm") (auto simp: opened_election_def election_ok_def campaign_ok_def tally_ok_def add_faulty_dom)

lemma open_phase1_total [total_simps]:
  assumes "campaign_ok cm" "pr_election p = None" "rounds_is_empty (pr_rounds p)" "pr_probe p = None"
    and "pr_recovery p = None"
  shows "open_phase1 p cm own_records own_faulty = Some (filter (\<lambda>n. Some n \<noteq> cm_me cm)
      (sorted_list_of_set (\<Union>c \<in> insert (cm_config cm) (set (cm_prior cm)). set (ac_members c))),
    p\<lparr>pr_election := Some (opened_election cm own_records own_faulty)\<rparr>)"
proof -
  let ?e = "opened_election cm own_records own_faulty"
  have ok: "election_ok ?e" using assms(1) by (rule opened_election_ok)
  have "el_targets ?e (cm_me cm) = Some (filter (\<lambda>n. Some n \<noteq> cm_me cm)
      (sorted_list_of_set (\<Union>c \<in> insert (cm_config cm) (set (cm_prior cm)). set (ac_members c))))"
    using el_targets_total[OF ok] by (simp add: opened_election_def)
  moreover have "starts_at (cm_from_slot cm) (fm_from (cm_from_slot cm) own_records)" by (simp add: starts_at_iff)
  moreover have "card (set_option (cm_me cm)) = (if cm_me cm \<noteq> None then 1 else 0)" by (cases "cm_me cm") simp_all
  ultimately show ?thesis
    using assms(2-5) by (simp add: open_phase1_def pt_new_total Let_def flip: opened_election_def)
qed

definition heard_in :: "('id, 'v) election \<Rightarrow> 'id \<Rightarrow> bool" where
  "heard_in e from \<longleftrightarrow> from \<in> set (ac_members (el_config e)) \<or> (\<exists>c \<in> set (el_prior e). from \<in> set (ac_members c))"

definition folded_election ::
  "('id::linorder, 'v) election \<Rightarrow> 'id \<Rightarrow> (slot, ballot \<times> 'v) fmap \<Rightarrow> (slot, ballot) fmap \<Rightarrow> slot option \<Rightarrow>
   ('id, 'v) election" where
  "folded_election e from accepted faulty next =
     e\<lparr>el_recovered := the (merge_reports (el_recovered e) (fm_entries accepted)),
       el_faulty_reports := add_faulty from (el_faulty_reports e) (fm_entries faulty),
       el_promises := page_closed (el_promises e) from next\<rparr>"

lemma merged_dom:
  assumes "merge_reports tally (fm_entries page) = Some tally'"
  shows "fmdom' tally' = fmdom' tally \<union> fmdom' page"
proof -
  have "\<And>s. votes_agree (fmlookup tally s) (fmlookup page s)" using merge_page_iff[of tally page] assms by blast
  then have "\<And>s. fmlookup tally' s = best_vote (fmlookup tally s) (fmlookup page s)"
    using merge_page[of tally page] assms by (metis option.inject)
  then show ?thesis by (auto simp: fmdom'_iff best_vote_Some_iff simp del: not_None_eq)
qed

lemma folded_election_ok [inv_intros]:
  assumes ok: "election_ok e" and adm: "page_admitted (el_promises e) from b from_slot accepted faulty next"
    and agree: "\<And>s. votes_agree (fmlookup (el_recovered e) s) (fmlookup accepted s)"
  shows "election_ok (folded_election e from accepted faulty next)"
proof -
  obtain rec where rec: "merge_reports (el_recovered e) (fm_entries accepted) = Some rec"
    using merge_page[of "el_recovered e" accepted] agree by blast
  have shape: "promise_page_shape_valid (pt_expected (el_promises e) from) accepted faulty from_slot next"
    and ans: "from \<notin> pt_answered (el_promises e)" using adm by (simp_all add: page_admitted_def)
  have le: "pt_from_slot (el_promises e) \<le> from_slot"
    using pt_expected_ge[OF election_okD(1)[OF ok], of "from"] page_shapeD(1)[OF shape] by simp
  have "tally_ok (page_closed (el_promises e) from next)"
    using election_okD(1)[OF ok] ans page_admitted_advances[OF adm] by (rule page_closed_ok)
  moreover have "pt_from_slot (el_promises e) \<le> s" if "s \<in> fmdom' rec" for s
  proof -
    consider "s \<in> fmdom' (el_recovered e)" | r where "fmlookup accepted s = Some r"
      using \<open>s \<in> fmdom' rec\<close> merged_dom[OF rec] by (auto simp: fmdom'_iff)
    then show ?thesis
    proof cases
      case 1
      then show ?thesis using election_okD(4)[OF ok] by blast
    next
      case 2
      then show ?thesis using page_shapeD(2)[OF shape] le order_trans by blast
    qed
  qed
  moreover have "pt_from_slot (el_promises e) \<le> s"
    if dom: "s \<in> fmdom' (add_faulty from (el_faulty_reports e) (fm_entries faulty))" for s
  proof -
    consider "s \<in> fmdom' (el_faulty_reports e)" | r where "fmlookup faulty s = Some r"
      using dom unfolding add_faulty_dom by (auto simp: fmdom'_iff)
    then show ?thesis
    proof cases
      case 1
      then show ?thesis using election_okD(5)[OF ok] by blast
    next
      case 2
      then show ?thesis using page_shapeD(3)[OF shape] le order_trans by blast
    qed
  qed
  ultimately show ?thesis
    using election_okD(2,3)[OF ok] by (auto simp: election_ok_def folded_election_def rec)
qed

lemma heard_in_total:
  assumes "election_ok e"
  shows "ac_contains (el_config e) from = Some (from \<in> set (ac_members (el_config e)))"
    "(if from \<in> set (ac_members (el_config e)) then Some True
      else try_any (\<lambda>c. ac_contains c from) (el_prior e)) = Some (heard_in e from)"
proof -
  show "ac_contains (el_config e) from = Some (from \<in> set (ac_members (el_config e)))"
    using election_okD(2)[OF assms] by (rule ac_contains_total)
  have "try_any (\<lambda>c. ac_contains c from) (el_prior e) = Some (\<exists>c \<in> set (el_prior e). from \<in> set (ac_members c))"
    using election_okD(3)[OF assms] by (intro try_any_total) (simp add: ac_contains_total)
  then show "(if from \<in> set (ac_members (el_config e)) then Some True
      else try_any (\<lambda>c. ac_contains c from) (el_prior e)) = Some (heard_in e from)"
    by (simp add: heard_in_def)
qed

lemma fold_promise_total [total_simps]:
  assumes ok: "election_ok e" "pr_election p = Some e"
  shows "fold_promise p from b from_slot accepted faulty next =
    (if \<not> heard_in e from \<or> \<not> page_admitted (el_promises e) from b from_slot accepted faulty next
     then Some (Ignored, p)
     else if \<forall>s. votes_agree (fmlookup (el_recovered e) s) (fmlookup accepted s)
     then Some (case next of None \<Rightarrow> Answered | Some k \<Rightarrow> Continue k,
                p\<lparr>pr_election := Some (folded_election e from accepted faulty next)\<rparr>)
     else None)"
proof -
  have start: "fold_promise p from b from_slot accepted faulty next =
      (if \<not> heard_in e from \<or> \<not> page_admitted (el_promises e) from b from_slot accepted faulty next
       then Some (Ignored, p)
       else do {
         recovered \<leftarrow> merge_reports (el_recovered e) (fm_entries accepted);
         let e = e\<lparr>el_recovered := recovered,
                   el_faulty_reports := add_faulty from (el_faulty_reports e) (fm_entries faulty)\<rparr>;
         (fold, promises) \<leftarrow> pt_close_page (el_promises e) from next;
         let e = e\<lparr>el_promises := promises\<rparr>;
         check (starts_at (pt_from_slot (el_promises e)) (el_recovered e));
         check (starts_at (pt_from_slot (el_promises e)) (el_faulty_reports e));
         Some (fold, p\<lparr>pr_election := Some e\<rparr>)
       })"
    by (simp add: fold_promise_def ok(2) heard_in_total[OF ok(1)] pt_accepts_total[OF election_okD(1)[OF ok(1)]])
  show ?thesis
  proof (cases "\<not> heard_in e from \<or> \<not> page_admitted (el_promises e) from b from_slot accepted faulty next")
    case True
    then show ?thesis by (simp add: start)
  next
    case False
    then have adm: "page_admitted (el_promises e) from b from_slot accepted faulty next" by simp
    show ?thesis
    proof (cases "\<forall>s. votes_agree (fmlookup (el_recovered e) s) (fmlookup accepted s)")
      case agree: True
      obtain rec where rec: "merge_reports (el_recovered e) (fm_entries accepted) = Some rec"
        using merge_page[of "el_recovered e" accepted] agree by blast
      have ok': "election_ok (folded_election e from accepted faulty next)"
        using agree by (intro folded_election_ok[OF ok(1) adm]) simp
      have close: "pt_close_page (el_promises e) from next =
          Some (case next of None \<Rightarrow> Answered | Some k \<Rightarrow> Continue k, page_closed (el_promises e) from next)"
        using election_okD(1)[OF ok(1)] adm page_admitted_advances[OF adm]
        by (intro pt_close_page_total) (simp_all add: page_admitted_def)
      have e': "folded_election e from accepted faulty next = e\<lparr>el_recovered := rec,
          el_faulty_reports := add_faulty from (el_faulty_reports e) (fm_entries faulty),
          el_promises := page_closed (el_promises e) from next\<rparr>"
        by (simp add: folded_election_def rec)
      show ?thesis
        using False agree election_okD(4,5)[OF ok'] by (simp add: start rec close starts_at_iff e')
    next
      case disagree: False
      then have "merge_reports (el_recovered e) (fm_entries accepted) = None"
        using merge_page_iff[of "el_recovered e" accepted] by (meson option.exhaust)
      then show ?thesis using False disagree by (simp add: start)
    qed
  qed
qed

lemma phase1_won_total [total_simps]:
  assumes "election_ok e" "pr_election p = Some e"
  shows "phase1_won p promise = Some ((\<forall>c \<in> set (el_prior e). config_phase1 c (pt_answered (el_promises e))) \<and>
    promise \<le> pt_ballot (el_promises e))"
proof -
  have "pt_answered (el_promises e) \<noteq> {}"
    if "el_prior e \<noteq> []" "\<forall>c \<in> set (el_prior e). config_phase1 c (pt_answered (el_promises e))"
  proof -
    have hd: "hd (el_prior e) \<in> set (el_prior e)" using that(1) by simp
    then show ?thesis using acq.Q1_nonempty election_okD(3)[OF assms(1) hd] that(2) by blast
  qed
  then show ?thesis using assms(2) by (auto simp: phase1_won_def el_covered_total[OF assms(1)] Let_def)
qed

text \<open>The slots a closing campaign leaves to the repair probe: reported faulty, not chosen here, and
  without a full Phase-1 quorum of qualifying answers in some prior configuration.\<close>

definition undecided :: "('id::linorder, 'v) election \<Rightarrow> slot \<Rightarrow> ('id, ballot) fmap \<Rightarrow> bool" where
  "undecided e s r \<longleftrightarrow> (\<exists>c \<in> set (el_prior e). \<not> config_phase1 c
     {node \<in> pt_answered (el_promises e). qualifies (Some r) (map_option fst (fmlookup (el_recovered e) s)) node})"

definition blocked_by :: "('id::linorder, 'v) election \<Rightarrow> (slot \<Rightarrow> bool) \<Rightarrow> slot \<Rightarrow> bool" where
  "blocked_by e is_chosen s \<longleftrightarrow>
     (\<exists>r. fmlookup (el_faulty_reports e) s = Some r \<and> \<not> is_chosen s \<and> undecided e s r)"

lemma close_scan_total:
  assumes "election_ok e" "distinct (map fst rs)"
  shows "\<exists>B H F. close_scan is_chosen e rs (B0, H0, F0) = Some (B, H, F) \<and>
    B = B0 \<union> {s. \<exists>r. (s, r) \<in> set rs \<and> \<not> is_chosen s \<and> undecided e s r} \<and>
    fmdom' H \<subseteq> fmdom' H0 \<union> B \<and> fmdom' F \<subseteq> fmdom' F0 \<union> B \<and>
    (\<forall>s r. (s, r) \<in> set rs \<longrightarrow> \<not> is_chosen s \<longrightarrow> undecided e s r \<longrightarrow>
       fmlookup F s = Some r \<and> (fmlookup H0 s = None \<longrightarrow> fmlookup H s = fmlookup (el_recovered e) s)) \<and>
    (\<forall>s. s \<notin> fst ` set rs \<longrightarrow> fmlookup F s = fmlookup F0 s \<and> fmlookup H s = fmlookup H0 s)"
  using assms(2)
proof (induction rs arbitrary: B0 H0 F0)
  case (Cons x rs)
  obtain slot reps where x: "x = (slot, reps)" by force
  have dist: "distinct (map fst rs)" and fresh: "slot \<notin> fst ` set rs" using Cons.prems by (simp_all add: x)
  have dec: "slot_decidable (el_prior e) (pt_answered (el_promises e)) (Some reps)
      (map_option fst (fmlookup (el_recovered e) slot)) = Some (\<not> undecided e slot reps)"
    using election_okD(3,6)[OF assms(1)] by (subst slot_decidable_total) (auto simp: undecided_def)
  let ?H = "case fmlookup (el_recovered e) slot of None \<Rightarrow> H0 | Some r \<Rightarrow> fmupd slot r H0"
  show ?case
  proof (cases "is_chosen slot \<or> \<not> undecided e slot reps")
    case True
    then have step: "close_scan is_chosen e (x # rs) (B0, H0, F0) = close_scan is_chosen e rs (B0, H0, F0)"
      using dec by (auto simp: x)
    have "{s. \<exists>r. (s, r) \<in> set (x # rs) \<and> \<not> is_chosen s \<and> undecided e s r} =
        {s. \<exists>r. (s, r) \<in> set rs \<and> \<not> is_chosen s \<and> undecided e s r}" using True by (auto simp: x)
    with Cons.IH[OF dist, of B0 H0 F0] step show ?thesis using True fresh by (fastforce simp: x)
  next
    case False
    then have step: "close_scan is_chosen e (x # rs) (B0, H0, F0) =
        close_scan is_chosen e rs (insert slot B0, ?H, fmupd slot reps F0)"
      using dec by (simp add: x)
    obtain B H F where IH: "close_scan is_chosen e rs (insert slot B0, ?H, fmupd slot reps F0) = Some (B, H, F)"
      "B = insert slot B0 \<union> {s. \<exists>r. (s, r) \<in> set rs \<and> \<not> is_chosen s \<and> undecided e s r}"
      "fmdom' H \<subseteq> fmdom' ?H \<union> B" "fmdom' F \<subseteq> fmdom' (fmupd slot reps F0) \<union> B"
      "\<And>s r. (s, r) \<in> set rs \<Longrightarrow> \<not> is_chosen s \<Longrightarrow> undecided e s r \<Longrightarrow>
         fmlookup F s = Some r \<and> (fmlookup ?H s = None \<longrightarrow> fmlookup H s = fmlookup (el_recovered e) s)"
      "\<And>s. s \<notin> fst ` set rs \<Longrightarrow> fmlookup F s = fmlookup (fmupd slot reps F0) s \<and> fmlookup H s = fmlookup ?H s"
      using Cons.IH[OF dist, of "insert slot B0" ?H "fmupd slot reps F0"] by blast
    have H: "fmlookup ?H s = (if s = slot \<and> fmlookup (el_recovered e) slot \<noteq> None
        then fmlookup (el_recovered e) slot else fmlookup H0 s)" for s
      by (simp split: option.split)
    have doms: "fmdom' H \<subseteq> fmdom' H0 \<union> B" "fmdom' F \<subseteq> fmdom' F0 \<union> B"
      using IH(2-4) by (auto split: option.splits)
    have B: "B = B0 \<union> {s. \<exists>r. (s, r) \<in> set (x # rs) \<and> \<not> is_chosen s \<and> undecided e s r}"
      using IH(2) False by (auto simp: x)
    have here: "fmlookup F slot = Some reps \<and> (fmlookup H0 slot = None \<longrightarrow> fmlookup H slot = fmlookup (el_recovered e) slot)"
      using IH(6)[OF fresh] by (auto simp: H)
    have "fmlookup F s = Some r \<and> (fmlookup H0 s = None \<longrightarrow> fmlookup H s = fmlookup (el_recovered e) s)"
      if "(s, r) \<in> set (x # rs)" "\<not> is_chosen s" "undecided e s r" for s r
    proof (cases "s = slot")
      case True
      then show ?thesis using here that(1) fresh by (auto simp: x rev_image_eqI)
    next
      case False
      then show ?thesis using IH(5)[of s r] that by (auto simp: x H)
    qed
    moreover have "fmlookup F s = fmlookup F0 s \<and> fmlookup H s = fmlookup H0 s" if "s \<notin> fst ` set (x # rs)" for s
      using IH(6)[of s] that by (auto simp: x H)
    ultimately show ?thesis using step IH(1) B doms by auto
  qed
qed auto

definition closed_outcome ::
  "('id::linorder, 'v) election \<Rightarrow> (slot \<Rightarrow> bool) \<Rightarrow> ('id, 'v) phase1_outcome" where
  "closed_outcome e is_chosen = \<lparr>po_ballot = pt_ballot (el_promises e), po_config = el_config e,
     po_prior = el_prior e, po_promised_by = pt_answered (el_promises e), po_recovered = el_recovered e,
     po_blocked = {s. blocked_by e is_chosen s},
     po_highest_reported = iter_max (fm_keys (el_recovered e) @ fm_keys (el_faulty_reports e))\<rparr>"

text \<open>The probe a closing campaign opens.\<close>

definition probe_of :: "('id::linorder, 'v) election \<Rightarrow> (slot \<Rightarrow> bool) \<Rightarrow> ('id, 'v) repair_probe \<Rightarrow> bool" where
  "probe_of e is_chosen q \<longleftrightarrow> rp_blocked q = {s. blocked_by e is_chosen s} \<and> rp_prior q = el_prior e \<and>
     rp_elapsed q = 0 \<and>
     rp_promises q = \<lparr>pt_ballot = pt_ballot (el_promises e), pt_from_slot = pt_from_slot (el_promises e),
       pt_answered = pt_answered (el_promises e), pt_promise_next = fmempty\<rparr> \<and>
     fmdom' (rp_best_have q) \<subseteq> rp_blocked q \<and> fmdom' (rp_faulty_reports q) \<subseteq> rp_blocked q \<and>
     (\<forall>s \<in> rp_blocked q. fmlookup (rp_best_have q) s = fmlookup (el_recovered e) s \<and>
        fmlookup (rp_faulty_reports q) s = fmlookup (el_faulty_reports e) s)"

lemma blocked_by_dom: "{s. blocked_by e is_chosen s} \<subseteq> fmdom' (el_faulty_reports e)"
  by (auto simp: blocked_by_def fmdom'_iff)

lemma probe_of_ok:
  assumes "election_ok e" "probe_of e is_chosen q" "rp_blocked q \<noteq> {}"
  shows "probe_ok q"
proof -
  have "rp_blocked q \<subseteq> fmdom' (el_faulty_reports e)" using assms(2) blocked_by_dom by (auto simp: probe_of_def)
  moreover from this have "finite (rp_blocked q)" by (rule finite_subset) simp
  ultimately show ?thesis
    using assms election_okD(3,5,6)[OF assms(1)] by (auto simp: probe_ok_def probe_of_def tally_ok_def)
qed

lemma close_phase1_total:
  assumes ok: "election_ok e" "pr_election p = Some e" "pr_probe p = None"
    and cov: "\<forall>c \<in> set (el_prior e). config_phase1 c (pt_answered (el_promises e))"
  shows "\<exists>probe. close_phase1 p is_chosen = Some (closed_outcome e is_chosen,
      p\<lparr>pr_election := None, pr_rounds := rounds_clear (pr_rounds p), pr_probe := probe\<rparr>) \<and>
    (probe = None \<longleftrightarrow> (\<forall>s. \<not> blocked_by e is_chosen s)) \<and>
    (\<forall>q. probe = Some q \<longrightarrow> probe_of e is_chosen q)"
proof -
  let ?B = "{s. blocked_by e is_chosen s}"
  have dist: "distinct (map fst (fm_entries (el_faulty_reports e)))" by simp
  have B: "{s. \<exists>r. (s, r) \<in> set (fm_entries (el_faulty_reports e)) \<and> \<not> is_chosen s \<and> undecided e s r} = ?B"
    by (simp add: blocked_by_def)
  obtain H F where scan: "close_scan is_chosen e (fm_entries (el_faulty_reports e)) ({}, fmempty, fmempty) = Some (?B, H, F)"
    "fmdom' H \<subseteq> ?B" "fmdom' F \<subseteq> ?B"
    "\<And>s r. fmlookup (el_faulty_reports e) s = Some r \<Longrightarrow> \<not> is_chosen s \<Longrightarrow> undecided e s r \<Longrightarrow>
       fmlookup F s = Some r \<and> fmlookup H s = fmlookup (el_recovered e) s"
    using close_scan_total[OF ok(1) dist, of is_chosen "{}" fmempty fmempty] unfolding B by auto
  define q where "q = \<lparr>rp_promises = \<lparr>pt_ballot = pt_ballot (el_promises e), pt_from_slot = pt_from_slot (el_promises e),
       pt_answered = pt_answered (el_promises e), pt_promise_next = fmempty\<rparr>, rp_prior = el_prior e,
     rp_faulty_reports = F, rp_best_have = H, rp_blocked = ?B, rp_elapsed = 0\<rparr>"
  have "fmlookup H s = fmlookup (el_recovered e) s \<and> fmlookup F s = fmlookup (el_faulty_reports e) s"
    if "blocked_by e is_chosen s" for s using that scan(4)[of s] by (auto simp: blocked_by_def)
  then have q: "probe_of e is_chosen q" using scan(2,3) by (simp add: probe_of_def q_def)
  have "close_phase1 p is_chosen = Some (closed_outcome e is_chosen,
      p\<lparr>pr_election := None, pr_rounds := rounds_clear (pr_rounds p), pr_probe := if ?B = {} then None else Some q\<rparr>)"
  proof (cases "?B = {}")
    case True
    then have "p\<lparr>pr_election := None, pr_rounds := rounds_clear (pr_rounds p)\<rparr> =
        p\<lparr>pr_election := None, pr_rounds := rounds_clear (pr_rounds p), pr_probe := None\<rparr>"
      using ok(3) by (cases p) simp
    then show ?thesis
      using scan(1) cov ok(3) unfolding close_phase1_def ok(2) closed_outcome_def True
      by (simp add: el_covered_total[OF ok(1)] Let_def)
  next
    case False
    then show ?thesis
      using blocked_by_dom[of e is_chosen] cov ok(3) unfolding close_phase1_def ok(2)
      by (simp add: el_covered_total[OF ok(1)] scan(1) pt_new_total closed_outcome_def q_def Let_def)
  qed
  then show ?thesis using q by (intro exI[of _ "if ?B = {} then None else Some q"]) auto
qed

subsection \<open>The repair probe\<close>

definition rp_decidable :: "('id::linorder, 'v) repair_probe \<Rightarrow> slot \<Rightarrow> bool" where
  "rp_decidable q s \<longleftrightarrow> (\<forall>c \<in> set (rp_prior q). config_phase1 c
     {node \<in> pt_answered (rp_promises q).
        qualifies (fmlookup (rp_faulty_reports q) s) (map_option fst (fmlookup (rp_best_have q) s)) node})"

definition rp_forget_all :: "('id, 'v) repair_probe \<Rightarrow> slot set \<Rightarrow> ('id, 'v) repair_probe" where
  "rp_forget_all q S = q\<lparr>rp_blocked := rp_blocked q - S, rp_best_have := fmdrop_set S (rp_best_have q),
     rp_faulty_reports := fmdrop_set S (rp_faulty_reports q)\<rparr>"

definition decision_at :: "('id, 'v) repair_probe \<Rightarrow> slot \<Rightarrow> 'v probe_decision" where
  "decision_at q s = \<lparr>pd_slot = s, pd_command = map_option snd (fmlookup (rp_best_have q) s)\<rparr>"

lemma rp_forget_eq: "rp_forget q s = rp_forget_all q {s}"
  by (simp add: rp_forget_def rp_forget_all_def)

lemma rp_forget_all_simps [simp]:
  "rp_blocked (rp_forget_all q S) = rp_blocked q - S" "rp_prior (rp_forget_all q S) = rp_prior q"
  "rp_promises (rp_forget_all q S) = rp_promises q" "rp_elapsed (rp_forget_all q S) = rp_elapsed q"
  "fmlookup (rp_best_have (rp_forget_all q S)) s = (if s \<in> S then None else fmlookup (rp_best_have q) s)"
  "fmlookup (rp_faulty_reports (rp_forget_all q S)) s = (if s \<in> S then None else fmlookup (rp_faulty_reports q) s)"
  by (simp_all add: rp_forget_all_def)

lemma rp_forget_all_Un: "rp_forget_all (rp_forget_all q A) B = rp_forget_all q (A \<union> B)"
  by (simp add: rp_forget_all_def set_diff_eq Un_commute)

lemma rp_forget_all_empty [simp]: "rp_forget_all q {} = q"
  by (cases q) (simp add: rp_forget_all_def)

lemma rp_forget_all_ok [inv_intros]:
  assumes "probe_ok q" "rp_blocked q - S \<noteq> {}"
  shows "probe_ok (rp_forget_all q S)"
  using assms probe_okD[OF assms(1)] by (auto simp: probe_ok_def rp_forget_all_def)

lemma rp_decidable_forget [simp]: "s \<notin> S \<Longrightarrow> rp_decidable (rp_forget_all q S) s = rp_decidable q s"
  by (simp add: rp_decidable_def)

lemma resolve_scan_total:
  assumes "\<And>c. c \<in> set (rp_prior q) \<Longrightarrow> config_ok c" "finite (pt_answered (rp_promises q))" "distinct slots"
  shows "resolve_scan slots q ds = Some (ds @ map (decision_at q) (filter (rp_decidable q) slots),
    rp_forget_all q {s \<in> set slots. rp_decidable q s})"
  using assms
proof (induction slots arbitrary: q ds)
  case (Cons slot slots)
  have dec: "slot_decidable (rp_prior q) (pt_answered (rp_promises q)) (fmlookup (rp_faulty_reports q) slot)
      (map_option fst (fmlookup (rp_best_have q) slot)) = Some (rp_decidable q slot)"
    using Cons.prems by (simp add: slot_decidable_total rp_decidable_def)
  show ?case
  proof (cases "rp_decidable q slot")
    case True
    let ?q = "rp_forget_all q {slot}"
    have fresh: "slot \<notin> set slots" "distinct slots" using Cons.prems(3) by simp_all
    have dq: "rp_decidable ?q s = rp_decidable q s" if "s \<in> set slots" for s
      using that fresh by (intro rp_decidable_forget) auto
    have same: "filter (rp_decidable ?q) slots = filter (rp_decidable q) slots" using dq by (rule filter_cong[OF refl])
    have same': "map (decision_at ?q) (filter (rp_decidable q) slots) = map (decision_at q) (filter (rp_decidable q) slots)"
      using fresh by (auto simp: decision_at_def)
    have "{s \<in> set slots. rp_decidable ?q s} = {s \<in> set slots. rp_decidable q s}" using dq by blast
    moreover have "{slot} \<union> {s \<in> set slots. rp_decidable q s} = {s \<in> set (slot # slots). rp_decidable q s}"
      using True by auto
    ultimately have "rp_forget_all ?q {s \<in> set slots. rp_decidable ?q s} =
        rp_forget_all q {s \<in> set (slot # slots). rp_decidable q s}"
      by (simp only: rp_forget_all_Un)
    with Cons.IH[of ?q "ds @ [decision_at q slot]"] Cons.prems(1,2) fresh(2) same same' True dec
    show ?thesis by (simp add: rp_forget_eq decision_at_def)
  next
    case False
    then have "{s \<in> set (slot # slots). rp_decidable q s} = {s \<in> set slots. rp_decidable q s}" by auto
    with Cons.IH[of q ds] Cons.prems False dec show ?thesis by simp
  qed
qed simp

lemma close_if_drained_total:
  assumes "probe_ok q"
  shows "close_if_drained p (rp_forget_all q S) =
    Some (p\<lparr>pr_probe := if rp_blocked q \<subseteq> S then None else Some (rp_forget_all q S)\<rparr>)"
proof (cases "rp_blocked q \<subseteq> S")
  case False
  then have "probe_ok (rp_forget_all q S)" using assms by (intro rp_forget_all_ok) auto
  then show ?thesis using False by (auto simp: close_if_drained_def rp_assert_total)
qed (simp add: close_if_drained_def)

lemma resolve_probe_total [total_simps]:
  assumes "probe_ok q" "pr_probe p = Some q"
  shows "resolve_probe p =
    Some (map (decision_at q) (filter (rp_decidable q) (sorted_list_of_set (rp_blocked q))),
      p\<lparr>pr_probe := if \<forall>s \<in> rp_blocked q. rp_decidable q s then None
          else Some (rp_forget_all q {s \<in> rp_blocked q. rp_decidable q s})\<rparr>)"
proof -
  note ok = probe_okD[OF assms(1)]
  let ?S = "{s \<in> rp_blocked q. rp_decidable q s}"
  have scan: "resolve_scan (sorted_list_of_set (rp_blocked q)) q [] =
      Some (map (decision_at q) (filter (rp_decidable q) (sorted_list_of_set (rp_blocked q))), rp_forget_all q ?S)"
    using resolve_scan_total[of q "sorted_list_of_set (rp_blocked q)" "[]"] ok(2,3,8) by simp
  have "(rp_blocked q \<subseteq> ?S) = (\<forall>s \<in> rp_blocked q. rp_decidable q s)" by auto
  moreover have "list_all (\<lambda>d. pd_slot d \<notin> rp_blocked (rp_forget_all q ?S))
      (map (decision_at q) (filter (rp_decidable q) (sorted_list_of_set (rp_blocked q))))"
    using ok(3) by (auto simp: list_all_iff decision_at_def)
  ultimately show ?thesis
    using close_if_drained_total[OF assms(1), of p ?S] by (simp add: resolve_probe_def assms(2) scan)
qed

lemma probe_resolved_elsewhere_total [total_simps]:
  assumes "probe_ok q" "pr_probe p = Some q"
  shows "probe_resolved_elsewhere p slot =
    Some (if slot \<in> rp_blocked q then p\<lparr>pr_probe := if rp_blocked q \<subseteq> {slot} then None else Some (rp_forget_all q {slot})\<rparr>
      else p)"
  using close_if_drained_total[OF assms(1), of p "{slot}"]
  by (simp add: probe_resolved_elsewhere_def assms(2) rp_forget_eq)

lemma fm_from_forget: "fm_from first m = fmdrop_set {s. s < first} (m :: (slot, 'x) fmap)"
  by (rule fmap_ext) (auto simp: not_less)

lemma probe_retain_from_total [total_simps]:
  assumes "probe_ok q" "pr_probe p = Some q"
  shows "probe_retain_from p first =
    Some (p\<lparr>pr_probe := if \<forall>s \<in> rp_blocked q. s < first then None else Some (rp_forget_all q {s. s < first})\<rparr>)"
proof -
  have b: "{s \<in> rp_blocked q. first \<le> s} = rp_blocked q - {s. s < first}" by auto
  have fin: "finite (rp_blocked q)" using assms(1) by (rule probe_okD)
  have q: "q\<lparr>rp_blocked := {s \<in> rp_blocked q. first \<le> s}, rp_best_have := fm_from first (rp_best_have q),
      rp_faulty_reports := fm_from first (rp_faulty_reports q)\<rparr> = rp_forget_all q {s. s < first}"
    by (simp add: rp_forget_all_def fm_from_forget b)
  have "(case set_first (rp_blocked (rp_forget_all q {s. s < first})) of None \<Rightarrow> True | Some s \<Rightarrow> first \<le> s)"
    using fin by (subst set_first_is_none_or) auto
  moreover have "(rp_blocked q - {s. s < first} = {}) = (\<forall>s \<in> rp_blocked q. s < first)" by auto
  ultimately show ?thesis by (auto simp: probe_retain_from_def assms(2) q Let_def)
qed

definition folded_probe ::
  "('id::linorder, 'v) repair_probe \<Rightarrow> 'id \<Rightarrow> (slot, ballot \<times> 'v) fmap \<Rightarrow> (slot, ballot) fmap \<Rightarrow> slot option \<Rightarrow>
   ('id, 'v) repair_probe \<Rightarrow> bool" where
  "folded_probe q from accepted faulty next q' \<longleftrightarrow>
     rp_promises q' = page_closed (rp_promises q) from next \<and> rp_prior q' = rp_prior q \<and>
     rp_blocked q' = rp_blocked q \<and> rp_elapsed q' = rp_elapsed q \<and>
     (\<forall>s. fmlookup (rp_best_have q') s = (if s \<in> rp_blocked q
        then best_vote (fmlookup (rp_best_have q) s) (fmlookup accepted s) else fmlookup (rp_best_have q) s)) \<and>
     (\<forall>s. fmlookup (rp_faulty_reports q') s = (case fmlookup faulty s of
        Some fb \<Rightarrow> if s \<in> rp_blocked q
          then Some (fmupd from fb (case fmlookup (rp_faulty_reports q) s of None \<Rightarrow> fmempty | Some r \<Rightarrow> r))
          else fmlookup (rp_faulty_reports q) s
      | None \<Rightarrow> fmlookup (rp_faulty_reports q) s))"

lemma map_of_filter_fst: "distinct (map fst xs) \<Longrightarrow>
  map_of (filter (\<lambda>(k, _). P k) xs) k = (if P k then map_of xs k else None)"
  by (induction xs) (auto simp: map_of_eq_None_iff)

lemma folded_probe_ok [inv_intros]:
  assumes "probe_ok q" "folded_probe q from accepted faulty next q'" "from \<notin> pt_answered (rp_promises q)"
    and "\<And>k. next = Some k \<Longrightarrow> pt_expected (rp_promises q) from < k"
  shows "probe_ok q'"
proof -
  note ok = probe_okD[OF assms(1)]
  have "tally_ok (page_closed (rp_promises q) from next)" using ok(1) assms(3,4) by (rule page_closed_ok)
  moreover have "fmdom' (rp_best_have q') \<subseteq> rp_blocked q" "fmdom' (rp_faulty_reports q') \<subseteq> rp_blocked q"
    using ok(6,7) assms(2) unfolding folded_probe_def
    by (auto simp: fmdom'_iff subset_iff split: if_splits option.splits)
  ultimately show ?thesis using ok assms(2) by (auto simp: probe_ok_def folded_probe_def)
qed

lemma fold_probe_promise_total:
  assumes ok: "probe_ok q" "pr_probe p = Some q"
    and agree: "\<And>s. s \<in> rp_blocked q \<Longrightarrow> votes_agree (fmlookup (rp_best_have q) s) (fmlookup accepted s)"
  shows "\<exists>q'. folded_probe q from accepted faulty next q' \<and>
    fold_probe_promise p from b from_slot accepted faulty next =
      Some (if (\<exists>c \<in> set (rp_prior q). from \<in> set (ac_members c)) \<and>
               page_admitted (rp_promises q) from b from_slot accepted faulty next
            then (case next of None \<Rightarrow> Answered | Some k \<Rightarrow> Continue k, p\<lparr>pr_probe := Some q'\<rparr>)
            else (Ignored, p))"
proof -
  note okd = probe_okD[OF ok(1)]
  have any: "try_any (\<lambda>c. ac_contains c from) (rp_prior q) = Some (\<exists>c \<in> set (rp_prior q). from \<in> set (ac_members c))"
    using okd(2) by (intro try_any_total) (simp add: ac_contains_total)
  let ?acc = "filter (\<lambda>(slot, _). slot \<in> rp_blocked q) (fm_entries accepted)"
  let ?fl = "filter (\<lambda>(slot, _). slot \<in> rp_blocked q) (fm_entries faulty)"
  have look: "map_of ?acc s = (if s \<in> rp_blocked q then fmlookup accepted s else None)"
    "map_of ?fl s = (if s \<in> rp_blocked q then fmlookup faulty s else None)" for s
    by (simp_all add: map_of_filter_fst map_of_fm_entries)
  have dist: "distinct (map fst ?acc)" "distinct (map fst ?fl)"
    by (simp_all add: distinct_map_filter)
  have "votes_agree (fmlookup (rp_best_have q) s) (map_of ?acc s)" for s
    using agree[of s] by (simp add: look votes_agree_def)
  then obtain best where best: "merge_reports (rp_best_have q) ?acc = Some best"
    "\<And>s. fmlookup best s = best_vote (fmlookup (rp_best_have q) s) (map_of ?acc s)"
    using merge_reports_total[OF dist(1), of "rp_best_have q"] by blast
  define q' where "q' = q\<lparr>rp_best_have := best, rp_faulty_reports := add_faulty from (rp_faulty_reports q) ?fl,
      rp_promises := page_closed (rp_promises q) from next\<rparr>"
  have q': "folded_probe q from accepted faulty next q'"
    using dist(2) by (auto simp: folded_probe_def q'_def best(2) look add_faulty_lookup split: option.split)
  moreover have "fold_probe_promise p from b from_slot accepted faulty next =
      Some (case next of None \<Rightarrow> Answered | Some k \<Rightarrow> Continue k, p\<lparr>pr_probe := Some q'\<rparr>)"
    if "\<exists>c \<in> set (rp_prior q). from \<in> set (ac_members c)" "page_admitted (rp_promises q) from b from_slot accepted faulty next"
  proof -
    have adm: "from \<notin> pt_answered (rp_promises q)" "\<And>k. next = Some k \<Longrightarrow> pt_expected (rp_promises q) from < k"
      using that(2) page_admitted_advances[OF that(2)] by (simp_all add: page_admitted_def)
    have "rp_assert_invariants q' = Some ()" using folded_probe_ok[OF ok(1) q' adm] by (rule rp_assert_total)
    moreover have "(case next of None \<Rightarrow> Answered | Some k \<Rightarrow> Continue k) \<noteq> Ignored" by (simp split: option.split)
    moreover have "(case next of None \<Rightarrow> Answered | Some k \<Rightarrow> Continue k) = Answered \<longleftrightarrow> next = None"
      by (simp split: option.split)
    ultimately show ?thesis
      using that pt_close_page_total[OF okd(1) adm] best(1)
      by (auto simp: fold_probe_promise_def ok(2) any pt_accepts_total[OF okd(1)] q'_def Let_def)
  qed
  moreover have "fold_probe_promise p from b from_slot accepted faulty next = Some (Ignored, p)"
    if "\<not> ((\<exists>c \<in> set (rp_prior q). from \<in> set (ac_members c)) \<and>
      page_admitted (rp_promises q) from b from_slot accepted faulty next)"
    using that by (auto simp: fold_probe_promise_def ok(2) any pt_accepts_total[OF okd(1)])
  ultimately show ?thesis by (intro exI[of _ q']) auto
qed

subsection \<open>Every operation keeps the invariant\<close>

text \<open>One rule per operation that changes the proposer. The side conditions are the contract of the
  caller: a campaign and a recovery are over well-formed configurations and ranges, a recovery and a
  frontier are installed by a leadership, never during a campaign.\<close>

inductive proposer_step :: "('v \<Rightarrow> fingerprint) \<Rightarrow> ('id::linorder, 'v) proposer \<Rightarrow> ('id, 'v) proposer \<Rightarrow> bool" for fp where
  abandoned: "proposer_abandon p = Some p' \<Longrightarrow> proposer_step fp p p'"
| campaigned: "campaign_ok cm \<Longrightarrow> au_fence (pr_authority p) = None \<Longrightarrow>
    open_phase1 p cm own_records own_faulty = Some (targets, p') \<Longrightarrow> proposer_step fp p p'"
| promised: "fold_promise p from b from_slot accepted faulty next = Some (fd, p') \<Longrightarrow> proposer_step fp p p'"
| closed: "close_phase1 p is_chosen = Some (outcome, p') \<Longrightarrow> proposer_step fp p p'"
| probe_ticked: "tick_probe p = Some (age, p') \<Longrightarrow> proposer_step fp p p'"
| probe_promised: "fold_probe_promise p from b from_slot accepted faulty next = Some (fd, p') \<Longrightarrow> proposer_step fp p p'"
| probe_resolved: "resolve_probe p = Some (decisions, p') \<Longrightarrow> proposer_step fp p p'"
| probe_elsewhere: "probe_resolved_elsewhere p slot = Some p' \<Longrightarrow> proposer_step fp p p'"
| probe_retained: "probe_retain_from p first = Some p' \<Longrightarrow> proposer_step fp p p'"
| recovery_opened: "open_recovery p recovered blocked cursor end policy = Some p' \<Longrightarrow> pr_election p = None \<Longrightarrow>
    end \<le> u64_max \<Longrightarrow> finite blocked \<Longrightarrow> proposer_step fp p p'"
| recovery_pumped: "recovery_next p = Some (step, p') \<Longrightarrow> proposer_step fp p p'"
| recovery_closed: "close_drained_recovery p = Some p' \<Longrightarrow> proposer_step fp p p'"
| allocated: "proposer_allocate p = Some (slot, p') \<Longrightarrow> proposer_step fp p p'"
| frontier_set: "set_next_slot p slot = Some p' \<Longrightarrow> au_fence (pr_authority p) = None \<Longrightarrow> proposer_step fp p p'"
| frontier_raised: "raise_next_slot p slot = Some p' \<Longrightarrow> proposer_step fp p p'"
| round_opened: "open_round p slot b v own column = Some p' \<Longrightarrow> proposer_step fp p p'"
| round_delegated: "open_delegated_round p slot b v column proxy = Some p' \<Longrightarrow> proposer_step fp p p'"
| round_taken_back: "take_back_round p slot own = Some (taken, p') \<Longrightarrow> proposer_step fp p p'"
| round_moved: "move_round p config slot column own = Some (did, p') \<Longrightarrow> proposer_step fp p p'"
| voted: "fold_accepted fp p from b slot h = Some (cnt, p') \<Longrightarrow> proposer_step fp p p'"
| voted_in: "fold_accepted_in fp p config from b slot h = Some (cnt, p') \<Longrightarrow> proposer_step fp p p'"
| round_closed: "proposer_step fp p (close_round p slot)"
| rounds_retained: "retain_rounds_from p first = Some p' \<Longrightarrow> proposer_step fp p p'"
| resent: "resend_page p limit = Some (page, p') \<Longrightarrow> proposer_step fp p p'"
| authority_opened: "open_authority p fence own = Some p' \<Longrightarrow> proposer_step fp p p'"
| authority_renewed: "renew_authority p own = Some p' \<Longrightarrow> proposer_step fp p p'"
| authority_credited: "credit_authority p from = Some p' \<Longrightarrow> proposer_step fp p p'"
| authority_ticked: "tick_authority p = Some (age, p') \<Longrightarrow> proposer_step fp p p'"

inductive proposer_reachable :: "('v \<Rightarrow> fingerprint) \<Rightarrow> ('id::linorder, 'v) proposer \<Rightarrow> bool" for fp where
  fresh: "proposer_reachable fp proposer_default"
| step: "proposer_reachable fp p \<Longrightarrow> proposer_step fp p p' \<Longrightarrow> proposer_reachable fp p'"

text \<open>An operation on the rounds alone keeps the invariant when a campaign's empty tally stays empty.\<close>

lemma proposer_ok_rounds:
  assumes "proposer_ok p" "rounds_is_empty (pr_rounds p) \<Longrightarrow> rounds_is_empty rs"
  shows "proposer_ok (p\<lparr>pr_rounds := rs\<rparr>)"
  using assms by (auto simp: proposer_ok_def)

lemma proposer_ok_rounds_leader:
  assumes "proposer_ok p" "pr_election p = None"
  shows "proposer_ok (p\<lparr>pr_rounds := rs\<rparr>)"
  using assms by (auto simp: proposer_ok_def)

lemma proposer_ok_probe:
  assumes "proposer_ok p" "pr_probe p = Some q" "\<forall>q'. probe = Some q' \<longrightarrow> probe_ok q'"
  shows "proposer_ok (p\<lparr>pr_probe := probe\<rparr>)"
  using assms by (auto simp: proposer_ok_def)

lemma proposer_ok_recovery:
  assumes "proposer_ok p" "pr_election p = None" "\<forall>r. recovery = Some r \<longrightarrow> recovery_ok r"
  shows "proposer_ok (p\<lparr>pr_recovery := recovery\<rparr>)"
  using assms by (auto simp: proposer_ok_def)

lemma proposer_ok_authority:
  assumes "proposer_ok p" "authority_ok a" "\<forall>f. au_fence a = Some f \<longrightarrow> f < pr_next_slot p \<and> pr_election p = None"
  shows "proposer_ok (p\<lparr>pr_authority := a\<rparr>)"
proof -
  have "au_fence a = None" if "pr_election p = Some e" for e using assms(3) that by (cases "au_fence a") auto
  then show ?thesis using assms by (auto simp: proposer_ok_def)
qed

lemma proposer_ok_election:
  assumes "proposer_ok p" "election_ok e" "pr_probe p = None" "pr_recovery p = None"
    and "rounds_is_empty (pr_rounds p)" "au_fence (pr_authority p) = None"
  shows "proposer_ok (p\<lparr>pr_election := Some e\<rparr>)"
  using assms by (auto simp: proposer_ok_def)

lemma proposer_ok_next_slot:
  "proposer_ok p \<Longrightarrow> (\<forall>f. au_fence (pr_authority p) = Some f \<longrightarrow> f < n) \<Longrightarrow> proposer_ok (p\<lparr>pr_next_slot := n\<rparr>)"
  by (auto simp: proposer_ok_def)

lemma fmfilter_no_entries: "m = fmempty \<Longrightarrow> fmfilter P m = fmempty"
  by (auto intro: fmap_ext)

lemma rounds_empty_kept:
  assumes "rounds_is_empty rs"
  shows "rounds_take_back rs slot own = Some (x, rs') \<Longrightarrow> rounds_is_empty rs'"
    "rounds_move_to rs c slot column own = Some (x, rs') \<Longrightarrow> rounds_is_empty rs'"
    "rounds_fold_accepted fp rs from b slot h = Some (x, rs') \<Longrightarrow> rounds_is_empty rs'"
    "rounds_fold_accepted_in fp rs c from b slot h = Some (x, rs') \<Longrightarrow> rounds_is_empty rs'"
    "rounds_is_empty (rounds_close rs slot)"
    "rounds_retain_from rs first = Some rs' \<Longrightarrow> rounds_is_empty rs'"
  using assms
  by (auto simp: rounds_is_empty_def rounds_take_back_def rounds_move_to_def rounds_fold_accepted_def
      rounds_fold_accepted_in_def rounds_close_def rounds_retain_from_def rounds_column_def Let_def
      fmfilter_no_entries)

lemma resend_empty_kept:
  assumes "rounds_is_empty rs" "rounds_resend_page rs limit = Some (page, rs')"
  shows "rounds_is_empty rs'"
proof -
  have "0 < limit" "limit \<le> RESEND_BATCH" using assms(2) by (auto simp: rounds_resend_page_def)
  then have "rs' = paged rs limit" using assms(2) by (simp add: rounds_resend_page_total)
  then have "fmdom' (rs_by_slot rs') = fmdom' (rs_by_slot rs)" by (simp add: paged_def)
  then show ?thesis using assms(1) by (simp add: rounds_is_empty_def)
qed

lemma close_phase1_ok:
  assumes "proposer_ok p" "close_phase1 p is_chosen = Some (outcome, p')"
  shows "proposer_ok p'"
proof -
  obtain e where e: "pr_election p = Some e" using assms(2) by (auto simp: close_phase1_def split: option.splits)
  note ok = proposer_okD(1,2)[OF assms(1) e]
  have "\<forall>c \<in> set (el_prior e). config_phase1 c (pt_answered (el_promises e))"
    using assms(2) by (auto simp: close_phase1_def e el_covered_total[OF ok(1)] bind_Some_iff)
  from close_phase1_total[OF ok(1) e ok(2) this, of is_chosen] assms(2) obtain probe where
    p': "p' = p\<lparr>pr_election := None, pr_rounds := rounds_clear (pr_rounds p), pr_probe := probe\<rparr>"
    and probe: "probe = None \<longleftrightarrow> (\<forall>s. \<not> blocked_by e is_chosen s)" "\<And>q. probe = Some q \<Longrightarrow> probe_of e is_chosen q"
    by auto
  have "probe_ok q" if "probe = Some q" for q
    using probe_of_ok[OF ok(1) probe(2)[OF that]] probe(2)[OF that] probe(1) that by (auto simp: probe_of_def)
  then show ?thesis using assms(1) by (auto simp: proposer_ok_def p')
qed

lemma fold_promise_ok:
  assumes "proposer_ok p" "fold_promise p from b from_slot accepted faulty next = Some (fd, p')"
  shows "proposer_ok p'"
proof (cases "pr_election p")
  case None
  then show ?thesis using assms by (simp add: fold_promise_def)
next
  case (Some e)
  note ok = proposer_okD(1-5)[OF assms(1) Some]
  from assms(2) consider "p' = p" | "page_admitted (el_promises e) from b from_slot accepted faulty next"
      "\<forall>s. votes_agree (fmlookup (el_recovered e) s) (fmlookup accepted s)"
      "p' = p\<lparr>pr_election := Some (folded_election e from accepted faulty next)\<rparr>"
    by (auto simp: fold_promise_total[OF ok(1) Some] split: if_splits)
  then show ?thesis
  proof cases
    case 2
    have "election_ok (folded_election e from accepted faulty next)"
      using 2(2) by (intro folded_election_ok[OF ok(1) 2(1)]) simp
    then show ?thesis using proposer_ok_election[OF assms(1)] ok(2-5) 2(3) by simp
  qed (use assms(1) in simp)
qed

lemma merge_filtered_conflict:
  assumes "merge_reports tally (filter (\<lambda>(k, _). k \<in> B) (fm_entries page)) = Some tally'" "s \<in> B"
  shows "votes_agree (fmlookup tally s) (fmlookup page s)"
proof -
  let ?rs = "filter (\<lambda>(k, _). k \<in> B) (fm_entries page)"
  have "distinct (map fst ?rs)" by (simp add: distinct_map_filter)
  from merge_reports_conflict[OF this assms(1), of s] show ?thesis
    using assms(2) by (simp add: map_of_filter_fst map_of_fm_entries)
qed

lemma fold_probe_promise_ok:
  assumes "proposer_ok p" "fold_probe_promise p from b from_slot accepted faulty next = Some (fd, p')"
  shows "proposer_ok p'"
proof (cases "pr_probe p")
  case None
  then show ?thesis using assms by (simp add: fold_probe_promise_def)
next
  case (Some q)
  note ok = proposer_okD(6)[OF assms(1) Some]
  have any: "try_any (\<lambda>c. ac_contains c from) (rp_prior q) = Some (\<exists>c \<in> set (rp_prior q). from \<in> set (ac_members c))"
    using probe_okD(2)[OF ok] by (intro try_any_total) (simp add: ac_contains_total)
  let ?acc = "filter (\<lambda>(slot, _). slot \<in> rp_blocked q) (fm_entries accepted)"
  show ?thesis
  proof (cases "p' = p")
    case False
    then have adm: "page_admitted (rp_promises q) from b from_slot accepted faulty next"
      and mem: "\<exists>c \<in> set (rp_prior q). from \<in> set (ac_members c)"
      and best: "\<exists>best. merge_reports (rp_best_have q) ?acc = Some best"
      using assms(2)
      by (auto simp: fold_probe_promise_def Some any pt_accepts_total[OF probe_okD(1)[OF ok]] bind_Some_iff
          split: if_splits)
    have "votes_agree (fmlookup (rp_best_have q) s) (fmlookup accepted s)" if "s \<in> rp_blocked q" for s
      using best merge_filtered_conflict that by blast
    from fold_probe_promise_total[OF ok Some this, of "from" faulty "next" b from_slot] adm mem assms(2)
    obtain q' where q': "folded_probe q from accepted faulty next q'" "p' = p\<lparr>pr_probe := Some q'\<rparr>" by auto
    have "probe_ok q'"
      using folded_probe_ok[OF ok q'(1)] adm page_admitted_advances[OF adm] by (simp add: page_admitted_def)
    then show ?thesis using proposer_ok_probe[OF assms(1) Some] q'(2) by simp
  qed (use assms(1) in simp)
qed

lemma probe_ops_ok:
  assumes "proposer_ok p"
  shows "tick_probe p = Some (age, p') \<Longrightarrow> proposer_ok p'"
    "resolve_probe p = Some (ds, p') \<Longrightarrow> proposer_ok p'"
    "probe_resolved_elsewhere p slot = Some p' \<Longrightarrow> proposer_ok p'"
    "probe_retain_from p first = Some p' \<Longrightarrow> proposer_ok p'"
proof -
  show "proposer_ok p'" if t: "tick_probe p = Some (age, p')"
  proof (cases "pr_probe p")
    case (Some q)
    then have "p' = p\<lparr>pr_probe := Some (q\<lparr>rp_elapsed := saturating_add64 (rp_elapsed q) 1\<rparr>)\<rparr>"
      using t by (auto simp: tick_probe_def Let_def)
    then show ?thesis
      using proposer_ok_probe[OF assms Some] proposer_okD(6)[OF assms Some] by (simp add: probe_ok_def)
  qed (use t assms in \<open>simp add: tick_probe_def\<close>)
  show "proposer_ok p'" if t: "resolve_probe p = Some (ds, p')"
  proof (cases "pr_probe p")
    case (Some q)
    let ?S = "{s \<in> rp_blocked q. rp_decidable q s}"
    note ok = proposer_okD(6)[OF assms Some]
    have "p' = p\<lparr>pr_probe := if \<forall>s \<in> rp_blocked q. rp_decidable q s then None else Some (rp_forget_all q ?S)\<rparr>"
      using t by (simp add: resolve_probe_total[OF ok Some])
    moreover have "probe_ok (rp_forget_all q ?S)" if "\<not> (\<forall>s \<in> rp_blocked q. rp_decidable q s)"
      using ok that by (intro rp_forget_all_ok) auto
    ultimately show ?thesis using proposer_ok_probe[OF assms Some] by simp
  qed (use t assms in \<open>simp add: resolve_probe_def\<close>)
  show "proposer_ok p'" if t: "probe_resolved_elsewhere p slot = Some p'"
  proof (cases "pr_probe p")
    case (Some q)
    note ok = proposer_okD(6)[OF assms Some]
    have "p' = p \<or> p' = p\<lparr>pr_probe := if rp_blocked q \<subseteq> {slot} then None else Some (rp_forget_all q {slot})\<rparr>"
      using t by (auto simp: probe_resolved_elsewhere_total[OF ok Some] split: if_splits)
    moreover have "probe_ok (rp_forget_all q {slot})" if "\<not> rp_blocked q \<subseteq> {slot}"
      using ok that by (intro rp_forget_all_ok) auto
    ultimately show ?thesis using assms proposer_ok_probe[OF assms Some] by auto
  qed (use t assms in \<open>simp add: probe_resolved_elsewhere_def\<close>)
  show "proposer_ok p'" if t: "probe_retain_from p first = Some p'"
  proof (cases "pr_probe p")
    case (Some q)
    note ok = proposer_okD(6)[OF assms Some]
    have "p' = p\<lparr>pr_probe := if \<forall>s \<in> rp_blocked q. s < first then None else Some (rp_forget_all q {s. s < first})\<rparr>"
      using t by (simp add: probe_retain_from_total[OF ok Some])
    moreover have "probe_ok (rp_forget_all q {s. s < first})" if "\<not> (\<forall>s \<in> rp_blocked q. s < first)"
      using ok that by (intro rp_forget_all_ok) auto
    ultimately show ?thesis using proposer_ok_probe[OF assms Some] by simp
  qed (use t assms in \<open>simp add: probe_retain_from_def\<close>)
qed

lemma recovery_ops_ok:
  assumes "proposer_ok p"
  shows "open_recovery p recovered blocked cursor end policy = Some p' \<Longrightarrow> pr_election p = None \<Longrightarrow>
      end \<le> u64_max \<Longrightarrow> finite blocked \<Longrightarrow> proposer_ok p'"
    "recovery_next p = Some (step, p') \<Longrightarrow> proposer_ok p'"
    "close_drained_recovery p = Some p' \<Longrightarrow> proposer_ok p'"
proof -
  show "proposer_ok p'" if t: "open_recovery p recovered blocked cursor end policy = Some p'" "pr_election p = None"
    "end \<le> u64_max" "finite blocked"
  proof -
    let ?r = "\<lparr>rc_recovered = recovered, rc_blocked = blocked, rc_cursor = cursor, rc_end = end, rc_policy = policy\<rparr>"
    have "p' = p\<lparr>pr_recovery := Some ?r\<rparr>" "cursor \<le> end" "policy = Inherited \<longrightarrow> blocked = {}"
      "case set_last blocked of None \<Rightarrow> True | Some s \<Rightarrow> s < end"
      using t(1) by (auto simp: open_recovery_def split: if_splits)
    moreover from this(4) t(4) have "\<forall>s \<in> blocked. s < end"
      by (auto simp: set_last_def split: if_splits)
    ultimately show ?thesis using proposer_ok_recovery[OF assms t(2)] t(3,4) by (simp add: recovery_ok_def)
  qed
  show "proposer_ok p'" if t: "recovery_next p = Some (step, p')"
  proof (cases "pr_recovery p")
    case (Some r)
    note ok = proposer_okD(7)[OF assms Some]
    have "pr_election p = None" using proposer_okD(3)[OF assms] Some by (cases "pr_election p") auto
    moreover have "p' = p\<lparr>pr_recovery := Some (if rc_cursor r = rc_end r then r else rc_advanced r)\<rparr>"
      using t by (auto simp: recovery_next_def Some rc_next_total[OF ok])
    moreover have "recovery_ok (if rc_cursor r = rc_end r then r else rc_advanced r)"
      using ok rc_advanced_ok[OF ok] by simp
    ultimately show ?thesis using proposer_ok_recovery[OF assms] by simp
  qed (use t assms in \<open>simp add: recovery_next_def\<close>)
  show "proposer_ok p'" if t: "close_drained_recovery p = Some p'"
  proof (cases "pr_recovery p")
    case (Some r)
    have "pr_election p = None" using proposer_okD(3)[OF assms] Some by (cases "pr_election p") auto
    moreover have "p' = p \<or> p' = p\<lparr>pr_recovery := None\<rparr>"
      using t by (auto simp: close_drained_recovery_def Some bind_Some_iff split: if_splits)
    ultimately show ?thesis using assms proposer_ok_recovery[OF assms] by auto
  qed (use t assms in \<open>auto simp: close_drained_recovery_def bind_Some_iff split: if_splits\<close>)
qed

lemma authority_ops_ok:
  assumes "proposer_ok p"
  shows "open_authority p fence own = Some p' \<Longrightarrow> proposer_ok p'"
    "renew_authority p own = Some p' \<Longrightarrow> proposer_ok p'"
    "credit_authority p from = Some p' \<Longrightarrow> proposer_ok p'"
    "tick_authority p = Some (age, p') \<Longrightarrow> proposer_ok p'"
proof -
  note ok = proposer_okD(8,9)[OF assms]
  show "proposer_ok p'" if "open_authority p fence own = Some p'"
  proof -
    let ?a = "\<lparr>au_fence = fence, au_quorum_acked_by = set_option own, au_quorum_elapsed = 0\<rparr>"
    have "p' = p\<lparr>pr_authority := ?a\<rparr>" "\<And>f. fence = Some f \<Longrightarrow> f < pr_next_slot p \<and> pr_election p = None"
      using that by (auto simp: open_authority_def authority_open_total proposer_fence_def Let_def split: option.splits)
    then show ?thesis using proposer_ok_authority[OF assms authority_ok_simps(2)] by simp
  qed
  have fence: "pr_election p = None \<Longrightarrow> au_fence (pr_authority p) = Some f \<Longrightarrow>
      f < pr_next_slot p \<and> pr_election p = None" for f using ok(2) by simp
  show "proposer_ok p'" if "renew_authority p own = Some p'"
    using that proposer_ok_authority[OF assms authority_ok_simps(3)[OF ok(1)]] fence
    by (auto simp: renew_authority_def authority_renew_total Let_def)
  show "proposer_ok p'" if "credit_authority p from = Some p'"
    using that proposer_ok_authority[OF assms authority_ok_simps(4)[OF ok(1)]] fence
    by (auto simp: credit_authority_def authority_credit_total[OF ok(1)])
  show "proposer_ok p'" if "tick_authority p = Some (age, p')"
    using that proposer_ok_authority[OF assms authority_ok_simps(5)[OF ok(1)]] fence
    by (auto simp: tick_authority_def authority_tick_total[OF ok(1)])
qed

lemma round_ops_ok:
  assumes "proposer_ok p"
  shows "open_round p slot b v own column = Some p' \<Longrightarrow> proposer_ok p'"
    "open_delegated_round p slot b v column proxy = Some p' \<Longrightarrow> proposer_ok p'"
    "take_back_round p slot own = Some (x, p') \<Longrightarrow> proposer_ok p'"
    "move_round p config slot column own = Some (x, p') \<Longrightarrow> proposer_ok p'"
    "fold_accepted fp p from b slot h = Some (x, p') \<Longrightarrow> proposer_ok p'"
    "fold_accepted_in fp p config from b slot h = Some (x, p') \<Longrightarrow> proposer_ok p'"
    "proposer_ok (close_round p slot)"
    "retain_rounds_from p first = Some p' \<Longrightarrow> proposer_ok p'"
    "resend_page p limit = Some (page, p') \<Longrightarrow> proposer_ok p'"
proof -
  note keep = proposer_ok_rounds[OF assms] and lead = proposer_ok_rounds_leader[OF assms]
  show "open_round p slot b v own column = Some p' \<Longrightarrow> proposer_ok p'"
    "open_delegated_round p slot b v column proxy = Some p' \<Longrightarrow> proposer_ok p'"
    using lead by (auto simp: open_round_def open_delegated_round_def bind_Some_iff)
  show "take_back_round p slot own = Some (x, p') \<Longrightarrow> proposer_ok p'"
    using keep rounds_empty_kept(1)[of "pr_rounds p" slot own] by (auto simp: take_back_round_def bind_Some_iff)
  show "move_round p config slot column own = Some (x, p') \<Longrightarrow> proposer_ok p'"
    using keep rounds_empty_kept(2)[of "pr_rounds p" config slot column own] by (auto simp: move_round_def bind_Some_iff)
  show "fold_accepted fp p from b slot h = Some (x, p') \<Longrightarrow> proposer_ok p'"
    using keep rounds_empty_kept(3)[of "pr_rounds p" fp "from" b slot h] by (auto simp: fold_accepted_def bind_Some_iff)
  show "fold_accepted_in fp p config from b slot h = Some (x, p') \<Longrightarrow> proposer_ok p'"
    using keep rounds_empty_kept(4)[of "pr_rounds p" fp config "from" b slot h]
    by (auto simp: fold_accepted_in_def bind_Some_iff)
  show "proposer_ok (close_round p slot)"
    using keep rounds_empty_kept(5)[of "pr_rounds p" slot] by (simp add: close_round_def)
  show "retain_rounds_from p first = Some p' \<Longrightarrow> proposer_ok p'"
    using keep rounds_empty_kept(6)[of "pr_rounds p" first] by (auto simp: retain_rounds_from_def bind_Some_iff)
  show "resend_page p limit = Some (page, p') \<Longrightarrow> proposer_ok p'"
    using keep resend_empty_kept[of "pr_rounds p" limit] by (auto simp: resend_page_def bind_Some_iff)
qed

lemma open_phase1_ok:
  assumes "proposer_ok p" "campaign_ok cm" "au_fence (pr_authority p) = None"
    and "open_phase1 p cm own_records own_faulty = Some (targets, p')"
  shows "proposer_ok p'"
proof -
  have pre: "pr_election p = None" "rounds_is_empty (pr_rounds p)" "pr_probe p = None" "pr_recovery p = None"
    using assms(4) by (auto simp: open_phase1_def)
  then have "p' = p\<lparr>pr_election := Some (opened_election cm own_records own_faulty)\<rparr>"
    using assms(4) by (simp add: open_phase1_total[OF assms(2) pre])
  then show ?thesis
    using proposer_ok_election[OF assms(1) opened_election_ok[OF assms(2)] pre(3,4,2) assms(3)] by simp
qed

lemma proposer_step_ok:
  assumes "proposer_step fp p p'" "proposer_ok p"
  shows "proposer_ok p'"
  using assms(1)
proof (cases rule: proposer_step.cases)
  case abandoned
  then show ?thesis
    by (auto simp: proposer_abandon_total proposer_ok_def authority_ok_def authority_default_def)
next
  case (allocated slot)
  then have "p' = p\<lparr>pr_next_slot := pr_next_slot p + 1\<rparr>" by (auto simp: proposer_allocate_def Let_def)
  then show ?thesis using proposer_ok_next_slot[OF assms(2), of "pr_next_slot p + 1"] proposer_okD(9)[OF assms(2)] by (auto simp: less_SucI)
next
  case (frontier_set slot)
  then show ?thesis using proposer_ok_next_slot[OF assms(2), of slot] by (auto simp: set_next_slot_def)
next
  case (frontier_raised slot)
  then have "p' = p\<lparr>pr_next_slot := max (pr_next_slot p) slot\<rparr>" by (auto simp: raise_next_slot_def Let_def)
  then show ?thesis
    using proposer_ok_next_slot[OF assms(2), of "max (pr_next_slot p) slot"] proposer_okD(9)[OF assms(2)]
    by (auto simp: less_max_iff_disj)
qed (use assms(2) in \<open>blast intro: open_phase1_ok fold_promise_ok close_phase1_ok fold_probe_promise_ok
      probe_ops_ok recovery_ops_ok authority_ops_ok round_ops_ok\<close>)+


text \<open>Two campaigns in a row: the first is abandoned, the second opens at a higher ballot.\<close>

definition solo_campaign :: "nat \<Rightarrow> nat campaign" where
  "solo_campaign n = \<lparr>cm_me = Some 2, cm_ballot = Ballot n 2, cm_config = three_acceptors,
     cm_prior = [three_acceptors], cm_from_slot = 0\<rparr>"


text \<open>C36: the verdict of a closing campaign. Closing panics exactly when some prior configuration lacks a
  Phase-1 quorum of promises. Otherwise the outcome carries everything the promises reported, the blocked
  slots are exactly the slots reported faulty, not chosen here, and without a Phase-1 quorum of qualifying
  answers in some prior configuration, and the repair probe is open exactly when there is one, holding
  the reports of those slots and the promises already counted; nothing is in flight.\<close>

theorem close_phase1_verdict:
  assumes "proposer_ok p" "pr_election p = Some e"
  shows "(close_phase1 p is_chosen = None \<longleftrightarrow>
      (\<exists>c \<in> set (el_prior e). \<not> config_phase1 c (pt_answered (el_promises e)))) \<and>
    (\<forall>out p'. close_phase1 p is_chosen = Some (out, p') \<longrightarrow>
      po_blocked out = {s. blocked_by e is_chosen s} \<and> po_recovered out = el_recovered e \<and>
      po_ballot out = pt_ballot (el_promises e) \<and> po_promised_by out = pt_answered (el_promises e) \<and>
      pr_election p' = None \<and> rounds_is_empty (pr_rounds p') \<and>
      (pr_probe p' = None \<longleftrightarrow> po_blocked out = {}) \<and>
      (\<forall>q. pr_probe p' = Some q \<longrightarrow> probe_of e is_chosen q))"
proof (cases "\<forall>c \<in> set (el_prior e). config_phase1 c (pt_answered (el_promises e))")
  case True
  obtain probe where "close_phase1 p is_chosen = Some (closed_outcome e is_chosen,
      p\<lparr>pr_election := None, pr_rounds := rounds_clear (pr_rounds p), pr_probe := probe\<rparr>)"
    "probe = None \<longleftrightarrow> (\<forall>s. \<not> blocked_by e is_chosen s)" "\<And>q. probe = Some q \<Longrightarrow> probe_of e is_chosen q"
    using close_phase1_total[OF proposer_okD(1)[OF assms] assms(2) proposer_okD(2)[OF assms] True, of is_chosen] by blast
  then show ?thesis using True by (auto simp: closed_outcome_def)
next
  case False
  then have "close_phase1 p is_chosen = None"
    by (auto simp: close_phase1_def assms(2) el_covered_total[OF proposer_okD(1)[OF assms]])
  then show ?thesis using False by auto
qed

definition solo_leader :: "(nat, nat) proposer" where
  "solo_leader = proposer_default\<lparr>pr_election := Some
     (opened_election (solo_campaign 1) (fmupd 4 (Ballot 0 3, 7) fmempty) (fmupd 5 (Ballot 0 3) fmempty)\<lparr>
        el_promises := \<lparr>pt_ballot = Ballot 1 2, pt_from_slot = 0, pt_answered = {2, 3}, pt_promise_next = fmempty\<rparr>\<rparr>)\<rparr>"

theorem close_phase1_verdict_witness:
  "\<exists>e out p'. pr_election solo_leader = Some e \<and> close_phase1 solo_leader (\<lambda>_. False) = Some (out, p') \<and>
     po_blocked out = {s. blocked_by e (\<lambda>_. False) s} \<and> (pr_probe p' = None \<longleftrightarrow> po_blocked out = {})"
proof -
  let ?e = "opened_election (solo_campaign 1) (fmupd 4 (Ballot 0 3, 7) fmempty) (fmupd 5 (Ballot 0 3) fmempty)
     \<lparr>el_promises := \<lparr>pt_ballot = Ballot 1 2, pt_from_slot = 0, pt_answered = {2, 3}, pt_promise_next = fmempty\<rparr>\<rparr>
     :: (nat, nat) election"
  have cm: "campaign_ok (solo_campaign 1)" by (simp add: campaign_ok_def solo_campaign_def three_acceptors_ok)
  have "election_ok ?e"
    using opened_election_ok[OF cm] by (simp add: election_ok_def tally_ok_def opened_election_def solo_campaign_def)
  then have ok: "proposer_ok solo_leader" "pr_election solo_leader = Some ?e"
    using proposer_ok_election[OF proposer_ok_default, of ?e]
    by (simp_all add: solo_leader_def proposer_default_def authority_default_def)
  have "\<not> (\<exists>c \<in> set (el_prior ?e). \<not> config_phase1 c (pt_answered (el_promises ?e)))"
    by (simp add: opened_election_def solo_campaign_def config_phase1_def three_acceptors_def)
  with close_phase1_verdict[OF ok, of "\<lambda>_. False"] show ?thesis
    using ok(2) by (metis (no_types, lifting) not_None_eq surj_pair)
qed

text \<open>C37: the repair probe decides exactly what its tally allows. Resolving never panics on a reachable
  probe, hands out one decision for every blocked slot with a Phase-1 quorum of qualifying answers in every
  prior configuration and for no other slot, each with the best readable report or with none, forgets the
  decided slots and only those, and closes the probe exactly when nothing stays blocked.\<close>

theorem resolve_probe_verdict:
  assumes "proposer_ok p" "pr_probe p = Some q"
  shows "\<exists>decisions p'. resolve_probe p = Some (decisions, p') \<and>
    pd_slot ` set decisions = {s \<in> rp_blocked q. rp_decidable q s} \<and>
    (\<forall>d \<in> set decisions. pd_command d = map_option snd (fmlookup (rp_best_have q) (pd_slot d))) \<and>
    (pr_probe p' = None \<longleftrightarrow> (\<forall>s \<in> rp_blocked q. rp_decidable q s)) \<and>
    (\<forall>q'. pr_probe p' = Some q' \<longrightarrow> rp_blocked q' = {s \<in> rp_blocked q. \<not> rp_decidable q s} \<and>
       (\<forall>s \<in> rp_blocked q'. fmlookup (rp_best_have q') s = fmlookup (rp_best_have q) s \<and>
          fmlookup (rp_faulty_reports q') s = fmlookup (rp_faulty_reports q) s))"
proof -
  note ok = proposer_okD(6)[OF assms]
  let ?ds = "map (decision_at q) (filter (rp_decidable q) (sorted_list_of_set (rp_blocked q)))"
  have "pd_slot ` set ?ds = {s \<in> rp_blocked q. rp_decidable q s}"
    using probe_okD(3)[OF ok] by (force simp: decision_at_def)
  moreover have "\<forall>d \<in> set ?ds. pd_command d = map_option snd (fmlookup (rp_best_have q) (pd_slot d))"
    by (auto simp: decision_at_def)
  moreover have "rp_blocked q - {s \<in> rp_blocked q. rp_decidable q s} = {s \<in> rp_blocked q. \<not> rp_decidable q s}"
    by auto
  ultimately show ?thesis
    unfolding resolve_probe_total[OF ok assms(2)] option.inject prod.inject
    by (intro exI[of _ ?ds] exI) (rule conjI, (rule conjI refl)+, auto)
qed

definition probing_leader :: "(nat, nat) proposer" where
  "probing_leader = proposer_default\<lparr>pr_probe := Some
     \<lparr>rp_promises = \<lparr>pt_ballot = Ballot 1 2, pt_from_slot = 0, pt_answered = {2, 3}, pt_promise_next = fmempty\<rparr>,
      rp_prior = [three_acceptors], rp_faulty_reports = fmupd 5 (fmupd 2 (Ballot 0 3) fmempty) fmempty,
      rp_best_have = fmupd 5 (Ballot 0 3, 7) fmempty, rp_blocked = {5}, rp_elapsed = 0\<rparr>\<rparr>"

theorem resolve_probe_verdict_witness:
  "\<exists>decisions p'. resolve_probe probing_leader = Some (decisions, p') \<and> pd_slot ` set decisions = {5} \<and>
     pr_probe p' = None"
proof -
  let ?q = "\<lparr>rp_promises = \<lparr>pt_ballot = Ballot 1 2, pt_from_slot = 0, pt_answered = {2, 3}, pt_promise_next = fmempty\<rparr>,
      rp_prior = [three_acceptors], rp_faulty_reports = fmupd 5 (fmupd 2 (Ballot 0 3) fmempty) fmempty,
      rp_best_have = fmupd 5 (Ballot 0 3, 7) fmempty, rp_blocked = {5}, rp_elapsed = 0\<rparr> :: (nat, nat) repair_probe"
  have "probe_ok ?q" by (simp add: probe_ok_def tally_ok_def three_acceptors_ok)
  then have ok: "proposer_ok probing_leader" "pr_probe probing_leader = Some ?q"
    using proposer_ok_default
    by (simp_all add: probing_leader_def proposer_default_def proposer_ok_def)
  have "{node. (node = 2 \<or> node = 3) \<and> qualifies (Some (fmupd 2 (Ballot 0 3) fmempty)) (Some (Ballot 0 3)) node} = {2, 3 :: nat}"
    by (auto simp: qualifies_def)
  then have dec: "rp_decidable ?q 5"
    by (simp add: rp_decidable_def config_phase1_def three_acceptors_def)
  have "{s \<in> rp_blocked ?q. rp_decidable ?q s} = {5}" using dec by auto
  with resolve_probe_verdict[OF ok] dec show ?thesis by auto
qed

end
