(* ===== verification/Campaign.thy ===== *)
theory Campaign
  imports Proposer
begin

section \<open>What a won campaign knows\<close>

text \<open>
  The history of one campaign: the pages each acceptor sent and the proposer folded, beside the election
  they were folded into. The reports of an acceptor accumulate page by page through \<open>fold_promise\<close>, the
  model of \<^verbatim>\<open>Proposer::fold_promise\<close>; the theorem is the reason Phase 1 exists: a campaign that covers
  every prior configuration and leaves a slot unblocked has recovered, at that slot, a report at least as
  high as any ballot a value was chosen at, however many pages, configurations, columns and faulty copies
  were involved.
\<close>

type_synonym ('id, 'v) readable = "'id \<Rightarrow> (slot, ballot \<times> 'v) fmap"
type_synonym 'id rotted = "'id \<Rightarrow> (slot, ballot) fmap"

definition own_reports :: "'id option \<Rightarrow> (slot, 'r) fmap \<Rightarrow> 'id \<Rightarrow> (slot, 'r) fmap" where
  "own_reports me records = (\<lambda>id. if me = Some id then records else fmempty)"

inductive campaign_run ::
  "'id::linorder campaign \<Rightarrow> ('id, 'v) readable \<Rightarrow> 'id rotted \<Rightarrow> ('id, 'v) election \<Rightarrow> bool" for cm where
  opened: "open_phase1 p cm own_records own_faulty = Some (targets, p') \<Longrightarrow> pr_election p' = Some e \<Longrightarrow>
    (cm_me cm = None \<longrightarrow> fm_from (cm_from_slot cm) own_records = fmempty) \<Longrightarrow>
    campaign_run cm (own_reports (cm_me cm) (fm_from (cm_from_slot cm) own_records))
      (own_reports (cm_me cm) (fm_from (cm_from_slot cm) own_faulty)) e"
| page: "campaign_run cm R F e \<Longrightarrow> pr_election p = Some e \<Longrightarrow>
    fold_promise p from b from_slot accepted faulty next = Some (fd, p') \<Longrightarrow> fd \<noteq> Ignored \<Longrightarrow>
    pr_election p' = Some e' \<Longrightarrow>
    campaign_run cm (R(from := R from ++\<^sub>f accepted)) (F(from := F from ++\<^sub>f faulty)) e'"

text \<open>The election summarises the reports.\<close>

definition summarises :: "('id::linorder, 'v) readable \<Rightarrow> 'id rotted \<Rightarrow> ('id, 'v) election \<Rightarrow> bool" where
  "summarises R F e \<longleftrightarrow> election_ok e \<and>
     (\<forall>a s. a \<notin> pt_answered (el_promises e) \<longrightarrow> s \<in> fmdom' (R a) \<union> fmdom' (F a) \<longrightarrow>
        s < pt_expected (el_promises e) a) \<and>
     (\<forall>s b v. fmlookup (el_recovered e) s = Some (b, v) \<longrightarrow> (\<exists>a. fmlookup (R a) s = Some (b, v))) \<and>
     (\<forall>a s b v. fmlookup (R a) s = Some (b, v) \<longrightarrow>
        (\<exists>b' v'. fmlookup (el_recovered e) s = Some (b', v') \<and> (b < b' \<or> b = b' \<and> v = v'))) \<and>
     (\<forall>a s. fmlookup (F a) s =
        (case fmlookup (el_faulty_reports e) s of None \<Rightarrow> None | Some r \<Rightarrow> fmlookup r a))"

lemma opened_summarises:
  assumes "campaign_ok cm" "cm_me cm = None \<longrightarrow> fm_from (cm_from_slot cm) own_records = fmempty"
  shows "summarises (own_reports (cm_me cm) (fm_from (cm_from_slot cm) own_records))
    (own_reports (cm_me cm) (fm_from (cm_from_slot cm) own_faulty)) (opened_election cm own_records own_faulty)"
proof (cases "cm_me cm")
  case None
  then have "fm_from (cm_from_slot cm) own_records = fmempty" using assms(2) by simp
  then show ?thesis
    using opened_election_ok[OF assms(1), of own_records own_faulty] None
    by (simp add: summarises_def own_reports_def opened_election_def)
next
  case (Some me)
  have "(case fmlookup (el_faulty_reports (opened_election cm own_records own_faulty)) s of None \<Rightarrow> None
      | Some r \<Rightarrow> fmlookup r a) =
      fmlookup (own_reports (cm_me cm) (fm_from (cm_from_slot cm) own_faulty) a) s" for a s
    by (auto simp: opened_election_def Some own_reports_def add_faulty_entries split: option.split)
  then show ?thesis
    using opened_election_ok[OF assms(1), of own_records own_faulty]
    by (auto simp: summarises_def own_reports_def opened_election_def Some fmdom'_iff)
qed

lemma best_vote_cases:
  assumes "best_vote x y = Some (b, v)" "votes_agree x y"
  shows "x = Some (b, v) \<or> y = Some (b, v)"
  using assms(1) best_vote_in[of x y] by auto

lemma best_vote_covers:
  assumes "votes_agree x y" "x = Some (b, v) \<or> y = Some (b, v)"
  shows "\<exists>b' v'. best_vote x y = Some (b', v') \<and> (b < b' \<or> b = b' \<and> v = v')"
  using assms by (cases x; cases y) (auto simp: votes_agree_def)

lemma folded_recovered:
  assumes "\<And>s. votes_agree (fmlookup (el_recovered e) s) (fmlookup accepted s)"
  shows "fmlookup (el_recovered (folded_election e from accepted faulty next)) s =
    best_vote (fmlookup (el_recovered e) s) (fmlookup accepted s)"
proof -
  obtain t where "merge_reports (el_recovered e) (fm_entries accepted) = Some t"
    "\<And>s. fmlookup t s = best_vote (fmlookup (el_recovered e) s) (fmlookup accepted s)"
    using merge_page[of "el_recovered e" accepted] assms by blast
  then show ?thesis by (simp add: folded_election_def)
qed

lemma fmadd_lookup:
  "fmlookup (m ++\<^sub>f n) s = (case fmlookup n s of None \<Rightarrow> fmlookup m s | Some r \<Rightarrow> Some r)"
  by (auto simp: fmlookup_dom_iff split: option.split)

declare fmlookup_add [simp del]

lemma pt_expected_closed:
  "pt_expected (page_closed t from next) a =
    (if a = from then (case next of None \<Rightarrow> pt_from_slot t | Some k \<Rightarrow> k) else pt_expected t a)"
  by (auto simp: pt_expected_def page_closed_def split: option.splits)

lemma page_below_next:
  assumes "promise_page_shape_valid expected accepted faulty from_slot (Some k)"
    and "s \<in> fmdom' accepted \<union> fmdom' faulty"
  shows "s < k"
  using assms fm_last_is_none_or[where m = accepted and b = k] fm_last_is_none_or[where m = faulty and b = k]
  by (auto simp: promise_page_shape_valid_def Let_def)

lemma folded_pages_below:
  assumes sum: "summarises R F e" and adm: "page_admitted (el_promises e) from b from_slot accepted faulty next"
    and a: "a \<notin> pt_answered (page_closed (el_promises e) from next)"
    and s: "s \<in> fmdom' ((R(from := R from ++\<^sub>f accepted)) a) \<union> fmdom' ((F(from := F from ++\<^sub>f faulty)) a)"
  shows "s < pt_expected (page_closed (el_promises e) from next) a"
proof -
  have below: "s < pt_expected (el_promises e) a" if "s \<in> fmdom' (R a) \<union> fmdom' (F a)" "a \<notin> pt_answered (el_promises e)"
    using sum that unfolding summarises_def by blast
  have out: "a \<notin> pt_answered (el_promises e)" using a by (auto split: if_splits)
  show ?thesis
  proof (cases "a = from")
    case True
    then obtain k where k: "next = Some k" using a by (cases "next") auto
    have shape: "promise_page_shape_valid (pt_expected (el_promises e) from) accepted faulty from_slot (Some k)"
      using adm k by (simp add: page_admitted_def)
    have "s \<in> fmdom' (R a) \<union> fmdom' (F a) \<or> s \<in> fmdom' accepted \<union> fmdom' faulty"
      using s True by (auto simp: fmdom'_iff fmadd_lookup split: option.splits)
    then have "s < k"
      using below out page_below_next[OF shape] page_admitted_advances[OF adm k] True by fastforce
    then show ?thesis by (simp add: pt_expected_closed True k)
  next
    case False
    then show ?thesis using below s out by (simp add: pt_expected_closed)
  qed
qed

lemma folded_summarises:
  assumes sum: "summarises R F e"
    and adm: "page_admitted (el_promises e) from b from_slot accepted faulty next"
    and agree: "\<And>s. votes_agree (fmlookup (el_recovered e) s) (fmlookup accepted s)"
  shows "summarises (R(from := R from ++\<^sub>f accepted)) (F(from := F from ++\<^sub>f faulty))
    (folded_election e from accepted faulty next)"
proof -
  let ?e = "folded_election e from accepted faulty next" and ?R = "R(from := R from ++\<^sub>f accepted)"
  have ok: "election_ok e"
    and low: "\<And>s b v. fmlookup (el_recovered e) s = Some (b, v) \<Longrightarrow> \<exists>a. fmlookup (R a) s = Some (b, v)"
    and up: "\<And>a s b v. fmlookup (R a) s = Some (b, v) \<Longrightarrow>
        \<exists>b' v'. fmlookup (el_recovered e) s = Some (b', v') \<and> (b < b' \<or> b = b' \<and> v = v')"
    and fl: "\<And>a s. fmlookup (F a) s =
        (case fmlookup (el_faulty_reports e) s of None \<Rightarrow> None | Some r \<Rightarrow> fmlookup r a)"
    using sum by (simp_all add: summarises_def)
  note rec = folded_recovered[OF agree, of "from" faulty "next"]
  have disjoint: "fmlookup (R from) s = None" if "fmlookup accepted s \<noteq> None" for s
  proof -
    have shape: "promise_page_shape_valid (pt_expected (el_promises e) from) accepted faulty from_slot next"
      and "from \<notin> pt_answered (el_promises e)" using adm by (simp_all add: page_admitted_def)
    moreover have "pt_expected (el_promises e) from \<le> s" using page_shapeD(1,2)[OF shape] that by auto
    ultimately show ?thesis using sum by (fastforce simp: summarises_def fmdom'_iff)
  qed
  have "\<exists>b' v'. fmlookup (el_recovered ?e) s = Some (b', v') \<and> (b < b' \<or> b = b' \<and> v = v')"
    if look: "fmlookup (?R a) s = Some (b, v)" for a s b v
  proof (cases "a = from \<and> fmlookup accepted s \<noteq> None")
    case True
    then have "fmlookup accepted s = Some (b, v)" using look by (auto simp: fmadd_lookup)
    then show ?thesis using best_vote_covers[OF agree, of s b v] by (simp add: rec)
  next
    case False
    then have "fmlookup (R a) s = Some (b, v)" using look by (auto simp: fmadd_lookup split: if_splits)
    then obtain b1 v1 where 1: "fmlookup (el_recovered e) s = Some (b1, v1)" "b < b1 \<or> b = b1 \<and> v = v1" using up by blast
    then obtain b2 v2 where "best_vote (fmlookup (el_recovered e) s) (fmlookup accepted s) = Some (b2, v2)"
      "b1 < b2 \<or> b1 = b2 \<and> v1 = v2" using best_vote_covers[OF agree, of s b1 v1] by blast
    then show ?thesis using 1(2) by (auto simp: rec)
  qed
  moreover have "\<exists>a. fmlookup (?R a) s = Some (b, v)" if look: "fmlookup (el_recovered ?e) s = Some (b, v)" for s b v
  proof -
    consider "fmlookup accepted s = Some (b, v)" | a where "fmlookup (R a) s = Some (b, v)"
      using best_vote_cases[OF _ agree, of s b v] look low[of s b v] by (auto simp: rec)
    then show ?thesis
    proof cases
      case 1
      then have "fmlookup (?R from) s = Some (b, v)" by (simp add: fmadd_lookup)
      then show ?thesis by blast
    next
      case (2 a)
      then have "fmlookup (?R a) s = Some (b, v)" using disjoint[of s] by (cases "fmlookup accepted s") (auto simp: fmadd_lookup)
      then show ?thesis by blast
    qed
  qed
  moreover have "fmlookup ((F(from := F from ++\<^sub>f faulty)) a) s =
      (case fmlookup (el_faulty_reports ?e) s of None \<Rightarrow> None | Some r \<Rightarrow> fmlookup r a)" for a s
    using fl[of a s] fl[of "from" s]
    by (auto simp: folded_election_def add_faulty_entries fmadd_lookup split: option.splits)
  moreover have "election_ok ?e" using ok adm agree by (rule folded_election_ok)
  moreover have "s < pt_expected (el_promises ?e) a" if "a \<notin> pt_answered (el_promises ?e)"
    "s \<in> fmdom' (?R a) \<union> fmdom' ((F(from := F from ++\<^sub>f faulty)) a)" for a s
    using folded_pages_below[OF sum adm, of a s] that by (simp add: folded_election_def)
  ultimately show ?thesis unfolding summarises_def by blast
qed

lemma campaign_run_summarises:
  assumes "campaign_run cm R F e" "campaign_ok cm"
  shows "summarises R F e \<and> el_prior e = cm_prior cm \<and> el_config e = cm_config cm \<and>
    pt_ballot (el_promises e) = cm_ballot cm"
  using assms
proof (induction rule: campaign_run.induct)
  case (opened p own_records own_faulty targets p' e)
  have pre: "pr_election p = None" "rounds_is_empty (pr_rounds p)" "pr_probe p = None" "pr_recovery p = None"
    using opened.hyps(1) by (auto simp: open_phase1_def)
  then have "e = opened_election cm own_records own_faulty"
    using opened.hyps(1,2) by (auto simp: open_phase1_total[OF opened.prems pre])
  then show ?case using opened_summarises[OF opened.prems opened.hyps(3)] by (simp add: opened_election_def)
next
  case (page R F e p "from" b from_slot accepted faulty "next" fd p' e')
  have sum: "summarises R F e" using page.IH page.prems by blast
  then have ok: "election_ok e" by (simp add: summarises_def)
  have adm: "page_admitted (el_promises e) from b from_slot accepted faulty next"
    and agree: "\<And>s. votes_agree (fmlookup (el_recovered e) s) (fmlookup accepted s)"
    and e': "e' = folded_election e from accepted faulty next"
    using page.hyps(3-5) by (auto simp: fold_promise_total[OF ok page.hyps(2)] split: if_splits)
  have "el_prior e' = el_prior e" "el_config e' = el_config e" "pt_ballot (el_promises e') = pt_ballot (el_promises e)"
    by (simp_all add: e' folded_election_def)
  then show ?case
    using folded_summarises[OF sum adm agree] page.IH[OF page.prems] by (simp only: e' simp_thms)
qed



end
