(* ===== verification/Consensus.thy ===== *)
theory Consensus
  imports Voting Campaign Retention
begin

section \<open>Multi-Paxos from its components\<close>

text \<open>
  The acceptors, the proposers and what the replicas learned, wired together over a network that loses,
  duplicates, delays and reorders messages. Every step runs the operations of the components as the node
  runs them: a prepared acceptor answers with a page of its log, a candidate folds pages and closes its
  Phase 1, a leader opens rounds where the closed campaign lets it, acceptors vote, proposers and proxies
  count, nodes learn, catch up, heal, truncate, rot and reboot. Each ballot has one proposer and runs the
  campaign the plan gives it; the plan is what the matchmakers (or the one static configuration of a plain
  deployment) decide, and all that is asked of it is that a campaign's prior configurations include the
  configuration of every lower ballot.
\<close>

subsection \<open>State\<close>

datatype ('id, 'v) msg =
    Promise_Msg 'id ballot slot "(slot, ballot \<times> 'v) fmap" "(slot, ballot) fmap" "slot option"
  | Accept_Msg ballot slot 'v
  | Accepted_Msg 'id ballot slot fingerprint
  | Commit_Msg ballot slot 'v

text \<open>What a closed campaign lets its leader do at a slot: nothing, propose what it likes, or propose the
  one value it recovered.\<close>

datatype 'v licence = Withheld | Free | Bound 'v

record ('id, 'v) cluster =
  cl_acceptors :: "'id \<Rightarrow> 'v acceptor"
  cl_learned :: "'id \<Rightarrow> slot \<Rightarrow> 'v option"
  cl_prefix :: "'id \<Rightarrow> slot"
  cl_proposers :: "ballot \<Rightarrow> ('id, 'v) proposer"
  cl_opened :: "ballot set"
  cl_licences :: "ballot \<Rightarrow> slot \<Rightarrow> 'v licence"
  cl_outcomes :: "ballot \<Rightarrow> ('id, 'v) phase1_outcome option"
  cl_net :: "('id, 'v) msg set"
  cl_votes :: "('id \<times> slot \<times> ballot \<times> 'v) set"

type_synonym 'id plan = "ballot \<Rightarrow> 'id campaign option"

definition cluster_start :: "('id, 'v) cluster" where
  "cluster_start = \<lparr>cl_acceptors = (\<lambda>_. booted ballot_zero fmempty 0 fmempty), cl_learned = (\<lambda>_ _. None),
     cl_prefix = (\<lambda>_. 0), cl_proposers = (\<lambda>_. proposer_default), cl_opened = {},
     cl_licences = (\<lambda>_ _. Withheld), cl_outcomes = (\<lambda>_. None), cl_net = {}, cl_votes = {}\<rparr>"

subsection \<open>What a node does with its acceptor\<close>

definition node_vote ::
  "'v acceptor \<Rightarrow> ballot \<Rightarrow> slot \<Rightarrow> 'v \<Rightarrow> (bool \<times> 'v acceptor) option" where
  "node_vote a b s v = do {
     outcome \<leftarrow> acceptor_admit a b s;
     if outcome = Admitted then do {
       (a, _) \<leftarrow> acceptor_set_promise id a b [];
       (_, a, _) \<leftarrow> acceptor_record_accepted id a s b v [];
       Some (True, a)
     } else Some (False, a)
   }"

definition node_learn ::
  "'v acceptor \<Rightarrow> (slot \<Rightarrow> 'v option) \<Rightarrow> ballot \<Rightarrow> slot \<Rightarrow> 'v \<Rightarrow> ('v acceptor \<times> (slot \<Rightarrow> 'v option)) option" where
  "node_learn a learned b s v = do {
     first_slot \<leftarrow> acceptor_first_slot a;
     if s < first_slot then Some (a, learned)
     else (case learned s of
       Some known \<Rightarrow> do { check (known = v); Some (a, learned) }
     | None \<Rightarrow> do {
         promised \<leftarrow> acceptor_promised a;
         (a, _) \<leftarrow> (if b > promised then acceptor_set_promise id a b [] else Some (a, []));
         held \<leftarrow> acceptor_record a s;
         let keeps = (case held of None \<Rightarrow> False | Some (c, w) \<Rightarrow> w = v \<and> c \<ge> b);
         a \<leftarrow> (if keeps then Some a
               else do { (_, a, _) \<leftarrow> acceptor_record_accepted id a s b v []; Some a });
         Some (a, learned(s \<mapsto> v))
       })
   }"

text \<open>The licences a closed campaign grants from its first slot on, and those a resolved probe adds.\<close>

definition granted ::
  "slot \<Rightarrow> (slot \<Rightarrow> bool) \<Rightarrow> ('id, 'v) phase1_outcome \<Rightarrow> slot \<Rightarrow> 'v licence" where
  "granted from is_chosen outcome s =
     (if s < from \<or> is_chosen s \<or> s \<in> po_blocked outcome then Withheld
      else (case fmlookup (po_recovered outcome) s of None \<Rightarrow> Free | Some (_, v) \<Rightarrow> Bound v))"

definition decided_licence :: "(slot \<Rightarrow> 'v licence) \<Rightarrow> 'v probe_decision \<Rightarrow> slot \<Rightarrow> 'v licence" where
  "decided_licence lic d = lic(pd_slot d := (case pd_command d of None \<Rightarrow> Free | Some v \<Rightarrow> Bound v))"

text \<open>A disk that lost the values at some slots but kept their identity.\<close>

definition rotten :: "slot set \<Rightarrow> 'v acceptor \<Rightarrow> (slot, ballot) fmap" where
  "rotten S a = fmmap fst (fmfilter (\<lambda>s. s \<in> S) (rw_map (acc_records a))) ++\<^sub>f rw_map (acc_faulty a)"

subsection \<open>Steps\<close>

inductive cluster_step ::
  "'id::linorder plan \<Rightarrow> ('v \<Rightarrow> fingerprint) \<Rightarrow> ('id, 'v) cluster \<Rightarrow> ('id, 'v) cluster \<Rightarrow> bool" for plan fp where
  raised: "acceptor_set_promise id (cl_acceptors c n) b [] = Some (a, ws) \<Longrightarrow>
    cluster_step plan fp c (c\<lparr>cl_acceptors := (cl_acceptors c)(n := a)\<rparr>)"
| answered: "acceptor_prepare id (cl_acceptors c n) b from [] = Some (Promised new, a, ws) \<Longrightarrow>
    0 < limit \<Longrightarrow> limit \<le> PROMISE_BATCH \<Longrightarrow> acceptor_promise_page a from limit = Some page \<Longrightarrow>
    cluster_step plan fp c (c\<lparr>cl_acceptors := (cl_acceptors c)(n := a), cl_net := insert
      (Promise_Msg n b from (pp_accepted page) (pp_faulty page) (pp_next_from_slot page)) (cl_net c)\<rparr>)"
| campaigned: "plan b = Some cm \<Longrightarrow> b \<notin> cl_opened c \<Longrightarrow> au_fence (pr_authority (cl_proposers c b)) = None \<Longrightarrow>
    (case cm_me cm of
       None \<Rightarrow> own_records = fmempty \<and> own_faulty = fmempty
     | Some n \<Rightarrow> acceptor_promised (cl_acceptors c n) = Some b \<and>
         acceptor_records (cl_acceptors c n) = Some own_records \<and>
         acceptor_faulty (cl_acceptors c n) = Some own_faulty \<and>
         (\<exists>floor. acceptor_first_slot (cl_acceptors c n) = Some floor \<and> floor \<le> cm_from_slot cm)) \<Longrightarrow>
    open_phase1 (cl_proposers c b) cm own_records own_faulty = Some (targets, p) \<Longrightarrow>
    cluster_step plan fp c (c\<lparr>cl_proposers := (cl_proposers c)(b := p), cl_opened := insert b (cl_opened c)\<rparr>)"
| folded: "Promise_Msg n b' from accepted faulty next \<in> cl_net c \<Longrightarrow> plan b = Some cm \<Longrightarrow>
    fold_promise (cl_proposers c b) n b' from accepted faulty next = Some (fd, p) \<Longrightarrow>
    cluster_step plan fp c (c\<lparr>cl_proposers := (cl_proposers c)(b := p)\<rparr>)"
| won: "plan b = Some cm \<Longrightarrow> phase1_won (cl_proposers c b) b = Some True \<Longrightarrow>
    close_phase1 (cl_proposers c b) is_chosen = Some (outcome, p) \<Longrightarrow>
    cluster_step plan fp c (c\<lparr>cl_proposers := (cl_proposers c)(b := p),
      cl_licences := (cl_licences c)(b := granted (cm_from_slot cm) is_chosen outcome),
      cl_outcomes := (cl_outcomes c)(b := Some outcome)\<rparr>)"
| probed: "Promise_Msg n b' from accepted faulty next \<in> cl_net c \<Longrightarrow> plan b = Some cm \<Longrightarrow>
    fold_probe_promise (cl_proposers c b) n b' from accepted faulty next = Some (fd, p) \<Longrightarrow>
    cluster_step plan fp c (c\<lparr>cl_proposers := (cl_proposers c)(b := p)\<rparr>)"
| resolved: "plan b = Some cm \<Longrightarrow> resolve_probe (cl_proposers c b) = Some (decisions, p) \<Longrightarrow>
    cluster_step plan fp c (c\<lparr>cl_proposers := (cl_proposers c)(b := p),
      cl_licences := (cl_licences c)(b := fold (\<lambda>d lic. decided_licence lic d) decisions (cl_licences c b))\<rparr>)"
| probe_shrunk: "plan b = Some cm \<Longrightarrow> probe_resolved_elsewhere (cl_proposers c b) s = Some p \<or>
      probe_retain_from (cl_proposers c b) s = Some p \<or> (\<exists>age. tick_probe (cl_proposers c b) = Some (age, p)) \<Longrightarrow>
    cluster_step plan fp c (c\<lparr>cl_proposers := (cl_proposers c)(b := p)\<rparr>)"
| proposed: "plan b = Some cm \<Longrightarrow> cl_licences c b s = Free \<or> cl_licences c b s = Bound v \<Longrightarrow>
    (\<forall>w. Accept_Msg b s w \<notin> cl_net c) \<Longrightarrow> column_ok (cm_config cm) column \<Longrightarrow>
    open_round (cl_proposers c b) s b v None column = Some p \<or>
      open_delegated_round (cl_proposers c b) s b v column proxy = Some p \<Longrightarrow>
    cluster_step plan fp c (c\<lparr>cl_proposers := (cl_proposers c)(b := p),
      cl_net := insert (Accept_Msg b s v) (cl_net c)\<rparr>)"
| proposed_own: "plan b = Some cm \<Longrightarrow> cl_licences c b s = Free \<or> cl_licences c b s = Bound v \<Longrightarrow>
    (\<forall>w. Accept_Msg b s w \<notin> cl_net c) \<Longrightarrow> column_ok (cm_config cm) column \<Longrightarrow>
    node_vote (cl_acceptors c n) b s v = Some (True, a) \<Longrightarrow>
    ac_is_phase2_addressee (cm_config cm) n column = Some True \<Longrightarrow>
    open_round (cl_proposers c b) s b v (Some n) column = Some p \<Longrightarrow>
    cluster_step plan fp c (c\<lparr>cl_acceptors := (cl_acceptors c)(n := a), cl_proposers := (cl_proposers c)(b := p),
      cl_net := insert (Accept_Msg b s v) (cl_net c), cl_votes := insert (n, s, b, v) (cl_votes c)\<rparr>)"
| voted: "Accept_Msg b s v \<in> cl_net c \<Longrightarrow> node_vote (cl_acceptors c n) b s v = Some (True, a) \<Longrightarrow>
    cluster_step plan fp c (c\<lparr>cl_acceptors := (cl_acceptors c)(n := a),
      cl_net := insert (Accepted_Msg n b s (fp v)) (cl_net c), cl_votes := insert (n, s, b, v) (cl_votes c)\<rparr>)"
| voted_healing: "Accept_Msg b s v \<in> cl_net c \<Longrightarrow> acceptor_admit (cl_acceptors c n) b s = Some Admitted \<Longrightarrow>
    s < cl_prefix c n \<Longrightarrow> cl_learned c n s = None \<Longrightarrow>
    acceptor_set_promise id (cl_acceptors c n) b [] = Some (a1, ws) \<Longrightarrow>
    node_learn a1 (cl_learned c n) b s v = Some (a, learned) \<Longrightarrow>
    cluster_step plan fp c (c\<lparr>cl_acceptors := (cl_acceptors c)(n := a), cl_learned := (cl_learned c)(n := learned),
      cl_net := insert (Accepted_Msg n b s (fp v)) (cl_net c), cl_votes := insert (n, s, b, v) (cl_votes c)\<rparr>)"
| counted: "Accepted_Msg n b' s h \<in> cl_net c \<Longrightarrow> plan b = Some cm \<Longrightarrow>
    fold_accepted_in fp (cl_proposers c b) (cm_config cm) n b' s h = Some (cnt, p) \<Longrightarrow>
    cluster_step plan fp c (c\<lparr>cl_proposers := (cl_proposers c)(b := p)\<rparr>)"
| decided: "plan b = Some cm \<Longrightarrow> proposer_decided (cl_proposers c b) s (cm_config cm) = Some (Some (b', v)) \<Longrightarrow>
    cluster_step plan fp c (c\<lparr>cl_proposers := (cl_proposers c)(b := close_round (cl_proposers c b) s),
      cl_net := insert (Commit_Msg b' s v) (cl_net c)\<rparr>)"
| decided_by_proxy: "plan b = Some cm \<Longrightarrow> Accept_Msg b s v \<in> cl_net c \<Longrightarrow>
    phase2_holds (ac_quorum_system (cm_config cm)) (ac_members (cm_config cm)) Q column \<Longrightarrow>
    (\<forall>n \<in> Q. Accepted_Msg n b s (fp v) \<in> cl_net c) \<Longrightarrow>
    cluster_step plan fp c (c\<lparr>cl_net := insert (Commit_Msg b s v) (cl_net c)\<rparr>)"
| learned: "Commit_Msg b s v \<in> cl_net c \<Longrightarrow>
    node_learn (cl_acceptors c n) (cl_learned c n) b s v = Some (a, learned) \<Longrightarrow>
    cluster_step plan fp c (c\<lparr>cl_acceptors := (cl_acceptors c)(n := a), cl_learned := (cl_learned c)(n := learned)\<rparr>)"
| healed: "plan b = Some cm \<Longrightarrow> cl_outcomes c b = Some outcome \<Longrightarrow> fmlookup (po_recovered outcome) s = Some (rb, v) \<Longrightarrow>
    s \<notin> po_blocked outcome \<Longrightarrow> cl_licences c b s = Bound v \<Longrightarrow> (\<forall>w. Accept_Msg b s w \<notin> cl_net c) \<Longrightarrow>
    s < cl_prefix c n \<Longrightarrow> acceptor_promised (cl_acceptors c n) = Some b \<Longrightarrow>
    node_learn (cl_acceptors c n) (cl_learned c n) rb s v = Some (a, learned) \<Longrightarrow>
    cluster_step plan fp c (c\<lparr>cl_acceptors := (cl_acceptors c)(n := a), cl_learned := (cl_learned c)(n := learned)\<rparr>)"
| caught_up: "cl_learned c n s = Some v \<Longrightarrow> acceptor_record (cl_acceptors c n) s = Some (Some (b, w)) \<Longrightarrow>
    cluster_step plan fp c (c\<lparr>cl_net := insert (Commit_Msg b s v) (cl_net c)\<rparr>)"
| advanced: "(\<forall>s. cl_prefix c n \<le> s \<and> s < k \<longrightarrow> cl_learned c n s \<noteq> None) \<Longrightarrow> cl_prefix c n \<le> k \<Longrightarrow>
    cluster_step plan fp c (c\<lparr>cl_prefix := (cl_prefix c)(n := k)\<rparr>)"
| truncated: "acceptor_truncate (cl_acceptors c n) first sealed [] = Some (a, ws) \<Longrightarrow>
    cluster_step plan fp c (c\<lparr>cl_acceptors := (cl_acceptors c)(n := a)\<rparr>)"
| trimmed: "acceptor_trim_to (cl_acceptors c n) point state [] = Some (a, ws) \<Longrightarrow>
    cluster_step plan fp c (c\<lparr>cl_acceptors := (cl_acceptors c)(n := a),
      cl_prefix := (cl_prefix c)(n := max (cl_prefix c n) point)\<rparr>)"
| rebooted: "acceptor_new (acc_promised (cl_acceptors c n)) (fmdrop_set S (rw_map (acc_records (cl_acceptors c n))))
      (acc_floor (cl_acceptors c n)) (rotten S (cl_acceptors c n)) = Some a \<Longrightarrow>
    learned = (\<lambda>s. if s < cl_prefix c n then map_option snd (acc_record a s) else None) \<Longrightarrow>
    cluster_step plan fp c (c\<lparr>cl_acceptors := (cl_acceptors c)(n := a), cl_learned := (cl_learned c)(n := learned)\<rparr>)"
| abandoned: "plan b = Some cm \<Longrightarrow> proposer_abandon (cl_proposers c b) = Some p \<Longrightarrow>
    cluster_step plan fp c (c\<lparr>cl_proposers := (cl_proposers c)(b := p),
      cl_licences := (cl_licences c)(b := (\<lambda>_. Withheld)), cl_outcomes := (cl_outcomes c)(b := None)\<rparr>)"
| rounds_kept: "plan b = Some cm \<Longrightarrow> (\<exists>page. resend_page (cl_proposers c b) limit = Some (page, p)) \<or>
      retain_rounds_from (cl_proposers c b) s = Some p \<Longrightarrow>
    cluster_step plan fp c (c\<lparr>cl_proposers := (cl_proposers c)(b := p)\<rparr>)"
| round_moved: "plan b = Some cm \<Longrightarrow> column_ok (cm_config cm) column \<Longrightarrow>
    fmlookup (rs_by_slot (pr_rounds (cl_proposers c b))) s = Some rd \<Longrightarrow>
    (\<forall>n. own = Some n \<longrightarrow> (n, s, b, rd_command rd) \<in> cl_votes c) \<Longrightarrow>
    move_round (cl_proposers c b) (cm_config cm) s column own = Some (did, p) \<Longrightarrow>
    cluster_step plan fp c (c\<lparr>cl_proposers := (cl_proposers c)(b := p)\<rparr>)"
| round_taken_back: "plan b = Some cm \<Longrightarrow> fmlookup (rs_by_slot (pr_rounds (cl_proposers c b))) s = Some rd \<Longrightarrow>
    (\<forall>n. own = Some n \<longrightarrow> (n, s, b, rd_command rd) \<in> cl_votes c \<and>
       ac_is_phase2_addressee (cm_config cm) n (rd_column rd) = Some True) \<Longrightarrow>
    take_back_round (cl_proposers c b) s own = Some (taken, p) \<Longrightarrow>
    cluster_step plan fp c (c\<lparr>cl_proposers := (cl_proposers c)(b := p)\<rparr>)"
| housekept: "plan b = Some cm \<Longrightarrow> proposer_step fp (cl_proposers c b) p \<Longrightarrow>
    pr_election p = pr_election (cl_proposers c b) \<Longrightarrow> pr_probe p = pr_probe (cl_proposers c b) \<Longrightarrow>
    pr_rounds p = pr_rounds (cl_proposers c b) \<Longrightarrow>
    cluster_step plan fp c (c\<lparr>cl_proposers := (cl_proposers c)(b := p)\<rparr>)"

inductive cluster_reachable ::
  "'id::linorder plan \<Rightarrow> ('v \<Rightarrow> fingerprint) \<Rightarrow> ('id, 'v) cluster \<Rightarrow> bool" for plan fp where
  start: "cluster_reachable plan fp cluster_start"
| step: "cluster_reachable plan fp c \<Longrightarrow> cluster_step plan fp c c' \<Longrightarrow> cluster_reachable plan fp c'"

end
