(* ===== verification/Consensus_Inv.thy ===== *)
theory Consensus_Inv
  imports Consensus
begin

section \<open>The invariant of the cluster\<close>

text \<open>
  The voting machine behind a cluster, and what each part of the state knows about the votes cast so far:
  an acceptor's log covers its votes, a page covers its sender's votes below the page's ballot, a tally of
  pages covers the votes of those that answered, a licence leaves no other value choosable, a round counts
  votes really cast, and whatever is committed or learned was chosen.
\<close>

subsection \<open>The voting machine behind a cluster\<close>

definition quorum2 :: "'id::linorder plan \<Rightarrow> 'id quorums" where
  "quorum2 plan b Q \<longleftrightarrow> (\<exists>cm column. plan b = Some cm \<and> config_ok (cm_config cm) \<and>
     phase2_holds (ac_quorum_system (cm_config cm)) (ac_members (cm_config cm)) Q column)"

definition plan_ok :: "'id::linorder plan \<Rightarrow> bool" where
  "plan_ok plan \<longleftrightarrow> (\<forall>b cm. plan b = Some cm \<longrightarrow> cm_ballot cm = b \<and> campaign_ok cm \<and>
     (\<forall>b' cm'. b' < b \<longrightarrow> plan b' = Some cm' \<longrightarrow> cm_config cm' \<in> set (cm_prior cm)))"

lemma plan_okD:
  assumes "plan_ok plan" "plan b = Some cm"
  shows "cm_ballot cm = b" "campaign_ok cm" "config_ok (cm_config cm)"
    and "b' < b \<Longrightarrow> plan b' = Some cm' \<Longrightarrow> cm_config cm' \<in> set (cm_prior cm)"
  using assms unfolding plan_ok_def campaign_ok_def by blast+

definition voting_of :: "('id, 'v) cluster \<Rightarrow> ('id, 'v) voting" where
  "voting_of c = \<lparr>vo_promised = (\<lambda>n. acc_promised (cl_acceptors c n)), vo_votes = cl_votes c,
     vo_proposed = {(b, s, v). Accept_Msg b s v \<in> cl_net c}\<rparr>"

interpretation cv: voting_system "quorum2 plan" for plan
proof
  show "quorum2 plan b Q \<Longrightarrow> Q \<noteq> {}" for b Q
    using phase2_holds_nonempty by (auto simp: quorum2_def)
qed

subsection \<open>What a reported ballot accounts for\<close>

text \<open>A report at ballot \<open>rb\<close> accounts for a vote at \<open>b\<close> when it is at least as high, or when the slot was
  already chosen at or below \<open>rb\<close>: every later vote then repeats the chosen value.\<close>

definition covers :: "'id quorums \<Rightarrow> ('id, 'v) voting \<Rightarrow> ballot \<Rightarrow> slot \<Rightarrow> ballot \<Rightarrow> bool" where
  "covers Q2 V rb s b \<longleftrightarrow> b \<le> rb \<or> (\<exists>b0 w. b0 \<le> rb \<and> chosen_at Q2 V b0 s w)"

definition reported ::
  "'id quorums \<Rightarrow> ('id, 'v) voting \<Rightarrow> (ballot \<times> 'v) option \<Rightarrow> ballot option \<Rightarrow> slot \<Rightarrow> ballot \<Rightarrow> bool" where
  "reported Q2 V readable faulty s b \<longleftrightarrow> (\<exists>rb w. readable = Some (rb, w) \<and> covers Q2 V rb s b) \<or>
     (\<exists>rb. faulty = Some rb \<and> covers Q2 V rb s b)"

lemma covers_mono: "covers Q2 V rb s b \<Longrightarrow> rb \<le> rb' \<Longrightarrow> covers Q2 V rb' s b"
  unfolding covers_def by (meson order_trans)

lemma covers_grows: "covers Q2 V rb s b \<Longrightarrow> voting_grows V V' \<Longrightarrow> covers Q2 V' rb s b"
  unfolding covers_def by (blast intro: chosen_at_grows)

lemma reported_grows: "reported Q2 V r f s b \<Longrightarrow> voting_grows V V' \<Longrightarrow> reported Q2 V' r f s b"
  unfolding reported_def by (blast intro: covers_grows)

lemma covers_refl [simp]: "covers Q2 V rb s rb"
  by (simp add: covers_def)

text \<open>A readable report that accounts for a vote at a ballot where a value can still be chosen carries
  that value.\<close>

lemma covers_choosable:
  assumes ok: "voting_ok (quorum2 plan) V" and pd: "(rb, s, w) \<in> vo_proposed V"
    and cov: "covers (quorum2 plan) V rb s b" and vote: "(b, s, v) \<in> vo_proposed V"
    and able: "choosable (quorum2 plan) V b s v"
  shows "w = v"
proof -
  consider "b = rb" | "b < rb" | b0 u where "rb < b" "b0 \<le> rb" "chosen_at (quorum2 plan) V b0 s u"
    using cov linorder_less_linear[of b rb] unfolding covers_def by (meson leD)
  then show ?thesis
  proof cases
    case 1
    then show ?thesis using voting_okD(3)[OF ok pd] vote by simp
  next
    case 2
    then show ?thesis using voting_okD(4)[OF ok pd _ able] by simp
  next
    case 3
    have "w = u" using cv.chosen_rules_above[OF ok 3(3) pd 3(2)] .
    moreover have "v = u" using cv.chosen_rules_above[OF ok 3(3) vote] 3(1,2) by (meson less_imp_le order_trans)
    ultimately show ?thesis by simp
  qed
qed

subsection \<open>The invariant, component by component\<close>

definition node_inv ::
  "'id quorums \<Rightarrow> ('id, 'v) voting \<Rightarrow> 'id \<Rightarrow> 'v acceptor \<Rightarrow> (slot \<Rightarrow> 'v option) \<Rightarrow> slot \<Rightarrow> bool" where
  "node_inv Q2 V n a learned k \<longleftrightarrow> acceptor_ok a \<and> vo_promised V n = acc_promised a \<and>
     (\<forall>s b v. acc_record a s = Some (b, v) \<longrightarrow> (b, s, v) \<in> vo_proposed V) \<and>
     (\<forall>s b v. (n, s, b, v) \<in> vo_votes V \<longrightarrow> acc_floor a \<le> s \<longrightarrow>
        reported Q2 V (acc_record a s) (fmlookup (rw_map (acc_faulty a)) s) s b) \<and>
     (\<forall>s v. learned s = Some v \<longrightarrow> (\<exists>b. chosen_at Q2 V b s v)) \<and>
     (\<forall>s v. learned s = Some v \<longrightarrow> acc_floor a \<le> s \<longrightarrow>
        (\<exists>b b0. acc_record a s = Some (b, v) \<and> b0 \<le> b \<and> chosen_at Q2 V b0 s v)) \<and>
     (\<forall>s < k. acc_floor a \<le> s \<longrightarrow> (\<exists>rb b0 w. b0 \<le> rb \<and> chosen_at Q2 V b0 s w \<and>
        ((\<exists>v. acc_record a s = Some (rb, v)) \<or> fmlookup (rw_map (acc_faulty a)) s = Some rb)))"

definition tally_inv ::
  "'id quorums \<Rightarrow> ('id, 'v) voting \<Rightarrow> ballot \<Rightarrow> 'id promise_tally \<Rightarrow> (slot \<Rightarrow> bool) \<Rightarrow>
   (slot, ballot \<times> 'v) fmap \<Rightarrow> (slot, ('id, ballot) fmap) fmap \<Rightarrow> bool" where
  "tally_inv Q2 V b t S best faulty \<longleftrightarrow> pt_ballot t = b \<and>
     (\<forall>a. a \<in> pt_answered t \<or> pt_from_slot t < pt_expected t a \<longrightarrow> b \<le> vo_promised V a) \<and>
     (\<forall>s rb w. S s \<longrightarrow> fmlookup best s = Some (rb, w) \<longrightarrow> (rb, s, w) \<in> vo_proposed V) \<and>
     (\<forall>a s c v. S s \<longrightarrow> pt_from_slot t \<le> s \<longrightarrow> a \<in> pt_answered t \<or> s < pt_expected t a \<longrightarrow>
        (a, s, c, v) \<in> vo_votes V \<longrightarrow> c < b \<longrightarrow>
        reported Q2 V (fmlookup best s) (Option.bind (fmlookup faulty s) (\<lambda>r. fmlookup r a)) s c)"

definition rounds_inv ::
  "'id::linorder acceptor_config \<Rightarrow> ('v \<Rightarrow> fingerprint) \<Rightarrow> ('id, 'v) voting \<Rightarrow> ballot \<Rightarrow> ('id, 'v) rounds \<Rightarrow> bool" where
  "rounds_inv config fp V b rs \<longleftrightarrow>
     rounds_ok config fp {(n, s, b, fp v) | n s b v. (n, s, b, v) \<in> vo_votes V} rs \<and>
     (\<forall>s rd. fmlookup (rs_by_slot rs) s = Some rd \<longrightarrow> rd_ballot rd = b \<and> (b, s, rd_command rd) \<in> vo_proposed V)"

definition leader_inv ::
  "'id::linorder plan \<Rightarrow> ('v \<Rightarrow> fingerprint) \<Rightarrow> ('id, 'v) voting \<Rightarrow> ballot \<Rightarrow> ('id, 'v) proposer \<Rightarrow> bool" where
  "leader_inv plan fp V b p \<longleftrightarrow> proposer_ok p \<and> (\<forall>cm. plan b = Some cm \<longrightarrow>
     (\<forall>e. pr_election p = Some e \<longrightarrow> el_prior e = cm_prior cm \<and> pt_from_slot (el_promises e) = cm_from_slot cm \<and>
        tally_inv (quorum2 plan) V b (el_promises e) (\<lambda>_. True) (el_recovered e) (el_faulty_reports e)) \<and>
     (\<forall>q. pr_probe p = Some q \<longrightarrow> rp_prior q = cm_prior cm \<and> pt_from_slot (rp_promises q) = cm_from_slot cm \<and>
        tally_inv (quorum2 plan) V b (rp_promises q) (\<lambda>s. s \<in> rp_blocked q) (rp_best_have q) (rp_faulty_reports q)) \<and>
     rounds_inv (cm_config cm) fp V b (pr_rounds p))"

definition licence_inv :: "'id quorums \<Rightarrow> ('id, 'v) voting \<Rightarrow> ballot \<Rightarrow> (slot \<Rightarrow> 'v licence) \<Rightarrow> bool" where
  "licence_inv Q2 V b lic \<longleftrightarrow> (\<forall>s c w. c < b \<longrightarrow> choosable Q2 V c s w \<longrightarrow> lic s \<noteq> Free \<and> (\<forall>v. lic s = Bound v \<longrightarrow> w = v))"

definition probed_slots :: "('id, 'v) proposer \<Rightarrow> slot set" where
  "probed_slots p = (case pr_probe p of None \<Rightarrow> {} | Some q \<Rightarrow> rp_blocked q)"

definition outcome_inv ::
  "'id quorums \<Rightarrow> ('id, 'v) voting \<Rightarrow> ballot \<Rightarrow> (slot \<Rightarrow> 'v licence) \<Rightarrow> ('id, 'v) phase1_outcome option \<Rightarrow>
   slot set \<Rightarrow> bool" where
  "outcome_inv Q2 V b lic outcome probed \<longleftrightarrow> (\<forall>o'. outcome = Some o' \<longrightarrow> probed \<subseteq> po_blocked o') \<and> (\<forall>o' s rb v. outcome = Some o' \<longrightarrow> s \<notin> po_blocked o' \<longrightarrow> lic s = Bound v \<longrightarrow>
     fmlookup (po_recovered o') s = Some (rb, v) \<longrightarrow> (rb, s, v) \<in> vo_proposed V \<and>
     (\<forall>c w. c < b \<longrightarrow> choosable Q2 V c s w \<longrightarrow> covers Q2 V rb s c))"

fun msg_inv :: "'id quorums \<Rightarrow> ('v \<Rightarrow> fingerprint) \<Rightarrow> ('id, 'v) voting \<Rightarrow> ('id, 'v) msg \<Rightarrow> bool" where
  "msg_inv Q2 fp V (Promise_Msg a b from accepted faulty next) \<longleftrightarrow> b \<le> vo_promised V a \<and>
     (\<forall>s rb w. fmlookup accepted s = Some (rb, w) \<longrightarrow> (rb, s, w) \<in> vo_proposed V) \<and>
     (\<forall>s c v. from \<le> s \<longrightarrow> (\<forall>k. next = Some k \<longrightarrow> s < k) \<longrightarrow> (a, s, c, v) \<in> vo_votes V \<longrightarrow> c < b \<longrightarrow>
        reported Q2 V (fmlookup accepted s) (fmlookup faulty s) s c)"
| "msg_inv Q2 fp V (Accept_Msg b s v) \<longleftrightarrow> True"
| "msg_inv Q2 fp V (Accepted_Msg a b s h) \<longleftrightarrow> (\<exists>v. (a, s, b, v) \<in> vo_votes V \<and> fp v = h)"
| "msg_inv Q2 fp V (Commit_Msg b s v) \<longleftrightarrow> (b, s, v) \<in> vo_proposed V \<and> (\<exists>b0. b0 \<le> b \<and> chosen_at Q2 V b0 s v)"

definition cluster_inv ::
  "'id::linorder plan \<Rightarrow> ('v \<Rightarrow> fingerprint) \<Rightarrow> ('id, 'v) cluster \<Rightarrow> bool" where
  "cluster_inv plan fp c \<longleftrightarrow> (let V = voting_of c; Q2 = quorum2 plan in
     voting_ok Q2 V \<and>
     (\<forall>n. node_inv Q2 V n (cl_acceptors c n) (cl_learned c n) (cl_prefix c n)) \<and>
     (\<forall>b. leader_inv plan fp V b (cl_proposers c b)) \<and>
     (\<forall>b. licence_inv Q2 V b (cl_licences c b)) \<and>
     (\<forall>b. outcome_inv Q2 V b (cl_licences c b) (cl_outcomes c b) (probed_slots (cl_proposers c b))) \<and>
     (\<forall>m \<in> cl_net c. msg_inv Q2 fp V m))"

subsection \<open>Stability\<close>

text \<open>What a component knows stays true while the machine moves.\<close>

abbreviation acc_rot :: "'v acceptor \<Rightarrow> slot \<Rightarrow> ballot option" where
  "acc_rot a s \<equiv> fmlookup (rw_map (acc_faulty a)) s"

lemma node_invD:
  assumes "node_inv Q2 V n a learned k"
  shows "acceptor_ok a" "vo_promised V n = acc_promised a"
    and "acc_record a s = Some (b, v) \<Longrightarrow> (b, s, v) \<in> vo_proposed V"
    and "(n, s, b, v) \<in> vo_votes V \<Longrightarrow> acc_floor a \<le> s \<Longrightarrow> reported Q2 V (acc_record a s) (acc_rot a s) s b"
    and "learned s = Some v \<Longrightarrow> \<exists>b. chosen_at Q2 V b s v"
    and "learned s = Some v \<Longrightarrow> acc_floor a \<le> s \<Longrightarrow>
      \<exists>b b0. acc_record a s = Some (b, v) \<and> b0 \<le> b \<and> chosen_at Q2 V b0 s v"
    and "s < k \<Longrightarrow> acc_floor a \<le> s \<Longrightarrow> \<exists>rb b0 w. b0 \<le> rb \<and> chosen_at Q2 V b0 s w \<and>
      ((\<exists>v. acc_record a s = Some (rb, v)) \<or> acc_rot a s = Some rb)"
  using assms unfolding node_inv_def by blast+

lemma node_invI:
  assumes "acceptor_ok a" "vo_promised V n = acc_promised a"
    and "\<And>s b v. acc_record a s = Some (b, v) \<Longrightarrow> (b, s, v) \<in> vo_proposed V"
    and "\<And>s b v. (n, s, b, v) \<in> vo_votes V \<Longrightarrow> acc_floor a \<le> s \<Longrightarrow> reported Q2 V (acc_record a s) (acc_rot a s) s b"
    and "\<And>s v. learned s = Some v \<Longrightarrow> \<exists>b. chosen_at Q2 V b s v"
    and "\<And>s v. learned s = Some v \<Longrightarrow> acc_floor a \<le> s \<Longrightarrow>
      \<exists>b b0. acc_record a s = Some (b, v) \<and> b0 \<le> b \<and> chosen_at Q2 V b0 s v"
    and "\<And>s. s < k \<Longrightarrow> acc_floor a \<le> s \<Longrightarrow> \<exists>rb b0 w. b0 \<le> rb \<and> chosen_at Q2 V b0 s w \<and>
      ((\<exists>v. acc_record a s = Some (rb, v)) \<or> acc_rot a s = Some rb)"
  shows "node_inv Q2 V n a learned k"
  using assms unfolding node_inv_def by blast

lemma node_inv_grows:
  assumes inv: "node_inv Q2 V n a learned k" and grow: "voting_grows V V'" and p: "vo_promised V' n = vo_promised V n"
    and old: "\<And>s b v. (n, s, b, v) \<in> vo_votes V' \<Longrightarrow> (n, s, b, v) \<in> vo_votes V"
  shows "node_inv Q2 V' n a learned k"
proof (rule node_invI)
  show "acceptor_ok a" "vo_promised V' n = acc_promised a" using node_invD(1,2)[OF inv] p by simp_all
  show "(b, s, v) \<in> vo_proposed V'" if "acc_record a s = Some (b, v)" for s b v
    using node_invD(3)[OF inv that] by (rule voting_growsD(3)[OF grow])
  show "reported Q2 V' (acc_record a s) (acc_rot a s) s b" if "(n, s, b, v) \<in> vo_votes V'" "acc_floor a \<le> s" for s b v
    using node_invD(4)[OF inv old[OF that(1)] that(2)] grow by (rule reported_grows)
  show "\<exists>b. chosen_at Q2 V' b s v" if "learned s = Some v" for s v
    using node_invD(5)[OF inv that] chosen_at_grows[OF _ grow] by blast
  show "\<exists>b b0. acc_record a s = Some (b, v) \<and> b0 \<le> b \<and> chosen_at Q2 V' b0 s v"
    if "learned s = Some v" "acc_floor a \<le> s" for s v
    using node_invD(6)[OF inv that] chosen_at_grows[OF _ grow] by blast
  show "\<exists>rb b0 w. b0 \<le> rb \<and> chosen_at Q2 V' b0 s w \<and> ((\<exists>v. acc_record a s = Some (rb, v)) \<or> acc_rot a s = Some rb)"
    if "s < k" "acc_floor a \<le> s" for s
    using node_invD(7)[OF inv that] chosen_at_grows[OF _ grow] by blast
qed

lemma tally_inv_grows:
  assumes "tally_inv Q2 V b t S best faulty" "voting_grows V V'"
  shows "tally_inv Q2 V' b t S best faulty"
proof -
  have old: "(a, s, c, v) \<in> vo_votes V"
    if "pt_from_slot t \<le> s" "a \<in> pt_answered t \<or> s < pt_expected t a" "(a, s, c, v) \<in> vo_votes V'" "c < b" for a s c v
  proof -
    have "b \<le> vo_promised V a" using assms(1) that(1,2) unfolding tally_inv_def by (meson order_le_less_trans)
    then show ?thesis using voting_growsD(4)[OF assms(2) that(3)] order_less_le_trans[OF that(4)] by blast
  qed
  show ?thesis
    unfolding tally_inv_def
  proof (intro conjI allI impI)
    show "pt_ballot t = b" using assms(1) by (simp add: tally_inv_def)
    show "b \<le> vo_promised V' a" if "a \<in> pt_answered t \<or> pt_from_slot t < pt_expected t a" for a
      using assms(1) that voting_growsD(1)[OF assms(2), of a] unfolding tally_inv_def by (meson order_trans)
    show "(rb, s, w) \<in> vo_proposed V'" if "S s" "fmlookup best s = Some (rb, w)" for s rb w
      using assms(1) that voting_growsD(3)[OF assms(2)] unfolding tally_inv_def by blast
    show "reported Q2 V' (fmlookup best s) (Option.bind (fmlookup faulty s) (\<lambda>r. fmlookup r a)) s c"
      if "S s" "pt_from_slot t \<le> s" "a \<in> pt_answered t \<or> s < pt_expected t a" "(a, s, c, v) \<in> vo_votes V'" "c < b"
      for a s c v
    proof (rule reported_grows[OF _ assms(2)])
      show "reported Q2 V (fmlookup best s) (Option.bind (fmlookup faulty s) (\<lambda>r. fmlookup r a)) s c"
        using assms(1) that old[OF that(2-5)] unfolding tally_inv_def by blast
    qed
  qed
qed

lemma rounds_inv_grows:
  assumes "rounds_inv config fp V b rs" "voting_grows V V'"
  shows "rounds_inv config fp V' b rs"
proof -
  have "{(n, s, b, fp v) | n s b v. (n, s, b, v) \<in> vo_votes V} \<subseteq> {(n, s, b, fp v) | n s b v. (n, s, b, v) \<in> vo_votes V'}"
    using voting_growsD(2)[OF assms(2)] by blast
  then show ?thesis
    using assms(1) voting_growsD(3)[OF assms(2)] unfolding rounds_inv_def rounds_ok_def by (meson round_ok_mono)
qed

lemma leader_inv_grows: "leader_inv plan fp V b p \<Longrightarrow> voting_grows V V' \<Longrightarrow> leader_inv plan fp V' b p"
  unfolding leader_inv_def by (blast intro: tally_inv_grows rounds_inv_grows)

lemma licence_inv_grows: "licence_inv Q2 V b lic \<Longrightarrow> voting_grows V V' \<Longrightarrow> licence_inv Q2 V' b lic"
  unfolding licence_inv_def by (blast dest: choosable_grows)

lemma outcome_inv_grows:
  assumes "outcome_inv Q2 V b lic out P" "voting_grows V V'"
  shows "outcome_inv Q2 V' b lic out P"
  using assms unfolding outcome_inv_def by (blast intro: covers_grows voting_growsD(3) dest: choosable_grows)

lemma msg_inv_grows:
  assumes "msg_inv Q2 fp V m" "voting_grows V V'"
  shows "msg_inv Q2 fp V' m"
proof (cases m)
  case (Promise_Msg a b from_slot accepted faulty "next")
  note inv = assms(1)[unfolded Promise_Msg msg_inv.simps]
  show ?thesis
    unfolding Promise_Msg msg_inv.simps
  proof (intro conjI allI impI)
    show "b \<le> vo_promised V' a" using inv voting_growsD(1)[OF assms(2), of a] by (meson order_trans)
    show "(rb, s, w) \<in> vo_proposed V'" if "fmlookup accepted s = Some (rb, w)" for s rb w
      using inv that voting_growsD(3)[OF assms(2)] by blast
    show "reported Q2 V' (fmlookup accepted s) (fmlookup faulty s) s c"
      if "from_slot \<le> s" "\<forall>k. next = Some k \<longrightarrow> s < k" "(a, s, c, v) \<in> vo_votes V'" "c < b" for s c v
    proof (rule reported_grows[OF _ assms(2)])
      have "c < vo_promised V a" using inv that(4) by (meson order_less_le_trans)
      then have "(a, s, c, v) \<in> vo_votes V" using voting_growsD(4)[OF assms(2) that(3)] by blast
      then show "reported Q2 V (fmlookup accepted s) (fmlookup faulty s) s c" using inv that by blast
    qed
  qed
next
  case (Accepted_Msg a b s h)
  then show ?thesis using assms(1) voting_growsD(2)[OF assms(2), of a s b] unfolding Accepted_Msg msg_inv.simps by blast
next
  case (Commit_Msg b s v)
  then show ?thesis
    using assms(1) voting_growsD(3)[OF assms(2), of b s v] chosen_at_grows[OF _ assms(2)]
    unfolding Commit_Msg msg_inv.simps by blast
qed simp

subsection \<open>Pages\<close>

lemma page_msg_inv:
  assumes inv: "node_inv Q2 V n a learned k" and floor: "acc_floor a \<le> from"
    and page: "acceptor_promise_page a from limit = Some page" "0 < limit" "limit \<le> PROMISE_BATCH"
  shows "msg_inv Q2 fp V (Promise_Msg n (acc_promised a) from (pp_accepted page) (pp_faulty page) (pp_next_from_slot page))"
proof -
  obtain nxt where nxt: "page = page_of a from nxt"
    using acceptor_promise_page_total[OF node_invD(1)[OF inv] page(2,3), of "from"] page(1) by auto
  have look: "fmlookup (pp_accepted page) s = (if from \<le> s \<and> before_next nxt s then acc_record a s else None)"
    "fmlookup (pp_faulty page) s = (if from \<le> s \<and> before_next nxt s then acc_rot a s else None)" for s
    by (auto simp: nxt page_of_def)
  have "reported Q2 V (fmlookup (pp_accepted page) s) (fmlookup (pp_faulty page) s) s c"
    if "from \<le> s" "\<forall>k. nxt = Some k \<longrightarrow> s < k" "(n, s, c, v) \<in> vo_votes V" for s c v
    using node_invD(4)[OF inv that(3)] that floor by (simp add: look before_next_def split: option.split)
  then show ?thesis
    using node_invD(2,3)[OF inv] by (auto simp: look nxt page_of_def split: if_splits)
qed

subsection \<open>Tallies\<close>

lemma reported_better:
  assumes "reported Q2 V r f s c" "\<And>rb w. r = Some (rb, w) \<Longrightarrow> \<exists>rb' w'. r' = Some (rb', w') \<and> rb \<le> rb'"
    and "\<And>rb. f = Some rb \<Longrightarrow> f' = Some rb"
  shows "reported Q2 V r' f' s c"
  using assms covers_mono unfolding reported_def by (metis (no_types))

lemma tally_inv_page:
  assumes inv: "tally_inv Q2 V b t S best faulty" and msg: "msg_inv Q2 fp V (Promise_Msg a b' from accepted rot next)"
    and adm: "page_admitted t a b' from accepted rot next"
    and best: "\<And>s. S s \<Longrightarrow> fmlookup best' s = best_vote (fmlookup best s) (fmlookup accepted s)"
    and fault: "\<And>s. S s \<Longrightarrow> fmlookup faulty' s = (case fmlookup rot s of None \<Rightarrow> fmlookup faulty s
      | Some fb \<Rightarrow> Some (fmupd a fb (case fmlookup faulty s of None \<Rightarrow> fmempty | Some r \<Rightarrow> r)))"
  shows "tally_inv Q2 V b (page_closed t a next) S best' faulty'"
proof -
  let ?t = "page_closed t a next"
  have shape: "promise_page_shape_valid (pt_expected t a) accepted rot from next" and fresh: "a \<notin> pt_answered t"
    and bal: "b' = b" using adm inv by (simp_all add: page_admitted_def tally_inv_def)
  have from_slot: "from = pt_expected t a" using page_shapeD(1)[OF shape] .
  have ans: "x \<in> pt_answered ?t \<longleftrightarrow> x \<in> pt_answered t \<or> x = a \<and> next = None" for x by (auto split: if_splits)
  have prom: "b \<le> vo_promised V x" if "x \<in> pt_answered ?t \<or> pt_from_slot ?t < pt_expected ?t x" for x
    using that inv msg bal by (cases "x = a") (auto simp: tally_inv_def pt_expected_closed split: if_splits)
  have pd: "(rb, s, w) \<in> vo_proposed V" if "S s" "fmlookup best' s = Some (rb, w)" for s rb w
  proof -
    have "fmlookup best s = Some (rb, w) \<or> fmlookup accepted s = Some (rb, w)"
      using that best_vote_in[of "fmlookup best s" "fmlookup accepted s"] by (auto simp: best)
    then show ?thesis using inv msg that(1) unfolding tally_inv_def msg_inv.simps by blast
  qed
  have rep: "reported Q2 V (fmlookup best' s) (Option.bind (fmlookup faulty' s) (\<lambda>r. fmlookup r x)) s c"
    if *: "S s" "pt_from_slot t \<le> s" "x \<in> pt_answered ?t \<or> s < pt_expected ?t x" "(x, s, c, v) \<in> vo_votes V" "c < b" for x s c v
  proof (cases "x \<in> pt_answered t \<or> s < pt_expected t x")
    case True
    have "reported Q2 V (fmlookup best s) (Option.bind (fmlookup faulty s) (\<lambda>r. fmlookup r x)) s c"
      using inv * True unfolding tally_inv_def by blast
    then show ?thesis
    proof (rule reported_better)
      show "\<exists>rb' w'. fmlookup best' s = Some (rb', w') \<and> rb \<le> rb'" if "fmlookup best s = Some (rb, w)" for rb w
        using best_vote_upper(1)[OF that] by (simp add: best[OF *(1)])
      have "x = a \<Longrightarrow> fmlookup rot s = None"
        using True fresh page_shapeD(3)[OF shape] from_slot by (metis leD not_None_eq)
      then show "Option.bind (fmlookup faulty' s) (\<lambda>r. fmlookup r x) = Some rb"
        if "Option.bind (fmlookup faulty s) (\<lambda>r. fmlookup r x) = Some rb" for rb
        using that by (auto simp: fault[OF *(1)] split: option.splits)
    qed
  next
    case False
    then have x: "x = a" "from \<le> s" "\<forall>k. next = Some k \<longrightarrow> s < k"
      using *(3) by (auto simp: ans pt_expected_closed from_slot split: if_splits)
    have "reported Q2 V (fmlookup accepted s) (fmlookup rot s) s c"
      using msg x *(4,5) bal unfolding msg_inv.simps by blast
    then show ?thesis
    proof (rule reported_better)
      show "\<exists>rb' w'. fmlookup best' s = Some (rb', w') \<and> rb \<le> rb'" if "fmlookup accepted s = Some (rb, w)" for rb w
        using best_vote_upper(2)[OF that] by (simp add: best[OF *(1)])
      show "Option.bind (fmlookup faulty' s) (\<lambda>r. fmlookup r x) = Some rb" if "fmlookup rot s = Some rb" for rb
        using that x by (simp add: fault[OF *(1)])
    qed
  qed
  show ?thesis
    unfolding tally_inv_def
    using inv prom pd rep by (simp add: tally_inv_def)
qed

text \<open>The heart of Phase 1: where every prior configuration holds a quorum of answers that qualify, any
  value some lower ballot could still choose has been recovered.\<close>

lemma tally_decides:
  assumes ok: "voting_ok (quorum2 plan) V" and plan: "plan_ok plan" "plan b = Some cm"
    and inv: "tally_inv (quorum2 plan) V b t S best faulty" and slot: "S s" "pt_from_slot t \<le> s"
    and won: "\<forall>c \<in> set (cm_prior cm). config_phase1 c {node \<in> pt_answered t.
      qualifies (fmlookup faulty s) (map_option fst (fmlookup best s)) node}"
    and able: "choosable (quorum2 plan) V c s v" "c < b"
  shows "\<exists>rb. fmlookup best s = Some (rb, v) \<and> covers (quorum2 plan) V rb s c"
proof -
  obtain Q cm' column where Q: "plan c = Some cm'" "config_ok (cm_config cm')"
    "phase2_holds (ac_quorum_system (cm_config cm')) (ac_members (cm_config cm')) Q column"
    "\<forall>a \<in> Q. (a, s, c, v) \<in> vo_votes V \<or> vo_promised V a \<le> c"
    using able(1) by (auto simp: choosable_def quorum2_def)
  have "cm_config cm' \<in> set (cm_prior cm)" using plan_okD(4)[OF plan able(2) Q(1)] .
  then obtain a where a: "a \<in> Q" "a \<in> pt_answered t"
    "qualifies (fmlookup faulty s) (map_option fst (fmlookup best s)) a"
    using phases_intersect[OF config_okD(1,2)[OF Q(2)] _ Q(3)] won unfolding config_phase1_def by blast
  have "c < vo_promised V a" using inv a(2) able(2) unfolding tally_inv_def by (meson order_less_le_trans)
  then have vote: "(a, s, c, v) \<in> vo_votes V" using Q(4) a(1) by (meson leD)
  have "reported (quorum2 plan) V (fmlookup best s) (Option.bind (fmlookup faulty s) (\<lambda>r. fmlookup r a)) s c"
    using inv slot a(2) vote able(2) unfolding tally_inv_def by blast
  then obtain rb w where rb: "fmlookup best s = Some (rb, w)" "covers (quorum2 plan) V rb s c"
  proof -
    have "\<exists>rb' w. fmlookup best s = Some (rb', w) \<and> rb \<le> rb'"
      if "Option.bind (fmlookup faulty s) (\<lambda>r. fmlookup r a) = Some rb" for rb
    proof -
      have "Some rb \<le> map_option fst (fmlookup best s)" using a(3) that by (auto simp: qualifies_def bind_Some_iff)
      then show ?thesis by (cases "fmlookup best s") auto
    qed
    then show ?thesis
      using that \<open>reported _ _ _ _ _ _\<close> covers_mono unfolding reported_def by metis
  qed
  have "(rb, s, w) \<in> vo_proposed V" using inv slot(1) rb(1) unfolding tally_inv_def by blast
  then have "w = v" using covers_choosable[OF ok _ rb(2) voting_okD(1)[OF ok vote] able(1)] by blast
  then show ?thesis using rb by blast
qed

end
