(* ===== verification/Consensus_Leaders.thy ===== *)
theory Consensus_Leaders
  imports Consensus_Inv
begin

section \<open>What a leader does keeps its invariant\<close>

text \<open>
  The proposer side of the safety proof: campaigns open over what the candidate's own log accounts for, fold
  pages, close into licences that leave no other value choosable, and the repair probe and the rounds carry
  the same knowledge through a reign.
\<close>

lemma tally_agrees:
  assumes "tally_inv Q2 V b t S best faulty" "msg_inv Q2 fp V (Promise_Msg n b' from accepted rot next)"
    and "voting_ok Q2 V" "S s"
  shows "votes_agree (fmlookup best s) (fmlookup accepted s)"
proof -
  have "(c, s, v) \<in> vo_proposed V" if "fmlookup best s = Some (c, v)" for c v
    using assms(1,4) that unfolding tally_inv_def by blast
  moreover have "(c, s, v) \<in> vo_proposed V" if "fmlookup accepted s = Some (c, v)" for c v
    using assms(2) that by simp
  ultimately show ?thesis using voting_okD(3)[OF assms(3)] unfolding votes_agree_def by blast
qed

lemma leader_invD:
  assumes "leader_inv plan fp V b p" "plan b = Some cm"
  shows "proposer_ok p"
    and "pr_election p = Some e \<Longrightarrow> el_prior e = cm_prior cm"
    and "pr_election p = Some e \<Longrightarrow> pt_from_slot (el_promises e) = cm_from_slot cm"
    and "pr_election p = Some e \<Longrightarrow>
      tally_inv (quorum2 plan) V b (el_promises e) (\<lambda>_. True) (el_recovered e) (el_faulty_reports e)"
    and "pr_probe p = Some q \<Longrightarrow> rp_prior q = cm_prior cm"
    and "pr_probe p = Some q \<Longrightarrow> pt_from_slot (rp_promises q) = cm_from_slot cm"
    and "pr_probe p = Some q \<Longrightarrow>
      tally_inv (quorum2 plan) V b (rp_promises q) (\<lambda>s. s \<in> rp_blocked q) (rp_best_have q) (rp_faulty_reports q)"
    and "rounds_inv (cm_config cm) fp V b (pr_rounds p)"
  using assms unfolding leader_inv_def by blast+

lemma leader_invI:
  assumes "plan b = Some cm" "proposer_ok p"
    and "\<And>e. pr_election p = Some e \<Longrightarrow> el_prior e = cm_prior cm \<and> pt_from_slot (el_promises e) = cm_from_slot cm \<and>
      tally_inv (quorum2 plan) V b (el_promises e) (\<lambda>_. True) (el_recovered e) (el_faulty_reports e)"
    and "\<And>q. pr_probe p = Some q \<Longrightarrow> rp_prior q = cm_prior cm \<and> pt_from_slot (rp_promises q) = cm_from_slot cm \<and>
      tally_inv (quorum2 plan) V b (rp_promises q) (\<lambda>s. s \<in> rp_blocked q) (rp_best_have q) (rp_faulty_reports q)"
    and "rounds_inv (cm_config cm) fp V b (pr_rounds p)"
  shows "leader_inv plan fp V b p"
  using assms unfolding leader_inv_def by (metis option.inject)

lemma rounds_inv_empty: "rounds_is_empty rs \<Longrightarrow> rounds_inv config fp V b rs"
  by (simp add: rounds_inv_def rounds_is_empty_def rounds_ok_def)

lemma opened_tally_inv:
  assumes own: "case cm_me cm of None \<Rightarrow> R = fmempty \<and> F = fmempty
      | Some n \<Rightarrow> acc_promised (A n) = cm_ballot cm \<and> R = rw_map (acc_records (A n)) \<and> F = rw_map (acc_faulty (A n)) \<and>
          acc_floor (A n) \<le> cm_from_slot cm"
    and nodes: "\<And>n. node_inv Q2 V n (A n) (L n) (K n)"
  shows "tally_inv Q2 V (cm_ballot cm) (el_promises (opened_election cm R F)) (\<lambda>_. True)
    (el_recovered (opened_election cm R F)) (el_faulty_reports (opened_election cm R F))"
proof (cases "cm_me cm")
  case None
  then show ?thesis using own by (auto simp: tally_inv_def opened_election_def pt_expected_def)
next
  case (Some n)
  note inv = nodes[of n]
  have o: "acc_promised (A n) = cm_ballot cm" "R = rw_map (acc_records (A n))" "F = rw_map (acc_faulty (A n))"
    "acc_floor (A n) \<le> cm_from_slot cm" using own Some by simp_all
  have look: "fmlookup (fm_from (cm_from_slot cm) R) s = acc_record (A n) s"
    "Option.bind (fmlookup (add_faulty n fmempty (fm_entries (fm_from (cm_from_slot cm) F))) s) (\<lambda>r. fmlookup r n) = acc_rot (A n) s"
    if "cm_from_slot cm \<le> s" for s
    using that by (auto simp: o add_faulty_entries split: option.split)
  have "(rb, s, w) \<in> vo_proposed V" if "fmlookup (fm_from (cm_from_slot cm) R) s = Some (rb, w)" for s rb w
    using that node_invD(3)[OF inv] by (auto simp: o split: if_splits)
  moreover have "reported Q2 V (fmlookup (fm_from (cm_from_slot cm) R) s)
      (Option.bind (fmlookup (add_faulty n fmempty (fm_entries (fm_from (cm_from_slot cm) F))) s) (\<lambda>r. fmlookup r n)) s c"
    if "cm_from_slot cm \<le> s" "(n, s, c, v) \<in> vo_votes V" for s c v
    using node_invD(4)[OF inv that(2)] o(4) look[OF that(1)] that(1) by (simp only: order_trans)
  ultimately show ?thesis
    using node_invD(2)[OF inv] o(1)
    by (auto simp: tally_inv_def opened_election_def pt_expected_def Some)
qed

lemma leader_opened_inv:
  assumes inv: "leader_inv plan fp V b p" and plan: "plan_ok plan" "plan b = Some cm"
    and fence: "au_fence (pr_authority p) = None" and op: "open_phase1 p cm R F = Some (targets, p')"
    and own: "case cm_me cm of None \<Rightarrow> R = fmempty \<and> F = fmempty
      | Some n \<Rightarrow> acc_promised (A n) = b \<and> R = rw_map (acc_records (A n)) \<and> F = rw_map (acc_faulty (A n)) \<and>
          acc_floor (A n) \<le> cm_from_slot cm"
    and nodes: "\<And>n. node_inv (quorum2 plan) V n (A n) (L n) (K n)"
  shows "leader_inv plan fp V b p'"
proof -
  note cm = plan_okD(1,2)[OF plan]
  have pre: "pr_election p = None" "rounds_is_empty (pr_rounds p)" "pr_probe p = None" "pr_recovery p = None"
    using op by (auto simp: open_phase1_def)
  have p': "p' = p\<lparr>pr_election := Some (opened_election cm R F)\<rparr>"
    using op by (simp add: open_phase1_total[OF cm(2) pre])
  show ?thesis
  proof (rule leader_invI[where cm = cm])
    show "plan b = Some cm" using plan(2) .
    have "proposer_step fp p p'" using cm(2) fence op by (rule proposer_step.campaigned)
    then show "proposer_ok p'" using leader_invD(1)[OF inv plan(2)] by (rule proposer_step_ok)
    show "rounds_inv (cm_config cm) fp V b (pr_rounds p')" using pre(2) by (simp add: p' rounds_inv_empty)
  qed (use pre(3) opened_tally_inv[OF _ nodes, where cm = cm and R = R and F = F] own cm(1) in \<open>auto simp: p' opened_election_def\<close>)
qed

lemma leader_keep_inv:
  assumes inv: "leader_inv plan fp V b p" and plan: "plan b = Some cm" and step: "proposer_step fp p p'"
    and el: "\<And>e. pr_election p' = Some e \<Longrightarrow> pr_election p = Some e" and pb: "\<And>q. pr_probe p' = Some q \<Longrightarrow> pr_probe p = Some q"
    and rounds: "rounds_inv (cm_config cm) fp V b (pr_rounds p')"
  shows "leader_inv plan fp V b p'"
proof (rule leader_invI[where cm = cm])
  show "proposer_ok p'" using step leader_invD(1)[OF inv plan] by (rule proposer_step_ok)
qed (use plan rounds el pb leader_invD(2-7)[OF inv plan] in blast)+

lemma leader_folded_inv:
  assumes inv: "leader_inv plan fp V b p" and plan: "plan b = Some cm"
    and msg: "msg_inv (quorum2 plan) fp V (Promise_Msg n b' from accepted faulty next)"
    and op: "fold_promise p n b' from accepted faulty next = Some (fd, p')"
  shows "leader_inv plan fp V b p'"
proof (cases "pr_election p")
  case None
  then show ?thesis using op inv by (simp add: fold_promise_def)
next
  case (Some e)
  have ok: "election_ok e" using proposer_okD(1)[OF leader_invD(1)[OF inv plan] Some] .
  consider "p' = p" | "page_admitted (el_promises e) n b' from accepted faulty next"
    "\<And>s. votes_agree (fmlookup (el_recovered e) s) (fmlookup accepted s)"
    "p' = p\<lparr>pr_election := Some (folded_election e n accepted faulty next)\<rparr>"
    using op by (auto simp: fold_promise_total[OF ok Some] split: if_splits)
  then show ?thesis
  proof cases
    case 2
    let ?e = "folded_election e n accepted faulty next"
    have "tally_inv (quorum2 plan) V b (page_closed (el_promises e) n next) (\<lambda>_. True) (el_recovered ?e) (el_faulty_reports ?e)"
      using leader_invD(4)[OF inv plan Some] msg 2(1)
      by (rule tally_inv_page) (simp_all add: folded_recovered[OF 2(2)], simp add: folded_election_def add_faulty_entries)
    then have t: "tally_inv (quorum2 plan) V b (el_promises ?e) (\<lambda>_. True) (el_recovered ?e) (el_faulty_reports ?e)"
      by (simp add: folded_election_def)
    have "proposer_step fp p p'" using op by (rule proposer_step.promised)
    then have "proposer_ok p'" using leader_invD(1)[OF inv plan] by (rule proposer_step_ok)
    then show ?thesis
    proof (rule leader_invI[where cm = cm, rotated])
      show "rounds_inv (cm_config cm) fp V b (pr_rounds p')" using leader_invD(8)[OF inv plan] by (simp add: 2(3))
    qed (use plan t leader_invD(2,3)[OF inv plan Some] leader_invD(5-7)[OF inv plan] in
        \<open>auto simp: 2(3) folded_election_def\<close>)
  qed (use inv in simp)
qed

lemma leader_won_inv:
  assumes inv: "leader_inv plan fp V b p" and ok: "voting_ok (quorum2 plan) V" and plan: "plan_ok plan" "plan b = Some cm"
    and win: "phase1_won p b = Some True" and op: "close_phase1 p is_chosen = Some (outcome, p')"
  shows "leader_inv plan fp V b p'"
    and "licence_inv (quorum2 plan) V b (granted (cm_from_slot cm) is_chosen outcome)"
    and "outcome_inv (quorum2 plan) V b (granted (cm_from_slot cm) is_chosen outcome) (Some outcome)
      (probed_slots p')"
proof -
  obtain e where e: "pr_election p = Some e" using op by (cases "pr_election p") (auto simp: close_phase1_def)
  note pok = leader_invD(1)[OF inv plan(2)]
  have eok: "election_ok e" and pb: "pr_probe p = None" using proposer_okD(1,2)[OF pok e] .
  have el: "el_prior e = cm_prior cm" "pt_from_slot (el_promises e) = cm_from_slot cm"
    and t: "tally_inv (quorum2 plan) V b (el_promises e) (\<lambda>_. True) (el_recovered e) (el_faulty_reports e)"
    using leader_invD(2,3,4)[OF inv plan(2) e] .
  have cov: "\<forall>c \<in> set (el_prior e). config_phase1 c (pt_answered (el_promises e))"
    using win by (simp add: phase1_won_total[OF eok e])
  obtain probe where p': "outcome = closed_outcome e is_chosen"
    "p' = p\<lparr>pr_election := None, pr_rounds := rounds_clear (pr_rounds p), pr_probe := probe\<rparr>"
    "\<And>q. probe = Some q \<Longrightarrow> probe_of e is_chosen q"
    using close_phase1_total[OF eok e pb cov, of is_chosen] op by auto
  have free: "\<exists>rb. fmlookup (el_recovered e) s = Some (rb, v) \<and> covers (quorum2 plan) V rb s c"
    if s: "cm_from_slot cm \<le> s" "\<not> is_chosen s" "s \<notin> po_blocked outcome" and able: "choosable (quorum2 plan) V c s v" "c < b" for s c v
  proof (rule tally_decides[OF ok plan t])
    have "\<not> blocked_by e is_chosen s" using s(3) by (simp add: p'(1) closed_outcome_def)
    then have dec: "fmlookup (el_faulty_reports e) s = Some r \<Longrightarrow> \<not> undecided e s r" for r using s(2) by (auto simp: blocked_by_def)
    show "\<forall>c \<in> set (cm_prior cm). config_phase1 c {node \<in> pt_answered (el_promises e).
        qualifies (fmlookup (el_faulty_reports e) s) (map_option fst (fmlookup (el_recovered e) s)) node}"
    proof (cases "fmlookup (el_faulty_reports e) s")
      case None
      then show ?thesis using cov el(1) by (simp add: qualifies_def)
    next
      case (Some r)
      then show ?thesis using dec[OF Some] el(1) by (auto simp: undecided_def)
    qed
  qed (use s able el in simp_all)
  show "licence_inv (quorum2 plan) V b (granted (cm_from_slot cm) is_chosen outcome)"
    unfolding licence_inv_def
  proof (intro allI impI)
    fix s c w
    assume "c < b" "choosable (quorum2 plan) V c s w"
    note able = this
    show "granted (cm_from_slot cm) is_chosen outcome s \<noteq> Free \<and>
        (\<forall>v. granted (cm_from_slot cm) is_chosen outcome s = Bound v \<longrightarrow> w = v)"
    proof (cases "cm_from_slot cm \<le> s \<and> \<not> is_chosen s \<and> s \<notin> po_blocked outcome")
      case True
      then show ?thesis
        using free[of s c w] able by (auto simp: granted_def p'(1) closed_outcome_def)
    qed (auto simp: granted_def)
  qed
  show "outcome_inv (quorum2 plan) V b (granted (cm_from_slot cm) is_chosen outcome) (Some outcome)
      (probed_slots p')"
    unfolding outcome_inv_def
  proof (intro allI impI conjI)
    show "probed_slots p' \<subseteq> po_blocked o'" if "Some outcome = Some o'" for o'
      using that p'(3) by (auto simp: probed_slots_def p'(1,2) closed_outcome_def probe_of_def split: option.splits)
    fix o' s rb v
    assume h: "Some outcome = Some o'" "s \<notin> po_blocked o'" "granted (cm_from_slot cm) is_chosen outcome s = Bound v"
      "fmlookup (po_recovered o') s = Some (rb, v)"
    then have s: "cm_from_slot cm \<le> s" "\<not> is_chosen s" "s \<notin> po_blocked outcome" "fmlookup (el_recovered e) s = Some (rb, v)"
      by (auto simp: granted_def p'(1) closed_outcome_def split: if_splits)
    then show "(rb, s, v) \<in> vo_proposed V" using t unfolding tally_inv_def by blast
    fix c w
    assume "c < b" "choosable (quorum2 plan) V c s w"
    then show "covers (quorum2 plan) V rb s c" using free[OF s(1-3)] s(4) by fastforce
  qed
  have "proposer_step fp p p'" using op by (rule proposer_step.closed)
  then have "proposer_ok p'" using pok by (rule proposer_step_ok)
  moreover have "tally_inv (quorum2 plan) V b (rp_promises q) (\<lambda>s. s \<in> rp_blocked q) (rp_best_have q) (rp_faulty_reports q)"
    "rp_prior q = cm_prior cm" "pt_from_slot (rp_promises q) = cm_from_slot cm" if "probe = Some q" for q
    using p'(3)[OF that] t el unfolding tally_inv_def probe_of_def by (auto simp: pt_expected_def)
  moreover have "rounds_inv (cm_config cm) fp V b (rounds_clear (pr_rounds p))" by (rule rounds_inv_empty) simp
  ultimately show "leader_inv plan fp V b p'"
    using plan(2) by (intro leader_invI[where cm = cm]) (auto simp: p'(2))
qed

text \<open>The repair probe: stragglers' pages fold in, and a slot it resolves leaves no other value choosable.\<close>

lemma leader_probed_inv:
  assumes inv: "leader_inv plan fp V b p" and plan: "plan b = Some cm" and ok: "voting_ok (quorum2 plan) V"
    and msg: "msg_inv (quorum2 plan) fp V (Promise_Msg n b' from accepted faulty next)"
    and op: "fold_probe_promise p n b' from accepted faulty next = Some (fd, p')"
  shows "leader_inv plan fp V b p'"
proof (cases "pr_probe p")
  case None
  then show ?thesis using op inv by (simp add: fold_probe_promise_def)
next
  case (Some q)
  note t = leader_invD(7)[OF inv plan Some]
  have pok: "probe_ok q" using proposer_okD(6)[OF leader_invD(1)[OF inv plan] Some] .
  have "votes_agree (fmlookup (rp_best_have q) s) (fmlookup accepted s)" if "s \<in> rp_blocked q" for s
    using tally_agrees[OF t msg ok that] .
  from fold_probe_promise_total[OF pok Some this] obtain q' where q': "folded_probe q n accepted faulty next q'"
    "fold_probe_promise p n b' from accepted faulty next = Some (if (\<exists>c \<in> set (rp_prior q). n \<in> set (ac_members c)) \<and>
        page_admitted (rp_promises q) n b' from accepted faulty next
      then (case next of None \<Rightarrow> Answered | Some k \<Rightarrow> Continue k, p\<lparr>pr_probe := Some q'\<rparr>) else (Ignored, p))"
    by blast
  show ?thesis
  proof (cases "(\<exists>c \<in> set (rp_prior q). n \<in> set (ac_members c)) \<and> page_admitted (rp_promises q) n b' from accepted faulty next")
    case True
    then have p': "p' = p\<lparr>pr_probe := Some q'\<rparr>" using q'(2) op by simp
    have "proposer_step fp p p'" using op by (rule proposer_step.probe_promised)
    then have "proposer_ok p'" using leader_invD(1)[OF inv plan] by (rule proposer_step_ok)
    moreover have "tally_inv (quorum2 plan) V b (page_closed (rp_promises q) n next) (\<lambda>s. s \<in> rp_blocked q)
        (rp_best_have q') (rp_faulty_reports q')"
      using t msg conjunct2[OF True]
      by (rule tally_inv_page) (use q'(1) in \<open>simp_all add: folded_probe_def split: option.split\<close>)
    ultimately show ?thesis
      using q'(1) plan leader_invD(5,6)[OF inv plan Some] leader_invD(8)[OF inv plan]
        proposer_okD(2)[OF leader_invD(1)[OF inv plan]] Some
      by (intro leader_invI[where cm = cm]) (auto simp: p' folded_probe_def)
  next
    case False
    have "p' = p" using q'(2) unfolding if_not_P[OF False] op by simp
    then show ?thesis using inv by simp
  qed
qed

lemma forgotten_tally_inv:
  assumes "tally_inv Q2 V b (rp_promises q) (\<lambda>s. s \<in> rp_blocked q) (rp_best_have q) (rp_faulty_reports q)"
  shows "tally_inv Q2 V b (rp_promises q) (\<lambda>s. s \<in> rp_blocked q - S) (fmdrop_set S (rp_best_have q))
    (fmdrop_set S (rp_faulty_reports q))"
  using assms unfolding tally_inv_def by simp

text \<open>A probe that loses slots, or ages, and learns nothing.\<close>

definition probe_shrinks :: "('id, 'v) repair_probe \<Rightarrow> ('id, 'v) repair_probe \<Rightarrow> bool" where
  "probe_shrinks q q' \<longleftrightarrow> (\<exists>S n. q' = (rp_forget_all q S)\<lparr>rp_elapsed := n\<rparr>)"

lemma probe_shrinks_simps [simp]:
  "probe_shrinks q (rp_forget_all q S)"
  "probe_shrinks q q"
  "probe_shrinks q (q\<lparr>rp_elapsed := n\<rparr>)"
proof -
  have *: "rp_forget_all q S = (rp_forget_all q S)\<lparr>rp_elapsed := rp_elapsed q\<rparr>" for S
    by (simp add: rp_forget_all_def)
  show "probe_shrinks q (rp_forget_all q S)" unfolding probe_shrinks_def using *[of S] by blast
  show "probe_shrinks q q" unfolding probe_shrinks_def using *[of "{}"] by (metis rp_forget_all_empty)
  show "probe_shrinks q (q\<lparr>rp_elapsed := n\<rparr>)" unfolding probe_shrinks_def by (metis rp_forget_all_empty)
qed

lemma leader_probe_inv:
  assumes inv: "leader_inv plan fp V b p" and plan: "plan b = Some cm" and step: "proposer_step fp p p'"
    and q: "pr_probe p = Some q" and p': "p' = p\<lparr>pr_probe := pb\<rparr>" "\<And>q'. pb = Some q' \<Longrightarrow> probe_shrinks q q'"
  shows "leader_inv plan fp V b p'" "probed_slots p' \<subseteq> probed_slots p"
proof -
  show "leader_inv plan fp V b p'"
  proof (rule leader_invI[where cm = cm])
    show "proposer_ok p'" using step leader_invD(1)[OF inv plan] by (rule proposer_step_ok)
    show "rounds_inv (cm_config cm) fp V b (pr_rounds p')" using leader_invD(8)[OF inv plan] p'(1) by simp
    fix q'
    assume "pr_probe p' = Some q'"
    then obtain S n where q': "q' = (rp_forget_all q S)\<lparr>rp_elapsed := n\<rparr>"
      using p' unfolding probe_shrinks_def by auto
    show "rp_prior q' = cm_prior cm \<and> pt_from_slot (rp_promises q') = cm_from_slot cm \<and>
        tally_inv (quorum2 plan) V b (rp_promises q') (\<lambda>s. s \<in> rp_blocked q') (rp_best_have q') (rp_faulty_reports q')"
      using forgotten_tally_inv[OF leader_invD(7)[OF inv plan q], of S] leader_invD(5,6)[OF inv plan q]
      by (simp add: q' rp_forget_all_def)
  qed (use plan p'(1) leader_invD(2-4)[OF inv plan] in auto)
  show "probed_slots p' \<subseteq> probed_slots p"
    using p'(2) by (auto simp: probed_slots_def p'(1) q probe_shrinks_def rp_forget_all_def split: option.splits)
qed

lemma leader_shrunk_inv:
  assumes inv: "leader_inv plan fp V b p" and plan: "plan b = Some cm"
    and op: "probe_resolved_elsewhere p s = Some p' \<or> probe_retain_from p s = Some p' \<or> (\<exists>age. tick_probe p = Some (age, p'))"
  shows "leader_inv plan fp V b p' \<and> probed_slots p' \<subseteq> probed_slots p"
proof (cases "pr_probe p")
  case None
  then have "p' = p" using op by (auto simp: probe_resolved_elsewhere_def probe_retain_from_def tick_probe_def)
  then show ?thesis using inv by simp
next
  case (Some q)
  have ok: "probe_ok q" using proposer_okD(6)[OF leader_invD(1)[OF inv plan] Some] .
  have step: "proposer_step fp p p'"
    using op proposer_step.probe_elsewhere proposer_step.probe_retained proposer_step.probe_ticked by blast
  have "\<exists>pb. p' = p\<lparr>pr_probe := pb\<rparr> \<and> (\<forall>q'. pb = Some q' \<longrightarrow> probe_shrinks q q')"
    using op
  proof (elim disjE exE)
    assume "probe_resolved_elsewhere p s = Some p'"
    moreover have "p = p\<lparr>pr_probe := Some q\<rparr>" using Some by simp
    ultimately have "p' = p\<lparr>pr_probe := Some q\<rparr> \<or> p' = p\<lparr>pr_probe := None\<rparr> \<or> p' = p\<lparr>pr_probe := Some (rp_forget_all q {s})\<rparr>"
      by (auto simp: probe_resolved_elsewhere_total[OF ok Some] split: if_splits)
    then show ?thesis by (metis option.distinct(1) option.inject probe_shrinks_simps(1,2))
  next
    assume "probe_retain_from p s = Some p'"
    then have "p' = p\<lparr>pr_probe := None\<rparr> \<or> p' = p\<lparr>pr_probe := Some (rp_forget_all q {x. x < s})\<rparr>"
      by (auto simp: probe_retain_from_total[OF ok Some] split: if_splits)
    then show ?thesis by (metis option.distinct(1) option.inject probe_shrinks_simps(1))
  next
    fix age
    assume "tick_probe p = Some (age, p')"
    then have "p' = p\<lparr>pr_probe := Some (q\<lparr>rp_elapsed := saturating_add64 (rp_elapsed q) 1\<rparr>)\<rparr>"
      by (auto simp: tick_probe_def Some Let_def check_def split: if_splits)
    then show ?thesis by (metis option.inject probe_shrinks_simps(3))
  qed
  then obtain pb where "p' = p\<lparr>pr_probe := pb\<rparr>" "\<And>q'. pb = Some q' \<Longrightarrow> probe_shrinks q q'" by blast
  then show ?thesis using leader_probe_inv[OF inv plan step Some, of pb] by blast
qed

lemma fold_decided_licence:
  "fold (\<lambda>d lic. decided_licence lic d) ds lic s = lic s \<or>
   (\<exists>d \<in> set ds. pd_slot d = s \<and>
      fold (\<lambda>d lic. decided_licence lic d) ds lic s = (case pd_command d of None \<Rightarrow> Free | Some v \<Rightarrow> Bound v))"
proof (induction ds arbitrary: lic)
  case (Cons d ds)
  from Cons.IH[of "decided_licence lic d"] show ?case by (auto simp: decided_licence_def)
qed simp

lemma leader_resolved_inv:
  assumes inv: "leader_inv plan fp V b p" and ok: "voting_ok (quorum2 plan) V" and plan: "plan_ok plan" "plan b = Some cm"
    and op: "resolve_probe p = Some (ds, p')"
    and lic: "licence_inv (quorum2 plan) V b lic" and out: "outcome_inv (quorum2 plan) V b lic outcome (probed_slots p)"
  shows "leader_inv plan fp V b p' \<and> licence_inv (quorum2 plan) V b (fold (\<lambda>d lic. decided_licence lic d) ds lic) \<and>
    outcome_inv (quorum2 plan) V b (fold (\<lambda>d lic. decided_licence lic d) ds lic) outcome (probed_slots p')"
proof (cases "pr_probe p")
  case None
  then have "p' = p" "ds = []" using op by (auto simp: resolve_probe_def)
  then show ?thesis using inv lic out by simp
next
  case (Some q)
  let ?lic = "fold (\<lambda>d lic. decided_licence lic d) ds lic"
  have qok: "probe_ok q" using proposer_okD(6)[OF leader_invD(1)[OF inv plan(2)] Some] .
  have step: "proposer_step fp p p'" using op by (rule proposer_step.probe_resolved)
  have ds: "ds = map (decision_at q) (filter (rp_decidable q) (sorted_list_of_set (rp_blocked q)))"
    using op by (simp add: resolve_probe_total[OF qok Some])
  obtain pb where p': "p' = p\<lparr>pr_probe := pb\<rparr>" "\<And>q'. pb = Some q' \<Longrightarrow> probe_shrinks q q'"
  proof (cases "\<forall>s \<in> rp_blocked q. rp_decidable q s")
    case True
    then show ?thesis using op that[of None] by (simp add: resolve_probe_total[OF qok Some])
  next
    case False
    then have "p' = p\<lparr>pr_probe := Some (rp_forget_all q {s \<in> rp_blocked q. rp_decidable q s})\<rparr>"
      using op if_not_P[OF False] by (auto simp: resolve_probe_total[OF qok Some])
    then show ?thesis using that by (metis option.inject probe_shrinks_simps(1))
  qed
  have d: "pd_slot d \<in> rp_blocked q" "rp_decidable q (pd_slot d)"
    "pd_command d = map_option snd (fmlookup (rp_best_have q) (pd_slot d))" if "d \<in> set ds" for d
    using that probe_okD(3)[OF qok] by (auto simp: ds decision_at_def)
  have decided: "pd_command d = Some w" if "d \<in> set ds" "c < b" "choosable (quorum2 plan) V c (pd_slot d) w" for d c w
  proof -
    have "\<exists>rb. fmlookup (rp_best_have q) (pd_slot d) = Some (rb, w) \<and> covers (quorum2 plan) V rb (pd_slot d) c"
      using d(2)[OF that(1)] leader_invD(5)[OF inv plan(2) Some]
      by (intro tally_decides[OF ok plan leader_invD(7)[OF inv plan(2) Some] d(1)[OF that(1)]
            probe_okD(5)[OF qok d(1)[OF that(1)]] _ that(3,2)]) (simp add: rp_decidable_def)
    then show ?thesis using d(3)[OF that(1)] by auto
  qed
  have "licence_inv (quorum2 plan) V b ?lic"
    unfolding licence_inv_def
  proof (intro allI impI)
    fix s c w
    assume able: "c < b" "choosable (quorum2 plan) V c s w"
    from fold_decided_licence[of ds lic s] show "?lic s \<noteq> Free \<and> (\<forall>v. ?lic s = Bound v \<longrightarrow> w = v)"
    proof (elim disjE bexE conjE)
      assume "?lic s = lic s"
      then show ?thesis using lic able unfolding licence_inv_def by auto
    next
      fix d
      assume "d \<in> set ds" "pd_slot d = s" "?lic s = (case pd_command d of None \<Rightarrow> Free | Some v \<Rightarrow> Bound v)"
      then show ?thesis using decided[of d c w] able by simp
    qed
  qed
  moreover have kept: "?lic s = lic s" if "outcome = Some o'" "s \<notin> po_blocked o'" for o' s
  proof -
    have "s \<notin> rp_blocked q" using out that Some by (auto simp: outcome_inv_def probed_slots_def)
    then show ?thesis using fold_decided_licence[of ds lic s] d(1) by blast
  qed
  moreover have "outcome_inv (quorum2 plan) V b ?lic outcome (probed_slots p')"
    using out leader_probe_inv(2)[OF inv plan(2) step Some p'] unfolding outcome_inv_def by (auto simp: kept)
  ultimately show ?thesis using leader_probe_inv(1)[OF inv plan(2) step Some p'] by blast
qed

subsection \<open>Rounds\<close>

text \<open>A round keeps its ballot and its command for as long as it is open, and only opening adds one.\<close>

definition same_proposal :: "('id, 'v) round \<Rightarrow> ('id, 'v) round \<Rightarrow> bool" where
  "same_proposal rd rd' \<longleftrightarrow> rd_ballot rd' = rd_ballot rd \<and> rd_command rd' = rd_command rd"

definition rounds_persist :: "('id, 'v) rounds \<Rightarrow> ('id, 'v) rounds \<Rightarrow> bool" where
  "rounds_persist rs rs' \<longleftrightarrow> (\<forall>s rd'. fmlookup (rs_by_slot rs') s = Some rd' \<longrightarrow>
     (\<exists>rd. fmlookup (rs_by_slot rs) s = Some rd \<and> same_proposal rd rd'))"

lemma same_proposal_simps [simp]:
  "same_proposal rd (rd\<lparr>rd_custody := cu\<rparr>)"
  "same_proposal rd (rd\<lparr>rd_column := column, rd_custody := cu, rd_resends := k, rd_moves := m\<rparr>)"
  "same_proposal rd (rd\<lparr>rd_resends := k\<rparr>)"
  by (simp_all add: same_proposal_def)

lemma rounds_persist_refl [simp]: "rounds_persist rs rs"
  by (simp add: rounds_persist_def same_proposal_def)

lemma rounds_persist_upd:
  assumes "fmlookup (rs_by_slot rs) s = Some rd" "rs_by_slot rs' = fmupd s rd' (rs_by_slot rs)" "same_proposal rd rd'"
  shows "rounds_persist rs rs'"
  using assms by (auto simp: rounds_persist_def same_proposal_def split: if_splits)

lemma rounds_persist_sub:
  assumes "\<And>s rd. fmlookup (rs_by_slot rs') s = Some rd \<Longrightarrow> fmlookup (rs_by_slot rs) s = Some rd"
  shows "rounds_persist rs rs'"
  using assms by (auto simp: rounds_persist_def same_proposal_def)

lemma rounds_ops_persist:
  shows "rounds_take_back rs s own = Some (taken, rs') \<Longrightarrow> fmlookup (rs_by_slot rs) s = Some rd \<Longrightarrow> rounds_persist rs rs'"
    and "rounds_move_to rs c s column own = Some (did, rs') \<Longrightarrow> fmlookup (rs_by_slot rs) s = Some rd \<Longrightarrow>
      config_ok c \<Longrightarrow> column_ok c column \<Longrightarrow> rounds_persist rs rs'"
    and "rounds_fold_accepted_in fp rs c n b s h = Some (cnt, rs') \<Longrightarrow> config_ok c \<Longrightarrow> rounds_ok c fp W rs \<Longrightarrow>
      rounds_persist rs rs'"
    and "rounds_persist rs (rounds_close rs s)"
    and "rounds_retain_from rs s = Some rs' \<Longrightarrow> rounds_persist rs rs'"
    and "rounds_resend_page rs limit = Some (page, rs') \<Longrightarrow> rounds_persist rs rs'"
proof -
  show "rounds_persist rs rs'" if t: "rounds_take_back rs s own = Some (taken, rs')" "fmlookup (rs_by_slot rs) s = Some rd"
  proof -
    have "rs' = rs \<or> rs_by_slot rs' = fmupd s (rd\<lparr>rd_custody := custody_colocated own\<rparr>) (rs_by_slot rs)"
      using t by (auto simp: rounds_take_back_def Let_def split: custody.splits)
    then show ?thesis by (auto intro: rounds_persist_upd[OF t(2)])
  qed
  show "rounds_persist rs rs'" if "rounds_move_to rs c s column own = Some (did, rs')" "fmlookup (rs_by_slot rs) s = Some rd"
    "config_ok c" "column_ok c column"
    using rounds_move_to_SomeD[OF that] by (auto intro: rounds_persist_upd[OF that(2)])
  show "rounds_persist rs rs'" if "rounds_fold_accepted_in fp rs c n b s h = Some (cnt, rs')" "config_ok c" "rounds_ok c fp W rs"
  proof -
    have "rs' = rs \<or> (\<exists>rd A. fmlookup (rs_by_slot rs) s = Some rd \<and>
        rs_by_slot rs' = fmupd s (rd\<lparr>rd_custody := Colocated A\<rparr>) (rs_by_slot rs))"
      using that(1)
      by (auto simp: rounds_fold_accepted_in_total[OF that(2,3)] rounds_fold_accepted_total split: option.splits if_splits)
    then show ?thesis by (auto intro: rounds_persist_upd)
  qed
  show "rounds_persist rs (rounds_close rs s)"
    by (rule rounds_persist_sub) (auto simp: rounds_close_def split: if_splits)
  show "rounds_persist rs rs'" if "rounds_retain_from rs s = Some rs'"
    by (rule rounds_persist_sub) (use that in \<open>auto simp: rounds_retain_from_def Let_def split: if_splits\<close>)
  show "rounds_persist rs rs'" if t: "rounds_resend_page rs limit = Some (page, rs')"
  proof -
    have "0 < limit" "limit \<le> RESEND_BATCH" using t by (auto simp: rounds_resend_page_def)
    then have "rs' = paged rs limit" using t by (simp add: rounds_resend_page_total)
    then have "\<exists>rd. fmlookup (rs_by_slot rs) s = Some rd \<and> same_proposal rd rd'"
      if "fmlookup (rs_by_slot rs') s = Some rd'" for s rd'
      using count_resends_lookup[of "page_pending rs limit" "rs_by_slot rs" s rd'] that by (auto simp: paged_def)
    then show ?thesis unfolding rounds_persist_def by blast
  qed
qed

abbreviation vote_hashes :: "('v \<Rightarrow> fingerprint) \<Rightarrow> ('id, 'v) voting \<Rightarrow> 'id vote set" where
  "vote_hashes fp V \<equiv> {(n, s, b, fp v) | n s b v. (n, s, b, v) \<in> vo_votes V}"

lemma rounds_inv_step:
  assumes inv: "rounds_inv c fp V b rs" and ok: "config_ok c"
    and step: "rounds_step c fp (vote_hashes fp V, rs) (W, rs')" "W \<subseteq> vote_hashes fp V"
    and kept: "rounds_persist rs rs' \<or> rounds_open rs s b v own column = Some rs' \<and> (b, s, v) \<in> vo_proposed V \<or>
      rounds_open_delegated rs s b v column proxy = Some rs' \<and> (b, s, v) \<in> vo_proposed V"
  shows "rounds_inv c fp V b rs'"
proof -
  have rok: "rounds_ok c fp (vote_hashes fp V) rs" using inv by (simp add: rounds_inv_def)
  have old: "rd_ballot rd = b \<and> (b, s, rd_command rd) \<in> vo_proposed V" if "fmlookup (rs_by_slot rs) s = Some rd" for s rd
    using inv that by (simp add: rounds_inv_def)
  have "rounds_ok c fp W rs'" using step(1) ok rok by (rule rounds_step_ok)
  then have "rounds_ok c fp (vote_hashes fp V) rs'" using step(2) unfolding rounds_ok_def by (blast intro: round_ok_mono)
  moreover have "rd_ballot rd = b \<and> (b, s', rd_command rd) \<in> vo_proposed V" if look: "fmlookup (rs_by_slot rs') s' = Some rd" for s' rd
    using kept
  proof (elim disjE)
    assume "rounds_persist rs rs'"
    then obtain rd0 where "fmlookup (rs_by_slot rs) s' = Some rd0" "same_proposal rd0 rd"
      using look unfolding rounds_persist_def by blast
    then show ?thesis using old[of s' rd0] by (simp add: same_proposal_def)
  qed (use look old[of s' rd] in \<open>auto simp: rounds_open_total fresh_round_def split: if_splits\<close>)
  ultimately show ?thesis unfolding rounds_inv_def by blast
qed

end
