(* ===== verification/Consensus_Nodes.thy ===== *)
theory Consensus_Nodes
  imports Consensus_Inv
begin

section \<open>What a node does keeps its invariant\<close>

text \<open>
  The acceptor side of the safety proof: voting, learning, healing, raising a promise, dropping a prefix and
  rebooting over a damaged disk each keep \<^const>\<open>node_inv\<close>, that is, the log goes on accounting for every
  vote the node cast.
\<close>

lemma recorded_fields [simp]:
  "acc_promised (acceptor_recorded a s b v) = acc_promised a"
  "acc_floor (acceptor_recorded a s b v) = acc_floor a"
  "acc_record (acceptor_recorded a s b v) s' = (if s' = s then Some (b, v) else acc_record a s')"
  "acc_rot (acceptor_recorded a s b v) s' = (if s' = s then None else acc_rot a s')"
  by (simp_all add: acceptor_recorded_def)

lemma record_accepted_SomeD:
  assumes "acceptor_record_accepted into a s b v ws = Some (r, a', ws')" "acceptor_ok a"
  shows "a' = acceptor_recorded a s b v" "acc_floor a \<le> s" "b \<le> acc_promised a"
    and "acc_record a s = Some (b', v') \<Longrightarrow> b' < b \<or> b' = b \<and> v' = v"
proof -
  note pre = record_accepted_precondition[OF assms(1)]
  show "acc_floor a \<le> s" "b \<le> acc_promised a" using pre(1,2) by simp_all
  show "acc_record a s = Some (b', v') \<Longrightarrow> b' < b \<or> b' = b \<and> v' = v" using pre(3) .
  have "acceptor_record_accepted into a s b v ws = Some (acc_rot a s \<noteq> None, acceptor_recorded a s b v,
      ws @ [into (AppendAccepted s b v)])"
    using assms(2) pre by (intro acceptor_record_accepted_total) simp_all
  then show "a' = acceptor_recorded a s b v" using assms(1) by simp
qed

lemma node_vote_SomeD:
  assumes "node_vote a b s v = Some (True, a')" "acceptor_ok a"
  shows "a' = acceptor_recorded (a\<lparr>acc_promised := b\<rparr>) s b v" "acc_promised a \<le> b" "acc_floor a \<le> s"
proof -
  have adm: "acc_promised a \<le> b" "acc_floor a \<le> s"
    using assms by (auto simp: node_vote_def acceptor_admit_total not_less split: if_splits)
  then obtain r ws where "acceptor_record_accepted id (a\<lparr>acc_promised := b\<rparr>) s b v [] = Some (r, a', ws)"
    using assms leD[OF adm(1)] by (auto simp: node_vote_def acceptor_admit_total acceptor_set_promise_total bind_Some_iff)
  then show "a' = acceptor_recorded (a\<lparr>acc_promised := b\<rparr>) s b v"
    using acceptor_ok_promise[OF assms(2) adm(1)] by (rule record_accepted_SomeD)
  show "acc_promised a \<le> b" "acc_floor a \<le> s" using adm .
qed

lemma raise_total:
  "\<exists>ws. (if b > acc_promised a then acceptor_set_promise id a b [] else Some (a, [])) =
     Some (a\<lparr>acc_promised := max b (acc_promised a)\<rparr>, ws)"
proof (cases "b > acc_promised a")
  case True
  then show ?thesis by (simp add: acceptor_set_promise_total less_imp_le max_absorb1)
next
  case False
  then have "max b (acc_promised a) = acc_promised a" by (simp add: max_absorb2 not_less)
  then show ?thesis using False by simp
qed

lemma node_learn_SomeD:
  assumes "node_learn a learned b s v = Some (a', learned')" "acceptor_ok a"
  obtains "s < acc_floor a \<or> learned s \<noteq> None" "a' = a" "learned' = learned"
  | c where "acc_floor a \<le> s" "learned s = None" "learned' = learned(s \<mapsto> v)" "acc_record a s = Some (c, v)" "b \<le> c"
      "a' = a\<lparr>acc_promised := max b (acc_promised a)\<rparr>"
  | "acc_floor a \<le> s" "learned s = None" "learned' = learned(s \<mapsto> v)"
      "a' = acceptor_recorded (a\<lparr>acc_promised := max b (acc_promised a)\<rparr>) s b v"
proof (cases "s < acc_floor a \<or> learned s \<noteq> None")
  case True
  then show thesis
    using assms that(1) by (auto simp: node_learn_def acceptor_first_slot_total split: option.splits if_splits)
next
  case False
  let ?a = "a\<lparr>acc_promised := max b (acc_promised a)\<rparr>"
  let ?keeps = "case acc_record a s of None \<Rightarrow> False | Some (c, w) \<Rightarrow> w = v \<and> b \<le> c"
  have ok: "acceptor_ok ?a" using assms(2) by (rule acceptor_ok_promise) simp
  obtain ws where raise: "(if b > acc_promised a then acceptor_set_promise id a b [] else Some (a, [])) = Some (?a, ws)"
    using raise_total by blast
  have fl: "acc_floor a \<le> s" "learned s = None" using False by simp_all
  have l: "learned' = learned(s \<mapsto> v)" "?keeps \<Longrightarrow> a' = ?a"
    "\<not> ?keeps \<Longrightarrow> \<exists>r ws. acceptor_record_accepted id ?a s b v [] = Some (r, a', ws)"
    using assms(1) raise fl ok assms(2)
    by (auto simp: node_learn_def acceptor_first_slot_total acceptor_reads_total bind_Some_iff Let_def
        split: if_splits)
  show thesis
  proof (cases ?keeps)
    case True
    then obtain c where "acc_record a s = Some (c, v)" "b \<le> c" by (auto split: option.splits)
    then show thesis using that(2) fl l True by blast
  next
    case False
    then obtain r ws where "acceptor_record_accepted id ?a s b v [] = Some (r, a', ws)" using l(3) by blast
    then have "a' = acceptor_recorded ?a s b v" using ok by (rule record_accepted_SomeD)
    then show thesis using that(3) fl l(1) by blast
  qed
qed

text \<open>A node that records a value its slot can bear: every report it held lies at or below the ballot, or
  the value is the one chosen there.\<close>

lemma node_recorded_inv:
  assumes inv: "node_inv (quorum2 plan) V n a learned k" and grow: "voting_grows V V'"
    and ok': "voting_ok (quorum2 plan) V'" and prom: "vo_promised V' n = p" "acc_promised a \<le> p" "b \<le> p"
    and floor: "acc_floor a \<le> s" and pd: "(b, s, v) \<in> vo_proposed V'"
    and votes: "\<And>s' c w. (n, s', c, w) \<in> vo_votes V' \<Longrightarrow> (n, s', c, w) \<in> vo_votes V \<or> s' = s \<and> c = b"
    and base: "acc_promised a \<le> b \<or> (\<exists>b0. b0 \<le> b \<and> chosen_at (quorum2 plan) V' b0 s v)"
    and learn: "learned' = learned \<or> learned' = learned(s \<mapsto> v) \<and> (\<exists>b0. b0 \<le> b \<and> chosen_at (quorum2 plan) V' b0 s v)"
  shows "node_inv (quorum2 plan) V' n (acceptor_recorded (a\<lparr>acc_promised := p\<rparr>) s b v) learned' k"
proof -
  let ?Q = "quorum2 plan"
  note ok = node_invD(1)[OF inv]
  have held: "rb \<le> b \<or> (\<exists>b0. b0 \<le> b \<and> chosen_at ?Q V' b0 s v)"
    if "(\<exists>w. acc_record a s = Some (rb, w)) \<or> acc_rot a s = Some rb" for rb
    using base that acceptor_okD(4,7,8)[OF ok] by (meson order_trans)
  have chosen: "w = v" if "chosen_at ?Q V' b0 s w" "b0 \<le> b" for b0 w
    using cv.chosen_rules_above[OF ok' that(1) pd that(2)] by simp
  have below: "\<exists>b0. b0 \<le> b \<and> chosen_at ?Q V' b0 s v"
    if r: "(\<exists>w. acc_record a s = Some (rb, w)) \<or> acc_rot a s = Some rb" and c: "c0 \<le> rb" "chosen_at ?Q V' c0 s w" for rb c0 w
    using held[OF r]
  proof
    assume "rb \<le> b"
    then have "c0 \<le> b" using c(1) by (rule order_trans[rotated])
    then show ?thesis using chosen[OF c(2)] c(2) by blast
  qed
  show ?thesis
  proof (rule node_invI)
    show "acceptor_ok (acceptor_recorded (a\<lparr>acc_promised := p\<rparr>) s b v)"
      using acceptor_ok_promise[OF ok prom(2)] floor prom(3) by (simp add: acceptor_ok_recorded)
    show "vo_promised V' n = acc_promised (acceptor_recorded (a\<lparr>acc_promised := p\<rparr>) s b v)" using prom by simp
    show "(c, s', w) \<in> vo_proposed V'"
      if "acc_record (acceptor_recorded (a\<lparr>acc_promised := p\<rparr>) s b v) s' = Some (c, w)" for s' c w
      using that pd node_invD(3)[OF inv] voting_growsD(3)[OF grow] by (auto split: if_splits)
    show "reported ?Q V' (acc_record (acceptor_recorded (a\<lparr>acc_promised := p\<rparr>) s b v) s')
        (acc_rot (acceptor_recorded (a\<lparr>acc_promised := p\<rparr>) s b v) s') s' c"
      if vote: "(n, s', c, w) \<in> vo_votes V'" "acc_floor (acceptor_recorded (a\<lparr>acc_promised := p\<rparr>) s b v) \<le> s'" for s' c w
    proof (cases "s' = s")
      case True
      have "covers ?Q V' b s c"
      proof (cases "(n, s, c, w) \<in> vo_votes V")
        case True
        from node_invD(4)[OF inv this floor] obtain rb where rb: "covers ?Q V rb s c"
          "(\<exists>w. acc_record a s = Some (rb, w)) \<or> acc_rot a s = Some rb" unfolding reported_def by blast
        from held[OF rb(2)] show ?thesis
          using covers_mono[OF covers_grows[OF rb(1) grow]] by (auto simp: covers_def)
      next
        case False
        then show ?thesis using votes[OF vote(1)] True by simp
      qed
      then show ?thesis using True by (simp add: reported_def)
    next
      case False
      then have "reported ?Q V (acc_record a s') (acc_rot a s') s' c"
        using votes[OF vote(1)] vote(2) node_invD(4)[OF inv] by auto
      then show ?thesis using False reported_grows[OF _ grow] by simp
    qed
    show "\<exists>c. chosen_at ?Q V' c s' w" if l: "learned' s' = Some w" for s' w
    proof (cases "learned s' = Some w")
      case True
      then show ?thesis using node_invD(5)[OF inv True] chosen_at_grows[OF _ grow] by blast
    qed (use l learn in \<open>auto split: if_splits\<close>)
    show "\<exists>c b0. acc_record (acceptor_recorded (a\<lparr>acc_promised := p\<rparr>) s b v) s' = Some (c, w) \<and> b0 \<le> c \<and>
        chosen_at ?Q V' b0 s' w"
      if l: "learned' s' = Some w" "acc_floor (acceptor_recorded (a\<lparr>acc_promised := p\<rparr>) s b v) \<le> s'" for s' w
    proof (cases "s' = s \<and> learned' \<noteq> learned")
      case True
      then show ?thesis using l(1) learn by auto
    next
      case False
      then have "learned s' = Some w" using l(1) learn by (auto split: if_splits)
      then obtain c b0 where c: "acc_record a s' = Some (c, w)" "b0 \<le> c" "chosen_at ?Q V' b0 s' w"
        using node_invD(6)[OF inv] l(2) chosen_at_grows[OF _ grow] by fastforce
      show ?thesis
      proof (cases "s' = s")
        case True
        then obtain c0 where "c0 \<le> b" "chosen_at ?Q V' c0 s v" using below[of c b0 w] c by blast
        moreover from this have "w = v" using cv.agreement[OF ok' c(3)] True by blast
        ultimately show ?thesis using True by auto
      qed (use c in auto)
    qed
    show "\<exists>rb b0 w. b0 \<le> rb \<and> chosen_at ?Q V' b0 s' w \<and>
        ((\<exists>u. acc_record (acceptor_recorded (a\<lparr>acc_promised := p\<rparr>) s b v) s' = Some (rb, u)) \<or>
         acc_rot (acceptor_recorded (a\<lparr>acc_promised := p\<rparr>) s b v) s' = Some rb)"
      if pre: "s' < k" "acc_floor (acceptor_recorded (a\<lparr>acc_promised := p\<rparr>) s b v) \<le> s'" for s'
    proof -
      obtain rb b0 w where r: "b0 \<le> rb" "chosen_at ?Q V' b0 s' w" "(\<exists>u. acc_record a s' = Some (rb, u)) \<or> acc_rot a s' = Some rb"
        using node_invD(7)[OF inv pre(1)] pre(2) chosen_at_grows[OF _ grow] by fastforce
      show ?thesis
      proof (cases "s' = s")
        case True
        then show ?thesis using below[of rb b0 w] r by auto
      qed (use r in auto)
    qed
  qed
qed

text \<open>A node that only raises its promise, or learns a value it already records.\<close>

lemma node_kept_inv:
  assumes inv: "node_inv (quorum2 plan) V n a learned k" and grow: "voting_grows V V'"
    and prom: "vo_promised V' n = p" "acc_promised a \<le> p"
    and votes: "\<And>s' c w. (n, s', c, w) \<in> vo_votes V' \<Longrightarrow> (n, s', c, w) \<in> vo_votes V \<or>
      (\<exists>rb w. acc_record a s' = Some (rb, w) \<and> c \<le> rb)"
    and learn: "learned' = learned \<or> (\<exists>s v c b0. learned' = learned(s \<mapsto> v) \<and> acc_record a s = Some (c, v) \<and> b0 \<le> c \<and>
      chosen_at (quorum2 plan) V' b0 s v)"
  shows "node_inv (quorum2 plan) V' n (a\<lparr>acc_promised := p\<rparr>) learned' k"
proof (rule node_invI)
  show "acceptor_ok (a\<lparr>acc_promised := p\<rparr>)" using node_invD(1)[OF inv] prom(2) by (rule acceptor_ok_promise)
  show "vo_promised V' n = acc_promised (a\<lparr>acc_promised := p\<rparr>)" using prom(1) by simp
  show "(b, s, v) \<in> vo_proposed V'" if "acc_record (a\<lparr>acc_promised := p\<rparr>) s = Some (b, v)" for s b v
    using that node_invD(3)[OF inv] voting_growsD(3)[OF grow] by simp
  show "reported (quorum2 plan) V' (acc_record (a\<lparr>acc_promised := p\<rparr>) s) (acc_rot (a\<lparr>acc_promised := p\<rparr>) s) s b"
    if "(n, s, b, v) \<in> vo_votes V'" "acc_floor (a\<lparr>acc_promised := p\<rparr>) \<le> s" for s b v
  proof (cases "(n, s, b, v) \<in> vo_votes V")
    case True
    then show ?thesis using node_invD(4)[OF inv True] that(2) reported_grows[OF _ grow] by simp
  next
    case False
    then show ?thesis using votes[OF that(1)] by (auto simp: reported_def covers_def)
  qed
  show "\<exists>b. chosen_at (quorum2 plan) V' b s v" if l: "learned' s = Some v" for s v
  proof (cases "learned s = Some v")
    case True
    then show ?thesis using node_invD(5)[OF inv True] chosen_at_grows[OF _ grow] by blast
  qed (use l learn in \<open>auto split: if_splits\<close>)
  show "\<exists>b b0. acc_record (a\<lparr>acc_promised := p\<rparr>) s = Some (b, v) \<and> b0 \<le> b \<and> chosen_at (quorum2 plan) V' b0 s v"
    if l: "learned' s = Some v" "acc_floor (a\<lparr>acc_promised := p\<rparr>) \<le> s" for s v
  proof (cases "learned s = Some v")
    case True
    then show ?thesis using node_invD(6)[OF inv True] l(2) chosen_at_grows[OF _ grow] by fastforce
  qed (use l(1) learn in \<open>auto split: if_splits\<close>)
  show "\<exists>rb b0 w. b0 \<le> rb \<and> chosen_at (quorum2 plan) V' b0 s w \<and>
      ((\<exists>v. acc_record (a\<lparr>acc_promised := p\<rparr>) s = Some (rb, v)) \<or> acc_rot (a\<lparr>acc_promised := p\<rparr>) s = Some rb)"
    if "s < k" "acc_floor (a\<lparr>acc_promised := p\<rparr>) \<le> s" for s
    using node_invD(7)[OF inv that(1)] that(2) chosen_at_grows[OF _ grow] by fastforce
qed

lemma node_dropped_inv:
  assumes inv: "node_inv Q2 V n a learned k" and floor: "acc_floor a \<le> first" and k: "k' = k \<or> k' = max k first"
  shows "node_inv Q2 V n (acceptor_dropped a first) learned k'"
proof (rule node_invI)
  have rot: "acc_rot (acceptor_dropped a first) s = (if first \<le> s then acc_rot a s else None)" for s
    by (simp add: acceptor_dropped_def)
  show "acceptor_ok (acceptor_dropped a first)" using node_invD(1)[OF inv] by (rule acceptor_ok_dropped)
  show "vo_promised V n = acc_promised (acceptor_dropped a first)" using node_invD(2)[OF inv] by simp
  show "(b, s, v) \<in> vo_proposed V" if "acc_record (acceptor_dropped a first) s = Some (b, v)" for s b v
    using that node_invD(3)[OF inv] by (auto split: if_splits)
  show "reported Q2 V (acc_record (acceptor_dropped a first) s) (acc_rot (acceptor_dropped a first) s) s b"
    if "(n, s, b, v) \<in> vo_votes V" "acc_floor (acceptor_dropped a first) \<le> s" for s b v
    using node_invD(4)[OF inv that(1)] that(2) floor by (simp add: rot)
  show "\<exists>b. chosen_at Q2 V b s v" if "learned s = Some v" for s v using node_invD(5)[OF inv that] .
  show "\<exists>b b0. acc_record (acceptor_dropped a first) s = Some (b, v) \<and> b0 \<le> b \<and> chosen_at Q2 V b0 s v"
    if "learned s = Some v" "acc_floor (acceptor_dropped a first) \<le> s" for s v
    using node_invD(6)[OF inv that(1)] that(2) floor by simp
  show "\<exists>rb b0 w. b0 \<le> rb \<and> chosen_at Q2 V b0 s w \<and>
      ((\<exists>v. acc_record (acceptor_dropped a first) s = Some (rb, v)) \<or> acc_rot (acceptor_dropped a first) s = Some rb)"
    if "s < k'" "acc_floor (acceptor_dropped a first) \<le> s" for s
    using node_invD(7)[OF inv, of s] that floor k by (auto simp: rot)
qed

lemma node_advanced_inv:
  assumes inv: "node_inv Q2 V n a learned k" and known: "\<And>s. k \<le> s \<Longrightarrow> s < k' \<Longrightarrow> learned s \<noteq> None"
  shows "node_inv Q2 V n a learned k'"
proof (rule node_invI)
  show "\<exists>rb b0 w. b0 \<le> rb \<and> chosen_at Q2 V b0 s w \<and> ((\<exists>v. acc_record a s = Some (rb, v)) \<or> acc_rot a s = Some rb)"
    if "s < k'" "acc_floor a \<le> s" for s
  proof (cases "s < k")
    case True
    then show ?thesis using node_invD(7)[OF inv True that(2)] by blast
  next
    case False
    then obtain v where "learned s = Some v" using known[of s] \<open>s < k'\<close> by auto
    then show ?thesis using node_invD(6)[OF inv _ \<open>acc_floor a \<le> s\<close>] by blast
  qed
qed (rule node_invD[OF inv], assumption?, assumption?)+

lemma node_rebooted_inv:
  assumes inv: "node_inv (quorum2 plan) V n a learned k" and ok: "voting_ok (quorum2 plan) V"
    and boot: "acceptor_new (acc_promised a) (fmdrop_set S (rw_map (acc_records a))) (acc_floor a) (rotten S a) = Some a'"
    and learn: "learned' = (\<lambda>s. if s < k then map_option snd (acc_record a' s) else None)"
  shows "node_inv (quorum2 plan) V n a' learned' k"
proof -
  have a': "a' = booted (acc_promised a) (fmdrop_set S (rw_map (acc_records a))) (acc_floor a) (rotten S a)"
    using boot by (auto simp: acceptor_new_total split: if_splits)
  have fields: "acc_promised a' = acc_promised a" "acc_floor a' = acc_floor a"
    "acc_record a' s = (if s \<in> S then None else acc_record a s)"
    "acc_rot a' s = (case acc_rot a s of Some rb \<Rightarrow> Some rb
       | None \<Rightarrow> if s \<in> S then map_option fst (acc_record a s) else None)" for s
    by (auto simp: a' booted_def rotten_def fmadd_lookup simp del: fmlookup_add split: option.split)
  have kept: "(\<exists>v. acc_record a' s = Some (rb, v)) \<or> acc_rot a' s = Some rb"
    if "(\<exists>v. acc_record a s = Some (rb, v)) \<or> acc_rot a s = Some rb" for s rb
    using that acceptor_okD(6)[OF node_invD(1)[OF inv], of s] by (auto simp: fields)
  have prefix: "\<exists>b0. b0 \<le> b \<and> chosen_at (quorum2 plan) V b0 s v" if r: "acc_record a s = Some (b, v)" "s < k" for s b v
  proof -
    have "acc_floor a \<le> s" using acceptor_okD(1)[OF node_invD(1)[OF inv]] r(1) by (auto simp: rw_ok_def fmdom'_iff)
    then obtain rb b0 w where c: "b0 \<le> rb" "chosen_at (quorum2 plan) V b0 s w"
      "(\<exists>v. acc_record a s = Some (rb, v)) \<or> acc_rot a s = Some rb" using node_invD(7)[OF inv r(2)] by blast
    have "rb = b" using c(3) r(1) acceptor_okD(6)[OF node_invD(1)[OF inv] r(1)] by auto
    moreover from this have "w = v"
      using cv.chosen_rules_above[OF ok c(2) node_invD(3)[OF inv r(1)]] c(1) by simp
    ultimately show ?thesis using c by blast
  qed
  show ?thesis
  proof (rule node_invI)
    show "acceptor_ok a'" using boot by (rule acceptor_new_ok)
    show "vo_promised V n = acc_promised a'" using node_invD(2)[OF inv] by (simp add: fields)
    show "(b, s, v) \<in> vo_proposed V" if "acc_record a' s = Some (b, v)" for s b v
      using that node_invD(3)[OF inv] by (simp add: fields split: if_splits)
    show "reported (quorum2 plan) V (acc_record a' s) (acc_rot a' s) s b"
      if "(n, s, b, v) \<in> vo_votes V" "acc_floor a' \<le> s" for s b v
      using node_invD(4)[OF inv that(1)] that(2) kept[of s] unfolding reported_def fields(2) by blast
    show "\<exists>b. chosen_at (quorum2 plan) V b s v" if "learned' s = Some v" for s v
      using that prefix[of s] by (auto simp: learn fields split: if_splits)
    show "\<exists>b b0. acc_record a' s = Some (b, v) \<and> b0 \<le> b \<and> chosen_at (quorum2 plan) V b0 s v"
      if "learned' s = Some v" "acc_floor a' \<le> s" for s v
      using that prefix[of s] by (auto simp: learn fields split: if_splits)
    show "\<exists>rb b0 w. b0 \<le> rb \<and> chosen_at (quorum2 plan) V b0 s w \<and>
        ((\<exists>v. acc_record a' s = Some (rb, v)) \<or> acc_rot a' s = Some rb)" if "s < k" "acc_floor a' \<le> s" for s
      using node_invD(7)[OF inv that(1)] that(2) kept[of s] unfolding fields(2) by blast
  qed
qed

end
