(* ===== verification/Consensus_Safety.thy ===== *)
theory Consensus_Safety
  imports Consensus_Leaders Consensus_Nodes
begin

section \<open>Safety of the cluster\<close>

text \<open>
  Every step of the cluster keeps the invariant and moves the voting machine behind it by steps of that
  machine, or not at all. So the cluster refines the machine, two nodes never learn two values at one slot,
  and no delivery trips an assertion of the components.
\<close>

subsection \<open>Moves\<close>

text \<open>A move keeps the invariant and is a run of the voting machine. A step of the cluster is one move, or
  a few of them in a row.\<close>

definition sound_move ::
  "'id::linorder plan \<Rightarrow> ('v \<Rightarrow> fingerprint) \<Rightarrow> ('id, 'v) cluster \<Rightarrow> ('id, 'v) cluster \<Rightarrow> bool" where
  "sound_move plan fp c c' \<longleftrightarrow> cluster_inv plan fp c' \<and> (voting_step (quorum2 plan))\<^sup>*\<^sup>* (voting_of c) (voting_of c')"

lemma sound_move_trans: "sound_move plan fp c c' \<Longrightarrow> sound_move plan fp c' c'' \<Longrightarrow> sound_move plan fp c c''"
  unfolding sound_move_def by (meson rtranclp_trans)

lemma sound_moveD: "sound_move plan fp c c' \<Longrightarrow> cluster_inv plan fp c'"
  by (simp add: sound_move_def)

lemma cluster_invD:
  assumes "cluster_inv plan fp c"
  shows "voting_ok (quorum2 plan) (voting_of c)"
    and "node_inv (quorum2 plan) (voting_of c) n (cl_acceptors c n) (cl_learned c n) (cl_prefix c n)"
    and "leader_inv plan fp (voting_of c) b (cl_proposers c b)"
    and "licence_inv (quorum2 plan) (voting_of c) b (cl_licences c b)"
    and "outcome_inv (quorum2 plan) (voting_of c) b (cl_licences c b) (cl_outcomes c b) (probed_slots (cl_proposers c b))"
    and "m \<in> cl_net c \<Longrightarrow> msg_inv (quorum2 plan) fp (voting_of c) m"
  using assms unfolding cluster_inv_def Let_def by blast+

lemma cluster_invI:
  assumes "voting_ok (quorum2 plan) (voting_of c)"
    and "\<And>n. node_inv (quorum2 plan) (voting_of c) n (cl_acceptors c n) (cl_learned c n) (cl_prefix c n)"
    and "\<And>b. leader_inv plan fp (voting_of c) b (cl_proposers c b)"
    and "\<And>b. licence_inv (quorum2 plan) (voting_of c) b (cl_licences c b)"
    and "\<And>b. outcome_inv (quorum2 plan) (voting_of c) b (cl_licences c b) (cl_outcomes c b) (probed_slots (cl_proposers c b))"
    and "\<And>m. m \<in> cl_net c \<Longrightarrow> msg_inv (quorum2 plan) fp (voting_of c) m"
  shows "cluster_inv plan fp c"
  using assms unfolding cluster_inv_def Let_def by blast

lemma voting_of_fields [simp]:
  "vo_promised (voting_of c) n = acc_promised (cl_acceptors c n)"
  "vo_votes (voting_of c) = cl_votes c"
  "(b, s, v) \<in> vo_proposed (voting_of c) \<longleftrightarrow> Accept_Msg b s v \<in> cl_net c"
  by (simp_all add: voting_of_def)

text \<open>The part of the state a move leaves alone keeps what it knew.\<close>

lemma sound_moveI:
  assumes inv: "cluster_inv plan fp c" and run: "(voting_step (quorum2 plan))\<^sup>*\<^sup>* (voting_of c) (voting_of c')"
    and nodes: "\<And>n. node_inv (quorum2 plan) (voting_of c') n (cl_acceptors c' n) (cl_learned c' n) (cl_prefix c' n) \<or>
      cl_acceptors c' n = cl_acceptors c n \<and> cl_learned c' n = cl_learned c n \<and> cl_prefix c' n = cl_prefix c n \<and>
      (\<forall>s b v. (n, s, b, v) \<in> cl_votes c' \<longrightarrow> (n, s, b, v) \<in> cl_votes c)"
    and leaders: "cl_proposers c' = cl_proposers c" and lic: "cl_licences c' = cl_licences c" "cl_outcomes c' = cl_outcomes c"
    and msgs: "\<And>m. m \<in> cl_net c' \<Longrightarrow> m \<in> cl_net c \<or> msg_inv (quorum2 plan) fp (voting_of c') m"
  shows "sound_move plan fp c c'"
proof -
  note ok = voting_run_ok[OF run cluster_invD(1)[OF inv]]
  have "cluster_inv plan fp c'"
  proof (rule cluster_invI)
    show "node_inv (quorum2 plan) (voting_of c') n (cl_acceptors c' n) (cl_learned c' n) (cl_prefix c' n)" for n
      using nodes[of n] node_inv_grows[OF cluster_invD(2)[OF inv] ok(2), of n] by auto
    show "leader_inv plan fp (voting_of c') b (cl_proposers c' b)" for b
      unfolding leaders using cluster_invD(3)[OF inv] ok(2) by (rule leader_inv_grows)
    show "licence_inv (quorum2 plan) (voting_of c') b (cl_licences c' b)" for b
      unfolding lic using cluster_invD(4)[OF inv] ok(2) by (rule licence_inv_grows)
    show "outcome_inv (quorum2 plan) (voting_of c') b (cl_licences c' b) (cl_outcomes c' b) (probed_slots (cl_proposers c' b))" for b
      unfolding lic leaders using cluster_invD(5)[OF inv] ok(2) by (rule outcome_inv_grows)
    show "msg_inv (quorum2 plan) fp (voting_of c') m" if "m \<in> cl_net c'" for m
      using msgs[OF that] msg_inv_grows[OF cluster_invD(6)[OF inv] ok(2)] by blast
  qed (rule ok)
  then show ?thesis using run by (simp add: sound_move_def)
qed

lemma same_machine: "voting_of c' = voting_of c \<Longrightarrow> (voting_step Q2)\<^sup>*\<^sup>* (voting_of c) (voting_of c')"
  by simp

text \<open>A message that claims nothing new about the votes.\<close>

lemma send_sound:
  assumes "cluster_inv plan fp c" "msg_inv (quorum2 plan) fp (voting_of c) m" "\<And>b s v. m \<noteq> Accept_Msg b s v"
  shows "sound_move plan fp c (c\<lparr>cl_net := insert m (cl_net c)\<rparr>)"
proof -
  have "voting_of (c\<lparr>cl_net := insert m (cl_net c)\<rparr>) = voting_of c" using assms(3) by (auto simp: voting_of_def)
  then show ?thesis using assms(2) by (intro sound_moveI[OF assms(1) same_machine]) auto
qed

text \<open>A proposer's own state.\<close>

lemma voting_of_proposers [simp]:
  "voting_of (c\<lparr>cl_proposers := ps\<rparr>) = voting_of c" "voting_of (c\<lparr>cl_opened := os\<rparr>) = voting_of c"
  "voting_of (c\<lparr>cl_licences := ls\<rparr>) = voting_of c" "voting_of (c\<lparr>cl_outcomes := us\<rparr>) = voting_of c"
  "voting_of (c\<lparr>cl_learned := le\<rparr>) = voting_of c" "voting_of (c\<lparr>cl_prefix := pf\<rparr>) = voting_of c"
  by (simp_all add: voting_of_def)

lemma reign_sound:
  assumes inv: "cluster_inv plan fp c" and "leader_inv plan fp (voting_of c) b p"
    and "licence_inv (quorum2 plan) (voting_of c) b lic"
    and "outcome_inv (quorum2 plan) (voting_of c) b lic out (probed_slots p)"
  shows "sound_move plan fp c (c\<lparr>cl_proposers := (cl_proposers c)(b := p), cl_licences := (cl_licences c)(b := lic),
    cl_outcomes := (cl_outcomes c)(b := out)\<rparr>)"
proof -
  have "cluster_inv plan fp (c\<lparr>cl_proposers := (cl_proposers c)(b := p), cl_licences := (cl_licences c)(b := lic),
      cl_outcomes := (cl_outcomes c)(b := out)\<rparr>)"
    by (rule cluster_invI) (use assms(2-4) cluster_invD[OF inv] in auto)
  then show ?thesis by (simp add: sound_move_def)
qed

lemma leader_sound:
  assumes inv: "cluster_inv plan fp c" and "leader_inv plan fp (voting_of c) b p \<and> probed_slots p \<subseteq> probed_slots (cl_proposers c b)"
  shows "sound_move plan fp c (c\<lparr>cl_proposers := (cl_proposers c)(b := p)\<rparr>)"
proof -
  have "outcome_inv (quorum2 plan) (voting_of c) b (cl_licences c b) (cl_outcomes c b) (probed_slots p)"
    using cluster_invD(5)[OF inv, of b] assms(2) unfolding outcome_inv_def by blast
  from reign_sound[OF inv conjunct1[OF assms(2)] cluster_invD(4)[OF inv] this] show ?thesis by simp
qed

text \<open>A node's own state, its promise raised.\<close>

lemma node_sound:
  assumes inv: "cluster_inv plan fp c" and p: "acc_promised (cl_acceptors c n) \<le> acc_promised a"
    and c': "c' = c\<lparr>cl_acceptors := (cl_acceptors c)(n := a), cl_learned := (cl_learned c)(n := l), cl_prefix := (cl_prefix c)(n := k)\<rparr>"
    and node: "node_inv (quorum2 plan) (voting_of c') n a l k"
  shows "sound_move plan fp c c'"
proof (rule sound_moveI[OF inv])
  have "voting_of c' = (voting_of c)\<lparr>vo_promised := (vo_promised (voting_of c))(n := acc_promised a)\<rparr>"
    by (auto simp: c' voting_of_def)
  then show "(voting_step (quorum2 plan))\<^sup>*\<^sup>* (voting_of c) (voting_of c')"
    using voting_step.raise[of "voting_of c" n "acc_promised a" "quorum2 plan"] p by simp
qed (use node in \<open>auto simp: c'\<close>)

lemma raised_grows:
  assumes "acc_promised (cl_acceptors c n) \<le> acc_promised a"
  shows "voting_grows (voting_of c) (voting_of (c\<lparr>cl_acceptors := (cl_acceptors c)(n := a), cl_learned := l, cl_prefix := k\<rparr>))"
  using assms by (auto simp: voting_grows_def voting_of_def)

text \<open>A vote for something proposed.\<close>

lemma vote_sound:
  assumes inv: "cluster_inv plan fp c" and p: "acc_promised (cl_acceptors c n) \<le> b" "acc_promised a = b"
    and pd: "Accept_Msg b s v \<in> cl_net c"
    and c': "c' = c\<lparr>cl_acceptors := (cl_acceptors c)(n := a), cl_learned := (cl_learned c)(n := l),
      cl_votes := insert (n, s, b, v) (cl_votes c)\<rparr>"
    and node: "voting_grows (voting_of c) (voting_of c') \<Longrightarrow> voting_ok (quorum2 plan) (voting_of c') \<Longrightarrow>
      node_inv (quorum2 plan) (voting_of c') n a l (cl_prefix c n)"
  shows "sound_move plan fp c c'"
proof (rule sound_moveI[OF inv])
  have "voting_of c' = (voting_of c)\<lparr>vo_promised := (vo_promised (voting_of c))(n := b), vo_votes := insert (n, s, b, v) (vo_votes (voting_of c))\<rparr>"
    using p(2) by (auto simp: c' voting_of_def)
  then have step: "voting_step (quorum2 plan) (voting_of c) (voting_of c')"
    using voting_step.cast[of "voting_of c" n b s v "quorum2 plan"] p pd by simp
  then show "(voting_step (quorum2 plan))\<^sup>*\<^sup>* (voting_of c) (voting_of c')" by simp
  show "node_inv (quorum2 plan) (voting_of c') m (cl_acceptors c' m) (cl_learned c' m) (cl_prefix c' m) \<or>
      cl_acceptors c' m = cl_acceptors c m \<and> cl_learned c' m = cl_learned c m \<and> cl_prefix c' m = cl_prefix c m \<and>
      (\<forall>s b v. (m, s, b, v) \<in> cl_votes c' \<longrightarrow> (m, s, b, v) \<in> cl_votes c)" for m
    using node[OF voting_step_grows[OF step] voting_step_ok[OF step cluster_invD(1)[OF inv]]]
    by (cases "m = n") (auto simp: c')
qed (auto simp: c')

text \<open>A proposal where the licence allows it.\<close>

lemma propose_sound:
  assumes inv: "cluster_inv plan fp c" and lic: "cl_licences c b s = Free \<or> cl_licences c b s = Bound v"
    and first: "\<forall>w. Accept_Msg b s w \<notin> cl_net c"
  shows "sound_move plan fp c (c\<lparr>cl_net := insert (Accept_Msg b s v) (cl_net c)\<rparr>)"
proof -
  let ?c = "c\<lparr>cl_net := insert (Accept_Msg b s v) (cl_net c)\<rparr>"
  have V: "voting_of ?c = (voting_of c)\<lparr>vo_proposed := insert (b, s, v) (vo_proposed (voting_of c))\<rparr>"
    by (auto simp: voting_of_def)
  have "w = v" if "b' < b" "choosable (quorum2 plan) (voting_of c) b' s w" for b' w
    using cluster_invD(4)[OF inv, of b] lic that unfolding licence_inv_def by metis
  then have "voting_step (quorum2 plan) (voting_of c) (voting_of ?c)"
    unfolding V using first by (intro voting_step.propose) auto
  then show ?thesis by (intro sound_moveI[OF inv]) auto
qed

subsection \<open>Steps of the nodes\<close>

lemma raised_sound:
  assumes inv: "cluster_inv plan fp c" and op: "acceptor_set_promise id (cl_acceptors c n) b [] = Some (a, ws)"
  shows "sound_move plan fp c (c\<lparr>cl_acceptors := (cl_acceptors c)(n := a)\<rparr>)"
proof -
  have a: "a = (cl_acceptors c n)\<lparr>acc_promised := b\<rparr>" "acc_promised (cl_acceptors c n) \<le> b"
    using op by (auto simp: acceptor_set_promise_total split: if_splits)
  let ?c = "c\<lparr>cl_acceptors := (cl_acceptors c)(n := a), cl_learned := (cl_learned c)(n := cl_learned c n),
    cl_prefix := (cl_prefix c)(n := cl_prefix c n)\<rparr>"
  have "sound_move plan fp c ?c"
  proof (rule node_sound[OF inv _ refl])
    show "node_inv (quorum2 plan) (voting_of ?c) n a (cl_learned c n) (cl_prefix c n)"
      unfolding a(1)
      by (rule node_kept_inv[OF cluster_invD(2)[OF inv] raised_grows]) (use a(2) in \<open>auto simp: a(1)\<close>)
  qed (use a in simp)
  then show ?thesis by simp
qed

lemma answered_sound:
  assumes inv: "cluster_inv plan fp c"
    and op: "acceptor_prepare id (cl_acceptors c n) b from [] = Some (Promised new, a, ws)" "0 < limit" "limit \<le> PROMISE_BATCH"
      "acceptor_promise_page a from limit = Some page"
  shows "sound_move plan fp c (c\<lparr>cl_acceptors := (cl_acceptors c)(n := a), cl_net := insert
      (Promise_Msg n b from (pp_accepted page) (pp_faulty page) (pp_next_from_slot page)) (cl_net c)\<rparr>)"
proof -
  let ?c = "c\<lparr>cl_acceptors := (cl_acceptors c)(n := a)\<rparr>"
  note ok = node_invD(1)[OF cluster_invD(2)[OF inv]]
  have a: "acc_floor (cl_acceptors c n) \<le> from" "acc_promised (cl_acceptors c n) \<le> b" "a = (cl_acceptors c n)\<lparr>acc_promised := b\<rparr>"
    using op(1) by (auto simp: acceptor_prepare_total[OF ok] not_less split: if_splits)
  then have "acceptor_set_promise id (cl_acceptors c n) b [] = Some (a, if acc_promised (cl_acceptors c n) = b then [] else [SetPromise b])"
    by (simp add: acceptor_set_promise_total)
  from raised_sound[OF inv this] have move: "sound_move plan fp c ?c" .
  have "msg_inv (quorum2 plan) fp (voting_of ?c) (Promise_Msg n (acc_promised a) from (pp_accepted page) (pp_faulty page) (pp_next_from_slot page))"
    using cluster_invD(2)[OF sound_moveD[OF move], of n] a(1) op(2-4)
    by (intro page_msg_inv[where limit = limit]) (auto simp: a(3))
  then have "sound_move plan fp ?c (?c\<lparr>cl_net := insert
      (Promise_Msg n b from (pp_accepted page) (pp_faulty page) (pp_next_from_slot page)) (cl_net ?c)\<rparr>)"
    using a(3) by (intro send_sound[OF sound_moveD[OF move]]) auto
  with move show ?thesis by (auto intro: sound_move_trans)
qed

lemma voted_sound:
  assumes inv: "cluster_inv plan fp c" and pd: "Accept_Msg b s v \<in> cl_net c"
    and op: "node_vote (cl_acceptors c n) b s v = Some (True, a)"
  shows "sound_move plan fp c (c\<lparr>cl_acceptors := (cl_acceptors c)(n := a), cl_votes := insert (n, s, b, v) (cl_votes c)\<rparr>)"
proof -
  note node = cluster_invD(2)[OF inv, of n]
  note a = node_vote_SomeD[OF op node_invD(1)[OF node]]
  let ?c = "c\<lparr>cl_acceptors := (cl_acceptors c)(n := a), cl_learned := (cl_learned c)(n := cl_learned c n),
      cl_votes := insert (n, s, b, v) (cl_votes c)\<rparr>"
  have "sound_move plan fp c ?c"
  proof (rule vote_sound[OF inv a(2) _ pd refl])
    assume g: "voting_grows (voting_of c) (voting_of ?c)" "voting_ok (quorum2 plan) (voting_of ?c)"
    have "node_inv (quorum2 plan) (voting_of ?c) n (acceptor_recorded ((cl_acceptors c n)\<lparr>acc_promised := b\<rparr>) s b v)
        (cl_learned c n) (cl_prefix c n)"
      by (rule node_recorded_inv[OF node g]) (use a pd in \<open>auto simp: a(1)\<close>)
    then show "node_inv (quorum2 plan) (voting_of ?c) n a (cl_learned c n) (cl_prefix c n)" by (simp only: a(1))
  qed (simp add: a(1))
  then show ?thesis by simp
qed

text \<open>Below the prefix a proposal that reaches a node's promise carries the value chosen there.\<close>

lemma prefix_chosen:
  assumes inv: "cluster_inv plan fp c" and s: "s < cl_prefix c n" "acc_floor (cl_acceptors c n) \<le> s"
  obtains b0 w where "b0 \<le> acc_promised (cl_acceptors c n)" "chosen_at (quorum2 plan) (voting_of c) b0 s w"
proof -
  note node = cluster_invD(2)[OF inv, of n]
  obtain rb b0 w where c: "b0 \<le> rb" "chosen_at (quorum2 plan) (voting_of c) b0 s w"
    "(\<exists>v. acc_record (cl_acceptors c n) s = Some (rb, v)) \<or> acc_rot (cl_acceptors c n) s = Some rb"
    using node_invD(7)[OF node s] by blast
  have "rb \<le> acc_promised (cl_acceptors c n)"
    using c(3) acceptor_okD(4,7,8)[OF node_invD(1)[OF node]] by (meson order_trans)
  then show thesis using that c(1,2) by (meson order_trans)
qed

lemma voted_healing_sound:
  assumes inv: "cluster_inv plan fp c" and pd: "Accept_Msg b s v \<in> cl_net c"
    and adm: "acceptor_admit (cl_acceptors c n) b s = Some Admitted" "s < cl_prefix c n" "cl_learned c n s = None"
    and op: "acceptor_set_promise id (cl_acceptors c n) b [] = Some (a1, ws)"
      "node_learn a1 (cl_learned c n) b s v = Some (a, learned)"
  shows "sound_move plan fp c (c\<lparr>cl_acceptors := (cl_acceptors c)(n := a), cl_learned := (cl_learned c)(n := learned),
      cl_votes := insert (n, s, b, v) (cl_votes c)\<rparr>)"
proof -
  note node = cluster_invD(2)[OF inv, of n]
  note nok = node_invD(1)[OF node]
  let ?a = "cl_acceptors c n"
  have a: "acc_floor ?a \<le> s" "acc_promised ?a \<le> b" "a1 = ?a\<lparr>acc_promised := b\<rparr>"
    using adm(1) op(1) by (auto simp: acceptor_admit_total[OF nok] acceptor_set_promise_total not_less split: if_splits)
  have ok1: "acceptor_ok a1" unfolding a(3) using nok a(2) by (rule acceptor_ok_promise)
  obtain b0 w where b0: "b0 \<le> acc_promised ?a" "chosen_at (quorum2 plan) (voting_of c) b0 s w"
    using prefix_chosen[OF inv adm(2) a(1)] .
  have "b0 \<le> b" using b0(1) a(2) by (rule order_trans)
  then have chosen: "chosen_at (quorum2 plan) (voting_of c) b0 s v" "b0 \<le> b"
    using cv.chosen_rules_above[OF cluster_invD(1)[OF inv] b0(2), of b v] b0(2) pd by auto
  let ?c = "c\<lparr>cl_acceptors := (cl_acceptors c)(n := a), cl_learned := (cl_learned c)(n := learned),
      cl_votes := insert (n, s, b, v) (cl_votes c)\<rparr>"
  from op(2) ok1 show ?thesis
  proof (cases rule: node_learn_SomeD)
    case 1
    then show ?thesis using adm(3) a(1,3) by simp
  next
    case (2 rb)
    have a': "a = ?a\<lparr>acc_promised := b\<rparr>" using 2(6) a(3) by simp
    show ?thesis
    proof (rule vote_sound[OF inv a(2) _ pd refl])
      assume g: "voting_grows (voting_of c) (voting_of ?c)" "voting_ok (quorum2 plan) (voting_of ?c)"
      have "node_inv (quorum2 plan) (voting_of ?c) n (?a\<lparr>acc_promised := b\<rparr>) learned (cl_prefix c n)"
      proof (rule node_kept_inv[OF node g(1) _ a(2)])
        show "learned = cl_learned c n \<or> (\<exists>s v ca b0. learned = (cl_learned c n)(s \<mapsto> v) \<and>
            acc_record ?a s = Some (ca, v) \<and> b0 \<le> ca \<and> chosen_at (quorum2 plan) (voting_of ?c) b0 s v)"
        proof (rule disjI2, intro exI conjI)
          show "learned = (cl_learned c n)(s \<mapsto> v)" by (rule 2(3))
          show "acc_record ?a s = Some (rb, v)" using 2(4) a(3) by simp
          show "b0 \<le> rb" using chosen(2) 2(5) by (rule order_trans)
          show "chosen_at (quorum2 plan) (voting_of ?c) b0 s v" using chosen(1) g(1) by (rule chosen_at_grows)
        qed
      qed (use 2(4,5) a a' in auto)
      then show "node_inv (quorum2 plan) (voting_of ?c) n a learned (cl_prefix c n)" by (simp only: a')
    qed (simp add: a')
  next
    case 3
    have a': "a = acceptor_recorded (?a\<lparr>acc_promised := b\<rparr>) s b v" using 3(4) a(3) by simp
    show ?thesis
    proof (rule vote_sound[OF inv a(2) _ pd refl])
      assume g: "voting_grows (voting_of c) (voting_of ?c)" "voting_ok (quorum2 plan) (voting_of ?c)"
      have "node_inv (quorum2 plan) (voting_of ?c) n (acceptor_recorded (?a\<lparr>acc_promised := b\<rparr>) s b v) learned (cl_prefix c n)"
        by (rule node_recorded_inv[OF node g]) (use 3(3) a pd chosen(2) chosen_at_grows[OF chosen(1) g(1)] in \<open>auto simp: a'\<close>)
      then show "node_inv (quorum2 plan) (voting_of ?c) n a learned (cl_prefix c n)" by (simp only: a')
    qed (simp add: a')
  qed
qed

lemma learn_sound:
  assumes inv: "cluster_inv plan fp c" and pd: "Accept_Msg b s v \<in> cl_net c"
    and chosen: "b0 \<le> b" "chosen_at (quorum2 plan) (voting_of c) b0 s v"
    and op: "node_learn (cl_acceptors c n) (cl_learned c n) b s v = Some (a, learned)"
  shows "sound_move plan fp c (c\<lparr>cl_acceptors := (cl_acceptors c)(n := a), cl_learned := (cl_learned c)(n := learned)\<rparr>)"
proof -
  note node = cluster_invD(2)[OF inv, of n]
  let ?a = "cl_acceptors c n" and ?p = "max b (acc_promised (cl_acceptors c n))"
  let ?c = "c\<lparr>cl_acceptors := (cl_acceptors c)(n := a), cl_learned := (cl_learned c)(n := learned),
      cl_prefix := (cl_prefix c)(n := cl_prefix c n)\<rparr>"
  from op node_invD(1)[OF node] have "sound_move plan fp c ?c"
  proof (cases rule: node_learn_SomeD)
    case 1
    then have "?c = c" by simp
    then show ?thesis using inv by (simp add: sound_move_def)
  next
    case (2 rb)
    have p: "acc_promised a = ?p" using 2(6) by simp
    have g: "voting_grows (voting_of c) (voting_of ?c)" by (rule raised_grows) (simp add: p)
    have "\<exists>s v ca b0. learned = (cl_learned c n)(s \<mapsto> v) \<and> acc_record ?a s = Some (ca, v) \<and> b0 \<le> ca \<and>
        chosen_at (quorum2 plan) (voting_of ?c) b0 s v"
      using 2(3,4) order_trans[OF chosen(1) 2(5)] chosen_at_grows[OF chosen(2) g] by blast
    then have "node_inv (quorum2 plan) (voting_of ?c) n (?a\<lparr>acc_promised := ?p\<rparr>) learned (cl_prefix c n)"
      using p by (intro node_kept_inv[OF node g]) auto
    then have "node_inv (quorum2 plan) (voting_of ?c) n a learned (cl_prefix c n)" by (simp only: 2(6))
    then show ?thesis using p by (intro node_sound[OF inv _ refl]) simp_all
  next
    case 3
    have p: "acc_promised a = ?p" using 3(4) by simp
    have g: "voting_grows (voting_of c) (voting_of ?c)" by (rule raised_grows) (simp add: p)
    have run: "voting_step (quorum2 plan) (voting_of c) (voting_of ?c)"
      using voting_step.raise[of "voting_of c" n ?p "quorum2 plan"] p by (simp add: voting_of_def fun_upd_def if_distrib cong: if_cong)
    have "node_inv (quorum2 plan) (voting_of ?c) n (acceptor_recorded (?a\<lparr>acc_promised := ?p\<rparr>) s b v) learned (cl_prefix c n)"
      by (rule node_recorded_inv[OF node g voting_step_ok[OF run cluster_invD(1)[OF inv]]])
        (use 3(1,3) p pd chosen(1) chosen_at_grows[OF chosen(2) g] in auto)
    then have "node_inv (quorum2 plan) (voting_of ?c) n a learned (cl_prefix c n)" by (simp only: 3(4))
    then show ?thesis using p by (intro node_sound[OF inv _ refl]) simp_all
  qed
  then show ?thesis by simp
qed

lemma healed_sound:
  assumes inv: "cluster_inv plan fp c" and out: "cl_outcomes c b = Some outcome"
    and rec: "fmlookup (po_recovered outcome) s = Some (rb, v)" "s \<notin> po_blocked outcome" "cl_licences c b s = Bound v"
    and first: "\<forall>w. Accept_Msg b s w \<notin> cl_net c" and s: "s < cl_prefix c n" and prom: "acceptor_promised (cl_acceptors c n) = Some b"
    and op: "node_learn (cl_acceptors c n) (cl_learned c n) rb s v = Some (a, learned)"
  shows "sound_move plan fp c (c\<lparr>cl_acceptors := (cl_acceptors c)(n := a), cl_learned := (cl_learned c)(n := learned)\<rparr>)"
proof (cases "s < acc_floor (cl_acceptors c n)")
  case True
  then have "a = cl_acceptors c n" "learned = cl_learned c n"
    using op node_invD(1)[OF cluster_invD(2)[OF inv, of n]] by (auto simp: node_learn_def acceptor_first_slot_total)
  then show ?thesis using inv by (simp add: sound_move_def)
next
  case False
  let ?V = "voting_of c"
  note vok = cluster_invD(1)[OF inv]
  have p: "acc_promised (cl_acceptors c n) = b"
    using prom acceptor_reads_total(1)[OF node_invD(1)[OF cluster_invD(2)[OF inv, of n]]] by simp
  obtain b0 w where b0: "b0 \<le> b" "chosen_at (quorum2 plan) ?V b0 s w"
    using prefix_chosen[OF inv s] False p by auto
  have "b0 \<noteq> b" using cv.chosen_proposed[OF vok b0(2)] first by auto
  then have lt: "b0 < b" using b0(1) by simp
  note o = cluster_invD(5)[OF inv, of b, unfolded out outcome_inv_def]
  have pd: "(rb, s, v) \<in> vo_proposed ?V" and cov: "covers (quorum2 plan) ?V rb s b0"
    using o rec lt chosen_choosable[OF b0(2)] by blast+
  from cov obtain c0 u where c0: "c0 \<le> rb" "chosen_at (quorum2 plan) ?V c0 s u"
    using b0(2) unfolding covers_def by blast
  have "chosen_at (quorum2 plan) ?V c0 s v" using cv.chosen_rules_above[OF vok c0(2) pd c0(1)] c0(2) by simp
  then show ?thesis using pd by (intro learn_sound[OF inv _ c0(1) _ op]) auto
qed

lemma retained_sound:
  assumes inv: "cluster_inv plan fp c"
    and op: "acceptor_truncate (cl_acceptors c n) first sealed [] = Some (a, ws) \<and> k = cl_prefix c n \<or>
      acceptor_trim_to (cl_acceptors c n) first sealed [] = Some (a, ws) \<and> k = max (cl_prefix c n) first"
  shows "sound_move plan fp c (c\<lparr>cl_acceptors := (cl_acceptors c)(n := a), cl_prefix := (cl_prefix c)(n := k)\<rparr>)"
proof -
  note node = cluster_invD(2)[OF inv, of n]
  have a: "acc_floor (cl_acceptors c n) \<le> first" "a = acceptor_dropped (cl_acceptors c n) first"
    using op by (auto simp: acceptor_retention_total[OF node_invD(1)[OF node]] split: if_splits)
  let ?c = "c\<lparr>cl_acceptors := (cl_acceptors c)(n := a), cl_learned := (cl_learned c)(n := cl_learned c n), cl_prefix := (cl_prefix c)(n := k)\<rparr>"
  have V: "voting_of (c\<lparr>cl_acceptors := (cl_acceptors c)(n := a)\<rparr>) = voting_of c" by (auto simp: voting_of_def a(2))
  have "node_inv (quorum2 plan) (voting_of c) n a (cl_learned c n) k"
    unfolding a(2) using op by (intro node_dropped_inv[OF node a(1)]) auto
  then have "sound_move plan fp c ?c" by (intro node_sound[OF inv _ refl]) (simp_all add: V, simp add: a(2))
  then show ?thesis by simp
qed

lemma advanced_sound:
  assumes inv: "cluster_inv plan fp c" and known: "\<forall>s. cl_prefix c n \<le> s \<and> s < k \<longrightarrow> cl_learned c n s \<noteq> None"
  shows "sound_move plan fp c (c\<lparr>cl_prefix := (cl_prefix c)(n := k)\<rparr>)"
proof -
  let ?c = "c\<lparr>cl_acceptors := (cl_acceptors c)(n := cl_acceptors c n), cl_learned := (cl_learned c)(n := cl_learned c n), cl_prefix := (cl_prefix c)(n := k)\<rparr>"
  have "node_inv (quorum2 plan) (voting_of c) n (cl_acceptors c n) (cl_learned c n) k"
    using cluster_invD(2)[OF inv] by (rule node_advanced_inv) (use known in blast)
  then have "sound_move plan fp c ?c" by (intro node_sound[OF inv _ refl]) simp_all
  then show ?thesis by simp
qed

lemma rebooted_sound:
  assumes inv: "cluster_inv plan fp c"
    and op: "acceptor_new (acc_promised (cl_acceptors c n)) (fmdrop_set S (rw_map (acc_records (cl_acceptors c n))))
      (acc_floor (cl_acceptors c n)) (rotten S (cl_acceptors c n)) = Some a"
    and l: "learned = (\<lambda>s. if s < cl_prefix c n then map_option snd (acc_record a s) else None)"
  shows "sound_move plan fp c (c\<lparr>cl_acceptors := (cl_acceptors c)(n := a), cl_learned := (cl_learned c)(n := learned)\<rparr>)"
proof -
  let ?c = "c\<lparr>cl_acceptors := (cl_acceptors c)(n := a), cl_learned := (cl_learned c)(n := learned), cl_prefix := (cl_prefix c)(n := cl_prefix c n)\<rparr>"
  have p: "acc_promised a = acc_promised (cl_acceptors c n)"
    using op by (auto simp: acceptor_new_total booted_def split: if_splits)
  have V: "voting_of (c\<lparr>cl_acceptors := (cl_acceptors c)(n := a)\<rparr>) = voting_of c" by (auto simp: voting_of_def p)
  have "node_inv (quorum2 plan) (voting_of c) n a learned (cl_prefix c n)"
    using cluster_invD(2,1)[OF inv] op l by (rule node_rebooted_inv)
  then have "sound_move plan fp c ?c" by (intro node_sound[OF inv _ refl]) (simp_all add: V p)
  then show ?thesis by simp
qed

subsection \<open>Steps of the leaders\<close>

lemma rounds_sound:
  assumes inv: "cluster_inv plan fp c" and plan: "plan_ok plan" "plan b = Some cm"
    and step: "proposer_step fp (cl_proposers c b) p" and p: "p = (cl_proposers c b)\<lparr>pr_rounds := rs\<rparr>"
    and rounds: "rounds_step (cm_config cm) fp (vote_hashes fp (voting_of c), pr_rounds (cl_proposers c b)) (W, rs)"
      "W \<subseteq> vote_hashes fp (voting_of c)"
    and kept: "rounds_persist (pr_rounds (cl_proposers c b)) rs \<or>
      rounds_open (pr_rounds (cl_proposers c b)) s b v own column = Some rs \<and> Accept_Msg b s v \<in> cl_net c \<or>
      rounds_open_delegated (pr_rounds (cl_proposers c b)) s b v column proxy = Some rs \<and> Accept_Msg b s v \<in> cl_net c"
  shows "sound_move plan fp c (c\<lparr>cl_proposers := (cl_proposers c)(b := p)\<rparr>)"
proof (rule leader_sound[OF inv], rule conjI)
  note lead = cluster_invD(3)[OF inv, of b]
  have "rounds_inv (cm_config cm) fp (voting_of c) b rs"
    using leader_invD(8)[OF lead plan(2)] plan_okD(3)[OF plan] rounds
    by (rule rounds_inv_step) (use kept in simp)
  then show "leader_inv plan fp (voting_of c) b p"
    by (intro leader_keep_inv[OF lead plan(2) step]) (auto simp: p)
  show "probed_slots p \<subseteq> probed_slots (cl_proposers c b)" by (simp add: p probed_slots_def)
qed

lemma campaigned_sound:
  assumes inv: "cluster_inv plan fp c" and plan: "plan_ok plan" "plan b = Some cm"
    and fence: "au_fence (pr_authority (cl_proposers c b)) = None"
    and own: "case cm_me cm of None \<Rightarrow> own_records = fmempty \<and> own_faulty = fmempty
     | Some n \<Rightarrow> acceptor_promised (cl_acceptors c n) = Some b \<and>
         acceptor_records (cl_acceptors c n) = Some own_records \<and> acceptor_faulty (cl_acceptors c n) = Some own_faulty \<and>
         (\<exists>floor. acceptor_first_slot (cl_acceptors c n) = Some floor \<and> floor \<le> cm_from_slot cm)"
    and op: "open_phase1 (cl_proposers c b) cm own_records own_faulty = Some (targets, p)"
  shows "sound_move plan fp c (c\<lparr>cl_proposers := (cl_proposers c)(b := p)\<rparr>)"
proof (rule leader_sound[OF inv], rule conjI)
  note node = cluster_invD(2)[OF inv]
  show "leader_inv plan fp (voting_of c) b p"
  proof (rule leader_opened_inv[OF cluster_invD(3)[OF inv] plan fence op _ node])
    show "case cm_me cm of None \<Rightarrow> own_records = fmempty \<and> own_faulty = fmempty
      | Some n \<Rightarrow> acc_promised (cl_acceptors c n) = b \<and> own_records = rw_map (acc_records (cl_acceptors c n)) \<and>
          own_faulty = rw_map (acc_faulty (cl_acceptors c n)) \<and> acc_floor (cl_acceptors c n) \<le> cm_from_slot cm"
      using own acceptor_reads_total(1-3)[OF node_invD(1)[OF node]] acceptor_first_slot_total[OF node_invD(1)[OF node]]
      by (auto split: option.splits)
  qed
  show "probed_slots p \<subseteq> probed_slots (cl_proposers c b)"
    using op by (auto simp: open_phase1_def probed_slots_def bind_Some_iff Let_def)
qed

lemma proposed_sound:
  assumes inv: "cluster_inv plan fp c" and plan: "plan_ok plan" "plan b = Some cm"
    and pd: "Accept_Msg b s v \<in> cl_net c" and col: "column_ok (cm_config cm) column"
    and own: "\<And>n. own = Some n \<Longrightarrow> (n, s, b, v) \<in> cl_votes c \<and> ac_is_phase2_addressee (cm_config cm) n column = Some True"
    and op: "open_round (cl_proposers c b) s b v own column = Some p \<or>
      open_delegated_round (cl_proposers c b) s b v column proxy = Some p"
  shows "sound_move plan fp c (c\<lparr>cl_proposers := (cl_proposers c)(b := p)\<rparr>)"
  using op
proof
  assume open_at: "open_round (cl_proposers c b) s b v own column = Some p"
  then obtain rs where rs: "rounds_open (pr_rounds (cl_proposers c b)) s b v own column = Some rs"
    "p = (cl_proposers c b)\<lparr>pr_rounds := rs\<rparr>" by (auto simp: open_round_def bind_Some_iff)
  have "set_option own \<subseteq> in_column (cm_config cm) column"
    using own in_column_total[OF plan_okD(3)[OF plan] col] by auto
  from rounds_step.opened[OF rs(1) col this, of fp "vote_hashes fp (voting_of c)"]
  show ?thesis
    by (rule rounds_sound[OF inv plan proposer_step.round_opened[OF open_at] rs(2)])
      (use own pd rs(1) in \<open>auto simp: own_votes_def\<close>)
next
  assume open_at: "open_delegated_round (cl_proposers c b) s b v column proxy = Some p"
  then obtain rs where rs: "rounds_open_delegated (pr_rounds (cl_proposers c b)) s b v column proxy = Some rs"
    "p = (cl_proposers c b)\<lparr>pr_rounds := rs\<rparr>" by (auto simp: open_delegated_round_def bind_Some_iff)
  from rounds_step.delegated[OF rs(1) col, of fp "vote_hashes fp (voting_of c)"]
  show ?thesis
    by (rule rounds_sound[OF inv plan proposer_step.round_delegated[OF open_at] rs(2)]) (use pd rs(1) in auto)
qed

lemma counted_sound:
  assumes inv: "cluster_inv plan fp c" and plan: "plan_ok plan" "plan b = Some cm"
    and msg: "Accepted_Msg n b' s h \<in> cl_net c"
    and op: "fold_accepted_in fp (cl_proposers c b) (cm_config cm) n b' s h = Some (cnt, p)"
  shows "sound_move plan fp c (c\<lparr>cl_proposers := (cl_proposers c)(b := p)\<rparr>)"
proof -
  obtain rs where rs: "rounds_fold_accepted_in fp (pr_rounds (cl_proposers c b)) (cm_config cm) n b' s h = Some (cnt, rs)"
    "p = (cl_proposers c b)\<lparr>pr_rounds := rs\<rparr>" using op by (auto simp: fold_accepted_in_def bind_Some_iff)
  have "rounds_persist (pr_rounds (cl_proposers c b)) rs"
    using leader_invD(8)[OF cluster_invD(3)[OF inv] plan(2)] plan_okD(3)[OF plan]
    by (intro rounds_ops_persist(3)[OF rs(1)]) (auto simp: rounds_inv_def)
  moreover have "(n, s, b', h) \<in> vote_hashes fp (voting_of c)" using cluster_invD(6)[OF inv msg] by auto
  ultimately show ?thesis
    by (intro rounds_sound[OF inv plan proposer_step.voted_in[OF op] rs(2) rounds_step.voted[OF rs(1)]]) auto
qed

lemma close_round_sound:
  assumes inv: "cluster_inv plan fp c" and plan: "plan_ok plan" "plan b = Some cm"
  shows "sound_move plan fp c (c\<lparr>cl_proposers := (cl_proposers c)(b := close_round (cl_proposers c b) s)\<rparr>)"
  by (rule rounds_sound[OF inv plan proposer_step.round_closed close_round_def rounds_step.closed])
    (simp_all add: rounds_ops_persist)

lemma rounds_kept_sound:
  assumes inv: "cluster_inv plan fp c" and plan: "plan_ok plan" "plan b = Some cm"
    and op: "(\<exists>page. resend_page (cl_proposers c b) limit = Some (page, p)) \<or> retain_rounds_from (cl_proposers c b) s = Some p"
  shows "sound_move plan fp c (c\<lparr>cl_proposers := (cl_proposers c)(b := p)\<rparr>)"
  using op
proof (elim disjE exE)
  fix page
  assume r: "resend_page (cl_proposers c b) limit = Some (page, p)"
  then obtain rs where rs: "rounds_resend_page (pr_rounds (cl_proposers c b)) limit = Some (page, rs)"
    "p = (cl_proposers c b)\<lparr>pr_rounds := rs\<rparr>" by (auto simp: resend_page_def bind_Some_iff)
  show ?thesis
    by (rule rounds_sound[OF inv plan proposer_step.resent[OF r] rs(2) rounds_step.resent[OF rs(1)]])
      (use rounds_ops_persist(6)[OF rs(1)] in simp_all)
next
  assume r: "retain_rounds_from (cl_proposers c b) s = Some p"
  then obtain rs where rs: "rounds_retain_from (pr_rounds (cl_proposers c b)) s = Some rs"
    "p = (cl_proposers c b)\<lparr>pr_rounds := rs\<rparr>" by (auto simp: retain_rounds_from_def bind_Some_iff)
  show ?thesis
    by (rule rounds_sound[OF inv plan proposer_step.rounds_retained[OF r] rs(2) rounds_step.retained[OF rs(1)]])
      (use rounds_ops_persist(5)[OF rs(1)] in simp_all)
qed

lemma own_votes_cast:
  assumes "rounds_inv config fp (voting_of c) b rs" "fmlookup (rs_by_slot rs) s = Some rd"
    and "\<And>n. own = Some n \<Longrightarrow> (n, s, b, rd_command rd) \<in> cl_votes c"
  shows "vote_hashes fp (voting_of c) \<union> own_votes own s (rd_ballot rd) (fp (rd_command rd)) \<subseteq> vote_hashes fp (voting_of c)"
  using assms by (auto simp: own_votes_def rounds_inv_def)

lemma round_moved_sound:
  assumes inv: "cluster_inv plan fp c" and plan: "plan_ok plan" "plan b = Some cm"
    and col: "column_ok (cm_config cm) column" and rd: "fmlookup (rs_by_slot (pr_rounds (cl_proposers c b))) s = Some rd"
    and own: "\<And>n. own = Some n \<Longrightarrow> (n, s, b, rd_command rd) \<in> cl_votes c"
    and op: "move_round (cl_proposers c b) (cm_config cm) s column own = Some (did, p)"
  shows "sound_move plan fp c (c\<lparr>cl_proposers := (cl_proposers c)(b := p)\<rparr>)"
proof -
  obtain rs where rs: "rounds_move_to (pr_rounds (cl_proposers c b)) (cm_config cm) s column own = Some (did, rs)"
    "p = (cl_proposers c b)\<lparr>pr_rounds := rs\<rparr>" using op by (auto simp: move_round_def bind_Some_iff)
  show ?thesis
    by (rule rounds_sound[OF inv plan proposer_step.round_moved[OF op] rs(2) rounds_step.moved[OF rs(1) col rd]
        own_votes_cast[OF leader_invD(8)[OF cluster_invD(3)[OF inv] plan(2)] rd own]])
      (use rounds_ops_persist(2)[OF rs(1) rd plan_okD(3)[OF plan] col] in simp_all)
qed

lemma round_taken_back_sound:
  assumes inv: "cluster_inv plan fp c" and plan: "plan_ok plan" "plan b = Some cm"
    and rd: "fmlookup (rs_by_slot (pr_rounds (cl_proposers c b))) s = Some rd"
    and own: "\<And>n. own = Some n \<Longrightarrow> (n, s, b, rd_command rd) \<in> cl_votes c"
      "\<And>n. own = Some n \<Longrightarrow> ac_is_phase2_addressee (cm_config cm) n (rd_column rd) = Some True"
    and op: "take_back_round (cl_proposers c b) s own = Some (taken, p)"
  shows "sound_move plan fp c (c\<lparr>cl_proposers := (cl_proposers c)(b := p)\<rparr>)"
proof -
  obtain rs where rs: "rounds_take_back (pr_rounds (cl_proposers c b)) s own = Some (taken, rs)"
    "p = (cl_proposers c b)\<lparr>pr_rounds := rs\<rparr>" using op by (auto simp: take_back_round_def bind_Some_iff)
  note rinv = leader_invD(8)[OF cluster_invD(3)[OF inv] plan(2)]
  have "column_ok (cm_config cm) (rd_column rd)" using rinv rd by (auto simp: rounds_inv_def rounds_ok_def round_ok_def)
  then have "set_option own \<subseteq> in_column (cm_config cm) (rd_column rd)"
    using own(2) in_column_total[OF plan_okD(3)[OF plan]] by auto
  then show ?thesis
    by (intro rounds_sound[OF inv plan proposer_step.round_taken_back[OF op] rs(2) rounds_step.taken_back[OF rs(1) rd]
          own_votes_cast[OF rinv rd own(1)]]) (use rounds_ops_persist(1)[OF rs(1) rd] in simp_all)
qed

subsection \<open>Commits\<close>

text \<open>One ballot proposes one value at a slot, so votes whose fingerprint matches are votes for that value.\<close>

lemma hashed_quorum_chosen:
  assumes inv: "cluster_inv plan fp c" and plan: "plan_ok plan" "plan b = Some cm" and pd: "Accept_Msg b s v \<in> cl_net c"
    and quorum: "phase2_holds (ac_quorum_system (cm_config cm)) (ac_members (cm_config cm)) A column"
    and votes: "\<And>n. n \<in> A \<Longrightarrow> \<exists>w. (n, s, b, w) \<in> cl_votes c \<and> fp w = h"
  shows "chosen_at (quorum2 plan) (voting_of c) b s v"
proof -
  have "(n, s, b, v) \<in> cl_votes c" if n: "n \<in> A" for n
  proof -
    obtain w where w: "(n, s, b, w) \<in> cl_votes c" using votes[OF n] by blast
    then have "(b, s, w) \<in> vo_proposed (voting_of c)" using voting_okD(1)[OF cluster_invD(1)[OF inv]] by simp
    then have "w = v" using voting_okD(3)[OF cluster_invD(1)[OF inv]] pd by (metis voting_of_fields(3))
    then show ?thesis using w by simp
  qed
  then show ?thesis using plan(2) plan_okD(3)[OF plan] quorum unfolding chosen_at_def quorum2_def by auto
qed

lemma commit_sound:
  assumes inv: "cluster_inv plan fp c" and "Accept_Msg b s v \<in> cl_net c" "b0 \<le> b" "chosen_at (quorum2 plan) (voting_of c) b0 s v"
  shows "sound_move plan fp c (c\<lparr>cl_net := insert (Commit_Msg b s v) (cl_net c)\<rparr>)"
  using assms(2-4) by (intro send_sound[OF inv]) auto

lemma decided_sound:
  assumes inv: "cluster_inv plan fp c" and plan: "plan_ok plan" "plan b = Some cm"
    and op: "proposer_decided (cl_proposers c b) s (cm_config cm) = Some (Some (b', v))"
  shows "sound_move plan fp c (c\<lparr>cl_net := insert (Commit_Msg b' s v) (cl_net c)\<rparr>)"
proof -
  have rinv: "rounds_inv (cm_config cm) fp (voting_of c) b (pr_rounds (cl_proposers c b))"
    using leader_invD(8)[OF cluster_invD(3)[OF inv] plan(2)] .
  then have rok: "rounds_ok (cm_config cm) fp (vote_hashes fp (voting_of c)) (pr_rounds (cl_proposers c b))"
    by (simp add: rounds_inv_def)
  have "rounds_decided (pr_rounds (cl_proposers c b)) s (cm_config cm) = Some (Some (b', v))"
    using op by (auto simp: proposer_decided_def bind_Some_iff)
  then obtain rd A where rd: "fmlookup (rs_by_slot (pr_rounds (cl_proposers c b))) s = Some rd" "rd_accepted_by rd = Some A"
    "phase2_holds (ac_quorum_system (cm_config cm)) (ac_members (cm_config cm)) A (rd_column rd)"
    "rd_ballot rd = b'" "rd_command rd = v"
    by (auto simp: rounds_decided_total[OF plan_okD(3)[OF plan] rok] split: option.splits if_splits)
  have pd: "b' = b" "Accept_Msg b s v \<in> cl_net c" using rinv rd(1,4,5) by (auto simp: rounds_inv_def)
  have "\<exists>w. (n, s, b, w) \<in> cl_votes c \<and> fp w = fp v" if "n \<in> A" for n
    using rounds_okD[OF rok rd(1)] rd(2,4,5) that pd(1) by (fastforce simp: round_ok_def)
  then have "chosen_at (quorum2 plan) (voting_of c) b s v" by (rule hashed_quorum_chosen[OF inv plan pd(2) rd(3)])
  then show ?thesis unfolding pd(1) using pd(2) by (intro commit_sound[OF inv _ order_refl])
qed

subsection \<open>Every step is sound\<close>

lemma fold_promise_probed:
  "fold_promise p n b from accepted faulty next = Some (fd, p') \<Longrightarrow> probed_slots p' = probed_slots p"
  "fold_probe_promise p n b from accepted faulty next = Some (fd, p') \<Longrightarrow> probed_slots p' = probed_slots p"
  by (auto simp: fold_promise_def fold_probe_promise_def probed_slots_def bind_Some_iff Let_def
      split: option.splits if_splits)

lemma cluster_start_inv: "cluster_inv plan fp cluster_start"
proof (rule cluster_invI)
  have boot: "acceptor_new ballot_zero fmempty 0 fmempty = Some (booted ballot_zero fmempty 0 fmempty)"
    by (simp add: acceptor_new_total boot_ok_def)
  show "node_inv (quorum2 plan) (voting_of cluster_start) n (cl_acceptors cluster_start n) (cl_learned cluster_start n) (cl_prefix cluster_start n)" for n
    by (rule node_invI) (use acceptor_new_ok[OF boot] in \<open>auto simp: cluster_start_def booted_def\<close>)
  show "leader_inv plan fp (voting_of cluster_start) b (cl_proposers cluster_start b)" for b
    by (auto simp: leader_inv_def cluster_start_def proposer_default_def proposer_ok_default[unfolded proposer_default_def]
        intro!: rounds_inv_empty)
qed (auto simp: voting_ok_def licence_inv_def outcome_inv_def cluster_start_def)

lemma cluster_updates_commute:
  "c\<lparr>cl_net := x, cl_proposers := y\<rparr> = c\<lparr>cl_proposers := y, cl_net := x\<rparr>"
  "c\<lparr>cl_net := x, cl_acceptors := a, cl_votes := v, cl_proposers := y\<rparr> =
   c\<lparr>cl_acceptors := a, cl_proposers := y, cl_net := x, cl_votes := v\<rparr>"
  "c\<lparr>cl_acceptors := a, cl_votes := v, cl_net := x\<rparr> = c\<lparr>cl_acceptors := a, cl_net := x, cl_votes := v\<rparr>"
  "c\<lparr>cl_acceptors := a, cl_learned := l, cl_votes := v, cl_net := x\<rparr> =
   c\<lparr>cl_acceptors := a, cl_learned := l, cl_net := x, cl_votes := v\<rparr>"
  by (cases c; simp)+

lemma cluster_step_sound:
  assumes step: "cluster_step plan fp c c'" and inv: "cluster_inv plan fp c" and plan: "plan_ok plan"
  shows "sound_move plan fp c c'"
  using step
proof (cases rule: cluster_step.cases)
  case raised
  then show ?thesis using raised_sound[OF inv] by simp
next
  case answered
  then show ?thesis using answered_sound[OF inv] by simp
next
  case (campaigned b cm own_records own_faulty targets p)
  have "sound_move plan fp c (c\<lparr>cl_proposers := (cl_proposers c)(b := p)\<rparr>)"
    using campaigned by (intro campaigned_sound[OF inv plan]) auto
  then have "sound_move plan fp c ((c\<lparr>cl_proposers := (cl_proposers c)(b := p)\<rparr>)\<lparr>cl_opened := insert b (cl_opened c)\<rparr>)"
    by (simp add: sound_move_def cluster_inv_def)
  then show ?thesis using campaigned(1) by simp
next
  case (folded n b' "from" accepted faulty "next" b cm fd p)
  have "leader_inv plan fp (voting_of c) b p"
    using cluster_invD(3)[OF inv] folded(3) cluster_invD(6)[OF inv folded(2)] folded(4) by (rule leader_folded_inv)
  moreover have "probed_slots p = probed_slots (cl_proposers c b)" using folded(4) by (rule fold_promise_probed)
  ultimately show ?thesis using leader_sound[OF inv] folded(1) by simp
next
  case (won b cm is_chosen outcome p)
  note w = leader_won_inv[OF cluster_invD(3,1)[OF inv] plan won(2-4)]
  show ?thesis unfolding won(1) by (rule reign_sound[OF inv w])
next
  case (probed n b' "from" accepted faulty "next" b cm fd p)
  have "leader_inv plan fp (voting_of c) b p"
    using cluster_invD(3)[OF inv] probed(3) cluster_invD(1)[OF inv] cluster_invD(6)[OF inv probed(2)] probed(4)
    by (rule leader_probed_inv)
  moreover have "probed_slots p = probed_slots (cl_proposers c b)" using probed(4) by (rule fold_promise_probed)
  ultimately show ?thesis using leader_sound[OF inv] probed(1) by simp
next
  case (resolved b cm decisions p)
  note r = leader_resolved_inv[OF cluster_invD(3,1)[OF inv] plan resolved(2,3) cluster_invD(4,5)[OF inv]]
  show ?thesis
    using reign_sound[OF inv conjunct1[OF r] conjunct1[OF conjunct2[OF r]] conjunct2[OF conjunct2[OF r]]] resolved(1) by simp
next
  case (probe_shrunk b cm s p)
  show ?thesis
    unfolding probe_shrunk(1) by (rule leader_sound[OF inv leader_shrunk_inv[OF cluster_invD(3)[OF inv] probe_shrunk(2,3)]])
next
  case (proposed b cm s v column p proxy)
  let ?c1 = "c\<lparr>cl_net := insert (Accept_Msg b s v) (cl_net c)\<rparr>"
  have 1: "sound_move plan fp c ?c1" using proposed(3,4) by (rule propose_sound[OF inv])
  have 2: "sound_move plan fp ?c1 (?c1\<lparr>cl_proposers := (cl_proposers ?c1)(b := p)\<rparr>)"
    by (rule proposed_sound[OF sound_moveD[OF 1] plan proposed(2) _ proposed(5), where own = None and proxy = proxy]) (use proposed(6) in auto)
  show ?thesis using sound_move_trans[OF 1 2] by (simp add: proposed(1) cluster_updates_commute)
next
  case (proposed_own b cm s v column n a p)
  let ?c1 = "c\<lparr>cl_net := insert (Accept_Msg b s v) (cl_net c)\<rparr>"
  let ?c2 = "?c1\<lparr>cl_acceptors := (cl_acceptors ?c1)(n := a), cl_votes := insert (n, s, b, v) (cl_votes ?c1)\<rparr>"
  have 1: "sound_move plan fp c ?c1" using proposed_own(3,4) by (rule propose_sound[OF inv])
  have 2: "sound_move plan fp ?c1 ?c2" using proposed_own(6) by (intro voted_sound[OF sound_moveD[OF 1]]) auto
  have 3: "sound_move plan fp ?c2 (?c2\<lparr>cl_proposers := (cl_proposers ?c2)(b := p)\<rparr>)"
    by (rule proposed_sound[OF sound_moveD[OF 2] plan proposed_own(2) _ proposed_own(5), where own = "Some n"])
      (use proposed_own(7,8) in auto)
  show ?thesis using sound_move_trans[OF 1 sound_move_trans[OF 2 3]] by (simp add: proposed_own(1) cluster_updates_commute)
next
  case (voted b s v n a)
  let ?c1 = "c\<lparr>cl_acceptors := (cl_acceptors c)(n := a), cl_votes := insert (n, s, b, v) (cl_votes c)\<rparr>"
  have 1: "sound_move plan fp c ?c1" using voted(2,3) by (rule voted_sound[OF inv])
  have 2: "sound_move plan fp ?c1 (?c1\<lparr>cl_net := insert (Accepted_Msg n b s (fp v)) (cl_net ?c1)\<rparr>)"
    by (rule send_sound[OF sound_moveD[OF 1]]) auto
  show ?thesis using sound_move_trans[OF 1 2] by (simp add: voted(1) cluster_updates_commute)
next
  case (voted_healing b s v n a1 ws a learned)
  let ?c1 = "c\<lparr>cl_acceptors := (cl_acceptors c)(n := a), cl_learned := (cl_learned c)(n := learned), cl_votes := insert (n, s, b, v) (cl_votes c)\<rparr>"
  have 1: "sound_move plan fp c ?c1" using voted_healing(2-7) by (rule voted_healing_sound[OF inv])
  have 2: "sound_move plan fp ?c1 (?c1\<lparr>cl_net := insert (Accepted_Msg n b s (fp v)) (cl_net ?c1)\<rparr>)"
    by (rule send_sound[OF sound_moveD[OF 1]]) auto
  show ?thesis using sound_move_trans[OF 1 2] by (simp add: voted_healing(1) cluster_updates_commute)
next
  case (counted n b' s h b cm cnt p)
  show ?thesis unfolding counted(1) using counted(3,2,4) by (rule counted_sound[OF inv plan])
next
  case (decided b cm s b' v)
  let ?c1 = "c\<lparr>cl_net := insert (Commit_Msg b' s v) (cl_net c)\<rparr>"
  have 1: "sound_move plan fp c ?c1" using decided(2,3) by (rule decided_sound[OF inv plan])
  have 2: "sound_move plan fp ?c1 (?c1\<lparr>cl_proposers := (cl_proposers ?c1)(b := close_round (cl_proposers ?c1 b) s)\<rparr>)"
    using decided(2) by (rule close_round_sound[OF sound_moveD[OF 1] plan])
  show ?thesis using sound_move_trans[OF 1 2] by (simp add: decided(1) cluster_updates_commute)
next
  case (decided_by_proxy b cm s v Q column)
  have "\<exists>w. (n, s, b, w) \<in> cl_votes c \<and> fp w = fp v" if "n \<in> Q" for n
    using cluster_invD(6)[OF inv bspec[OF decided_by_proxy(5) that]] by simp
  then have "chosen_at (quorum2 plan) (voting_of c) b s v"
    by (rule hashed_quorum_chosen[OF inv plan decided_by_proxy(2,3,4)])
  then show ?thesis unfolding decided_by_proxy(1) by (rule commit_sound[OF inv decided_by_proxy(3) order_refl])
next
  case (learned b s v n a l)
  obtain b0 where "b0 \<le> b" "chosen_at (quorum2 plan) (voting_of c) b0 s v" "Accept_Msg b s v \<in> cl_net c"
    using cluster_invD(6)[OF inv learned(2)] by auto
  then show ?thesis unfolding learned(1) using learned(3) by (intro learn_sound[OF inv])
next
  case (healed b cm outcome s rb v n a l)
  show ?thesis unfolding healed(1) using healed(3-10) by (rule healed_sound[OF inv])
next
  case (caught_up n s v b w)
  note node = cluster_invD(2)[OF inv, of n]
  have r: "acc_record (cl_acceptors c n) s = Some (b, w)"
    using caught_up(3) acceptor_reads_total(4)[OF node_invD(1)[OF node]] by simp
  then have "acc_floor (cl_acceptors c n) \<le> s"
    using acceptor_okD(1)[OF node_invD(1)[OF node]] by (auto simp: rw_ok_def fmdom'_iff)
  from node_invD(6)[OF node caught_up(2) this] r obtain b0 where b0: "w = v" "b0 \<le> b"
    "chosen_at (quorum2 plan) (voting_of c) b0 s v" by auto
  then show ?thesis
    unfolding caught_up(1) using node_invD(3)[OF node r] by (intro commit_sound[OF inv _ b0(2,3)]) simp
next
  case (advanced n k)
  show ?thesis unfolding advanced(1) using advanced(2) by (rule advanced_sound[OF inv])
next
  case (truncated n first sealed a ws)
  then show ?thesis using retained_sound[OF inv, of n first sealed a ws "cl_prefix c n"] by simp
next
  case (trimmed n point state a ws)
  then show ?thesis using retained_sound[OF inv, of n point state a ws "max (cl_prefix c n) point"] by simp
next
  case (rebooted n S a l)
  show ?thesis unfolding rebooted(1) using rebooted(2,3) by (rule rebooted_sound[OF inv])
next
  case (abandoned b cm p)
  have p: "pr_election p = None" "pr_probe p = None" "rounds_is_empty (pr_rounds p)"
    using abandoned(3) by (auto simp: proposer_abandon_total)
  have "leader_inv plan fp (voting_of c) b p"
    using p by (intro leader_keep_inv[OF cluster_invD(3)[OF inv] abandoned(2) proposer_step.abandoned[OF abandoned(3)]])
      (auto intro: rounds_inv_empty)
  then show ?thesis
    unfolding abandoned(1) by (rule reign_sound[OF inv]) (auto simp: licence_inv_def outcome_inv_def)
next
  case (rounds_kept b cm limit p s)
  show ?thesis unfolding rounds_kept(1) using rounds_kept(2,3) by (rule rounds_kept_sound[OF inv plan])
next
  case (round_moved b cm column s rd own did p)
  show ?thesis unfolding round_moved(1) using round_moved(2-4) _ round_moved(6)
    by (rule round_moved_sound[OF inv plan]) (use round_moved(5) in blast)
next
  case (round_taken_back b cm s rd own taken p)
  show ?thesis unfolding round_taken_back(1) using round_taken_back(2,3) _ _ round_taken_back(5)
    by (rule round_taken_back_sound[OF inv plan]) (use round_taken_back(4) in blast)+
next
  case (housekept b cm p)
  have "leader_inv plan fp (voting_of c) b p \<and> probed_slots p \<subseteq> probed_slots (cl_proposers c b)"
    using housekept(4-6) leader_invD(8)[OF cluster_invD(3)[OF inv] housekept(2)]
    by (intro conjI leader_keep_inv[OF cluster_invD(3)[OF inv] housekept(2,3)]) (auto simp: probed_slots_def)
  then show ?thesis unfolding housekept(1) by (rule leader_sound[OF inv])
qed

subsection \<open>What a run of the cluster guarantees\<close>

lemma cluster_reachable_inv:
  assumes "cluster_reachable plan fp c" "plan_ok plan"
  shows "cluster_inv plan fp c"
  using assms
  by (induction rule: cluster_reachable.induct) (auto intro: cluster_start_inv sound_moveD cluster_step_sound)

lemma cluster_run_sound:
  assumes "(cluster_step plan fp)\<^sup>*\<^sup>* c c'" "cluster_inv plan fp c" "plan_ok plan"
  shows "sound_move plan fp c c'"
  using assms(1)
proof (induction rule: rtranclp_induct)
  case base
  then show ?case using assms(2) by (simp add: sound_move_def)
next
  case (step c' c'')
  then show ?case using cluster_step_sound[OF step(2) sound_moveD assms(3)] by (blast intro: sound_move_trans)
qed

text \<open>A value is settled at a slot when some message commits it or some node learned it.\<close>

definition settled :: "('id, 'v) cluster \<Rightarrow> slot \<Rightarrow> 'v \<Rightarrow> bool" where
  "settled c s v \<longleftrightarrow> (\<exists>b. Commit_Msg b s v \<in> cl_net c) \<or> (\<exists>n. cl_learned c n s = Some v)"

lemma settled_chosen:
  assumes "cluster_inv plan fp c" "settled c s v"
  shows "\<exists>b. chosen_at (quorum2 plan) (voting_of c) b s v"
  using assms(2) cluster_invD(6)[OF assms(1)] node_invD(5)[OF cluster_invD(2)[OF assms(1)]]
  unfolding settled_def by fastforce

lemma node_vote_total:
  assumes inv: "cluster_inv plan fp c" and msg: "Accept_Msg b s v \<in> cl_net c"
    and count: "acc_faulty_repaired (cl_acceptors c n) < u64_max"
  shows "node_vote (cl_acceptors c n) b s v \<noteq> None"
proof -
  note node = cluster_invD(2)[OF inv, of n]
  note ok = node_invD(1)[OF node]
  let ?a = "(cl_acceptors c n)\<lparr>acc_promised := b\<rparr>"
  have "acceptor_record_accepted id ?a s b v [] \<noteq> None"
    if adm: "acc_promised (cl_acceptors c n) \<le> b" "acc_floor (cl_acceptors c n) \<le> s"
  proof -
    have held: "b' < b \<or> b' = b \<and> v' = v" if r: "acc_record ?a s = Some (b', v')" for b' v'
    proof -
      have "b' \<le> acc_promised (cl_acceptors c n)"
        using acceptor_okD(4)[OF ok] acceptor_okD(7)[OF ok, of s b' v'] r by (auto intro: order_trans)
      then have "b' \<le> b" using adm(1) by (rule order_trans)
      moreover have "(b', s, v') \<in> vo_proposed (voting_of c)" using r by (intro node_invD(3)[OF node]) simp
      then have "v' = v" if "b' = b" using voting_okD(3)[OF cluster_invD(1)[OF inv], of b s v' v] msg that by simp
      ultimately show ?thesis by auto
    qed
    have "acceptor_record_accepted id ?a s b v [] =
        Some (acc_rot ?a s \<noteq> None, acceptor_recorded ?a s b v, [AppendAccepted s b v])"
      using acceptor_record_accepted_total[OF acceptor_ok_promise[OF ok adm(1)] _ _ held, where into = id and writes = "[]"]
        adm count by simp
    then show ?thesis by simp
  qed
  then show ?thesis
    by (auto simp: node_vote_def acceptor_admit_total[OF ok] acceptor_set_promise_total not_less bind_eq_None_conv ex_bool_eq)
qed

lemma node_learn_total:
  assumes inv: "cluster_inv plan fp c" and msg: "Commit_Msg b s v \<in> cl_net c"
    and count: "acc_faulty_repaired (cl_acceptors c n) < u64_max"
  shows "node_learn (cl_acceptors c n) (cl_learned c n) b s v \<noteq> None"
proof -
  note node = cluster_invD(2)[OF inv, of n]
  note ok = node_invD(1)[OF node]
  note vok = cluster_invD(1)[OF inv]
  let ?a = "cl_acceptors c n"
  let ?b = "?a\<lparr>acc_promised := max b (acc_promised ?a)\<rparr>"
  obtain b0 where b0: "b0 \<le> b" "chosen_at (quorum2 plan) (voting_of c) b0 s v" using cluster_invD(6)[OF inv msg] by auto
  have known: "w = v" if "cl_learned c n s = Some w" for w
    using node_invD(5)[OF node that] b0(2) cv.agreement[OF vok] by blast
  have okb: "acceptor_ok ?b" using ok by (rule acceptor_ok_promise) simp
  have "acceptor_record_accepted id ?b s b v [] \<noteq> None"
    if fl: "acc_floor ?a \<le> s" and keep: "\<not> (case acc_record ?a s of None \<Rightarrow> False | Some (c, w) \<Rightarrow> w = v \<and> b \<le> c)"
  proof -
    have held: "b' < b \<or> b' = b \<and> v' = v" if r: "acc_record ?b s = Some (b', v')" for b' v'
    proof (rule ccontr)
      assume "\<not> (b' < b \<or> b' = b \<and> v' = v)"
      then have "b \<le> b'" by auto
      then have "b0 \<le> b'" using b0(1) by (rule order_trans[rotated])
      then have "v' = v" using cv.chosen_rules_above[OF vok b0(2) node_invD(3)[OF node, of s b' v']] r by simp
      then show False using keep r \<open>b \<le> b'\<close> by simp
    qed
    have "acceptor_record_accepted id ?b s b v [] =
        Some (acc_rot ?b s \<noteq> None, acceptor_recorded ?b s b v, [AppendAccepted s b v])"
      using acceptor_record_accepted_total[OF okb _ _ held, where into = id and writes = "[]"] fl count by simp
    then show ?thesis by simp
  qed
  moreover obtain ws where "(if b > acc_promised ?a then acceptor_set_promise id ?a b [] else Some (?a, [])) = Some (?b, ws)"
    using raise_total by blast
  ultimately show ?thesis
    using known okb
    by (auto simp: node_learn_def acceptor_first_slot_total[OF ok] acceptor_reads_total(1)[OF ok] acceptor_reads_total(4) bind_eq_None_conv Let_def not_less
        split: option.splits)
qed

lemma promise_delivery_total:
  assumes inv: "cluster_inv plan fp c" and plan: "plan b = Some cm"
    and msg: "Promise_Msg n b' from accepted faulty next \<in> cl_net c"
  shows "fold_promise (cl_proposers c b) n b' from accepted faulty next \<noteq> None"
    and "fold_probe_promise (cl_proposers c b) n b' from accepted faulty next \<noteq> None"
proof -
  note lead = cluster_invD(3)[OF inv, of b]
  note page = cluster_invD(6)[OF inv msg]
  show "fold_promise (cl_proposers c b) n b' from accepted faulty next \<noteq> None"
  proof (cases "pr_election (cl_proposers c b)")
    case (Some e)
    have "votes_agree (fmlookup (el_recovered e) s) (fmlookup accepted s)" for s
      using tally_agrees[OF leader_invD(4)[OF lead plan Some] page cluster_invD(1)[OF inv]] by simp
    then show ?thesis
      by (simp add: fold_promise_total[OF proposer_okD(1)[OF leader_invD(1)[OF lead plan] Some] Some])
  qed (simp add: fold_promise_def)
  show "fold_probe_promise (cl_proposers c b) n b' from accepted faulty next \<noteq> None"
  proof (cases "pr_probe (cl_proposers c b)")
    case (Some q)
    have "votes_agree (fmlookup (rp_best_have q) s) (fmlookup accepted s)" if "s \<in> rp_blocked q" for s
      using tally_agrees[OF leader_invD(7)[OF lead plan Some] page cluster_invD(1)[OF inv] that] .
    from fold_probe_promise_total[OF proposer_okD(6)[OF leader_invD(1)[OF lead plan] Some] Some this, of n faulty "next" b' "from"]
    show ?thesis by (auto simp del: not_None_eq)
  qed (simp add: fold_probe_promise_def)
qed

lemma accepted_delivery_total:
  assumes inv: "cluster_inv plan fp c" and plan: "plan_ok plan" "plan b = Some cm" and msg: "Accepted_Msg n b' s h \<in> cl_net c"
  shows "fold_accepted_in fp (cl_proposers c b) (cm_config cm) n b' s h \<noteq> None"
proof -
  have rinv: "rounds_inv (cm_config cm) fp (voting_of c) b (pr_rounds (cl_proposers c b))"
    using leader_invD(8)[OF cluster_invD(3)[OF inv] plan(2)] .
  then have rok: "rounds_ok (cm_config cm) fp (vote_hashes fp (voting_of c)) (pr_rounds (cl_proposers c b))"
    by (simp add: rounds_inv_def)
  obtain v where v: "(n, s, b', v) \<in> cl_votes c" "fp v = h" using cluster_invD(6)[OF inv msg] by auto
  have pd: "(b', s, v) \<in> vo_proposed (voting_of c)" using voting_okD(1)[OF cluster_invD(1)[OF inv]] v(1) by simp
  have "fp (rd_command rd) = h" if "fmlookup (rs_by_slot (pr_rounds (cl_proposers c b))) s = Some rd" "rd_ballot rd = b'" for rd
  proof -
    have "(b', s, rd_command rd) \<in> vo_proposed (voting_of c)" using rinv that by (auto simp: rounds_inv_def)
    then have "v = rd_command rd" by (rule voting_okD(3)[OF cluster_invD(1)[OF inv] pd])
    then show ?thesis using v(2) by simp
  qed
  then show ?thesis
    by (auto simp: fold_accepted_in_def rounds_fold_accepted_in_total[OF plan_okD(3)[OF plan] rok] rounds_fold_accepted_total
        split: option.splits)
qed

lemma decision_total:
  assumes inv: "cluster_inv plan fp c" and plan: "plan_ok plan" "plan b = Some cm"
  shows "proposer_decided (cl_proposers c b) s (cm_config cm) \<noteq> None"
proof -
  note lead = cluster_invD(3)[OF inv, of b]
  have rok: "rounds_ok (cm_config cm) fp (vote_hashes fp (voting_of c)) (pr_rounds (cl_proposers c b))"
    using leader_invD(8)[OF lead plan(2)] by (simp add: rounds_inv_def)
  have "rounds_is_empty (pr_rounds (cl_proposers c b))" if "pr_election (cl_proposers c b) = Some e" for e
    using proposer_okD(4)[OF leader_invD(1)[OF lead plan(2)] that] .
  then have "pr_election (cl_proposers c b) = None" if "fmlookup (rs_by_slot (pr_rounds (cl_proposers c b))) s = Some rd" for rd
    using that by (cases "pr_election (cl_proposers c b)") (auto simp: rounds_is_empty_def)
  then show ?thesis
    by (auto simp: proposer_decided_def rounds_decided_total[OF plan_okD(3)[OF plan] rok] rounds_is_open_at_def
        split: option.splits)
qed

end
