(* ===== verification/Agreement.thy ===== *)
theory Agreement
  imports Consensus_Safety
begin

section \<open>Agreement, refinement and the absence of panics\<close>

text \<open>
  The theorems of the cluster, each with the run of a one-member cluster as its witness.
\<close>

subsection \<open>A run on one member\<close>

text \<open>The smallest complete run: one acceptor is prepared, wins its own campaign, opens a round carrying its
  own vote, decides, and learns.\<close>

definition lone_config :: "nat acceptor_config" where
  "lone_config = \<lparr>ac_members = [0], ac_quorum_system = Majority, ac_domains = [], ac_cell = 0, ac_proxies = 0,
     ac_replicas = 0\<rparr>"

definition lone_campaign :: "nat campaign" where
  "lone_campaign = \<lparr>cm_me = Some 0, cm_ballot = Ballot 1 0, cm_config = lone_config, cm_prior = [lone_config],
     cm_from_slot = 0\<rparr>"

definition lone_plan :: "nat plan" where
  "lone_plan b = (if b = Ballot 1 0 then Some lone_campaign else None)"

lemma lone_config_ok: "config_ok lone_config"
  by (simp add: config_ok_def lone_config_def members_ok_def u64_max_def)

lemma lone_plan_ok: "plan_ok lone_plan"
  by (simp add: plan_ok_def lone_plan_def lone_campaign_def campaign_ok_def lone_config_ok)

definition lone_election :: "(nat, nat) election" where
  "lone_election = opened_election lone_campaign fmempty fmempty"

lemma lone_won:
  fixes p :: "(nat, nat) proposer"
  assumes "pr_election p = Some lone_election" "pr_probe p = None"
  shows "phase1_won p (Ballot 1 0) = Some True"
    and "close_phase1 p (\<lambda>_. False) = Some (closed_outcome lone_election (\<lambda>_. False),
      p\<lparr>pr_election := None, pr_rounds := rounds_clear (pr_rounds p), pr_probe := None\<rparr>)"
proof -
  have ok: "election_ok lone_election"
    unfolding lone_election_def by (rule opened_election_ok) (simp add: campaign_ok_def lone_campaign_def lone_config_ok)
  have cov: "\<forall>c \<in> set (el_prior lone_election). config_phase1 c (pt_answered (el_promises lone_election))"
    by (simp add: lone_election_def opened_election_def lone_campaign_def config_phase1_def lone_config_def)
  then show "phase1_won p (Ballot 1 0) = Some True"
    by (simp add: phase1_won_total[OF ok assms(1)]) (simp add: lone_election_def opened_election_def lone_campaign_def)
  have "\<not> blocked_by lone_election (\<lambda>_. False) s" for s
    by (simp add: blocked_by_def lone_election_def opened_election_def lone_campaign_def add_faulty_entries)
  then show "close_phase1 p (\<lambda>_. False) = Some (closed_outcome lone_election (\<lambda>_. False),
      p\<lparr>pr_election := None, pr_rounds := rounds_clear (pr_rounds p), pr_probe := None\<rparr>)"
    using close_phase1_total[OF ok assms cov, of "\<lambda>_. False"] by auto
qed

lemma lone_addressee: "ac_is_phase2_addressee lone_config 0 None = Some True"
  by code_simp

definition lone_round :: "(nat, nat) round" where
  "lone_round = fresh_round (Ballot 1 0) 7 (custody_colocated (Some 0)) None"

lemma lone_decided:
  fixes p :: "(nat, nat) proposer"
  assumes "pr_election p = None" "rs_by_slot (pr_rounds p) = fmupd 0 lone_round fmempty"
  shows "proposer_decided p 0 lone_config = Some (Some (Ballot 1 0, 7))"
proof -
  have "rounds_ok lone_config of_nat {(0, 0, Ballot 1 0, 7)} (pr_rounds p)"
    using assms(2) lone_addressee
    by (auto simp: rounds_ok_def round_ok_def lone_round_def fresh_round_def rd_accepted_by_def custody_colocated_def
        in_column_def split: if_splits)
  from rounds_decided_total[OF lone_config_ok this, of 0] show ?thesis
    using assms
    by (simp add: proposer_decided_def rounds_is_open_at_def lone_round_def fresh_round_def rd_accepted_by_def custody_colocated_def lone_config_def)
qed

lemma lone_voted:
  fixes a :: "nat acceptor"
  assumes "acceptor_ok a" "acc_promised a = Ballot 1 0" "acc_floor a = 0" "acc_record a 0 = None" "acc_rot a 0 = None"
  shows "node_vote a (Ballot 1 0) 0 7 = Some (True, acceptor_recorded a 0 (Ballot 1 0) 7)"
proof -
  have same: "a\<lparr>acc_promised := Ballot 1 0\<rparr> = a" using assms(2) by (metis acceptor.surjective acceptor.update_convs(1) acceptor.select_convs(1))
  moreover have "acceptor_record_accepted id a 0 (Ballot 1 0) 7 [] =
      Some (acc_rot a 0 \<noteq> None, acceptor_recorded a 0 (Ballot 1 0) 7, [] @ [id (AppendAccepted 0 (Ballot 1 0) 7)])"
    using assms by (intro acceptor_record_accepted_total) simp_all
  ultimately show ?thesis
    by (simp add: node_vote_def acceptor_admit_total[OF assms(1)] assms(2,3) acceptor_set_promise_total same del: One_nat_def)
qed

lemma lone_learned:
  fixes a :: "nat acceptor"
  assumes "acceptor_ok a" "acc_promised a = Ballot 1 0" "acc_floor a = 0" "acc_record a 0 = Some (Ballot 1 0, 7)" "learned 0 = None"
  shows "node_learn a learned (Ballot 1 0) 0 7 = Some (a, learned(0 \<mapsto> 7))"
  using assms by (simp add: node_learn_def acceptor_first_slot_total acceptor_reads_total Let_def)

lemma lone_run:
  "\<exists>c. cluster_reachable lone_plan of_nat (c :: (nat, nat) cluster) \<and> Commit_Msg (Ballot 1 0) 0 7 \<in> cl_net c \<and>
     cl_learned c 0 0 = Some 7 \<and> Accept_Msg (Ballot 1 0) 0 7 \<in> cl_net c \<and> acc_faulty_repaired (cl_acceptors c 0) = 0"
proof -
  let ?b = "Ballot 1 0"
  define c0 where "c0 = (cluster_start :: (nat, nat) cluster)"
  define a1 where "a1 = (cl_acceptors c0 0)\<lparr>acc_promised := ?b\<rparr>"
  have a0: "acceptor_ok (cl_acceptors c0 0)" "acc_promised (cl_acceptors c0 0) = ballot_zero"
    using node_invD(1)[OF cluster_invD(2)[OF cluster_start_inv[of lone_plan of_nat], of 0]]
    by (simp_all add: c0_def cluster_start_def booted_def)
  have le: "ballot_zero \<le> ?b" by (simp add: ballot_zero_def less_eq_ballot_def)
  have a1: "acceptor_ok a1" "acc_promised a1 = ?b" "acc_floor a1 = 0" "rw_map (acc_records a1) = fmempty" "rw_map (acc_faulty a1) = fmempty"
    "acc_faulty_repaired a1 = 0"
    using acceptor_ok_promise[OF a0(1), of ?b] le a0(2)
    by (simp_all add: a1_def c0_def cluster_start_def booted_def)
  define c1 where "c1 = c0\<lparr>cl_acceptors := (cl_acceptors c0)(0 := a1)\<rparr>"
  have s1: "cluster_step lone_plan of_nat c0 c1"
    unfolding c1_def
    by (rule cluster_step.raised[where b = ?b and ws = "if ballot_zero = ?b then [] else [SetPromise ?b]"])
      (use le a0(2) in \<open>simp add: acceptor_set_promise_total a1_def\<close>)
  let ?d = "proposer_default :: (nat, nat) proposer"
  have d: "pr_election ?d = None" "rounds_is_empty (pr_rounds ?d)" "pr_probe ?d = None" "pr_recovery ?d = None"
    "au_fence (pr_authority ?d) = None" "pr_rounds ?d = rounds_default"
    by (simp_all add: proposer_default_def authority_default_def)
  have cm: "campaign_ok lone_campaign" by (simp add: campaign_ok_def lone_campaign_def lone_config_ok)
  define p1 where "p1 = ?d\<lparr>pr_election := Some lone_election\<rparr>"
  obtain targets where op: "open_phase1 ?d lone_campaign fmempty fmempty = Some (targets, p1)"
    by (simp add: open_phase1_total[OF cm d(1-4)] p1_def lone_election_def)
  define c2 where "c2 = c1\<lparr>cl_proposers := (cl_proposers c1)(?b := p1), cl_opened := insert ?b (cl_opened c1)\<rparr>"
  have pl: "lone_plan ?b = Some lone_campaign" by (simp add: lone_plan_def)
  have s2: "cluster_step lone_plan of_nat c1 c2"
    unfolding c2_def
    by (rule cluster_step.campaigned[where plan = lone_plan and cm = lone_campaign and own_records = fmempty and own_faulty = fmempty and targets = targets])
      (use pl a1 op d(5) in \<open>simp_all add: c1_def c0_def cluster_start_def lone_campaign_def acceptor_reads_total acceptor_first_slot_total\<close>)
  define p2 where "p2 = p1\<lparr>pr_election := None, pr_rounds := rounds_clear (pr_rounds p1), pr_probe := None\<rparr>"
  let ?out = "closed_outcome lone_election (\<lambda>_. False)"
  have won: "phase1_won p1 ?b = Some True" "close_phase1 p1 (\<lambda>_. False) = Some (?out, p2)"
    using lone_won[of p1] d(3) by (simp_all add: p1_def p2_def)
  define c3 where "c3 = c2\<lparr>cl_proposers := (cl_proposers c2)(?b := p2),
      cl_licences := (cl_licences c2)(?b := granted (cm_from_slot lone_campaign) (\<lambda>_. False) ?out),
      cl_outcomes := (cl_outcomes c2)(?b := Some ?out)\<rparr>"
  have s3: "cluster_step lone_plan of_nat c2 c3"
    unfolding c3_def by (rule cluster_step.won[where plan = lone_plan]) (use pl won in \<open>simp_all add: c2_def\<close>)
  have free: "cl_licences c3 ?b 0 = Free"
    by (simp add: c3_def granted_def closed_outcome_def lone_election_def opened_election_def lone_campaign_def
        blocked_by_def add_faulty_entries)
  define a2 where "a2 = acceptor_recorded a1 0 ?b 7"
  define p3 where "p3 = p2\<lparr>pr_rounds := (pr_rounds p2)\<lparr>rs_by_slot := fmupd 0 lone_round (rs_by_slot (pr_rounds p2))\<rparr>\<rparr>"
  have vote: "node_vote a1 ?b 0 7 = Some (True, a2)" using lone_voted[of a1] a1 by (simp add: a2_def)
  have opened: "open_round p2 0 ?b 7 (Some 0) None = Some p3"
    by (simp add: open_round_def rounds_open_total p2_def p3_def rounds_clear_def rounds_is_open_at_def lone_round_def fresh_round_def)
  define c4 where "c4 = c3\<lparr>cl_acceptors := (cl_acceptors c3)(0 := a2), cl_proposers := (cl_proposers c3)(?b := p3),
      cl_net := insert (Accept_Msg ?b 0 7) (cl_net c3), cl_votes := insert (0, 0, ?b, 7) (cl_votes c3)\<rparr>"
  have s4: "cluster_step lone_plan of_nat c3 c4"
    unfolding c4_def
    by (rule cluster_step.proposed_own[where plan = lone_plan and cm = lone_campaign and column = None])
      (use pl free vote opened lone_addressee in \<open>simp_all add: c3_def c2_def c1_def c0_def cluster_start_def lone_campaign_def\<close>)
  define c5 where "c5 = c4\<lparr>cl_proposers := (cl_proposers c4)(?b := close_round (cl_proposers c4 ?b) 0),
      cl_net := insert (Commit_Msg ?b 0 7) (cl_net c4)\<rparr>"
  have dec: "proposer_decided p3 0 lone_config = Some (Some (?b, 7))"
    by (rule lone_decided) (simp_all add: p3_def p2_def rounds_clear_def)
  have s5: "cluster_step lone_plan of_nat c4 c5"
    unfolding c5_def by (rule cluster_step.decided[where plan = lone_plan and cm = lone_campaign]) (use pl dec in \<open>simp_all add: c4_def lone_campaign_def\<close>)
  have a2: "acceptor_ok a2" "acc_promised a2 = ?b" "acc_floor a2 = 0" "acc_record a2 0 = Some (?b, 7)" "acc_faulty_repaired a2 = 0"
    using acceptor_ok_recorded[OF a1(1), of 0 ?b 7] a1 by (simp_all add: a2_def acceptor_recorded_def)
  define c6 where "c6 = c5\<lparr>cl_acceptors := (cl_acceptors c5)(0 := a2), cl_learned := (cl_learned c5)(0 := (cl_learned c5 0)(0 \<mapsto> 7))\<rparr>"
  have fields: "cl_acceptors c5 0 = a2" "cl_learned c5 0 0 = None"
    by (simp_all add: c5_def c4_def c3_def c2_def c1_def c0_def cluster_start_def)
  have s6: "cluster_step lone_plan of_nat c5 c6"
    unfolding c6_def
    by (rule cluster_step.learned[of ?b 0 7]) (use lone_learned[OF a2(1-4)] fields in \<open>simp_all add: c5_def\<close>)
  have "cluster_reachable lone_plan of_nat c0" unfolding c0_def by (rule cluster_reachable.start)
  then have "cluster_reachable lone_plan of_nat c1" using s1 by (rule cluster_reachable.step)
  then have "cluster_reachable lone_plan of_nat c2" using s2 by (rule cluster_reachable.step)
  then have "cluster_reachable lone_plan of_nat c3" using s3 by (rule cluster_reachable.step)
  then have "cluster_reachable lone_plan of_nat c4" using s4 by (rule cluster_reachable.step)
  then have "cluster_reachable lone_plan of_nat c5" using s5 by (rule cluster_reachable.step)
  then have "cluster_reachable lone_plan of_nat c6" using s6 by (rule cluster_reachable.step)
  then show ?thesis using a2(5) by (intro exI[of _ c6]) (simp add: c6_def c5_def c4_def)
qed

subsection \<open>The theorems\<close>

text \<open>C1: agreement over time. Whatever a reachable cluster does, through lost, repeated and reordered
  messages, competing leaders, reconfigurations between ballots, proxies, rotten disks, reboots and
  truncation, a value committed or learned at a slot in one state and a value committed or learned at the
  same slot in any later state are the same, and it is a value some leader proposed.\<close>

theorem cluster_agreement:
  assumes "plan_ok plan" "cluster_reachable plan fp c" "(cluster_step plan fp)\<^sup>*\<^sup>* c c'"
    and "settled c s v" "settled c' s w"
  shows "v = w \<and> (\<exists>b. Accept_Msg b s v \<in> cl_net c)"
proof -
  have inv: "cluster_inv plan fp c" using assms(2,1) by (rule cluster_reachable_inv)
  have move: "sound_move plan fp c c'" using assms(3) inv assms(1) by (rule cluster_run_sound)
  have grows: "voting_grows (voting_of c) (voting_of c')"
    using voting_run_ok(2)[OF _ cluster_invD(1)[OF inv]] move by (simp add: sound_move_def)
  obtain b where b: "chosen_at (quorum2 plan) (voting_of c) b s v" using settled_chosen[OF inv assms(4)] by blast
  obtain b' where b': "chosen_at (quorum2 plan) (voting_of c') b' s w"
    using settled_chosen[OF sound_moveD[OF move] assms(5)] by blast
  have "v = w" using cv.agreement[OF cluster_invD(1)[OF sound_moveD[OF move]] chosen_at_grows[OF b grows] b'] .
  moreover have "Accept_Msg b s v \<in> cl_net c" using cv.chosen_proposed[OF cluster_invD(1)[OF inv] b] by simp
  ultimately show ?thesis by blast
qed

theorem cluster_agreement_witness:
  "\<exists>c. cluster_reachable lone_plan of_nat (c :: (nat, nat) cluster) \<and> settled c 0 7 \<and> (\<forall>w. settled c 0 w \<longrightarrow> w = 7)"
proof -
  obtain c :: "(nat, nat) cluster" where c: "cluster_reachable lone_plan of_nat c" "cl_learned c 0 0 = Some 7"
    using lone_run by blast
  then have "settled c 0 7" by (auto simp: settled_def)
  then show ?thesis using c(1) cluster_agreement[OF lone_plan_ok c(1) rtranclp.rtrancl_refl] by blast
qed

text \<open>C2: refinement. Every step of a reachable cluster is a run, possibly empty, of the abstract voting
  machine, which starts with no vote and no proposal: acceptors only raise promises and vote for proposals
  at or above them, and a proposal is made only where no other value can still be chosen below it.\<close>

theorem cluster_refines_voting:
  assumes "plan_ok plan" "cluster_reachable plan fp c" "cluster_step plan fp c c'"
  shows "voting_start (voting_of (cluster_start :: ('id::linorder, 'v) cluster)) \<and>
    (voting_step (quorum2 plan))\<^sup>*\<^sup>* (voting_of c) (voting_of (c' :: ('id, 'v) cluster))"
proof -
  have "sound_move plan fp c c'" using assms(3) cluster_reachable_inv[OF assms(2,1)] assms(1) by (rule cluster_step_sound)
  then show ?thesis by (simp add: sound_move_def voting_start_def voting_of_def cluster_start_def)
qed

theorem cluster_refines_voting_witness:
  "\<exists>c. cluster_step lone_plan of_nat (cluster_start :: (nat, nat) cluster) c \<and> vo_promised (voting_of c) 0 = Ballot 1 0 \<and>
     (voting_step (quorum2 lone_plan))\<^sup>*\<^sup>* (voting_of (cluster_start :: (nat, nat) cluster)) (voting_of c)"
proof -
  let ?a = "(cl_acceptors (cluster_start :: (nat, nat) cluster) 0)\<lparr>acc_promised := Ballot 1 0\<rparr>"
  let ?c = "(cluster_start :: (nat, nat) cluster)\<lparr>cl_acceptors := (cl_acceptors cluster_start)(0 := ?a)\<rparr>"
  have le: "ballot_zero \<le> Ballot 1 0" by (simp add: ballot_zero_def less_eq_ballot_def)
  have "cluster_step lone_plan of_nat (cluster_start :: (nat, nat) cluster) ?c"
    by (rule cluster_step.raised[where b = "Ballot 1 0" and ws = "if ballot_zero = Ballot 1 0 then [] else [SetPromise (Ballot 1 0)]"])
      (use le in \<open>simp add: acceptor_set_promise_total cluster_start_def booted_def\<close>)
  moreover from this have "(voting_step (quorum2 lone_plan))\<^sup>*\<^sup>* (voting_of (cluster_start :: (nat, nat) cluster)) (voting_of ?c)"
    using cluster_refines_voting[OF lone_plan_ok cluster_reachable.start] by blast
  ultimately show ?thesis by (intro exI[of _ ?c]) simp
qed

text \<open>C3: no delivery trips an assertion. In a reachable cluster, delivering any message in flight, any number
  of times, to any node or proposer runs to the end: an acceptor votes or refuses, a node learns, a
  candidate and a repair probe fold a page, a proposer counts a vote and asks whether a slot is decided.
  The assertions behind these operations (one value per ballot and slot, a record never overwritten by a
  conflicting one, a fingerprint that matches the round it answers, a learned value never contradicted)
  hold in every reachable state. The one counter that could overflow, of repaired slots, has room.\<close>

theorem deliveries_never_panic:
  assumes "plan_ok plan" "cluster_reachable plan fp c" "acc_faulty_repaired (cl_acceptors c n) < u64_max"
    and "plan b = Some cm"
  shows "(\<forall>b s v. Accept_Msg b s v \<in> cl_net c \<longrightarrow> node_vote (cl_acceptors c n) b s v \<noteq> None) \<and>
    (\<forall>b s v. Commit_Msg b s v \<in> cl_net c \<longrightarrow> node_learn (cl_acceptors c n) (cl_learned c n) b s v \<noteq> None) \<and>
    (\<forall>m b' from accepted faulty next. Promise_Msg m b' from accepted faulty next \<in> cl_net c \<longrightarrow>
      fold_promise (cl_proposers c b) m b' from accepted faulty next \<noteq> None \<and>
      fold_probe_promise (cl_proposers c b) m b' from accepted faulty next \<noteq> None) \<and>
    (\<forall>m b' s h. Accepted_Msg m b' s h \<in> cl_net c \<longrightarrow>
      fold_accepted_in fp (cl_proposers c b) (cm_config cm) m b' s h \<noteq> None) \<and>
    (\<forall>s. proposer_decided (cl_proposers c b) s (cm_config cm) \<noteq> None)"
proof -
  have inv: "cluster_inv plan fp c" using assms(2,1) by (rule cluster_reachable_inv)
  show ?thesis
    using node_vote_total[OF inv _ assms(3)] node_learn_total[OF inv _ assms(3)] promise_delivery_total[OF inv assms(4)]
      accepted_delivery_total[OF inv assms(1,4)] decision_total[OF inv assms(1,4)] by blast
qed

theorem deliveries_never_panic_witness:
  "\<exists>c. cluster_reachable lone_plan of_nat (c :: (nat, nat) cluster) \<and> Commit_Msg (Ballot 1 0) 0 7 \<in> cl_net c \<and>
     node_learn (cl_acceptors c 0) (cl_learned c 0) (Ballot 1 0) 0 7 \<noteq> None"
proof -
  obtain c :: "(nat, nat) cluster" where c: "cluster_reachable lone_plan of_nat c" "Commit_Msg (Ballot 1 0) 0 7 \<in> cl_net c"
    "acc_faulty_repaired (cl_acceptors c 0) = 0" using lone_run by blast
  have pl: "lone_plan (Ballot 1 0) = Some lone_campaign" by (simp add: lone_plan_def)
  have "acc_faulty_repaired (cl_acceptors c 0) < u64_max" using c(3) by (simp add: u64_max_def)
  from deliveries_never_panic[OF lone_plan_ok c(1) this pl] c(1,2) show ?thesis by blast
qed

end
