(* ===== verification/Decree.thy ===== *)
theory Decree
  imports Proposer
begin

section \<open>The single decree\<close>

text \<open>
  \<^verbatim>\<open>Decree\<close> of \<^verbatim>\<open>paros-core/src/decree.rs\<close>: one value chosen once, at slot zero, by a proposer that runs
  the shared \<open>Proposer\<close> over one configuration. The matchmaker-set handover decides its successor with it.

  The record is the code's, a whole proposer inside. The refinement theorem says what it amounts to: the
  proposer inside a decree is always one of two things, a campaign that has heard from a set of acceptors
  and remembers the best vote they reported, or one Phase-2 round with a value and the acceptors that
  accepted it, and every handler is a step of that small machine.
\<close>

subsection \<open>Model\<close>

definition DECREE_SLOT :: slot where
  "DECREE_SLOT = 0"

datatype 'v decree_promise = DecreeIgnored | DecreeCounted nat | DecreeQuorum 'v

datatype 'v accept_fold = AcceptIgnored | AcceptCounted nat | AcceptChosen 'v

record ('id, 'v) decree =
  dc_ballot :: ballot
  dc_acceptors :: "'id acceptor_config"
  dc_proposal :: 'v
  dc_proposer :: "('id, 'v) proposer"
  dc_preempted :: "ballot option"

definition decree_new ::
  "ballot \<Rightarrow> 'id::linorder acceptor_config \<Rightarrow> 'v \<Rightarrow> ('id, 'v) decree option" where
  "decree_new ballot acceptors proposal = do {
     members \<leftarrow> ac_members' acceptors;
     check (members \<noteq> []);
     (_, proposer) \<leftarrow> open_phase1 proposer_default
        \<lparr>cm_me = None, cm_ballot = ballot, cm_config = acceptors, cm_prior = [acceptors], cm_from_slot = DECREE_SLOT\<rparr>
        fmempty fmempty;
     election \<leftarrow> proposer_election proposer;
     (case election of
        None \<Rightarrow> check False
      | Some e \<Rightarrow> do { b \<leftarrow> el_ballot e; check (b = ballot) });
     Some \<lparr>dc_ballot = ballot, dc_acceptors = acceptors, dc_proposal = proposal, dc_proposer = proposer,
           dc_preempted = None\<rparr>
   }"

definition decree_round :: "('id, 'v) decree \<Rightarrow> ('id, 'v) round option" where
  "decree_round d = fmlookup (rs_by_slot (pr_rounds (dc_proposer d))) DECREE_SLOT"

definition decree_value :: "('id, 'v) decree \<Rightarrow> 'v option" where
  "decree_value d = map_option rd_command (decree_round d)"

definition adopted_prior_vote :: "('id, 'v) decree \<Rightarrow> bool" where
  "adopted_prior_vote d \<longleftrightarrow> (case decree_value d of None \<Rightarrow> False | Some v \<Rightarrow> v \<noteq> dc_proposal d)"

definition decree_preempted :: "('id, 'v) decree \<Rightarrow> ballot option option" where
  "decree_preempted d = do {
     (case dc_preempted d of None \<Rightarrow> Some () | Some promised \<Rightarrow> check (promised > dc_ballot d));
     Some (dc_preempted d)
   }"

definition decree_unanswered_live :: "('id::linorder, 'v) decree \<Rightarrow> 'id list option" where
  "decree_unanswered_live d =
     (case decree_round d of
        None \<Rightarrow> do {
          election \<leftarrow> proposer_election (dc_proposer d);
          (case election of None \<Rightarrow> Some [] | Some e \<Rightarrow> el_unpromised e None)
        }
      | Some rd \<Rightarrow> (case rd_accepted_by rd of
          None \<Rightarrow> None
        | Some accepted_by \<Rightarrow> do {
            members \<leftarrow> ac_members' (dc_acceptors d);
            Some (filter (\<lambda>m. m \<notin> accepted_by) members)
          }))"

definition decree_unanswered :: "('id::linorder, 'v) decree \<Rightarrow> 'id list option" where
  "decree_unanswered d =
     (if dc_preempted d \<noteq> None then Some []
      else do {
        unanswered \<leftarrow> decree_unanswered_live d;
        inside \<leftarrow> try_all (\<lambda>m. ac_contains (dc_acceptors d) m) unanswered;
        check inside;
        Some unanswered
      })"

definition decree_promised :: "('id::linorder, 'v) decree \<Rightarrow> nat option" where
  "decree_promised d = do {
     election \<leftarrow> proposer_election (dc_proposer d);
     (case election of None \<Rightarrow> Some 0 | Some e \<Rightarrow> do { promised \<leftarrow> el_promised e; Some (card promised) })
   }"

definition decree_on_promise ::
  "('id::linorder, 'v) decree \<Rightarrow> 'id \<Rightarrow> (ballot \<times> 'v) option \<Rightarrow> ('v decree_promise \<times> ('id, 'v) decree) option" where
  "decree_on_promise d from vote = do {
     member \<leftarrow> ac_contains (dc_acceptors d) from;
     if \<not> member \<or> dc_preempted d \<noteq> None then Some (DecreeIgnored, d)
     else do {
       let accepted = (case vote of None \<Rightarrow> fmempty | Some v \<Rightarrow> fmupd DECREE_SLOT v fmempty);
       (fold, proposer) \<leftarrow> fold_promise (dc_proposer d) from (dc_ballot d) DECREE_SLOT accepted fmempty None;
       let d = d\<lparr>dc_proposer := proposer\<rparr>;
       if fold \<noteq> Answered then Some (DecreeIgnored, d)
       else do {
         won \<leftarrow> phase1_won (dc_proposer d) (dc_ballot d);
         if \<not> won then do {
           qs \<leftarrow> ac_quorum_system' (dc_acceptors d);
           members \<leftarrow> ac_members' (dc_acceptors d);
           size \<leftarrow> phase1_quorum_size qs (length members);
           promised \<leftarrow> decree_promised d;
           Some (DecreeCounted (size - promised), d)
         } else do {
           (outcome, proposer) \<leftarrow> close_phase1 (dc_proposer d) (\<lambda>_. False);
           let value = (case fmlookup (po_recovered outcome) DECREE_SLOT of None \<Rightarrow> dc_proposal d | Some (_, v) \<Rightarrow> v);
           proposer \<leftarrow> open_round proposer DECREE_SLOT (dc_ballot d) value None None;
           let d = d\<lparr>dc_proposer := proposer\<rparr>;
           check (decree_value d = Some value);
           election \<leftarrow> proposer_election (dc_proposer d);
           check (election = None);
           Some (DecreeQuorum value, d)
         }
       }
     }
   }"

definition decree_on_accepted ::
  "('v \<Rightarrow> fingerprint) \<Rightarrow> ('id::linorder, 'v) decree \<Rightarrow> 'id \<Rightarrow> ('v accept_fold \<times> ('id, 'v) decree) option" where
  "decree_on_accepted fp d from = do {
     member \<leftarrow> ac_contains (dc_acceptors d) from;
     if \<not> member \<or> dc_preempted d \<noteq> None then Some (AcceptIgnored, d)
     else (case decree_round d of
       None \<Rightarrow> Some (AcceptIgnored, d)
     | Some rd \<Rightarrow> (case rd_accepted_by rd of
         None \<Rightarrow> None
       | Some accepted_by \<Rightarrow>
           if from \<in> accepted_by then Some (AcceptIgnored, d)
           else do {
             let vhash = fp (rd_command rd);
             (cnt, proposer) \<leftarrow> fold_accepted fp (dc_proposer d) from (dc_ballot d) DECREE_SLOT vhash;
             let d = d\<lparr>dc_proposer := proposer\<rparr>;
             if \<not> cnt then Some (AcceptIgnored, d)
             else do {
               decided \<leftarrow> proposer_decided (dc_proposer d) DECREE_SLOT (dc_acceptors d);
               (case decided of
                  Some (ballot, value) \<Rightarrow> do {
                    check (ballot = dc_ballot d);
                    check (decree_value d = Some value);
                    Some (AcceptChosen value, d)
                  }
                | None \<Rightarrow> do {
                    let accepted = (case decree_round d of None \<Rightarrow> 0
                        | Some rd \<Rightarrow> (case rd_accepted_by rd of None \<Rightarrow> 0 | Some A \<Rightarrow> card A));
                    qs \<leftarrow> ac_quorum_system' (dc_acceptors d);
                    members \<leftarrow> ac_members' (dc_acceptors d);
                    size \<leftarrow> phase2_quorum_size qs (length members);
                    Some (AcceptCounted (size - accepted), d)
                  })
             }
           }))
   }"

definition decree_on_nack :: "('id, 'v) decree \<Rightarrow> ballot \<Rightarrow> ('id, 'v) decree option" where
  "decree_on_nack d promised =
     (if promised \<le> dc_ballot d then Some d
      else do {
        let held = dc_preempted d;
        let d = d\<lparr>dc_preempted := Some (case dc_preempted d of None \<Rightarrow> promised | Some h \<Rightarrow> max h promised)\<rparr>;
        check (dc_preempted d \<ge> held);
        check (dc_preempted d \<ge> Some promised);
        Some d
      })"

subsection \<open>The machine behind a decree\<close>

text \<open>A decree collects promises, with the best vote reported so far, or proposes a value and collects
  accepts.\<close>

datatype ('id, 'v) decree_phase = Collecting "'id set" "(ballot \<times> 'v) option" | Proposing 'v "'id set"

fun phase_proposer ::
  "ballot \<Rightarrow> 'id acceptor_config \<Rightarrow> ('id, 'v) decree_phase \<Rightarrow> ('id, 'v) proposer" where
  "phase_proposer b c (Collecting A best) = proposer_default\<lparr>pr_election := Some
     \<lparr>el_promises = \<lparr>pt_ballot = b, pt_from_slot = 0, pt_answered = A, pt_promise_next = fmempty\<rparr>,
      el_config = c, el_prior = [c],
      el_recovered = (case best of None \<Rightarrow> fmempty | Some r \<Rightarrow> fmupd 0 r fmempty),
      el_faulty_reports = fmempty\<rparr>\<rparr>"
| "phase_proposer b c (Proposing v A) = proposer_default\<lparr>pr_rounds :=
     \<lparr>rs_by_slot = fmupd 0 (fresh_round b v (Colocated A) None) fmempty, rs_resend_cursor = None\<rparr>\<rparr>"

record ('id, 'v) decree_abs =
  da_ballot :: ballot
  da_config :: "'id acceptor_config"
  da_proposal :: 'v
  da_phase :: "('id, 'v) decree_phase"
  da_preempted :: "ballot option"

definition concrete :: "('id, 'v) decree_abs \<Rightarrow> ('id, 'v) decree" where
  "concrete a = \<lparr>dc_ballot = da_ballot a, dc_acceptors = da_config a, dc_proposal = da_proposal a,
     dc_proposer = phase_proposer (da_ballot a) (da_config a) (da_phase a), dc_preempted = da_preempted a\<rparr>"

fun phase_members :: "('id, 'v) decree_phase \<Rightarrow> 'id set" where
  "phase_members (Collecting A best) = A"
| "phase_members (Proposing v A) = A"

definition abs_ok :: "('id::linorder, 'v) decree_abs \<Rightarrow> bool" where
  "abs_ok a \<longleftrightarrow> config_ok (da_config a) \<and> phase_members (da_phase a) \<subseteq> set (ac_members (da_config a))"

definition live :: "('id, 'v) decree_abs \<Rightarrow> 'id \<Rightarrow> bool" where
  "live a from \<longleftrightarrow> from \<in> set (ac_members (da_config a)) \<and> da_preempted a = None"

definition spec_value :: "'v \<Rightarrow> (ballot \<times> 'v) option \<Rightarrow> 'v" where
  "spec_value proposal best = (case best of None \<Rightarrow> proposal | Some (_, v) \<Rightarrow> v)"

text \<open>The two handlers of the machine; \<open>None\<close> is the panic on two reports of one ballot that disagree.\<close>

definition spec_promise ::
  "('id::linorder, 'v) decree_abs \<Rightarrow> 'id \<Rightarrow> (ballot \<times> 'v) option \<Rightarrow>
   ('v decree_promise \<times> ('id, 'v) decree_abs) option" where
  "spec_promise a from vote = (case da_phase a of
     Proposing v A \<Rightarrow> Some (DecreeIgnored, a)
   | Collecting A best \<Rightarrow>
       if \<not> live a from \<or> from \<in> A then Some (DecreeIgnored, a)
       else if \<not> votes_agree best vote then None
       else if config_phase1 (da_config a) (insert from A)
       then (let v = spec_value (da_proposal a) (best_vote best vote) in
             Some (DecreeQuorum v, a\<lparr>da_phase := Proposing v {}\<rparr>))
       else Some (DecreeCounted (the (phase1_quorum_size (ac_quorum_system (da_config a))
                (length (ac_members (da_config a)))) - card (insert from A)),
              a\<lparr>da_phase := Collecting (insert from A) (best_vote best vote)\<rparr>))"

definition spec_accepted ::
  "('id::linorder, 'v) decree_abs \<Rightarrow> 'id \<Rightarrow> 'v accept_fold \<times> ('id, 'v) decree_abs" where
  "spec_accepted a from = (case da_phase a of
     Collecting A best \<Rightarrow> (AcceptIgnored, a)
   | Proposing v A \<Rightarrow>
       if \<not> live a from \<or> from \<in> A then (AcceptIgnored, a)
       else if config_phase2 (da_config a) (insert from A)
       then (AcceptChosen v, a\<lparr>da_phase := Proposing v (insert from A)\<rparr>)
       else (AcceptCounted (the (phase2_quorum_size (ac_quorum_system (da_config a))
               (length (ac_members (da_config a)))) - card (insert from A)),
             a\<lparr>da_phase := Proposing v (insert from A)\<rparr>))"

definition spec_nack :: "('id, 'v) decree_abs \<Rightarrow> ballot \<Rightarrow> ('id, 'v) decree_abs" where
  "spec_nack a promised = (if promised \<le> da_ballot a then a
     else a\<lparr>da_preempted := Some (case da_preempted a of None \<Rightarrow> promised | Some h \<Rightarrow> max h promised)\<rparr>)"

definition spec_new :: "ballot \<Rightarrow> 'id acceptor_config \<Rightarrow> 'v \<Rightarrow> ('id, 'v) decree_abs" where
  "spec_new b c v = \<lparr>da_ballot = b, da_config = c, da_proposal = v, da_phase = Collecting {} None, da_preempted = None\<rparr>"

subsection \<open>The handlers on a concrete decree\<close>

definition collected :: "ballot \<Rightarrow> 'id acceptor_config \<Rightarrow> 'id set \<Rightarrow> (ballot \<times> 'v) option \<Rightarrow> ('id, 'v) election" where
  "collected b c A best =
     \<lparr>el_promises = \<lparr>pt_ballot = b, pt_from_slot = 0, pt_answered = A, pt_promise_next = fmempty\<rparr>,
      el_config = c, el_prior = [c],
      el_recovered = (case best of None \<Rightarrow> fmempty | Some r \<Rightarrow> fmupd 0 r fmempty),
      el_faulty_reports = fmempty\<rparr>"

lemma collected_simps [simp]:
  "el_promises (collected b c A best) = \<lparr>pt_ballot = b, pt_from_slot = 0, pt_answered = A, pt_promise_next = fmempty\<rparr>"
  "el_config (collected b c A best) = c" "el_prior (collected b c A best) = [c]"
  "el_faulty_reports (collected b c A best) = fmempty"
  "fmlookup (el_recovered (collected b c A best)) s = (if s = 0 then best else None)"
  by (auto simp: collected_def split: option.split)

lemma phase_proposer_fields [simp]:
  "pr_election (phase_proposer b c (Collecting A best)) = Some (collected b c A best)"
  "pr_probe (phase_proposer b c ph) = None"
  "pr_recovery (phase_proposer b c ph) = None"
  "pr_rounds (phase_proposer b c (Collecting A best)) = rounds_default"
  "pr_election (phase_proposer b c (Proposing v A)) = None"
  "pr_rounds (phase_proposer b c (Proposing v A)) =
     \<lparr>rs_by_slot = fmupd 0 (fresh_round b v (Colocated A) None) fmempty, rs_resend_cursor = None\<rparr>"
  by (cases ph; simp add: collected_def proposer_default_def)+

lemmas phase_proposer_def = phase_proposer.simps

declare phase_proposer.simps [simp del]

lemma fresh_round_fields [simp]:
  "rd_ballot (fresh_round b v custody column) = b" "rd_command (fresh_round b v custody column) = v"
  "rd_column (fresh_round b v custody column) = column"
  "rd_accepted_by (fresh_round b v (Colocated A) column) = Some A"
  "(fresh_round b v custody column)\<lparr>rd_custody := custody'\<rparr> = fresh_round b v custody' column"
  by (simp_all add: fresh_round_def rd_accepted_by_def)

lemma collected_ok:
  assumes "config_ok c" "A \<subseteq> set (ac_members c)"
  shows "election_ok (collected b c A best)"
  using assms finite_subset[OF assms(2)] by (simp add: election_ok_def tally_ok_def)

lemma proposer_election_phase [simp]:
  "proposer_election (phase_proposer b c ph) = Some (case ph of Collecting A best \<Rightarrow> Some (collected b c A best)
     | Proposing v A \<Rightarrow> None)"
  by (cases ph) (simp_all add: proposer_election_def)

lemma decree_round_concrete [simp]:
  "decree_round (concrete a) = (case da_phase a of Collecting A best \<Rightarrow> None
     | Proposing v A \<Rightarrow> Some (fresh_round (da_ballot a) v (Colocated A) None))"
  by (cases "da_phase a") (simp_all add: decree_round_def concrete_def DECREE_SLOT_def rounds_default_def)

lemma concrete_fields [simp]:
  "dc_ballot (concrete a) = da_ballot a" "dc_acceptors (concrete a) = da_config a"
  "dc_proposal (concrete a) = da_proposal a" "dc_preempted (concrete a) = da_preempted a"
  "dc_proposer (concrete a) = phase_proposer (da_ballot a) (da_config a) (da_phase a)"
  by (simp_all add: concrete_def)

lemma concrete_phase:
  "da_ballot a = b \<Longrightarrow> da_config a = c \<Longrightarrow> (concrete a)\<lparr>dc_proposer := phase_proposer b c ph\<rparr> = concrete (a\<lparr>da_phase := ph\<rparr>)"
  by (simp add: concrete_def)

lemma decree_new_total:
  fixes v :: 'v and c :: "'id::linorder acceptor_config"
  assumes "config_ok c"
  shows "decree_new b c v = Some (concrete (spec_new b c v))"
proof -
  let ?cm = "\<lparr>cm_me = None, cm_ballot = b, cm_config = c, cm_prior = [c], cm_from_slot = 0\<rparr>"
  have e: "opened_election ?cm fmempty fmempty = collected b c {} None"
    by (simp add: opened_election_def collected_def fm_from_def)
  let ?p = "proposer_default :: ('id, 'v) proposer"
  have p: "?p\<lparr>pr_election := Some (collected b c {} None)\<rparr> = phase_proposer b c (Collecting {} None)"
    by (simp add: collected_def phase_proposer_def)
  have "\<exists>t. open_phase1 ?p ?cm fmempty fmempty = Some (t, phase_proposer b c (Collecting {} None))"
    using open_phase1_total[of ?cm ?p fmempty fmempty] assms
    by (simp add: e campaign_ok_def flip: p) (simp add: proposer_default_def)
  moreover have "ac_members c \<noteq> []" using config_okD(3)[OF assms] .
  ultimately show ?thesis
    using assms
    by (auto simp: decree_new_def DECREE_SLOT_def el_reads_total[OF collected_ok[OF assms]] spec_new_def concrete_def ac_members'_def)
qed

text \<open>One terminal page from an acceptor that has not answered is admitted and folded into the best vote.\<close>

definition one_page :: "(ballot \<times> 'v) option \<Rightarrow> (slot, ballot \<times> 'v) fmap" where
  "one_page vote = (case vote of None \<Rightarrow> fmempty | Some r \<Rightarrow> fmupd 0 r fmempty)"

lemma one_page_lookup [simp]: "fmlookup (one_page vote) s = (if s = 0 then vote else None)"
  by (auto simp: one_page_def split: option.split)

lemma one_page_len: "fm_len (one_page vote) \<le> 1"
  by (auto simp: one_page_def fm_len_fmupd split: option.split)

lemma collected_admits:
  "page_admitted \<lparr>pt_ballot = b, pt_from_slot = 0, pt_answered = A, pt_promise_next = fmempty\<rparr> from b 0
     (one_page vote) fmempty None \<longleftrightarrow> from \<notin> A"
  using one_page_len[of vote]
  by (auto simp: page_admitted_def promise_page_shape_valid_def pt_expected_def PROMISE_BATCH_def list_all_iff fm_keys_def)

lemma collected_fold:
  assumes "votes_agree best vote"
  shows "folded_election (collected b c A best) from (one_page vote) fmempty None =
    collected b c (insert from A) (best_vote best vote)"
proof -
  have "\<And>s. votes_agree (fmlookup (el_recovered (collected b c A best)) s) (fmlookup (one_page vote) s)"
    using assms by (simp add: votes_agree_def)
  from merge_page[OF this] obtain rec where rec:
    "merge_reports (el_recovered (collected b c A best)) (fm_entries (one_page vote)) = Some rec"
    "\<And>s. fmlookup rec s = (if s = 0 then best_vote best vote else None)"
    by (metis (mono_tags, lifting) best_vote_None collected_simps(5) one_page_lookup)
  have "rec = el_recovered (collected b c (insert from A) (best_vote best vote))"
    by (rule fmap_ext) (simp add: rec(2))
  moreover have "add_faulty from fmempty (fm_entries fmempty) = fmempty"
    by (rule fmap_ext) (simp add: add_faulty_entries)
  ultimately show ?thesis
    using rec(1) by (simp add: folded_election_def page_closed_def collected_def)
qed

lemma fold_promise_collecting:
  assumes "config_ok c" "A \<subseteq> set (ac_members c)" "from \<in> set (ac_members c)"
  shows "fold_promise (phase_proposer b c (Collecting A best)) from b 0 (one_page vote) fmempty None =
    (if from \<in> A then Some (Ignored, phase_proposer b c (Collecting A best))
     else if votes_agree best vote
     then Some (Answered, phase_proposer b c (Collecting (insert from A) (best_vote best vote)))
     else None)"
proof -
  have "(phase_proposer b c (Collecting A best))\<lparr>pr_election := Some (collected b c B r)\<rparr> =
      phase_proposer b c (Collecting B r)" for B r
    by (simp add: phase_proposer_def collected_def)
  moreover have "(\<forall>s. votes_agree (fmlookup (el_recovered (collected b c A best)) s) (fmlookup (one_page vote) s))
      \<longleftrightarrow> votes_agree best vote" by (auto simp: votes_agree_def)
  ultimately show ?thesis
    using assms(3)
    by (simp add: fold_promise_total[OF collected_ok[OF assms(1,2)]] collected_admits collected_fold heard_in_def
        del: collected_simps(5))
qed

lemma close_phase1_collecting:
  assumes "config_ok c" "A \<subseteq> set (ac_members c)" "config_phase1 c A"
  shows "\<exists>outcome. close_phase1 (phase_proposer b c (Collecting A best)) (\<lambda>_. False) =
      Some (outcome, proposer_default) \<and> fmlookup (po_recovered outcome) 0 = best"
proof -
  let ?p = "phase_proposer b c (Collecting A best)"
  have "\<not> blocked_by (collected b c A best) (\<lambda>_. False) s" for s by (simp add: blocked_by_def)
  moreover have "?p\<lparr>pr_election := None, pr_rounds := rounds_clear (pr_rounds ?p), pr_probe := None\<rparr> = proposer_default"
    by (simp add: phase_proposer_def proposer_default_def rounds_clear_def rounds_default_def)
  ultimately show ?thesis
    using close_phase1_total[OF collected_ok[OF assms(1,2)], of ?p b best "\<lambda>_. False"] assms(3)
    by (auto simp: closed_outcome_def)
qed

lemma open_round_proposing:
  "open_round proposer_default 0 b v None None = Some (phase_proposer b c (Proposing v {}))"
  by (simp add: open_round_def rounds_open_total proposer_default_def phase_proposer_def custody_colocated_def
      rounds_default_def rounds_is_open_at_def )

lemma ac_sizes_total:
  assumes "config_ok c"
  shows "ac_members' c = Some (ac_members c)" "ac_quorum_system' c = Some (ac_quorum_system c)"
  using config_okD[OF assms] by (simp_all add: ac_members'_def ac_quorum_system'_def admits_total)

lemma decree_on_promise_refines:
  assumes "abs_ok a"
  shows "decree_on_promise (concrete a) from vote = map_option (map_prod id concrete) (spec_promise a from vote)"
proof (cases "live a from")
  case False
  then show ?thesis
    using assms by (auto simp: decree_on_promise_def spec_promise_def live_def abs_ok_def ac_contains_total
        split: decree_phase.split)
next
  case True
  have ok: "config_ok (da_config a)" and mem: "from \<in> set (ac_members (da_config a))" "da_preempted a = None"
    using assms True by (simp_all add: abs_ok_def live_def)
  have page: "(case vote of None \<Rightarrow> fmempty | Some v \<Rightarrow> fmupd DECREE_SLOT v fmempty) = one_page vote"
    by (cases vote) (simp_all add: one_page_def DECREE_SLOT_def)
  show ?thesis
  proof (cases "da_phase a")
    case (Proposing v A)
    then show ?thesis
      using ok mem by (simp add: decree_on_promise_def spec_promise_def ac_contains_total fold_promise_def concrete_phase
          split: option.split)
  next
    case (Collecting A best)
    let ?A = "insert from A" and ?best = "best_vote best vote"
    have A: "A \<subseteq> set (ac_members (da_config a))" "?A \<subseteq> set (ac_members (da_config a))"
      using assms Collecting mem by (simp_all add: abs_ok_def)
    have won: "phase1_won (phase_proposer (da_ballot a) (da_config a) (Collecting ?A ?best)) (da_ballot a) =
        Some (config_phase1 (da_config a) ?A)"
      by (simp add: phase1_won_total[OF collected_ok[OF ok A(2)]])
    show ?thesis
    proof (cases "from \<in> A \<or> \<not> votes_agree best vote")
      case True
      then show ?thesis
        using Collecting mem \<open>live a from\<close>
        by (auto simp: decree_on_promise_def spec_promise_def ac_contains_total[OF ok] page DECREE_SLOT_def
            fold_promise_collecting[OF ok A(1) mem(1)] concrete_phase)
    next
      case False
      note start = Collecting mem \<open>live a from\<close> False
      show ?thesis
      proof (cases "config_phase1 (da_config a) ?A")
        case True
        from close_phase1_collecting[OF ok A(2) True, of "da_ballot a" ?best] obtain outcome where out:
          "close_phase1 (phase_proposer (da_ballot a) (da_config a) (Collecting ?A ?best)) (\<lambda>_. False) =
             Some (outcome, proposer_default)" "fmlookup (po_recovered outcome) 0 = ?best" by blast
        show ?thesis
          using start True
          by (simp add: decree_on_promise_def spec_promise_def ac_contains_total[OF ok] page DECREE_SLOT_def
            fold_promise_collecting[OF ok A(1) mem(1)] concrete_phase won out
              open_round_proposing[where c = "da_config a"] decree_value_def Let_def
              flip: spec_value_def)
      next
        case no: False
        show ?thesis
          using start no
          by (simp add: decree_on_promise_def spec_promise_def ac_contains_total[OF ok] page DECREE_SLOT_def
            fold_promise_collecting[OF ok A(1) mem(1)] concrete_phase won
              decree_promised_def el_reads_total[OF collected_ok[OF ok A(2)]] Let_def
              ac_sizes_total[OF ok]
              phase1_quorum_size_total[OF config_okD(4,2)[OF ok]])
      qed
    qed
  qed
qed

lemma in_no_column:
  assumes "config_ok c"
  shows "in_column c None = set (ac_members c)"
proof -
  have "phase2_addressees (ac_quorum_system c) (ac_members c) None = Some (ac_members c)"
    by (cases "ac_quorum_system c") (simp_all add: phase2_addressees_def)
  then show ?thesis
    using ac_phase2_addressees_total[of c None] assms column_ok_None[of c] by (auto simp: column_ok_def in_column_def)
qed

lemma proposing_rounds_ok:
  assumes "config_ok c" "A \<subseteq> set (ac_members c)"
  shows "rounds_ok c fp UNIV (pr_rounds (phase_proposer b c (Proposing v A)))"
  using assms finite_subset[OF assms(2)]
  by (auto simp: rounds_ok_def round_ok_def in_no_column)

lemma fold_accepted_proposing:
  "fold_accepted fp (phase_proposer b c (Proposing v A)) from b 0 (fp v) =
     Some (True, phase_proposer b c (Proposing v (insert from A)))"
  by (simp add: fold_accepted_def rounds_fold_accepted_total  rounds_is_open_at_def phase_proposer_def proposer_default_def)

lemma proposer_decided_proposing:
  assumes "config_ok c" "A \<subseteq> set (ac_members c)"
  shows "proposer_decided (phase_proposer b c (Proposing v A)) 0 c =
    Some (if config_phase2 c A then Some (b, v) else None)"
  by (simp add: rounds_decided_total[OF assms(1) proposing_rounds_ok[OF assms], simplified] proposer_decided_def rounds_is_open_at_def config_phase2_def)

lemma decree_on_accepted_refines:
  assumes "abs_ok a"
  shows "decree_on_accepted fp (concrete a) from = Some (map_prod id concrete (spec_accepted a from))"
proof (cases "live a from \<and> (\<exists>v A. da_phase a = Proposing v A \<and> from \<notin> A)")
  case False
  then show ?thesis
    using assms by (auto simp: decree_on_accepted_def spec_accepted_def live_def abs_ok_def ac_contains_total
         split: decree_phase.split)
next
  case True
  then obtain v A where ph: "da_phase a = Proposing v A" "from \<notin> A" "live a from" by blast
  have ok: "config_ok (da_config a)" and mem: "from \<in> set (ac_members (da_config a))" "da_preempted a = None"
    using assms True by (simp_all add: abs_ok_def live_def)
  have A: "insert from A \<subseteq> set (ac_members (da_config a))" using assms ph mem by (simp add: abs_ok_def)
  show ?thesis
    using ph mem
    by (simp add: decree_on_accepted_def spec_accepted_def ac_contains_total[OF ok] DECREE_SLOT_def
         fold_accepted_proposing concrete_phase proposer_decided_proposing[OF ok A] decree_value_def
        ac_sizes_total[OF ok] phase2_quorum_size_total[OF config_okD(4,2)[OF ok]] Let_def)
qed

lemma decree_on_nack_refines: "decree_on_nack (concrete a) promised = Some (concrete (spec_nack a promised))"
  by (auto simp: decree_on_nack_def spec_nack_def concrete_def Let_def split: option.split)

lemma spec_ok [inv_intros]:
  "config_ok c \<Longrightarrow> abs_ok (spec_new b c v)"
  "abs_ok a \<Longrightarrow> spec_promise a from vote = Some (r, a') \<Longrightarrow> abs_ok a'"
  "abs_ok a \<Longrightarrow> abs_ok (snd (spec_accepted a from))"
  "abs_ok a \<Longrightarrow> abs_ok (spec_nack a promised)"
  by (auto simp: abs_ok_def spec_new_def spec_promise_def spec_accepted_def spec_nack_def live_def Let_def
      split: decree_phase.splits if_splits)

text \<open>What a re-send addresses.\<close>

definition spec_unanswered :: "('id, 'v) decree_abs \<Rightarrow> 'id list" where
  "spec_unanswered a = (if da_preempted a = None
     then filter (\<lambda>m. m \<notin> phase_members (da_phase a)) (ac_members (da_config a)) else [])"

lemma decree_unanswered_refines:
  assumes "abs_ok a"
  shows "decree_unanswered (concrete a) = Some (spec_unanswered a)"
proof -
  have ok: "config_ok (da_config a)" using assms by (simp add: abs_ok_def)
  have "sorted_list_of_set (set (ac_members (da_config a))) = ac_members (da_config a)"
    using config_okD(5,6)[OF ok] by (intro sorted_list_of_set_unique[THEN iffD1]) (simp_all add: distinct_card)
  then have "decree_unanswered_live (concrete a) =
      Some (filter (\<lambda>m. m \<notin> phase_members (da_phase a)) (ac_members (da_config a)))"
    using assms
    by (cases "da_phase a") (simp_all add: decree_unanswered_live_def abs_ok_def 
        el_unpromised_total collected_ok ac_sizes_total)
  moreover have "try_all (\<lambda>m. ac_contains (da_config a) m) xs = Some (\<forall>x \<in> set xs. x \<in> set (ac_members (da_config a)))" for xs
    by (rule try_all_total) (simp add: ac_contains_total[OF ok])
  ultimately show ?thesis by (simp add: decree_unanswered_def spec_unanswered_def)
qed

subsection \<open>Refinement\<close>

datatype ('id, 'v) decree_event = Promise_Event 'id "(ballot \<times> 'v) option" | Accepted_Event 'id | Nack_Event ballot

datatype 'v decree_reply = Promise_Reply "'v decree_promise" | Accepted_Reply "'v accept_fold" | Nack_Reply

fun decree_step ::
  "('v \<Rightarrow> fingerprint) \<Rightarrow> ('id::linorder, 'v) decree \<Rightarrow> ('id, 'v) decree_event \<Rightarrow> ('v decree_reply \<times> ('id, 'v) decree) option" where
  "decree_step fp d (Promise_Event from vote) = map_option (map_prod Promise_Reply id) (decree_on_promise d from vote)"
| "decree_step fp d (Accepted_Event from) = map_option (map_prod Accepted_Reply id) (decree_on_accepted fp d from)"
| "decree_step fp d (Nack_Event promised) = map_option (Pair Nack_Reply) (decree_on_nack d promised)"

fun spec_step ::
  "('id::linorder, 'v) decree_abs \<Rightarrow> ('id, 'v) decree_event \<Rightarrow> ('v decree_reply \<times> ('id, 'v) decree_abs) option" where
  "spec_step a (Promise_Event from vote) = map_option (map_prod Promise_Reply id) (spec_promise a from vote)"
| "spec_step a (Accepted_Event from) = Some (map_prod Accepted_Reply id (spec_accepted a from))"
| "spec_step a (Nack_Event promised) = Some (Nack_Reply, spec_nack a promised)"

fun run_events :: "('s \<Rightarrow> 'e \<Rightarrow> ('r \<times> 's) option) \<Rightarrow> 's \<Rightarrow> 'e list \<Rightarrow> ('r list \<times> 's) option" where
  "run_events step s [] = Some ([], s)"
| "run_events step s (e # es) = do { (r, s) \<leftarrow> step s e; (rs, s) \<leftarrow> run_events step s es; Some (r # rs, s) }"

lemma decree_step_refines:
  "abs_ok a \<Longrightarrow> decree_step fp (concrete a) e = map_option (map_prod id concrete) (spec_step a e)"
  by (cases e) (simp_all add: decree_on_promise_refines decree_on_accepted_refines decree_on_nack_refines
      option.map_comp prod.map_comp comp_def)

lemma spec_step_ok: "abs_ok a \<Longrightarrow> spec_step a e = Some (r, a') \<Longrightarrow> abs_ok a'"
  using spec_ok(3)[of a] by (cases e) (auto simp: map_prod_def split_beta intro: spec_ok(2,4))

lemma decree_run_refines:
  "abs_ok a \<Longrightarrow> run_events (decree_step fp) (concrete a) es =
     map_option (map_prod id concrete) (run_events spec_step a es)"
proof (induction es arbitrary: a)
  case (Cons e es)
  show ?case
  proof (cases "spec_step a e")
    case (Some ra)
    obtain r a' where ra: "ra = (r, a')" by (cases ra)
    have "abs_ok a'" using spec_step_ok[OF Cons.prems] Some ra by blast
    then show ?thesis
      using Cons.IH[of a'] decree_step_refines[OF Cons.prems, of fp e] Some ra
      by (cases "run_events spec_step a' es") auto
  qed (simp add: decree_step_refines[OF Cons.prems])
qed simp

lemma spec_run_ok:
  "abs_ok a \<Longrightarrow> run_events spec_step a es = Some (rs, a') \<Longrightarrow> abs_ok a'"
proof (induction es arbitrary: a rs)
  case (Cons e es)
  then obtain r a1 rs1 where "spec_step a e = Some (r, a1)" "run_events spec_step a1 es = Some (rs1, a')"
    by (auto simp: bind_Some_iff)
  then show ?case using Cons.IH[of a1 rs1] spec_step_ok[OF Cons.prems(1)] by blast
qed simp

text \<open>C34: a decree is its two-phase machine. Open a decree at any ballot over a well-formed configuration and
  feed it promises, accepts and refusals in any order, duplicates and strangers included: the code's decree,
  with the whole proposer inside, answers exactly what the small machine answers and ends in the state that
  represents the machine's. It panics exactly when the machine does, on two acceptors that report different
  values at one ballot; and what a re-send addresses is the members the machine has not heard from.\<close>

theorem decree_refines_machine:
  assumes "config_ok c"
  shows "(do { d \<leftarrow> decree_new b c v; (rs, d) \<leftarrow> run_events (decree_step fp) d es; u \<leftarrow> decree_unanswered d; Some (rs, d, u) }) =
    map_option (\<lambda>(rs, a). (rs, concrete a, spec_unanswered a)) (run_events spec_step (spec_new b c v) es)"
proof -
  have ok: "abs_ok (spec_new b c v)" using assms by (rule spec_ok)
  show ?thesis
  proof (cases "run_events spec_step (spec_new b c v) es")
    case (Some r)
    obtain rs a where r: "r = (rs, a)" by (cases r)
    have "abs_ok a" using spec_run_ok[OF ok] Some r by blast
    then show ?thesis
      using Some r by (simp add: decree_new_total[OF assms] decree_run_refines[OF ok] decree_unanswered_refines)
  qed (simp add: decree_new_total[OF assms] decree_run_refines[OF ok])
qed

theorem decree_refines_machine_witness:
  "\<exists>d. (do { d \<leftarrow> decree_new (Ballot 2 1) three_acceptors (7 :: nat);
      (rs, d) \<leftarrow> run_events (decree_step (\<lambda>_. 0)) d
        [Promise_Event 2 None, Promise_Event 2 None, Promise_Event 3 (Some (Ballot 1 3, 9)),
         Accepted_Event 4, Accepted_Event 3];
      u \<leftarrow> decree_unanswered d; Some (rs, d, u) }) =
    Some ([Promise_Reply (DecreeCounted 1), Promise_Reply DecreeIgnored, Promise_Reply (DecreeQuorum 9),
           Accepted_Reply (AcceptCounted 1), Accepted_Reply (AcceptChosen 9)], d, [2])"
  unfolding decree_refines_machine[OF three_acceptors_ok]
  by (simp add: spec_new_def spec_promise_def spec_accepted_def live_def three_acceptors_def config_phase1_def
      config_phase2_def votes_agree_def spec_value_def spec_unanswered_def phase1_quorum_size_total phase2_quorum_size_total
      u64_max_def Let_def)

end
