(* ===== verification/Limits.thy ===== *)
theory Limits
  imports Acceptor Rounds
begin

section \<open>The limits of a deployment\<close>

text \<open>
  \<^verbatim>\<open>paros-core/src/contract/limits.rs\<close>: the page sizes and the read window one process runs under, the
  ceilings they lie below, and the check its constructors make. The two ceilings the acceptor and the
  rounds use are declared with them.
\<close>

definition RECOVERY_BATCH :: nat where
  "RECOVERY_BATCH = 64"

definition APPLY_BATCH :: nat where
  "APPLY_BATCH = 64"

definition READ_TTL_TICKS :: nat where
  "READ_TTL_TICKS = 20"

definition REGISTRY_PAGE :: nat where
  "REGISTRY_PAGE = 64"

record limits =
  lm_recovery_page :: nat
  lm_promise_page :: nat
  lm_resend_page :: nat
  lm_apply_page :: nat
  lm_read_window :: nat
  lm_registry_page :: nat

definition limits_default :: limits where
  "limits_default = \<lparr>lm_recovery_page = RECOVERY_BATCH, lm_promise_page = PROMISE_BATCH, lm_resend_page = RESEND_BATCH,
     lm_apply_page = APPLY_BATCH, lm_read_window = READ_TTL_TICKS, lm_registry_page = REGISTRY_PAGE\<rparr>"

definition limits_assert_valid :: "limits \<Rightarrow> unit option" where
  "limits_assert_valid l = do {
     check (lm_recovery_page l > 0);
     check (lm_recovery_page l \<le> RECOVERY_BATCH);
     check (lm_promise_page l > 0);
     check (lm_promise_page l \<le> PROMISE_BATCH);
     check (lm_resend_page l > 0);
     check (lm_resend_page l \<le> RESEND_BATCH);
     check (lm_apply_page l > 0);
     check (lm_apply_page l \<le> APPLY_BATCH);
     check (lm_registry_page l > 0);
     check (lm_registry_page l \<le> REGISTRY_PAGE)
   }"

definition kept_read_window :: "limits \<Rightarrow> nat option" where
  "kept_read_window l = do {
     let kept = max (lm_read_window l) READ_TTL_TICKS;
     check (kept \<ge> lm_read_window l);
     check (kept \<ge> READ_TTL_TICKS);
     Some kept
   }"

definition limits_ok :: "limits \<Rightarrow> bool" where
  "limits_ok l \<longleftrightarrow> lm_recovery_page l \<in> {1..RECOVERY_BATCH} \<and> lm_promise_page l \<in> {1..PROMISE_BATCH} \<and>
     lm_resend_page l \<in> {1..RESEND_BATCH} \<and> lm_apply_page l \<in> {1..APPLY_BATCH} \<and> lm_registry_page l \<in> {1..REGISTRY_PAGE}"

lemma limits_assert_valid_iff: "limits_assert_valid l = Some u \<longleftrightarrow> limits_ok l"
  by (auto simp: limits_assert_valid_def limits_ok_def)

lemma limits_assert_total [total_simps]: "limits_ok l \<Longrightarrow> limits_assert_valid l = Some ()"
  by (simp add: limits_assert_valid_iff)

lemma limits_default_ok: "limits_ok limits_default"
  by (simp add: limits_ok_def limits_default_def RECOVERY_BATCH_def PROMISE_BATCH_def RESEND_BATCH_def APPLY_BATCH_def REGISTRY_PAGE_def)

lemma kept_read_window_total [total_simps]: "kept_read_window l = Some (max (lm_read_window l) READ_TTL_TICKS)"
  by (simp add: kept_read_window_def)

end
