(* ===== verification/Registry.thy ===== *)
theory Registry
  imports Limits Retained_Window Matchmaker_Set Journal
begin

section \<open>The durable state of a matchmaker\<close>

text \<open>
  \<^verbatim>\<open>paros-core/src/matchmaker/state.rs\<close> and \<^verbatim>\<open>storage.rs\<close>: the registrations and the scalars a matchmaker
  persists, the pending bootstraps of a proposed successor and the pages they travel in, the writes it
  stages, and the reference store that applies them.
\<close>

subsection \<open>Registrations\<close>

type_synonym node_config = "node_id acceptor_config"

datatype registration_kind = Belief | Reconfiguration

record registration =
  rg_config :: node_config
  rg_kind :: registration_kind

definition kind_is_reconfiguration :: "registration_kind \<Rightarrow> bool" where
  "kind_is_reconfiguration k \<longleftrightarrow> (case k of Reconfiguration \<Rightarrow> True | Belief \<Rightarrow> False)"

definition registration_belief :: "node_config \<Rightarrow> registration option" where
  "registration_belief config = do {
     let registration = \<lparr>rg_config = config, rg_kind = Belief\<rparr>;
     check (\<not> kind_is_reconfiguration (rg_kind registration));
     Some registration
   }"

definition registration_reconfiguration :: "node_config \<Rightarrow> registration option" where
  "registration_reconfiguration config = do {
     let registration = \<lparr>rg_config = config, rg_kind = Reconfiguration\<rparr>;
     check (kind_is_reconfiguration (rg_kind registration));
     Some registration
   }"

type_synonym ledger = "(ballot, registration) fmap"
type_synonym effective_config = "(ballot \<times> node_config) option"

definition raise_effective :: "effective_config \<Rightarrow> ballot \<Rightarrow> node_config \<Rightarrow> (bool \<times> effective_config) option" where
  "raise_effective held ballot config = do {
     let (raised, held) = (if (case held of None \<Rightarrow> True | Some (newest, _) \<Rightarrow> ballot > newest)
                           then (True, Some (ballot, config)) else (False, held));
     check (case held of None \<Rightarrow> False | Some (newest, _) \<Rightarrow> newest \<ge> ballot);
     (if raised then check (case held of None \<Rightarrow> False | Some (_, c) \<Rightarrow> c = config) else Some ());
     Some (raised, held)
   }"

subsection \<open>Scalars and bootstraps\<close>

record decree_record =
  dr_promised :: ballot
  dr_vote :: "(ballot \<times> matchmaker_id list) option"

definition decree_record_default :: decree_record where
  "decree_record_default = \<lparr>dr_promised = ballot_zero, dr_vote = None\<rparr>"

datatype matchmaker_phase = Fresh | Inactive | Active | Stopped

record journal_registry =
  jr_gc_watermark :: ballot
  jr_history :: ledger
  jr_effective :: effective_config

definition jr_is_blank :: "journal_registry \<Rightarrow> bool" where
  "jr_is_blank r \<longleftrightarrow> jr_gc_watermark r = ballot_zero \<and> jr_history r = fmempty \<and> jr_effective r = None"

record pending_bootstrap =
  pb_set :: matchmaker_set
  pb_registries :: "(journal_id, journal_registry) fmap"
  pb_complete :: bool

record bootstrap_page =
  bp_set :: matchmaker_set
  bp_after :: "journal_id option"
  bp_registries :: "(journal_id, journal_registry) fmap"
  bp_last :: bool

definition pb_held :: "pending_bootstrap \<Rightarrow> journal_id option" where
  "pb_held p = fm_last (pb_registries p)"

text \<open>The cursor test \<^verbatim>\<open>after.is_none_or(|after| journal > after)\<close>.\<close>

definition past :: "journal_id option \<Rightarrow> journal_id \<Rightarrow> bool" where
  "past after j \<longleftrightarrow> (case after of None \<Rightarrow> True | Some a \<Rightarrow> j > a)"

definition bp_is_well_formed :: "bootstrap_page \<Rightarrow> bool" where
  "bp_is_well_formed p \<longleftrightarrow> fm_len (bp_registries p) \<le> REGISTRY_PAGE \<and>
     list_all (past (bp_after p)) (fm_keys (bp_registries p)) \<and>
     list_all (\<lambda>(_, r). \<not> jr_is_blank r) (fm_entries (bp_registries p)) \<and>
     (bp_last p \<or> bp_registries p \<noteq> fmempty)"

definition pb_page :: "pending_bootstrap \<Rightarrow> journal_id option \<Rightarrow> nat \<Rightarrow> bootstrap_page option" where
  "pb_page p after page = do {
     check (page > 0);
     check (page \<le> REGISTRY_PAGE);
     check (pb_complete p);
     let above = filter (\<lambda>(journal, _). past after journal) (fm_entries (pb_registries p));
     let registries = fmap_of_list (take page above);
     let last = (length above \<le> page);
     let cut = \<lparr>bp_set = pb_set p, bp_after = after, bp_registries = registries, bp_last = last\<rparr>;
     check (bp_last cut \<or> fm_len (bp_registries cut) = page);
     check (bp_is_well_formed cut);
     Some cut
   }"

record journal_scalars =
  sc_gc_watermark :: ballot
  sc_effective :: effective_config

definition journal_scalars_default :: journal_scalars where
  "journal_scalars_default = \<lparr>sc_gc_watermark = ballot_zero, sc_effective = None\<rparr>"

record matchmaker_hard_state =
  hs_generation :: matchmaker_generation
  hs_members :: "matchmaker_id list"
  hs_phase :: matchmaker_phase
  hs_successor :: "matchmaker_set option"
  hs_decree :: decree_record
  hs_pending :: "pending_bootstrap list"
  hs_journals :: "(journal_id, journal_scalars) fmap"

definition hard_state_default :: matchmaker_hard_state where
  "hard_state_default = \<lparr>hs_generation = 0, hs_members = [], hs_phase = Fresh, hs_successor = None,
     hs_decree = decree_record_default, hs_pending = [], hs_journals = fmempty\<rparr>"

definition hs_gc_watermark :: "matchmaker_hard_state \<Rightarrow> journal_id \<Rightarrow> ballot" where
  "hs_gc_watermark h j = (case fmlookup (hs_journals h) j of None \<Rightarrow> ballot_zero | Some s \<Rightarrow> sc_gc_watermark s)"

definition hs_effective :: "matchmaker_hard_state \<Rightarrow> journal_id \<Rightarrow> effective_config" where
  "hs_effective h j = (case fmlookup (hs_journals h) j of None \<Rightarrow> None | Some s \<Rightarrow> sc_effective s)"

text \<open>\<^verbatim>\<open>entry(journal).or_default()\<close>, and the assignment made through the reference it returns.\<close>

definition journal_entry :: "(journal_id, journal_scalars) fmap \<Rightarrow> journal_id \<Rightarrow> journal_scalars" where
  "journal_entry js j = (case fmlookup js j of None \<Rightarrow> journal_scalars_default | Some s \<Rightarrow> s)"

definition hs_journal_mut ::
  "matchmaker_hard_state \<Rightarrow> journal_id \<Rightarrow> (journal_scalars \<Rightarrow> journal_scalars) \<Rightarrow> matchmaker_hard_state" where
  "hs_journal_mut h j f = h\<lparr>hs_journals := fmupd j (f (journal_entry (hs_journals h) j)) (hs_journals h)\<rparr>"

definition resolved_set :: "matchmaker_hard_state \<Rightarrow> matchmaker_id list \<Rightarrow> matchmaker_set option" where
  "resolved_set h bootstrap = do {
     s \<leftarrow> (if hs_generation h = 0 \<and> hs_members h = [] then ms_new 0 bootstrap
           else ms_new (hs_generation h) (hs_members h));
     check (ms_generation s = hs_generation h);
     members \<leftarrow> ms_members' s;
     check (members \<noteq> []);
     Some s
   }"

definition resolved_phase :: "matchmaker_hard_state \<Rightarrow> matchmaker_id \<Rightarrow> matchmaker_id list \<Rightarrow> matchmaker_phase option" where
  "resolved_phase h mm bootstrap = do {
     let phase = (case hs_phase h of
         Fresh \<Rightarrow> if mm \<in> set bootstrap then Active else Inactive
       | phase \<Rightarrow> phase);
     check (phase \<noteq> Fresh);
     (if hs_phase h \<noteq> Fresh then check (phase = hs_phase h) else Some ());
     Some phase
   }"

subsection \<open>Writes and the reference store\<close>

datatype matchmaker_write =
    Register journal_id ballot registration
  | SetGcWatermark journal_id ballot
  | SetScalars matchmaker_hard_state
  | InstallRegistry matchmaker_hard_state "(journal_id, ledger) fmap"

record mem_registry =
  mr_hard_state :: matchmaker_hard_state
  mr_registry :: "(journal_id, ledger) fmap"

definition mr_new :: "matchmaker_hard_state \<Rightarrow> (journal_id, ledger) fmap \<Rightarrow> mem_registry" where
  "mr_new h registrations = \<lparr>mr_hard_state = h,
     mr_registry = fmap_of_list (filter (\<lambda>(_, l). l \<noteq> fmempty) (fm_entries registrations))\<rparr>"

definition mr_collect :: "(journal_id, ledger) fmap \<Rightarrow> journal_id \<Rightarrow> ballot \<Rightarrow> (journal_id, ledger) fmap" where
  "mr_collect reg j watermark = (case fmlookup reg j of
     None \<Rightarrow> reg
   | Some ledger \<Rightarrow>
       let ledger = fm_from watermark ledger;
           reg = fmupd j ledger reg
       in if ledger = fmempty then fmdrop j reg else reg)"

definition mr_apply :: "mem_registry \<Rightarrow> matchmaker_write \<Rightarrow> mem_registry option" where
  "mr_apply s op = do {
     s \<leftarrow> (case op of
        Register j b r \<Rightarrow> do {
          check (b \<ge> hs_gc_watermark (mr_hard_state s) j);
          let ledger = (case fmlookup (mr_registry s) j of None \<Rightarrow> fmempty | Some l \<Rightarrow> l);
          Some (s\<lparr>mr_registry := fmupd j (fmupd b r ledger) (mr_registry s)\<rparr>)
        }
      | SetGcWatermark j w \<Rightarrow> do {
          let s = (if w > hs_gc_watermark (mr_hard_state s) j
                   then s\<lparr>mr_hard_state := hs_journal_mut (mr_hard_state s) j (\<lambda>sc. sc\<lparr>sc_gc_watermark := w\<rparr>),
                          mr_registry := mr_collect (mr_registry s) j w\<rparr>
                   else s);
          check (hs_gc_watermark (mr_hard_state s) j \<ge> w);
          Some s
        }
      | SetScalars h \<Rightarrow>
          let h' = fold (\<lambda>(j, kept) h.
                hs_journal_mut h j (\<lambda>sc. sc\<lparr>sc_gc_watermark := max (hs_gc_watermark h j) (sc_gc_watermark kept)\<rparr>))
              (fm_entries (hs_journals (mr_hard_state s))) h
          in Some \<lparr>mr_hard_state = h',
               mr_registry = fold (\<lambda>(j, sc) reg. mr_collect reg j (sc_gc_watermark sc)) (fm_entries (hs_journals h')) (mr_registry s)\<rparr>
      | InstallRegistry h registrations \<Rightarrow>
          Some \<lparr>mr_hard_state = h,
            mr_registry = fmap_of_list (filter (\<lambda>(_, l). l \<noteq> fmempty)
              (map (\<lambda>(j, l). (j, fm_from (hs_gc_watermark h j) l)) (fm_entries registrations)))\<rparr>);
     check (list_all (\<lambda>(j, l). case fm_first l of None \<Rightarrow> True | Some b \<Rightarrow> b \<ge> hs_gc_watermark (mr_hard_state s) j)
              (fm_entries (mr_registry s)));
     Some s
   }"

text \<open>The read port of the store.\<close>

definition mr_registration :: "mem_registry \<Rightarrow> journal_id \<Rightarrow> ballot \<Rightarrow> registration option" where
  "mr_registration s j b = (case fmlookup (mr_registry s) j of None \<Rightarrow> None | Some l \<Rightarrow> fmlookup l b)"

definition mr_registered :: "mem_registry \<Rightarrow> (journal_id \<times> ballot) list" where
  "mr_registered s = concat (map (\<lambda>(j, l). map (Pair j) (fm_keys l)) (fm_entries (mr_registry s)))"

section \<open>What the durable state guarantees\<close>

lemma kind_simps [simp]: "kind_is_reconfiguration Reconfiguration" "\<not> kind_is_reconfiguration Belief"
  by (simp_all add: kind_is_reconfiguration_def)

lemma kind_is_reconfiguration_iff: "kind_is_reconfiguration k \<longleftrightarrow> k = Reconfiguration"
  by (cases k) simp_all

lemma raise_effective_total [total_simps]:
  "raise_effective held ballot config = Some
    (case held of None \<Rightarrow> (True, Some (ballot, config))
     | Some (newest, c) \<Rightarrow> if newest < ballot then (True, Some (ballot, config)) else (False, held))"
  by (auto simp: raise_effective_def not_less split: option.split)

definition raised_effective :: "effective_config \<Rightarrow> ballot \<Rightarrow> node_config \<Rightarrow> effective_config" where
  "raised_effective held ballot config = (case held of None \<Rightarrow> Some (ballot, config)
     | Some (newest, _) \<Rightarrow> if newest < ballot then Some (ballot, config) else held)"

lemma raise_effective_Some:
  "raise_effective held ballot config = Some (raised_effective held ballot config \<noteq> held, raised_effective held ballot config)"
  by (auto simp: raise_effective_total raised_effective_def split: option.split)

lemma resolved_phase_total [total_simps]:
  "resolved_phase h mm bootstrap = Some
    (if hs_phase h = Fresh then (if mm \<in> set bootstrap then Active else Inactive) else hs_phase h)"
  by (cases "hs_phase h") (simp_all add: resolved_phase_def)

lemma resolved_set_total:
  assumes "sorted_wrt (<) (if hs_members h = [] then bootstrap else hs_members h)"
    and "length (if hs_members h = [] then bootstrap else hs_members h) \<le> isize_max"
    and "hs_members h = [] \<Longrightarrow> hs_generation h = 0 \<and> bootstrap \<noteq> []"
  shows "resolved_set h bootstrap =
    Some \<lparr>ms_generation = hs_generation h, ms_members = (if hs_members h = [] then bootstrap else hs_members h)\<rparr>"
proof -
  have "ms_new g xs = Some \<lparr>ms_generation = g, ms_members = xs\<rparr>"
    if "sorted_wrt (<) xs" "length xs \<le> isize_max" "xs \<noteq> []" for g xs
  proof -
    have "sorted xs" "distinct xs" using that(1) by (auto simp: strict_sorted_iff)
    then show ?thesis using that by (simp add: ms_new_total distinct_card sorted_list_of_set.idem_if_sorted_distinct)
  qed
  then show ?thesis using assms by (auto simp: resolved_set_def ms_members'_def)
qed

subsection \<open>Scalars of one journal\<close>

lemma journal_mut_simps [simp]:
  "hs_generation (hs_journal_mut h j f) = hs_generation h" "hs_members (hs_journal_mut h j f) = hs_members h"
  "hs_phase (hs_journal_mut h j f) = hs_phase h" "hs_successor (hs_journal_mut h j f) = hs_successor h"
  "hs_decree (hs_journal_mut h j f) = hs_decree h" "hs_pending (hs_journal_mut h j f) = hs_pending h"
  "fmlookup (hs_journals (hs_journal_mut h j f)) j' =
     (if j' = j then Some (f (journal_entry (hs_journals h) j)) else fmlookup (hs_journals h) j')"
  by (auto simp: hs_journal_mut_def)

lemma hs_reads_entry:
  "hs_gc_watermark h j = sc_gc_watermark (journal_entry (hs_journals h) j)"
  "hs_effective h j = sc_effective (journal_entry (hs_journals h) j)"
  by (simp_all add: hs_gc_watermark_def hs_effective_def journal_entry_def journal_scalars_default_def split: option.split)

lemma journal_entry_mut:
  "journal_entry (hs_journals (hs_journal_mut h j f)) j' =
     (if j' = j then f (journal_entry (hs_journals h) j) else journal_entry (hs_journals h) j')"
  by (simp add: journal_entry_def)

lemma hs_reads_mut [simp]:
  "hs_gc_watermark (hs_journal_mut h j f) j' = (if j' = j then sc_gc_watermark (f (journal_entry (hs_journals h) j)) else hs_gc_watermark h j')"
  "hs_effective (hs_journal_mut h j f) j' = (if j' = j then sc_effective (f (journal_entry (hs_journals h) j)) else hs_effective h j')"
  by (simp_all add: hs_gc_watermark_def hs_effective_def)

lemma journal_mut_id:
  "fmlookup (hs_journals h) j = Some sc \<Longrightarrow> f sc = sc \<Longrightarrow> hs_journal_mut h j f = h"
proof -
  assume a: "fmlookup (hs_journals h) j = Some sc" "f sc = sc"
  then have "fmupd j (f (journal_entry (hs_journals h) j)) (hs_journals h) = hs_journals h"
    by (intro fmap_ext) (auto simp: journal_entry_def)
  then show ?thesis by (simp add: hs_journal_mut_def)
qed

subsection \<open>The reference store\<close>

text \<open>A store holds no empty ledger and nothing below a watermark.\<close>

definition store_ok :: "mem_registry \<Rightarrow> bool" where
  "store_ok s \<longleftrightarrow> (\<forall>j l. fmlookup (mr_registry s) j = Some l \<longrightarrow>
     l \<noteq> fmempty \<and> (\<forall>b \<in> fmdom' l. hs_gc_watermark (mr_hard_state s) j \<le> b))"

lemma store_okD:
  "store_ok s \<Longrightarrow> fmlookup (mr_registry s) j = Some l \<Longrightarrow> l \<noteq> fmempty"
  "store_ok s \<Longrightarrow> fmlookup (mr_registry s) j = Some l \<Longrightarrow> b \<in> fmdom' l \<Longrightarrow> hs_gc_watermark (mr_hard_state s) j \<le> b"
  by (auto simp: store_ok_def)

lemma mr_collect_lookup:
  "fmlookup (mr_collect reg j w) j' = (if j' = j
     then (case fmlookup reg j of None \<Rightarrow> None | Some l \<Rightarrow> if fm_from w l = fmempty then None else Some (fm_from w l))
     else fmlookup reg j')"
  by (auto simp: mr_collect_def Let_def split: option.split)

lemma mr_collect_id:
  assumes "\<And>l. fmlookup reg j = Some l \<Longrightarrow> l \<noteq> fmempty \<and> (\<forall>b \<in> fmdom' l. w \<le> b)"
  shows "mr_collect reg j w = reg"
  using assms by (intro fmap_ext) (auto simp: mr_collect_lookup fm_from_idem split: option.split)

lemma store_check:
  "list_all (\<lambda>(j, l). case fm_first l of None \<Rightarrow> True | Some b \<Rightarrow> b \<ge> f j) (fm_entries reg)
    \<longleftrightarrow> (\<forall>j l. fmlookup reg j = Some l \<longrightarrow> (\<forall>b \<in> fmdom' l. f j \<le> b))"
  by (simp add: list_all_iff fm_first_is_none_or set_fm_entries)

lemma apply_register:
  assumes "store_ok s" "hs_gc_watermark (mr_hard_state s) j \<le> b"
  defines "l \<equiv> (case fmlookup (mr_registry s) j of None \<Rightarrow> fmempty | Some l \<Rightarrow> l)"
  shows "mr_apply s (Register j b r) = Some (s\<lparr>mr_registry := fmupd j (fmupd b r l) (mr_registry s)\<rparr>)"
proof -
  have "store_ok (s\<lparr>mr_registry := fmupd j (fmupd b r l) (mr_registry s)\<rparr>)"
    using assms(1,2) by (auto simp: store_ok_def l_def split: option.splits)
  then show ?thesis using assms(2) unfolding l_def by (simp add: mr_apply_def store_check store_ok_def)
qed

lemma apply_watermark:
  assumes "store_ok s" "hs_gc_watermark (mr_hard_state s) j < w"
  shows "mr_apply s (SetGcWatermark j w) = Some \<lparr>
    mr_hard_state = hs_journal_mut (mr_hard_state s) j (\<lambda>sc. sc\<lparr>sc_gc_watermark := w\<rparr>), mr_registry = mr_collect (mr_registry s) j w\<rparr>"
proof -
  let ?s = "s\<lparr>mr_hard_state := hs_journal_mut (mr_hard_state s) j (\<lambda>sc. sc\<lparr>sc_gc_watermark := w\<rparr>), mr_registry := mr_collect (mr_registry s) j w\<rparr>"
  have "store_ok ?s"
    unfolding store_ok_def
    by (auto simp: mr_collect_lookup split: if_splits option.splits dest: store_okD[OF assms(1)])
  then show ?thesis using assms(2) by (simp add: mr_apply_def store_check store_ok_def)
qed

lemma apply_scalars:
  assumes "\<And>j sc. fmlookup (hs_journals (mr_hard_state s)) j = Some sc \<Longrightarrow>
      fmlookup (hs_journals h) j \<noteq> None \<and> sc_gc_watermark sc \<le> hs_gc_watermark h j"
    and "store_ok (s\<lparr>mr_hard_state := h\<rparr>)"
  shows "mr_apply s (SetScalars h) = Some (s\<lparr>mr_hard_state := h\<rparr>)"
proof -
  have fold1: "fold (\<lambda>(j, kept) h. hs_journal_mut h j (\<lambda>sc. sc\<lparr>sc_gc_watermark := max (hs_gc_watermark h j) (sc_gc_watermark kept)\<rparr>)) xs h = h"
    if "\<And>j sc. (j, sc) \<in> set xs \<Longrightarrow> fmlookup (hs_journals h) j \<noteq> None \<and> sc_gc_watermark sc \<le> hs_gc_watermark h j" for xs
    using that
  proof (induction xs)
    case (Cons x xs)
    obtain j kept where x: "x = (j, kept)" by fastforce
    with Cons.prems[of j kept] obtain sc where sc: "fmlookup (hs_journals h) j = Some sc" "sc_gc_watermark kept \<le> hs_gc_watermark h j"
      by auto
    then have "hs_journal_mut h j (\<lambda>sc. sc\<lparr>sc_gc_watermark := max (hs_gc_watermark h j) (sc_gc_watermark kept)\<rparr>) = h"
      by (intro journal_mut_id[OF sc(1)]) (simp add: hs_gc_watermark_def max_absorb1)
    moreover have "fold (\<lambda>(j, kept) h. hs_journal_mut h j (\<lambda>sc. sc\<lparr>sc_gc_watermark := max (hs_gc_watermark h j) (sc_gc_watermark kept)\<rparr>)) xs h = h"
      by (rule Cons.IH) (use Cons.prems in auto)
    ultimately show ?case using x by simp
  qed simp
  have fold2: "fold (\<lambda>(j, sc) reg. mr_collect reg j (sc_gc_watermark sc)) xs (mr_registry s) = mr_registry s"
    if "\<And>j sc. (j, sc) \<in> set xs \<Longrightarrow> fmlookup (hs_journals h) j = Some sc" for xs
    using that
  proof (induction xs)
    case (Cons x xs)
    obtain j sc where x: "x = (j, sc)" by fastforce
    then have "hs_gc_watermark h j = sc_gc_watermark sc" using Cons.prems[of j sc] by (simp add: hs_gc_watermark_def)
    have "mr_collect (mr_registry s) j (sc_gc_watermark sc) = mr_registry s"
      unfolding \<open>hs_gc_watermark h j = sc_gc_watermark sc\<close>[symmetric]
      using store_okD[OF assms(2)] by (intro mr_collect_id) auto
    then show ?case using Cons x by simp
  qed simp
  have "fold (\<lambda>(j, kept) h. hs_journal_mut h j (\<lambda>sc. sc\<lparr>sc_gc_watermark := max (hs_gc_watermark h j) (sc_gc_watermark kept)\<rparr>))
      (fm_entries (hs_journals (mr_hard_state s))) h = h"
    by (rule fold1) (use assms(1) in auto)
  moreover have "fold (\<lambda>(j, sc) reg. mr_collect reg j (sc_gc_watermark sc)) (fm_entries (hs_journals h)) (mr_registry s) = mr_registry s"
    by (rule fold2) auto
  ultimately show ?thesis using assms(2) by (simp add: mr_apply_def Let_def store_check store_ok_def)
qed

lemma filter_of_list:
  assumes "\<And>k v. fmlookup m k = Some v \<Longrightarrow> P k v"
  shows "fmap_of_list (filter (\<lambda>(k, v). P k v) (fm_entries m)) = m"
proof -
  have "filter (\<lambda>(k, v). P k v) (fm_entries m) = fm_entries m" using assms by (intro filter_True) auto
  then show ?thesis by (intro fmap_ext) (simp add: fmlookup_of_list map_of_fm_entries)
qed

lemma apply_install:
  assumes "store_ok \<lparr>mr_hard_state = h, mr_registry = registrations\<rparr>"
  shows "mr_apply s (InstallRegistry h registrations) = Some \<lparr>mr_hard_state = h, mr_registry = registrations\<rparr>"
proof -
  have "map (\<lambda>(j, l). (j, fm_from (hs_gc_watermark h j) l)) (fm_entries registrations) = fm_entries registrations"
    using store_okD[OF assms] by (intro map_idI) (auto intro!: fm_from_idem)
  moreover have "fmap_of_list (filter (\<lambda>(_, l). l \<noteq> fmempty) (fm_entries registrations)) = registrations"
    using store_okD(1)[OF assms] filter_of_list[of registrations "\<lambda>_ l. l \<noteq> fmempty"] by simp
  ultimately show ?thesis using assms by (simp add: mr_apply_def store_check store_ok_def)
qed

end
