(* ===== verification/History_Page.thy ===== *)
theory History_Page
  imports Registry
begin

section \<open>History pages\<close>

text \<open>
  \<^verbatim>\<open>history_page\<close> of \<^verbatim>\<open>paros-core/src/matchmaker.rs\<close>: one bounded page of a registry window. A belief that a
  later registration of the window repeats is left out; the lemmas show that nothing a candidate needs
  goes with it, and that pages cut one after the other are the whole answer.
\<close>

text \<open>The backward walk over a window: a record is kept when it is a reconfiguration or when no later
  record of the window has its configuration.\<close>

fun keep_later :: "(ballot \<times> registration) list \<Rightarrow> node_config list \<times> bool list" where
  "keep_later [] = ([], [])"
| "keep_later ((_, registration) # window) =
     (let (above, kept) = keep_later window;
          repeated = (rg_config registration \<in> set above)
      in (if repeated then above else above @ [rg_config registration],
          (kind_is_reconfiguration (rg_kind registration) \<or> \<not> repeated) # kept))"

definition history_page :: "(ballot \<times> registration) list \<Rightarrow> nat \<Rightarrow> (ledger \<times> ballot option) option" where
  "history_page window limit = do {
     check (limit > 0);
     let (_, kept) = keep_later window;
     let elided = length (filter (\<lambda>keep. \<not> keep) kept);
     let records = map fst (filter snd (zip window kept));
     let page = fmap_of_list (take limit records);
     let cursor = (case drop limit records of [] \<Rightarrow> None | (ballot, _) # _ \<Rightarrow> Some ballot);
     check (fm_len page \<le> limit);
     check (cursor = None \<or> fm_len page = limit);
     (case cursor of None \<Rightarrow> Some ()
      | Some cursor \<Rightarrow> check (case fm_last page of None \<Rightarrow> True | Some greatest \<Rightarrow> greatest < cursor));
     check (length window = elided + length (filter (\<lambda>keep. keep) kept));
     Some (page, cursor)
   }"

section \<open>What a page leaves out\<close>

text \<open>The records a page is cut from, by recursion on the window.\<close>

fun kept_records :: "(ballot \<times> registration) list \<Rightarrow> (ballot \<times> registration) list" where
  "kept_records [] = []"
| "kept_records ((b, r) # window) =
     (if kind_is_reconfiguration (rg_kind r) \<or> rg_config r \<notin> (rg_config \<circ> snd) ` set window
      then (b, r) # kept_records window else kept_records window)"

lemma set_above: "set (fst (keep_later window)) = (rg_config \<circ> snd) ` set window"
proof (induction window rule: keep_later.induct)
  case (2 b r window)
  then show ?case by (cases "keep_later window") (auto simp: Let_def)
qed simp

lemma length_kept [simp]: "length (snd (keep_later window)) = length window"
  by (induction window rule: keep_later.induct) (auto simp: Let_def split: prod.split)

lemma kept_records_eq: "map fst (filter snd (zip window (snd (keep_later window)))) = kept_records window"
proof (induction window rule: kept_records.induct)
  case (2 b r window)
  obtain above kept where k: "keep_later window = (above, kept)" by fastforce
  then have "set above = (rg_config \<circ> snd) ` set window" using set_above[of window] by simp
  with 2 k show ?case by simp
qed simp

lemma kept_records_sub: "set (kept_records window) \<subseteq> set window"
  by (induction window rule: kept_records.induct) auto

lemma kept_records_sorted:
  "sorted_wrt (<) (map fst window) \<Longrightarrow> sorted_wrt (<) (map fst (kept_records window))"
proof (induction window rule: kept_records.induct)
  case (2 b r window)
  have "b < fst x" if "x \<in> set (kept_records window)" for x
    using 2(3) that kept_records_sub[of window] by auto
  then show ?case using 2 by auto
qed simp

text \<open>Nothing a candidate needs is left out: every reconfiguration is kept, and every configuration of the
  window is the configuration of a kept record at or above the ballot it stood at.\<close>

lemma kept_reconfigurations:
  "(b, r) \<in> set window \<Longrightarrow> kind_is_reconfiguration (rg_kind r) \<Longrightarrow> (b, r) \<in> set (kept_records window)"
  by (induction window rule: kept_records.induct) auto

lemma kept_configs:
  "sorted_wrt (<) (map fst window) \<Longrightarrow> (b, r) \<in> set window \<Longrightarrow>
    \<exists>b' r'. (b', r') \<in> set (kept_records window) \<and> b \<le> b' \<and> rg_config r' = rg_config r"
proof (induction window arbitrary: b r)
  case (Cons x window)
  obtain b0 r0 where x: "x = (b0, r0)" by fastforce
  have sub: "set (kept_records window) \<subseteq> set (kept_records (x # window))" using x by auto
  show ?case
  proof (cases "(b, r) \<in> set window")
    case True
    then show ?thesis using Cons.IH[of b r] Cons.prems(1) sub by auto
  next
    case False
    then have br: "b = b0" "r = r0" using Cons.prems(2) x by auto
    show ?thesis
    proof (cases "rg_config r0 \<in> (rg_config \<circ> snd) ` set window")
      case True
      then obtain b1 r1 where r1: "(b1, r1) \<in> set window" "rg_config r1 = rg_config r0" by fastforce
      obtain b' r' where k: "(b', r') \<in> set (kept_records window)" "b1 \<le> b'" "rg_config r' = rg_config r1"
        using Cons.IH[OF _ r1(1)] Cons.prems(1) by auto
      moreover have "b0 \<le> b1" using Cons.prems(1) r1(1) x by force
      ultimately show ?thesis using br sub r1(2) order_trans by (metis subsetD)
    next
      case False
      then show ?thesis using br x by auto
    qed
  qed
qed simp

text \<open>What a page leaves out depends on the later records alone, so the next page continues it.\<close>

lemma kept_from:
  "sorted_wrt (<) (map fst window) \<Longrightarrow>
    kept_records (filter (\<lambda>(b, _). c \<le> b) window) = filter (\<lambda>(b, _). c \<le> b) (kept_records window)"
proof (induction window rule: kept_records.induct)
  case (2 b r window)
  show ?case
  proof (cases "c \<le> b")
    case True
    have le: "c \<le> fst x" if "x \<in> set window" for x using True 2(3) that by fastforce
    then have "filter (\<lambda>(b, _). c \<le> b) window = window"
      "filter (\<lambda>(b, _). c \<le> b) (kept_records window) = kept_records window"
      using kept_records_sub[of window] by (auto intro!: filter_True)
    then show ?thesis using True by simp
  next
    case False
    then show ?thesis using 2 by auto
  qed
qed simp

lemma strict_sorted_distinct: "sorted_wrt (<) (xs :: 'a::linorder list) \<Longrightarrow> distinct xs"
  by (simp add: strict_sorted_iff)

lemma dom_of_list [simp]: "fmdom' (fmap_of_list xs) = fst ` set xs"
  by (force simp: fmdom'_iff fmlookup_of_list map_of_eq_None_iff)

lemma map_of_list_len:
  assumes "sorted_wrt (<) (map fst (xs :: ('k::linorder \<times> 'v) list))"
  shows "fm_len (fmap_of_list xs) = length xs"
  using distinct_card[OF strict_sorted_distinct[OF assms]] by (simp add: fm_len_def)

definition page_next :: "nat \<Rightarrow> (ballot \<times> registration) list \<Rightarrow> ballot option" where
  "page_next limit records = (case drop limit records of [] \<Rightarrow> None | (b, _) # _ \<Rightarrow> Some b)"

lemma take_below_next:
  assumes "sorted_wrt (<) (map fst records)" "page_next limit records = Some c" "x \<in> set (take limit records)"
  shows "fst x < c"
proof -
  obtain r rest where d: "drop limit records = (c, r) # rest"
    using assms(2) by (auto simp: page_next_def split: list.splits)
  have "sorted_wrt (<) (map fst (take limit records @ drop limit records))" using assms(1) by simp
  then show ?thesis using assms(3) d unfolding map_append sorted_wrt_append by force
qed

lemma page_next_full: "page_next limit records = Some c \<Longrightarrow> length (take limit records) = limit"
  by (cases "limit < length records") (auto simp: page_next_def)

lemma history_page_total [total_simps]:
  assumes "sorted_wrt (<) (map fst window)" "0 < limit"
  shows "history_page window limit =
    Some (fmap_of_list (take limit (kept_records window)), page_next limit (kept_records window))"
proof -
  let ?rs = "kept_records window"
  have s: "sorted_wrt (<) (map fst ?rs)" by (rule kept_records_sorted[OF assms(1)])
  then have st: "sorted_wrt (<) (map fst (take limit ?rs))" unfolding take_map[symmetric] by (rule sorted_wrt_take)
  obtain above kept where k: "keep_later window = (above, kept)" by fastforce
  then have len: "length kept = length window" using length_kept[of window] by simp
  have part: "length window = length (filter (\<lambda>keep. \<not> keep) kept) + length (filter (\<lambda>keep. keep) kept)"
    unfolding len[symmetric] using sum_length_filter_compl[of "\<lambda>keep. keep" kept] by simp
  have rs: "map fst (filter snd (zip window kept)) = ?rs" using kept_records_eq[of window] k by simp
  have below: "case page_next limit ?rs of None \<Rightarrow> True
    | Some c \<Rightarrow> (case fm_last (fmap_of_list (take limit ?rs)) of None \<Rightarrow> True | Some g \<Rightarrow> g < c)"
    using take_below_next[OF s] by (auto simp: fm_last_is_none_or split: option.split)
  have "page_next limit ?rs = None \<or> fm_len (fmap_of_list (take limit ?rs)) = limit"
    using page_next_full[of limit ?rs] by (cases "page_next limit ?rs") (auto simp: map_of_list_len[OF st])
  moreover have "(case drop limit ?rs of [] \<Rightarrow> None | (ballot, _) # _ \<Rightarrow> Some ballot) = page_next limit ?rs"
    by (simp add: page_next_def)
  ultimately show ?thesis
    using assms(2) part[symmetric] below
    by (cases "page_next limit ?rs") (simp_all add: history_page_def k rs map_of_list_len[OF st] Let_def)
qed

lemma drop_from_next:
  assumes "sorted_wrt (<) (map fst records)" "page_next limit records = Some c"
  shows "filter (\<lambda>(b, _). c \<le> b) records = drop limit records"
proof -
  obtain r rest where d: "drop limit records = (c, r) # rest"
    using assms(2) by (auto simp: page_next_def split: list.splits)
  have s: "sorted_wrt (<) (map fst (take limit records @ drop limit records))" using assms(1) by simp
  have "filter (\<lambda>(b, _). c \<le> b) (take limit records) = []"
    using take_below_next[OF assms] by (force simp: filter_empty_conv)
  moreover have "filter (\<lambda>(b, _). c \<le> b) (drop limit records) = drop limit records"
  proof (rule filter_True, rule ballI)
    fix x assume "x \<in> set (drop limit records)"
    then show "case x of (b, _) \<Rightarrow> c \<le> b"
      using s by (cases x) (auto simp: d sorted_wrt_append)
  qed
  ultimately show ?thesis
    using filter_append[of "\<lambda>(b, _). c \<le> b" "take limit records" "drop limit records"] by simp
qed

end
