(* ===== verification/Matchmaker.thy ===== *)
theory Matchmaker
  imports History_Page
begin

section \<open>The matchmaker\<close>

text \<open>
  \<^verbatim>\<open>paros-core/src/matchmaker.rs\<close> with the messages of \<^verbatim>\<open>matchmaker/message.rs\<close> and the batch of
  \<^verbatim>\<open>matchmaker/ready.rs\<close>: the registry of which acceptor configuration each ballot runs under, kept per
  journal above a collection watermark, answered page by page, and fenced by the generation of the
  matchmaker set. The handover of a generation is in the theory \<open>Generation\<close>.
\<close>

subsection \<open>Messages\<close>

datatype match_purpose = Purpose_Register registration_kind | Purpose_Probe

definition purpose_is_reconfiguration :: "match_purpose \<Rightarrow> bool" where
  "purpose_is_reconfiguration p \<longleftrightarrow> (case p of Purpose_Register kind \<Rightarrow> kind_is_reconfiguration kind | Purpose_Probe \<Rightarrow> False)"

definition purpose_is_probe :: "match_purpose \<Rightarrow> bool" where
  "purpose_is_probe p \<longleftrightarrow> p = Purpose_Probe"

record match_request =
  mq_from :: node_id
  mq_journal :: journal_id
  mq_ballot :: ballot
  mq_config :: node_config
  mq_purpose :: match_purpose
  mq_generation :: matchmaker_generation
  mq_from_ballot :: "ballot option"

definition mq_new ::
  "journal_id \<Rightarrow> node_id \<Rightarrow> ballot \<Rightarrow> node_config \<Rightarrow> matchmaker_generation \<Rightarrow> match_request option" where
  "mq_new journal from ballot config generation = do {
     let request = \<lparr>mq_from = from, mq_journal = journal, mq_ballot = ballot, mq_config = config,
       mq_purpose = Purpose_Register Belief, mq_generation = generation, mq_from_ballot = None\<rparr>;
     check (\<not> purpose_is_reconfiguration (mq_purpose request));
     check (mq_from_ballot request = None);
     Some request
   }"

definition mq_reconfigure ::
  "journal_id \<Rightarrow> node_id \<Rightarrow> ballot \<Rightarrow> node_config \<Rightarrow> matchmaker_generation \<Rightarrow> match_request option" where
  "mq_reconfigure journal from ballot config generation = do {
     let request = \<lparr>mq_from = from, mq_journal = journal, mq_ballot = ballot, mq_config = config,
       mq_purpose = Purpose_Register Reconfiguration, mq_generation = generation, mq_from_ballot = None\<rparr>;
     check (purpose_is_reconfiguration (mq_purpose request));
     check (mq_from_ballot request = None);
     Some request
   }"

definition mq_for_kind ::
  "registration_kind \<Rightarrow> journal_id \<Rightarrow> node_id \<Rightarrow> ballot \<Rightarrow> node_config \<Rightarrow> matchmaker_generation \<Rightarrow> match_request option" where
  "mq_for_kind kind journal from ballot config generation = do {
     request \<leftarrow> (case kind of
         Belief \<Rightarrow> mq_new journal from ballot config generation
       | Reconfiguration \<Rightarrow> mq_reconfigure journal from ballot config generation);
     check (mq_purpose request = Purpose_Register kind);
     Some request
   }"

definition mq_probe ::
  "journal_id \<Rightarrow> node_id \<Rightarrow> ballot \<Rightarrow> node_config \<Rightarrow> matchmaker_generation \<Rightarrow> match_request option" where
  "mq_probe journal from ballot believed generation = do {
     let request = \<lparr>mq_from = from, mq_journal = journal, mq_ballot = ballot, mq_config = believed,
       mq_purpose = Purpose_Probe, mq_generation = generation, mq_from_ballot = None\<rparr>;
     check (purpose_is_probe (mq_purpose request));
     Some request
   }"

definition mq_from_page :: "match_request \<Rightarrow> ballot \<Rightarrow> match_request" where
  "mq_from_page request from = request\<lparr>mq_from_ballot := Some from\<rparr>"

datatype match_refusal =
    Refusal_Stale ballot
  | Refusal_BelowWatermark ballot
  | Refusal_Stopped "matchmaker_set option"
  | Refusal_Generation matchmaker_set
  | Refusal_Inactive

datatype match_outcome =
    Match_Registered (mo_from_ballot: ballot) (mo_history: ledger) (mo_next: "ballot option")
      (mo_gc_watermark: ballot) (mo_effective: effective_config)
  | Match_Probed effective_config
  | Match_Refused match_refusal

record match_reply =
  mp_matchmaker :: matchmaker_id
  mp_journal :: journal_id
  mp_to :: node_id
  mp_ballot :: ballot
  mp_generation :: matchmaker_generation
  mp_outcome :: match_outcome

record gc_request =
  gq_from :: node_id
  gq_journal :: journal_id
  gq_generation :: matchmaker_generation
  gq_watermark :: ballot

record gc_ack =
  ga_matchmaker :: matchmaker_id
  ga_journal :: journal_id
  ga_generation :: matchmaker_generation
  ga_applied :: bool
  ga_watermark :: ballot
  ga_newer :: "matchmaker_set option"
  ga_stopped :: bool

datatype gc_outcome = Gc_Raised | Gc_Unchanged | Gc_Refused

datatype reconfigure_request =
    Req_Stop node_id matchmaker_generation "journal_id option"
  | Req_Bootstrap node_id bootstrap_page
  | Req_DecreePrepare node_id matchmaker_generation ballot
  | Req_DecreeAccept node_id matchmaker_generation ballot "matchmaker_id list"
  | Req_Chosen node_id matchmaker_generation matchmaker_set

fun req_from :: "reconfigure_request \<Rightarrow> node_id" where
  "req_from (Req_Stop from _ _) = from"
| "req_from (Req_Bootstrap from _) = from"
| "req_from (Req_DecreePrepare from _ _) = from"
| "req_from (Req_DecreeAccept from _ _ _) = from"
| "req_from (Req_Chosen from _ _) = from"

datatype reconfigure_reply =
    Re_Stopped matchmaker_id matchmaker_generation "journal_id option" "journal_id option"
      "(journal_id, journal_registry) fmap" "matchmaker_set option" ballot
  | Re_Bootstrapped matchmaker_id matchmaker_set "journal_id option" bool
  | Re_Promised matchmaker_id matchmaker_generation ballot "(ballot \<times> matchmaker_id list) option"
  | Re_Accepted matchmaker_id matchmaker_generation ballot
  | Re_Nacked matchmaker_id matchmaker_generation ballot ballot
  | Re_Learned matchmaker_id matchmaker_generation bool matchmaker_generation
  | Re_Refused matchmaker_id matchmaker_set matchmaker_phase "matchmaker_set option"

fun re_matchmaker :: "reconfigure_reply \<Rightarrow> matchmaker_id" where
  "re_matchmaker (Re_Stopped mm _ _ _ _ _ _) = mm"
| "re_matchmaker (Re_Bootstrapped mm _ _ _) = mm"
| "re_matchmaker (Re_Promised mm _ _ _) = mm"
| "re_matchmaker (Re_Accepted mm _ _) = mm"
| "re_matchmaker (Re_Nacked mm _ _ _) = mm"
| "re_matchmaker (Re_Learned mm _ _ _) = mm"
| "re_matchmaker (Re_Refused mm _ _ _) = mm"

subsection \<open>State\<close>

record matchmaker_config =
  mc_id :: matchmaker_id
  mc_bootstrap :: "matchmaker_id list"

record matchmaker =
  mm_config :: matchmaker_config
  mm_hard :: matchmaker_hard_state
  mm_set :: matchmaker_set
  mm_registries :: "(journal_id, (ballot, registration) retained_window) fmap"
  mm_writes :: "matchmaker_write list"
  mm_replies :: "match_reply list"
  mm_reconfigure_replies :: "reconfigure_reply list"
  mm_limits :: limits

abbreviation mm_id :: "matchmaker \<Rightarrow> matchmaker_id" where
  "mm_id m \<equiv> mc_id (mm_config m)"

abbreviation mm_bootstrap :: "matchmaker \<Rightarrow> matchmaker_id list" where
  "mm_bootstrap m \<equiv> mc_bootstrap (mm_config m)"

definition mm_registry :: "matchmaker \<Rightarrow> journal_id \<Rightarrow> ledger option" where
  "mm_registry m j = (case fmlookup (mm_registries m) j of None \<Rightarrow> Some fmempty | Some w \<Rightarrow> rw_entries w)"

definition mm_journals :: "matchmaker \<Rightarrow> journal_id list option" where
  "mm_journals m = do {
     let journals = fm_keys (mm_registries m);
     check (list_all (\<lambda>j. fmlookup (mm_registries m) j \<noteq> None) (fm_keys (hs_journals (mm_hard m))));
     Some journals
   }"

text \<open>The window of a journal, opened at the journal's watermark when there is none. The source returns
  a reference to it; the update written through the reference is a second step here.\<close>

definition mm_window :: "matchmaker \<Rightarrow> journal_id \<Rightarrow> ((ballot, registration) retained_window \<times> matchmaker) option" where
  "mm_window m j = do {
     let floor = hs_gc_watermark (mm_hard m) j;
     window \<leftarrow> (case fmlookup (mm_registries m) j of None \<Rightarrow> rw_new fmempty floor | Some w \<Rightarrow> Some w);
     let m = m\<lparr>mm_registries := fmupd j window (mm_registries m)\<rparr>;
     base \<leftarrow> rw_floor window;
     check (base = floor);
     Some (window, m)
   }"

definition mm_put_window :: "matchmaker \<Rightarrow> journal_id \<Rightarrow> (ballot, registration) retained_window \<Rightarrow> matchmaker" where
  "mm_put_window m j w = m\<lparr>mm_registries := fmupd j w (mm_registries m)\<rparr>"

definition mm_highest :: "matchmaker \<Rightarrow> journal_id \<Rightarrow> ballot option option" where
  "mm_highest m j = do {
     highest \<leftarrow> (case fmlookup (mm_registries m) j of None \<Rightarrow> Some None | Some w \<Rightarrow> rw_last_key w);
     check (case highest of None \<Rightarrow> True | Some b \<Rightarrow> b \<ge> hs_gc_watermark (mm_hard m) j);
     Some highest
   }"

definition mm_phase :: "matchmaker \<Rightarrow> matchmaker_phase option" where
  "mm_phase m = resolved_phase (mm_hard m) (mm_id m) (mm_bootstrap m)"

definition mm_derive_set :: "matchmaker \<Rightarrow> matchmaker_set option" where
  "mm_derive_set m = resolved_set (mm_hard m) (mm_bootstrap m)"

definition mm_refresh_set :: "matchmaker \<Rightarrow> matchmaker option" where
  "mm_refresh_set m = do {
     s \<leftarrow> mm_derive_set m;
     let m = m\<lparr>mm_set := s\<rparr>;
     check (ms_generation (mm_set m) = hs_generation (mm_hard m));
     Some m
   }"

definition mm_successor :: "matchmaker \<Rightarrow> matchmaker_set option option" where
  "mm_successor m = do {
     (case hs_successor (mm_hard m) of
        None \<Rightarrow> Some ()
      | Some successor \<Rightarrow> do {
          next \<leftarrow> generation_next (hs_generation (mm_hard m));
          check (ms_generation successor = next);
          check (hs_phase (mm_hard m) = Stopped)
        });
     Some (hs_successor (mm_hard m))
   }"

definition mm_assert_invariants :: "matchmaker \<Rightarrow> unit option" where
  "mm_assert_invariants m = do {
     let h = mm_hard m;
     check (lm_registry_page (mm_limits m) > 0);
     check (lm_registry_page (mm_limits m) \<le> REGISTRY_PAGE);
     try_fold (\<lambda>(j, window) _. do {
         let watermark = hs_gc_watermark h j;
         first \<leftarrow> rw_first_key window;
         check (case first of None \<Rightarrow> True | Some lowest \<Rightarrow> lowest \<ge> watermark);
         floor \<leftarrow> rw_floor window;
         check (floor = watermark)
       }) (fm_entries (mm_registries m)) ();
     check (list_all (\<lambda>j. fmlookup (mm_registries m) j \<noteq> None) (fm_keys (hs_journals h)));
     (if hs_generation h > 0
      then do {
        check (hs_members h \<noteq> []);
        check (hs_phase h \<noteq> Fresh)
      }
      else Some ());
     (case hs_successor h of
        None \<Rightarrow> Some ()
      | Some successor \<Rightarrow> do {
          next \<leftarrow> generation_next (hs_generation h);
          check (ms_generation successor = next);
          check (hs_phase h = Stopped);
          check (list_all (\<lambda>p. ms_generation (pb_set p) > ms_generation successor \<or> pb_set p = successor) (hs_pending h))
        });
     let current = ms_generation (mm_set m);
     check (list_all (\<lambda>p. ms_generation (pb_set p) > current) (hs_pending h));
     mine \<leftarrow> try_all (\<lambda>p. ms_contains (pb_set p) (mm_id m)) (hs_pending h);
     check mine;
     check (sorted_wrt (<) (mm_bootstrap m));
     s \<leftarrow> mm_derive_set m;
     check (mm_set m = s);
     try_fold (\<lambda>(j, scalars) _. (case sc_effective scalars of
         None \<Rightarrow> Some ()
       | Some (ballot, config) \<Rightarrow> do {
           ledger \<leftarrow> mm_registry m j;
           check (case fmlookup ledger ballot of None \<Rightarrow> True
                  | Some r \<Rightarrow> kind_is_reconfiguration (rg_kind r) \<and> rg_config r = config)
         })) (fm_entries (hs_journals h)) ()
   }"

text \<open>The constructor reads the store through the three methods of \<^verbatim>\<open>RegistryStorage\<close>: the scalars, the
  walk over the registered ballots and the record of one of them.\<close>

definition mm_new ::
  "matchmaker_config \<Rightarrow> matchmaker_hard_state \<Rightarrow> (journal_id \<times> ballot) list \<Rightarrow>
   (journal_id \<Rightarrow> ballot \<Rightarrow> registration option) \<Rightarrow> limits \<Rightarrow> matchmaker option" where
  "mm_new config initial_state registered registration limits = do {
     limits_assert_valid limits;
     let hard_state = initial_state;
     ledgers \<leftarrow> try_fold (\<lambda>(j, b) ledgers. do {
         r \<leftarrow> registration j b;
         let ledger = (case fmlookup ledgers j of None \<Rightarrow> fmempty | Some l \<Rightarrow> l);
         check (fmlookup ledger b = None);
         Some (fmupd j (fmupd b r ledger) ledgers)
       }) registered fmempty;
     check (list_all (\<lambda>(j, l). case fm_first l of None \<Rightarrow> True | Some lowest \<Rightarrow> lowest \<ge> hs_gc_watermark hard_state j)
              (fm_entries ledgers));
     opened \<leftarrow> try_map (\<lambda>(j, scalars). do {
         w \<leftarrow> rw_new fmempty (sc_gc_watermark scalars);
         Some (j, w)
       }) (fm_entries (hs_journals hard_state));
     registries \<leftarrow> try_fold (\<lambda>(j, ledger) registries. do {
         w \<leftarrow> rw_new ledger (hs_gc_watermark hard_state j);
         Some (fmupd j w registries)
       }) (fm_entries ledgers) (fmap_of_list opened);
     let bootstrap = remdups_adj (sort (mc_bootstrap config));
     check (bootstrap \<noteq> []);
     s \<leftarrow> resolved_set hard_state bootstrap;
     let m = \<lparr>mm_config = \<lparr>mc_id = mc_id config, mc_bootstrap = bootstrap\<rparr>, mm_hard = hard_state, mm_set = s,
        mm_registries = registries, mm_writes = [], mm_replies = [], mm_reconfigure_replies = [], mm_limits = limits\<rparr>;
     mm_assert_invariants m;
     Some m
   }"

subsection \<open>The generation fence\<close>

definition judge_generation :: "matchmaker \<Rightarrow> matchmaker_generation \<Rightarrow> match_refusal option option" where
  "judge_generation m generation = do {
     let current = mm_set m;
     phase \<leftarrow> mm_phase m;
     case phase of
       Active \<Rightarrow> Some (if ms_generation current = generation then None else Some (Refusal_Generation current))
     | Stopped \<Rightarrow>
         if ms_generation current = generation then Some (Some (Refusal_Stopped (hs_successor (mm_hard m))))
         else (case hs_successor (mm_hard m) of
             Some successor \<Rightarrow> do {
               next \<leftarrow> generation_next (ms_generation current);
               Some (Some (if generation < next then Refusal_Stopped (Some successor) else Refusal_Inactive))
             }
           | None \<Rightarrow> Some (Some (if generation < ms_generation current then Refusal_Generation current else Refusal_Inactive)))
     | _ \<Rightarrow> Some (Some Refusal_Inactive)
   }"

definition generation_refusal :: "matchmaker \<Rightarrow> matchmaker_generation \<Rightarrow> match_refusal option option" where
  "generation_refusal m generation = do {
     refusal \<leftarrow> judge_generation m generation;
     (if refusal = None
      then do {
        phase \<leftarrow> mm_phase m;
        check (phase = Active);
        check (ms_generation (mm_set m) = generation)
      }
      else Some ());
     Some refusal
   }"

definition newer_set :: "matchmaker \<Rightarrow> matchmaker_generation \<Rightarrow> matchmaker_set option option" where
  "newer_set m generation = do {
     refusal \<leftarrow> judge_generation m generation;
     case refusal of
       None \<Rightarrow> Some None
     | Some refusal \<Rightarrow> do {
         let newer = (case refusal of
             Refusal_Stopped successor \<Rightarrow> successor
           | Refusal_Generation current \<Rightarrow> if ms_generation current > generation then Some current else None
           | _ \<Rightarrow> None);
         check (case newer of None \<Rightarrow> True | Some s \<Rightarrow> ms_generation s > generation);
         Some newer
       }
   }"

definition frozen_without_successor :: "matchmaker \<Rightarrow> matchmaker_generation \<Rightarrow> bool option" where
  "frozen_without_successor m generation = do {
     refusal \<leftarrow> judge_generation m generation;
     let frozen = (refusal = Some (Refusal_Stopped None));
     (if frozen
      then do {
        phase \<leftarrow> mm_phase m;
        check (phase = Stopped);
        newer \<leftarrow> newer_set m generation;
        check (newer = None)
      }
      else Some ());
     Some frozen
   }"

subsection \<open>Registration\<close>

definition mm_page :: "matchmaker \<Rightarrow> journal_id \<Rightarrow> ballot option \<Rightarrow> ballot \<Rightarrow> match_outcome option" where
  "mm_page m j cursor ballot = do {
     let watermark = hs_gc_watermark (mm_hard m) j;
     let from_ballot = max (case cursor of None \<Rightarrow> watermark | Some c \<Rightarrow> c) watermark;
     (history, next_from_ballot) \<leftarrow> (case fmlookup (mm_registries m) j of
         Some window \<Rightarrow> do {
           entries \<leftarrow> rw_range window from_ballot ballot;
           history_page entries (lm_registry_page (mm_limits m))
         }
       | None \<Rightarrow> Some (fmempty, None));
     check (from_ballot \<ge> watermark);
     check (list_all (\<lambda>b. b < ballot) (fm_keys history));
     Some (Match_Registered from_ballot history next_from_ballot watermark (hs_effective (mm_hard m) j))
   }"

definition assert_registered_answer ::
  "matchmaker \<Rightarrow> match_outcome \<Rightarrow> journal_id \<Rightarrow> ballot \<Rightarrow> matchmaker_generation \<Rightarrow> unit option" where
  "assert_registered_answer m outcome j ballot generation = (case outcome of
       Match_Registered from_ballot history next_from_ballot _ _ \<Rightarrow> do {
         ledger \<leftarrow> mm_registry m j;
         check (fmlookup ledger ballot \<noteq> None);
         check (list_all (\<lambda>b. b < ballot) (fm_keys history));
         check (list_all (\<lambda>b. b \<ge> hs_gc_watermark (mm_hard m) j) (fm_keys history));
         check (list_all (\<lambda>b. b \<ge> from_ballot) (fm_keys history));
         check (fm_len history \<le> lm_registry_page (mm_limits m));
         check (next_from_ballot \<noteq> None \<longrightarrow> fm_len history = lm_registry_page (mm_limits m));
         check (case next_from_ballot of None \<Rightarrow> True
                | Some next \<Rightarrow> (case fm_last history of None \<Rightarrow> True | Some greatest \<Rightarrow> next > greatest));
         phase \<leftarrow> mm_phase m;
         check (phase = Active);
         check (ms_generation (mm_set m) = generation)
       }
     | _ \<Rightarrow> Some ())"

definition stage_scalars :: "matchmaker \<Rightarrow> matchmaker option" where
  "stage_scalars m = do {
     let writes = length (mm_writes m);
     let m = m\<lparr>mm_writes := mm_writes m @ [SetScalars (mm_hard m)]\<rparr>;
     check (length (mm_writes m) = writes + 1);
     check (last (mm_writes m) = SetScalars (mm_hard m));
     Some m
   }"

definition answer_probe ::
  "matchmaker \<Rightarrow> node_id \<Rightarrow> journal_id \<Rightarrow> ballot \<Rightarrow> matchmaker_generation \<Rightarrow> matchmaker option" where
  "answer_probe m from j ballot generation = do {
     let writes = length (mm_writes m);
     ledger \<leftarrow> mm_registry m j;
     let registered = (fmlookup ledger ballot \<noteq> None);
     refusal \<leftarrow> generation_refusal m generation;
     let outcome = (case refusal of
         Some refusal \<Rightarrow> Match_Refused refusal
       | None \<Rightarrow> Match_Probed (hs_effective (mm_hard m) j));
     check (length (mm_writes m) = writes);
     ledger \<leftarrow> mm_registry m j;
     check ((fmlookup ledger ballot \<noteq> None) = registered);
     let m = m\<lparr>mm_replies := mm_replies m @ [\<lparr>mp_matchmaker = mm_id m, mp_journal = j, mp_to = from,
        mp_ballot = ballot, mp_generation = generation, mp_outcome = outcome\<rparr>]\<rparr>;
     mm_assert_invariants m;
     Some m
   }"

text \<open>A registration of a ballot above every registered one.\<close>

definition register_fresh ::
  "matchmaker \<Rightarrow> journal_id \<Rightarrow> ballot \<Rightarrow> registration \<Rightarrow> ballot option \<Rightarrow> (match_outcome \<times> matchmaker) option" where
  "register_fresh m j ballot registration from_ballot = do {
     page \<leftarrow> mm_page m j from_ballot ballot;
     (w, m) \<leftarrow> mm_window m j;
     (w, previous) \<leftarrow> rw_insert w ballot registration;
     let m = mm_put_window m j w;
     check (previous = None);
     highest \<leftarrow> mm_highest m j;
     check (highest = Some ballot);
     m \<leftarrow> (if kind_is_reconfiguration (rg_kind registration)
           then do {
             (raised, held) \<leftarrow> raise_effective (sc_effective (journal_entry (hs_journals (mm_hard m)) j)) ballot
                                 (rg_config registration);
             let m = m\<lparr>mm_hard := hs_journal_mut (mm_hard m) j (\<lambda>sc. sc\<lparr>sc_effective := held\<rparr>)\<rparr>;
             (if raised then stage_scalars m else Some m)
           }
           else Some m);
     let m = m\<lparr>mm_writes := mm_writes m @ [Register j ballot registration]\<rparr>;
     Some (page, m)
   }"

definition mm_step :: "matchmaker \<Rightarrow> match_request \<Rightarrow> matchmaker option" where
  "mm_step m request = do {
     mm_assert_invariants m;
     let j = mq_journal request;
     let ballot = mq_ballot request;
     let generation = mq_generation request;
     case mq_purpose request of
       Purpose_Probe \<Rightarrow> answer_probe m (mq_from request) j ballot generation
     | Purpose_Register kind \<Rightarrow> do {
         let registration = \<lparr>rg_config = mq_config request, rg_kind = kind\<rparr>;
         refusal \<leftarrow> generation_refusal m generation;
         (outcome, m) \<leftarrow> (case refusal of
             Some refusal \<Rightarrow> Some (Match_Refused refusal, m)
           | None \<Rightarrow>
               if ballot < hs_gc_watermark (mm_hard m) j
               then Some (Match_Refused (Refusal_BelowWatermark (hs_gc_watermark (mm_hard m) j)), m)
               else do {
                 highest \<leftarrow> mm_highest m j;
                 case (case highest of None \<Rightarrow> None | Some h \<Rightarrow> if ballot \<le> h then Some h else None) of
                   Some highest \<Rightarrow> do {
                     ledger \<leftarrow> mm_registry m j;
                     if fmlookup ledger ballot = Some registration
                     then do { page \<leftarrow> mm_page m j (mq_from_ballot request) ballot; Some (page, m) }
                     else Some (Match_Refused (Refusal_Stale highest), m)
                   }
                 | None \<Rightarrow> register_fresh m j ballot registration (mq_from_ballot request)
               });
         assert_registered_answer m outcome j ballot generation;
         let m = m\<lparr>mm_replies := mm_replies m @ [\<lparr>mp_matchmaker = mm_id m, mp_journal = j, mp_to = mq_from request,
            mp_ballot = ballot, mp_generation = generation, mp_outcome = outcome\<rparr>]\<rparr>;
         mm_assert_invariants m;
         Some m
       }
   }"

subsection \<open>Collection\<close>

definition advance_gc_watermark ::
  "matchmaker \<Rightarrow> journal_id \<Rightarrow> matchmaker_generation \<Rightarrow> ballot \<Rightarrow> (gc_outcome \<times> matchmaker) option" where
  "advance_gc_watermark m j generation watermark = do {
     mm_assert_invariants m;
     refusal \<leftarrow> generation_refusal m generation;
     if refusal \<noteq> None then Some (Gc_Refused, m)
     else if watermark \<le> hs_gc_watermark (mm_hard m) j then Some (Gc_Unchanged, m)
     else do {
       let writes = length (mm_writes m);
       let siblings = map (\<lambda>(j, sc). (j, sc_gc_watermark sc)) (filter (\<lambda>(j', _). j' \<noteq> j) (fm_entries (hs_journals (mm_hard m))));
       (w, m) \<leftarrow> mm_window m j;
       w \<leftarrow> rw_raise_floor w watermark;
       let m = mm_put_window m j w;
       let m = m\<lparr>mm_hard := hs_journal_mut (mm_hard m) j (\<lambda>sc. sc\<lparr>sc_gc_watermark := watermark\<rparr>)\<rparr>;
       let m = m\<lparr>mm_writes := mm_writes m @ [SetGcWatermark j watermark]\<rparr>;
       (w, m) \<leftarrow> mm_window m j;
       floor \<leftarrow> rw_floor w;
       check (floor = watermark);
       check (list_all (\<lambda>(j, floor). hs_gc_watermark (mm_hard m) j = floor) siblings);
       check (length (mm_writes m) = writes + 1);
       mm_assert_invariants m;
       Some (Gc_Raised, m)
     }
   }"

definition mm_gc_ack :: "matchmaker \<Rightarrow> gc_request \<Rightarrow> gc_outcome \<Rightarrow> gc_ack option" where
  "mm_gc_ack m request outcome = do {
     let refused = (outcome = Gc_Refused);
     let generation = gq_generation request;
     newer \<leftarrow> (if refused then newer_set m generation else Some None);
     stopped \<leftarrow> (if refused then frozen_without_successor m generation else Some False);
     let ack = \<lparr>ga_matchmaker = mm_id m, ga_journal = gq_journal request, ga_generation = generation, ga_applied = (\<not> refused),
        ga_watermark = hs_gc_watermark (mm_hard m) (gq_journal request), ga_newer = newer, ga_stopped = stopped\<rparr>;
     (if ga_applied ack then Some ()
      else do { refusal \<leftarrow> generation_refusal m generation; check (refusal \<noteq> None) });
     check (\<not> ga_stopped ack \<or> ga_newer ack = None);
     check (\<not> ga_applied ack \<or> ga_watermark ack \<ge> gq_watermark request);
     Some ack
   }"

subsection \<open>Frozen pages\<close>

definition frozen_page ::
  "matchmaker \<Rightarrow> journal_id option \<Rightarrow> nat \<Rightarrow> ((journal_id, journal_registry) fmap \<times> journal_id option) option" where
  "frozen_page m after page = do {
     check (page > 0);
     journals \<leftarrow> mm_journals m;
     reported \<leftarrow> try_map (\<lambda>j. do {
         ledger \<leftarrow> mm_registry m j;
         Some (j, \<lparr>jr_gc_watermark = hs_gc_watermark (mm_hard m) j, jr_history = ledger, jr_effective = hs_effective (mm_hard m) j\<rparr>)
       }) (filter (past after) journals);
     let above = filter (\<lambda>(_, r). \<not> jr_is_blank r) reported;
     let registries = fmap_of_list (take page above);
     let next = (if drop page above \<noteq> [] then fm_last registries else None);
     check (list_all (\<lambda>(_, r). case fm_first (jr_history r) of None \<Rightarrow> True | Some b \<Rightarrow> b \<ge> jr_gc_watermark r) (fm_entries registries));
     (if next \<noteq> None
      then do {
        check (fm_len registries = page);
        check (next = fm_last registries)
      }
      else Some ());
     Some (registries, next)
   }"

subsection \<open>The batch\<close>

definition scalars_covered :: "matchmaker_hard_state \<Rightarrow> matchmaker_hard_state \<Rightarrow> bool" where
  "scalars_covered held scalars = list_all (\<lambda>(j, s). sc_gc_watermark s \<le> hs_gc_watermark held j) (fm_entries (hs_journals scalars))"

definition write_covered :: "matchmaker_hard_state \<Rightarrow> matchmaker_write \<Rightarrow> bool" where
  "write_covered held op = (case op of
       Register _ _ _ \<Rightarrow> True
     | SetGcWatermark j watermark \<Rightarrow> watermark \<le> hs_gc_watermark held j
     | SetScalars scalars \<Rightarrow> scalars_covered held scalars
     | InstallRegistry scalars _ \<Rightarrow> scalars_covered held scalars)"

definition ready_writes :: "matchmaker \<Rightarrow> matchmaker_write list option" where
  "ready_writes m = do {
     check (list_all (write_covered (mm_hard m)) (mm_writes m));
     Some (mm_writes m)
   }"

definition ready_replies :: "matchmaker \<Rightarrow> match_reply list option" where
  "ready_replies m = do {
     check (list_all (\<lambda>r. mp_matchmaker r = mm_id m) (mm_replies m));
     Some (mm_replies m)
   }"

definition ready_reconfigure_replies :: "matchmaker \<Rightarrow> reconfigure_reply list option" where
  "ready_reconfigure_replies m = do {
     check (list_all (\<lambda>r. re_matchmaker r = mm_id m) (mm_reconfigure_replies m));
     Some (mm_reconfigure_replies m)
   }"

definition ready_advance :: "matchmaker \<Rightarrow> matchmaker option" where
  "ready_advance m = do {
     let m = m\<lparr>mm_writes := [], mm_replies := [], mm_reconfigure_replies := []\<rparr>;
     check (mm_writes m = []);
     check (mm_replies m = []);
     Some m
   }"

end
