(* ===== verification/Generation.thy ===== *)
theory Generation
  imports Matchmaker
begin

section \<open>The generation machine\<close>

text \<open>
  \<^verbatim>\<open>paros-core/src/matchmaker/generation.rs\<close>: the five messages of a handover as one matchmaker answers
  them. \<^verbatim>\<open>Stop\<close> freezes a generation and reports its registry, \<^verbatim>\<open>Bootstrap\<close> holds a proposed successor,
  \<^verbatim>\<open>DecreePrepare\<close> and \<^verbatim>\<open>DecreeAccept\<close> are an acceptor over one slot, and \<^verbatim>\<open>Chosen\<close> records the successor or
  activates it.
\<close>

definition DECREE_SLOT :: slot where
  "DECREE_SLOT = 0"

definition mm_refusal :: "matchmaker \<Rightarrow> reconfigure_reply option" where
  "mm_refusal m = do {
     check (ms_generation (mm_set m) = hs_generation (mm_hard m));
     phase \<leftarrow> mm_phase m;
     Some (Re_Refused (mm_id m) (mm_set m) phase (hs_successor (mm_hard m)))
   }"

text \<open>A refusal leaves the matchmaker as it is.\<close>

definition refuse :: "matchmaker \<Rightarrow> (reconfigure_reply \<times> matchmaker) option" where
  "refuse m = do { reply \<leftarrow> mm_refusal m; Some (reply, m) }"

definition serves_handover_of :: "matchmaker \<Rightarrow> matchmaker_generation \<Rightarrow> bool option" where
  "serves_handover_of m generation = do {
     serves \<leftarrow> (if ms_generation (mm_set m) = generation
                then do { phase \<leftarrow> mm_phase m; Some (phase = Active \<or> phase = Stopped) }
                else Some False);
     (if serves then do { member \<leftarrow> ms_contains (mm_set m) (mm_id m); check member } else Some ());
     Some serves
   }"

definition freeze :: "matchmaker \<Rightarrow> matchmaker option" where
  "freeze m = do {
     let s = mm_set m;
     members \<leftarrow> ms_members' s;
     let m = m\<lparr>mm_hard := (mm_hard m)\<lparr>hs_generation := ms_generation s, hs_members := members, hs_phase := Stopped\<rparr>\<rparr>;
     m \<leftarrow> mm_refresh_set m;
     m \<leftarrow> stage_scalars m;
     check (mm_set m = s);
     phase \<leftarrow> mm_phase m;
     check (phase = Stopped);
     Some m
   }"

definition on_stop ::
  "matchmaker \<Rightarrow> matchmaker_generation \<Rightarrow> journal_id option \<Rightarrow> (reconfigure_reply \<times> matchmaker) option" where
  "on_stop m generation after = do {
     serves \<leftarrow> serves_handover_of m generation;
     if \<not> serves then refuse m
     else do {
       phase \<leftarrow> mm_phase m;
       m \<leftarrow> (if phase = Active then freeze m else Some m);
       phase \<leftarrow> mm_phase m;
       check (phase = Stopped);
       (registries, next) \<leftarrow> frozen_page m after (lm_registry_page (mm_limits m));
       Some (Re_Stopped (mm_id m) generation after next registries (hs_successor (mm_hard m)) (dr_promised (hs_decree (mm_hard m))), m)
     }
   }"

definition on_bootstrap :: "matchmaker \<Rightarrow> bootstrap_page \<Rightarrow> (reconfigure_reply \<times> matchmaker) option" where
  "on_bootstrap m page = do {
     let me = mm_id m;
     let current_generation = ms_generation (mm_set m);
     let s = bp_set page;
     let settled = (case hs_successor (mm_hard m) of None \<Rightarrow> False
                    | Some succ \<Rightarrow> ms_generation s \<le> ms_generation succ \<and> s \<noteq> succ);
     member \<leftarrow> ms_contains s me;
     if \<not> member \<or> ms_generation s \<le> current_generation \<or> settled then refuse m
     else do {
       let held = find (\<lambda>p. pb_set p = s) (hs_pending (mm_hard m));
       let whole = (case held of None \<Rightarrow> False | Some p \<Rightarrow> pb_complete p);
       let fits = (bp_is_well_formed page \<and> \<not> whole \<and>
         (bp_after page = None \<or> (case held of None \<Rightarrow> False | Some p \<Rightarrow> pb_held p = bp_after page)));
       m \<leftarrow> (if fits
             then do {
               let registries = (case (bp_after page, held) of (Some _, Some p) \<Rightarrow> pb_registries p | _ \<Rightarrow> fmempty);
               let registries = registries ++\<^sub>f bp_registries page;
               let bootstrap = \<lparr>pb_set = s, pb_registries = registries, pb_complete = bp_last page\<rparr>;
               let pending = (if held = None then hs_pending (mm_hard m) @ [bootstrap]
                              else (hs_pending (mm_hard m))[length (takeWhile (\<lambda>p. pb_set p \<noteq> s) (hs_pending (mm_hard m))) := bootstrap]);
               stage_scalars (m\<lparr>mm_hard := (mm_hard m)\<lparr>hs_pending := pending\<rparr>\<rparr>)
             }
             else Some m);
       check (length (filter (\<lambda>p. pb_set p = s) (hs_pending (mm_hard m))) \<le> 1);
       check (ms_generation s > current_generation);
       let held = find (\<lambda>p. pb_set p = s) (hs_pending (mm_hard m));
       check (whole \<longrightarrow> (case held of None \<Rightarrow> False | Some p \<Rightarrow> pb_complete p));
       Some (Re_Bootstrapped me s (case held of None \<Rightarrow> None | Some p \<Rightarrow> pb_held p)
               (case held of None \<Rightarrow> False | Some p \<Rightarrow> pb_complete p), m)
     }
   }"

subsection \<open>The successor decree\<close>

definition decree_acceptor :: "matchmaker \<Rightarrow> matchmaker_id list acceptor option" where
  "decree_acceptor m = do {
     let decree = hs_decree (mm_hard m);
     let records = (case dr_vote decree of None \<Rightarrow> fmempty | Some vote \<Rightarrow> fmupd DECREE_SLOT vote fmempty);
     a \<leftarrow> acceptor_new (dr_promised decree) records DECREE_SLOT fmempty;
     promised \<leftarrow> acceptor_promised a;
     check (promised = dr_promised decree);
     record \<leftarrow> acceptor_record a DECREE_SLOT;
     check (record = dr_vote decree);
     Some a
   }"

definition store_decree ::
  "matchmaker \<Rightarrow> matchmaker_id list acceptor \<Rightarrow> matchmaker_id list acceptor_write list \<Rightarrow> matchmaker option" where
  "store_decree m a writes =
     (if writes = [] then Some m
      else do {
        let promised = dr_promised (hs_decree (mm_hard m));
        new_promise \<leftarrow> acceptor_promised a;
        new_vote \<leftarrow> acceptor_record a DECREE_SLOT;
        m \<leftarrow> stage_scalars (m\<lparr>mm_hard := (mm_hard m)\<lparr>hs_decree := \<lparr>dr_promised = new_promise, dr_vote = new_vote\<rparr>\<rparr>\<rparr>);
        check (dr_promised (hs_decree (mm_hard m)) \<ge> promised);
        check (case dr_vote (hs_decree (mm_hard m)) of None \<Rightarrow> True | Some (b, _) \<Rightarrow> b \<le> dr_promised (hs_decree (mm_hard m)));
        Some m
      })"

definition on_decree_prepare ::
  "matchmaker \<Rightarrow> matchmaker_generation \<Rightarrow> ballot \<Rightarrow> (reconfigure_reply \<times> matchmaker) option" where
  "on_decree_prepare m generation ballot = do {
     serves \<leftarrow> serves_handover_of m generation;
     if \<not> serves then refuse m
     else do {
       let me = mm_id m;
       a \<leftarrow> decree_acceptor m;
       (outcome, a, writes) \<leftarrow> acceptor_prepare id a ballot DECREE_SLOT [];
       case outcome of
         Promised _ \<Rightarrow> do {
           vote \<leftarrow> acceptor_record a DECREE_SLOT;
           m \<leftarrow> store_decree m a writes;
           check (dr_promised (hs_decree (mm_hard m)) = ballot);
           Some (Re_Promised me generation ballot vote, m)
         }
       | _ \<Rightarrow> do {
           promised \<leftarrow> acceptor_promised a;
           check (promised > ballot);
           Some (Re_Nacked me generation ballot promised, m)
         }
     }
   }"

definition on_decree_accept ::
  "matchmaker \<Rightarrow> matchmaker_generation \<Rightarrow> ballot \<Rightarrow> matchmaker_id list \<Rightarrow> (reconfigure_reply \<times> matchmaker) option" where
  "on_decree_accept m generation ballot members = do {
     serves \<leftarrow> serves_handover_of m generation;
     if \<not> serves then refuse m
     else do {
       let me = mm_id m;
       let members = remdups_adj (sort members);
       a \<leftarrow> decree_acceptor m;
       outcome \<leftarrow> acceptor_admit a ballot DECREE_SLOT;
       case outcome of
         Admitted \<Rightarrow> do {
           (a, writes) \<leftarrow> acceptor_set_promise id a ballot [];
           (_, a, writes) \<leftarrow> acceptor_record_accepted id a DECREE_SLOT ballot members writes;
           m \<leftarrow> store_decree m a writes;
           check (dr_promised (hs_decree (mm_hard m)) = ballot);
           check (case dr_vote (hs_decree (mm_hard m)) of None \<Rightarrow> False | Some (b, _) \<Rightarrow> b = ballot);
           Some (Re_Accepted me generation ballot, m)
         }
       | _ \<Rightarrow> do {
           promised \<leftarrow> acceptor_promised a;
           check (promised > ballot);
           Some (Re_Nacked me generation ballot promised, m)
         }
     }
   }"

subsection \<open>The chosen successor\<close>

definition prune_settled_pending :: "matchmaker \<Rightarrow> matchmaker_set \<Rightarrow> (bool \<times> matchmaker) option" where
  "prune_settled_pending m successor = do {
     let before = length (hs_pending (mm_hard m));
     let m = m\<lparr>mm_hard := (mm_hard m)\<lparr>hs_pending :=
        filter (\<lambda>p. ms_generation (pb_set p) > ms_generation successor \<or> pb_set p = successor) (hs_pending (mm_hard m))\<rparr>\<rparr>;
     check (list_all (\<lambda>p. pb_set p = successor)
              (filter (\<lambda>p. ms_generation (pb_set p) = ms_generation successor) (hs_pending (mm_hard m))));
     check (length (hs_pending (mm_hard m)) \<le> before);
     Some (length (hs_pending (mm_hard m)) \<noteq> before, m)
   }"

text \<open>One journal of an activated bootstrap, merged with the scalars this matchmaker already holds.\<close>

definition activate_journal ::
  "journal_id \<times> journal_registry \<Rightarrow> (journal_id, journal_scalars) fmap \<times> (journal_id, ledger) fmap \<Rightarrow>
   ((journal_id, journal_scalars) fmap \<times> (journal_id, ledger) fmap) option" where
  "activate_journal = (\<lambda>(j, reconstructed) (journals, registries). do {
     let held = journal_entry journals j;
     let local = sc_gc_watermark held;
     let watermark = max (jr_gc_watermark reconstructed) local;
     held \<leftarrow> (case jr_effective reconstructed of
         None \<Rightarrow> Some held
       | Some (theirs, other) \<Rightarrow> do {
           (_, effective) \<leftarrow> raise_effective (sc_effective held) theirs other;
           Some (held\<lparr>sc_effective := effective\<rparr>)
         });
     let registry = fm_from watermark (jr_history reconstructed);
     check (watermark \<ge> jr_gc_watermark reconstructed);
     check (watermark \<ge> local);
     check (list_all (\<lambda>b. b \<ge> watermark) (fm_keys registry));
     let held = held\<lparr>sc_gc_watermark := watermark\<rparr>;
     Some (fmupd j held journals, if registry \<noteq> fmempty then fmupd j registry registries else registries)
   })"

definition activate :: "matchmaker \<Rightarrow> matchmaker_set \<Rightarrow> (bool \<times> matchmaker) option" where
  "activate m successor = do {
     member \<leftarrow> ms_contains successor (mm_id m);
     if \<not> member \<or> ms_generation successor \<le> ms_generation (mm_set m) then Some (False, m)
     else (case find (\<lambda>p. pb_set p = successor \<and> pb_complete p) (hs_pending (mm_hard m)) of
         None \<Rightarrow> Some (False, m)
       | Some bootstrap \<Rightarrow> do {
           let m = m\<lparr>mm_hard := (mm_hard m)\<lparr>hs_pending := remove1 bootstrap (hs_pending (mm_hard m))\<rparr>\<rparr>;
           check (pb_complete bootstrap);
           (journals, registries) \<leftarrow> try_fold activate_journal (fm_entries (pb_registries bootstrap)) (hs_journals (mm_hard m), fmempty);
           members \<leftarrow> ms_members' successor;
           let m = m\<lparr>mm_hard := \<lparr>hs_generation = ms_generation successor, hs_members = members, hs_phase = Active,
              hs_successor = None, hs_decree = decree_record_default,
              hs_pending = filter (\<lambda>p. ms_generation (pb_set p) > ms_generation successor) (hs_pending (mm_hard m)),
              hs_journals = journals\<rparr>\<rparr>;
           m \<leftarrow> mm_refresh_set m;
           opened \<leftarrow> try_map (\<lambda>(j, scalars). do {
               let ledger = (case fmlookup registries j of None \<Rightarrow> fmempty | Some l \<Rightarrow> l);
               w \<leftarrow> rw_new ledger (sc_gc_watermark scalars);
               Some (j, w)
             }) (fm_entries (hs_journals (mm_hard m)));
           let m = m\<lparr>mm_registries := fmap_of_list opened\<rparr>;
           let m = m\<lparr>mm_writes := mm_writes m @ [InstallRegistry (mm_hard m) registries]\<rparr>;
           check (mm_set m = successor);
           phase \<leftarrow> mm_phase m;
           check (phase = Active);
           check (hs_successor (mm_hard m) = None);
           Some (True, m)
         })
   }"

definition on_chosen ::
  "matchmaker \<Rightarrow> matchmaker_generation \<Rightarrow> matchmaker_set \<Rightarrow> (reconfigure_reply \<times> matchmaker) option" where
  "on_chosen m generation successor = do {
     let me = mm_id m;
     let current = mm_set m;
     phase \<leftarrow> mm_phase m;
     next \<leftarrow> generation_next generation;
     if ms_generation successor \<noteq> next then refuse m
     else if current = successor then Some (Re_Learned me generation False (ms_generation current), m)
     else do {
       serves \<leftarrow> serves_handover_of m generation;
       if serves then
         if (case hs_successor (mm_hard m) of None \<Rightarrow> False | Some recorded \<Rightarrow> recorded \<noteq> successor) then refuse m
         else do {
           (changed, m) \<leftarrow> (if hs_successor (mm_hard m) = None
               then do {
                 m \<leftarrow> (if phase = Active then freeze m else Some m);
                 Some (True, m\<lparr>mm_hard := (mm_hard m)\<lparr>hs_successor := Some successor\<rparr>\<rparr>)
               }
               else Some (False, m));
           (pruned, m) \<leftarrow> prune_settled_pending m successor;
           m \<leftarrow> (if changed \<or> pruned then stage_scalars m else Some m);
           (activated, m) \<leftarrow> activate m successor;
           (if activated then check (mm_set m = successor) else check (hs_successor (mm_hard m) = Some successor));
           Some (Re_Learned me generation activated (ms_generation (mm_set m)), m)
         }
       else if ms_generation successor > ms_generation current \<or> phase = Inactive \<or> phase = Fresh then do {
         (pruned, m) \<leftarrow> prune_settled_pending m successor;
         (activated, m) \<leftarrow> activate m successor;
         if activated then do {
           check (mm_set m = successor);
           phase \<leftarrow> mm_phase m;
           check (phase = Active);
           Some (Re_Learned me generation activated (ms_generation (mm_set m)), m)
         }
         else do {
           m \<leftarrow> (if pruned then stage_scalars m else Some m);
           refuse m
         }
       }
       else refuse m
     }
   }"

definition step_reconfigure :: "matchmaker \<Rightarrow> reconfigure_request \<Rightarrow> matchmaker option" where
  "step_reconfigure m request = do {
     mm_assert_invariants m;
     let replies = length (mm_reconfigure_replies m);
     let floors = map (\<lambda>(j, sc). (j, sc_gc_watermark sc)) (fm_entries (hs_journals (mm_hard m)));
     let generation = hs_generation (mm_hard m);
     (reply, m) \<leftarrow> (case request of
         Req_Stop _ generation after \<Rightarrow> on_stop m generation after
       | Req_Bootstrap _ page \<Rightarrow> on_bootstrap m page
       | Req_DecreePrepare _ generation ballot \<Rightarrow> on_decree_prepare m generation ballot
       | Req_DecreeAccept _ generation ballot members \<Rightarrow> on_decree_accept m generation ballot members
       | Req_Chosen _ generation successor \<Rightarrow> on_chosen m generation successor);
     check (re_matchmaker reply = mm_id m);
     let m = m\<lparr>mm_reconfigure_replies := mm_reconfigure_replies m @ [reply]\<rparr>;
     check (length (mm_reconfigure_replies m) = replies + 1);
     check (list_all (\<lambda>(j, floor). hs_gc_watermark (mm_hard m) j \<ge> floor) floors);
     check (hs_generation (mm_hard m) \<ge> generation);
     mm_assert_invariants m;
     Some m
   }"

end
