(* ===== verification/Matchmaker_Inv.thy ===== *)
theory Matchmaker_Inv
  imports Matchmaker
begin

section \<open>The invariant of a matchmaker\<close>

text \<open>
  What \<open>mm_assert_invariants\<close> samples, made inductive. Two contracts of the callers are parameters:
  \<open>T\<close> gives the one registration a ballot of a journal proposes, \<open>D\<close> the one set a ballot of a generation's
  successor decree proposes. Under them no operation of the registry panics, every operation keeps the
  invariant, and the writes it stages rebuild the matchmaker it leaves.
\<close>

type_synonym proposals = "journal_id \<Rightarrow> ballot \<Rightarrow> registration"
type_synonym decrees = "matchmaker_generation \<Rightarrow> ballot \<Rightarrow> matchmaker_id list"

definition ledger_agrees :: "(ballot \<Rightarrow> registration) \<Rightarrow> ledger \<Rightarrow> bool" where
  "ledger_agrees T l \<longleftrightarrow> (\<forall>b r. fmlookup l b = Some r \<longrightarrow> r = T b)"

definition effective_agrees :: "(ballot \<Rightarrow> registration) \<Rightarrow> effective_config \<Rightarrow> bool" where
  "effective_agrees T e \<longleftrightarrow> (\<forall>b c. e = Some (b, c) \<longrightarrow> T b = \<lparr>rg_config = c, rg_kind = Reconfiguration\<rparr>)"

definition registries_ok ::
  "proposals \<Rightarrow> matchmaker_hard_state \<Rightarrow> (journal_id, (ballot, registration) retained_window) fmap \<Rightarrow> bool" where
  "registries_ok T h regs \<longleftrightarrow>
     (\<forall>j w. fmlookup regs j = Some w \<longrightarrow> rw_ok w \<and> rw_base w = hs_gc_watermark h j \<and> ledger_agrees (T j) (rw_map w) \<and>
        (rw_map w = fmempty \<longrightarrow> fmlookup (hs_journals h) j \<noteq> None)) \<and>
     (\<forall>j sc. fmlookup (hs_journals h) j = Some sc \<longrightarrow> fmlookup regs j \<noteq> None \<and> effective_agrees (T j) (sc_effective sc))"

definition pending_ok :: "proposals \<Rightarrow> matchmaker_id \<Rightarrow> matchmaker_generation \<Rightarrow> pending_bootstrap \<Rightarrow> bool" where
  "pending_ok T mm g p \<longleftrightarrow> ms_ok (pb_set p) \<and> g < ms_generation (pb_set p) \<and> ms_generation (pb_set p) < u64_max \<and>
     mm \<in> set (ms_members (pb_set p)) \<and>
     (\<forall>j r. fmlookup (pb_registries p) j = Some r \<longrightarrow> ledger_agrees (T j) (jr_history r) \<and> effective_agrees (T j) (jr_effective r))"

definition decree_ok :: "(ballot \<Rightarrow> matchmaker_id list) \<Rightarrow> decree_record \<Rightarrow> bool" where
  "decree_ok D d \<longleftrightarrow> (\<forall>b v. dr_vote d = Some (b, v) \<longrightarrow> b \<le> dr_promised d \<and> v = D b)"

definition bootstrap_ok :: "matchmaker_id list \<Rightarrow> bool" where
  "bootstrap_ok bs \<longleftrightarrow> sorted_wrt (<) bs \<and> bs \<noteq> [] \<and> length bs \<le> isize_max"

definition membership_ok :: "matchmaker_config \<Rightarrow> matchmaker_hard_state \<Rightarrow> matchmaker_set \<Rightarrow> bool" where
  "membership_ok cfg h s \<longleftrightarrow>
     s = \<lparr>ms_generation = hs_generation h, ms_members = (if hs_members h = [] then mc_bootstrap cfg else hs_members h)\<rparr> \<and>
     sorted_wrt (<) (hs_members h) \<and> length (hs_members h) \<le> isize_max \<and>
     (hs_members h = [] \<longrightarrow> hs_generation h = 0 \<and> (hs_phase h = Fresh \<or> hs_phase h = Inactive)) \<and>
     (hs_phase h = Fresh \<longrightarrow> hs_members h = []) \<and>
     (hs_phase h = Active \<or> hs_phase h = Stopped \<longrightarrow> mc_id cfg \<in> set (hs_members h)) \<and>
     hs_generation h < u64_max"

definition successor_ok :: "matchmaker_hard_state \<Rightarrow> bool" where
  "successor_ok h \<longleftrightarrow> (\<forall>s. hs_successor h = Some s \<longrightarrow> ms_ok s \<and> ms_generation s = hs_generation h + 1 \<and> hs_phase h = Stopped \<and>
     (\<forall>p \<in> set (hs_pending h). ms_generation (pb_set p) > ms_generation s \<or> pb_set p = s))"

definition handover_ok :: "proposals \<Rightarrow> decrees \<Rightarrow> matchmaker_config \<Rightarrow> matchmaker_hard_state \<Rightarrow> matchmaker_set \<Rightarrow> bool" where
  "handover_ok T D cfg h s \<longleftrightarrow> bootstrap_ok (mc_bootstrap cfg) \<and> membership_ok cfg h s \<and> successor_ok h \<and>
     (\<forall>p \<in> set (hs_pending h). pending_ok T (mc_id cfg) (hs_generation h) p) \<and> distinct (map pb_set (hs_pending h)) \<and>
     decree_ok (D (hs_generation h)) (hs_decree h)"

definition mm_ok :: "proposals \<Rightarrow> decrees \<Rightarrow> matchmaker \<Rightarrow> bool" where
  "mm_ok T D m \<longleftrightarrow> limits_ok (mm_limits m) \<and> registries_ok T (mm_hard m) (mm_registries m) \<and>
     handover_ok T D (mm_config m) (mm_hard m) (mm_set m)"

text \<open>The handover does not read the journals.\<close>

lemma handover_ok_journals:
  assumes "handover_ok T D cfg h s" "hs_generation h' = hs_generation h" "hs_members h' = hs_members h" "hs_phase h' = hs_phase h"
    "hs_successor h' = hs_successor h" "hs_decree h' = hs_decree h" "hs_pending h' = hs_pending h"
  shows "handover_ok T D cfg h' s"
  using assms(1) unfolding handover_ok_def membership_ok_def successor_ok_def assms(2-) .

lemma mm_okD:
  assumes "mm_ok T D m"
  shows "limits_ok (mm_limits m)" "registries_ok T (mm_hard m) (mm_registries m)"
    "handover_ok T D (mm_config m) (mm_hard m) (mm_set m)" "bootstrap_ok (mm_bootstrap m)"
    "membership_ok (mm_config m) (mm_hard m) (mm_set m)" "successor_ok (mm_hard m)"
    "decree_ok (D (hs_generation (mm_hard m))) (hs_decree (mm_hard m))"
    "\<forall>p \<in> set (hs_pending (mm_hard m)). pending_ok T (mm_id m) (hs_generation (mm_hard m)) p"
    "distinct (map pb_set (hs_pending (mm_hard m)))"
  using assms by (simp_all add: mm_ok_def handover_ok_def)

lemma registries_okD:
  assumes "registries_ok T h regs" "fmlookup regs j = Some w"
  shows "rw_ok w" "rw_base w = hs_gc_watermark h j" "ledger_agrees (T j) (rw_map w)"
    "rw_map w = fmempty \<Longrightarrow> fmlookup (hs_journals h) j \<noteq> None"
  using assms by (auto simp: registries_ok_def)

lemma registries_ok_journal:
  assumes "registries_ok T h regs" "fmlookup (hs_journals h) j = Some sc"
  shows "fmlookup regs j \<noteq> None" "effective_agrees (T j) (sc_effective sc)"
  using assms by (simp_all add: registries_ok_def)

lemma effective_ok: "registries_ok T h regs \<Longrightarrow> effective_agrees (T j) (hs_effective h j)"
  by (cases "fmlookup (hs_journals h) j") (auto simp: hs_effective_def effective_agrees_def dest: registries_ok_journal(2))

lemma membership_set:
  assumes "membership_ok cfg h s" "bootstrap_ok (mc_bootstrap cfg)"
  shows "ms_ok s" "resolved_set h (mc_bootstrap cfg) = Some s" "ms_generation s = hs_generation h" "hs_generation h < u64_max"
proof -
  show "ms_ok s" using assms by (auto simp: membership_ok_def bootstrap_ok_def ms_ok_def)
  show "resolved_set h (mc_bootstrap cfg) = Some s"
    using assms by (subst resolved_set_total) (auto simp: membership_ok_def bootstrap_ok_def)
  show "ms_generation s = hs_generation h" "hs_generation h < u64_max" using assms by (simp_all add: membership_ok_def)
qed

lemma mm_set_ok:
  assumes "mm_ok T D m"
  shows "ms_ok (mm_set m)" "mm_derive_set m = Some (mm_set m)" "ms_generation (mm_set m) = hs_generation (mm_hard m)"
    "hs_generation (mm_hard m) < u64_max"
  using membership_set[OF mm_okD(5,4)[OF assms]] by (simp_all add: mm_derive_set_def)

lemma mm_generation_next:
  "mm_ok T D m \<Longrightarrow> generation_next (hs_generation (mm_hard m)) = Some (hs_generation (mm_hard m) + 1)"
  using mm_set_ok(4)[of T D m] by (simp add: generation_next_total saturating_add64_def)

subsection \<open>Reads\<close>

definition mm_ledger :: "matchmaker \<Rightarrow> journal_id \<Rightarrow> ledger" where
  "mm_ledger m j = (case fmlookup (mm_registries m) j of None \<Rightarrow> fmempty | Some w \<Rightarrow> rw_map w)"

definition mm_phase_of :: "matchmaker \<Rightarrow> matchmaker_phase" where
  "mm_phase_of m = (if hs_phase (mm_hard m) = Fresh then (if mm_id m \<in> set (mm_bootstrap m) then Active else Inactive)
     else hs_phase (mm_hard m))"

abbreviation mm_gc :: "matchmaker \<Rightarrow> journal_id \<Rightarrow> ballot" where
  "mm_gc m \<equiv> hs_gc_watermark (mm_hard m)"

lemma mm_phase_total [total_simps]: "mm_phase m = Some (mm_phase_of m)"
  by (simp add: mm_phase_def mm_phase_of_def resolved_phase_total)

lemma mm_registry_total [total_simps]: "mm_ok T D m \<Longrightarrow> mm_registry m j = Some (mm_ledger m j)"
  by (auto simp: mm_registry_def mm_ledger_def rw_read_total registries_okD[OF mm_okD(2)] split: option.split)

lemma mm_ledger_agrees: "mm_ok T D m \<Longrightarrow> ledger_agrees (T j) (mm_ledger m j)"
  by (auto simp: mm_ledger_def ledger_agrees_def split: option.splits
      dest!: registries_okD(3)[OF mm_okD(2)])

lemma mm_ledger_floor: "mm_ok T D m \<Longrightarrow> b \<in> fmdom' (mm_ledger m j) \<Longrightarrow> mm_gc m j \<le> b"
  using registries_okD(1,2)[OF mm_okD(2), of T D m j]
  by (auto simp: mm_ledger_def rw_ok_def split: option.splits)

lemma mm_highest_total [total_simps]:
  assumes "mm_ok T D m"
  shows "mm_highest m j = Some (fm_last (mm_ledger m j))"
proof -
  have "(case fmlookup (mm_registries m) j of None \<Rightarrow> Some None | Some w \<Rightarrow> rw_last_key w) = Some (fm_last (mm_ledger m j))"
    using registries_okD(1)[OF mm_okD(2)[OF assms], of j] by (auto simp: mm_ledger_def rw_last_key_total split: option.split)
  then show ?thesis
    using mm_ledger_floor[OF assms] fm_last_SomeD(1)[of "mm_ledger m j"]
    by (auto simp: mm_highest_def split: option.split)
qed

lemma try_fold_unit: "(\<And>c. c \<in> set cs \<Longrightarrow> f c () = Some ()) \<Longrightarrow> try_fold f cs () = Some ()"
  by (induction cs) auto

lemma mm_assert_total [total_simps]:
  assumes "mm_ok T D m"
  shows "mm_assert_invariants m = Some ()"
proof -
  note ok = mm_okD[OF assms]
  have limits: "lm_registry_page (mm_limits m) > 0" "lm_registry_page (mm_limits m) \<le> REGISTRY_PAGE"
    using ok(1) by (simp_all add: limits_ok_def)
  have windows: "try_fold (\<lambda>(j, window) _. do {
         let watermark = mm_gc m j;
         first \<leftarrow> rw_first_key window;
         check (case first of None \<Rightarrow> True | Some lowest \<Rightarrow> lowest \<ge> watermark);
         floor \<leftarrow> rw_floor window;
         check (floor = watermark)
       }) (fm_entries (mm_registries m)) () = Some ()"
  proof (rule try_fold_unit, clarify)
    fix j w assume "(j, w) \<in> set (fm_entries (mm_registries m))"
    then have w: "rw_ok w" "rw_base w = mm_gc m j" using registries_okD[OF ok(2)] by auto
    then have "case fm_first (rw_map w) of None \<Rightarrow> True | Some k \<Rightarrow> mm_gc m j \<le> k" by (simp add: fm_first_is_none_or rw_ok_def)
    then show "(let watermark = mm_gc m j in do {
         first \<leftarrow> rw_first_key w;
         check (case first of None \<Rightarrow> True | Some lowest \<Rightarrow> lowest \<ge> watermark);
         floor \<leftarrow> rw_floor w;
         check (floor = watermark)
       }) = Some ()" using w by (simp add: rw_read_total)
  qed
  have eff: "try_fold (\<lambda>(j, scalars) _. (case sc_effective scalars of
         None \<Rightarrow> Some ()
       | Some (ballot, config) \<Rightarrow> do {
           ledger \<leftarrow> mm_registry m j;
           check (case fmlookup ledger ballot of None \<Rightarrow> True
                  | Some r \<Rightarrow> kind_is_reconfiguration (rg_kind r) \<and> rg_config r = config)
         })) (fm_entries (hs_journals (mm_hard m))) () = Some ()"
  proof (rule try_fold_unit, clarify)
    fix j sc assume "(j, sc) \<in> set (fm_entries (hs_journals (mm_hard m)))"
    then have "effective_agrees (T j) (sc_effective sc)" using registries_ok_journal[OF ok(2)] by auto
    then show "(case sc_effective sc of
         None \<Rightarrow> Some ()
       | Some (ballot, config) \<Rightarrow> do {
           ledger \<leftarrow> mm_registry m j;
           check (case fmlookup ledger ballot of None \<Rightarrow> True
                  | Some r \<Rightarrow> kind_is_reconfiguration (rg_kind r) \<and> rg_config r = config)
         }) = Some ()"
      using mm_ledger_agrees[OF assms, of j]
      by (auto simp: mm_registry_total[OF assms] effective_agrees_def ledger_agrees_def split: option.split)
  qed
  have pend: "try_all (\<lambda>p. ms_contains (pb_set p) (mm_id m)) (hs_pending (mm_hard m)) = Some True"
    using ok(8) try_all_total[of "hs_pending (mm_hard m)" "\<lambda>p. ms_contains (pb_set p) (mm_id m)" "\<lambda>_. True"]
    by (simp add: pending_ok_def ms_contains_total)
  have "list_all (\<lambda>j. fmlookup (mm_registries m) j \<noteq> None) (fm_keys (hs_journals (mm_hard m)))"
    using registries_ok_journal(1)[OF ok(2)] by (force simp: list_all_iff fmlookup_dom'_iff)
  moreover have "list_all (\<lambda>p. ms_generation (pb_set p) > ms_generation (mm_set m)) (hs_pending (mm_hard m))"
    using ok(8) mm_set_ok(3)[OF assms] by (simp add: list_all_iff pending_ok_def)
  moreover have "hs_generation (mm_hard m) > 0 \<longrightarrow> hs_members (mm_hard m) \<noteq> [] \<and> hs_phase (mm_hard m) \<noteq> Fresh"
    using ok(5) by (auto simp: membership_ok_def)
  moreover have "(case hs_successor (mm_hard m) of
        None \<Rightarrow> Some ()
      | Some successor \<Rightarrow> do {
          next \<leftarrow> generation_next (hs_generation (mm_hard m));
          check (ms_generation successor = next);
          check (hs_phase (mm_hard m) = Stopped);
          check (list_all (\<lambda>p. ms_generation (pb_set p) > ms_generation successor \<or> pb_set p = successor) (hs_pending (mm_hard m)))
        }) = Some ()"
    using ok(6) unfolding successor_ok_def
    by (cases "hs_successor (mm_hard m)") (simp_all add: mm_generation_next[OF assms] list_all_iff del: add_Suc_right, metis)
  ultimately show ?thesis
    using limits windows eff pend ok(4) mm_set_ok(2)[OF assms]
    by (simp add: mm_assert_invariants_def bootstrap_ok_def Let_def)
qed

subsection \<open>The generation fence\<close>

definition judged :: "matchmaker \<Rightarrow> matchmaker_generation \<Rightarrow> match_refusal option" where
  "judged m g = (case mm_phase_of m of
       Active \<Rightarrow> if hs_generation (mm_hard m) = g then None else Some (Refusal_Generation (mm_set m))
     | Stopped \<Rightarrow> Some (case hs_successor (mm_hard m) of
           Some s \<Rightarrow> if g < hs_generation (mm_hard m) + 1 then Refusal_Stopped (Some s) else Refusal_Inactive
         | None \<Rightarrow> if g = hs_generation (mm_hard m) then Refusal_Stopped None
             else if g < hs_generation (mm_hard m) then Refusal_Generation (mm_set m) else Refusal_Inactive)
     | _ \<Rightarrow> Some Refusal_Inactive)"

lemma judged_None: "judged m g = None \<longleftrightarrow> mm_phase_of m = Active \<and> hs_generation (mm_hard m) = g"
  by (auto simp: judged_def split: matchmaker_phase.split)

lemma judge_generation_total [total_simps]:
  assumes "mm_ok T D m"
  shows "judge_generation m g = Some (judged m g)" "generation_refusal m g = Some (judged m g)"
proof -
  note s = mm_set_ok[OF assms]
  show j: "judge_generation m g = Some (judged m g)"
    by (auto simp: judge_generation_def judged_def mm_phase_total s(3) mm_generation_next[OF assms]
        split: matchmaker_phase.split option.split)
  show "generation_refusal m g = Some (judged m g)"
    using judged_None[of m g] s(3) by (auto simp: generation_refusal_def j mm_phase_total)
qed

lemma newer_set_total [total_simps]:
  assumes "mm_ok T D m"
  shows "\<exists>n. newer_set m g = Some n \<and> (judged m g = Some (Refusal_Stopped None) \<longrightarrow> n = None)"
  using mm_okD(6)[OF assms] mm_set_ok(3)[OF assms]
  by (auto simp: newer_set_def judge_generation_total[OF assms] judged_def successor_ok_def
      split: matchmaker_phase.split option.split)

lemma judged_stopped: "judged m g = Some (Refusal_Stopped s) \<Longrightarrow> mm_phase_of m = Stopped"
  by (auto simp: judged_def split: matchmaker_phase.splits option.splits if_splits)

lemma frozen_without_successor_total [total_simps]:
  assumes "mm_ok T D m"
  shows "frozen_without_successor m g = Some (judged m g = Some (Refusal_Stopped None))"
  using newer_set_total[OF assms, of g] judged_stopped[of m g]
  by (cases "judged m g = Some (Refusal_Stopped None)")
    (auto simp: frozen_without_successor_def judge_generation_total[OF assms] mm_phase_total Let_def)

subsection \<open>Pages\<close>

definition window_of :: "matchmaker \<Rightarrow> journal_id \<Rightarrow> ballot \<Rightarrow> ballot \<Rightarrow> (ballot \<times> registration) list" where
  "window_of m j lo hi = fm_entries (fmfilter (\<lambda>k. lo \<le> k \<and> k < hi) (mm_ledger m j))"

definition page_from :: "matchmaker \<Rightarrow> journal_id \<Rightarrow> ballot option \<Rightarrow> ballot" where
  "page_from m j cursor = max (case cursor of None \<Rightarrow> mm_gc m j | Some c \<Rightarrow> c) (mm_gc m j)"

definition mm_answer :: "matchmaker \<Rightarrow> journal_id \<Rightarrow> ballot option \<Rightarrow> ballot \<Rightarrow> match_outcome" where
  "mm_answer m j cursor b =
     (let records = kept_records (window_of m j (page_from m j cursor) b); limit = lm_registry_page (mm_limits m)
      in Match_Registered (page_from m j cursor) (fmap_of_list (take limit records)) (page_next limit records)
           (mm_gc m j) (hs_effective (mm_hard m) j))"

lemma fm_entries_sorted: "sorted_wrt (<) (map fst (fm_entries m))"
  by (simp add: strict_sorted_iff)

lemma window_of_sorted [simp]: "sorted_wrt (<) (map fst (window_of m j lo hi))"
  unfolding window_of_def by (rule fm_entries_sorted)

lemma set_window_of: "(b, r) \<in> set (window_of m j lo hi) \<longleftrightarrow> lo \<le> b \<and> b < hi \<and> fmlookup (mm_ledger m j) b = Some r"
  by (auto simp: window_of_def)

lemma answer_keys:
  assumes "k \<in> fmdom' (fmap_of_list (take n (kept_records (window_of m j lo hi))))"
  shows "lo \<le> k" "k < hi"
proof -
  have "k \<in> fst ` set (window_of m j lo hi)"
    using assms kept_records_sub[of "window_of m j lo hi"] set_take_subset[of n] by fastforce
  then show "lo \<le> k" "k < hi" by (auto simp: set_window_of)
qed

lemma page_from_ge: "mm_gc m j \<le> page_from m j cursor"
  by (simp add: page_from_def)

lemma mm_page_total [total_simps]:
  assumes "mm_ok T D m" "page_from m j cursor \<le> b"
  shows "mm_page m j cursor b = Some (mm_answer m j cursor b)"
proof -
  let ?lo = "page_from m j cursor" and ?n = "lm_registry_page (mm_limits m)"
  let ?rs = "kept_records (window_of m j ?lo b)"
  have n: "0 < ?n" using mm_okD(1)[OF assms(1)] by (simp add: limits_ok_def)
  have "(case fmlookup (mm_registries m) j of
         Some window \<Rightarrow> do { entries \<leftarrow> rw_range window ?lo b; history_page entries ?n }
       | None \<Rightarrow> Some (fmempty, None)) = Some (fmap_of_list (take ?n ?rs), page_next ?n ?rs)"
  proof (cases "fmlookup (mm_registries m) j")
    case None
    then have "window_of m j ?lo b = []" by (simp add: window_of_def mm_ledger_def fm_entries_def fm_keys_def)
    then show ?thesis using None by (simp add: page_next_def)
  next
    case (Some w)
    then have "mm_ledger m j = rw_map w" by (simp add: mm_ledger_def)
    then have "fm_entries (fmfilter (\<lambda>k. ?lo \<le> k \<and> k < b) (rw_map w)) = window_of m j ?lo b"
      by (simp only: window_of_def)
    then show ?thesis using Some assms(2) n by (simp add: rw_range_def history_page_total)
  qed
  moreover have "list_all (\<lambda>k. k < b) (fm_keys (fmap_of_list (take ?n ?rs)))"
    using answer_keys(2)[of _ ?n m j ?lo b] by (simp only: list_all_iff set_fm_keys) blast
  ultimately show ?thesis
    using page_from_ge[of m j cursor]
    unfolding mm_page_def Let_def page_from_def[symmetric] by (simp add: mm_answer_def Let_def)
qed

lemma registered_answer_total:
  assumes "mm_ok T D m'" "fmlookup (mm_ledger m' j) b \<noteq> None" "mm_phase_of m' = Active" "hs_generation (mm_hard m') = g"
    "mm_gc m' j \<le> page_from m j cursor" "mm_limits m' = mm_limits m"
  shows "assert_registered_answer m' (mm_answer m j cursor b) j b g = Some ()"
proof -
  let ?lo = "page_from m j cursor" and ?n = "lm_registry_page (mm_limits m)"
  let ?rs = "kept_records (window_of m j ?lo b)"
  let ?page = "fmap_of_list (take ?n ?rs)"
  have s: "sorted_wrt (<) (map fst ?rs)" by (simp add: kept_records_sorted)
  have st: "sorted_wrt (<) (map fst (take ?n ?rs))" unfolding take_map[symmetric] using s by (rule sorted_wrt_take)
  have keys: "?lo \<le> k \<and> k < b" if "k \<in> fmdom' ?page" for k using answer_keys[OF that] by blast
  have "list_all (\<lambda>k. k < b) (fm_keys ?page)" "list_all (\<lambda>k. mm_gc m' j \<le> k) (fm_keys ?page)" "list_all (\<lambda>k. ?lo \<le> k) (fm_keys ?page)"
    using keys assms(5) order_trans by (simp_all only: list_all_iff set_fm_keys) blast+
  moreover have "page_next ?n ?rs \<noteq> None \<longrightarrow> fm_len ?page = ?n" "fm_len ?page \<le> ?n"
    using page_next_full[of ?n ?rs] by (auto simp: map_of_list_len[OF st])
  moreover have "case page_next ?n ?rs of None \<Rightarrow> True
      | Some c \<Rightarrow> (case fm_last ?page of None \<Rightarrow> True | Some g \<Rightarrow> g < c)"
    using take_below_next[OF s] by (auto simp: fm_last_is_none_or split: option.split)
  ultimately show ?thesis
    using assms(2-4,6) mm_set_ok(3)[OF assms(1)]
    by (simp add: mm_answer_def assert_registered_answer_def Let_def mm_registry_total[OF assms(1)] mm_phase_total)
qed

section \<open>What every operation keeps\<close>

text \<open>The store mirrors a matchmaker when it holds its scalars and its registrations.\<close>

definition mirrors :: "matchmaker \<Rightarrow> mem_registry \<Rightarrow> bool" where
  "mirrors m s \<longleftrightarrow> mr_hard_state s = mm_hard m \<and>
     (\<forall>j. fmlookup (mr_registry s) j = (if mm_ledger m j = fmempty then None else Some (mm_ledger m j)))"

definition mr_replay :: "matchmaker_write list \<Rightarrow> mem_registry \<Rightarrow> mem_registry option" where
  "mr_replay = try_fold (\<lambda>op s. mr_apply s op)"

lemma mr_replay_simps [simp]:
  "mr_replay [] s = Some s" "mr_replay (op # ws) s = mr_apply s op \<bind> mr_replay ws"
  by (simp_all add: mr_replay_def)

lemma mr_replay_append: "mr_replay (ws @ ws') s = mr_replay ws s \<bind> mr_replay ws'"
  by (simp add: mr_replay_def try_fold_append)

lemma mirrors_ok: "mirrors m s \<Longrightarrow> mm_ok T D m \<Longrightarrow> store_ok s"
  using mm_ledger_floor[of T D m] by (auto simp: mirrors_def store_ok_def split: if_splits)

text \<open>Within a generation, a registration stays until a raised watermark collects it, a new one is above
  every one it finds, and a frozen registry is never written again.\<close>

definition registry_extends :: "matchmaker \<Rightarrow> matchmaker \<Rightarrow> bool" where
  "registry_extends m m' \<longleftrightarrow> (hs_generation (mm_hard m') = hs_generation (mm_hard m) \<longrightarrow>
     (\<forall>j b r. fmlookup (mm_ledger m j) b = Some r \<longrightarrow> fmlookup (mm_ledger m' j) b = Some r \<or> b < mm_gc m' j) \<and>
     (\<forall>j b. b \<in> fmdom' (mm_ledger m' j) - fmdom' (mm_ledger m j) \<longrightarrow> (\<forall>b0 \<in> fmdom' (mm_ledger m j). b0 < b)) \<and>
     (mm_phase_of m = Stopped \<longrightarrow> mm_phase_of m' = Stopped \<and> mm_registries m' = mm_registries m))"

definition evolves :: "proposals \<Rightarrow> decrees \<Rightarrow> matchmaker \<Rightarrow> matchmaker \<Rightarrow> bool" where
  "evolves T D m m' \<longleftrightarrow> mm_ok T D m' \<and> mm_config m' = mm_config m \<and> mm_limits m' = mm_limits m \<and>
     (\<forall>j. mm_gc m j \<le> mm_gc m' j) \<and> hs_generation (mm_hard m) \<le> hs_generation (mm_hard m') \<and> registry_extends m m' \<and>
     (\<exists>ws. mm_writes m' = mm_writes m @ ws \<and> list_all (write_covered (mm_hard m')) ws \<and>
        (\<forall>s. mirrors m s \<longrightarrow> (\<exists>s'. mr_replay ws s = Some s' \<and> mirrors m' s')))"

lemma evolvesD:
  assumes "evolves T D m m'"
  shows "mm_ok T D m'" "mm_config m' = mm_config m" "mm_limits m' = mm_limits m" "mm_gc m j \<le> mm_gc m' j"
    "hs_generation (mm_hard m) \<le> hs_generation (mm_hard m')" "registry_extends m m'"
  using assms by (simp_all add: evolves_def)

lemma scalars_covered_iff:
  "scalars_covered held scalars \<longleftrightarrow> (\<forall>j sc. fmlookup (hs_journals scalars) j = Some sc \<longrightarrow> sc_gc_watermark sc \<le> hs_gc_watermark held j)"
  by (auto simp: scalars_covered_def list_all_iff)

lemma scalars_covered_refl [simp]: "scalars_covered h h"
  by (simp add: scalars_covered_iff hs_gc_watermark_def)

lemma write_covered_mono:
  "write_covered h op \<Longrightarrow> (\<And>j. hs_gc_watermark h j \<le> hs_gc_watermark h' j) \<Longrightarrow> write_covered h' op"
  by (auto simp: write_covered_def scalars_covered_iff split: matchmaker_write.splits intro: order_trans)

lemma evolves_refl: "mm_ok T D m \<Longrightarrow> evolves T D m m"
  by (auto simp: evolves_def registry_extends_def intro!: exI[of _ "[]"])

lemma registry_extends_trans:
  assumes "mm_ok T D b" "mm_ok T D c" and "registry_extends a b" "registry_extends b c"
    and "\<And>j. mm_gc b j \<le> mm_gc c j"
    and gen: "hs_generation (mm_hard a) \<le> hs_generation (mm_hard b)" "hs_generation (mm_hard b) \<le> hs_generation (mm_hard c)"
  shows "registry_extends a c"
  unfolding registry_extends_def
proof (intro impI conjI allI)
  assume "hs_generation (mm_hard c) = hs_generation (mm_hard a)"
  with gen have g: "hs_generation (mm_hard b) = hs_generation (mm_hard a)" "hs_generation (mm_hard c) = hs_generation (mm_hard b)" by auto
  have ab: "fmlookup (mm_ledger a j) x = Some r \<Longrightarrow> fmlookup (mm_ledger b j) x = Some r \<or> x < mm_gc b j"
    "x \<in> fmdom' (mm_ledger b j) - fmdom' (mm_ledger a j) \<Longrightarrow> y \<in> fmdom' (mm_ledger a j) \<Longrightarrow> y < x" for j x y r
    using assms(3) g(1) by (simp_all add: registry_extends_def)
  have bc: "fmlookup (mm_ledger b j) x = Some r \<Longrightarrow> fmlookup (mm_ledger c j) x = Some r \<or> x < mm_gc c j"
    "x \<in> fmdom' (mm_ledger c j) - fmdom' (mm_ledger b j) \<Longrightarrow> y \<in> fmdom' (mm_ledger b j) \<Longrightarrow> y < x" for j x y r
    using assms(4) g(2) by (simp_all add: registry_extends_def)
  show "fmlookup (mm_ledger c j) x = Some r \<or> x < mm_gc c j" if "fmlookup (mm_ledger a j) x = Some r" for j x r
    using ab(1)[OF that] bc(1)[of j x r] less_le_trans[OF _ assms(5)[of j], of x] by blast
  show "\<forall>y \<in> fmdom' (mm_ledger a j). y < x" if x: "x \<in> fmdom' (mm_ledger c j) - fmdom' (mm_ledger a j)" for j x
  proof
    fix y assume y: "y \<in> fmdom' (mm_ledger a j)"
    then obtain r where r: "fmlookup (mm_ledger a j) y = Some r" by (auto simp: fmlookup_dom'_iff)
    show "y < x"
    proof (cases "x \<in> fmdom' (mm_ledger b j)")
      case True
      then show ?thesis using ab(2)[OF _ y] x by blast
    next
      case False
      show ?thesis
        using ab(1)[OF r]
      proof
        assume "fmlookup (mm_ledger b j) y = Some r"
        then show ?thesis using bc(2)[of x j y] x False by (auto simp: fmdom'I)
      next
        assume "y < mm_gc b j"
        also note assms(5)[of j]
        also have "mm_gc c j \<le> x" using mm_ledger_floor[OF assms(2)] x by blast
        finally show ?thesis .
      qed
    qed
  qed
  show "mm_phase_of c = Stopped" "mm_registries c = mm_registries a" if "mm_phase_of a = Stopped"
    using that assms(3,4) g by (simp_all add: registry_extends_def)
qed

lemma evolves_trans:
  assumes "evolves T D a b" "evolves T D b c"
  shows "evolves T D a c"
proof -
  obtain ws where ws: "mm_writes b = mm_writes a @ ws" "list_all (write_covered (mm_hard b)) ws" "\<And>s. mirrors a s \<Longrightarrow> \<exists>s'. mr_replay ws s = Some s' \<and> mirrors b s'"
    using assms(1) by (auto simp: evolves_def)
  obtain vs where vs: "mm_writes c = mm_writes b @ vs" "list_all (write_covered (mm_hard c)) vs" "\<And>s. mirrors b s \<Longrightarrow> \<exists>s'. mr_replay vs s = Some s' \<and> mirrors c s'"
    using assms(2) by (auto simp: evolves_def)
  have "\<exists>s'. mr_replay (ws @ vs) s = Some s' \<and> mirrors c s'" if s: "mirrors a s" for s
    using ws(3)[OF s] vs(3) by (auto simp: mr_replay_append)
  moreover have "list_all (write_covered (mm_hard c)) (ws @ vs)"
    using ws(2) vs(2) write_covered_mono[OF _ evolvesD(4)[OF assms(2)]] by (auto simp: list_all_iff)
  moreover have "registry_extends a c"
    by (rule registry_extends_trans[OF evolvesD(1)[OF assms(1)] evolvesD(1)[OF assms(2)] evolvesD(6)[OF assms(1)] evolvesD(6)[OF assms(2)]
          evolvesD(4)[OF assms(2)] evolvesD(5)[OF assms(1)] evolvesD(5)[OF assms(2)]])
  moreover have "mm_gc a j \<le> mm_gc c j" for j
    using order_trans[OF evolvesD(4)[OF assms(1)] evolvesD(4)[OF assms(2)]] .
  ultimately show ?thesis
    using evolvesD(1,2,3,5)[OF assms(1)] evolvesD(1,2,3,5)[OF assms(2)] ws(1) vs(1)
    by (auto simp: evolves_def)
qed

text \<open>Only the buffered replies change.\<close>

lemma evolves_replies:
  assumes "evolves T D m m'"
  shows "evolves T D m (m'\<lparr>mm_replies := rs\<rparr>)" "evolves T D m (m'\<lparr>mm_reconfigure_replies := qs\<rparr>)"
proof -
  have [simp]: "mm_ledger (m'\<lparr>mm_replies := rs\<rparr>) = mm_ledger m'" "mm_ledger (m'\<lparr>mm_reconfigure_replies := qs\<rparr>) = mm_ledger m'"
    "mm_phase_of (m'\<lparr>mm_replies := rs\<rparr>) = mm_phase_of m'" "mm_phase_of (m'\<lparr>mm_reconfigure_replies := qs\<rparr>) = mm_phase_of m'"
    by (auto simp: mm_ledger_def mm_phase_of_def)
  have "mirrors (m'\<lparr>mm_replies := rs\<rparr>) = mirrors m'" "mirrors (m'\<lparr>mm_reconfigure_replies := qs\<rparr>) = mirrors m'"
    by (auto simp: mirrors_def fun_eq_iff)
  moreover have "registry_extends m (m'\<lparr>mm_replies := rs\<rparr>) = registry_extends m m'"
    "registry_extends m (m'\<lparr>mm_reconfigure_replies := qs\<rparr>) = registry_extends m m'"
    by (simp_all add: registry_extends_def)
  moreover have "mm_ok T D (m'\<lparr>mm_replies := rs\<rparr>) = mm_ok T D m'" "mm_ok T D (m'\<lparr>mm_reconfigure_replies := qs\<rparr>) = mm_ok T D m'"
    by (simp_all add: mm_ok_def)
  ultimately show "evolves T D m (m'\<lparr>mm_replies := rs\<rparr>)" "evolves T D m (m'\<lparr>mm_reconfigure_replies := qs\<rparr>)"
    using assms by (simp_all add: evolves_def)
qed

subsection \<open>A fresh registration\<close>

definition registered_hard :: "matchmaker_hard_state \<Rightarrow> journal_id \<Rightarrow> ballot \<Rightarrow> registration \<Rightarrow> matchmaker_hard_state" where
  "registered_hard h j b r = (if kind_is_reconfiguration (rg_kind r)
     then hs_journal_mut h j (\<lambda>sc. sc\<lparr>sc_effective := raised_effective (hs_effective h j) b (rg_config r)\<rparr>) else h)"

definition mm_registered :: "matchmaker \<Rightarrow> journal_id \<Rightarrow> ballot \<Rightarrow> registration \<Rightarrow> matchmaker" where
  "mm_registered m j b r = m\<lparr>
     mm_hard := registered_hard (mm_hard m) j b r,
     mm_registries := fmupd j \<lparr>rw_map = fmupd b r (mm_ledger m j), rw_base = mm_gc m j\<rparr> (mm_registries m),
     mm_writes := mm_writes m
       @ (if registered_hard (mm_hard m) j b r \<noteq> mm_hard m then [SetScalars (registered_hard (mm_hard m) j b r)] else [])
       @ [Register j b r]\<rparr>"

lemma registered_hard_simps [simp]:
  "hs_generation (registered_hard h j b r) = hs_generation h" "hs_members (registered_hard h j b r) = hs_members h"
  "hs_phase (registered_hard h j b r) = hs_phase h" "hs_successor (registered_hard h j b r) = hs_successor h"
  "hs_decree (registered_hard h j b r) = hs_decree h" "hs_pending (registered_hard h j b r) = hs_pending h"
  "hs_gc_watermark (registered_hard h j b r) j' = hs_gc_watermark h j'"
  by (simp_all add: registered_hard_def hs_reads_entry(1)[symmetric])

lemma registered_hard_effective:
  "hs_effective (registered_hard h j b r) j' = (if j' = j \<and> kind_is_reconfiguration (rg_kind r)
     then raised_effective (hs_effective h j) b (rg_config r) else hs_effective h j')"
  by (simp add: registered_hard_def)

lemma raised_effective_not_None [simp]: "raised_effective e b c \<noteq> None"
  by (cases e) (auto simp: raised_effective_def)

lemma registered_hard_same:
  assumes "kind_is_reconfiguration (rg_kind r)"
  shows "registered_hard h j b r = h \<longleftrightarrow> raised_effective (hs_effective h j) b (rg_config r) = hs_effective h j"
proof
  assume "registered_hard h j b r = h"
  then show "raised_effective (hs_effective h j) b (rg_config r) = hs_effective h j"
    using registered_hard_effective[of h j b r j] assms by simp
next
  assume a: "raised_effective (hs_effective h j) b (rg_config r) = hs_effective h j"
  then have "hs_effective h j \<noteq> None" using raised_effective_not_None by metis
  then obtain sc where sc: "fmlookup (hs_journals h) j = Some sc" by (auto simp: hs_effective_def split: option.splits)
  then show "registered_hard h j b r = h"
    using a assms journal_mut_id[OF sc] by (simp add: registered_hard_def hs_effective_def)
qed

lemma mm_ledger_registered: "mm_ledger (mm_registered m j b r) j' = (if j' = j then fmupd b r (mm_ledger m j) else mm_ledger m j')"
  by (simp add: mm_ledger_def mm_registered_def)

lemma raised_effective_agrees:
  "effective_agrees T e \<Longrightarrow> T b = r \<Longrightarrow> kind_is_reconfiguration (rg_kind r) \<Longrightarrow> effective_agrees T (raised_effective e b (rg_config r))"
  by (auto simp: effective_agrees_def raised_effective_def kind_is_reconfiguration_iff split: option.splits if_splits)

lemma mm_ok_registered [inv_intros]:
  assumes ok: "mm_ok T D m" and "mm_gc m j \<le> b" "T j b = r"
  shows "mm_ok T D (mm_registered m j b r)"
proof -
  let ?h = "registered_hard (mm_hard m) j b r"
  note regs = mm_okD(2)[OF ok]
  have "registries_ok T ?h (fmupd j \<lparr>rw_map = fmupd b r (mm_ledger m j), rw_base = mm_gc m j\<rparr> (mm_registries m))"
    unfolding registries_ok_def
  proof (intro conjI allI impI)
    fix j' w
    assume w: "fmlookup (fmupd j \<lparr>rw_map = fmupd b r (mm_ledger m j), rw_base = mm_gc m j\<rparr> (mm_registries m)) j' = Some w"
    have "rw_ok w \<and> rw_base w = hs_gc_watermark ?h j' \<and> ledger_agrees (T j') (rw_map w)"
    proof (cases "j' = j")
      case True
      then have "w = \<lparr>rw_map = fmupd b r (mm_ledger m j), rw_base = mm_gc m j\<rparr>" using w by simp
      then show ?thesis
        using True mm_ledger_floor[OF ok, of _ j] mm_ledger_agrees[OF ok, of j] assms(2,3) by (simp add: rw_ok_def ledger_agrees_def)
    next
      case False
      then show ?thesis using w registries_okD(1-3)[OF regs, of j' w] by simp
    qed
    then show "rw_ok w" "rw_base w = hs_gc_watermark ?h j'" "ledger_agrees (T j') (rw_map w)" by simp_all
    show "fmlookup (hs_journals ?h) j' \<noteq> None" if "rw_map w = fmempty"
      using w that registries_okD(4)[OF regs, of j' w]
      by (auto simp: registered_hard_def split: if_splits)
  next
    fix j' sc assume sc: "fmlookup (hs_journals ?h) j' = Some sc"
    then show "fmlookup (fmupd j \<lparr>rw_map = fmupd b r (mm_ledger m j), rw_base = mm_gc m j\<rparr> (mm_registries m)) j' \<noteq> None"
      using registries_ok_journal(1)[OF regs] by (auto simp: registered_hard_def split: if_splits)
    have "hs_effective ?h j' = sc_effective sc" using sc by (simp add: hs_effective_def)
    moreover have "effective_agrees (T j') (hs_effective ?h j')"
      using effective_ok[OF regs] raised_effective_agrees[OF effective_ok[OF regs] assms(3)] by (simp add: registered_hard_effective)
    ultimately show "effective_agrees (T j') (sc_effective sc)" by simp
  qed
  moreover have "handover_ok T D (mm_config m) ?h (mm_set m)"
    using mm_okD(3)[OF ok] by (rule handover_ok_journals) simp_all
  ultimately show ?thesis using mm_okD(1)[OF ok] by (simp add: mm_ok_def mm_registered_def)
qed

lemma mirrors_registered:
  assumes ok: "mm_ok T D m" and "mm_gc m j \<le> b" "mirrors m s"
  shows "\<exists>s'. mr_replay ((if registered_hard (mm_hard m) j b r \<noteq> mm_hard m then [SetScalars (registered_hard (mm_hard m) j b r)] else [])
       @ [Register j b r]) s = Some s' \<and> mirrors (mm_registered m j b r) s'"
proof -
  let ?h = "registered_hard (mm_hard m) j b r"
  let ?s = "s\<lparr>mr_hard_state := ?h\<rparr>"
  have h: "mr_hard_state s = mm_hard m" using assms(3) by (simp add: mirrors_def)
  have s: "store_ok s" using mirrors_ok[OF assms(3) ok] .
  then have s1: "store_ok ?s" by (simp add: store_ok_def h)
  have scalars: "mr_apply s (SetScalars ?h) = Some ?s"
  proof (rule apply_scalars[OF _ s1])
    fix j' sc assume "fmlookup (hs_journals (mr_hard_state s)) j' = Some sc"
    then have "fmlookup (hs_journals (mm_hard m)) j' = Some sc" using h by simp
    then show "fmlookup (hs_journals ?h) j' \<noteq> None \<and> sc_gc_watermark sc \<le> hs_gc_watermark ?h j'"
      by (auto simp: registered_hard_def hs_gc_watermark_def journal_entry_def)
  qed
  have "(if ?h \<noteq> mm_hard m then mr_apply s (SetScalars ?h) else Some s) = Some ?s"
    using scalars by (cases "?h = mm_hard m") (simp_all flip: h)
  moreover have "mr_apply ?s (Register j b r) = Some (?s\<lparr>mr_registry := fmupd j (fmupd b r (mm_ledger m j)) (mr_registry s)\<rparr>)"
  proof -
    have "(case fmlookup (mr_registry s) j of None \<Rightarrow> fmempty | Some l \<Rightarrow> l) = mm_ledger m j" using assms(3) by (simp add: mirrors_def)
    then show ?thesis using apply_register[OF s1, of j b r] assms(2) by simp
  qed
  moreover have "mirrors (mm_registered m j b r) (?s\<lparr>mr_registry := fmupd j (fmupd b r (mm_ledger m j)) (mr_registry s)\<rparr>)"
    using assms(3) by (simp add: mirrors_def mm_ledger_registered) (simp add: mm_registered_def)
  ultimately show ?thesis by (cases "?h = mm_hard m") simp_all
qed

lemma registered_extends:
  assumes "\<forall>b' \<in> fmdom' (mm_ledger m j). b' < b" "mm_phase_of m = Active"
  shows "registry_extends m (mm_registered m j b r)"
  using assms by (auto simp: registry_extends_def mm_ledger_registered fmdom'I split: if_splits)

lemma mm_registered_evolves:
  assumes "mm_ok T D m" "mm_gc m j \<le> b" "T j b = r" "\<forall>b' \<in> fmdom' (mm_ledger m j). b' < b" "mm_phase_of m = Active"
  shows "evolves T D m (mm_registered m j b r)"
proof -
  have "mm_config (mm_registered m j b r) = mm_config m" "mm_limits (mm_registered m j b r) = mm_limits m"
    "mm_gc (mm_registered m j b r) = mm_gc m" "hs_generation (mm_hard (mm_registered m j b r)) = hs_generation (mm_hard m)"
    by (auto simp: mm_registered_def)
  moreover have "mm_writes (mm_registered m j b r) = mm_writes m @
      (if registered_hard (mm_hard m) j b r \<noteq> mm_hard m then [SetScalars (registered_hard (mm_hard m) j b r)] else []) @ [Register j b r]"
    by (simp add: mm_registered_def)
  moreover have "list_all (write_covered (registered_hard (mm_hard m) j b r))
      ((if registered_hard (mm_hard m) j b r \<noteq> mm_hard m then [SetScalars (registered_hard (mm_hard m) j b r)] else []) @ [Register j b r])"
    by (simp add: write_covered_def)
  moreover have "mm_hard (mm_registered m j b r) = registered_hard (mm_hard m) j b r" by (simp add: mm_registered_def)
  ultimately show ?thesis
    unfolding evolves_def
    using mm_ok_registered[OF assms(1-3)] mirrors_registered[OF assms(1,2)] registered_extends[OF assms(4,5)] by auto
qed

lemma fm_last_top: "\<forall>b' \<in> fmdom' l. b' < b \<Longrightarrow> fm_last (fmupd b r l) = Some b"
  using fm_last_is_none_or[where m = l and b = b] by (cases "fm_last l") (auto simp: fm_last_fmupd max_absorb1)

lemma mm_window_total [total_simps]:
  assumes "registries_ok T (mm_hard m) (mm_registries m)"
  shows "mm_window m j = Some (\<lparr>rw_map = mm_ledger m j, rw_base = mm_gc m j\<rparr>,
    m\<lparr>mm_registries := fmupd j \<lparr>rw_map = mm_ledger m j, rw_base = mm_gc m j\<rparr> (mm_registries m)\<rparr>)"
proof (cases "fmlookup (mm_registries m) j")
  case None
  then show ?thesis by (simp add: mm_window_def rw_new_total mm_ledger_def rw_floor_def Let_def)
next
  case (Some w)
  note w = registries_okD(1,2)[OF assms Some]
  then have "w = \<lparr>rw_map = mm_ledger m j, rw_base = mm_gc m j\<rparr>" using Some by (simp add: mm_ledger_def)
  then show ?thesis using Some w by (simp add: mm_window_def rw_read_total Let_def)
qed

lemma register_fresh_total [total_simps]:
  assumes ok: "mm_ok T D m" and "mm_gc m j \<le> b" "page_from m j cursor \<le> b" "\<forall>b' \<in> fmdom' (mm_ledger m j). b' < b" "T j b = r"
  shows "register_fresh m j b r cursor = Some (mm_answer m j cursor b, mm_registered m j b r)"
proof -
  let ?w = "\<lparr>rw_map = fmupd b r (mm_ledger m j), rw_base = mm_gc m j\<rparr>"
  let ?m = "m\<lparr>mm_registries := fmupd j ?w (mm_registries m)\<rparr>"
  have none: "fmlookup (mm_ledger m j) b = None" using assms(4) by (auto simp: fmlookup_dom'_iff dest: fmdom'I)
  have "rw_ok \<lparr>rw_map = mm_ledger m j, rw_base = mm_gc m j\<rparr>" "rw_ok ?w"
    using mm_ledger_floor[OF ok, of _ j] assms(2) by (auto simp: rw_ok_def)
  moreover from this have "mm_highest ?m j = Some (Some b)"
    using assms(2) fm_last_top[OF assms(4)] by (simp add: mm_highest_def rw_last_key_total)
  ultimately show ?thesis
    using assms(2) none registered_hard_same[of r "mm_hard m" j b]
    by (auto simp: register_fresh_def mm_page_total[OF ok assms(3)] mm_window_total[OF mm_okD(2)[OF ok]] rw_insert_total mm_put_window_def
        raise_effective_Some mm_registered_def stage_scalars_def registered_hard_def hs_reads_entry(2)[symmetric] Let_def)
qed

subsection \<open>One request\<close>

text \<open>What a request is answered and what the matchmaker is after it.\<close>

definition mm_reply :: "matchmaker \<Rightarrow> match_request \<Rightarrow> match_outcome \<Rightarrow> match_reply" where
  "mm_reply m q outcome = \<lparr>mp_matchmaker = mm_id m, mp_journal = mq_journal q, mp_to = mq_from q,
     mp_ballot = mq_ballot q, mp_generation = mq_generation q, mp_outcome = outcome\<rparr>"

definition mm_served :: "matchmaker \<Rightarrow> match_request \<Rightarrow> registration_kind \<Rightarrow> match_outcome \<times> matchmaker" where
  "mm_served m q kind =
     (let j = mq_journal q; b = mq_ballot q; r = \<lparr>rg_config = mq_config q, rg_kind = kind\<rparr>
      in case judged m (mq_generation q) of
          Some refusal \<Rightarrow> (Match_Refused refusal, m)
        | None \<Rightarrow>
            if b < mm_gc m j then (Match_Refused (Refusal_BelowWatermark (mm_gc m j)), m)
            else if fmlookup (mm_ledger m j) b = Some r then (mm_answer m j (mq_from_ballot q) b, m)
            else (case fm_last (mm_ledger m j) of
                Some h \<Rightarrow> if b \<le> h then (Match_Refused (Refusal_Stale h), m)
                           else (mm_answer m j (mq_from_ballot q) b, mm_registered m j b r)
              | None \<Rightarrow> (mm_answer m j (mq_from_ballot q) b, mm_registered m j b r)))"

definition mm_stepped :: "matchmaker \<Rightarrow> match_request \<Rightarrow> match_outcome \<times> matchmaker" where
  "mm_stepped m q = (case mq_purpose q of
       Purpose_Register kind \<Rightarrow> mm_served m q kind
     | Purpose_Probe \<Rightarrow> ((case judged m (mq_generation q) of Some refusal \<Rightarrow> Match_Refused refusal
                           | None \<Rightarrow> Match_Probed (hs_effective (mm_hard m) (mq_journal q))), m))"

text \<open>The contract of a request: it registers the one configuration its ballot proposes, and its cursor
  lies at or below its ballot.\<close>

definition match_request_ok :: "proposals \<Rightarrow> match_request \<Rightarrow> bool" where
  "match_request_ok T q \<longleftrightarrow>
     (\<forall>kind. mq_purpose q = Purpose_Register kind \<longrightarrow> T (mq_journal q) (mq_ballot q) = \<lparr>rg_config = mq_config q, rg_kind = kind\<rparr>) \<and>
     (\<forall>c. mq_from_ballot q = Some c \<longrightarrow> c \<le> mq_ballot q)"

lemma fm_last_below: "fmlookup l b = Some r \<Longrightarrow> \<exists>h. fm_last l = Some h \<and> b \<le> h"
proof -
  assume b: "fmlookup l b = Some r"
  then have "l \<noteq> fmempty" by auto
  then obtain h where h: "fm_last l = Some h" by (auto simp: fm_last_def)
  then show ?thesis using fm_last_SomeD(2)[OF h fmdom'I[OF b]] by simp
qed

lemma mm_served_cases:
  fixes m q kind
  defines "j \<equiv> mq_journal q" and "b \<equiv> mq_ballot q" and "r \<equiv> \<lparr>rg_config = mq_config q, rg_kind = kind\<rparr>"
  obtains (refused) refusal where "mm_served m q kind = (Match_Refused refusal, m)"
  | (again) "mm_served m q kind = (mm_answer m j (mq_from_ballot q) b, m)" "judged m (mq_generation q) = None"
      "mm_gc m j \<le> b" "fmlookup (mm_ledger m j) b = Some r"
  | (fresh) "mm_served m q kind = (mm_answer m j (mq_from_ballot q) b, mm_registered m j b r)" "judged m (mq_generation q) = None"
      "mm_gc m j \<le> b" "\<forall>b' \<in> fmdom' (mm_ledger m j). b' < b"
proof (cases "judged m (mq_generation q) = None \<and> mm_gc m j \<le> b")
  case False
  then show thesis using refused by (cases "judged m (mq_generation q)") (auto simp: mm_served_def Let_def j_def b_def not_le)
next
  case True
  show thesis
  proof (cases "fmlookup (mm_ledger m j) b = Some r")
    case same: True
    show thesis by (rule again) (use True same in \<open>simp_all add: mm_served_def Let_def j_def b_def r_def leD\<close>)
  next
    case diff: False
    show thesis
    proof (cases "case fm_last (mm_ledger m j) of None \<Rightarrow> True | Some h \<Rightarrow> h < b")
      case top: True
      then have "mm_served m q kind = (mm_answer m j (mq_from_ballot q) b, mm_registered m j b r)"
        using True diff by (cases "fm_last (mm_ledger m j)") (simp_all add: mm_served_def Let_def j_def b_def r_def leD flip: not_le)
      moreover have "\<forall>b' \<in> fmdom' (mm_ledger m j). b' < b" using top by (simp add: fm_last_is_none_or)
      ultimately show thesis using True by (intro fresh) simp_all
    next
      case False
      then obtain h where "fm_last (mm_ledger m j) = Some h" "b \<le> h" by (auto split: option.splits)
      then show thesis using refused[of "Refusal_Stale h"] True diff by (simp add: mm_served_def Let_def j_def b_def r_def leD)
    qed
  qed
qed

lemma mm_served_evolves:
  assumes ok: "mm_ok T D m" and q: "match_request_ok T q" "mq_purpose q = Purpose_Register kind"
  shows "evolves T D m (snd (mm_served m q kind))"
proof (cases rule: mm_served_cases[of m q kind])
  case fresh
  have "mm_phase_of m = Active" using fresh(2) by (simp add: judged_None)
  moreover have "T (mq_journal q) (mq_ballot q) = \<lparr>rg_config = mq_config q, rg_kind = kind\<rparr>"
    using q by (simp add: match_request_ok_def)
  ultimately show ?thesis using mm_registered_evolves[OF ok fresh(3) _ fresh(4)] fresh(1) by simp
qed (use evolves_refl[OF ok] in simp_all)

lemma mm_served_answer:
  assumes ok: "mm_ok T D m" and q: "match_request_ok T q" "mq_purpose q = Purpose_Register kind"
  shows "assert_registered_answer (snd (mm_served m q kind)) (fst (mm_served m q kind)) (mq_journal q) (mq_ballot q) (mq_generation q) = Some ()"
proof -
  note ok' = evolvesD(1)[OF mm_served_evolves[OF assms]]
  show ?thesis
  proof (cases rule: mm_served_cases[of m q kind])
    case refused
    then show ?thesis by (simp add: assert_registered_answer_def)
  next
    case again
    then show ?thesis using registered_answer_total[OF ok, of "mq_journal q" "mq_ballot q" "mq_generation q" m] page_from_ge[of m]
      by (simp add: judged_None)
  next
    case fresh
    let ?m = "mm_registered m (mq_journal q) (mq_ballot q) \<lparr>rg_config = mq_config q, rg_kind = kind\<rparr>"
    have "mm_phase_of ?m = mm_phase_of m" "mm_gc ?m = mm_gc m" "hs_generation (mm_hard ?m) = hs_generation (mm_hard m)"
      "mm_limits ?m = mm_limits m"
      by (auto simp: mm_registered_def mm_phase_of_def)
    moreover have "mm_ok T D ?m" using ok' fresh(1) by simp
    ultimately show ?thesis using registered_answer_total[of T D ?m "mq_journal q" "mq_ballot q" "mq_generation q" m] page_from_ge[of m] fresh
      by (simp add: judged_None mm_ledger_registered)
  qed
qed

lemma evolves_assert: "evolves T D m m' \<Longrightarrow> mm_assert_invariants (m'\<lparr>mm_replies := rs\<rparr>) = Some ()"
  using mm_assert_total[OF evolvesD(1)[OF evolves_replies(1)]] .

lemma served_id: "mm_id (snd (mm_served m q kind)) = mm_id m" "mm_replies (snd (mm_served m q kind)) = mm_replies m"
  by (cases rule: mm_served_cases[of m q kind]; simp add: mm_registered_def)+

lemma mm_served_total:
  assumes ok: "mm_ok T D m" and q: "match_request_ok T q" "mq_purpose q = Purpose_Register kind"
  shows "(case judged m (mq_generation q) of
             Some refusal \<Rightarrow> Some (Match_Refused refusal, m)
           | None \<Rightarrow>
               if mq_ballot q < mm_gc m (mq_journal q)
               then Some (Match_Refused (Refusal_BelowWatermark (mm_gc m (mq_journal q))), m)
               else do {
                 highest \<leftarrow> mm_highest m (mq_journal q);
                 case (case highest of None \<Rightarrow> None | Some h \<Rightarrow> if mq_ballot q \<le> h then Some h else None) of
                   Some highest \<Rightarrow> do {
                     ledger \<leftarrow> mm_registry m (mq_journal q);
                     if fmlookup ledger (mq_ballot q) = Some \<lparr>rg_config = mq_config q, rg_kind = kind\<rparr>
                     then do { page \<leftarrow> mm_page m (mq_journal q) (mq_from_ballot q) (mq_ballot q); Some (page, m) }
                     else Some (Match_Refused (Refusal_Stale highest), m)
                   }
                 | None \<Rightarrow> register_fresh m (mq_journal q) (mq_ballot q) \<lparr>rg_config = mq_config q, rg_kind = kind\<rparr> (mq_from_ballot q)
               }) = Some (mm_served m q kind)"
proof (cases "judged m (mq_generation q) = None \<and> mm_gc m (mq_journal q) \<le> mq_ballot q")
  case False
  then show ?thesis by (cases "judged m (mq_generation q)") (auto simp: mm_served_def Let_def not_le)
next
  case True
  let ?j = "mq_journal q" and ?b = "mq_ballot q" and ?r = "\<lparr>rg_config = mq_config q, rg_kind = kind\<rparr>"
  have T: "T ?j ?b = ?r" using q by (simp add: match_request_ok_def)
  have cur: "page_from m ?j (mq_from_ballot q) \<le> ?b"
    using q(1) True by (auto simp: match_request_ok_def page_from_def split: option.split)
  note totals = mm_highest_total[OF ok] mm_registry_total[OF ok] mm_page_total[OF ok cur]
  show ?thesis
  proof (cases "case fm_last (mm_ledger m ?j) of None \<Rightarrow> True | Some h \<Rightarrow> h < ?b")
    case top: True
    then have "\<forall>b' \<in> fmdom' (mm_ledger m ?j). b' < ?b" by (simp add: fm_last_is_none_or)
    note fresh = register_fresh_total[OF ok _ cur this T]
    have none: "fmlookup (mm_ledger m ?j) ?b = None" using top fm_last_below[of "mm_ledger m ?j" ?b]
      by (cases "fmlookup (mm_ledger m ?j) ?b") auto
    show ?thesis using True top none
      by (cases "fm_last (mm_ledger m ?j)") (simp_all add: mm_served_def Let_def totals fresh leD flip: not_le)
  next
    case False
    then obtain h where "fm_last (mm_ledger m ?j) = Some h" "?b \<le> h" by (auto split: option.splits)
    then show ?thesis using True by (simp add: mm_served_def Let_def totals leD)
  qed
qed

lemma mm_step_total [total_simps]:
  assumes ok: "mm_ok T D m" and q: "match_request_ok T q"
  shows "mm_step m q = Some ((snd (mm_stepped m q))\<lparr>mm_replies := mm_replies m @ [mm_reply m q (fst (mm_stepped m q))]\<rparr>)"
proof (cases "mq_purpose q")
  case (Purpose_Register kind)
  let ?s = "mm_served m q kind"
  obtain o' m' where s: "?s = (o', m')" by fastforce
  then have "mm_id m' = mm_id m" "mm_replies m' = mm_replies m" using served_id[of m q kind] by simp_all
  moreover have "mm_stepped m q = (o', m')" using Purpose_Register s by (simp add: mm_stepped_def)
  moreover have "assert_registered_answer m' o' (mq_journal q) (mq_ballot q) (mq_generation q) = Some ()"
    using mm_served_answer[OF ok q Purpose_Register] s by simp
  moreover have "mm_assert_invariants (m'\<lparr>mm_replies := rs\<rparr>) = Some ()" for rs
    using evolves_assert[OF mm_served_evolves[OF ok q Purpose_Register], of rs] s by simp
  ultimately show ?thesis
    unfolding mm_step_def Let_def Purpose_Register
    by (simp add: mm_assert_total[OF ok] judge_generation_total[OF ok] mm_served_total[OF ok q Purpose_Register] s mm_reply_def)
next
  case Purpose_Probe
  have "mm_assert_invariants (m\<lparr>mm_replies := rs\<rparr>) = Some ()" for rs
    by (rule evolves_assert[OF evolves_refl[OF ok]])
  then show ?thesis
    using Purpose_Probe
    by (simp add: mm_step_def answer_probe_def mm_assert_total[OF ok] judge_generation_total[OF ok] mm_registry_total[OF ok]
        mm_stepped_def mm_reply_def Let_def)
qed

lemma mm_step_evolves:
  assumes "mm_ok T D m" "match_request_ok T q" "mm_step m q = Some m'"
  shows "evolves T D m m'"
proof -
  have "evolves T D m (snd (mm_stepped m q))"
    using mm_served_evolves[OF assms(1,2)] evolves_refl[OF assms(1)] by (simp add: mm_stepped_def split: match_purpose.split)
  then show ?thesis using assms(3) evolves_replies(1) by (auto simp: mm_step_total[OF assms(1,2)])
qed

subsection \<open>Collection\<close>

definition mm_collected :: "matchmaker \<Rightarrow> journal_id \<Rightarrow> ballot \<Rightarrow> matchmaker" where
  "mm_collected m j w = m\<lparr>
     mm_hard := hs_journal_mut (mm_hard m) j (\<lambda>sc. sc\<lparr>sc_gc_watermark := w\<rparr>),
     mm_registries := fmupd j \<lparr>rw_map = fm_from w (mm_ledger m j), rw_base = w\<rparr> (mm_registries m),
     mm_writes := mm_writes m @ [SetGcWatermark j w]\<rparr>"

lemma mm_ledger_collected: "mm_ledger (mm_collected m j w) j' = (if j' = j then fm_from w (mm_ledger m j) else mm_ledger m j')"
  by (simp add: mm_ledger_def mm_collected_def)

lemma mm_gc_collected: "mm_gc (mm_collected m j w) j' = (if j' = j then w else mm_gc m j')"
  by (simp add: mm_collected_def)

lemma mm_ok_collected [inv_intros]:
  assumes ok: "mm_ok T D m"
  shows "mm_ok T D (mm_collected m j w)"
proof -
  let ?h = "hs_journal_mut (mm_hard m) j (\<lambda>sc. sc\<lparr>sc_gc_watermark := w\<rparr>)"
  note regs = mm_okD(2)[OF ok]
  have "registries_ok T ?h (fmupd j \<lparr>rw_map = fm_from w (mm_ledger m j), rw_base = w\<rparr> (mm_registries m))"
    unfolding registries_ok_def
  proof (intro conjI allI impI)
    fix j' w'
    assume w': "fmlookup (fmupd j \<lparr>rw_map = fm_from w (mm_ledger m j), rw_base = w\<rparr> (mm_registries m)) j' = Some w'"
    have "rw_ok w' \<and> rw_base w' = hs_gc_watermark ?h j' \<and> ledger_agrees (T j') (rw_map w')"
    proof (cases "j' = j")
      case True
      then show ?thesis using w' mm_ledger_agrees[OF ok, of j] by (auto simp: rw_ok_def ledger_agrees_def split: if_splits)
    next
      case False
      then show ?thesis using w' registries_okD(1-3)[OF regs, of j' w'] by simp
    qed
    then show "rw_ok w'" "rw_base w' = hs_gc_watermark ?h j'" "ledger_agrees (T j') (rw_map w')" by simp_all
    show "fmlookup (hs_journals ?h) j' \<noteq> None" if "rw_map w' = fmempty"
      using w' that registries_okD(4)[OF regs, of j' w'] by (auto split: if_splits)
  next
    fix j' sc assume sc: "fmlookup (hs_journals ?h) j' = Some sc"
    then show "fmlookup (fmupd j \<lparr>rw_map = fm_from w (mm_ledger m j), rw_base = w\<rparr> (mm_registries m)) j' \<noteq> None"
      using registries_ok_journal(1)[OF regs] by (auto split: if_splits)
    have "hs_effective ?h j' = sc_effective sc" using sc by (simp add: hs_effective_def)
    moreover have "hs_effective ?h j' = hs_effective (mm_hard m) j'" by (simp add: hs_reads_entry(2)[symmetric])
    ultimately show "effective_agrees (T j') (sc_effective sc)" using effective_ok[OF regs, of j'] by simp
  qed
  moreover have "handover_ok T D (mm_config m) ?h (mm_set m)"
    using mm_okD(3)[OF ok] by (rule handover_ok_journals) simp_all
  ultimately show ?thesis using mm_okD(1)[OF ok] by (simp add: mm_ok_def mm_collected_def)
qed

lemma mm_collected_evolves:
  assumes ok: "mm_ok T D m" and "mm_gc m j < w" "mm_phase_of m = Active"
  shows "evolves T D m (mm_collected m j w)"
proof -
  let ?m = "mm_collected m j w"
  have "\<exists>s'. mr_replay [SetGcWatermark j w] s = Some s' \<and> mirrors ?m s'" if s: "mirrors m s" for s
  proof -
    have "mr_hard_state s = mm_hard m" using s by (simp add: mirrors_def)
    then have "mr_apply s (SetGcWatermark j w) = Some \<lparr>mr_hard_state = mm_hard ?m, mr_registry = mr_collect (mr_registry s) j w\<rparr>"
      using apply_watermark[OF mirrors_ok[OF s ok], of j w] assms(2) by (simp add: mm_collected_def)
    moreover have "mirrors ?m \<lparr>mr_hard_state = mm_hard ?m, mr_registry = mr_collect (mr_registry s) j w\<rparr>"
    proof -
      have "fm_from w fmempty = (fmempty :: ledger)" by (intro fmap_ext) simp
      then show ?thesis using s by (auto simp: mirrors_def mm_ledger_collected mr_collect_lookup split: option.split)
    qed
    ultimately show ?thesis by simp
  qed
  moreover have "registry_extends m ?m"
    using assms(2,3) by (auto simp: registry_extends_def mm_ledger_collected mm_gc_collected not_le fmlookup_dom'_iff split: if_splits)
  moreover have "mm_gc m j' \<le> mm_gc ?m j'" for j' using less_imp_le[OF assms(2)] by (simp add: mm_gc_collected)
  moreover have "list_all (write_covered (mm_hard ?m)) [SetGcWatermark j w]"
    using mm_gc_collected[of m j w j] by (simp add: write_covered_def)
  moreover have "mm_writes ?m = mm_writes m @ [SetGcWatermark j w]" "mm_config ?m = mm_config m" "mm_limits ?m = mm_limits m"
    "hs_generation (mm_hard ?m) = hs_generation (mm_hard m)"
    by (simp_all add: mm_collected_def)
  ultimately show ?thesis using mm_ok_collected[OF ok] unfolding evolves_def by (metis order_refl)
qed

lemma fmupd_twice [simp]: "fmupd k v (fmupd k v' m) = fmupd k v m"
  by (rule fmap_ext) simp

lemma siblings_kept:
  "list_all (\<lambda>(j', floor). hs_gc_watermark (hs_journal_mut h j f) j' = floor)
     (map (\<lambda>(j, sc). (j, sc_gc_watermark sc)) (filter (\<lambda>(j', _). j' \<noteq> j) (fm_entries (hs_journals h))))"
  by (auto simp: list_all_iff hs_gc_watermark_def)

definition gc_result :: "matchmaker \<Rightarrow> journal_id \<Rightarrow> matchmaker_generation \<Rightarrow> ballot \<Rightarrow> gc_outcome \<times> matchmaker" where
  "gc_result m j g w = (if judged m g \<noteq> None then (Gc_Refused, m)
     else if w \<le> mm_gc m j then (Gc_Unchanged, m) else (Gc_Raised, mm_collected m j w))"

lemma advance_gc_total [total_simps]:
  assumes ok: "mm_ok T D m"
  shows "advance_gc_watermark m j g w = Some (gc_result m j g w)"
proof (cases "judged m g \<noteq> None \<or> w \<le> mm_gc m j")
  case True
  then show ?thesis
    by (auto simp: advance_gc_watermark_def gc_result_def mm_assert_total[OF ok] judge_generation_total[OF ok])
next
  case False
  let ?m = "mm_collected m j w"
  have ok': "mm_ok T D ?m" by (rule mm_ok_collected[OF ok])
  have "mm_window ?m j = Some (\<lparr>rw_map = fm_from w (mm_ledger m j), rw_base = w\<rparr>, ?m)"
    using mm_window_total[OF mm_okD(2)[OF ok'], of j] by (simp add: mm_ledger_collected mm_gc_collected) (simp add: mm_collected_def)
  moreover have "rw_floor \<lparr>rw_map = fm_from w (mm_ledger m j), rw_base = w\<rparr> = Some w"
    by (simp add: rw_floor_def fm_first_is_none_or)
  moreover have "rw_raise_floor \<lparr>rw_map = mm_ledger m j, rw_base = mm_gc m j\<rparr> w =
      Some \<lparr>rw_map = fm_from w (mm_ledger m j), rw_base = w\<rparr>"
    using False by (auto simp: rw_raise_floor_total)
  moreover have "m\<lparr>mm_registries := fmupd j \<lparr>rw_map = fm_from w (mm_ledger m j), rw_base = w\<rparr> (mm_registries m),
      mm_hard := hs_journal_mut (mm_hard m) j (\<lambda>sc. sc\<lparr>sc_gc_watermark := w\<rparr>), mm_writes := mm_writes m @ [SetGcWatermark j w]\<rparr> = ?m"
    by (simp add: mm_collected_def)
  moreover have "length (mm_writes ?m) = length (mm_writes m) + 1" by (simp add: mm_collected_def)
  moreover have "list_all (\<lambda>(j', floor). mm_gc ?m j' = floor)
     (map (\<lambda>(j, sc). (j, sc_gc_watermark sc)) (filter (\<lambda>(j', _). j' \<noteq> j) (fm_entries (hs_journals (mm_hard m)))))"
    using siblings_kept[of "mm_hard m" j "\<lambda>sc. sc\<lparr>sc_gc_watermark := w\<rparr>"] by (simp add: mm_collected_def)
  ultimately show ?thesis
    using False
    by (simp add: advance_gc_watermark_def gc_result_def mm_assert_total[OF ok] mm_assert_total[OF ok'] judge_generation_total[OF ok]
        mm_window_total[OF mm_okD(2)[OF ok]] mm_put_window_def Let_def)
qed

lemma advance_gc_evolves:
  "mm_ok T D m \<Longrightarrow> advance_gc_watermark m j g w = Some (out, m') \<Longrightarrow> evolves T D m m'"
  using mm_collected_evolves[of T D m j w] evolves_refl[of T D m] judged_None[of m g]
  by (auto simp: advance_gc_total gc_result_def not_le split: if_splits)

text \<open>The acknowledgement of a collection never panics, and one that is applied covers the request.\<close>

lemma mm_gc_ack_total:
  assumes ok: "mm_ok T D m" and adv: "advance_gc_watermark m (gq_journal q) (gq_generation q) (gq_watermark q) = Some (out, m')"
  shows "\<exists>ack. mm_gc_ack m' q out = Some ack \<and> ga_applied ack = (judged m (gq_generation q) = None) \<and>
    (ga_applied ack \<longrightarrow> gq_watermark q \<le> mm_gc m' (gq_journal q))"
proof (cases "judged m (gq_generation q) = None")
  case True
  then have "out \<noteq> Gc_Refused" "gq_watermark q \<le> mm_gc m' (gq_journal q)"
    using adv by (auto simp: advance_gc_total[OF ok] gc_result_def mm_gc_collected split: if_splits)
  then show ?thesis using True by (simp add: mm_gc_ack_def Let_def)
next
  case False
  then have "out = Gc_Refused" "m' = m" using adv by (auto simp: advance_gc_total[OF ok] gc_result_def split: if_splits)
  then show ?thesis
    using False newer_set_total[OF ok, of "gq_generation q"]
    by (auto simp: mm_gc_ack_def Let_def frozen_without_successor_total[OF ok] judge_generation_total[OF ok])
qed

end
