(* ===== verification/Restart.thy ===== *)
theory Restart
  imports Matchmaker_Inv
begin

section \<open>A restart\<close>

text \<open>\<^verbatim>\<open>Matchmaker::new\<close> over the reference store.\<close>

definition mm_boot :: "matchmaker_config \<Rightarrow> mem_registry \<Rightarrow> limits \<Rightarrow> matchmaker option" where
  "mm_boot cfg s l = mm_new cfg (mr_hard_state s) (mr_registered s) (mr_registration s) l"

definition mm_rested :: "matchmaker \<Rightarrow> matchmaker" where
  "mm_rested m = m\<lparr>mm_writes := [], mm_replies := [], mm_reconfigure_replies := []\<rparr>"

definition lookup2 :: "('j, ('b, 'r) fmap) fmap \<Rightarrow> 'j \<Rightarrow> 'b \<Rightarrow> 'r option" where
  "lookup2 L j b = (case fmlookup L j of None \<Rightarrow> None | Some l \<Rightarrow> fmlookup l b)"

lemma lookup2_ext:
  fixes L R :: "('j, ('b, 'r) fmap) fmap"
  assumes "\<And>j l. fmlookup L j = Some l \<Longrightarrow> l \<noteq> fmempty" "\<And>j l. fmlookup R j = Some l \<Longrightarrow> l \<noteq> fmempty"
    and eq: "\<And>j b. lookup2 L j b = lookup2 R j b"
  shows "L = R"
proof (rule fmap_ext)
  fix j
  have filled: "\<exists>b. fmlookup l b \<noteq> None" if "l \<noteq> fmempty" for l :: "('b, 'r) fmap"
    using that by (metis fmap_ext fmempty_lookup)
  show "fmlookup L j = fmlookup R j"
  proof (cases "fmlookup L j")
    case None
    then have "lookup2 R j b = None" for b using eq[of j b] by (simp add: lookup2_def)
    then have "fmlookup R j = None"
    proof (cases "fmlookup R j")
      case (Some l)
      then obtain b where "fmlookup l b \<noteq> None" using filled[OF assms(2)[OF Some]] by blast
      then show ?thesis using Some \<open>lookup2 R j b = None\<close> by (simp add: lookup2_def)
    qed
    then show ?thesis using None by simp
  next
    case (Some l)
    then obtain b where "fmlookup l b \<noteq> None" using filled assms(1) by blast
    then obtain l' where l': "fmlookup R j = Some l'" using eq[of j b] Some by (cases "fmlookup R j") (auto simp: lookup2_def)
    then have "l = l'" using eq[of j] Some by (intro fmap_ext) (simp add: lookup2_def)
    then show ?thesis using Some l' by simp
  qed
qed

text \<open>The registry walk rebuilds the ledgers it names.\<close>

lemma walk_total:
  assumes "distinct xs" "\<And>j b. (j, b) \<in> set xs \<Longrightarrow> R j b \<noteq> None"
    and L: "\<And>j b. (j, b) \<in> set xs \<Longrightarrow> lookup2 L j b = None" "\<And>j l. fmlookup L j = Some l \<Longrightarrow> l \<noteq> fmempty"
  shows "\<exists>L'. try_fold (\<lambda>(j, b) ledgers. do {
         r \<leftarrow> R j b;
         let ledger = (case fmlookup ledgers j of None \<Rightarrow> fmempty | Some l \<Rightarrow> l);
         check (fmlookup ledger b = None);
         Some (fmupd j (fmupd b r ledger) ledgers)
       }) xs L = Some L' \<and> (\<forall>j b. lookup2 L' j b = (if (j, b) \<in> set xs then R j b else lookup2 L j b)) \<and>
       (\<forall>j l. fmlookup L' j = Some l \<longrightarrow> l \<noteq> fmempty)"
  using assms
proof (induction xs arbitrary: L)
  case (Cons x xs)
  obtain j b where x: "x = (j, b)" by fastforce
  then obtain r where r: "R j b = Some r" using Cons.prems(2)[of j b] by auto
  let ?l = "case fmlookup L j of None \<Rightarrow> fmempty | Some l \<Rightarrow> l"
  let ?L = "fmupd j (fmupd b r ?l) L"
  have l: "fmlookup ?l b = None" using Cons.prems(3)[of j b] x by (auto simp: lookup2_def split: option.split)
  have look: "lookup2 ?L j' b' = (if j' = j \<and> b' = b then Some r else lookup2 L j' b')" for j' b'
    by (auto simp: lookup2_def split: option.split)
  have "(j', b') \<in> set xs \<Longrightarrow> lookup2 ?L j' b' = None" for j' b'
    using Cons.prems(1,3) x look by auto
  moreover have "fmlookup ?L j' = Some l \<Longrightarrow> l \<noteq> fmempty" for j' l
    using Cons.prems(4) by (auto split: if_splits)
  ultimately obtain L' where L': "try_fold (\<lambda>(j, b) ledgers. do {
         r \<leftarrow> R j b;
         let ledger = (case fmlookup ledgers j of None \<Rightarrow> fmempty | Some l \<Rightarrow> l);
         check (fmlookup ledger b = None);
         Some (fmupd j (fmupd b r ledger) ledgers)
       }) xs ?L = Some L'" "\<forall>j b. lookup2 L' j b = (if (j, b) \<in> set xs then R j b else lookup2 ?L j b)"
       "\<forall>j l. fmlookup L' j = Some l \<longrightarrow> l \<noteq> fmempty"
    using Cons.IH[of ?L] Cons.prems(1,2) by auto
  then show ?case using x r l Cons.prems(1) look by (intro exI[of _ L']) (auto simp: Let_def)
qed simp

lemma mr_registered_set: "(j, b) \<in> set (mr_registered s) \<longleftrightarrow> mr_registration s j b \<noteq> None"
proof
  show "(j, b) \<in> set (mr_registered s) \<Longrightarrow> mr_registration s j b \<noteq> None"
    by (auto simp: mr_registered_def mr_registration_def fmlookup_dom'_iff)
next
  assume "mr_registration s j b \<noteq> None"
  then obtain l r where "fmlookup (mr_registry s) j = Some l" "fmlookup l b = Some r"
    by (auto simp: mr_registration_def split: option.splits)
  then have "(j, l) \<in> set (fm_entries (mr_registry s))" "b \<in> fmdom' l" by (auto intro: fmdom'I)
  then show "(j, b) \<in> set (mr_registered s)" by (force simp: mr_registered_def)
qed

lemma mr_registered_distinct: "distinct (mr_registered s)"
proof -
  have "distinct (concat (map (\<lambda>(j, l). map (Pair j) (fm_keys l)) es))"
    if "distinct (map fst es)" for es :: "(journal_id \<times> ledger) list"
    using that by (induction es) (force simp: distinct_map inj_on_def)+
  then show ?thesis unfolding mr_registered_def by (simp add: strict_sorted_distinct fm_entries_sorted)
qed

lemma fold_windows:
  assumes "distinct (map fst es)"
  shows "fmlookup (fold (\<lambda>(j, l) regs. fmupd j (f j l) regs) es regs) k =
    (case map_of es k of None \<Rightarrow> fmlookup regs k | Some l \<Rightarrow> Some (f k l))"
  using assms
proof (induction es arbitrary: regs)
  case (Cons e es)
  obtain j l where e: "e = (j, l)" by fastforce
  then have "map_of es j = None" using Cons.prems by (simp add: map_of_eq_None_iff)
  then show ?case using Cons e by (auto split: option.split)
qed simp

lemma normal_bootstrap: "sorted_wrt (<) bs \<Longrightarrow> remdups_adj (sort bs) = (bs :: nat list)"
  by (auto simp: strict_sorted_iff sorted_sort_id remdups_adj_distinct)

lemma boot_mirrors:
  assumes ok: "mm_ok T D m" and s: "mirrors m s"
  shows "mm_boot (mm_config m) s (mm_limits m) = Some (mm_rested m)"
proof -
  note regs = mm_okD(2)[OF ok]
  have h: "mr_hard_state s = mm_hard m" using s by (simp add: mirrors_def)
  have st: "store_ok s" by (rule mirrors_ok[OF s ok])
  have walk: "try_fold (\<lambda>(j, b) ledgers. do {
         r \<leftarrow> mr_registration s j b;
         let ledger = (case fmlookup ledgers j of None \<Rightarrow> fmempty | Some l \<Rightarrow> l);
         check (fmlookup ledger b = None);
         Some (fmupd j (fmupd b r ledger) ledgers)
       }) (mr_registered s) fmempty = Some (mr_registry s)"
  proof -
    obtain L where L: "try_fold (\<lambda>(j, b) ledgers. do {
         r \<leftarrow> mr_registration s j b;
         let ledger = (case fmlookup ledgers j of None \<Rightarrow> fmempty | Some l \<Rightarrow> l);
         check (fmlookup ledger b = None);
         Some (fmupd j (fmupd b r ledger) ledgers)
       }) (mr_registered s) fmempty = Some L"
       "\<forall>j b. lookup2 L j b = (if (j, b) \<in> set (mr_registered s) then mr_registration s j b else lookup2 fmempty j b)"
       "\<forall>j l. fmlookup L j = Some l \<longrightarrow> l \<noteq> fmempty"
      using walk_total[OF mr_registered_distinct[of s], of "mr_registration s" fmempty]
      by (auto simp: mr_registered_set lookup2_def)
    have "L = mr_registry s"
    proof (rule lookup2_ext)
      show "lookup2 L j b = lookup2 (mr_registry s) j b" for j b
        using L(2) by (simp add: mr_registered_set) (simp add: lookup2_def mr_registration_def)
    qed (use L(3) store_okD(1)[OF st] in blast)+
    then show ?thesis using L(1) by simp
  qed
  have led: "fmlookup (mr_registry s) j = (if mm_ledger m j = fmempty then None else Some (mm_ledger m j))" for j
    using s by (simp add: mirrors_def)
  have opened: "try_map (\<lambda>(j, scalars). do {
         w \<leftarrow> rw_new fmempty (sc_gc_watermark scalars);
         Some (j, w)
       }) (fm_entries (hs_journals (mm_hard m))) =
       Some (map (\<lambda>(j, sc). (j, \<lparr>rw_map = fmempty, rw_base = sc_gc_watermark sc\<rparr>)) (fm_entries (hs_journals (mm_hard m))))"
    by (rule try_map_total) (auto simp: rw_new_total)
  let ?o = "fmap_of_list (map (\<lambda>(j, sc). (j, \<lparr>rw_map = fmempty, rw_base = sc_gc_watermark sc\<rparr>)) (fm_entries (hs_journals (mm_hard m))))
    :: (journal_id, (ballot, registration) retained_window) fmap"
  have filled: "try_fold (\<lambda>(j, ledger) registries. do {
         w \<leftarrow> rw_new ledger (mm_gc m j);
         Some (fmupd j w registries)
       }) (fm_entries (mr_registry s)) ?o =
     Some (fold (\<lambda>(j, l) regs. fmupd j \<lparr>rw_map = l, rw_base = mm_gc m j\<rparr> regs) (fm_entries (mr_registry s)) ?o)"
    using store_okD(2)[OF st] h by (intro try_fold_total) (auto simp: rw_new_total)
  have "fold (\<lambda>(j, l) regs. fmupd j \<lparr>rw_map = l, rw_base = mm_gc m j\<rparr> regs) (fm_entries (mr_registry s)) ?o = mm_registries m"
  proof (rule fmap_ext)
    fix j
    have o: "fmlookup ?o j = map_option (\<lambda>sc. \<lparr>rw_map = fmempty, rw_base = sc_gc_watermark sc\<rparr>) (fmlookup (hs_journals (mm_hard m)) j)"
      by (simp add: fmlookup_of_list map_of_map comp_def map_of_fm_entries)
    show "fmlookup (fold (\<lambda>(j, l) regs. fmupd j \<lparr>rw_map = l, rw_base = mm_gc m j\<rparr> regs) (fm_entries (mr_registry s)) ?o) j = fmlookup (mm_registries m) j"
    proof (cases "fmlookup (mm_registries m) j")
      case None
      then have "fmlookup (hs_journals (mm_hard m)) j = None" using registries_ok_journal(1)[OF regs]
        by (cases "fmlookup (hs_journals (mm_hard m)) j") auto
      then show ?thesis using None led[of j] o
        by (simp add: fold_windows strict_sorted_distinct fm_entries_sorted map_of_fm_entries mm_ledger_def)
    next
      case (Some w)
      note w = registries_okD[OF regs Some]
      have "mm_ledger m j = rw_map w" using Some by (simp add: mm_ledger_def)
      moreover have "fmlookup ?o j = Some w" if "rw_map w = fmempty"
        using w(4)[OF that] o w(2) that by (cases "fmlookup (hs_journals (mm_hard m)) j") (auto simp: hs_gc_watermark_def)
      ultimately show ?thesis using Some led[of j] w(2)
        by (auto simp: fold_windows strict_sorted_distinct fm_entries_sorted map_of_fm_entries)
    qed
  qed
  moreover have "list_all (\<lambda>(j, l). case fm_first l of None \<Rightarrow> True | Some lowest \<Rightarrow> lowest \<ge> mm_gc m j) (fm_entries (mr_registry s))"
    using store_okD(2)[OF st] h by (simp add: store_check)
  moreover have "mm_assert_invariants (mm_rested m) = Some ()"
    using mm_assert_total[of T D "mm_rested m"] ok by (simp add: mm_rested_def mm_ok_def)
  moreover have "mm_rested m = \<lparr>mm_config = \<lparr>mc_id = mm_id m, mc_bootstrap = mm_bootstrap m\<rparr>, mm_hard = mm_hard m, mm_set = mm_set m,
      mm_registries = mm_registries m, mm_writes = [], mm_replies = [], mm_reconfigure_replies = [], mm_limits = mm_limits m\<rparr>"
    by (simp add: mm_rested_def)
  ultimately show ?thesis
    using mm_okD(1,4)[OF ok] membership_set(2)[OF mm_okD(5,4)[OF ok]]
    by (simp add: mm_boot_def mm_new_def h walk opened filled limits_assert_total bootstrap_ok_def normal_bootstrap)
qed

end
