(* ===== verification/Generation_Inv.thy ===== *)
theory Generation_Inv
  imports Generation Restart
begin

section \<open>What a handover keeps\<close>

text \<open>
  Every message of a handover is answered without a panic, keeps the invariant of the matchmaker, and
  stages the writes that rebuild what it leaves. The generation only rises, and a frozen generation
  registers nothing more.
\<close>

subsection \<open>Staged scalars\<close>

definition staged :: "matchmaker \<Rightarrow> matchmaker_hard_state \<Rightarrow> matchmaker_set \<Rightarrow> matchmaker" where
  "staged m h s = m\<lparr>mm_hard := h, mm_set := s, mm_writes := mm_writes m @ [SetScalars h]\<rparr>"

lemma registries_ok_journals: "hs_journals h' = hs_journals h \<Longrightarrow> registries_ok T h' regs = registries_ok T h regs"
  by (simp add: registries_ok_def hs_gc_watermark_def)

lemma stage_scalars_total [total_simps]: "stage_scalars m = Some (m\<lparr>mm_writes := mm_writes m @ [SetScalars (mm_hard m)]\<rparr>)"
  by (simp add: stage_scalars_def)

lemma phase_stopped: "mm_phase_of m = Stopped \<longleftrightarrow> hs_phase (mm_hard m) = Stopped"
  by (auto simp: mm_phase_of_def)

text \<open>A handler buffers no reply of its own.\<close>

definition quiet :: "matchmaker \<Rightarrow> matchmaker \<Rightarrow> bool" where
  "quiet m m' \<longleftrightarrow> mm_replies m' = mm_replies m \<and> mm_reconfigure_replies m' = mm_reconfigure_replies m"

definition handles :: "proposals \<Rightarrow> decrees \<Rightarrow> matchmaker \<Rightarrow> matchmaker \<Rightarrow> bool" where
  "handles T D m m' \<longleftrightarrow> evolves T D m m' \<and> quiet m m'"

lemma quiet_refl [simp]: "quiet m m"
  by (simp add: quiet_def)

lemma handlesD:
  assumes "handles T D m m'"
  shows "mm_ok T D m'" "mm_config m' = mm_config m" "evolves T D m m'" "quiet m m'"
  using assms by (simp_all add: handles_def evolves_def)

lemma handles_refl: "mm_ok T D m \<Longrightarrow> handles T D m m"
  by (simp add: handles_def quiet_def evolves_refl)

lemma handles_trans: "handles T D a b \<Longrightarrow> handles T D b c \<Longrightarrow> handles T D a c"
  unfolding handles_def quiet_def using evolves_trans by metis

lemma staged_evolves:
  assumes ok: "mm_ok T D m" and h: "hs_journals h = hs_journals (mm_hard m)" "hs_generation h = hs_generation (mm_hard m)"
    and "handover_ok T D (mm_config m) h s" and frozen: "mm_phase_of m = Stopped \<Longrightarrow> hs_phase h = Stopped"
  shows "handles T D m (staged m h s)"
proof -
  let ?m = "staged m h s"
  have led: "mm_ledger ?m = mm_ledger m" by (intro ext) (simp add: mm_ledger_def staged_def)
  have gc: "mm_gc ?m = mm_gc m" by (intro ext) (simp add: staged_def hs_gc_watermark_def h(1))
  have "mm_ok T D ?m" using ok assms(4) registries_ok_journals[OF h(1)] by (simp add: mm_ok_def staged_def)
  moreover have "\<exists>s'. mr_replay [SetScalars h] st = Some s' \<and> mirrors ?m s'" if st: "mirrors m st" for st
  proof -
    have mh: "mr_hard_state st = mm_hard m" using st by (simp add: mirrors_def)
    have "mr_apply st (SetScalars h) = Some (st\<lparr>mr_hard_state := h\<rparr>)"
      using mirrors_ok[OF st ok] by (intro apply_scalars) (auto simp: mh h(1) hs_gc_watermark_def store_ok_def)
    moreover have "mirrors ?m (st\<lparr>mr_hard_state := h\<rparr>)" using st by (simp add: mirrors_def led) (simp add: staged_def)
    ultimately show ?thesis by simp
  qed
  moreover have "registry_extends m ?m"
    using frozen by (auto simp: registry_extends_def led gc mm_phase_of_def) (auto simp: staged_def)
  moreover have "mm_writes ?m = mm_writes m @ [SetScalars h]" "list_all (write_covered (mm_hard ?m)) [SetScalars h]"
    "mm_config ?m = mm_config m" "mm_limits ?m = mm_limits m" "hs_generation (mm_hard ?m) = hs_generation (mm_hard m)"
    "mm_replies ?m = mm_replies m" "mm_reconfigure_replies ?m = mm_reconfigure_replies m"
    by (simp_all add: staged_def h(2) write_covered_def)
  ultimately show ?thesis unfolding handles_def quiet_def evolves_def using gc by (metis order_refl)
qed

subsection \<open>Fences\<close>

lemma refuse_total [total_simps]:
  "mm_ok T D m \<Longrightarrow> refuse m = Some (Re_Refused (mm_id m) (mm_set m) (mm_phase_of m) (hs_successor (mm_hard m)), m)"
  by (simp add: refuse_def mm_refusal_def mm_set_ok(3) mm_phase_total)

definition serves :: "matchmaker \<Rightarrow> matchmaker_generation \<Rightarrow> bool" where
  "serves m g \<longleftrightarrow> hs_generation (mm_hard m) = g \<and> (mm_phase_of m = Active \<or> mm_phase_of m = Stopped)"

lemma serving_member:
  assumes "mm_ok T D m" "mm_phase_of m = Active \<or> mm_phase_of m = Stopped"
  shows "mm_id m \<in> set (ms_members (mm_set m))"
  using mm_okD(5)[OF assms(1)] assms(2) unfolding membership_ok_def
  by (cases "hs_members (mm_hard m) = []") (auto simp: mm_phase_of_def split: if_splits)

lemma serves_handover_total [total_simps]:
  assumes "mm_ok T D m"
  shows "serves_handover_of m g = Some (serves m g)"
  using mm_set_ok[OF assms] serving_member[OF assms]
  by (auto simp: serves_handover_of_def serves_def mm_phase_total ms_contains_total)

subsection \<open>Freezing\<close>

definition frozen_hard :: "matchmaker \<Rightarrow> matchmaker_hard_state" where
  "frozen_hard m = (mm_hard m)\<lparr>hs_generation := hs_generation (mm_hard m), hs_members := ms_members (mm_set m), hs_phase := Stopped\<rparr>"

lemma frozen_membership:
  assumes ok: "mm_ok T D m" and "mm_phase_of m = Active"
  shows "membership_ok (mm_config m) (frozen_hard m) (mm_set m)"
  using mm_okD(5)[OF ok] mm_set_ok[OF ok] serving_member[OF ok] assms(2)
  by (cases "mm_set m") (auto simp: membership_ok_def frozen_hard_def ms_ok_def)

lemma frozen_handover:
  assumes ok: "mm_ok T D m" and act: "mm_phase_of m = Active"
  shows "handover_ok T D (mm_config m) (frozen_hard m) (mm_set m)"
proof -
  have "hs_successor (mm_hard m) = None"
    using mm_okD(6)[OF ok] act by (cases "hs_successor (mm_hard m)") (auto simp: successor_ok_def mm_phase_of_def)
  then have "successor_ok (frozen_hard m)" by (simp add: successor_ok_def frozen_hard_def)
  then show ?thesis
    using mm_okD(3)[OF ok] frozen_membership[OF assms] by (simp add: handover_ok_def) (simp add: frozen_hard_def)
qed

lemma freeze_total [total_simps]:
  assumes ok: "mm_ok T D m" and act: "mm_phase_of m = Active"
  shows "freeze m = Some (staged m (frozen_hard m) (mm_set m))" "handles T D m (staged m (frozen_hard m) (mm_set m))"
proof -
  show ev: "handles T D m (staged m (frozen_hard m) (mm_set m))"
    using act by (intro staged_evolves[OF ok _ _ frozen_handover[OF assms]]) (simp_all add: frozen_hard_def)
  have "ms_members' (mm_set m) = Some (ms_members (mm_set m))" using mm_set_ok(1)[OF ok] by (simp add: ms_members'_def ms_ok_def)
  moreover have "resolved_set (frozen_hard m) (mm_bootstrap m) = Some (mm_set m)"
    by (rule membership_set(2)[OF frozen_membership[OF assms] mm_okD(4)[OF ok]])
  ultimately show "freeze m = Some (staged m (frozen_hard m) (mm_set m))"
    using mm_set_ok(3)[OF ok]
    by (simp add: freeze_def mm_refresh_set_def mm_derive_set_def stage_scalars_total mm_phase_total staged_def Let_def frozen_hard_def mm_phase_of_def)
qed

subsection \<open>Frozen pages\<close>

definition report_of :: "matchmaker \<Rightarrow> journal_id \<Rightarrow> journal_registry" where
  "report_of m j = \<lparr>jr_gc_watermark = mm_gc m j, jr_history = mm_ledger m j, jr_effective = hs_effective (mm_hard m) j\<rparr>"

definition reports :: "matchmaker \<Rightarrow> journal_id option \<Rightarrow> (journal_id \<times> journal_registry) list" where
  "reports m after = filter (\<lambda>(_, r). \<not> jr_is_blank r) (map (\<lambda>j. (j, report_of m j)) (filter (past after) (fm_keys (mm_registries m))))"

lemma sorted_filter_fst: "sorted_wrt P (map fst xs) \<Longrightarrow> sorted_wrt P (map fst (filter Q xs))"
  by (induction xs) auto

lemma reports_sorted: "sorted_wrt (<) (map fst (reports m after))"
proof -
  have "sorted_wrt (<) (map fst (map (\<lambda>j. (j, report_of m j)) (filter (past after) (fm_keys (mm_registries m)))))"
    by (simp add: comp_def strict_sorted_iff sorted_wrt_filter)
  then show ?thesis unfolding reports_def by (rule sorted_filter_fst)
qed

lemma frozen_page_total [total_simps]:
  assumes ok: "mm_ok T D m" and page: "0 < page"
  shows "frozen_page m after page = Some (fmap_of_list (take page (reports m after)),
    if drop page (reports m after) \<noteq> [] then fm_last (fmap_of_list (take page (reports m after))) else None)"
proof -
  let ?rs = "reports m after"
  have js: "mm_journals m = Some (fm_keys (mm_registries m))"
    using registries_ok_journal(1)[OF mm_okD(2)[OF ok]] by (auto simp: mm_journals_def list_all_iff fmlookup_dom'_iff)
  have st: "sorted_wrt (<) (map fst (take page ?rs))"
    unfolding take_map[symmetric] using reports_sorted by (rule sorted_wrt_take)
  have tm: "try_map (\<lambda>j. do {
         ledger \<leftarrow> mm_registry m j;
         Some (j, \<lparr>jr_gc_watermark = mm_gc m j, jr_history = ledger, jr_effective = hs_effective (mm_hard m) j\<rparr>)
       }) xs = Some (map (\<lambda>j. (j, report_of m j)) xs)" for xs
    by (rule try_map_total) (simp add: mm_registry_total[OF ok] report_of_def)
  have floor: "list_all (\<lambda>(_, r). case fm_first (jr_history r) of None \<Rightarrow> True | Some b \<Rightarrow> b \<ge> jr_gc_watermark r) (fm_entries (fmap_of_list (take page ?rs)))"
  proof -
    have "case fm_first (jr_history r) of None \<Rightarrow> True | Some b \<Rightarrow> b \<ge> jr_gc_watermark r"
      if "fmlookup (fmap_of_list (take page ?rs)) j = Some r" for j r
    proof -
      have "(j, r) \<in> set (take page ?rs)" using that by (simp add: fmlookup_of_list map_of_SomeD)
      then have "(j, r) \<in> set ?rs" by (rule in_set_takeD)
      then have "r = report_of m j" by (auto simp: reports_def)
      then show ?thesis using mm_ledger_floor[OF ok, of _ j] by (simp add: report_of_def fm_first_is_none_or)
    qed
    then show ?thesis by (auto simp: list_all_iff)
  qed
  have "fm_len (fmap_of_list (take page ?rs)) = page" if "drop page ?rs \<noteq> []"
    using that by (simp add: map_of_list_len[OF st])
  then show ?thesis
    using page floor by (cases "drop page ?rs = []") (simp_all only: frozen_page_def js tm Let_def bind.bind_lunit reports_def[symmetric]
        if_True if_False check_simps not_True_eq_False simp_thms, simp_all)
qed

lemma on_stop_total:
  assumes ok: "mm_ok T D m"
  shows "\<exists>reply m'. on_stop m g after = Some (reply, m') \<and> re_matchmaker reply = mm_id m \<and> handles T D m m'
    \<and> (serves m g \<longrightarrow> mm_phase_of m' = Stopped)"
proof (cases "serves m g")
  case False
  then show ?thesis using handles_refl[OF ok]
    by (simp add: on_stop_def serves_handover_total[OF ok] refuse_total[OF ok])
next
  case True
  let ?m = "if mm_phase_of m = Active then staged m (frozen_hard m) (mm_set m) else m"
  have ev: "handles T D m ?m" using freeze_total(2)[OF ok] handles_refl[OF ok] by simp
  have stop: "mm_phase_of ?m = Stopped"
    using True by (auto simp: serves_def staged_def frozen_hard_def mm_phase_of_def)
  have "(if mm_phase_of m = Active then freeze m else Some m) = Some ?m" using freeze_total(1)[OF ok] by simp
  moreover have "mm_id ?m = mm_id m" using handlesD(2)[OF ev] by simp
  moreover have "0 < lm_registry_page (mm_limits ?m)" using mm_okD(1)[OF handlesD(1)[OF ev]] by (simp add: limits_ok_def)
  ultimately show ?thesis
    using True ev stop
    by (simp add: on_stop_def serves_handover_total[OF ok] mm_phase_total frozen_page_total[OF handlesD(1)[OF ev]])
qed

subsection \<open>Bootstraps\<close>

definition bootstrap_page_ok :: "proposals \<Rightarrow> bootstrap_page \<Rightarrow> bool" where
  "bootstrap_page_ok T p \<longleftrightarrow> ms_ok (bp_set p) \<and> ms_generation (bp_set p) < u64_max \<and>
     (\<forall>j r. fmlookup (bp_registries p) j = Some r \<longrightarrow> ledger_agrees (T j) (jr_history r) \<and> effective_agrees (T j) (jr_effective r))"

lemma find_index:
  assumes "find P xs = Some y"
  shows "length (takeWhile (\<lambda>x. \<not> P x) xs) < length xs" "xs ! length (takeWhile (\<lambda>x. \<not> P x) xs) = y" "P y" "y \<in> set xs"
  using assms by (induction xs) (auto split: if_splits)

lemma find_NoneD: "find P xs = None \<Longrightarrow> x \<in> set xs \<Longrightarrow> \<not> P x"
  by (simp add: find_None_iff)

lemma distinct_filter_one: "distinct (map f xs) \<Longrightarrow> length (filter (\<lambda>x. f x = a) xs) \<le> 1"
proof (induction xs)
  case (Cons x xs)
  have "filter (\<lambda>x. f x = a) xs = []" if "f x = a" using Cons.prems that by (auto simp: filter_empty_conv image_iff)
  then show ?case using Cons by auto
qed simp

text \<open>The pending bootstraps after one of them is written.\<close>

definition held_bootstraps :: "pending_bootstrap list \<Rightarrow> pending_bootstrap \<Rightarrow> pending_bootstrap list" where
  "held_bootstraps ps p = (if find (\<lambda>q. pb_set q = pb_set p) ps = None then ps @ [p]
     else ps[length (takeWhile (\<lambda>q. pb_set q \<noteq> pb_set p) ps) := p])"

lemma held_bootstraps_set: "set (held_bootstraps ps p) \<subseteq> insert p (set ps)"
  using set_update_subset_insert[of ps _ p] by (simp add: held_bootstraps_def)

lemma held_bootstraps_distinct:
  assumes "distinct (map pb_set ps)"
  shows "distinct (map pb_set (held_bootstraps ps p))"
proof (cases "find (\<lambda>q. pb_set q = pb_set p) ps")
  case None
  then show ?thesis using assms by (auto simp: held_bootstraps_def find_None_iff)
next
  case (Some q)
  note i = find_index[OF Some]
  have "map pb_set (ps[length (takeWhile (\<lambda>q. pb_set q \<noteq> pb_set p) ps) := p]) = map pb_set ps"
    using i(1-3) by (simp add: map_update list_update_same_conv)
  then show ?thesis using Some assms by (simp add: held_bootstraps_def)
qed

lemma held_bootstraps_find:
  "find (\<lambda>q. pb_set q = pb_set p) (held_bootstraps ps p) = Some p"
proof (cases "find (\<lambda>q. pb_set q = pb_set p) ps")
  case None
  then have "find (\<lambda>q. pb_set q = pb_set p) (ps @ [p]) = Some p" by (induction ps) (auto split: if_splits)
  then show ?thesis using None by (simp add: held_bootstraps_def)
next
  case (Some q)
  then have "find (\<lambda>q. pb_set q = pb_set p) (ps[length (takeWhile (\<lambda>q. pb_set q \<noteq> pb_set p) ps) := p]) = Some p"
    by (induction ps) (auto split: if_splits)
  then show ?thesis using Some by (simp add: held_bootstraps_def)
qed

lemma pending_handover:
  assumes ok: "mm_ok T D m" and p: "pending_ok T (mm_id m) (hs_generation (mm_hard m)) p"
    and settled: "\<And>s. hs_successor (mm_hard m) = Some s \<Longrightarrow> ms_generation (pb_set p) > ms_generation s \<or> pb_set p = s"
  shows "handover_ok T D (mm_config m) ((mm_hard m)\<lparr>hs_pending := held_bootstraps (hs_pending (mm_hard m)) p\<rparr>) (mm_set m)"
proof -
  let ?ps = "held_bootstraps (hs_pending (mm_hard m)) p"
  have "\<forall>q \<in> set ?ps. pending_ok T (mm_id m) (hs_generation (mm_hard m)) q"
    using mm_okD(8)[OF ok] p held_bootstraps_set by fastforce
  moreover have "successor_ok ((mm_hard m)\<lparr>hs_pending := ?ps\<rparr>)"
    unfolding successor_ok_def
  proof (intro allI impI conjI ballI)
    fix s assume s: "hs_successor ((mm_hard m)\<lparr>hs_pending := ?ps\<rparr>) = Some s"
    then show "ms_ok s" "ms_generation s = hs_generation ((mm_hard m)\<lparr>hs_pending := ?ps\<rparr>) + 1" "hs_phase ((mm_hard m)\<lparr>hs_pending := ?ps\<rparr>) = Stopped"
      using mm_okD(6)[OF ok] by (simp_all add: successor_ok_def)
    fix q assume "q \<in> set (hs_pending ((mm_hard m)\<lparr>hs_pending := ?ps\<rparr>))"
    then have "q = p \<or> q \<in> set (hs_pending (mm_hard m))" using held_bootstraps_set by fastforce
    then show "ms_generation s < ms_generation (pb_set q) \<or> pb_set q = s"
      using s settled mm_okD(6)[OF ok] by (auto simp: successor_ok_def)
  qed
  moreover have "membership_ok (mm_config m) ((mm_hard m)\<lparr>hs_pending := ?ps\<rparr>) (mm_set m)"
    using mm_okD(5)[OF ok] unfolding membership_ok_def by simp
  ultimately show ?thesis
    using mm_okD(4,7)[OF ok] held_bootstraps_distinct[OF mm_okD(9)[OF ok]] by (simp add: handover_ok_def)
qed

lemma on_bootstrap_total:
  assumes ok: "mm_ok T D m" and page: "bootstrap_page_ok T page"
  shows "\<exists>reply m'. on_bootstrap m page = Some (reply, m') \<and> re_matchmaker reply = mm_id m \<and> handles T D m m'"
proof -
  let ?s = "bp_set page" and ?g = "hs_generation (mm_hard m)" and ?ps = "hs_pending (mm_hard m)"
  define settled where "settled = (case hs_successor (mm_hard m) of None \<Rightarrow> False
      | Some succ \<Rightarrow> ms_generation ?s \<le> ms_generation succ \<and> ?s \<noteq> succ)"
  have contains: "ms_contains ?s (mm_id m) = Some (mm_id m \<in> set (ms_members ?s))"
    using page by (simp add: bootstrap_page_ok_def ms_contains_total)
  note gen = mm_set_ok(3)[OF ok]
  show ?thesis
  proof (cases "mm_id m \<notin> set (ms_members ?s) \<or> ms_generation ?s \<le> ?g \<or> settled")
    case True
    then have "on_bootstrap m page = refuse m"
      unfolding on_bootstrap_def Let_def by (simp only: contains gen flip: settled_def) simp
    then show ?thesis using handles_refl[OF ok] by (simp add: refuse_total[OF ok])
  next
    case False
    define held where "held = find (\<lambda>p. pb_set p = ?s) ?ps"
    define whole where "whole = (case held of None \<Rightarrow> False | Some p \<Rightarrow> pb_complete p)"
    define fits where "fits = (bp_is_well_formed page \<and> \<not> whole \<and>
         (bp_after page = None \<or> (case held of None \<Rightarrow> False | Some p \<Rightarrow> pb_held p = bp_after page)))"
    define before where "before = (case (bp_after page, held) of (Some _, Some p) \<Rightarrow> pb_registries p | _ \<Rightarrow> fmempty)"
    define b where "b = \<lparr>pb_set = ?s, pb_registries = before ++\<^sub>f bp_registries page, pb_complete = bp_last page\<rparr>"
    define m' where "m' = (if fits then staged m ((mm_hard m)\<lparr>hs_pending := held_bootstraps ?ps b\<rparr>) (mm_set m) else m)"
    have before_ok: "ledger_agrees (T j) (jr_history r) \<and> effective_agrees (T j) (jr_effective r)" if "fmlookup before j = Some r" for j r
    proof -
      from that obtain p where p: "held = Some p" "fmlookup (pb_registries p) j = Some r"
        by (auto simp: before_def split: option.splits)
      then have "pending_ok T (mm_id m) ?g p" using mm_okD(8)[OF ok] find_index(4)[of _ ?ps p] by (simp add: held_def)
      then show ?thesis using p(2) by (simp add: pending_ok_def)
    qed
    have "pending_ok T (mm_id m) ?g b"
      using False page before_ok
      by (auto simp: pending_ok_def b_def bootstrap_page_ok_def split: if_splits)
    then have hand: "handover_ok T D (mm_config m) ((mm_hard m)\<lparr>hs_pending := held_bootstraps ?ps b\<rparr>) (mm_set m)"
      using False by (intro pending_handover[OF ok]) (auto simp: settled_def b_def)
    have ev: "handles T D m m'"
      using staged_evolves[OF ok _ _ hand] handles_refl[OF ok] by (simp add: m'_def phase_stopped)
    have pend: "(if held = None then ?ps @ [b] else ?ps[length (takeWhile (\<lambda>p. pb_set p \<noteq> ?s) ?ps) := b]) = held_bootstraps ?ps b"
      by (simp add: held_bootstraps_def held_def b_def)
    have stage: "(if fits then stage_scalars (m\<lparr>mm_hard := (mm_hard m)\<lparr>hs_pending := held_bootstraps ?ps b\<rparr>\<rparr>) else Some m) = Some m'"
      by (simp add: m'_def stage_scalars_total staged_def)
    have "length (filter (\<lambda>p. pb_set p = ?s) (hs_pending (mm_hard m'))) \<le> 1"
      by (rule distinct_filter_one[OF mm_okD(9)[OF handlesD(1)[OF ev]]])
    moreover have "whole \<longrightarrow> (case find (\<lambda>p. pb_set p = ?s) (hs_pending (mm_hard m')) of None \<Rightarrow> False | Some p \<Rightarrow> pb_complete p)"
      by (simp add: m'_def fits_def whole_def held_def)
    ultimately have "\<exists>reply. on_bootstrap m page = Some (reply, m') \<and> re_matchmaker reply = mm_id m"
      using False unfolding on_bootstrap_def Let_def
      by (simp only: contains gen bind.bind_lunit flip: settled_def held_def)
        (simp only: flip: whole_def before_def, simp only: flip: fits_def b_def, simp only: pend stage, simp)
    then show ?thesis using ev by blast
  qed
qed

subsection \<open>The successor decree\<close>

definition decree_records :: "decree_record \<Rightarrow> (slot, ballot \<times> matchmaker_id list) fmap" where
  "decree_records d = (case dr_vote d of None \<Rightarrow> fmempty | Some vote \<Rightarrow> fmupd DECREE_SLOT vote fmempty)"

definition decree_booted :: "decree_record \<Rightarrow> matchmaker_id list acceptor" where
  "decree_booted d = booted (dr_promised d) (decree_records d) DECREE_SLOT fmempty"

lemma decree_booted_simps:
  "acc_promised (decree_booted d) = dr_promised d" "acc_record (decree_booted d) DECREE_SLOT = dr_vote d"
  "acc_floor (decree_booted d) = DECREE_SLOT" "fmlookup (rw_map (acc_faulty (decree_booted d))) DECREE_SLOT = None"
  by (auto simp: decree_booted_def booted_def decree_records_def split: option.split)

lemma decree_boot_ok:
  assumes "decree_ok D d"
  shows "boot_ok (dr_promised d) (decree_records d) DECREE_SLOT fmempty" "acceptor_ok (decree_booted d)"
proof -
  show b: "boot_ok (dr_promised d) (decree_records d) DECREE_SLOT fmempty"
    using assms by (auto simp: boot_ok_def decree_records_def decree_ok_def split: option.splits if_splits)
  show "acceptor_ok (decree_booted d)" unfolding decree_booted_def by (rule booted_ok[OF b])
qed

lemma decree_acceptor_total [total_simps]:
  assumes "mm_ok T D m"
  shows "decree_acceptor m = Some (decree_booted (hs_decree (mm_hard m)))"
proof -
  note d = decree_boot_ok[OF mm_okD(7)[OF assms]]
  have "acceptor_new (dr_promised (hs_decree (mm_hard m))) (decree_records (hs_decree (mm_hard m))) DECREE_SLOT fmempty
      = Some (decree_booted (hs_decree (mm_hard m)))"
    using d(1) by (simp add: acceptor_new_total decree_booted_def)
  then show ?thesis
    by (simp add: decree_acceptor_def acceptor_reads_total[OF d(2)] decree_booted_simps Let_def flip: decree_records_def)
qed

lemma decree_handover:
  assumes ok: "mm_ok T D m" and d: "decree_ok (D (hs_generation (mm_hard m))) d"
  shows "handover_ok T D (mm_config m) ((mm_hard m)\<lparr>hs_decree := d\<rparr>) (mm_set m)"
proof -
  have "membership_ok cfg (h\<lparr>hs_decree := d\<rparr>) s = membership_ok cfg h s" "successor_ok (h\<lparr>hs_decree := d\<rparr>) = successor_ok h" for cfg h s
    by (simp_all add: membership_ok_def successor_ok_def)
  then show ?thesis using mm_okD(3)[OF ok] d by (simp add: handover_ok_def)
qed

lemma store_decree_total:
  assumes ok: "mm_ok T D m" and a: "acceptor_ok a" "writes \<noteq> []" "dr_promised (hs_decree (mm_hard m)) \<le> acc_promised a"
  shows "store_decree m a writes =
    Some (staged m ((mm_hard m)\<lparr>hs_decree := \<lparr>dr_promised = acc_promised a, dr_vote = acc_record a DECREE_SLOT\<rparr>\<rparr>) (mm_set m))"
  using assms acceptor_record_promised[OF a(1)]
  by (auto simp: store_decree_def acceptor_reads_total stage_scalars_total staged_def Let_def split: option.split)

lemma on_decree_prepare_total:
  assumes ok: "mm_ok T D m"
  shows "\<exists>reply m'. on_decree_prepare m g b = Some (reply, m') \<and> re_matchmaker reply = mm_id m \<and> handles T D m m'"
proof (cases "serves m g")
  case False
  then show ?thesis using handles_refl[OF ok]
    by (simp add: on_decree_prepare_def serves_handover_total[OF ok] refuse_total[OF ok])
next
  case True
  let ?d = "hs_decree (mm_hard m)"
  let ?a = "(decree_booted ?d)\<lparr>acc_promised := b\<rparr>"
  note d = decree_boot_ok(2)[OF mm_okD(7)[OF ok]]
  show ?thesis
  proof (cases "b < dr_promised ?d")
    case less: True
    then show ?thesis using True handles_refl[OF ok]
      by (simp add: on_decree_prepare_def serves_handover_total[OF ok] decree_acceptor_total[OF ok] acceptor_prepare_total[OF d]
          decree_booted_simps acceptor_reads_total[OF d])
  next
    case False
    then have a: "acceptor_ok ?a" using d by (intro acceptor_ok_promise) (simp_all add: decree_booted_simps not_less)
    let ?m = "staged m ((mm_hard m)\<lparr>hs_decree := \<lparr>dr_promised = b, dr_vote = dr_vote ?d\<rparr>\<rparr>) (mm_set m)"
    have "decree_ok (D (hs_generation (mm_hard m))) \<lparr>dr_promised = b, dr_vote = dr_vote ?d\<rparr>"
      using mm_okD(7)[OF ok] False by (auto simp: decree_ok_def intro: order_trans)
    from staged_evolves[OF ok _ _ decree_handover[OF ok this]] have ev: "handles T D m ?m" by (simp add: phase_stopped)
    show ?thesis
    proof (cases "dr_promised ?d < b")
      case less: True
      have "store_decree m ?a [SetPromise b] = Some ?m"
        using store_decree_total[OF ok a, of "[SetPromise b]"] less by (simp add: decree_booted_simps)
      then show ?thesis using True False less ev
        by (simp add: on_decree_prepare_def serves_handover_total[OF ok] decree_acceptor_total[OF ok] acceptor_prepare_total[OF d]
            decree_booted_simps acceptor_reads_total[OF a] staged_def)
    next
      case same: False
      then have "b = dr_promised ?d" using False by simp
      then show ?thesis using True False handles_refl[OF ok]
        by (simp add: on_decree_prepare_def serves_handover_total[OF ok] decree_acceptor_total[OF ok] acceptor_prepare_total[OF d]
            decree_booted_simps acceptor_reads_total[OF a[unfolded \<open>b = dr_promised ?d\<close>]] store_decree_def)
    qed
  qed
qed

lemma on_decree_accept_total:
  assumes ok: "mm_ok T D m" and D: "D g b = remdups_adj (sort members)"
  shows "\<exists>reply m'. on_decree_accept m g b members = Some (reply, m') \<and> re_matchmaker reply = mm_id m \<and> handles T D m m'"
proof (cases "serves m g")
  case False
  then show ?thesis using handles_refl[OF ok]
    by (simp add: on_decree_accept_def serves_handover_total[OF ok] refuse_total[OF ok])
next
  case True
  let ?d = "hs_decree (mm_hard m)" and ?v = "remdups_adj (sort members)"
  let ?a = "(decree_booted ?d)\<lparr>acc_promised := b\<rparr>"
  have g: "D (hs_generation (mm_hard m)) = D g" using True by (simp add: serves_def)
  note d = decree_boot_ok(2)[OF mm_okD(7)[OF ok]]
  show ?thesis
  proof (cases "b < dr_promised ?d")
    case less: True
    then show ?thesis using True handles_refl[OF ok]
      by (simp add: on_decree_accept_def serves_handover_total[OF ok] decree_acceptor_total[OF ok] acceptor_admit_total[OF d]
          decree_booted_simps acceptor_reads_total[OF d] Let_def)
  next
    case False
    then have a: "acceptor_ok ?a" using d by (intro acceptor_ok_promise) (simp_all add: decree_booted_simps not_less)
    define w where "w = (if dr_promised ?d = b then [] else [SetPromise b :: matchmaker_id list acceptor_write])"
    have setp: "acceptor_set_promise id (decree_booted ?d) b [] = Some (?a, w)"
      using False by (simp add: acceptor_set_promise_total decree_booted_simps w_def not_less)
    have admit: "acceptor_admit (decree_booted ?d) b DECREE_SLOT = Some Admitted"
      using False by (simp add: acceptor_admit_total[OF d] decree_booted_simps)
    have held: "b' < b \<or> b' = b \<and> v' = ?v" if "acc_record ?a DECREE_SLOT = Some (b', v')" for b' v'
    proof -
      have "dr_vote ?d = Some (b', v')" using that by (simp add: decree_booted_simps)
      then have "b' \<le> dr_promised ?d" "v' = D g b'" using mm_okD(7)[OF ok] g by (auto simp: decree_ok_def)
      then show ?thesis using False D by (metis not_less order.trans order.order_iff_strict)
    qed
    have rec: "acceptor_record_accepted id ?a DECREE_SLOT b ?v w =
        Some (False, acceptor_recorded ?a DECREE_SLOT b ?v, w @ [AppendAccepted DECREE_SLOT b ?v])"
      using acceptor_record_accepted_total[OF a, of DECREE_SLOT b ?v id w] held by (simp add: decree_booted_simps)
    have a': "acceptor_ok (acceptor_recorded ?a DECREE_SLOT b ?v)"
      by (rule acceptor_ok_recorded[OF a]) (simp_all add: decree_booted_simps)
    let ?m = "staged m ((mm_hard m)\<lparr>hs_decree := \<lparr>dr_promised = b, dr_vote = Some (b, ?v)\<rparr>\<rparr>) (mm_set m)"
    have "store_decree m (acceptor_recorded ?a DECREE_SLOT b ?v) (w @ [AppendAccepted DECREE_SLOT b ?v]) = Some ?m"
      using store_decree_total[OF ok a', of "w @ [AppendAccepted DECREE_SLOT b ?v]"] False
      by (simp add: acceptor_recorded_def decree_booted_simps)
    moreover have "decree_ok (D (hs_generation (mm_hard m))) \<lparr>dr_promised = b, dr_vote = Some (b, ?v)\<rparr>"
      using D g by (simp add: decree_ok_def)
    from staged_evolves[OF ok _ _ decree_handover[OF ok this]] have "handles T D m ?m" by (simp add: phase_stopped)
    ultimately show ?thesis using True
      by (simp add: on_decree_accept_def serves_handover_total[OF ok] decree_acceptor_total[OF ok] admit setp rec Let_def staged_def)
  qed
qed

subsection \<open>Activation\<close>

definition activated_scalars :: "journal_scalars \<Rightarrow> journal_registry \<Rightarrow> journal_scalars" where
  "activated_scalars sc r = sc\<lparr>
     sc_effective := (case jr_effective r of None \<Rightarrow> sc_effective sc | Some (b, c) \<Rightarrow> raised_effective (sc_effective sc) b c),
     sc_gc_watermark := max (jr_gc_watermark r) (sc_gc_watermark sc)\<rparr>"

lemma activate_journal_total [total_simps]:
  "activate_journal (j, r) (J, R) =
    (let sc = activated_scalars (journal_entry J j) r; l = fm_from (sc_gc_watermark sc) (jr_history r)
     in Some (fmupd j sc J, if l \<noteq> fmempty then fmupd j l R else R))"
  by (simp add: activate_journal_def activated_scalars_def raise_effective_Some list_all_iff Let_def split: option.split)

definition activated_ledger :: "(journal_id, journal_scalars) fmap \<Rightarrow> journal_id \<Rightarrow> journal_registry \<Rightarrow> ledger" where
  "activated_ledger J j r = fm_from (sc_gc_watermark (activated_scalars (journal_entry J j) r)) (jr_history r)"

lemma activate_fold:
  assumes "distinct (map fst es)"
  shows "\<exists>J' R'. try_fold activate_journal es (J, R) = Some (J', R') \<and>
    (\<forall>k. fmlookup J' k = (case map_of es k of None \<Rightarrow> fmlookup J k | Some r \<Rightarrow> Some (activated_scalars (journal_entry J k) r))) \<and>
    (\<forall>k. fmlookup R' k = (case map_of es k of None \<Rightarrow> fmlookup R k
       | Some r \<Rightarrow> if activated_ledger J k r = fmempty then fmlookup R k else Some (activated_ledger J k r)))"
  using assms
proof (induction es arbitrary: J R)
  case (Cons e es)
  obtain j r where e: "e = (j, r)" by fastforce
  have j: "map_of es j = None" using Cons.prems e by (simp add: map_of_eq_None_iff)
  let ?J = "fmupd j (activated_scalars (journal_entry J j) r) J"
  let ?R = "if activated_ledger J j r \<noteq> fmempty then fmupd j (activated_ledger J j r) R else R"
  obtain J' R' where IH: "try_fold activate_journal es (?J, ?R) = Some (J', R')"
    "\<And>k. fmlookup J' k = (case map_of es k of None \<Rightarrow> fmlookup ?J k | Some r \<Rightarrow> Some (activated_scalars (journal_entry ?J k) r))"
    "\<And>k. fmlookup R' k = (case map_of es k of None \<Rightarrow> fmlookup ?R k
       | Some r \<Rightarrow> if activated_ledger ?J k r = fmempty then fmlookup ?R k else Some (activated_ledger ?J k r))"
    using Cons.IH[of ?J ?R] Cons.prems by auto
  have entry: "journal_entry ?J k = journal_entry J k" if "k \<noteq> j" for k using that by (simp add: journal_entry_def)
  have "fmlookup J' k = (case map_of (e # es) k of None \<Rightarrow> fmlookup J k | Some r \<Rightarrow> Some (activated_scalars (journal_entry J k) r))" for k
    using IH(2)[of k] e j entry[of k] by (cases "k = j") (simp_all split: option.split)
  moreover have "fmlookup R' k = (case map_of (e # es) k of None \<Rightarrow> fmlookup R k
       | Some r \<Rightarrow> if activated_ledger J k r = fmempty then fmlookup R k else Some (activated_ledger J k r))" for k
    using IH(3)[of k] e j entry[of k] by (cases "k = j") (simp_all add: activated_ledger_def split: option.split)
  moreover have "try_fold activate_journal (e # es) (J, R) = Some (J', R')"
    using IH(1) unfolding e try_fold.simps activate_journal_total Let_def activated_ledger_def[symmetric] by simp
  ultimately show ?case by blast
qed simp

lemma activated_agrees:
  assumes "effective_agrees T (sc_effective sc)" "effective_agrees T (jr_effective r)"
  shows "effective_agrees T (sc_effective (activated_scalars sc r))"
  using assms by (auto simp: activated_scalars_def effective_agrees_def raised_effective_def split: option.splits if_splits)

text \<open>The matchmaker an activation leaves.\<close>

definition mm_installed ::
  "matchmaker \<Rightarrow> matchmaker_set \<Rightarrow> pending_bootstrap list \<Rightarrow> (journal_id, journal_scalars) fmap \<Rightarrow> (journal_id, ledger) fmap \<Rightarrow> matchmaker" where
  "mm_installed m s ps J R = (let h = \<lparr>hs_generation = ms_generation s, hs_members = ms_members s, hs_phase = Active,
       hs_successor = None, hs_decree = decree_record_default, hs_pending = ps, hs_journals = J\<rparr>
     in m\<lparr>mm_hard := h, mm_set := s,
       mm_registries := fmap_of_list (map (\<lambda>(j, sc). (j, \<lparr>rw_map = (case fmlookup R j of None \<Rightarrow> fmempty | Some l \<Rightarrow> l), rw_base = sc_gc_watermark sc\<rparr>)) (fm_entries J)),
       mm_writes := mm_writes m @ [InstallRegistry h R]\<rparr>)"

lemma installed_registries:
  "fmlookup (mm_registries (mm_installed m s ps J R)) j =
    map_option (\<lambda>sc. \<lparr>rw_map = (case fmlookup R j of None \<Rightarrow> fmempty | Some l \<Rightarrow> l), rw_base = sc_gc_watermark sc\<rparr>) (fmlookup J j)"
proof -
  have "map_of (map (\<lambda>(j, sc). (j, f j sc)) es) j = map_option (f j) (map_of es j)" for f :: "journal_id \<Rightarrow> journal_scalars \<Rightarrow> (ballot, registration) retained_window" and es
    by (induction es) auto
  then show ?thesis by (simp add: mm_installed_def Let_def fmlookup_of_list map_of_fm_entries)
qed

lemma installed_hard [simp]:
  "hs_generation (mm_hard (mm_installed m s ps J R)) = ms_generation s" "hs_phase (mm_hard (mm_installed m s ps J R)) = Active"
  "hs_journals (mm_hard (mm_installed m s ps J R)) = J" "mm_set (mm_installed m s ps J R) = s"
  "mm_config (mm_installed m s ps J R) = mm_config m" "mm_limits (mm_installed m s ps J R) = mm_limits m"
  "mm_phase_of (mm_installed m s ps J R) = Active" "hs_successor (mm_hard (mm_installed m s ps J R)) = None"
  by (simp_all add: mm_installed_def Let_def mm_phase_of_def)

lemma installed_handover:
  assumes "ms_ok s" "ms_generation s < u64_max" "mm_id m \<in> set (ms_members s)" "bootstrap_ok (mm_bootstrap m)"
    and "\<forall>p \<in> set ps. pending_ok T (mm_id m) (ms_generation s) p" "distinct (map pb_set ps)"
  shows "handover_ok T D (mm_config m) (mm_hard (mm_installed m s ps J R)) s"
  using assms
  by (auto simp: handover_ok_def membership_ok_def successor_ok_def ms_ok_def decree_ok_def decree_record_default_def mm_installed_def Let_def)

lemma installed_evolves:
  assumes m0: "mm_ok T D m0" "mm_config m0 = mm_config m" "mm_limits m0 = mm_limits m" "mm_writes m0 = mm_writes m"
      "hs_generation (mm_hard m0) < ms_generation s" "quiet m0 m"
    and hand: "handover_ok T D (mm_config m) (mm_hard (mm_installed m s ps J R)) s"
    and J: "\<And>j sc. fmlookup J j = Some sc \<Longrightarrow> effective_agrees (T j) (sc_effective sc) \<and> mm_gc m0 j \<le> sc_gc_watermark sc"
      "\<And>j. fmlookup J j = None \<Longrightarrow> mm_gc m0 j = ballot_zero"
    and R: "\<And>j l. fmlookup R j = Some l \<Longrightarrow> l \<noteq> fmempty \<and> ledger_agrees (T j) l \<and>
        (\<exists>sc. fmlookup J j = Some sc \<and> (\<forall>b \<in> fmdom' l. sc_gc_watermark sc \<le> b))"
  shows "handles T D m0 (mm_installed m s ps J R)"
proof -
  let ?m = "mm_installed m s ps J R"
  have gc: "mm_gc ?m j = (case fmlookup J j of None \<Rightarrow> ballot_zero | Some sc \<Rightarrow> sc_gc_watermark sc)" for j
    by (simp add: hs_gc_watermark_def)
  have led: "mm_ledger ?m j = (case fmlookup R j of None \<Rightarrow> fmempty | Some l \<Rightarrow> l)" for j
    using R[of j] by (cases "fmlookup J j"; cases "fmlookup R j") (auto simp: mm_ledger_def installed_registries)
  have "registries_ok T (mm_hard ?m) (mm_registries ?m)"
    unfolding registries_ok_def
  proof (intro conjI allI impI)
    fix j w assume "fmlookup (mm_registries ?m) j = Some w"
    then obtain sc where sc: "fmlookup J j = Some sc" "w = \<lparr>rw_map = mm_ledger ?m j, rw_base = sc_gc_watermark sc\<rparr>"
      by (auto simp: installed_registries led)
    then show "rw_ok w" "rw_base w = mm_gc ?m j" "ledger_agrees (T j) (rw_map w)" "fmlookup (hs_journals (mm_hard ?m)) j \<noteq> None"
      using R[of j] by (auto simp: led gc rw_ok_def ledger_agrees_def split: option.splits)
  qed (use J(1) in \<open>auto simp: installed_registries\<close>)
  then have ok: "mm_ok T D ?m" using hand mm_okD(1)[OF m0(1)] m0(3) by (simp add: mm_ok_def)
  have "\<exists>s'. mr_replay [InstallRegistry (mm_hard ?m) R] st = Some s' \<and> mirrors ?m s'" for st
  proof -
    have "store_ok \<lparr>mr_hard_state = mm_hard ?m, mr_registry = R\<rparr>"
      unfolding store_ok_def using R gc by fastforce
    moreover have "mirrors ?m \<lparr>mr_hard_state = mm_hard ?m, mr_registry = R\<rparr>"
      using R by (auto simp: mirrors_def led split: option.split)
    ultimately show ?thesis by (simp add: apply_install)
  qed
  moreover have "mm_gc m0 j \<le> mm_gc ?m j" for j
    using J(1)[of j] J(2)[of j] by (cases "fmlookup J j") (auto simp: gc)
  moreover have "mm_writes ?m = mm_writes m0 @ [InstallRegistry (mm_hard ?m) R]"
    using m0(4) by (simp add: mm_installed_def Let_def)
  moreover have "list_all (write_covered (mm_hard ?m)) [InstallRegistry (mm_hard ?m) R]" by (simp add: write_covered_def)
  moreover have "registry_extends m0 ?m" using m0(5) by (simp add: registry_extends_def)
  moreover have "quiet m0 ?m" using m0(6) by (simp add: quiet_def mm_installed_def Let_def)
  ultimately show ?thesis using ok m0(2-5) unfolding handles_def evolves_def by (metis installed_hard(1,5,6) less_imp_le)
qed

lemma activate_total:
  assumes ok: "mm_ok T D m" and s: "ms_ok s" "ms_generation s < u64_max"
    and m0: "mm_ok T D m0" "mm_config m0 = mm_config m" "mm_limits m0 = mm_limits m" "mm_writes m0 = mm_writes m"
      "hs_generation (mm_hard m0) = hs_generation (mm_hard m)" "hs_journals (mm_hard m0) = hs_journals (mm_hard m)"
      "quiet m0 m"
  shows "activate m s = Some (False, m) \<or>
    (\<exists>m'. activate m s = Some (True, m') \<and> handles T D m0 m' \<and> mm_set m' = s \<and> mm_phase_of m' = Active)"
proof (cases "mm_id m \<in> set (ms_members s) \<and> hs_generation (mm_hard m) < ms_generation s \<and>
    find (\<lambda>p. pb_set p = s \<and> pb_complete p) (hs_pending (mm_hard m)) \<noteq> None")
  case False
  then show ?thesis
    by (auto simp: activate_def ms_contains_total[OF s(1)] mm_set_ok(3)[OF ok])
next
  case True
  then obtain p where p: "find (\<lambda>p. pb_set p = s \<and> pb_complete p) (hs_pending (mm_hard m)) = Some p" by blast
  note found = find_index[OF p]
  let ?J = "hs_journals (mm_hard m)" and ?es = "fm_entries (pb_registries p)"
  let ?ps = "filter (\<lambda>q. ms_generation (pb_set q) > ms_generation s) (remove1 p (hs_pending (mm_hard m)))"
  have pok: "pending_ok T (mm_id m) (hs_generation (mm_hard m)) p" using mm_okD(8)[OF ok] found(4) by blast
  obtain J R where fold: "try_fold activate_journal ?es (?J, fmempty) = Some (J, R)"
    and J: "\<And>k. fmlookup J k = (case fmlookup (pb_registries p) k of None \<Rightarrow> fmlookup ?J k | Some r \<Rightarrow> Some (activated_scalars (journal_entry ?J k) r))"
    and R: "\<And>k. fmlookup R k = (case fmlookup (pb_registries p) k of None \<Rightarrow> None
       | Some r \<Rightarrow> if activated_ledger ?J k r = fmempty then None else Some (activated_ledger ?J k r))"
    using activate_fold[OF strict_sorted_distinct[OF fm_entries_sorted], of "pb_registries p" ?J fmempty]
    unfolding map_of_fm_entries fmempty_lookup by blast
  let ?m = "mm_installed m s ?ps J R"
  have hand: "handover_ok T D (mm_config m) (mm_hard ?m) s"
  proof (rule installed_handover[OF s _ mm_okD(4)[OF ok]])
    show "\<forall>q \<in> set ?ps. pending_ok T (mm_id m) (ms_generation s) q"
      using mm_okD(8)[OF ok] by (auto simp: pending_ok_def dest: notin_set_remove1 set_remove1_subset[THEN subsetD])
    show "distinct (map pb_set ?ps)"
      using mm_okD(9)[OF ok] by (auto simp: distinct_map inj_on_def dest: set_remove1_subset[THEN subsetD])
  qed (use True in simp)
  have entry: "effective_agrees (T j) (sc_effective (journal_entry ?J j))" "sc_gc_watermark (journal_entry ?J j) = mm_gc m0 j" for j
    using effective_ok[OF mm_okD(2)[OF ok], of j] m0(6) by (simp_all add: hs_reads_entry)
  have ev: "handles T D m0 ?m"
  proof (rule installed_evolves[OF m0(1-4) _ m0(7) hand])
    show "hs_generation (mm_hard m0) < ms_generation s" using True m0(5) by simp
    show "effective_agrees (T j) (sc_effective sc) \<and> mm_gc m0 j \<le> sc_gc_watermark sc" if sc: "fmlookup J j = Some sc" for j sc
    proof (cases "fmlookup (pb_registries p) j")
      case None
      then have "journal_entry ?J j = sc" using sc J[of j] by (simp add: journal_entry_def)
      then show ?thesis using entry[of j] by simp
    next
      case (Some r)
      then have "sc = activated_scalars (journal_entry ?J j) r" using sc J[of j] by simp
      moreover have "effective_agrees (T j) (jr_effective r)" using pok Some by (simp add: pending_ok_def)
      moreover have "mm_gc m0 j \<le> sc_gc_watermark (activated_scalars (journal_entry ?J j) r)"
        using entry(2)[of j] by (simp add: activated_scalars_def)
      ultimately show ?thesis using activated_agrees[OF entry(1)] by simp
    qed
    show "mm_gc m0 j = ballot_zero" if "fmlookup J j = None" for j
      using that J[of j] m0(6) by (auto simp: hs_gc_watermark_def split: option.splits)
    show "l \<noteq> fmempty \<and> ledger_agrees (T j) l \<and> (\<exists>sc. fmlookup J j = Some sc \<and> (\<forall>b \<in> fmdom' l. sc_gc_watermark sc \<le> b))"
      if l: "fmlookup R j = Some l" for j l
    proof -
      obtain r where r: "fmlookup (pb_registries p) j = Some r" "l = activated_ledger ?J j r" "l \<noteq> fmempty"
        using l R[of j] by (auto split: option.splits if_splits)
      moreover have "ledger_agrees (T j) (jr_history r)" using pok r(1) by (simp add: pending_ok_def)
      ultimately show ?thesis using J[of j] by (auto simp: activated_ledger_def ledger_agrees_def split: if_splits)
    qed
  qed
  have opened: "try_map (\<lambda>(j, scalars). do {
       let ledger = (case fmlookup R j of None \<Rightarrow> fmempty | Some l \<Rightarrow> l);
       w \<leftarrow> rw_new ledger (sc_gc_watermark scalars);
       Some (j, w)
     }) (fm_entries J) = Some (map (\<lambda>(j, sc). (j, \<lparr>rw_map = (case fmlookup R j of None \<Rightarrow> fmempty | Some l \<Rightarrow> l), rw_base = sc_gc_watermark sc\<rparr>)) (fm_entries J))"
  proof (rule try_map_total, clarify)
    fix j sc assume "(j, sc) \<in> set (fm_entries J)"
    then have "\<forall>k \<in> fmdom' (case fmlookup R j of None \<Rightarrow> fmempty | Some l \<Rightarrow> l). sc_gc_watermark sc \<le> k"
      using J[of j] R[of j] by (auto simp: activated_ledger_def split: option.splits if_splits)
    then show "(let ledger = (case fmlookup R j of None \<Rightarrow> fmempty | Some l \<Rightarrow> l) in do {
       w \<leftarrow> rw_new ledger (sc_gc_watermark sc);
       Some (j, w)
     }) = Some (j, \<lparr>rw_map = (case fmlookup R j of None \<Rightarrow> fmempty | Some l \<Rightarrow> l), rw_base = sc_gc_watermark sc\<rparr>)"
      by (simp add: rw_new_total)
  qed
  have "resolved_set (mm_hard ?m) (mm_bootstrap m) = Some s"
    using membership_set(2)[of "mm_config m" "mm_hard ?m" s] hand mm_okD(4)[OF ok] by (simp add: handover_ok_def)
  moreover have "ms_members' s = Some (ms_members s)" using s(1) by (simp add: ms_members'_def ms_ok_def)
  ultimately have "activate m s = Some (True, ?m)"
    using True fold opened found(3) p
    by (simp add: activate_def ms_contains_total[OF s(1)] mm_set_ok(3)[OF ok] mm_refresh_set_def mm_derive_set_def mm_phase_total
        mm_installed_def Let_def mm_phase_of_def)
  then show ?thesis using ev by simp
qed

subsection \<open>The chosen successor\<close>

definition pruned_hard :: "matchmaker_hard_state \<Rightarrow> matchmaker_set \<Rightarrow> matchmaker_hard_state" where
  "pruned_hard h s = h\<lparr>hs_pending := filter (\<lambda>p. ms_generation (pb_set p) > ms_generation s \<or> pb_set p = s) (hs_pending h)\<rparr>"

lemma filter_length_id: "length (filter P xs) = length xs \<Longrightarrow> filter P xs = xs"
  by (metis filter_True length_filter_less nat_neq_iff)

lemma prune_total [total_simps]:
  "prune_settled_pending m s = Some (pruned_hard (mm_hard m) s \<noteq> mm_hard m, m\<lparr>mm_hard := pruned_hard (mm_hard m) s\<rparr>)"
proof -
  let ?P = "\<lambda>p. ms_generation (pb_set p) > ms_generation s \<or> pb_set p = s"
  have "filter ?P xs = xs \<longleftrightarrow> length (filter ?P xs) = length xs" for xs using filter_length_id[of ?P xs] by auto
  moreover have "pruned_hard h s = h \<longleftrightarrow> filter ?P (hs_pending h) = hs_pending h" for h
    by (cases h) (simp add: pruned_hard_def)
  ultimately show ?thesis
    by (auto simp: prune_settled_pending_def pruned_hard_def list_all_iff Let_def)
qed

lemma pruned_handover:
  assumes "handover_ok T D cfg h cur"
  shows "handover_ok T D cfg (pruned_hard h s) cur"
proof -
  have "membership_ok cfg (pruned_hard h s) cur = membership_ok cfg h cur" by (simp add: membership_ok_def pruned_hard_def)
  moreover have "successor_ok (pruned_hard h s)" if "successor_ok h"
    unfolding successor_ok_def
  proof (intro allI impI)
    fix x assume x: "hs_successor (pruned_hard h s) = Some x"
    then have "ms_ok x" "ms_generation x = hs_generation h + 1" "hs_phase h = Stopped"
      "\<forall>p \<in> set (hs_pending h). ms_generation (pb_set p) > ms_generation x \<or> pb_set p = x"
      using that unfolding successor_ok_def pruned_hard_def by auto
    then show "ms_ok x \<and> ms_generation x = hs_generation (pruned_hard h s) + 1 \<and> hs_phase (pruned_hard h s) = Stopped \<and>
        (\<forall>p \<in> set (hs_pending (pruned_hard h s)). ms_generation (pb_set p) > ms_generation x \<or> pb_set p = x)"
      by (simp add: pruned_hard_def)
  qed
  ultimately show ?thesis using assms by (auto simp: handover_ok_def distinct_map_filter) (simp_all add: pruned_hard_def distinct_map_filter)
qed

lemma mm_ok_pruned:
  assumes ok: "mm_ok T D m"
  shows "mm_ok T D (m\<lparr>mm_hard := pruned_hard (mm_hard m) s\<rparr>)"
proof -
  have "registries_ok T (pruned_hard (mm_hard m) s) (mm_registries m)"
    using mm_okD(2)[OF ok] registries_ok_journals[of "pruned_hard (mm_hard m) s" "mm_hard m" T] by (simp add: pruned_hard_def)
  then show ?thesis using mm_okD(1)[OF ok] pruned_handover[OF mm_okD(3)[OF ok]] by (simp add: mm_ok_def)
qed

lemma chosen_handover:
  assumes ok: "mm_ok T D m" and stop: "mm_phase_of m = Stopped" and s: "ms_ok s" "ms_generation s = hs_generation (mm_hard m) + 1"
  shows "handover_ok T D (mm_config m) (pruned_hard ((mm_hard m)\<lparr>hs_successor := Some s\<rparr>) s) (mm_set m)"
proof -
  let ?h = "pruned_hard ((mm_hard m)\<lparr>hs_successor := Some s\<rparr>) s"
  have "membership_ok (mm_config m) ?h (mm_set m) = membership_ok (mm_config m) (mm_hard m) (mm_set m)"
    by (simp add: membership_ok_def pruned_hard_def)
  moreover have "successor_ok ?h" using stop s by (auto simp: successor_ok_def pruned_hard_def phase_stopped)
  ultimately show ?thesis using mm_okD[OF ok] by (simp add: handover_ok_def) (simp add: pruned_hard_def distinct_map_filter)
qed

text \<open>A member of the succeeded generation records the link and activates what it holds of the successor.\<close>

lemma chosen_member:
  assumes ok: "mm_ok T D m" and serve: "serves m g"
    and s: "ms_ok s" "ms_generation s < u64_max" "ms_generation s = hs_generation (mm_hard m) + 1"
    and rec: "hs_successor (mm_hard m) = None \<or> hs_successor (mm_hard m) = Some s"
  shows "\<exists>changed m1. (if hs_successor (mm_hard m) = None
               then do {
                 m \<leftarrow> (if mm_phase_of m = Active then freeze m else Some m);
                 Some (True, m\<lparr>mm_hard := (mm_hard m)\<lparr>hs_successor := Some s\<rparr>\<rparr>)
               }
               else Some (False, m)) = Some (changed, m1) \<and>
     (\<exists>m2. (if changed \<or> pruned_hard (mm_hard m1) s \<noteq> mm_hard m1 then stage_scalars (m1\<lparr>mm_hard := pruned_hard (mm_hard m1) s\<rparr>)
            else Some (m1\<lparr>mm_hard := pruned_hard (mm_hard m1) s\<rparr>)) = Some m2 \<and>
        handles T D m m2 \<and> hs_successor (mm_hard m2) = Some s)"
proof (cases "hs_successor (mm_hard m)")
  case None
  define mf where "mf = (if mm_phase_of m = Active then staged m (frozen_hard m) (mm_set m) else m)"
  have ev: "handles T D m mf" using freeze_total(2)[OF ok] handles_refl[OF ok] by (simp add: mf_def)
  have stop: "mm_phase_of mf = Stopped" using serve by (auto simp: mf_def serves_def staged_def frozen_hard_def mm_phase_of_def)
  have gen: "hs_generation (mm_hard mf) = hs_generation (mm_hard m)" by (simp add: mf_def staged_def frozen_hard_def)
  let ?h = "pruned_hard ((mm_hard mf)\<lparr>hs_successor := Some s\<rparr>) s"
  have "handles T D mf (staged mf ?h (mm_set mf))"
    using chosen_handover[OF handlesD(1)[OF ev] stop s(1)] s(3) gen stop
    by (intro staged_evolves[OF handlesD(1)[OF ev]]) (simp_all add: pruned_hard_def phase_stopped)
  from handles_trans[OF ev this] have "handles T D m (staged mf ?h (mm_set mf))" .
  moreover have "(if mm_phase_of m = Active then freeze m else Some m) = Some mf" using freeze_total(1)[OF ok] by (simp add: mf_def)
  moreover have "hs_successor (mm_hard (staged mf ?h (mm_set mf))) = Some s" by (simp add: staged_def pruned_hard_def)
  moreover have "stage_scalars (mf\<lparr>mm_hard := ?h\<rparr>) = Some (staged mf ?h (mm_set mf))"
    by (simp add: stage_scalars_total staged_def)
  ultimately show ?thesis
    using None by (intro exI[of _ True] exI[of _ "mf\<lparr>mm_hard := (mm_hard mf)\<lparr>hs_successor := Some s\<rparr>\<rparr>"]) simp
next
  case (Some s')
  then have s': "s' = s" using rec by simp
  then have "pruned_hard (mm_hard m) s = mm_hard m"
    using mm_okD(6)[OF ok] Some by (auto simp: pruned_hard_def successor_ok_def intro!: filter_True)
  then show ?thesis using Some s' handles_refl[OF ok] by (intro exI[of _ False] exI[of _ m]) simp
qed

lemma on_chosen_total:
  assumes ok: "mm_ok T D m" and s: "ms_ok s" "ms_generation s < u64_max" and g: "g \<le> u64_max"
  shows "\<exists>reply m'. on_chosen m g s = Some (reply, m') \<and> re_matchmaker reply = mm_id m \<and> handles T D m m'"
proof -
  note totals = mm_phase_total generation_next_total[OF g] serves_handover_total[OF ok] refuse_total[OF ok] prune_total
  show ?thesis
  proof (cases "ms_generation s \<noteq> saturating_add64 g 1 \<or> mm_set m = s")
    case True
    then show ?thesis using handles_refl[OF ok] by (auto simp: on_chosen_def totals Let_def)
  next
    case next_gen: False
    show ?thesis
    proof (cases "serves m g")
      case serve: True
      show ?thesis
      proof (cases "hs_successor (mm_hard m) = None \<or> hs_successor (mm_hard m) = Some s")
        case False
        then show ?thesis using serve next_gen handles_refl[OF ok] by (auto simp: on_chosen_def totals Let_def)
      next
        case True
        have "ms_generation s = hs_generation (mm_hard m) + 1"
          using next_gen serve mm_set_ok(4)[OF ok] by (auto simp: serves_def saturating_add64_def)
        from chosen_member[OF ok serve s this True] obtain changed m1 m2 where
          1: "(if hs_successor (mm_hard m) = None
               then do {
                 m \<leftarrow> (if mm_phase_of m = Active then freeze m else Some m);
                 Some (True, m\<lparr>mm_hard := (mm_hard m)\<lparr>hs_successor := Some s\<rparr>\<rparr>)
               }
               else Some (False, m)) = Some (changed, m1)"
          and 2: "(if changed \<or> pruned_hard (mm_hard m1) s \<noteq> mm_hard m1 then stage_scalars (m1\<lparr>mm_hard := pruned_hard (mm_hard m1) s\<rparr>)
            else Some (m1\<lparr>mm_hard := pruned_hard (mm_hard m1) s\<rparr>)) = Some m2"
          and ev: "handles T D m m2" and succ: "hs_successor (mm_hard m2) = Some s"
          by blast
        note ok2 = handlesD(1)[OF ev]
        have nrec: "\<not> (case hs_successor (mm_hard m) of None \<Rightarrow> False | Some recorded \<Rightarrow> recorded \<noteq> s)" using True by auto
        from activate_total[OF ok2 s ok2 refl refl refl refl refl quiet_refl] show ?thesis
        proof (elim disjE exE conjE)
          assume "activate m2 s = Some (False, m2)"
          then show ?thesis using serve next_gen nrec ev succ
            by (simp add: on_chosen_def totals Let_def 1 2)
        next
          fix m' assume m': "activate m2 s = Some (True, m')" "handles T D m2 m'" "mm_set m' = s"
          then show ?thesis using serve next_gen nrec handles_trans[OF ev m'(2)]
            by (simp add: on_chosen_def totals Let_def 1 2)
        qed
      qed
    next
      case spare: False
      let ?m = "m\<lparr>mm_hard := pruned_hard (mm_hard m) s\<rparr>"
      have ok1: "mm_ok T D ?m" by (rule mm_ok_pruned[OF ok])
      have same: "mm_config m = mm_config ?m" "mm_limits m = mm_limits ?m" "mm_writes m = mm_writes ?m"
        "hs_generation (mm_hard m) = hs_generation (mm_hard ?m)" "hs_journals (mm_hard m) = hs_journals (mm_hard ?m)"
        "quiet m ?m"
        by (simp_all add: pruned_hard_def quiet_def)
      show ?thesis
      proof (cases "ms_generation s > ms_generation (mm_set m) \<or> mm_phase_of m = Inactive \<or> mm_phase_of m = Fresh")
        case False
        then show ?thesis using spare next_gen handles_refl[OF ok] by (auto simp: on_chosen_def totals Let_def)
      next
        case True
        from activate_total[OF ok1 s ok same] show ?thesis
        proof (elim disjE exE conjE)
          assume no: "activate ?m s = Some (False, ?m)"
          let ?m' = "if pruned_hard (mm_hard m) s \<noteq> mm_hard m then staged m (pruned_hard (mm_hard m) s) (mm_set m) else m"
          have ev: "handles T D m ?m'"
            using staged_evolves[OF ok _ _ pruned_handover[OF mm_okD(3)[OF ok]], of s] handles_refl[OF ok]
            by (simp add: pruned_hard_def phase_stopped)
          have "(if pruned_hard (mm_hard m) s \<noteq> mm_hard m then stage_scalars ?m else Some ?m) = Some ?m'"
            by (simp add: stage_scalars_total staged_def)
          then show ?thesis using spare next_gen True no ev refuse_total[OF handlesD(1)[OF ev]] handlesD(2)[OF ev]
            by (simp add: on_chosen_def totals Let_def)
        next
          fix m' assume m': "activate ?m s = Some (True, m')" "handles T D m m'" "mm_set m' = s" "mm_phase_of m' = Active"
          then show ?thesis using spare next_gen True by (simp add: on_chosen_def totals Let_def)
        qed
      qed
    qed
  qed
qed

section \<open>One handover message\<close>

text \<open>The contract of a handover message: the sets it carries are well formed and of a representable
  generation, a bootstrap reports what its ballots registered, and a decree ballot proposes one set.\<close>

fun reconfigure_request_ok :: "proposals \<Rightarrow> decrees \<Rightarrow> reconfigure_request \<Rightarrow> bool" where
  "reconfigure_request_ok T D (Req_Stop _ g _) \<longleftrightarrow> True"
| "reconfigure_request_ok T D (Req_Bootstrap _ page) \<longleftrightarrow> bootstrap_page_ok T page"
| "reconfigure_request_ok T D (Req_DecreePrepare _ g b) \<longleftrightarrow> True"
| "reconfigure_request_ok T D (Req_DecreeAccept _ g b members) \<longleftrightarrow> D g b = remdups_adj (sort members)"
| "reconfigure_request_ok T D (Req_Chosen _ g s) \<longleftrightarrow> g \<le> u64_max \<and> ms_ok s \<and> ms_generation s < u64_max"

lemma step_reconfigure_total:
  assumes ok: "mm_ok T D m" and q: "reconfigure_request_ok T D q"
  shows "\<exists>m' reply. step_reconfigure m q = Some m' \<and> evolves T D m m' \<and> mm_replies m' = mm_replies m \<and>
    mm_reconfigure_replies m' = mm_reconfigure_replies m @ [reply] \<and> re_matchmaker reply = mm_id m"
proof -
  define run where "run = (case q of
         Req_Stop _ generation after \<Rightarrow> on_stop m generation after
       | Req_Bootstrap _ page \<Rightarrow> on_bootstrap m page
       | Req_DecreePrepare _ generation ballot \<Rightarrow> on_decree_prepare m generation ballot
       | Req_DecreeAccept _ generation ballot members \<Rightarrow> on_decree_accept m generation ballot members
       | Req_Chosen _ generation successor \<Rightarrow> on_chosen m generation successor)"
  have "\<exists>reply m'. run = Some (reply, m') \<and> re_matchmaker reply = mm_id m \<and> handles T D m m'"
    using q on_stop_total[OF ok] on_bootstrap_total[OF ok] on_decree_prepare_total[OF ok] on_decree_accept_total[OF ok] on_chosen_total[OF ok]
    by (cases q) (fastforce simp: run_def)+
  then obtain reply m' where r: "run = Some (reply, m')" "re_matchmaker reply = mm_id m" "handles T D m m'" by blast
  note ev = handlesD(3)[OF r(3)]
  let ?m = "m'\<lparr>mm_reconfigure_replies := mm_reconfigure_replies m' @ [reply]\<rparr>"
  note ev' = evolves_replies(2)[OF ev, of "mm_reconfigure_replies m' @ [reply]"]
  have quiet: "mm_replies m' = mm_replies m" "mm_reconfigure_replies m' = mm_reconfigure_replies m"
    using handlesD(4)[OF r(3)] by (simp_all add: quiet_def)
  have "sc_gc_watermark sc \<le> mm_gc m' j" if "fmlookup (hs_journals (mm_hard m)) j = Some sc" for j sc
    using evolvesD(4)[OF ev, of j] that by (simp add: hs_gc_watermark_def[of "mm_hard m"])
  then have "list_all (\<lambda>(j, floor). floor \<le> mm_gc m' j) (map (\<lambda>(j, sc). (j, sc_gc_watermark sc)) (fm_entries (hs_journals (mm_hard m))))"
    by (auto simp: list_all_iff)
  then have "step_reconfigure m q = Some ?m"
    using r(1,2) quiet evolvesD(2,5)[OF ev] mm_assert_total[OF evolvesD(1)[OF ev']]
    by (simp add: step_reconfigure_def mm_assert_total[OF ok] Let_def flip: run_def)
  then show ?thesis using ev' quiet r(2) by auto
qed

end
