(* ===== verification/Matchmaker_Runs.thy ===== *)
theory Matchmaker_Runs
  imports Generation_Inv
begin

section \<open>Runs of a matchmaker\<close>

text \<open>
  A matchmaker driven over its store: requests, collections and handover messages in any order, and the
  driver's flush, which persists the staged writes before it hands out the replies and clears the batch.
  The properties of the registry are stated over such runs.
\<close>

datatype mm_input = In_Match match_request | In_Gc gc_request | In_Reconfigure reconfigure_request | In_Flush

fun mm_feed :: "mm_input \<Rightarrow> matchmaker \<times> mem_registry \<Rightarrow> (matchmaker \<times> mem_registry) option" where
  "mm_feed (In_Match q) (m, s) = do { m \<leftarrow> mm_step m q; Some (m, s) }"
| "mm_feed (In_Gc q) (m, s) = do {
     (outcome, m) \<leftarrow> advance_gc_watermark m (gq_journal q) (gq_generation q) (gq_watermark q);
     ack \<leftarrow> mm_gc_ack m q outcome;
     Some (m, s)
   }"
| "mm_feed (In_Reconfigure q) (m, s) = do { m \<leftarrow> step_reconfigure m q; Some (m, s) }"
| "mm_feed In_Flush (m, s) = do {
     writes \<leftarrow> ready_writes m;
     s \<leftarrow> mr_replay writes s;
     replies \<leftarrow> ready_replies m;
     reconfigure_replies \<leftarrow> ready_reconfigure_replies m;
     m \<leftarrow> ready_advance m;
     Some (m, s)
   }"

definition mm_run :: "mm_input list \<Rightarrow> matchmaker \<times> mem_registry \<Rightarrow> (matchmaker \<times> mem_registry) option" where
  "mm_run = try_fold mm_feed"

fun mm_input_ok :: "proposals \<Rightarrow> decrees \<Rightarrow> mm_input \<Rightarrow> bool" where
  "mm_input_ok T D (In_Match q) \<longleftrightarrow> match_request_ok T q"
| "mm_input_ok T D (In_Gc q) \<longleftrightarrow> True"
| "mm_input_ok T D (In_Reconfigure q) \<longleftrightarrow> reconfigure_request_ok T D q"
| "mm_input_ok T D In_Flush \<longleftrightarrow> True"

text \<open>The store is the matchmaker but for the writes not flushed yet.\<close>

definition driven_ok :: "proposals \<Rightarrow> decrees \<Rightarrow> matchmaker \<times> mem_registry \<Rightarrow> bool" where
  "driven_ok T D = (\<lambda>(m, s). mm_ok T D m \<and> list_all (write_covered (mm_hard m)) (mm_writes m) \<and>
     list_all (\<lambda>r. mp_matchmaker r = mm_id m) (mm_replies m) \<and> list_all (\<lambda>r. re_matchmaker r = mm_id m) (mm_reconfigure_replies m) \<and>
     (\<exists>s'. mr_replay (mm_writes m) s = Some s' \<and> mirrors m s'))"

lemma evolves_driven:
  assumes "driven_ok T D (m, s)" "evolves T D m m'" and "list_all (\<lambda>r. mp_matchmaker r = mm_id m) (mm_replies m')"
    "list_all (\<lambda>r. re_matchmaker r = mm_id m) (mm_reconfigure_replies m')"
  shows "driven_ok T D (m', s)"
proof -
  obtain ws where ws: "mm_writes m' = mm_writes m @ ws" "list_all (write_covered (mm_hard m')) ws"
    "\<And>s. mirrors m s \<Longrightarrow> \<exists>s'. mr_replay ws s = Some s' \<and> mirrors m' s'"
    using assms(2) by (auto simp: evolves_def)
  obtain s1 where s1: "mr_replay (mm_writes m) s = Some s1" "mirrors m s1" using assms(1) by (auto simp: driven_ok_def)
  then have "\<exists>s'. mr_replay (mm_writes m') s = Some s' \<and> mirrors m' s'"
    using ws(3)[OF s1(2)] by (auto simp: ws(1) mr_replay_append)
  moreover have "list_all (write_covered (mm_hard m')) (mm_writes m')"
    using assms(1) ws(1,2) write_covered_mono[OF _ evolvesD(4)[OF assms(2)]] by (auto simp: driven_ok_def list_all_iff)
  ultimately show ?thesis using evolvesD(1,2)[OF assms(2)] assms(3,4) by (simp add: driven_ok_def)
qed

lemma stepped_replies:
  "mm_replies (snd (mm_stepped m q)) = mm_replies m" "mm_reconfigure_replies (snd (mm_stepped m q)) = mm_reconfigure_replies m"
  by (auto simp: mm_stepped_def mm_served_def Let_def mm_registered_def split: match_purpose.split option.split)

lemma rested_same [simp]: "mm_hard (mm_rested m) = mm_hard m" "mm_ledger (mm_rested m) = mm_ledger m"
  "mm_registries (mm_rested m) = mm_registries m" "mm_config (mm_rested m) = mm_config m" "mm_set (mm_rested m) = mm_set m"
  "mm_limits (mm_rested m) = mm_limits m" "mm_phase_of (mm_rested m) = mm_phase_of m"
  "mm_ok T D (mm_rested m) = mm_ok T D m" "mirrors (mm_rested m) s = mirrors m s"
  by (auto simp: mm_rested_def mm_ledger_def mm_ok_def mm_phase_of_def mirrors_def fun_eq_iff)

lemma flush_total:
  assumes "driven_ok T D (m, s)"
  shows "\<exists>s'. mm_feed In_Flush (m, s) = Some (mm_rested m, s') \<and> mirrors m s' \<and> mr_replay (mm_writes m) s = Some s'"
  using assms
  by (auto simp: driven_ok_def ready_writes_def ready_replies_def ready_reconfigure_replies_def ready_advance_def mm_rested_def)

text \<open>What a run keeps of the registry, from any state on.\<close>

definition registry_after :: "matchmaker \<Rightarrow> matchmaker \<Rightarrow> bool" where
  "registry_after m m' \<longleftrightarrow> (\<forall>j. mm_gc m j \<le> mm_gc m' j) \<and> hs_generation (mm_hard m) \<le> hs_generation (mm_hard m') \<and> registry_extends m m'"

lemma registry_after_evolves: "evolves T D m m' \<Longrightarrow> registry_after m m'"
  by (simp add: registry_after_def evolves_def)

lemma registry_after_trans:
  assumes "mm_ok T D b" "mm_ok T D c" "registry_after a b" "registry_after b c"
  shows "registry_after a c"
proof -
  have ab: "mm_gc a j \<le> mm_gc b j" "hs_generation (mm_hard a) \<le> hs_generation (mm_hard b)" "registry_extends a b" for j
    using assms(3) by (simp_all add: registry_after_def)
  have bc: "mm_gc b j \<le> mm_gc c j" "hs_generation (mm_hard b) \<le> hs_generation (mm_hard c)" "registry_extends b c" for j
    using assms(4) by (simp_all add: registry_after_def)
  have "mm_gc a j \<le> mm_gc c j" for j using ab(1) bc(1) by (rule order_trans)
  then show ?thesis
    using registry_extends_trans[OF assms(1,2) ab(3) bc(3) bc(1) ab(2) bc(2)] order_trans[OF ab(2) bc(2)] by (simp add: registry_after_def)
qed

lemma mm_feed_total:
  assumes "driven_ok T D (m, s)" "mm_input_ok T D i"
  shows "\<exists>m' s'. mm_feed i (m, s) = Some (m', s') \<and> driven_ok T D (m', s') \<and> registry_after m m' \<and>
    mm_config m' = mm_config m \<and> mm_limits m' = mm_limits m"
proof -
  have ok: "mm_ok T D m" and names: "list_all (\<lambda>r. mp_matchmaker r = mm_id m) (mm_replies m)"
    "list_all (\<lambda>r. re_matchmaker r = mm_id m) (mm_reconfigure_replies m)"
    using assms(1) by (simp_all add: driven_ok_def)
  show ?thesis
  proof (cases i)
    case (In_Match q)
    then have q: "match_request_ok T q" using assms(2) by simp
    note step = mm_step_total[OF ok q]
    note ev = mm_step_evolves[OF ok q step]
    show ?thesis
      using In_Match step evolves_driven[OF assms(1) ev] names registry_after_evolves[OF ev] evolvesD(2,3)[OF ev]
      by (simp add: stepped_replies mm_reply_def)
  next
    case (In_Gc q)
    obtain out m' where adv: "advance_gc_watermark m (gq_journal q) (gq_generation q) (gq_watermark q) = Some (out, m')"
      using advance_gc_total[OF ok] by fastforce
    note ev = advance_gc_evolves[OF ok adv]
    have "mm_replies m' = mm_replies m" "mm_reconfigure_replies m' = mm_reconfigure_replies m"
      using adv by (auto simp: advance_gc_total[OF ok] gc_result_def mm_collected_def split: if_splits)
    then show ?thesis
      using In_Gc adv mm_gc_ack_total[OF ok adv] evolves_driven[OF assms(1) ev] names registry_after_evolves[OF ev] evolvesD(2,3)[OF ev]
      by auto
  next
    case (In_Reconfigure q)
    then obtain m' reply where m': "step_reconfigure m q = Some m'" "evolves T D m m'" "mm_replies m' = mm_replies m"
      "mm_reconfigure_replies m' = mm_reconfigure_replies m @ [reply]" "re_matchmaker reply = mm_id m"
      using step_reconfigure_total[OF ok] assms(2) by fastforce
    then show ?thesis
      using In_Reconfigure evolves_driven[OF assms(1) m'(2)] names registry_after_evolves[OF m'(2)] evolvesD(2,3)[OF m'(2)] by simp
  next
    case In_Flush
    obtain s' where s': "mm_feed In_Flush (m, s) = Some (mm_rested m, s')" "mirrors m s'" using flush_total[OF assms(1)] by blast
    have "driven_ok T D (mm_rested m, s')" using ok s'(2) by (simp add: driven_ok_def) (simp add: mm_rested_def)
    moreover have "registry_after m (mm_rested m)" by (auto simp: registry_after_def registry_extends_def)
    ultimately show ?thesis using In_Flush s'(1) by simp
  qed
qed

lemma mm_run_total:
  assumes "driven_ok T D (m, s)" "list_all (mm_input_ok T D) inputs"
  shows "\<exists>m' s'. mm_run inputs (m, s) = Some (m', s') \<and> driven_ok T D (m', s') \<and> registry_after m m' \<and>
    mm_config m' = mm_config m \<and> mm_limits m' = mm_limits m"
  using assms
proof (induction inputs arbitrary: m s)
  case Nil
  then show ?case by (auto simp: mm_run_def registry_after_def registry_extends_def)
next
  case (Cons i inputs)
  obtain m1 s1 where 1: "mm_feed i (m, s) = Some (m1, s1)" "driven_ok T D (m1, s1)" "registry_after m m1"
    "mm_config m1 = mm_config m" "mm_limits m1 = mm_limits m"
    using mm_feed_total[OF Cons.prems(1), of i] Cons.prems(2) by auto
  obtain m2 s2 where 2: "mm_run inputs (m1, s1) = Some (m2, s2)" "driven_ok T D (m2, s2)" "registry_after m1 m2"
    "mm_config m2 = mm_config m1" "mm_limits m2 = mm_limits m1"
    using Cons.IH[OF 1(2)] Cons.prems(2) by auto
  have "registry_after m m2" using registry_after_trans[OF _ _ 1(3) 2(3)] 1(2) 2(2) by (auto simp: driven_ok_def)
  moreover have "mm_run (i # inputs) (m, s) = Some (m2, s2)" using 1(1) 2(1) by (simp add: mm_run_def)
  ultimately show ?case using 1 2 by simp
qed

subsection \<open>A fresh matchmaker\<close>

definition fresh_store :: mem_registry where
  "fresh_store = mr_new hard_state_default fmempty"

definition fresh_matchmaker :: "matchmaker_config \<Rightarrow> limits \<Rightarrow> matchmaker" where
  "fresh_matchmaker cfg l = (let bs = remdups_adj (sort (mc_bootstrap cfg))
     in \<lparr>mm_config = \<lparr>mc_id = mc_id cfg, mc_bootstrap = bs\<rparr>, mm_hard = hard_state_default,
         mm_set = \<lparr>ms_generation = 0, ms_members = bs\<rparr>, mm_registries = fmempty,
         mm_writes = [], mm_replies = [], mm_reconfigure_replies = [], mm_limits = l\<rparr>)"

definition deployment_ok :: "matchmaker_config \<Rightarrow> limits \<Rightarrow> bool" where
  "deployment_ok cfg l \<longleftrightarrow> limits_ok l \<and> mc_bootstrap cfg \<noteq> [] \<and> length (mc_bootstrap cfg) \<le> isize_max"

lemma normal_sorted: "sorted_wrt (<) (remdups_adj (sort (xs :: nat list)))"
  by (simp add: strict_sorted_iff remdups_adj_set distinct_adj_remdups_adj normalized_eq)

lemma fresh_matchmaker_ok:
  assumes "deployment_ok cfg l"
  shows "mm_ok T D (fresh_matchmaker cfg l)" "mirrors (fresh_matchmaker cfg l) fresh_store"
    "mm_boot cfg fresh_store l = Some (fresh_matchmaker cfg l)"
proof -
  let ?m = "fresh_matchmaker cfg l" and ?bs = "remdups_adj (sort (mc_bootstrap cfg))"
  have "length ?bs \<le> length (mc_bootstrap cfg)" using remdups_adj_length[of "sort (mc_bootstrap cfg)"] by simp
  moreover have "sort (mc_bootstrap cfg) \<noteq> []" using assms unfolding deployment_ok_def by (metis set_sort set_empty)
  ultimately have bs: "bootstrap_ok ?bs"
    using assms normal_sorted by (simp add: bootstrap_ok_def deployment_ok_def)
  show ok: "mm_ok T D ?m"
    using assms bs
    by (simp add: mm_ok_def fresh_matchmaker_def deployment_ok_def registries_ok_def handover_ok_def hard_state_default_def
        membership_ok_def successor_ok_def decree_ok_def decree_record_default_def Let_def)
  show mir: "mirrors ?m fresh_store"
    by (simp add: mirrors_def fresh_store_def mr_new_def fresh_matchmaker_def mm_ledger_def Let_def fm_entries_def fm_keys_def)
  have "mm_boot cfg fresh_store l = mm_boot (mm_config ?m) fresh_store (mm_limits ?m)"
    using bs by (simp add: mm_boot_def mm_new_def fresh_matchmaker_def Let_def normal_bootstrap bootstrap_ok_def)
  also have "\<dots> = Some (mm_rested ?m)" by (rule boot_mirrors[OF ok mir])
  also have "mm_rested ?m = ?m" by (simp add: mm_rested_def fresh_matchmaker_def Let_def)
  finally show "mm_boot cfg fresh_store l = Some ?m" .
qed

lemma fresh_driven:
  assumes "deployment_ok cfg l"
  shows "driven_ok T D (fresh_matchmaker cfg l, fresh_store)"
  using fresh_matchmaker_ok(1,2)[OF assms] by (auto simp: driven_ok_def fresh_matchmaker_def Let_def)

lemma boot_normal: "mm_boot cfg s l = mm_boot \<lparr>mc_id = mc_id cfg, mc_bootstrap = remdups_adj (sort (mc_bootstrap cfg))\<rparr> s l"
  by (simp add: mm_boot_def mm_new_def normal_bootstrap[OF normal_sorted] Let_def)

lemma driven_run:
  assumes "deployment_ok cfg l" "list_all (mm_input_ok T D) inputs" "mm_boot cfg fresh_store l = Some m0"
    "mm_run inputs (m0, fresh_store) = Some (m, s)"
  shows "driven_ok T D (m, s)" "mm_config m = \<lparr>mc_id = mc_id cfg, mc_bootstrap = remdups_adj (sort (mc_bootstrap cfg))\<rparr>" "mm_limits m = l"
proof -
  have m0: "m0 = fresh_matchmaker cfg l" using assms(3) fresh_matchmaker_ok(3)[OF assms(1)] by simp
  then have "driven_ok T D (m0, fresh_store)" using fresh_driven[OF assms(1)] by simp
  from mm_run_total[OF this assms(2)] show "driven_ok T D (m, s)"
    "mm_config m = \<lparr>mc_id = mc_id cfg, mc_bootstrap = remdups_adj (sort (mc_bootstrap cfg))\<rparr>" "mm_limits m = l"
    using assms(4) m0 by (auto simp: fresh_matchmaker_def Let_def)
qed

subsection \<open>Reading a history page by page\<close>

text \<open>A candidate's loop over one matchmaker: it asks again from the cursor of each answer until there is
  none.\<close>

fun read_pages :: "nat \<Rightarrow> matchmaker \<Rightarrow> match_request \<Rightarrow> ledger option" where
  "read_pages 0 m q = None"
| "read_pages (Suc n) m q = do {
     m \<leftarrow> mm_step m q;
     case mp_outcome (last (mm_replies m)) of
       Match_Registered _ history cursor _ _ \<Rightarrow> (case cursor of
           None \<Rightarrow> Some history
         | Some c \<Rightarrow> do { rest \<leftarrow> read_pages n m (mq_from_page q c); Some (history ++\<^sub>f rest) })
     | _ \<Rightarrow> None
   }"

lemma of_list_split:
  assumes "sorted_wrt (<) (map fst (xs :: ('k::linorder \<times> 'v) list))"
  shows "fmap_of_list (take n xs) ++\<^sub>f fmap_of_list (drop n xs) = fmap_of_list xs"
proof (rule fmap_ext)
  fix k
  let ?t = "map_of (take n xs) k" and ?d = "map_of (drop n xs) k"
  have "distinct (map fst (take n xs @ drop n xs))" using strict_sorted_distinct[OF assms] by simp
  then have disj: "?t = None \<or> ?d = None"
    by (auto simp: map_of_eq_None_iff simp del: append_take_drop_id)
  have "map_of (take n xs @ drop n xs) k = (case ?t of None \<Rightarrow> ?d | Some v \<Rightarrow> Some v)"
    unfolding map_of_append map_add_def by simp
  then have "map_of xs k = (case ?d of None \<Rightarrow> ?t | Some v \<Rightarrow> Some v)"
    using disj by (auto split: option.splits)
  moreover have "k |\<in>| fmdom (fmap_of_list (drop n xs)) \<longleftrightarrow> ?d \<noteq> None"
    using fmlookup_dom_iff[of k "fmap_of_list (drop n xs)"] by (simp only: fmlookup_of_list) auto
  ultimately show "fmlookup (fmap_of_list (take n xs) ++\<^sub>f fmap_of_list (drop n xs)) k = fmlookup (fmap_of_list xs) k"
    by (simp only: fmlookup_add fmlookup_of_list) (auto split: option.splits)
qed

text \<open>The request a matchmaker answers with a page, and the answer.\<close>

definition registers :: "matchmaker \<Rightarrow> match_request \<Rightarrow> registration_kind \<Rightarrow> bool" where
  "registers m q kind \<longleftrightarrow> mq_purpose q = Purpose_Register kind \<and> judged m (mq_generation q) = None \<and>
     mm_gc m (mq_journal q) \<le> mq_ballot q \<and>
     (fmlookup (mm_ledger m (mq_journal q)) (mq_ballot q) = Some \<lparr>rg_config = mq_config q, rg_kind = kind\<rparr> \<or>
      (\<forall>b \<in> fmdom' (mm_ledger m (mq_journal q)). b < mq_ballot q))"

lemma registers_outcome:
  assumes "mq_purpose q = Purpose_Register kind"
  shows "registers m q kind \<longleftrightarrow> (\<exists>f h c w e. fst (mm_stepped m q) = Match_Registered f h c w e)"
    and "registers m q kind \<Longrightarrow> fst (mm_stepped m q) = mm_answer m (mq_journal q) (mq_from_ballot q) (mq_ballot q)"
proof -
  have s: "mm_stepped m q = mm_served m q kind" using assms by (simp add: mm_stepped_def)
  have ans: "\<exists>f h c w e. mm_answer m (mq_journal q) (mq_from_ballot q) (mq_ballot q) = Match_Registered f h c w e"
    by (simp add: mm_answer_def Let_def)
  have "(registers m q kind \<longleftrightarrow> (\<exists>f h c w e. fst (mm_stepped m q) = Match_Registered f h c w e)) \<and>
      (registers m q kind \<longrightarrow> fst (mm_stepped m q) = mm_answer m (mq_journal q) (mq_from_ballot q) (mq_ballot q))"
  proof (cases rule: mm_served_cases[of m q kind])
    case (refused r)
    have "\<not> registers m q kind"
    proof
      assume reg: "registers m q kind"
      show False
      proof (cases "fmlookup (mm_ledger m (mq_journal q)) (mq_ballot q) = Some \<lparr>rg_config = mq_config q, rg_kind = kind\<rparr>")
        case True
        then show False using reg refused by (simp add: registers_def mm_served_def Let_def mm_answer_def leD)
      next
        case False
        then have "case fm_last (mm_ledger m (mq_journal q)) of None \<Rightarrow> True | Some k \<Rightarrow> k < mq_ballot q"
          using reg by (simp add: registers_def fm_last_is_none_or)
        then show False using False reg refused
          by (cases "fm_last (mm_ledger m (mq_journal q))") (simp_all add: registers_def mm_served_def Let_def mm_answer_def leD flip: not_le)
      qed
    qed
    then show ?thesis using refused s by simp
  next
    case again
    then show ?thesis using s ans assms by (simp add: registers_def)
  next
    case fresh
    then show ?thesis using s ans assms by (simp add: registers_def)
  qed
  then show "registers m q kind \<longleftrightarrow> (\<exists>f h c w e. fst (mm_stepped m q) = Match_Registered f h c w e)"
    "registers m q kind \<Longrightarrow> fst (mm_stepped m q) = mm_answer m (mq_journal q) (mq_from_ballot q) (mq_ballot q)" by blast+
qed

lemma judged_cong:
  "mm_phase_of m' = mm_phase_of m \<Longrightarrow> hs_generation (mm_hard m') = hs_generation (mm_hard m) \<Longrightarrow> mm_set m' = mm_set m \<Longrightarrow>
    hs_successor (mm_hard m') = hs_successor (mm_hard m) \<Longrightarrow> judged m' g = judged m g"
  unfolding judged_def by (simp only:)

lemma registered_same:
  "mm_phase_of (mm_registered m j b r) = mm_phase_of m" "hs_generation (mm_hard (mm_registered m j b r)) = hs_generation (mm_hard m)"
  "mm_set (mm_registered m j b r) = mm_set m" "hs_successor (mm_hard (mm_registered m j b r)) = hs_successor (mm_hard m)"
  "mm_gc (mm_registered m j b r) = mm_gc m" "mm_limits (mm_registered m j b r) = mm_limits m"
  by (auto simp: mm_registered_def mm_phase_of_def fun_eq_iff)

lemma registers_after:
  assumes "registers m q kind"
  shows "mm_ledger (snd (mm_stepped m q)) (mq_journal q) =
      fmupd (mq_ballot q) \<lparr>rg_config = mq_config q, rg_kind = kind\<rparr> (mm_ledger m (mq_journal q))"
    "mm_gc (snd (mm_stepped m q)) = mm_gc m" "mm_limits (snd (mm_stepped m q)) = mm_limits m"
    "judged (snd (mm_stepped m q)) g = judged m g"
proof -
  let ?r = "\<lparr>rg_config = mq_config q, rg_kind = kind\<rparr>"
  have s: "mm_stepped m q = mm_served m q kind" using assms by (simp add: mm_stepped_def registers_def)
  have "\<exists>f h c w e. fst (mm_stepped m q) = Match_Registered f h c w e"
    using assms registers_outcome(1)[of q kind m] by (simp add: registers_def)
  then consider "snd (mm_stepped m q) = m" "fmlookup (mm_ledger m (mq_journal q)) (mq_ballot q) = Some ?r"
    | "snd (mm_stepped m q) = mm_registered m (mq_journal q) (mq_ballot q) ?r"
    by (cases rule: mm_served_cases[of m q kind]) (auto simp: s)
  then have "mm_ledger (snd (mm_stepped m q)) (mq_journal q) = fmupd (mq_ballot q) ?r (mm_ledger m (mq_journal q)) \<and>
    mm_gc (snd (mm_stepped m q)) = mm_gc m \<and> mm_limits (snd (mm_stepped m q)) = mm_limits m \<and>
    (\<forall>g. judged (snd (mm_stepped m q)) g = judged m g)"
  proof cases
    case 1
    then show ?thesis by (auto intro!: fmap_ext)
  next
    case 2
    moreover have "mm_ledger (mm_registered m (mq_journal q) (mq_ballot q) ?r) (mq_journal q) = fmupd (mq_ballot q) ?r (mm_ledger m (mq_journal q))"
      by (simp add: mm_ledger_registered)
    moreover have "judged (mm_registered m (mq_journal q) (mq_ballot q) ?r) g = judged m g" for g
      by (rule judged_cong) (simp_all add: registered_same)
    ultimately show ?thesis by (simp add: registered_same)
  qed
  then show "mm_ledger (snd (mm_stepped m q)) (mq_journal q) = fmupd (mq_ballot q) ?r (mm_ledger m (mq_journal q))"
    "mm_gc (snd (mm_stepped m q)) = mm_gc m" "mm_limits (snd (mm_stepped m q)) = mm_limits m"
    "judged (snd (mm_stepped m q)) g = judged m g" by simp_all
qed

lemma window_below: "mm_ledger m' j = fmupd b r (mm_ledger m j) \<Longrightarrow> window_of m' j lo b = window_of m j lo b"
proof -
  assume "mm_ledger m' j = fmupd b r (mm_ledger m j)"
  then have "fmfilter (\<lambda>k. lo \<le> k \<and> k < b) (mm_ledger m' j) = fmfilter (\<lambda>k. lo \<le> k \<and> k < b) (mm_ledger m j)"
    by (intro fmap_ext) simp
  then show ?thesis by (simp only: window_of_def)
qed

lemma window_of_from: "lo \<le> c \<Longrightarrow> window_of m j c b = filter (\<lambda>(k, _). c \<le> k) (window_of m j lo b)"
proof -
  assume lo: "lo \<le> c"
  have "set (window_of m j c b) = set (filter (\<lambda>(k, _). c \<le> k) (window_of m j lo b))"
    using lo order_trans[OF lo] by (auto simp: set_window_of)
  moreover have "sorted_wrt (<) (map fst (window_of m j c b))" "sorted_wrt (<) (map fst (filter (\<lambda>(k, _). c \<le> k) (window_of m j lo b)))"
    by (simp_all add: sorted_filter_fst)
  ultimately show ?thesis by (intro map_sorted_distinct_set_unique[of fst]) (auto simp: strict_sorted_iff inj_on_def set_window_of)
qed

lemma read_pages_total:
  assumes ok: "mm_ok T D m" and q: "match_request_ok T q" "registers m q kind"
    and fuel: "length (kept_records (window_of m (mq_journal q) (page_from m (mq_journal q) (mq_from_ballot q)) (mq_ballot q))) < n"
  shows "read_pages n m q =
    Some (fmap_of_list (kept_records (window_of m (mq_journal q) (page_from m (mq_journal q) (mq_from_ballot q)) (mq_ballot q))))"
  using assms
proof (induction n arbitrary: m q)
  case (Suc n)
  let ?j = "mq_journal q" and ?b = "mq_ballot q" and ?limit = "lm_registry_page (mm_limits m)"
  let ?lo = "page_from m ?j (mq_from_ballot q)"
  let ?rs = "kept_records (window_of m ?j ?lo ?b)"
  have kind: "mq_purpose q = Purpose_Register kind" using Suc.prems(3) by (simp add: registers_def)
  have srt: "sorted_wrt (<) (map fst ?rs)" by (simp add: kept_records_sorted)
  define m' where "m' = (snd (mm_stepped m q))\<lparr>mm_replies := mm_replies m @ [mm_reply m q (fst (mm_stepped m q))]\<rparr>"
  have step: "mm_step m q = Some m'" unfolding m'_def by (rule mm_step_total[OF Suc.prems(1,2)])
  have ans: "mp_outcome (last (mm_replies m')) = mm_answer m ?j (mq_from_ballot q) ?b"
    using registers_outcome(2)[OF kind Suc.prems(3)] by (simp add: m'_def mm_reply_def)
  show ?case
  proof (cases "page_next ?limit ?rs")
    case None
    then have "drop ?limit ?rs = []" by (auto simp: page_next_def split: list.splits)
    then have "take ?limit ?rs = ?rs" by simp
    then show ?thesis using None by (simp add: step ans mm_answer_def Let_def)
  next
    case (Some c)
    have ok': "mm_ok T D m'" using evolvesD(1)[OF mm_step_evolves[OF Suc.prems(1,2) step]] .
    note after = registers_after[OF Suc.prems(3)]
    have led: "mm_ledger m' ?j = fmupd ?b \<lparr>rg_config = mq_config q, rg_kind = kind\<rparr> (mm_ledger m ?j)"
      using after(1) by (simp add: m'_def mm_ledger_def)
    have "judged m' g = judged (snd (mm_stepped m q)) g" for g
      by (rule judged_cong) (simp_all add: m'_def mm_phase_of_def)
    then have gc: "mm_gc m' = mm_gc m" "judged m' g = judged m g" for g
      using after(2,4) by (simp_all add: m'_def)
    have "(c, snd (hd (drop ?limit ?rs))) \<in> set ?rs"
      using Some in_set_dropD[of _ ?limit ?rs] by (auto simp: page_next_def split: list.splits)
    then have c: "?lo \<le> c" "c < ?b" using kept_records_sub[of "window_of m ?j ?lo ?b"] by (auto simp: set_window_of)
    let ?q = "mq_from_page q c"
    have lo': "page_from m' ?j (mq_from_ballot ?q) = c"
      using c(1) page_from_ge[of m ?j "mq_from_ballot q"] gc(1) by (simp add: page_from_def mq_from_page_def max_absorb1)
    have rs': "kept_records (window_of m' ?j c ?b) = drop ?limit ?rs"
      using kept_from[OF window_of_sorted[of m ?j ?lo ?b], of c] drop_from_next[OF srt Some]
      by (simp add: window_below[OF led] window_of_from[OF c(1)])
    have "read_pages n m' ?q = Some (fmap_of_list (drop ?limit ?rs))"
    proof -
      have "match_request_ok T ?q" using Suc.prems(2) c(2) by (auto simp: match_request_ok_def mq_from_page_def)
      moreover have "registers m' ?q kind" using Suc.prems(3) led gc by (simp add: registers_def mq_from_page_def)
      moreover have "0 < ?limit" using mm_okD(1)[OF Suc.prems(1)] by (simp add: limits_ok_def)
      then have "length (drop ?limit ?rs) < n" using Suc.prems(4) page_next_full[OF Some] by auto
      ultimately show ?thesis using Suc.IH[OF ok', of ?q] rs' lo' by (simp add: mq_from_page_def)
    qed
    then show ?thesis using Some of_list_split[OF srt, of ?limit] by (simp add: step ans mm_answer_def Let_def)
  qed
qed simp

lemma driven_okD: "driven_ok T D (m, s) \<Longrightarrow> mm_ok T D m"
  by (simp add: driven_ok_def)

lemma registered_reply:
  assumes ok: "mm_ok T D m" and q: "match_request_ok T q" "mq_purpose q = Purpose_Register kind"
    and m1: "mm_step m q = Some m1" "mp_outcome (last (mm_replies m1)) = Match_Registered f h c w e"
  shows "registers m q kind" "m1 = (snd (mm_stepped m q))\<lparr>mm_replies := mm_replies m @ [mm_reply m q (fst (mm_stepped m q))]\<rparr>"
proof -
  show eq: "m1 = (snd (mm_stepped m q))\<lparr>mm_replies := mm_replies m @ [mm_reply m q (fst (mm_stepped m q))]\<rparr>"
    using m1(1) mm_step_total[OF ok q(1)] by simp
  then have "fst (mm_stepped m q) = Match_Registered f h c w e" using m1(2) by (simp add: mm_reply_def)
  then show "registers m q kind" using registers_outcome(1)[OF q(2)] by blast
qed

lemma kept_length: "length (kept_records window) \<le> length window"
  by (induction window) (auto simp: le_SucI)

lemma window_length: "length (window_of m j lo hi) \<le> fm_len (mm_ledger m j)"
proof -
  have "length (window_of m j lo hi) = fm_len (fmfilter (\<lambda>k. lo \<le> k \<and> k < hi) (mm_ledger m j))"
    by (simp add: window_of_def fm_entries_def fm_len_keys)
  also have "\<dots> \<le> fm_len (mm_ledger m j)"
    unfolding fm_len_def by (intro card_mono) (auto simp: fmlookup_dom'_iff split: if_splits)
  finally show ?thesis .
qed

subsection \<open>A deployment of one matchmaker\<close>

definition solo_config :: matchmaker_config where
  "solo_config = \<lparr>mc_id = 1, mc_bootstrap = [1]\<rparr>"

definition solo_registration :: "registration" where
  "solo_registration = \<lparr>rg_config = \<lparr>ac_members = [1], ac_quorum_system = Majority, ac_domains = [], ac_cell = 0, ac_proxies = 0, ac_replicas = 0\<rparr>, rg_kind = Reconfiguration\<rparr>"

definition solo_proposals :: proposals where
  "solo_proposals j b = solo_registration"

definition solo_request :: "ballot \<Rightarrow> match_request" where
  "solo_request b = \<lparr>mq_from = 1, mq_journal = 0, mq_ballot = b, mq_config = rg_config solo_registration,
     mq_purpose = Purpose_Register Reconfiguration, mq_generation = 0, mq_from_ballot = None\<rparr>"

lemma solo_ok: "deployment_ok solo_config limits_default" "match_request_ok solo_proposals (solo_request b)"
  by (simp_all add: deployment_ok_def solo_config_def limits_default_ok isize_max_def match_request_ok_def solo_request_def
      solo_proposals_def solo_registration_def)

lemma solo_serves: "mm_phase_of (fresh_matchmaker solo_config l) = Active" "hs_generation (mm_hard (fresh_matchmaker solo_config l)) = 0"
  "mm_ledger (fresh_matchmaker solo_config l) j = fmempty" "mm_gc (fresh_matchmaker solo_config l) j = ballot_zero"
  by (simp_all add: fresh_matchmaker_def solo_config_def mm_phase_of_def hard_state_default_def Let_def mm_ledger_def hs_gc_watermark_def)

lemma solo_registers:
  "registers (fresh_matchmaker solo_config l) (solo_request b) Reconfiguration"
  by (simp add: registers_def solo_serves judged_None) (simp add: solo_request_def)

lemma solo_step:
  obtains m1 f h c w e where "mm_step (fresh_matchmaker solo_config limits_default) (solo_request b) = Some m1"
    "mp_outcome (last (mm_replies m1)) = Match_Registered f h c w e"
    "driven_ok solo_proposals D (m1, fresh_store)" "hs_generation (mm_hard m1) = 0"
proof -
  let ?m = "fresh_matchmaker solo_config limits_default" and ?q = "solo_request b"
  note ok = fresh_matchmaker_ok(1)[OF solo_ok(1), of solo_proposals D]
  have p: "mq_purpose ?q = Purpose_Register Reconfiguration" by (simp add: solo_request_def)
  note step = mm_step_total[OF ok solo_ok(2), of b]
  obtain f h c w e where o': "fst (mm_stepped ?m ?q) = Match_Registered f h c w e"
    using registers_outcome(1)[OF p, of ?m] solo_registers by blast
  obtain m1 s where m1: "mm_feed (In_Match ?q) (?m, fresh_store) = Some (m1, s)" "driven_ok solo_proposals D (m1, s)"
    using mm_feed_total[OF fresh_driven[OF solo_ok(1)], of solo_proposals D "In_Match ?q"] solo_ok(2) by auto
  have eq: "m1 = (snd (mm_stepped ?m ?q))\<lparr>mm_replies := mm_replies ?m @ [mm_reply ?m ?q (fst (mm_stepped ?m ?q))]\<rparr>" "s = fresh_store"
    using m1(1) step by simp_all
  have "hs_generation (mm_hard m1) = 0"
  proof -
    have "judged (snd (mm_stepped ?m ?q)) 0 = None" using registers_after(4)[OF solo_registers, of limits_default b 0] solo_serves by (simp add: judged_None)
    then show ?thesis using eq(1) by (simp add: judged_None)
  qed
  then show thesis using that[OF _ _ m1(2)[unfolded eq(2)]] step o' eq(1) by (simp add: mm_reply_def)
qed

section \<open>Properties\<close>

text \<open>C7: a matchmaker never panics. From a fresh store, over any sequence of registrations, probes,
  collections, handover messages and flushes in which a ballot registers one configuration and a decree
  ballot proposes one set, every operation returns, so no assertion of the matchmaker, of the batch or of
  the store fires, and the matchmaker's own invariants hold at the end.\<close>

theorem matchmaker_never_panics:
  assumes "deployment_ok cfg l" "list_all (mm_input_ok T D) inputs"
  shows "\<exists>m0 m s. mm_boot cfg fresh_store l = Some m0 \<and> mm_run inputs (m0, fresh_store) = Some (m, s) \<and> mm_assert_invariants m = Some ()"
proof -
  obtain m s where "mm_run inputs (fresh_matchmaker cfg l, fresh_store) = Some (m, s)" "driven_ok T D (m, s)"
    using mm_run_total[OF fresh_driven[OF assms(1)] assms(2)] by blast
  then show ?thesis using fresh_matchmaker_ok(3)[OF assms(1)] mm_assert_total[OF driven_okD] by blast
qed

theorem matchmaker_never_panics_witness:
  "\<exists>m0 m s. mm_boot solo_config fresh_store limits_default = Some m0 \<and>
    mm_run [In_Match (solo_request (Ballot 1 1)), In_Flush, In_Reconfigure (Req_Stop 1 0 None)] (m0, fresh_store) = Some (m, s) \<and>
    mm_assert_invariants m = Some ()"
  by (rule matchmaker_never_panics[OF solo_ok(1), where T = solo_proposals and D = "\<lambda>_ _. []"]) (simp add: solo_ok(2))

text \<open>C6: a restart loses nothing that was flushed. After any such run, the flush persists the staged
  writes, and the matchmaker the constructor rebuilds from the store they leave is the matchmaker that was
  running, its scalars, its generation and every window of its registry, with an empty batch.\<close>

theorem matchmaker_restart:
  assumes "deployment_ok cfg l" "list_all (mm_input_ok T D) inputs" "mm_boot cfg fresh_store l = Some m0"
    "mm_run inputs (m0, fresh_store) = Some (m, s)"
  shows "\<exists>s'. mm_feed In_Flush (m, s) = Some (mm_rested m, s') \<and> mm_boot cfg s' l = Some (mm_rested m)"
proof -
  note run = driven_run[OF assms]
  obtain s' where s': "mm_feed In_Flush (m, s) = Some (mm_rested m, s')" "mirrors m s'" using flush_total[OF run(1)] by blast
  have "mm_boot cfg s' l = mm_boot (mm_config m) s' (mm_limits m)" using boot_normal[of cfg s' l] run(2,3) by simp
  then show ?thesis using s' boot_mirrors[OF driven_okD[OF run(1)] s'(2)] by simp
qed

theorem matchmaker_restart_witness:
  "\<exists>m s s'. mm_run [In_Match (solo_request (Ballot 1 1))] (fresh_matchmaker solo_config limits_default, fresh_store) = Some (m, s) \<and>
    mm_feed In_Flush (m, s) = Some (mm_rested m, s') \<and> mm_boot solo_config s' limits_default = Some (mm_rested m)"
proof -
  have "list_all (mm_input_ok solo_proposals (\<lambda>_ _. [])) [In_Match (solo_request (Ballot 1 1))]" by (simp add: solo_ok(2))
  note run = mm_run_total[OF fresh_driven[OF solo_ok(1)] this]
  then obtain m s where "mm_run [In_Match (solo_request (Ballot 1 1))] (fresh_matchmaker solo_config limits_default, fresh_store) = Some (m, s)" by blast
  then show ?thesis
    using matchmaker_restart[OF solo_ok(1) \<open>list_all _ _\<close> fresh_matchmaker_ok(3)[OF solo_ok(1)]] by blast
qed

text \<open>C4: a registration seals its ballot. Once a matchmaker has answered a registration of a ballot, and
  as long as it stays in that generation, the registration is there until a watermark above it collects
  it, and nothing below the ballot is registered any more: what the registry holds below it later it held
  when it answered.\<close>

theorem registration_sealed:
  assumes "deployment_ok cfg l" "list_all (mm_input_ok T D) (inputs @ later)" "mm_boot cfg fresh_store l = Some m0"
    "mm_run inputs (m0, fresh_store) = Some (m, s)"
    and q: "match_request_ok T q" "mq_purpose q = Purpose_Register kind" "mm_step m q = Some m1"
      "mp_outcome (last (mm_replies m1)) = Match_Registered f h c w e"
    and later: "mm_run later (m1, s) = Some (m2, s2)" "hs_generation (mm_hard m2) = hs_generation (mm_hard m1)"
  shows "\<exists>held now. mm_registry m (mq_journal q) = Some held \<and> mm_registry m2 (mq_journal q) = Some now \<and>
    (fmlookup now (mq_ballot q) = Some \<lparr>rg_config = mq_config q, rg_kind = kind\<rparr> \<or>
     mq_ballot q < hs_gc_watermark (mm_hard m2) (mq_journal q)) \<and>
    (\<forall>b r. b < mq_ballot q \<and> fmlookup now b = Some r \<longrightarrow> fmlookup held b = Some r)"
proof -
  let ?j = "mq_journal q" and ?b = "mq_ballot q" and ?r = "\<lparr>rg_config = mq_config q, rg_kind = kind\<rparr>"
  have d: "driven_ok T D (m, s)" using driven_run(1)[OF assms(1) _ assms(3,4)] assms(2) by simp
  note ok = driven_okD[OF d]
  note rep = registered_reply[OF ok q]
  have "mm_ledger m1 ?j = mm_ledger (snd (mm_stepped m q)) ?j" using rep(2) by (simp add: mm_ledger_def)
  then have led1: "mm_ledger m1 ?j = fmupd ?b ?r (mm_ledger m ?j)" using registers_after(1)[OF rep(1)] by simp
  have "mm_feed (In_Match q) (m, s) = Some (m1, s)" using q(3) by simp
  then have d1: "driven_ok T D (m1, s)" using mm_feed_total[OF d, of "In_Match q"] q(1) by auto
  have d2: "driven_ok T D (m2, s2)" and after: "registry_after m1 m2"
    using mm_run_total[OF d1, of later] assms(2) later(1) by auto
  note ok1 = driven_okD[OF d1] and ok2 = driven_okD[OF d2]
  have ext: "fmlookup (mm_ledger m1 ?j) x = Some y \<Longrightarrow> fmlookup (mm_ledger m2 ?j) x = Some y \<or> x < mm_gc m2 ?j"
    "x \<in> fmdom' (mm_ledger m2 ?j) - fmdom' (mm_ledger m1 ?j) \<Longrightarrow> z \<in> fmdom' (mm_ledger m1 ?j) \<Longrightarrow> z < x" for x y z
    using after later(2) by (simp_all add: registry_after_def registry_extends_def)
  have below: "fmlookup (mm_ledger m ?j) x = Some y" if x: "x < ?b" "fmlookup (mm_ledger m2 ?j) x = Some y" for x y
  proof -
    have "x \<in> fmdom' (mm_ledger m1 ?j)" using ext(2)[of x ?b] x led1 by (auto simp: fmdom'I dest: less_asym)
    then obtain y' where y': "fmlookup (mm_ledger m ?j) x = Some y'" "fmlookup (mm_ledger m1 ?j) x = Some y'"
      using led1 x(1) by (auto simp: fmlookup_dom'_iff split: if_splits)
    moreover have "mm_gc m2 ?j \<le> x" using mm_ledger_floor[OF ok2 fmdom'I[OF x(2)]] .
    ultimately show ?thesis using ext(1)[OF y'(2)] x(2) by (auto simp: leD)
  qed
  show ?thesis
    using mm_registry_total[OF ok] mm_registry_total[OF ok2] ext(1)[of ?b ?r] led1 below by (auto intro!: exI)
qed

theorem registration_sealed_witness:
  "\<exists>m1 now. mm_step (fresh_matchmaker solo_config limits_default) (solo_request (Ballot 1 1)) = Some m1 \<and>
    mm_registry m1 0 = Some now \<and> (fmlookup now (Ballot 1 1) = Some solo_registration \<or> Ballot 1 1 < hs_gc_watermark (mm_hard m1) 0)"
proof -
  let ?m = "fresh_matchmaker solo_config limits_default" and ?q = "solo_request (Ballot 1 1)"
  obtain m1 f h c w e where s: "mm_step ?m ?q = Some m1" "mp_outcome (last (mm_replies m1)) = Match_Registered f h c w e"
    using solo_step[of "Ballot 1 1" "\<lambda>_ _. []"] by metis
  have "mm_run [] x = Some x" for x by (simp add: mm_run_def)
  from registration_sealed[OF solo_ok(1) _ fresh_matchmaker_ok(3)[OF solo_ok(1)] this solo_ok(2) _ s this refl, where D = "\<lambda>_ _. []" and kind = Reconfiguration]
  show ?thesis using s(1) by (auto simp: solo_request_def solo_registration_def)
qed

text \<open>C5: an answer read page by page leaves out nothing a candidate needs. When a matchmaker answers a
  registration from the start, asking again from the cursor of each page ends, and what it collected is
  part of the registry below the ballot, has every reconfiguration registered there, and has, for every
  registration there, a registration of the same configuration at or above it.\<close>

theorem history_pages_complete:
  assumes "deployment_ok cfg l" "list_all (mm_input_ok T D) inputs" "mm_boot cfg fresh_store l = Some m0"
    "mm_run inputs (m0, fresh_store) = Some (m, s)"
    and q: "match_request_ok T q" "mq_purpose q = Purpose_Register kind" "mm_step m q = Some m1"
      "mp_outcome (last (mm_replies m1)) = Match_Registered f h c w e" "mq_from_ballot q = None"
    and held: "mm_registry m (mq_journal q) = Some held" "fm_len held < n"
  shows "\<exists>read. read_pages n m q = Some read \<and>
    (\<forall>b r. fmlookup read b = Some r \<longrightarrow> b < mq_ballot q \<and> fmlookup held b = Some r) \<and>
    (\<forall>b r. b < mq_ballot q \<and> fmlookup held b = Some r \<longrightarrow>
       (kind_is_reconfiguration (rg_kind r) \<longrightarrow> fmlookup read b = Some r) \<and>
       (\<exists>b' r'. b \<le> b' \<and> fmlookup read b' = Some r' \<and> rg_config r' = rg_config r))"
proof -
  let ?j = "mq_journal q" and ?b = "mq_ballot q"
  note ok = driven_okD[OF driven_run(1)[OF assms(1-4)]]
  note rep = registered_reply[OF ok q(1-4)]
  have lo: "page_from m ?j (mq_from_ballot q) = mm_gc m ?j" using q(5) by (simp add: page_from_def)
  have led: "held = mm_ledger m ?j" using held(1) mm_registry_total[OF ok] by simp
  let ?w = "window_of m ?j (mm_gc m ?j) ?b"
  let ?read = "fmap_of_list (kept_records ?w)"
  have "length (kept_records ?w) < n"
    using kept_length[of ?w] window_length[of m ?j "mm_gc m ?j" ?b] held(2) led by simp
  then have read: "read_pages n m q = Some ?read" using read_pages_total[OF ok q(1) rep(1), of n] lo by simp
  have look: "fmlookup ?read b = Some r \<longleftrightarrow> (b, r) \<in> set (kept_records ?w)" for b r
    using strict_sorted_distinct[OF kept_records_sorted[OF window_of_sorted]]
    by (simp add: fmlookup_of_list map_of_eq_Some_iff)
  have win: "(b, r) \<in> set ?w \<longleftrightarrow> b < ?b \<and> fmlookup held b = Some r" for b r
    using mm_ledger_floor[OF ok, of b ?j] by (auto simp: set_window_of led fmdom'I)
  show ?thesis
  proof (rule exI[of _ ?read], intro conjI allI impI)
    show "read_pages n m q = Some ?read" by (rule read)
  next
    fix b r assume "fmlookup ?read b = Some r"
    then have "(b, r) \<in> set ?w" using look kept_records_sub by blast
    then show "b < ?b" "fmlookup held b = Some r" by (simp_all add: win)
  next
    fix b r assume "b < ?b \<and> fmlookup held b = Some r" "kind_is_reconfiguration (rg_kind r)"
    then show "fmlookup ?read b = Some r" using kept_reconfigurations[of b r ?w] win look by blast
  next
    fix b r assume "b < ?b \<and> fmlookup held b = Some r"
    then show "\<exists>b' r'. b \<le> b' \<and> fmlookup ?read b' = Some r' \<and> rg_config r' = rg_config r"
      using kept_configs[OF window_of_sorted, of b r m ?j "mm_gc m ?j" ?b] win look by blast
  qed
qed

theorem history_pages_complete_witness:
  "\<exists>read. read_pages 1 (fresh_matchmaker solo_config limits_default) (solo_request (Ballot 1 1)) = Some read"
proof -
  let ?m = "fresh_matchmaker solo_config limits_default" and ?q = "solo_request (Ballot 1 1)"
  obtain m1 f h c w e where s: "mm_step ?m ?q = Some m1" "mp_outcome (last (mm_replies m1)) = Match_Registered f h c w e"
    using solo_step[of "Ballot 1 1" "\<lambda>_ _. []"] by metis
  have "mm_run [] x = Some x" for x by (simp add: mm_run_def)
  note run = this[of "(?m, fresh_store)"]
  have reg: "mm_registry ?m (mq_journal ?q) = Some fmempty" by (simp add: mm_registry_def fresh_matchmaker_def Let_def)
  from history_pages_complete[OF solo_ok(1) _ fresh_matchmaker_ok(3)[OF solo_ok(1)] run solo_ok(2) _ s _ reg, where D = "\<lambda>_ _. []" and kind = Reconfiguration and n = 1]
  show ?thesis by (auto simp: solo_request_def)
qed

text \<open>C8: a stop freezes the registry. After a matchmaker of the generation has answered a stop, and as
  long as it stays in that generation, its windows are exactly those it froze and every registration
  addressed to the generation is refused.\<close>

theorem stop_freezes:
  assumes "deployment_ok cfg l" "list_all (mm_input_ok T D) (inputs @ later)" "mm_boot cfg fresh_store l = Some m0"
    "mm_run inputs (m0, fresh_store) = Some (m, s)"
    and stop: "serves_handover_of m g = Some True" "step_reconfigure m (Req_Stop from g after) = Some m1"
    and later: "mm_run later (m1, s) = Some (m2, s2)" "hs_generation (mm_hard m2) = g"
  shows "mm_registries m2 = mm_registries m1 \<and> mm_phase m2 = Some Stopped \<and> (\<exists>refusal. generation_refusal m2 g = Some (Some refusal))"
proof -
  have d: "driven_ok T D (m, s)" using driven_run(1)[OF assms(1) _ assms(3,4)] assms(2) by simp
  note ok = driven_okD[OF d]
  have serve: "serves m g" using stop(1) by (simp add: serves_handover_total[OF ok])
  obtain reply m' where m': "on_stop m g after = Some (reply, m')" "handles T D m m'" "mm_phase_of m' = Stopped"
    using on_stop_total[OF ok, of g after] serve by auto
  have "m1 = m'\<lparr>mm_reconfigure_replies := mm_reconfigure_replies m' @ [reply]\<rparr>"
    using stop(2) m'(1) by (auto simp: step_reconfigure_def bind_Some_iff Let_def)
  then have p1: "mm_phase_of m1 = Stopped" and g1: "hs_generation (mm_hard m1) = hs_generation (mm_hard m')"
    using m'(3) by (simp_all add: phase_stopped)
  have "mm_feed (In_Reconfigure (Req_Stop from g after)) (m, s) = Some (m1, s)" using stop(2) by simp
  then have d1: "driven_ok T D (m1, s)" and a1: "registry_after m m1"
    using mm_feed_total[OF d, of "In_Reconfigure (Req_Stop from g after)"] by auto
  have d2: "driven_ok T D (m2, s2)" and a2: "registry_after m1 m2"
    using mm_run_total[OF d1, of later] assms(2) later(1) by auto
  have "g \<le> hs_generation (mm_hard m1)" "hs_generation (mm_hard m1) \<le> hs_generation (mm_hard m2)"
    using a1 a2 serve by (simp_all add: registry_after_def serves_def)
  then have "hs_generation (mm_hard m2) = hs_generation (mm_hard m1)" using later(2) by simp
  then have fr: "mm_phase_of m2 = Stopped" "mm_registries m2 = mm_registries m1"
    using a2 p1 by (simp_all add: registry_after_def registry_extends_def)
  moreover have "judged m2 g \<noteq> None" using fr(1) by (simp add: judged_None)
  ultimately show ?thesis
    using judge_generation_total(2)[OF driven_okD[OF d2], of g] by (auto simp: mm_phase_total)
qed

theorem stop_freezes_witness:
  "\<exists>m1. step_reconfigure (fresh_matchmaker solo_config limits_default) (Req_Stop 1 0 None) = Some m1 \<and> mm_phase m1 = Some Stopped"
proof -
  let ?m = "fresh_matchmaker solo_config limits_default"
  note ok = fresh_matchmaker_ok(1)[OF solo_ok(1), of solo_proposals "\<lambda>_ _. []"]
  have serve: "serves_handover_of ?m 0 = Some True" by (simp add: serves_handover_total[OF ok] serves_def solo_serves)
  obtain m1 where m1: "step_reconfigure ?m (Req_Stop 1 0 None) = Some m1"
    using step_reconfigure_total[OF ok, of "Req_Stop 1 0 None"] by auto
  have g: "hs_generation (mm_hard m1) = 0"
  proof -
    have "on_stop ?m 0 None \<noteq> None" using on_stop_total[OF ok, of 0 None] by auto
    moreover have "freeze ?m = Some (staged ?m (frozen_hard ?m) (mm_set ?m))" using freeze_total(1)[OF ok] solo_serves(1) by simp
    ultimately show ?thesis using m1 serve solo_serves(1)
      by (auto simp: step_reconfigure_def on_stop_def mm_phase_total bind_Some_iff Let_def staged_def frozen_hard_def solo_serves)
  qed
  have "mm_run [] x = Some x" for x by (simp add: mm_run_def)
  from stop_freezes[OF solo_ok(1) _ fresh_matchmaker_ok(3)[OF solo_ok(1)] this serve m1 this g, where T = solo_proposals and D = "\<lambda>_ _. []"]
  show ?thesis using m1 by auto
qed

section \<open>A cursor above its ballot\<close>

text \<open>The contract on the cursor is needed: the page of a registered ballot is cut with
  \<^verbatim>\<open>range(from_ballot..ballot)\<close>, whose start may not lie after its end.\<close>

lemma cursor_above_ballot_stuck:
  assumes ok: "mm_ok T D m" and q: "mq_purpose q = Purpose_Register kind" "judged m (mq_generation q) = None"
    "fmlookup (mm_ledger m (mq_journal q)) (mq_ballot q) = Some \<lparr>rg_config = mq_config q, rg_kind = kind\<rparr>"
    "mq_from_ballot q = Some c" "mq_ballot q < c"
  shows "mm_step m q = None"
proof -
  let ?j = "mq_journal q" and ?b = "mq_ballot q"
  obtain w where w: "fmlookup (mm_registries m) ?j = Some w" using q(3) by (cases "fmlookup (mm_registries m) ?j") (auto simp: mm_ledger_def)
  have "\<not> max c (mm_gc m ?j) \<le> ?b" using q(5) by (simp add: not_le less_max_iff_disj)
  then have "mm_page m ?j (Some c) ?b = None" using w by (auto simp: mm_page_def rw_range_def Let_def)
  moreover obtain h where "fm_last (mm_ledger m ?j) = Some h" "?b \<le> h" using fm_last_below[OF q(3)] by blast
  moreover have "mm_gc m ?j \<le> ?b" using mm_ledger_floor[OF ok fmdom'I[OF q(3)]] .
  ultimately show ?thesis
    using q by (simp add: mm_step_def mm_assert_total[OF ok] judge_generation_total[OF ok] mm_highest_total[OF ok] mm_registry_total[OF ok] Let_def leD)
qed

text \<open>C40: a page cursor above its ballot stops a matchmaker. When a matchmaker has answered a registration, the
  same registration asked again from a cursor above its ballot panics, whatever came before it.\<close>

theorem cursor_above_ballot_panics:
  assumes "deployment_ok cfg l" "list_all (mm_input_ok T D) inputs" "mm_boot cfg fresh_store l = Some m0"
    "mm_run inputs (m0, fresh_store) = Some (m, s)"
    and q: "match_request_ok T q" "mq_purpose q = Purpose_Register kind" "mm_step m q = Some m1"
      "mp_outcome (last (mm_replies m1)) = Match_Registered f h c w e"
    and cursor: "mq_ballot q < cur"
  shows "mm_step m1 (mq_from_page q cur) = None"
proof -
  have "driven_ok T D (m, s)" by (rule driven_run(1)[OF assms(1-4)])
  then have ok: "mm_ok T D m" by (rule driven_okD)
  note r = registered_reply[OF ok q]
  have ok1: "mm_ok T D m1" using evolvesD(1)[OF mm_step_evolves[OF ok q(1,3)]] .
  have "judged m1 g = judged m g" for g
    using registers_after(4)[OF r(1)] judged_cong[of m1 "snd (mm_stepped m q)"] r(2) by (simp add: mm_phase_of_def)
  moreover have "mm_ledger m1 = mm_ledger (snd (mm_stepped m q))" using r(2) by (simp add: mm_ledger_def fun_eq_iff)
  ultimately show ?thesis
    using r(1) registers_after(1)[OF r(1)] q(2) cursor
    by (intro cursor_above_ballot_stuck[OF ok1, of _ kind cur]) (simp_all add: mq_from_page_def registers_def)
qed

theorem cursor_above_ballot_panics_witness:
  "\<exists>m1. mm_step (fresh_matchmaker solo_config limits_default) (solo_request (Ballot 1 1)) = Some m1 \<and>
    mm_step m1 (mq_from_page (solo_request (Ballot 1 1)) (Ballot 2 1)) = None"
proof -
  let ?m = "fresh_matchmaker solo_config limits_default" and ?q = "solo_request (Ballot 1 1)"
  obtain m1 f h c w e where s: "mm_step ?m ?q = Some m1" "mp_outcome (last (mm_replies m1)) = Match_Registered f h c w e"
    using solo_step[of "Ballot 1 1" "\<lambda>_ _. []"] by metis
  have "mm_run [] x = Some x" for x by (simp add: mm_run_def)
  from cursor_above_ballot_panics[OF solo_ok(1) _ fresh_matchmaker_ok(3)[OF solo_ok(1)] this solo_ok(2) _ s, where D = "\<lambda>_ _. []" and kind = Reconfiguration and cur = "Ballot 2 1"]
  show ?thesis using s(1) by (simp add: solo_request_def less_ballot_def)
qed

end
