(* ===== verification/Matchmaking.thy ===== *)
theory Matchmaking
  imports Matchmaker_Inv
begin

section \<open>The candidate's side of matchmaking\<close>

text \<open>
  \<^verbatim>\<open>paros-core/src/matchmaking.rs\<close> and \<^verbatim>\<open>matchmaking/probe.rs\<close>: a candidate registers its ballot with the
  matchmakers of a generation and unions the histories they answer with, page by page, into the prior
  configurations \<open>H_b\<close> its Phase 1 must cover; a follower probes which configuration is in force.
\<close>

subsection \<open>Pages\<close>

record registered_page =
  pg_from_ballot :: ballot
  pg_history :: ledger
  pg_next_from_ballot :: "ballot option"
  pg_gc_watermark :: ballot
  pg_effective :: effective_config

definition page_decode :: "match_outcome \<Rightarrow> (match_refusal + registered_page) option" where
  "page_decode outcome = (case outcome of
       Match_Registered from_ballot history next_from_ballot gc_watermark effective \<Rightarrow>
         Some (Inr \<lparr>pg_from_ballot = from_ballot, pg_history = history, pg_next_from_ballot = next_from_ballot,
           pg_gc_watermark = gc_watermark, pg_effective = effective\<rparr>)
     | Match_Refused refusal \<Rightarrow> Some (Inl refusal)
     | Match_Probed _ \<Rightarrow> None)"

definition page_from_outcome :: "match_outcome \<Rightarrow> (match_refusal + registered_page) option option" where
  "page_from_outcome outcome = do {
     let probed = (case outcome of Match_Probed _ \<Rightarrow> True | _ \<Rightarrow> False);
     let decoded = page_decode outcome;
     check ((decoded = None) = probed);
     Some decoded
   }"

definition page_from_reply :: "match_reply \<Rightarrow> (matchmaker_id \<times> (match_refusal + registered_page) option) option" where
  "page_from_reply reply = do {
     page \<leftarrow> page_from_outcome (mp_outcome reply);
     Some (mp_matchmaker reply, page)
   }"

datatype match_fold = Fold_Ignored | Fold_Paged ballot | Fold_Registered

subsection \<open>The union of the histories\<close>

record matchmaking =
  mk_ballot :: ballot
  mk_config :: node_config
  mk_kind :: registration_kind
  mk_registered_by :: "matchmaker_id set"
  mk_page_next :: "(matchmaker_id, ballot) fmap"
  mk_history :: "(ballot, node_config list) fmap"
  mk_effective :: effective_config
  mk_watermark :: ballot
  mk_disagreements :: nat

text \<open>The summand of a ballot: its configurations beyond the first.\<close>

definition add_extra :: "ballot \<times> node_config list \<Rightarrow> nat \<Rightarrow> nat option" where
  "add_extra = (\<lambda>(_, configs) sum. do {
     extra \<leftarrow> checked_sub64 (min (length configs) u64_max) 1;
     checked_add64 sum extra
   })"

definition mk_assert_invariants :: "matchmaking \<Rightarrow> unit option" where
  "mk_assert_invariants m = do {
     check (list_all (\<lambda>mm. mm \<notin> mk_registered_by m) (fm_keys (mk_page_next m)));
     check (list_all (\<lambda>(_, configs). configs \<noteq> []) (fm_entries (mk_history m)));
     extra \<leftarrow> try_fold add_extra (fm_entries (mk_history m)) 0;
     check (mk_disagreements m = extra)
   }"

definition mk_new :: "ballot \<Rightarrow> node_config \<Rightarrow> registration_kind \<Rightarrow> matchmaking option" where
  "mk_new ballot config kind = do {
     let m = \<lparr>mk_ballot = ballot, mk_config = config, mk_kind = kind, mk_registered_by = {}, mk_page_next = fmempty,
       mk_history = fmempty, mk_effective = None, mk_watermark = ballot_zero, mk_disagreements = 0\<rparr>;
     mk_assert_invariants m;
     Some m
   }"

definition mk_heard_anyone :: "matchmaking \<Rightarrow> bool" where
  "mk_heard_anyone m \<longleftrightarrow> mk_registered_by m \<noteq> {} \<or> mk_page_next m \<noteq> fmempty"

definition mk_watermark' :: "matchmaking \<Rightarrow> ballot option" where
  "mk_watermark' m = do {
     (if mk_watermark m > ballot_zero then check (mk_heard_anyone m) else Some ());
     Some (mk_watermark m)
   }"

definition mk_effective' :: "matchmaking \<Rightarrow> effective_config option" where
  "mk_effective' m = do {
     (if mk_effective m \<noteq> None then check (mk_heard_anyone m) else Some ());
     Some (mk_effective m)
   }"

definition mk_disagreements' :: "matchmaking \<Rightarrow> nat option" where
  "mk_disagreements' m = do {
     (if mk_disagreements m > 0 then check (mk_history m \<noteq> fmempty) else Some ());
     Some (mk_disagreements m)
   }"

definition mk_accepts :: "matchmaking \<Rightarrow> matchmaker_id \<Rightarrow> registered_page \<Rightarrow> bool option" where
  "mk_accepts m matchmaker page = (
     if matchmaker \<in> mk_registered_by m then Some False
     else do {
       cursor \<leftarrow> (case fmlookup (mk_page_next m) matchmaker of
           None \<Rightarrow> Some True
         | Some expected \<Rightarrow>
             (let at_cursor = (pg_from_ballot page = expected);
                  cursor_collected = (pg_from_ballot page > expected \<and> pg_from_ballot page = pg_gc_watermark page)
              in if \<not> at_cursor \<and> \<not> cursor_collected then Some False
                 else do { check (pg_from_ballot page \<ge> expected); Some True }));
       Some (cursor \<and> fm_len (pg_history page) \<le> REGISTRY_PAGE \<and>
         list_all (\<lambda>b. b \<ge> pg_from_ballot page) (fm_keys (pg_history page)) \<and>
         (case pg_next_from_ballot page of None \<Rightarrow> True
          | Some next \<Rightarrow> pg_history page \<noteq> fmempty \<and> next > pg_from_ballot page \<and>
              (case fm_last (pg_history page) of None \<Rightarrow> True | Some greatest \<Rightarrow> next > greatest)))
     })"

definition mk_raise_effective :: "matchmaking \<Rightarrow> ballot \<Rightarrow> node_config \<Rightarrow> matchmaking option" where
  "mk_raise_effective m ballot config = do {
     let held = map_option fst (mk_effective m);
     (_, effective) \<leftarrow> raise_effective (mk_effective m) ballot config;
     let m = m\<lparr>mk_effective := effective\<rparr>;
     let now = map_option fst (mk_effective m);
     check (now \<ge> held);
     check (now \<ge> Some ballot);
     Some m
   }"

definition entry_or_default :: "('k, 'v list) fmap \<Rightarrow> 'k \<Rightarrow> 'v list" where
  "entry_or_default m k = (case fmlookup m k of None \<Rightarrow> [] | Some vs \<Rightarrow> vs)"

definition mk_union :: "ballot \<times> registration \<Rightarrow> matchmaking \<Rightarrow> matchmaking option" where
  "mk_union = (\<lambda>(ballot, registration) m. do {
     let config = rg_config registration;
     m \<leftarrow> (if kind_is_reconfiguration (rg_kind registration) then mk_raise_effective m ballot config else Some m);
     let entry = entry_or_default (mk_history m) ballot;
     Some (if config \<in> set entry then m
           else m\<lparr>mk_disagreements := (if entry \<noteq> [] then saturating_add64 (mk_disagreements m) 1 else mk_disagreements m),
                  mk_history := fmupd ballot (entry @ [config]) (mk_history m)\<rparr>)
   })"

definition mk_fold :: "matchmaking \<Rightarrow> matchmaker_id \<Rightarrow> registered_page \<Rightarrow> (match_fold \<times> matchmaking) option" where
  "mk_fold m matchmaker page = do {
     accepted \<leftarrow> mk_accepts m matchmaker page;
     if \<not> accepted then Some (Fold_Ignored, m)
     else do {
       let watermark = mk_watermark m;
       let disagreements = mk_disagreements m;
       m \<leftarrow> try_fold mk_union (fm_entries (pg_history page)) m;
       m \<leftarrow> (case pg_effective page of
           None \<Rightarrow> Some m
         | Some (ballot, config) \<Rightarrow> mk_raise_effective m ballot config);
       let m = m\<lparr>mk_watermark := max (mk_watermark m) (pg_gc_watermark page)\<rparr>;
       let (result, m) = (case pg_next_from_ballot page of
           Some next \<Rightarrow> (Fold_Paged next, m\<lparr>mk_page_next := fmupd matchmaker next (mk_page_next m)\<rparr>)
         | None \<Rightarrow> (Fold_Registered, m\<lparr>mk_page_next := fmdrop matchmaker (mk_page_next m),
                      mk_registered_by := insert matchmaker (mk_registered_by m)\<rparr>));
       check (mk_watermark m \<ge> watermark);
       check (mk_disagreements m \<ge> disagreements);
       mk_assert_invariants m;
       Some (result, m)
     }
   }"

definition mk_quorum_held :: "matchmaking \<Rightarrow> matchmaker_set \<Rightarrow> bool option" where
  "mk_quorum_held m matchmakers = do {
     held \<leftarrow> ms_has_quorum matchmakers (mk_registered_by m);
     (if held then check (mk_registered_by m \<noteq> {}) else Some ());
     Some held
   }"

definition mk_remaining :: "matchmaking \<Rightarrow> matchmaker_set \<Rightarrow> nat option" where
  "mk_remaining m matchmakers = do {
     members \<leftarrow> try_all (ms_contains matchmakers) (sorted_list_of_set (mk_registered_by m));
     check members;
     remaining \<leftarrow> ms_remaining matchmakers (mk_registered_by m);
     held \<leftarrow> mk_quorum_held m matchmakers;
     check ((remaining = 0) = held);
     Some remaining
   }"

definition mk_unanswered :: "matchmaking \<Rightarrow> matchmaker_set \<Rightarrow> (matchmaker_id \<times> ballot option) list option" where
  "mk_unanswered m matchmakers = do {
     let unanswered = map (\<lambda>mm. (mm, fmlookup (mk_page_next m) mm)) (ms_unanswered matchmakers (mk_registered_by m));
     check (list_all (\<lambda>(mm, _). mm \<notin> mk_registered_by m) unanswered);
     Some unanswered
   }"

definition mk_registered :: "matchmaking \<Rightarrow> nat" where
  "mk_registered m = card (mk_registered_by m)"

text \<open>The loops over the histories at or above the watermark: a configuration is pushed when it is not there
  yet.\<close>

definition push_new :: "'a \<Rightarrow> 'a list \<Rightarrow> 'a list" where
  "push_new config prior = (if config \<in> set prior then prior else prior @ [config])"

definition mk_prior :: "matchmaking \<Rightarrow> node_config list option" where
  "mk_prior m = do {
     let prior = fold push_new (concat (map snd (fm_entries (fm_from (mk_watermark m) (mk_history m))))) [];
     check (list_all (\<lambda>i. prior ! i \<notin> set (take i prior)) [0..<length prior]);
     check (length prior \<le> sum_list (map (length \<circ> snd) (fm_entries (mk_history m))));
     Some prior
   }"

definition mk_stale_belief :: "matchmaking \<Rightarrow> effective_config option" where
  "mk_stale_belief m = (
     if kind_is_reconfiguration (mk_kind m) then Some None
     else (case mk_effective m of
         None \<Rightarrow> Some None
       | Some (newest, config) \<Rightarrow>
           if config = mk_config m then Some None
           else do { check (\<not> kind_is_reconfiguration (mk_kind m)); Some (Some (newest, config)) }))"

subsection \<open>The membership probe\<close>

record membership_probe =
  mb_ballot :: ballot
  mb_believed :: node_config
  mb_answered :: "matchmaker_id set"
  mb_effective :: effective_config

definition mb_new :: "ballot \<Rightarrow> node_config \<Rightarrow> membership_probe" where
  "mb_new ballot believed = \<lparr>mb_ballot = ballot, mb_believed = believed, mb_answered = {}, mb_effective = None\<rparr>"

definition mb_fold :: "membership_probe \<Rightarrow> matchmaker_id \<Rightarrow> effective_config \<Rightarrow> (bool \<times> membership_probe) option" where
  "mb_fold p matchmaker effective = (
     if matchmaker \<in> mb_answered p then Some (False, p)
     else do {
       let p = p\<lparr>mb_answered := insert matchmaker (mb_answered p)\<rparr>;
       let held = map_option fst (mb_effective p);
       p \<leftarrow> (case effective of
           None \<Rightarrow> Some p
         | Some (ballot, config) \<Rightarrow> do {
             (_, e) \<leftarrow> raise_effective (mb_effective p) ballot config;
             Some (p\<lparr>mb_effective := e\<rparr>)
           });
       check (map_option fst (mb_effective p) \<ge> held);
       Some (True, p)
     })"

definition mb_quorum_held :: "membership_probe \<Rightarrow> matchmaker_set \<Rightarrow> bool option" where
  "mb_quorum_held p matchmakers = do {
     held \<leftarrow> ms_has_quorum matchmakers (mb_answered p);
     (if held then check (mb_answered p \<noteq> {}) else Some ());
     Some held
   }"

definition mb_answered_by :: "membership_probe \<Rightarrow> nat" where
  "mb_answered_by p = card (mb_answered p)"

definition mb_unanswered :: "membership_probe \<Rightarrow> matchmaker_set \<Rightarrow> matchmaker_id list option" where
  "mb_unanswered p matchmakers = do {
     let unanswered = ms_unanswered matchmakers (mb_answered p);
     check (list_all (\<lambda>mm. mm \<notin> mb_answered p) unanswered);
     Some unanswered
   }"

definition mb_effective' :: "membership_probe \<Rightarrow> effective_config option" where
  "mb_effective' p = do {
     (if mb_effective p \<noteq> None then check (mb_answered p \<noteq> {}) else Some ());
     Some (mb_effective p)
   }"

section \<open>What the union guarantees\<close>

text \<open>The configurations beyond the first of their ballot.\<close>

definition extra_configs :: "(ballot, node_config list) fmap \<Rightarrow> nat" where
  "extra_configs H = (\<Sum>b \<in> fmdom' H. length (the (fmlookup H b)) - 1)"

definition mk_core :: "matchmaking \<Rightarrow> bool" where
  "mk_core m \<longleftrightarrow> finite (mk_registered_by m) \<and> fmdom' (mk_page_next m) \<inter> mk_registered_by m = {} \<and>
     (\<forall>b. fmlookup (mk_history m) b \<noteq> Some []) \<and>
     mk_disagreements m = extra_configs (mk_history m) \<and> mk_disagreements m < u64_max"

definition mk_ok :: "matchmaking \<Rightarrow> bool" where
  "mk_ok m \<longleftrightarrow> mk_core m \<and> (ballot_zero < mk_watermark m \<or> mk_effective m \<noteq> None \<longrightarrow> mk_heard_anyone m)"

lemma extra_configs_upd:
  "extra_configs (fmupd b cs H) + (case fmlookup H b of None \<Rightarrow> 0 | Some cs0 \<Rightarrow> length cs0 - 1) = extra_configs H + (length cs - 1)"
proof -
  let ?f = "\<lambda>x. length (the (fmlookup H x)) - 1"
  let ?rest = "\<Sum>x \<in> fmdom' H - {b}. ?f x"
  have "(\<Sum>x \<in> insert b (fmdom' H) - {b}. length (the (fmlookup (fmupd b cs H) x)) - 1) = ?rest"
    by (rule sum.cong) auto
  then have "extra_configs (fmupd b cs H) = (length cs - 1) + ?rest"
    unfolding extra_configs_def using sum.remove[of "insert b (fmdom' H)" b "\<lambda>x. length (the (fmlookup (fmupd b cs H) x)) - 1"] by simp
  moreover have "extra_configs H = (case fmlookup H b of None \<Rightarrow> 0 | Some cs0 \<Rightarrow> length cs0 - 1) + ?rest"
  proof (cases "fmlookup H b")
    case None
    then have "fmdom' H - {b} = fmdom' H" by (auto simp: fmdom'_iff)
    then show ?thesis using None by (simp add: extra_configs_def)
  next
    case (Some cs0)
    then show ?thesis unfolding extra_configs_def using sum.remove[of "fmdom' H" b ?f] by (simp add: fmdom'I)
  qed
  ultimately show ?thesis by simp
qed

lemma sum_checked:
  assumes "\<forall>(b, cs) \<in> set xs. cs \<noteq> [] \<and> length cs \<le> u64_max" "acc + (\<Sum>(b, cs) \<leftarrow> xs. length cs - 1) \<le> u64_max"
  shows "try_fold add_extra xs acc = Some (acc + (\<Sum>(b, cs) \<leftarrow> xs. length cs - 1))"
  using assms
proof (induction xs arbitrary: acc)
  case (Cons x xs)
  obtain b cs where x: "x = (b, cs)" by fastforce
  then have cs: "cs \<noteq> []" "length cs \<le> u64_max" using Cons.prems(1) by auto
  have le: "acc + (length cs - 1) \<le> u64_max" using Cons.prems(2) x by simp
  have "1 \<le> length cs" using cs(1) by (cases cs) simp_all
  then have "add_extra x acc = Some (acc + (length cs - 1))"
    using le cs u64_max_pos by (simp only: add_extra_def x prod.case checked_sub64_def checked_add64_def) (simp add: min_absorb1 Suc_leI)
  then show ?case using Cons.IH[of "acc + (length cs - 1)"] Cons.prems x by (simp add: add.assoc)
qed simp

lemma sum_entries: "(\<Sum>(b, cs) \<leftarrow> fm_entries H. length cs - 1) = extra_configs H"
  by (simp add: fm_entries_def extra_configs_def comp_def fm_keys_def sum_list_distinct_conv_sum_set)

lemma extra_configs_ge: "fmlookup H b = Some cs \<Longrightarrow> length cs - 1 \<le> extra_configs H"
  unfolding extra_configs_def using member_le_sum[of b "fmdom' H" "\<lambda>b. length (the (fmlookup H b)) - 1"] by (simp add: fmdom'I)

lemma mk_assert_total [total_simps]: "mk_core m \<Longrightarrow> mk_assert_invariants m = Some ()"
proof -
  assume ok: "mk_core m"
  have "extra_configs (mk_history m) < u64_max" using ok by (auto simp: mk_core_def)
  moreover from this have "length cs \<le> u64_max" if "fmlookup (mk_history m) b = Some cs" for b cs
    using extra_configs_ge[OF that] by linarith
  then have "\<forall>(b, cs) \<in> set (fm_entries (mk_history m)). cs \<noteq> [] \<and> length cs \<le> u64_max" using ok by (fastforce simp: mk_core_def)
  ultimately have "try_fold add_extra (fm_entries (mk_history m)) 0 = Some (extra_configs (mk_history m))"
    using sum_checked[of "fm_entries (mk_history m)" 0, unfolded sum_entries] by simp
  moreover have "list_all (\<lambda>mm. mm \<notin> mk_registered_by m) (fm_keys (mk_page_next m))"
    "list_all (\<lambda>(_, configs). configs \<noteq> []) (fm_entries (mk_history m))"
    using ok by (auto simp: mk_core_def list_all_iff)
  ultimately show ?thesis using ok by (simp add: mk_assert_invariants_def mk_core_def)
qed

lemma mk_new_total [total_simps]:
  "mk_new ballot config kind = Some \<lparr>mk_ballot = ballot, mk_config = config, mk_kind = kind, mk_registered_by = {}, mk_page_next = fmempty,
       mk_history = fmempty, mk_effective = None, mk_watermark = ballot_zero, mk_disagreements = 0\<rparr>"
  "mk_new ballot config kind = Some m \<Longrightarrow> mk_ok m"
proof -
  let ?m = "\<lparr>mk_ballot = ballot, mk_config = config, mk_kind = kind, mk_registered_by = {}, mk_page_next = fmempty,
       mk_history = fmempty, mk_effective = None, mk_watermark = ballot_zero, mk_disagreements = 0\<rparr>"
  have ok: "mk_core ?m" by (simp add: mk_core_def extra_configs_def)
  show "mk_new ballot config kind = Some ?m" by (simp add: mk_new_def mk_assert_total[OF ok])
  then show "mk_ok m" if "mk_new ballot config kind = Some m" using that ok by (auto simp: mk_ok_def)
qed

subsection \<open>Folding a page\<close>

lemma raised_effective_fst:
  "map_option fst (raised_effective e b c) = max (map_option fst e) (Some b)"
  by (auto simp: raised_effective_def max_def not_less less_imp_le split: option.split)

lemma mk_raise_total [total_simps]:
  "mk_raise_effective m b c = Some (m\<lparr>mk_effective := raised_effective (mk_effective m) b c\<rparr>)"
  by (simp add: mk_raise_effective_def raise_effective_Some raised_effective_fst)

definition unioned :: "ballot \<times> registration \<Rightarrow> matchmaking \<Rightarrow> matchmaking" where
  "unioned x m = (let entry = entry_or_default (mk_history m) (fst x);
       m = (if kind_is_reconfiguration (rg_kind (snd x)) then m\<lparr>mk_effective := raised_effective (mk_effective m) (fst x) (rg_config (snd x))\<rparr> else m)
     in if rg_config (snd x) \<in> set entry then m
        else m\<lparr>mk_disagreements := (if entry \<noteq> [] then saturating_add64 (mk_disagreements m) 1 else mk_disagreements m),
               mk_history := fmupd (fst x) (entry @ [rg_config (snd x)]) (mk_history m)\<rparr>)"

lemma mk_union_total [total_simps]: "mk_union x m = Some (unioned x m)"
  by (cases x) (auto simp: mk_union_def unioned_def mk_raise_total Let_def)

lemma unioned_same [simp]:
  "mk_ballot (unioned x m) = mk_ballot m" "mk_config (unioned x m) = mk_config m" "mk_kind (unioned x m) = mk_kind m"
  "mk_registered_by (unioned x m) = mk_registered_by m" "mk_page_next (unioned x m) = mk_page_next m"
  "mk_watermark (unioned x m) = mk_watermark m"
  by (simp_all add: unioned_def Let_def)

text \<open>A record stands in the union: its configuration at its ballot, and below the effective configuration
  when it is a reconfiguration.\<close>

definition mk_holds :: "matchmaking \<Rightarrow> ballot \<times> registration \<Rightarrow> bool" where
  "mk_holds m = (\<lambda>(b, r). (\<exists>cs. fmlookup (mk_history m) b = Some cs \<and> rg_config r \<in> set cs) \<and>
     (kind_is_reconfiguration (rg_kind r) \<longrightarrow> Some b \<le> map_option fst (mk_effective m)))"

lemma unioned_effective: "map_option fst (mk_effective m) \<le> map_option fst (mk_effective (unioned x m))"
  by (simp add: unioned_def Let_def raised_effective_fst)

lemma unioned_history:
  "fmlookup (mk_history (unioned x m)) b = (if b = fst x \<and> rg_config (snd x) \<notin> set (entry_or_default (mk_history m) b)
     then Some (entry_or_default (mk_history m) b @ [rg_config (snd x)]) else fmlookup (mk_history m) b)"
  by (auto simp: unioned_def Let_def)

lemma unioned_holds: "mk_holds (unioned x m) x" "mk_holds m y \<Longrightarrow> mk_holds (unioned x m) y"
proof -
  obtain b r where x: "x = (b, r)" by fastforce
  have "kind_is_reconfiguration (rg_kind r) \<Longrightarrow> Some b \<le> map_option fst (mk_effective (unioned x m))"
    using x by (simp add: unioned_def Let_def raised_effective_fst)
  moreover have "\<exists>cs. fmlookup (mk_history (unioned x m)) b = Some cs \<and> rg_config r \<in> set cs"
    using x by (cases "fmlookup (mk_history m) b") (auto simp: unioned_history entry_or_default_def)
  ultimately show "mk_holds (unioned x m) x" using x by (simp add: mk_holds_def)
  show "mk_holds (unioned x m) y" if y: "mk_holds m y"
  proof -
    obtain b' r' where y': "y = (b', r')" by fastforce
    then obtain cs where cs: "fmlookup (mk_history m) b' = Some cs" "rg_config r' \<in> set cs" using y by (auto simp: mk_holds_def)
    then have "\<exists>cs. fmlookup (mk_history (unioned x m)) b' = Some cs \<and> rg_config r' \<in> set cs" by (auto simp: unioned_history entry_or_default_def)
    then show ?thesis using y y' order_trans[OF _ unioned_effective[of m x]] by (auto simp: mk_holds_def)
  qed
qed

lemma unioned_core:
  assumes "mk_core m" "mk_disagreements m + 1 < u64_max"
  shows "mk_core (unioned x m)" "mk_disagreements m \<le> mk_disagreements (unioned x m)" "mk_disagreements (unioned x m) \<le> mk_disagreements m + 1"
proof -
  let ?H = "mk_history m" and ?b = "fst x"
  let ?e = "entry_or_default ?H ?b"
  have ne: "fmlookup ?H b \<noteq> Some []" for b using assms(1) by (simp add: mk_core_def)
  have d: "mk_disagreements (unioned x m) = (if rg_config (snd x) \<notin> set ?e \<and> ?e \<noteq> [] then mk_disagreements m + 1 else mk_disagreements m)"
    using assms(2) by (auto simp: unioned_def Let_def saturating_add64_def)
  have "extra_configs (mk_history (unioned x m)) = mk_disagreements (unioned x m)"
  proof (cases "rg_config (snd x) \<in> set ?e")
    case True
    then have "mk_history (unioned x m) = ?H" by (simp add: unioned_def Let_def)
    then show ?thesis using True d assms(1) by (simp add: mk_core_def)
  next
    case False
    then have "mk_history (unioned x m) = fmupd ?b (?e @ [rg_config (snd x)]) ?H" by (simp add: unioned_def Let_def)
    moreover have "?e = [] \<longleftrightarrow> fmlookup ?H ?b = None" using ne[of ?b] by (auto simp: entry_or_default_def split: option.split)
    then have "extra_configs (fmupd ?b (?e @ [rg_config (snd x)]) ?H) = (if ?e = [] then extra_configs ?H else extra_configs ?H + 1)"
      using extra_configs_upd[of ?b "?e @ [rg_config (snd x)]" ?H]
      by (cases ?e) (auto simp: entry_or_default_def split: option.splits)
    ultimately show ?thesis using False d assms(1) by (auto simp: mk_core_def)
  qed
  moreover have "fmlookup (mk_history (unioned x m)) b \<noteq> Some []" for b
    using ne by (auto simp: unioned_history)
  ultimately show "mk_core (unioned x m)" using assms d by (auto simp: mk_core_def)
  show "mk_disagreements m \<le> mk_disagreements (unioned x m)" "mk_disagreements (unioned x m) \<le> mk_disagreements m + 1" using d by simp_all
qed

lemma fold_unioned_same [simp]:
  "mk_ballot (fold unioned xs m) = mk_ballot m" "mk_config (fold unioned xs m) = mk_config m" "mk_kind (fold unioned xs m) = mk_kind m"
  "mk_registered_by (fold unioned xs m) = mk_registered_by m" "mk_page_next (fold unioned xs m) = mk_page_next m"
  "mk_watermark (fold unioned xs m) = mk_watermark m"
  by (induction xs arbitrary: m) simp_all

lemma fold_unioned_holds:
  "mk_holds m y \<Longrightarrow> mk_holds (fold unioned xs m) y" "y \<in> set xs \<Longrightarrow> mk_holds (fold unioned xs m) y"
proof -
  show mono: "mk_holds m y \<Longrightarrow> mk_holds (fold unioned xs m) y" for m y
    by (induction xs arbitrary: m) (simp_all add: unioned_holds(2))
  show "y \<in> set xs \<Longrightarrow> mk_holds (fold unioned xs m) y"
  proof (induction xs arbitrary: m)
    case (Cons x xs)
    have "mk_holds (fold unioned xs (unioned x m)) x" for xs m
      by (induction xs arbitrary: m rule: rev_induct) (simp_all add: unioned_holds)
    then show ?case using Cons by auto
  qed simp
qed

lemma fold_unioned_core:
  assumes "mk_core m" "mk_disagreements m + length xs < u64_max"
  shows "mk_core (fold unioned xs m) \<and> mk_disagreements m \<le> mk_disagreements (fold unioned xs m)"
  using assms
proof (induction xs arbitrary: m)
  case (Cons x xs)
  note u = unioned_core[OF Cons.prems(1), of x]
  show ?case using Cons.IH[OF u(1)] u(2,3) Cons.prems(2) by simp
qed simp

definition page_fits :: "matchmaking \<Rightarrow> matchmaker_id \<Rightarrow> registered_page \<Rightarrow> bool" where
  "page_fits m mm page \<longleftrightarrow> mm \<notin> mk_registered_by m \<and>
     (\<forall>n. fmlookup (mk_page_next m) mm = Some n \<longrightarrow>
        pg_from_ballot page = n \<or> n < pg_from_ballot page \<and> pg_from_ballot page = pg_gc_watermark page) \<and>
     fm_len (pg_history page) \<le> REGISTRY_PAGE \<and> (\<forall>b \<in> fmdom' (pg_history page). pg_from_ballot page \<le> b) \<and>
     (\<forall>n. pg_next_from_ballot page = Some n \<longrightarrow>
        pg_history page \<noteq> fmempty \<and> pg_from_ballot page < n \<and> (\<forall>b \<in> fmdom' (pg_history page). b < n))"

lemma mk_accepts_total [total_simps]: "mk_accepts m mm page = Some (page_fits m mm page)"
proof -
  have last: "(case fm_last (pg_history page) of None \<Rightarrow> True | Some g \<Rightarrow> g < n) \<longleftrightarrow> (\<forall>b \<in> fmdom' (pg_history page). b < n)" for n
    by (rule fm_last_is_none_or)
  show ?thesis
    by (cases "fmlookup (mk_page_next m) mm"; cases "pg_next_from_ballot page")
      (auto simp: mk_accepts_def page_fits_def last list_all_iff Let_def)
qed

definition page_folded :: "matchmaker_id \<Rightarrow> registered_page \<Rightarrow> matchmaking \<Rightarrow> matchmaking" where
  "page_folded mm page m = (let u = fold unioned (fm_entries (pg_history page)) m
     in u\<lparr>mk_effective := (case pg_effective page of None \<Rightarrow> mk_effective u | Some (b, c) \<Rightarrow> raised_effective (mk_effective u) b c),
          mk_watermark := max (mk_watermark m) (pg_gc_watermark page),
          mk_page_next := (case pg_next_from_ballot page of None \<Rightarrow> fmdrop mm (mk_page_next m) | Some n \<Rightarrow> fmupd mm n (mk_page_next m)),
          mk_registered_by := (case pg_next_from_ballot page of None \<Rightarrow> insert mm (mk_registered_by m) | Some _ \<Rightarrow> mk_registered_by m)\<rparr>)"

lemma page_folded_simps [simp]:
  "mk_ballot (page_folded mm page m) = mk_ballot m" "mk_config (page_folded mm page m) = mk_config m" "mk_kind (page_folded mm page m) = mk_kind m"
  "mk_watermark (page_folded mm page m) = max (mk_watermark m) (pg_gc_watermark page)"
  "mk_history (page_folded mm page m) = mk_history (fold unioned (fm_entries (pg_history page)) m)"
  "mk_page_next (page_folded mm page m) = (case pg_next_from_ballot page of None \<Rightarrow> fmdrop mm (mk_page_next m) | Some n \<Rightarrow> fmupd mm n (mk_page_next m))"
  "mk_registered_by (page_folded mm page m) = (case pg_next_from_ballot page of None \<Rightarrow> insert mm (mk_registered_by m) | Some _ \<Rightarrow> mk_registered_by m)"
  "mk_disagreements (page_folded mm page m) = mk_disagreements (fold unioned (fm_entries (pg_history page)) m)"
  by (simp_all add: page_folded_def Let_def)

lemma page_folded_holds:
  "mk_holds m y \<Longrightarrow> mk_holds (page_folded mm page m) y" "fmlookup (pg_history page) b = Some r \<Longrightarrow> mk_holds (page_folded mm page m) (b, r)"
proof -
  let ?u = "fold unioned (fm_entries (pg_history page)) m"
  have eff: "map_option fst (mk_effective ?u) \<le> map_option fst (mk_effective (page_folded mm page m))"
    by (simp add: page_folded_def Let_def raised_effective_fst split: option.split)
  have "mk_holds (page_folded mm page m) y" if "mk_holds ?u y" for y
    using that order_trans[OF _ eff] by (cases y) (auto simp: mk_holds_def)
  then show "mk_holds m y \<Longrightarrow> mk_holds (page_folded mm page m) y" "fmlookup (pg_history page) b = Some r \<Longrightarrow> mk_holds (page_folded mm page m) (b, r)"
    using fold_unioned_holds by simp_all
qed

lemma page_folded_core:
  assumes "mk_core m" "mk_disagreements m + fm_len (pg_history page) < u64_max" "mm \<notin> mk_registered_by m"
  shows "mk_core (page_folded mm page m)" "mk_ok (page_folded mm page m)" "mk_disagreements m \<le> mk_disagreements (page_folded mm page m)"
proof -
  let ?u = "fold unioned (fm_entries (pg_history page)) m"
  have "length (fm_entries (pg_history page)) = fm_len (pg_history page)" by (simp add: fm_entries_def fm_len_keys)
  then have u: "mk_core ?u" "mk_disagreements m \<le> mk_disagreements ?u" using fold_unioned_core[OF assms(1), of "fm_entries (pg_history page)"] assms(2) by simp_all
  then show "mk_core (page_folded mm page m)" using assms(1,3) by (auto simp: mk_core_def split: option.split)
  moreover have "mk_heard_anyone (page_folded mm page m)" by (auto simp: mk_heard_anyone_def split: option.split)
  ultimately show "mk_ok (page_folded mm page m)" by (simp add: mk_ok_def)
  show "mk_disagreements m \<le> mk_disagreements (page_folded mm page m)" using u(2) by simp
qed

lemma mk_fold_total [total_simps]:
  assumes "mk_core m" "mk_disagreements m + fm_len (pg_history page) < u64_max"
  shows "mk_fold m mm page = Some (if page_fits m mm page
    then (case pg_next_from_ballot page of None \<Rightarrow> Fold_Registered | Some n \<Rightarrow> Fold_Paged n, page_folded mm page m) else (Fold_Ignored, m))"
proof (cases "page_fits m mm page")
  case True
  then have out: "mm \<notin> mk_registered_by m" by (simp add: page_fits_def)
  note core = page_folded_core[OF assms out]
  have u: "try_fold mk_union (fm_entries (pg_history page)) m = Some (fold unioned (fm_entries (pg_history page)) m)"
    by (rule try_fold_total) (simp add: mk_union_total)
  define w where "w = fold unioned (fm_entries (pg_history page)) m"
  have w: "mk_watermark w = mk_watermark m" "mk_page_next w = mk_page_next m" "mk_registered_by w = mk_registered_by m"
    by (simp_all add: w_def)
  define v where "v = w\<lparr>mk_effective := (case pg_effective page of None \<Rightarrow> mk_effective w | Some (b, c) \<Rightarrow> raised_effective (mk_effective w) b c)\<rparr>"
  have v: "(case pg_effective page of None \<Rightarrow> Some w | Some (b, c) \<Rightarrow> mk_raise_effective w b c) = Some v"
    by (auto simp: v_def mk_raise_total split: option.split)
  have pf: "page_folded mm page m = (case pg_next_from_ballot page of
      Some n \<Rightarrow> v\<lparr>mk_watermark := max (mk_watermark v) (pg_gc_watermark page), mk_page_next := fmupd mm n (mk_page_next v)\<rparr>
    | None \<Rightarrow> v\<lparr>mk_watermark := max (mk_watermark v) (pg_gc_watermark page), mk_page_next := fmdrop mm (mk_page_next v),
        mk_registered_by := insert mm (mk_registered_by v)\<rparr>)"
    using w by (simp add: page_folded_def Let_def v_def w_def[symmetric] split: option.split)
  show ?thesis
    using True core(3) mk_assert_total[OF core(1)] w
    by (cases "pg_next_from_ballot page")
      (simp_all add: mk_fold_def mk_accepts_total u w_def[symmetric] v pf v_def Let_def)
qed (simp add: mk_fold_def mk_accepts_total)

subsection \<open>Readings\<close>

lemma mk_quorum_held_total [total_simps]:
  assumes "mk_core m" "ms_ok s"
  shows "mk_quorum_held m s = Some (ms_quorum s (mk_registered_by m))"
  using assms by (auto simp: mk_quorum_held_def mk_core_def ms_has_quorum_total ms_quorum_def)

lemma mk_remaining_total [total_simps]:
  assumes "mk_core m" "ms_ok s" "mk_registered_by m \<subseteq> set (ms_members s)"
  shows "\<exists>n. mk_remaining m s = Some n \<and> (n = 0 \<longleftrightarrow> ms_quorum s (mk_registered_by m))"
proof -
  have fin: "finite (mk_registered_by m)" using assms(1) by (simp add: mk_core_def)
  have "try_all (ms_contains s) (sorted_list_of_set (mk_registered_by m)) = Some True"
    using assms(2,3) fin by (subst try_all_total[where b = "\<lambda>mm. mm \<in> set (ms_members s)"]) (auto simp: ms_contains_total)
  moreover obtain n where "ms_remaining s (mk_registered_by m) = Some n" using ms_remaining_total[OF assms(2) fin] by simp
  ultimately show ?thesis
    using ms_remaining_zero_iff[OF assms(2,3)] mk_quorum_held_total[OF assms(1,2)] by (simp add: mk_remaining_def)
qed

lemma push_new_fold:
  "distinct acc \<Longrightarrow> distinct (fold push_new xs acc) \<and> set (fold push_new xs acc) = set acc \<union> set xs \<and>
    length (fold push_new xs acc) \<le> length acc + length xs"
proof (induction xs arbitrary: acc)
  case (Cons x xs)
  have "distinct (push_new x acc)" "set (push_new x acc) = insert x (set acc)" "length (push_new x acc) \<le> Suc (length acc)"
    using Cons.prems by (auto simp: push_new_def)
  then show ?case using Cons.IH[of "push_new x acc"] by auto
qed simp

lemma prior_prefixes: "distinct xs \<Longrightarrow> list_all (\<lambda>i. xs ! i \<notin> set (take i xs)) [0..<length xs]"
  by (auto simp: list_all_iff in_set_conv_nth nth_eq_iff_index_eq)

lemma entries_from_len:
  "sum_list (map (length \<circ> snd) (fm_entries (fm_from w (H :: ('k::linorder, 'v list) fmap)))) \<le> sum_list (map (length \<circ> snd) (fm_entries H))"
proof -
  have e: "sum_list (map (length \<circ> snd) (fm_entries K)) = (\<Sum>b \<in> fmdom' K. length (the (fmlookup K b)))" for K :: "('k, 'v list) fmap"
    by (simp add: fm_entries_def comp_def fm_keys_def sum_list_distinct_conv_sum_set)
  show ?thesis unfolding e by (subst sum.cong[OF refl, of _ _ "\<lambda>b. length (the (fmlookup H b))"]) (auto intro!: sum_mono2)
qed

lemma mk_prior_total:
  "\<exists>P. mk_prior m = Some P \<and> distinct P \<and>
     (\<forall>c. c \<in> set P \<longleftrightarrow> (\<exists>b cs. mk_watermark m \<le> b \<and> fmlookup (mk_history m) b = Some cs \<and> c \<in> set cs))"
proof -
  let ?xs = "concat (map snd (fm_entries (fm_from (mk_watermark m) (mk_history m))))"
  let ?P = "fold push_new ?xs []"
  have P: "distinct ?P" "set ?P = set ?xs" "length ?P \<le> length ?xs" using push_new_fold[of "[]" ?xs] by simp_all
  have "length ?xs = sum_list (map (length \<circ> snd) (fm_entries (fm_from (mk_watermark m) (mk_history m))))" by (simp add: length_concat comp_def)
  then have "mk_prior m = Some ?P" using P prior_prefixes[OF P(1)] entries_from_len[of "mk_watermark m" "mk_history m"] by (simp add: mk_prior_def)
  moreover have "c \<in> set ?P \<longleftrightarrow> (\<exists>b cs. mk_watermark m \<le> b \<and> fmlookup (mk_history m) b = Some cs \<and> c \<in> set cs)" for c
  proof -
    have "c \<in> set (concat (map snd es)) \<longleftrightarrow> (\<exists>b cs. (b, cs) \<in> set es \<and> c \<in> set cs)" for es :: "(ballot \<times> node_config list) list" by force
    then show ?thesis unfolding P(2) by (auto split: if_splits)
  qed
  ultimately show ?thesis using P(1) by blast
qed

lemma mk_readings_total [total_simps]:
  assumes "mk_ok m"
  shows "mk_watermark' m = Some (mk_watermark m)" "mk_effective' m = Some (mk_effective m)" "mk_disagreements' m = Some (mk_disagreements m)"
proof -
  have "mk_disagreements m = extra_configs (mk_history m)" using assms by (simp add: mk_ok_def mk_core_def)
  then have "0 < mk_disagreements m \<Longrightarrow> mk_history m \<noteq> fmempty" by (auto simp: extra_configs_def)
  then show "mk_watermark' m = Some (mk_watermark m)" "mk_effective' m = Some (mk_effective m)" "mk_disagreements' m = Some (mk_disagreements m)"
    using assms by (auto simp: mk_watermark'_def mk_effective'_def mk_disagreements'_def mk_ok_def)
qed

lemma mk_unanswered_total [total_simps]:
  "mk_unanswered m s = Some (map (\<lambda>mm. (mm, fmlookup (mk_page_next m) mm)) (ms_unanswered s (mk_registered_by m)))"
  by (auto simp: mk_unanswered_def ms_unanswered_def list_all_iff)

subsection \<open>The probe\<close>

text \<open>The configuration a probe reports is the newest one it was answered.\<close>

definition probe_ok :: "(matchmaker_id \<Rightarrow> effective_config) \<Rightarrow> membership_probe \<Rightarrow> bool" where
  "probe_ok answer p \<longleftrightarrow> finite (mb_answered p) \<and>
     (\<forall>mm \<in> mb_answered p. map_option fst (answer mm) \<le> map_option fst (mb_effective p)) \<and>
     (mb_effective p \<noteq> None \<longrightarrow> (\<exists>mm \<in> mb_answered p. mb_effective p = answer mm))"

lemma mb_fold_total [total_simps]:
  assumes "probe_ok answer p"
  shows "\<exists>p'. mb_fold p mm (answer mm) = Some (mm \<notin> mb_answered p, p') \<and> mb_answered p' = insert mm (mb_answered p) \<and> probe_ok answer p'"
proof (cases "mm \<in> mb_answered p")
  case True
  then show ?thesis using assms by (simp add: mb_fold_def insert_absorb)
next
  case False
  define e where "e = (case answer mm of None \<Rightarrow> mb_effective p | Some (b, c) \<Rightarrow> raised_effective (mb_effective p) b c)"
  have max: "map_option fst e = max (map_option fst (mb_effective p)) (map_option fst (answer mm))"
    by (auto simp: e_def raised_effective_fst split: option.split)
  have "e = mb_effective p \<or> e = answer mm"
    by (auto simp: e_def raised_effective_def split: option.split)
  then have "probe_ok answer (p\<lparr>mb_answered := insert mm (mb_answered p), mb_effective := e\<rparr>)"
    using assms max by (auto simp: probe_ok_def le_max_iff_disj)
  moreover have "mb_fold p mm (answer mm) = Some (True, p\<lparr>mb_answered := insert mm (mb_answered p), mb_effective := e\<rparr>)"
    using False max by (cases "answer mm") (auto simp: mb_fold_def e_def raise_effective_Some raised_effective_fst Let_def)
  ultimately show ?thesis using False by simp
qed

end
