(* ===== verification/Prior_History.thy ===== *)
theory Prior_History
  imports Matchmaking Matchmaker_Runs
begin

section \<open>The prior configurations of a campaign\<close>

text \<open>
  The two sides of matchmaking put together: the matchmakers of a generation run as in the theory
  \<open>Matchmaker_Runs\<close>, a candidate reads their answers in any order, page by page and with any repetition,
  and the prior configurations it ends with leave out no round a quorum of the generation has registered
  before it, unless a watermark has collected the round.
\<close>

subsection \<open>What an answer says of the registry\<close>

text \<open>A record that a candidate may read in place of another: the same configuration at or above its
  ballot, and the record itself when it is a reconfiguration.\<close>

definition stands_for :: "ballot \<times> registration \<Rightarrow> ballot \<times> registration \<Rightarrow> bool" where
  "stands_for x y \<longleftrightarrow> fst x \<le> fst y \<and> rg_config (snd y) = rg_config (snd x) \<and> (kind_is_reconfiguration (rg_kind (snd x)) \<longrightarrow> y = x)"

lemma stands_for_refl [simp]: "stands_for x x"
  by (simp add: stands_for_def)

lemma stands_for_trans: "stands_for x y \<Longrightarrow> stands_for y z \<Longrightarrow> stands_for x z"
  by (auto simp: stands_for_def)

lemma kept_stands:
  assumes "sorted_wrt (<) (map fst window)" "x \<in> set window"
  obtains y where "y \<in> set (kept_records window)" "stands_for x y"
proof -
  obtain b r where x: "x = (b, r)" by fastforce
  show thesis
  proof (cases "kind_is_reconfiguration (rg_kind r)")
    case True
    then show thesis using kept_reconfigurations[of b r window] assms(2) x that stands_for_refl by blast
  next
    case False
    obtain b' r' where "(b', r') \<in> set (kept_records window)" "b \<le> b'" "rg_config r' = rg_config r"
      using kept_configs[OF assms(1), of b r] assms(2) x by blast
    then show thesis using that[of "(b', r')"] False x by (simp add: stands_for_def)
  qed
qed

text \<open>A page of a ledger, for a request with a cursor: it holds records of the ledger from the cursor or the
  watermark on, and whatever the ledger holds there stands in the page or at or above its cursor.\<close>

definition page_reads :: "ledger \<Rightarrow> ballot option \<Rightarrow> registered_page \<Rightarrow> bool" where
  "page_reads L cursor page \<longleftrightarrow>
     pg_from_ballot page = max (case cursor of None \<Rightarrow> pg_gc_watermark page | Some c \<Rightarrow> c) (pg_gc_watermark page) \<and>
     fm_len (pg_history page) \<le> REGISTRY_PAGE \<and>
     (\<forall>k r. fmlookup (pg_history page) k = Some r \<longrightarrow> pg_from_ballot page \<le> k \<and> fmlookup L k = Some r) \<and>
     (\<forall>n. pg_next_from_ballot page = Some n \<longrightarrow> pg_history page \<noteq> fmempty \<and> pg_from_ballot page < n \<and>
        n \<in> fmdom' L \<and> (\<forall>k \<in> fmdom' (pg_history page). k < n)) \<and>
     (\<forall>x. fmlookup L (fst x) = Some (snd x) \<and> pg_from_ballot page \<le> fst x \<longrightarrow>
        (\<exists>y. stands_for x y \<and> (fmlookup (pg_history page) (fst y) = Some (snd y) \<or>
           (\<exists>n. pg_next_from_ballot page = Some n \<and> n \<le> fst y \<and> fmlookup L (fst y) = Some (snd y)))))"

lemma page_readsD:
  assumes "page_reads L cursor page"
  shows "pg_from_ballot page = max (case cursor of None \<Rightarrow> pg_gc_watermark page | Some c \<Rightarrow> c) (pg_gc_watermark page)"
    "fm_len (pg_history page) \<le> REGISTRY_PAGE" "fmlookup (pg_history page) k = Some r \<Longrightarrow> pg_from_ballot page \<le> k"
    "fmlookup (pg_history page) k = Some r \<Longrightarrow> fmlookup L k = Some r"
    "pg_next_from_ballot page = Some n \<Longrightarrow> pg_history page \<noteq> fmempty" "pg_next_from_ballot page = Some n \<Longrightarrow> pg_from_ballot page < n"
    "pg_next_from_ballot page = Some n \<Longrightarrow> n \<in> fmdom' L" "pg_next_from_ballot page = Some n \<Longrightarrow> k \<in> fmdom' (pg_history page) \<Longrightarrow> k < n"
  using assms unfolding page_reads_def by blast+

lemma answer_reads:
  assumes ok: "mm_ok T D m" and L: "\<And>k. k < b \<Longrightarrow> mm_gc m j \<le> k \<Longrightarrow> fmlookup (mm_ledger m j) k = fmlookup L k"
    "\<And>k. k \<in> fmdom' L \<Longrightarrow> k < b" and page: "page_decode (mm_answer m j cursor b) = Some (Inr page)"
  shows "page_reads L cursor page" "pg_gc_watermark page = mm_gc m j"
proof -
  let ?lo = "page_from m j cursor" and ?limit = "lm_registry_page (mm_limits m)"
  let ?w = "window_of m j ?lo b"
  let ?rs = "kept_records ?w"
  have pg: "pg_from_ballot page = ?lo" "pg_history page = fmap_of_list (take ?limit ?rs)" "pg_next_from_ballot page = page_next ?limit ?rs"
    "pg_gc_watermark page = mm_gc m j"
    using page by (auto simp: page_decode_def mm_answer_def Let_def)
  show "pg_gc_watermark page = mm_gc m j" by (rule pg(4))
  have limit: "0 < ?limit" "?limit \<le> REGISTRY_PAGE" using mm_okD(1)[OF ok] by (simp_all add: limits_ok_def)
  have srt: "sorted_wrt (<) (map fst ?rs)" by (simp add: kept_records_sorted)
  then have tsrt: "sorted_wrt (<) (map fst (take ?limit ?rs))" unfolding take_map[symmetric] by (rule sorted_wrt_take)
  have look: "fmlookup (pg_history page) k = Some r \<longleftrightarrow> (k, r) \<in> set (take ?limit ?rs)" for k r
    using strict_sorted_distinct[OF tsrt] by (simp add: pg(2) fmlookup_of_list map_of_eq_Some_iff)
  have inL: "(k, r) \<in> set ?w \<longleftrightarrow> ?lo \<le> k \<and> fmlookup L k = Some r" for k r
    using L(1)[of k] L(2)[of k] order_trans[OF page_from_ge[of m j cursor], of k] by (auto simp: set_window_of fmdom'I)
  have sub: "x \<in> set ?rs \<Longrightarrow> x \<in> set ?w" for x using kept_records_sub by blast
  show "page_reads L cursor page"
    unfolding page_reads_def
  proof (intro conjI allI impI ballI)
    show "pg_from_ballot page = max (case cursor of None \<Rightarrow> pg_gc_watermark page | Some c \<Rightarrow> c) (pg_gc_watermark page)"
      by (cases cursor) (simp_all add: pg page_from_def)
    show "fm_len (pg_history page) \<le> REGISTRY_PAGE" using map_of_list_len[OF tsrt] limit(2) by (simp add: pg(2))
  next
    fix k r assume "fmlookup (pg_history page) k = Some r"
    then have "(k, r) \<in> set ?w" using look sub in_set_takeD by fast
    then show "pg_from_ballot page \<le> k" "fmlookup L k = Some r" by (simp_all add: pg inL)
  next
    fix n assume n: "pg_next_from_ballot page = Some n"
    then have pn: "page_next ?limit ?rs = Some n" by (simp add: pg)
    then obtain r rest where d: "drop ?limit ?rs = (n, r) # rest" by (auto simp: page_next_def split: list.splits)
    have len: "length (take ?limit ?rs) = ?limit" by (rule page_next_full[OF pn])
    then obtain x where x: "x \<in> set (take ?limit ?rs)" using limit(1) by (cases "take ?limit ?rs") auto
    have "fmlookup (pg_history page) (fst x) = Some (snd x)" using x look[of "fst x" "snd x"] by simp
    then show "pg_history page \<noteq> fmempty" by auto
    have "(n, r) \<in> set ?w" using d sub in_set_dropD[of "(n, r)" ?limit ?rs] by simp
    then show "n \<in> fmdom' L" by (auto simp: inL fmdom'I)
    have "x \<in> set ?w" using x sub in_set_takeD by fast
    then have "?lo \<le> fst x" using inL[of "fst x" "snd x"] by simp
    also have "fst x < n" by (rule take_below_next[OF srt pn x])
    finally show "pg_from_ballot page < n" by (simp add: pg)
    show "k < n" if k: "k \<in> fmdom' (pg_history page)" for k
    proof -
      obtain r where "fmlookup (pg_history page) k = Some r" using k by (auto simp: fmlookup_dom'_iff)
      then show ?thesis using take_below_next[OF srt pn, of "(k, r)"] look by simp
    qed
  next
    fix x assume x: "fmlookup L (fst x) = Some (snd x) \<and> pg_from_ballot page \<le> fst x"
    then have "x \<in> set ?w" using inL[of "fst x" "snd x"] by (simp add: pg)
    then obtain y where y: "y \<in> set ?rs" "stands_for x y" using kept_stands window_of_sorted by blast
    have yL: "fmlookup L (fst y) = Some (snd y)" using sub[OF y(1)] inL[of "fst y" "snd y"] by simp
    have "y \<in> set (take ?limit ?rs) \<or> y \<in> set (drop ?limit ?rs)" using y(1) by (metis Un_iff append_take_drop_id set_append)
    then have "fmlookup (pg_history page) (fst y) = Some (snd y) \<or>
        (\<exists>n. pg_next_from_ballot page = Some n \<and> n \<le> fst y \<and> fmlookup L (fst y) = Some (snd y))"
    proof
      assume "y \<in> set (take ?limit ?rs)"
      then show ?thesis using look[of "fst y" "snd y"] by simp
    next
      assume dy: "y \<in> set (drop ?limit ?rs)"
      then obtain n where pn: "page_next ?limit ?rs = Some n" by (cases "drop ?limit ?rs") (auto simp: page_next_def)
      then have "n \<le> fst y" using dy drop_from_next[OF srt pn] by (metis (mono_tags, lifting) case_prod_unfold mem_Collect_eq set_filter)
      then show ?thesis using pn yL by (simp add: pg)
    qed
    then show "\<exists>y. stands_for x y \<and> (fmlookup (pg_history page) (fst y) = Some (snd y) \<or>
        (\<exists>n. pg_next_from_ballot page = Some n \<and> n \<le> fst y \<and> fmlookup L (fst y) = Some (snd y)))" using y(2) by blast
  qed
qed

subsection \<open>The answers of a run\<close>

definition answer_of :: "mm_input \<Rightarrow> matchmaker \<Rightarrow> (match_request \<times> match_outcome) list" where
  "answer_of i m = (case i of In_Match q \<Rightarrow> [(q, mp_outcome (last (mm_replies m)))] | _ \<Rightarrow> [])"

fun mm_answers :: "mm_input list \<Rightarrow> matchmaker \<times> mem_registry \<Rightarrow> (match_request \<times> match_outcome) list" where
  "mm_answers [] x = []"
| "mm_answers (i # inputs) x = (case mm_feed i x of
     None \<Rightarrow> []
   | Some y \<Rightarrow> answer_of i (fst y) @ mm_answers inputs y)"

text \<open>The requests of a journal, a ballot and a generation that were answered with a page.\<close>

definition answered :: "(match_request \<times> match_outcome) set \<Rightarrow> journal_id \<Rightarrow> matchmaker_generation \<Rightarrow> ballot \<Rightarrow> ballot option \<Rightarrow> registered_page \<Rightarrow> bool" where
  "answered A j g b cursor page \<longleftrightarrow> (\<exists>q answer. (q, answer) \<in> A \<and> page_decode answer = Some (Inr page) \<and>
     mq_journal q = j \<and> mq_generation q = g \<and> mq_ballot q = b \<and> mq_from_ballot q = cursor)"

text \<open>One ledger explains every answer of a matchmaker at a ballot, for as long as the matchmaker stays in
  the generation: it is what the matchmaker held below the ballot when it first answered.\<close>

definition sealed_by :: "proposals \<Rightarrow> journal_id \<Rightarrow> matchmaker_generation \<Rightarrow> ballot \<Rightarrow> matchmaker \<Rightarrow> (match_request \<times> match_outcome) set \<Rightarrow> ledger \<Rightarrow> bool" where
  "sealed_by T j g b m A L \<longleftrightarrow> ledger_agrees (T j) L \<and> (\<forall>k \<in> fmdom' L. k < b) \<and>
     (\<forall>b' cursor page. answered A j g b' cursor page \<longrightarrow> g \<le> hs_generation (mm_hard m)) \<and>
     (\<forall>cursor page. answered A j g b cursor page \<longrightarrow> page_reads L cursor page) \<and>
     (\<forall>b' cursor' page'. b' < b \<and> answered A j g b' cursor' page' \<longrightarrow> fmlookup L b' = Some (T j b') \<or>
        (\<forall>cursor page. answered A j g b cursor page \<longrightarrow> b' < pg_gc_watermark page) \<and>
        (hs_generation (mm_hard m) = g \<longrightarrow> b' < mm_gc m j)) \<and>
     (hs_generation (mm_hard m) = g \<longrightarrow>
        (\<forall>k. k < b \<and> mm_gc m j \<le> k \<longrightarrow> fmlookup (mm_ledger m j) k = fmlookup L k) \<and>
        ((\<exists>cursor page. answered A j g b cursor page) \<longrightarrow> b \<in> fmdom' (mm_ledger m j) \<or> b < mm_gc m j))"

definition below :: "ballot \<Rightarrow> ledger \<Rightarrow> ledger" where
  "below b L = fmfilter (\<lambda>k. k < b) L"

lemma below_lookup [simp]: "fmlookup (below b L) k = (if k < b then fmlookup L k else None)"
  by (simp add: below_def)

lemma below_dom: "k \<in> fmdom' (below b L) \<Longrightarrow> k < b"
  by (auto simp: below_def fmlookup_dom'_iff split: if_splits)

lemma sealed_byD:
  assumes "sealed_by T j g b m A L"
  shows "ledger_agrees (T j) L" "k \<in> fmdom' L \<Longrightarrow> k < b"
    "answered A j g b' cursor page \<Longrightarrow> g \<le> hs_generation (mm_hard m)"
    "answered A j g b cursor page \<Longrightarrow> page_reads L cursor page"
    "b' < b \<Longrightarrow> answered A j g b' cursor' page' \<Longrightarrow> fmlookup L b' = Some (T j b') \<or>
       (\<forall>cursor page. answered A j g b cursor page \<longrightarrow> b' < pg_gc_watermark page) \<and> (hs_generation (mm_hard m) = g \<longrightarrow> b' < mm_gc m j)"
    "hs_generation (mm_hard m) = g \<Longrightarrow> k < b \<Longrightarrow> mm_gc m j \<le> k \<Longrightarrow> fmlookup (mm_ledger m j) k = fmlookup L k"
    "hs_generation (mm_hard m) = g \<Longrightarrow> answered A j g b cursor page \<Longrightarrow> b \<in> fmdom' (mm_ledger m j) \<or> b < mm_gc m j"
  using assms unfolding sealed_by_def by blast+

lemma sealed_byI:
  assumes "ledger_agrees (T j) L" "\<And>k. k \<in> fmdom' L \<Longrightarrow> k < b"
    "\<And>b' cursor page. answered A j g b' cursor page \<Longrightarrow> g \<le> hs_generation (mm_hard m)"
    "\<And>cursor page. answered A j g b cursor page \<Longrightarrow> page_reads L cursor page"
    "\<And>b' cursor' page'. b' < b \<Longrightarrow> answered A j g b' cursor' page' \<Longrightarrow> fmlookup L b' = Some (T j b') \<or>
       (\<forall>cursor page. answered A j g b cursor page \<longrightarrow> b' < pg_gc_watermark page) \<and> (hs_generation (mm_hard m) = g \<longrightarrow> b' < mm_gc m j)"
    "\<And>k. hs_generation (mm_hard m) = g \<Longrightarrow> k < b \<Longrightarrow> mm_gc m j \<le> k \<Longrightarrow> fmlookup (mm_ledger m j) k = fmlookup L k"
    "\<And>cursor page. hs_generation (mm_hard m) = g \<Longrightarrow> answered A j g b cursor page \<Longrightarrow> b \<in> fmdom' (mm_ledger m j) \<or> b < mm_gc m j"
  shows "sealed_by T j g b m A L"
  unfolding sealed_by_def
proof (intro conjI)
  show "\<forall>b' cursor' page'. b' < b \<and> answered A j g b' cursor' page' \<longrightarrow> fmlookup L b' = Some (T j b') \<or>
        (\<forall>cursor page. answered A j g b cursor page \<longrightarrow> b' < pg_gc_watermark page) \<and>
        (hs_generation (mm_hard m) = g \<longrightarrow> b' < mm_gc m j)" using assms(5) by blast
qed (use assms(1-4,6,7) in blast)+

lemma sealed_later:
  assumes sealed: "sealed_by T j g b m A L" and ok: "mm_ok T D m" "mm_ok T D m'" and after: "registry_after m m'"
  shows "\<exists>L'. sealed_by T j g b m' A L'"
proof -
  have gc: "mm_gc m j \<le> mm_gc m' j" and gen: "hs_generation (mm_hard m) \<le> hs_generation (mm_hard m')"
    using after by (simp_all add: registry_after_def)
  have agrees: "ledger_agrees (T j) (below b (mm_ledger m' j))"
    using mm_ledger_agrees[OF ok(2), of j] by (auto simp: ledger_agrees_def)
  note s = sealed_byD[OF sealed]
  consider (moved) "hs_generation (mm_hard m') \<noteq> g" | (came) "hs_generation (mm_hard m') = g" "hs_generation (mm_hard m) < g"
    | (stayed) "hs_generation (mm_hard m') = g" "hs_generation (mm_hard m) = g" using gen by fastforce
  then show ?thesis
  proof cases
    case moved
    have "g \<le> hs_generation (mm_hard m')" if "answered A j g b' cursor page" for b' cursor page
      using s(3)[OF that] gen by simp
    then have "sealed_by T j g b m' A L" using moved s(1,2,4,5) by (intro sealed_byI) blast+
    then show ?thesis ..
  next
    case came
    then have "\<not> answered A j g b' cursor page" for b' cursor page using s(3)[of b' cursor page] by auto
    then have "sealed_by T j g b m' A (below b (mm_ledger m' j))" using agrees below_dom by (intro sealed_byI) auto
    then show ?thesis ..
  next
    case stayed
    have keep: "fmlookup (mm_ledger m j) k = Some r \<Longrightarrow> fmlookup (mm_ledger m' j) k = Some r \<or> k < mm_gc m' j"
      and new: "k \<in> fmdom' (mm_ledger m' j) - fmdom' (mm_ledger m j) \<Longrightarrow> k0 \<in> fmdom' (mm_ledger m j) \<Longrightarrow> k0 < k" for k r k0
      using after stayed by (simp_all add: registry_after_def registry_extends_def)
    have held: "fmlookup (mm_ledger m j) k = fmlookup L k" if "k < b" "mm_gc m j \<le> k" for k using s(6)[OF stayed(2) that] .
    show ?thesis
    proof (cases "\<exists>cursor page. answered A j g b cursor page")
      case True
      then have at: "b \<in> fmdom' (mm_ledger m j) \<or> b < mm_gc m j" using s(7)[OF stayed(2)] by blast
      have held': "fmlookup (mm_ledger m' j) k = fmlookup L k" if k: "k < b" "mm_gc m' j \<le> k" for k
      proof -
        have mk: "mm_gc m j \<le> k" using gc k(2) by (rule order_trans)
        show ?thesis
        proof (cases "fmlookup (mm_ledger m j) k")
          case (Some r)
          have "fmlookup (mm_ledger m' j) k = Some r" using keep[OF Some] leD[OF k(2)] by blast
          then show ?thesis using Some held[OF k(1) mk] by simp
        next
          case None
          have "k \<notin> fmdom' (mm_ledger m' j)"
          proof
            assume "k \<in> fmdom' (mm_ledger m' j)"
            moreover have "k \<notin> fmdom' (mm_ledger m j)" using None by (simp add: fmdom'_iff)
            ultimately have "b \<in> fmdom' (mm_ledger m j) \<Longrightarrow> b < k" using new[of k b] by blast
            then have "b < k" using at less_le_trans[OF _ mk, of b] by blast
            then show False using k(1) by simp
          qed
          then show ?thesis using None held[OF k(1) mk] by (simp add: fmdom'_iff)
        qed
      qed
      have at': "b \<in> fmdom' (mm_ledger m' j) \<or> b < mm_gc m' j"
        using at
      proof
        assume "b \<in> fmdom' (mm_ledger m j)"
        then obtain r where "fmlookup (mm_ledger m j) b = Some r" by (auto simp: fmlookup_dom'_iff)
        from keep[OF this] show ?thesis by (elim disjE) (simp_all add: fmdom'I)
      next
        assume "b < mm_gc m j"
        then show ?thesis using less_le_trans[OF _ gc] by blast
      qed
      have low: "fmlookup L b' = Some (T j b') \<or> (\<forall>cursor page. answered A j g b cursor page \<longrightarrow> b' < pg_gc_watermark page) \<and> b' < mm_gc m' j"
        if "b' < b" "answered A j g b' cursor' page'" for b' cursor' page'
        using s(5)[OF that] stayed(2) less_le_trans[OF _ gc, of b'] by blast
      have "sealed_by T j g b m' A L"
      proof (rule sealed_byI)
        show "fmlookup L b' = Some (T j b') \<or> (\<forall>cursor page. answered A j g b cursor page \<longrightarrow> b' < pg_gc_watermark page) \<and>
            (hs_generation (mm_hard m') = g \<longrightarrow> b' < mm_gc m' j)"
          if "b' < b" "answered A j g b' cursor' page'" for b' cursor' page' using low[OF that] by blast
      qed (use s(1,2,4) held' at' stayed(1) in simp_all)
      then show ?thesis ..
    next
      case False
      have "fmlookup (mm_ledger m' j) b' = Some (T j b') \<or> b' < mm_gc m' j"
        if b': "b' < b" "answered A j g b' cursor page" for b' cursor page
      proof -
        have "fmlookup L b' = Some (T j b') \<or> b' < mm_gc m j" using s(5)[OF b'] stayed(2) by blast
        then show ?thesis
        proof
          assume l: "fmlookup L b' = Some (T j b')"
          show ?thesis
          proof (cases "mm_gc m j \<le> b'")
            case True
            then have "fmlookup (mm_ledger m j) b' = Some (T j b')" using held[OF b'(1)] l by simp
            then show ?thesis by (rule keep)
          next
            case False
            then have "b' < mm_gc m j" by simp
            then show ?thesis using less_le_trans[OF _ gc] by blast
          qed
        next
          assume "b' < mm_gc m j"
          then show ?thesis using less_le_trans[OF _ gc] by blast
        qed
      qed
      then have "sealed_by T j g b m' A (below b (mm_ledger m' j))" using False agrees stayed(1) below_dom by (intro sealed_byI) auto
      then show ?thesis ..
    qed
  qed
qed

lemma sealed_answer:
  assumes sealed: "sealed_by T j g b m' A L" and ok: "mm_ok T D m" "mm_ok T D m'" and q: "match_request_ok T q" "registers m q kind"
    and m': "m' = (snd (mm_stepped m q))\<lparr>mm_replies := rs\<rparr>" and page: "page_decode (fst (mm_stepped m q)) = Some (Inr page)"
  shows "sealed_by T j g b m' (insert (q, fst (mm_stepped m q)) A) L"
proof -
  let ?A = "insert (q, fst (mm_stepped m q)) A" and ?r = "\<lparr>rg_config = mq_config q, rg_kind = kind\<rparr>"
  have kind: "mq_purpose q = Purpose_Register kind" using q(2) by (simp add: registers_def)
  have ans: "fst (mm_stepped m q) = mm_answer m (mq_journal q) (mq_from_ballot q) (mq_ballot q)" by (rule registers_outcome(2)[OF kind q(2)])
  have led: "mm_ledger m' (mq_journal q) = fmupd (mq_ballot q) ?r (mm_ledger m (mq_journal q))" and gc: "mm_gc m' = mm_gc m"
    using registers_after(1,2)[OF q(2)] by (simp_all add: m' mm_ledger_def)
  have T: "T (mq_journal q) (mq_ballot q) = ?r" using q(1) kind by (simp add: match_request_ok_def)
  have "judged m' (mq_generation q) = judged (snd (mm_stepped m q)) (mq_generation q)" by (rule judged_cong) (simp_all add: m' mm_phase_of_def)
  then have "judged m' (mq_generation q) = None" using registers_after(4)[OF q(2)] q(2) by (simp add: registers_def)
  then have gen: "hs_generation (mm_hard m') = mq_generation q" by (simp add: judged_None)
  have floor: "mm_gc m' (mq_journal q) \<le> mq_ballot q" using q(2) gc by (simp add: registers_def)
  have new: "answered ?A j g b' cursor page' \<longleftrightarrow> answered A j g b' cursor page' \<or>
      (mq_journal q = j \<and> mq_generation q = g \<and> mq_ballot q = b' \<and> mq_from_ballot q = cursor \<and> page' = page)" for b' cursor page'
    using page by (auto simp: answered_def)
  note s = sealed_byD[OF sealed]
  show ?thesis
  proof (cases "mq_journal q = j \<and> mq_generation q = g")
    case False
    then have "answered ?A j g = answered A j g" using new by (intro ext) blast
    then show ?thesis using sealed unfolding sealed_by_def by simp
  next
    case key: True
    have held: "fmlookup (mm_ledger m' j) k = fmlookup L k" if "k < b" "mm_gc m' j \<le> k" for k using s(6) gen key that by simp
    have reads: "page_reads L (mq_from_ballot q) page" "pg_gc_watermark page = mm_gc m' j" if at: "mq_ballot q = b"
    proof -
      have pd: "page_decode (mm_answer m j (mq_from_ballot q) b) = Some (Inr page)" using page ans at key by simp
      have hl: "fmlookup (mm_ledger m j) k = fmlookup L k" if "k < b" "mm_gc m j \<le> k" for k
        using held[OF that(1)] that led at key gc by (auto split: if_splits)
      show "page_reads L (mq_from_ballot q) page" "pg_gc_watermark page = mm_gc m' j"
        using answer_reads[OF ok(1) hl s(2) pd] gc by simp_all
    qed
    have lower: "fmlookup L b' = Some (T j b')" if "b' < b" "mq_ballot q = b'" for b'
      using held[OF that(1)] floor led T that key by simp
    show ?thesis
    proof (rule sealed_byI)
      show "g \<le> hs_generation (mm_hard m')" if "answered ?A j g b' cursor page'" for b' cursor page'
        using gen key by simp
      show "page_reads L cursor page'" if "answered ?A j g b cursor page'" for cursor page'
        using that s(4) reads(1) unfolding new by blast
      show "b \<in> fmdom' (mm_ledger m' j) \<or> b < mm_gc m' j" if "hs_generation (mm_hard m') = g" "answered ?A j g b cursor page'" for cursor page'
        using that(2) s(7)[OF that(1)] led key unfolding new by auto
      show "fmlookup L b' = Some (T j b') \<or> (\<forall>cursor page'. answered ?A j g b cursor page' \<longrightarrow> b' < pg_gc_watermark page') \<and>
          (hs_generation (mm_hard m') = g \<longrightarrow> b' < mm_gc m' j)"
        if b': "b' < b" "answered ?A j g b' cursor' page'" for b' cursor' page'
      proof (cases "mq_ballot q = b'")
        case True
        then show ?thesis using lower[OF b'(1)] by blast
      next
        case False
        then have "answered A j g b' cursor' page'" using b'(2) unfolding new by blast
        from s(5)[OF b'(1) this] show ?thesis using reads(2) gen key unfolding new by auto
      qed
    qed (use s(1,2) held in blast)+
  qed
qed

lemma answered_ignored:
  assumes "\<And>page. page_decode answer \<noteq> Some (Inr page)"
  shows "answered (insert (q, answer) A) = answered A"
  using assms by (intro ext) (auto simp: answered_def)

lemma sealed_feed:
  assumes sealed: "sealed_by T j g b m A L" and d: "driven_ok T D (m, s)" and i: "mm_input_ok T D i" and feed: "mm_feed i (m, s) = Some (m', s')"
  shows "\<exists>L'. sealed_by T j g b m' (set (answer_of i m') \<union> A) L'"
proof -
  have "driven_ok T D (m', s')" "registry_after m m'" using mm_feed_total[OF d i] feed by auto
  then have ok: "mm_ok T D m" "mm_ok T D m'" and after: "registry_after m m'" using d by (simp_all add: driven_okD)
  obtain L' where L': "sealed_by T j g b m' A L'" using sealed_later[OF sealed ok after] by blast
  show ?thesis
  proof (cases i)
    case (In_Match q)
    then have q: "match_request_ok T q" and step: "mm_step m q = Some m'" using i feed by (auto simp: bind_Some_iff)
    have m': "m' = (snd (mm_stepped m q))\<lparr>mm_replies := mm_replies m @ [mm_reply m q (fst (mm_stepped m q))]\<rparr>"
      using step mm_step_total[OF ok(1) q] by simp
    then have o': "mp_outcome (last (mm_replies m')) = fst (mm_stepped m q)" by (simp add: mm_reply_def)
    show ?thesis
    proof (cases "\<exists>page. page_decode (fst (mm_stepped m q)) = Some (Inr page)")
      case True
      then obtain page where page: "page_decode (fst (mm_stepped m q)) = Some (Inr page)" by blast
      then obtain f h c w e where r: "fst (mm_stepped m q) = Match_Registered f h c w e" by (cases "fst (mm_stepped m q)") (auto simp: page_decode_def)
      obtain kind where kind: "mq_purpose q = Purpose_Register kind"
        using r by (cases "mq_purpose q") (auto simp: mm_stepped_def split: option.splits)
      then have "registers m q kind" using registers_outcome(1)[OF kind] r by blast
      then show ?thesis using sealed_answer[OF L' ok q _ m' page] In_Match o' by (auto simp: answer_of_def)
    next
      case False
      then have "answered (insert (q, fst (mm_stepped m q)) A) = answered A" by (intro answered_ignored) blast
      then have "sealed_by T j g b m' (insert (q, fst (mm_stepped m q)) A) L'" using L' unfolding sealed_by_def by simp
      then show ?thesis using In_Match o' by (auto simp: answer_of_def)
    qed
  qed (use L' in \<open>auto simp: answer_of_def\<close>)
qed

lemma sealed_run:
  assumes "sealed_by T j g b m A L" "driven_ok T D (m, s)" "list_all (mm_input_ok T D) inputs"
  shows "\<exists>m' L'. sealed_by T j g b m' (A \<union> set (mm_answers inputs (m, s))) L'"
  using assms
proof (induction inputs arbitrary: m s A L)
  case Nil
  then show ?case by auto
next
  case (Cons i inputs)
  obtain m1 s1 where f: "mm_feed i (m, s) = Some (m1, s1)" "driven_ok T D (m1, s1)"
    using mm_feed_total[OF Cons.prems(2), of i] Cons.prems(3) by auto
  let ?a = "set (answer_of i m1)"
  obtain L1 where L1: "sealed_by T j g b m1 (?a \<union> A) L1"
    using sealed_feed[OF Cons.prems(1,2) _ f(1)] Cons.prems(3) by auto
  have "A \<union> set (mm_answers (i # inputs) (m, s)) = (?a \<union> A) \<union> set (mm_answers inputs (m1, s1))"
    using f(1) by (simp add: Un_ac)
  moreover have "\<exists>m' L'. sealed_by T j g b m' ((?a \<union> A) \<union> set (mm_answers inputs (m1, s1))) L'"
    using Cons.IH[OF L1 f(2)] Cons.prems(3) by simp
  ultimately show ?case by (simp only:)
qed

lemma fresh_sealed:
  assumes "deployment_ok cfg l" "list_all (mm_input_ok T D) inputs"
  shows "\<exists>m L. sealed_by T j g b m (set (mm_answers inputs (fresh_matchmaker cfg l, fresh_store))) L"
proof -
  let ?m = "fresh_matchmaker cfg l"
  have ok: "mm_ok T D ?m" by (rule fresh_matchmaker_ok(1)[OF assms(1)])
  have "sealed_by T j g b ?m {} (below b (mm_ledger ?m j))"
    using mm_ledger_agrees[OF ok, of j] below_dom by (intro sealed_byI) (auto simp: answered_def ledger_agrees_def)
  from sealed_run[OF this fresh_driven[OF assms(1)] assms(2)] show ?thesis by simp
qed

subsection \<open>A candidate that reads the answers\<close>

text \<open>The request for a page: the registration itself, or the registration with the cursor reached.\<close>

definition request_at :: "match_request \<Rightarrow> ballot option \<Rightarrow> match_request" where
  "request_at request cursor = (case cursor of None \<Rightarrow> request | Some c \<Rightarrow> mq_from_page request c)"

text \<open>The candidate asks every matchmaker it has no answer of, again after every page, and folds the answers
  to what it has asked in any order, late and repeated ones included.\<close>

inductive candidate_reads ::
  "(matchmaker_id \<Rightarrow> (match_request \<times> match_outcome) set) \<Rightarrow> match_request \<Rightarrow> registration_kind \<Rightarrow> matchmaker_set \<Rightarrow>
   (matchmaker_id \<times> ballot option) set \<Rightarrow> matchmaking \<Rightarrow> bool"
  for answers request kind matchmakers where
  start: "mk_new (mq_ballot request) (mq_config request) kind = Some m \<Longrightarrow> mk_unanswered m matchmakers = Some us \<Longrightarrow>
    candidate_reads answers request kind matchmakers (set us) m"
| deliver: "candidate_reads answers request kind matchmakers asked m \<Longrightarrow> (mm, cursor) \<in> asked \<Longrightarrow>
    (request_at request cursor, answer) \<in> answers mm \<Longrightarrow> page_from_outcome answer = Some (Some (Inr page)) \<Longrightarrow>
    mk_fold m mm page = Some (result, m') \<Longrightarrow> mk_unanswered m' matchmakers = Some us \<Longrightarrow>
    candidate_reads answers request kind matchmakers (asked \<union> set us) m'"

text \<open>A record of a ledger is accounted for: below the watermark, or stood for by a record the candidate holds
  or has yet to read.\<close>

definition accounted :: "matchmaking \<Rightarrow> ballot option \<Rightarrow> ledger \<Rightarrow> ballot \<times> registration \<Rightarrow> bool" where
  "accounted m cursor L x \<longleftrightarrow> fst x < mk_watermark m \<or>
     (\<exists>y. stands_for x y \<and> (mk_holds m y \<or> (\<exists>n. cursor = Some n \<and> n \<le> fst y \<and> fmlookup L (fst y) = Some (snd y))))"

lemma accounted_stands: "stands_for x y \<Longrightarrow> accounted m cursor L y \<Longrightarrow> accounted m cursor L x"
proof -
  assume xy: "stands_for x y" and "accounted m cursor L y"
  then consider "fst y < mk_watermark m"
    | z where "stands_for y z" "mk_holds m z \<or> (\<exists>n. cursor = Some n \<and> n \<le> fst z \<and> fmlookup L (fst z) = Some (snd z))"
    by (auto simp: accounted_def)
  then show ?thesis
  proof cases
    case 1
    have "fst x \<le> fst y" using xy by (simp add: stands_for_def)
    from le_less_trans[OF this 1] show ?thesis by (simp add: accounted_def)
  next
    case 2
    then show ?thesis using stands_for_trans[OF xy] unfolding accounted_def by blast
  qed
qed

lemma accounted_page:
  assumes page: "page_reads L cursor page" and y: "fmlookup L (fst y) = Some (snd y)"
    and "pg_from_ballot page \<le> fst y \<or> fst y < pg_gc_watermark page"
  shows "accounted (page_folded mm page m) (pg_next_from_ballot page) L y"
  using assms(3)
proof
  assume "pg_from_ballot page \<le> fst y"
  then obtain z where z: "stands_for y z" "fmlookup (pg_history page) (fst z) = Some (snd z) \<or>
      (\<exists>n. pg_next_from_ballot page = Some n \<and> n \<le> fst z \<and> fmlookup L (fst z) = Some (snd z))"
    using page y unfolding page_reads_def by blast
  have "fmlookup (pg_history page) (fst z) = Some (snd z) \<Longrightarrow> mk_holds (page_folded mm page m) z"
    using page_folded_holds(2)[of page "fst z" "snd z" mm m] by simp
  then show ?thesis using z unfolding accounted_def by blast
next
  assume "fst y < pg_gc_watermark page"
  then show ?thesis by (simp add: accounted_def less_max_iff_disj)
qed

lemma accounted_held:
  assumes "accounted m cursor L x" "\<And>y. mk_holds m y \<Longrightarrow> mk_holds m' y" "mk_watermark m \<le> mk_watermark m'"
  shows "accounted m' cursor L x"
  using assms(1) less_le_trans[OF _ assms(3)] assms(2) unfolding accounted_def by blast

definition reads_of :: "registered_page set \<Rightarrow> ledger \<Rightarrow> matchmaking \<Rightarrow> matchmaker_id \<Rightarrow> bool" where
  "reads_of pages L m mm \<longleftrightarrow>
     (mm \<in> mk_registered_by m \<union> fmdom' (mk_page_next m) \<longrightarrow> (\<exists>page \<in> pages. pg_gc_watermark page \<le> mk_watermark m)) \<and>
     (mm \<in> mk_registered_by m \<longrightarrow> (\<forall>x. fmlookup L (fst x) = Some (snd x) \<longrightarrow> accounted m None L x)) \<and>
     (\<forall>n. fmlookup (mk_page_next m) mm = Some n \<longrightarrow> (\<forall>x. fmlookup L (fst x) = Some (snd x) \<longrightarrow> accounted m (Some n) L x))"

lemma reads_other:
  assumes "reads_of pages L m mm'" "mm' \<noteq> mm"
  shows "reads_of pages L (page_folded mm page m) mm'"
proof -
  let ?m = "page_folded mm page m"
  have held: "accounted m cursor L x \<Longrightarrow> accounted ?m cursor L x" for cursor x
    by (erule accounted_held) (simp_all add: page_folded_holds(1))
  have wm: "mk_watermark m \<le> mk_watermark ?m" by simp
  have same: "fmlookup (mk_page_next ?m) mm' = fmlookup (mk_page_next m) mm'" "mm' \<in> mk_registered_by ?m \<longleftrightarrow> mm' \<in> mk_registered_by m"
    using assms(2) by (auto split: option.split)
  have "\<exists>page \<in> pages. pg_gc_watermark page \<le> mk_watermark m \<Longrightarrow> \<exists>page \<in> pages. pg_gc_watermark page \<le> mk_watermark ?m"
    using order_trans[OF _ wm] by blast
  then show ?thesis
    using assms(1) held unfolding reads_of_def Un_iff fmdom'_iff same by blast
qed

lemma reads_folded:
  assumes reads: "reads_of pages L m mm" and page: "page_reads L cursor page" "page \<in> pages" and fits: "page_fits m mm page"
    and cursor: "cursor \<noteq> None \<longrightarrow> mm \<in> mk_registered_by m \<union> fmdom' (mk_page_next m)"
  shows "reads_of pages L (page_folded mm page m) mm"
proof -
  let ?m = "page_folded mm page m"
  have acc: "accounted ?m (pg_next_from_ballot page) L x" if x: "fmlookup L (fst x) = Some (snd x)" for x
  proof (cases "fmlookup (mk_page_next m) mm")
    case None
    then have "cursor = None" using cursor fits by (auto simp: page_fits_def fmdom'_iff)
    then have "pg_from_ballot page = pg_gc_watermark page" using page(1) by (simp add: page_reads_def)
    then show ?thesis by (intro accounted_page[OF page(1) x]) (simp add: not_le[symmetric])
  next
    case (Some n)
    then have at: "pg_from_ballot page = n \<or> pg_from_ballot page = pg_gc_watermark page" using fits by (auto simp: page_fits_def)
    have "accounted m (Some n) L x" using reads Some x unfolding reads_of_def by blast
    then consider "fst x < mk_watermark m" | y where "stands_for x y" "mk_holds m y"
      | y where "stands_for x y" "n \<le> fst y" "fmlookup L (fst y) = Some (snd y)" by (auto simp: accounted_def)
    then show ?thesis
    proof cases
      case 1
      then show ?thesis by (simp add: accounted_def less_max_iff_disj)
    next
      case 2
      then show ?thesis using page_folded_holds(1) unfolding accounted_def by blast
    next
      case 3
      then have "pg_from_ballot page \<le> fst y \<or> fst y < pg_gc_watermark page" using at not_le by metis
      then show ?thesis by (intro accounted_stands[OF 3(1)] accounted_page[OF page(1) 3(3)])
    qed
  qed
  have heard: "\<exists>page \<in> pages. pg_gc_watermark page \<le> mk_watermark ?m" using page(2) by (intro bexI[of _ page]) simp_all
  have "mm \<notin> mk_registered_by m" using fits by (simp add: page_fits_def)
  then have "mm \<in> mk_registered_by ?m \<Longrightarrow> pg_next_from_ballot page = None" "fmlookup (mk_page_next ?m) mm = pg_next_from_ballot page"
    by (cases "pg_next_from_ballot page"; simp)+
  then show ?thesis using acc heard unfolding reads_of_def by metis
qed

subsection \<open>The union agrees with the registrations\<close>

definition union_agrees :: "(ballot \<Rightarrow> registration) \<Rightarrow> ballot \<Rightarrow> matchmaking \<Rightarrow> bool" where
  "union_agrees T b m \<longleftrightarrow> (\<forall>k cs. fmlookup (mk_history m) k = Some cs \<longrightarrow> cs = [rg_config (T k)] \<and> k < b)"

lemma union_agrees_fold:
  "union_agrees T b m \<Longrightarrow> (\<forall>(k, r) \<in> set xs. r = T k \<and> k < b) \<Longrightarrow> union_agrees T b (fold unioned xs m)"
proof (induction xs arbitrary: m)
  case (Cons x xs)
  obtain k where x: "x = (k, T k)" "k < b" using Cons.prems(2) by auto
  have old: "fmlookup (mk_history m) k' = Some cs \<Longrightarrow> cs = [rg_config (T k')] \<and> k' < b" for k' cs
    using Cons.prems(1) unfolding union_agrees_def by blast
  have "union_agrees T b (unioned x m)"
    unfolding union_agrees_def
  proof (intro allI impI)
    fix k' cs assume cs: "fmlookup (mk_history (unioned x m)) k' = Some cs"
    show "cs = [rg_config (T k')] \<and> k' < b"
    proof (cases "fmlookup (mk_history m) k'")
      case None
      then show ?thesis using cs x by (auto simp: unioned_history entry_or_default_def split: if_splits)
    next
      case (Some cs')
      then have "cs = cs'" using cs x(1) old[OF Some] by (auto simp: unioned_history entry_or_default_def split: if_splits)
      then show ?thesis using old[OF Some] by simp
    qed
  qed
  then show ?case using Cons.IH Cons.prems(2) by simp
qed simp

lemma union_agrees_count: "union_agrees T b m \<Longrightarrow> mk_core m \<Longrightarrow> mk_disagreements m = 0"
proof -
  assume u: "union_agrees T b m" and core: "mk_core m"
  have "length (the (fmlookup (mk_history m) k)) - 1 = 0" if k: "k \<in> fmdom' (mk_history m)" for k
  proof -
    obtain cs where cs: "fmlookup (mk_history m) k = Some cs" using k by (auto simp: fmlookup_dom'_iff)
    then have "cs = [rg_config (T k)]" using u unfolding union_agrees_def by blast
    then show ?thesis using cs by simp
  qed
  then have "extra_configs (mk_history m) = 0" unfolding extra_configs_def by (intro sum.neutral) blast
  then show ?thesis using core by (simp add: mk_core_def)
qed

text \<open>What holds of a candidate that reads matchmakers each of whose answers one ledger explains.\<close>

definition candidate_ok ::
  "(ballot \<Rightarrow> registration) \<Rightarrow> ballot \<Rightarrow> matchmaker_set \<Rightarrow> (matchmaker_id \<Rightarrow> registered_page set) \<Rightarrow> (matchmaker_id \<Rightarrow> ledger) \<Rightarrow>
   (matchmaker_id \<times> ballot option) set \<Rightarrow> matchmaking \<Rightarrow> bool" where
  "candidate_ok T b s pages L asked m \<longleftrightarrow> mk_ok m \<and> union_agrees T b m \<and> mk_registered_by m \<subseteq> set (ms_members s) \<and>
     (\<forall>(mm, cursor) \<in> asked. mm \<in> set (ms_members s) \<and> (cursor \<noteq> None \<longrightarrow> mm \<in> mk_registered_by m \<union> fmdom' (mk_page_next m))) \<and>
     (\<forall>mm \<in> set (ms_members s). reads_of (pages mm) (L mm) m mm)"

lemma page_small: "fm_len (pg_history page) \<le> REGISTRY_PAGE \<Longrightarrow> fm_len (pg_history page) < u64_max"
  by (simp add: REGISTRY_PAGE_def u64_max_def)

lemma candidate_folds:
  assumes c: "candidate_ok T b s pages L asked m" and mm: "(mm, cursor) \<in> asked" "page \<in> pages mm"
    and page: "page_reads (L mm) cursor page" and L: "ledger_agrees T (L mm)" "\<forall>k \<in> fmdom' (L mm). k < b"
  shows "\<exists>result m' us. mk_fold m mm page = Some (result, m') \<and> mk_unanswered m' s = Some us \<and>
    candidate_ok T b s pages L (asked \<union> set us) m' \<and>
    (if page_fits m mm page then result \<noteq> Fold_Ignored \<and> m' = page_folded mm page m else result = Fold_Ignored \<and> m' = m)"
proof -
  have ok: "mk_core m" "union_agrees T b m" using c by (simp_all add: candidate_ok_def mk_ok_def)
  have bound: "mk_disagreements m + fm_len (pg_history page) < u64_max"
    using union_agrees_count[OF ok(2,1)] page_small[OF page_readsD(2)[OF page]] by simp
  note fold = mk_fold_total[OF ok(1) bound, of mm]
  have reg: "mk_registered_by m \<subseteq> set (ms_members s)" and asked: "(mm', cur) \<in> asked \<Longrightarrow> mm' \<in> set (ms_members s)"
    "(mm', cur) \<in> asked \<Longrightarrow> cur \<noteq> None \<longrightarrow> mm' \<in> mk_registered_by m \<union> fmdom' (mk_page_next m)" for mm' cur
    using c by (auto simp: candidate_ok_def)
  have us: "(mm', cur) \<in> set us \<Longrightarrow> mm' \<in> set (ms_members s) \<and> (cur \<noteq> None \<longrightarrow> mm' \<in> fmdom' (mk_page_next n))"
    if "mk_unanswered n s = Some us" for n us mm' cur
    using that by (cases "fmlookup (mk_page_next n) mm'") (auto simp: mk_unanswered_total ms_unanswered_def fmdom'I)
  show ?thesis
  proof (cases "page_fits m mm page")
    case False
    obtain us where u: "mk_unanswered m s = Some us" by (simp add: mk_unanswered_total)
    have "candidate_ok T b s pages L (asked \<union> set us) m" using c us[OF u] unfolding candidate_ok_def by blast
    then show ?thesis using False fold u by simp
  next
    case True
    let ?m = "page_folded mm page m"
    have out: "mm \<notin> mk_registered_by m" using True by (simp add: page_fits_def)
    obtain us where u: "mk_unanswered ?m s = Some us" by (simp add: mk_unanswered_total)
    have "\<forall>(k, r) \<in> set (fm_entries (pg_history page)). r = T k \<and> k < b"
      using page_readsD(4)[OF page] L by (auto simp: ledger_agrees_def fmdom'I)
    then have "union_agrees T b ?m" using union_agrees_fold[OF ok(2)] by (simp add: union_agrees_def)
    moreover have "reads_of (pages mm') (L mm') ?m mm'" if "mm' \<in> set (ms_members s)" for mm'
    proof (cases "mm' = mm")
      case True
      then show ?thesis using reads_folded[OF _ page mm(2) \<open>page_fits m mm page\<close> asked(2)[OF mm(1)]] c that by (simp add: candidate_ok_def)
    next
      case False
      then show ?thesis using reads_other[OF _ False] c that by (simp add: candidate_ok_def)
    qed
    moreover have "mk_registered_by ?m \<subseteq> set (ms_members s)" using reg asked(1)[OF mm(1)] by (auto split: option.split)
    moreover have grow: "mk_registered_by m \<union> fmdom' (mk_page_next m) \<subseteq> mk_registered_by ?m \<union> fmdom' (mk_page_next ?m)"
      by (auto simp: fmdom'_iff split: option.split)
    have "mm' \<in> set (ms_members s) \<and> (cur \<noteq> None \<longrightarrow> mm' \<in> mk_registered_by ?m \<union> fmdom' (mk_page_next ?m))"
      if "(mm', cur) \<in> asked \<union> set us" for mm' cur
      using that asked[of mm' cur] us[OF u, of mm' cur] grow by blast
    ultimately have "candidate_ok T b s pages L (asked \<union> set us) ?m"
      using page_folded_core(2)[OF ok(1) bound out] unfolding candidate_ok_def by blast
    then show ?thesis using True fold u by (simp split: option.split)
  qed
qed

subsection \<open>A generation of matchmakers\<close>

text \<open>The answers of a matchmaker deployed over a fresh store and fed a sequence of inputs.\<close>

definition answers_of :: "matchmaker_config \<Rightarrow> limits \<Rightarrow> mm_input list \<Rightarrow> (match_request \<times> match_outcome) set" where
  "answers_of cfg l inputs = (case mm_boot cfg fresh_store l of None \<Rightarrow> {} | Some m \<Rightarrow> set (mm_answers inputs (m, fresh_store)))"

lemma answers_sealed:
  assumes "deployment_ok cfg l" "list_all (mm_input_ok T D) inputs"
  shows "\<exists>m L. sealed_by T j g b m (answers_of cfg l inputs) L"
  using fresh_sealed[OF assms] fresh_matchmaker_ok(3)[OF assms(1)] by (simp add: answers_of_def)

definition pages_at :: "(match_request \<times> match_outcome) set \<Rightarrow> journal_id \<Rightarrow> matchmaker_generation \<Rightarrow> ballot \<Rightarrow> registered_page set" where
  "pages_at A j g b = {page. \<exists>cursor. answered A j g b cursor page}"

lemma for_kind_fields:
  assumes "mq_for_kind kind j from b config g = Some request"
  shows "mq_journal request = j" "mq_ballot request = b" "mq_config request = config" "mq_generation request = g"
    "mq_purpose request = Purpose_Register kind" "mq_from_ballot request = None"
  using assms by (cases kind; auto simp: mq_for_kind_def mq_new_def mq_reconfigure_def purpose_is_reconfiguration_def bind_Some_iff)+

lemma request_at_fields [simp]:
  "mq_journal (request_at request cursor) = mq_journal request" "mq_ballot (request_at request cursor) = mq_ballot request"
  "mq_generation (request_at request cursor) = mq_generation request" "mq_purpose (request_at request cursor) = mq_purpose request"
  "mq_config (request_at request cursor) = mq_config request"
  "mq_from_ballot (request_at request cursor) = (case cursor of None \<Rightarrow> mq_from_ballot request | Some c \<Rightarrow> Some c)"
  by (simp_all add: request_at_def mq_from_page_def split: option.split)

lemma page_from_outcome_total [total_simps]: "page_from_outcome answer = Some (page_decode answer)"
  by (cases answer) (simp_all add: page_from_outcome_def page_decode_def)

lemma asked_answer:
  assumes "mq_for_kind kind j from b config g = Some request" "(request_at request cursor, answer) \<in> A"
    "page_from_outcome answer = Some (Some (Inr page))"
  shows "answered A j g b cursor page"
proof -
  note f = for_kind_fields[OF assms(1)]
  have "mq_from_ballot (request_at request cursor) = cursor" using f(6) by (cases cursor) simp_all
  then show ?thesis
    unfolding answered_def using assms(2,3) f
    by (intro exI[of _ "request_at request cursor"] exI[of _ answer]) (simp add: page_from_outcome_total)
qed

lemma candidate_reads_ok:
  assumes explained: "\<forall>mm \<in> set (ms_members s). sealed_by T j g b (m0 mm) (A mm) (L mm)"
    and request: "mq_for_kind kind j from b config g = Some request" and reads: "candidate_reads A request kind s asked m"
  shows "candidate_ok (T j) b s (\<lambda>mm. pages_at (A mm) j g b) L asked m"
  using reads
proof (induction rule: candidate_reads.induct)
  case (start m us)
  have m: "mk_ok m" "mk_registered_by m = {}" "mk_page_next m = fmempty" "mk_history m = fmempty"
    using start(1) mk_new_total(2)[OF start(1)] by (auto simp: mk_new_total(1))
  moreover have "mm \<in> set (ms_members s) \<and> cursor = None" if "(mm, cursor) \<in> set us" for mm cursor
    using that start(2) m by (auto simp: mk_unanswered_total ms_unanswered_def)
  ultimately show ?case by (auto simp: candidate_ok_def union_agrees_def reads_of_def)
next
  case (deliver asked m mm cursor answer page result m' us)
  have mm: "mm \<in> set (ms_members s)" using deliver.IH deliver.hyps(2) by (auto simp: candidate_ok_def)
  then have sealed: "sealed_by T j g b (m0 mm) (A mm) (L mm)" using explained by blast
  have ans: "answered (A mm) j g b cursor page" by (rule asked_answer[OF request deliver.hyps(3,4)])
  then have "page \<in> pages_at (A mm) j g b" by (auto simp: pages_at_def)
  from candidate_folds[OF deliver.IH deliver.hyps(2) this sealed_byD(4)[OF sealed ans] sealed_byD(1)[OF sealed]]
  show ?case using sealed_byD(2)[OF sealed] deliver.hyps(5,6) by auto
qed

lemma explained_all:
  assumes "\<forall>mm \<in> set (ms_members s). deployment_ok (cfg mm) (l mm) \<and> list_all (mm_input_ok T D) (inputs mm)"
  obtains m0 L where "\<forall>mm \<in> set (ms_members s). sealed_by T j g b (m0 mm) (answers_of (cfg mm) (l mm) (inputs mm)) (L mm)"
proof -
  have "\<forall>mm \<in> set (ms_members s). \<exists>m L. sealed_by T j g b m (answers_of (cfg mm) (l mm) (inputs mm)) L"
    using assms answers_sealed by blast
  then show thesis using that by metis
qed

text \<open>A matchmaker that answered both rounds has the lower one read or collected.\<close>

lemma lower_round_accounted:
  assumes sealed: "sealed_by T j g b m0 A L" and reads: "reads_of (pages_at A j g b) L m mm" and mm: "mm \<in> mk_registered_by m"
    and lower: "b' < b" "answered A j g b' cursor page"
  shows "b' < mk_watermark m \<or> accounted m None L (b', T j b')"
  using sealed_byD(5)[OF sealed lower]
proof
  assume "fmlookup L b' = Some (T j b')"
  then show ?thesis using reads mm unfolding reads_of_def by simp
next
  assume low: "(\<forall>cursor page. answered A j g b cursor page \<longrightarrow> b' < pg_gc_watermark page) \<and> (hs_generation (mm_hard m0) = g \<longrightarrow> b' < mm_gc m0 j)"
  obtain page cursor where page: "answered A j g b cursor page" "pg_gc_watermark page \<le> mk_watermark m"
    using reads mm unfolding reads_of_def pages_at_def by blast
  then have "b' < pg_gc_watermark page" using low by blast
  from less_le_trans[OF this page(2)] show ?thesis ..
qed

lemma candidate_prior:
  assumes "union_agrees T b m"
  shows "\<exists>prior. mk_prior m = Some prior \<and>
    (\<forall>c. c \<in> set prior \<longleftrightarrow> (\<exists>k cs. mk_watermark m \<le> k \<and> fmlookup (mk_history m) k = Some cs \<and> c \<in> set cs)) \<and>
    (\<forall>c \<in> set prior. \<exists>k. mk_watermark m \<le> k \<and> k < b \<and> c = rg_config (T k))"
proof -
  obtain prior where prior: "mk_prior m = Some prior"
    "\<forall>c. c \<in> set prior \<longleftrightarrow> (\<exists>k cs. mk_watermark m \<le> k \<and> fmlookup (mk_history m) k = Some cs \<and> c \<in> set cs)"
    using mk_prior_total[of m] by blast
  note within = prior(2)[rule_format]
  have "\<exists>k. mk_watermark m \<le> k \<and> k < b \<and> c = rg_config (T k)" if c: "c \<in> set prior" for c
  proof -
    obtain k cs where k: "mk_watermark m \<le> k" "fmlookup (mk_history m) k = Some cs" "c \<in> set cs" using c unfolding within by blast
    moreover from k(2) have "cs = [rg_config (T k)] \<and> k < b" using assms unfolding union_agrees_def by blast
    ultimately show ?thesis by auto
  qed
  then show ?thesis using prior by blast
qed

lemma accounted_prior:
  assumes "accounted m None L (b', r')" and prior: "\<And>c. c \<in> set prior \<longleftrightarrow> (\<exists>k cs. mk_watermark m \<le> k \<and> fmlookup (mk_history m) k = Some cs \<and> c \<in> set cs)"
  shows "b' < mk_watermark m \<or> rg_config r' \<in> set prior \<and>
    (kind_is_reconfiguration (rg_kind r') \<longrightarrow> (\<exists>k c. mk_effective m = Some (k, c) \<and> b' \<le> k))"
proof (cases "b' < mk_watermark m")
  case False
  then obtain k r where y: "stands_for (b', r') (k, r)" "mk_holds m (k, r)" using assms(1) by (auto simp: accounted_def)
  have k: "b' \<le> k" "rg_config r = rg_config r'" "kind_is_reconfiguration (rg_kind r') \<Longrightarrow> k = b' \<and> r = r'"
    using y(1) by (simp_all add: stands_for_def)
  have "mk_watermark m \<le> b'" using False by simp
  then have "mk_watermark m \<le> k" using k(1) by (rule order_trans)
  then have "rg_config r' \<in> set prior" using y(2) k(2) unfolding prior mk_holds_def by auto
  moreover have "\<exists>k c. mk_effective m = Some (k, c) \<and> b' \<le> k" if "kind_is_reconfiguration (rg_kind r')"
    using y(2) k(3)[OF that] that by (cases "mk_effective m") (auto simp: mk_holds_def)
  ultimately show ?thesis by blast
qed blast

lemma candidate_core:
  assumes "\<forall>mm \<in> set (ms_members s). deployment_ok (cfg mm) (l mm) \<and> list_all (mm_input_ok T D) (inputs mm)"
    "mq_for_kind kind j from b config g = Some request" "candidate_reads (\<lambda>mm. answers_of (cfg mm) (l mm) (inputs mm)) request kind s asked m"
  shows "mk_core m"
proof -
  obtain m0 L where "\<forall>mm \<in> set (ms_members s). sealed_by T j g b (m0 mm) (answers_of (cfg mm) (l mm) (inputs mm)) (L mm)"
    using explained_all[OF assms(1)] by blast
  from candidate_reads_ok[OF this assms(2,3)] show ?thesis by (simp add: candidate_ok_def mk_ok_def)
qed

text \<open>The page a candidate is waiting for fits.\<close>

lemma awaited_folds_sealed:
  assumes ex: "\<forall>mm \<in> set (ms_members s). sealed_by T j g b (m0 mm) (A mm) (L mm)"
    and request: "mq_for_kind kind j from b config g = Some request"
    and reads: "candidate_reads A request kind s asked m"
    and awaited: "mk_unanswered m s = Some us" "(mm, cursor) \<in> set us"
    and answer: "(request_at request cursor, answer) \<in> A mm" "page_from_outcome answer = Some (Some (Inr page))"
  shows "mk_fold m mm page = Some (case pg_next_from_ballot page of None \<Rightarrow> Fold_Registered | Some n \<Rightarrow> Fold_Paged n, page_folded mm page m)"
    and "pg_next_from_ballot page = Some n \<Longrightarrow> n < b" and "pg_next_from_ballot page = Some n \<Longrightarrow> cursor = Some c \<Longrightarrow> c < n"
proof -
  have c: "candidate_ok (T j) b s (\<lambda>mm. pages_at (A mm) j g b) L asked m" by (rule candidate_reads_ok[OF ex request reads])
  have mm: "mm \<in> set (ms_members s)" "mm \<notin> mk_registered_by m" "cursor = fmlookup (mk_page_next m) mm"
    using awaited by (auto simp: mk_unanswered_total ms_unanswered_def)
  note sealed = bspec[OF ex mm(1)]
  have page: "page_reads (L mm) cursor page" by (rule sealed_byD(4)[OF sealed asked_answer[OF request answer]])
  note p = page_readsD[OF page]
  have at: "pg_from_ballot page = n \<or> n < pg_from_ballot page \<and> pg_from_ballot page = pg_gc_watermark page" if "cursor = Some n" for n
    using p(1) that by (auto simp: max_def)
  have fits: "page_fits m mm page"
    unfolding page_fits_def using mm(2,3) at p(2,3,5,6,8) by (auto simp: fmlookup_dom'_iff)
  have core: "mk_core m" using c by (simp add: candidate_ok_def mk_ok_def)
  have "union_agrees (T j) b m" using c by (simp add: candidate_ok_def)
  then show "mk_fold m mm page = Some (case pg_next_from_ballot page of None \<Rightarrow> Fold_Registered | Some n \<Rightarrow> Fold_Paged n, page_folded mm page m)"
    using mk_fold_total[of m page mm] core fits union_agrees_count page_small[OF p(2)] by simp
  show "n < b" if "pg_next_from_ballot page = Some n" using p(7)[OF that] sealed_byD(2)[OF sealed] by blast
  show "c < n" if "pg_next_from_ballot page = Some n" "cursor = Some c"
    using at[OF that(2)] p(6)[OF that(1)] by (auto dest: less_trans)
qed

lemma awaited_folds:
  assumes deployed: "\<forall>mm \<in> set (ms_members s). deployment_ok (cfg mm) (l mm) \<and> list_all (mm_input_ok T D) (inputs mm)"
    and request: "mq_for_kind kind j from b config g = Some request"
    and reads: "candidate_reads (\<lambda>mm. answers_of (cfg mm) (l mm) (inputs mm)) request kind s asked m"
    and awaited: "mk_unanswered m s = Some us" "(mm, cursor) \<in> set us"
    and answer: "(request_at request cursor, answer) \<in> answers_of (cfg mm) (l mm) (inputs mm)" "page_from_outcome answer = Some (Some (Inr page))"
  shows "mk_fold m mm page = Some (case pg_next_from_ballot page of None \<Rightarrow> Fold_Registered | Some n \<Rightarrow> Fold_Paged n, page_folded mm page m)"
    and "pg_next_from_ballot page = Some n \<Longrightarrow> n < b" and "pg_next_from_ballot page = Some n \<Longrightarrow> cursor = Some c \<Longrightarrow> c < n"
proof -
  obtain m0 L where ex: "\<forall>mm \<in> set (ms_members s). sealed_by T j g b (m0 mm) (answers_of (cfg mm) (l mm) (inputs mm)) (L mm)"
    using explained_all[OF deployed] by blast
  note folds = awaited_folds_sealed[OF ex request reads awaited answer]
  show "mk_fold m mm page = Some (case pg_next_from_ballot page of None \<Rightarrow> Fold_Registered | Some n \<Rightarrow> Fold_Paged n, page_folded mm page m)"
    "pg_next_from_ballot page = Some n \<Longrightarrow> n < b" "pg_next_from_ballot page = Some n \<Longrightarrow> cursor = Some c \<Longrightarrow> c < n"
    by (rule folds(1), rule folds(2), assumption, rule folds(3))
qed

subsection \<open>Two rounds through one matchmaker\<close>

definition solo_set :: matchmaker_set where
  "solo_set = \<lparr>ms_generation = 0, ms_members = [1]\<rparr>"

definition solo_inputs :: "mm_input list" where
  "solo_inputs = [In_Match (solo_request (Ballot 1 1)), In_Match (solo_request (Ballot 2 1))]"

abbreviation solo_answers :: "(match_request \<times> match_outcome) set" where
  "solo_answers \<equiv> answers_of solo_config limits_default solo_inputs"

lemma solo_set_ok: "ms_new 0 [1] = Some solo_set" "ms_members solo_set = [1]" "ms_ok solo_set"
  by (simp_all add: ms_new_total solo_set_def isize_max_def ms_ok_def)

lemma solo_inputs_ok: "list_all (mm_input_ok solo_proposals D) solo_inputs"
  by (simp add: solo_inputs_def solo_ok(2))

lemma solo_request_for_kind: "mq_for_kind Reconfiguration 0 1 b (rg_config solo_registration) 0 = Some (solo_request b)"
  by (simp add: mq_for_kind_def mq_reconfigure_def solo_request_def purpose_is_reconfiguration_def)

lemma step_answer:
  assumes "mm_ok T D m" "match_request_ok T q"
  shows "\<exists>m'. mm_step m q = Some m' \<and> mp_outcome (last (mm_replies m')) = fst (mm_stepped m q) \<and> mm_ok T D m' \<and>
    mm_ledger m' = mm_ledger (snd (mm_stepped m q)) \<and> mm_gc m' = mm_gc (snd (mm_stepped m q)) \<and>
    (\<forall>g. judged m' g = judged (snd (mm_stepped m q)) g)"
proof -
  let ?m = "(snd (mm_stepped m q))\<lparr>mm_replies := mm_replies m @ [mm_reply m q (fst (mm_stepped m q))]\<rparr>"
  note step = mm_step_total[OF assms]
  note ev = mm_step_evolves[OF assms step]
  have "judged ?m g = judged (snd (mm_stepped m q)) g" for g by (rule judged_cong) (simp_all add: mm_phase_of_def)
  then show ?thesis using step evolvesD(1)[OF ev] by (simp add: mm_reply_def mm_ledger_def fun_eq_iff)
qed

lemma answer_decodes:
  "\<exists>p. page_decode (mm_answer m j cursor b) = Some (Inr p) \<and>
     pg_next_from_ballot p = page_next (lm_registry_page (mm_limits m)) (kept_records (window_of m j (page_from m j cursor) b))"
  by (simp add: mm_answer_def page_decode_def Let_def)

lemma solo_answered:
  obtains o1 o2 p1 p2 where "(solo_request (Ballot 1 1), o1) \<in> solo_answers" "page_decode o1 = Some (Inr p1)"
    "(solo_request (Ballot 2 1), o2) \<in> solo_answers" "page_decode o2 = Some (Inr p2)" "pg_next_from_ballot p2 = None"
proof -
  let ?m = "fresh_matchmaker solo_config limits_default" and ?q1 = "solo_request (Ballot 1 1)" and ?q2 = "solo_request (Ballot 2 1)"
  have q: "mq_purpose (solo_request b) = Purpose_Register Reconfiguration" "mq_journal (solo_request b) = 0" "mq_ballot (solo_request b) = b"
    "mq_generation (solo_request b) = 0" "mq_from_ballot (solo_request b) = None" for b by (simp_all add: solo_request_def)
  note ok = fresh_matchmaker_ok(1)[OF solo_ok(1), of solo_proposals "\<lambda>_ _. []"]
  have r1: "registers ?m ?q1 Reconfiguration" by (rule solo_registers)
  obtain m1 where m1: "mm_step ?m ?q1 = Some m1" "mp_outcome (last (mm_replies m1)) = fst (mm_stepped ?m ?q1)" "mm_ok solo_proposals (\<lambda>_ _. []) m1"
    "mm_ledger m1 = mm_ledger (snd (mm_stepped ?m ?q1))" "mm_gc m1 = mm_gc (snd (mm_stepped ?m ?q1))"
    "\<forall>g. judged m1 g = judged (snd (mm_stepped ?m ?q1)) g"
    using step_answer[OF ok solo_ok(2)[of "Ballot 1 1"]] by blast
  note a1 = registers_after[OF r1]
  have led: "mm_ledger m1 0 = fmupd (Ballot 1 1) \<lparr>rg_config = mq_config ?q1, rg_kind = Reconfiguration\<rparr> fmempty"
    using a1(1) m1(4) solo_serves(3) by (simp add: q)
  have "judged ?m 0 = None" using r1 by (simp add: registers_def q)
  then have r2: "registers m1 ?q2 Reconfiguration"
    using m1(5,6) a1(2,4) led solo_serves(4) by (simp add: registers_def q ballot_zero_def less_eq_ballot_def less_ballot_def)
  obtain m2 where m2: "mm_step m1 ?q2 = Some m2" "mp_outcome (last (mm_replies m2)) = fst (mm_stepped m1 ?q2)"
    using step_answer[OF m1(3) solo_ok(2)[of "Ballot 2 1"]] by blast
  have o1: "fst (mm_stepped ?m ?q1) = mm_answer ?m 0 None (Ballot 1 1)" using registers_outcome(2)[OF q(1) r1] by (simp add: q)
  have o2: "fst (mm_stepped m1 ?q2) = mm_answer m1 0 None (Ballot 2 1)" using registers_outcome(2)[OF q(1) r2] by (simp add: q)
  have "length (kept_records (window_of m1 0 (page_from m1 0 None) (Ballot 2 1))) \<le> 1"
    using kept_length[of "window_of m1 0 (page_from m1 0 None) (Ballot 2 1)"] window_length[of m1 0 "page_from m1 0 None" "Ballot 2 1"]
    by (simp add: led fm_len_fmupd)
  moreover have "0 < lm_registry_page (mm_limits m1)" using mm_okD(1)[OF m1(3)] by (simp add: limits_ok_def)
  ultimately have none: "page_next (lm_registry_page (mm_limits m1)) (kept_records (window_of m1 0 (page_from m1 0 None) (Ballot 2 1))) = None"
    by (simp add: page_next_def)
  have answers: "solo_answers = {(?q1, fst (mm_stepped ?m ?q1)), (?q2, fst (mm_stepped m1 ?q2))}"
    using m1(1,2) m2 by (simp add: answers_of_def fresh_matchmaker_ok(3)[OF solo_ok(1)] solo_inputs_def answer_of_def)
  obtain p1 where "page_decode (fst (mm_stepped ?m ?q1)) = Some (Inr p1)" unfolding o1 using answer_decodes by blast
  moreover obtain p2 where "page_decode (fst (mm_stepped m1 ?q2)) = Some (Inr p2)" "pg_next_from_ballot p2 = None"
    unfolding o2 using answer_decodes none by metis
  ultimately show thesis using that answers by blast
qed

lemma solo_start:
  obtains m where "candidate_reads A (solo_request b) Reconfiguration solo_set {(1, None)} m" "mk_unanswered m solo_set = Some [(1, None)]"
proof -
  obtain m where m: "mk_new (mq_ballot (solo_request b)) (mq_config (solo_request b)) Reconfiguration = Some m" by (simp add: mk_new_total(1))
  then have us: "mk_unanswered m solo_set = Some [(1, None)]" by (auto simp: mk_new_total(1) mk_unanswered_total ms_unanswered_def solo_set_ok(2))
  have "candidate_reads A (solo_request b) Reconfiguration solo_set (set [(1, None)]) m" by (rule candidate_reads.start[OF m us])
  then show thesis using us that by simp
qed

lemma solo_deployed:
  "\<forall>mm \<in> set (ms_members solo_set). deployment_ok solo_config limits_default \<and> list_all (mm_input_ok solo_proposals (\<lambda>_ _. [])) solo_inputs"
  by (simp add: solo_ok(1) solo_inputs_ok)

lemma solo_answered_below: "\<exists>cursor page. answered solo_answers 0 0 (Ballot 1 1) cursor page"
proof -
  obtain o1 o2 p1 p2 where "(solo_request (Ballot 1 1), o1) \<in> solo_answers" "page_decode o1 = Some (Inr p1)" by (rule solo_answered)
  then have "answered solo_answers 0 0 (Ballot 1 1) None p1"
    by (intro asked_answer[OF solo_request_for_kind, where answer = o1]) (simp_all add: request_at_def page_from_outcome_total)
  then show ?thesis by blast
qed

lemma solo_reads:
  assumes ex: "\<forall>mm \<in> set (ms_members solo_set). sealed_by T 0 0 b (m0 mm) (A mm) (L mm)"
    and a: "(solo_request b, answer) \<in> A 1" "page_decode answer = Some (Inr page)" "pg_next_from_ballot page = None"
  shows "\<exists>asked m. candidate_reads A (solo_request b) Reconfiguration solo_set asked m \<and> mk_quorum_held m solo_set = Some True"
proof -
  let ?q = "solo_request b"
  obtain m where m: "candidate_reads A ?q Reconfiguration solo_set {(1, None)} m" "mk_unanswered m solo_set = Some [(1, None)]"
    by (rule solo_start)
  have ans: "(request_at ?q None, answer) \<in> A 1" "page_from_outcome answer = Some (Some (Inr page))"
    using a by (simp_all add: request_at_def page_from_outcome_total)
  have "(1, None) \<in> set [(1, None)]" by simp
  note fold = awaited_folds_sealed[OF ex solo_request_for_kind m this ans]
  let ?m = "page_folded 1 page m"
  obtain us where us: "mk_unanswered ?m solo_set = Some us" by (simp add: mk_unanswered_total)
  have reads: "candidate_reads A ?q Reconfiguration solo_set ({(1, None)} \<union> set us) ?m"
    by (rule candidate_reads.deliver[OF m(1) _ ans fold(1) us]) simp_all
  have "mk_core ?m" using candidate_reads_ok[OF ex solo_request_for_kind reads] by (simp add: candidate_ok_def mk_ok_def)
  moreover have "ms_quorum solo_set (mk_registered_by ?m)" using a(3) by (simp add: ms_quorum_def solo_set_ok(2))
  ultimately have "mk_quorum_held ?m solo_set = Some True" using mk_quorum_held_total[OF _ solo_set_ok(3)] by simp
  with reads show ?thesis by blast
qed

lemma solo_campaign:
  obtains asked m where "candidate_reads (\<lambda>mm. solo_answers) (solo_request (Ballot 2 1)) Reconfiguration solo_set asked m" "mk_quorum_held m solo_set = Some True"
proof -
  obtain m0 L where ex: "\<forall>mm \<in> set (ms_members solo_set). sealed_by solo_proposals 0 0 (Ballot 2 1) (m0 mm) solo_answers (L mm)"
    using explained_all[OF solo_deployed] by blast
  obtain o1 o2 p1 p2 where "(solo_request (Ballot 2 1), o2) \<in> solo_answers" "page_decode o2 = Some (Inr p2)" "pg_next_from_ballot p2 = None" by (rule solo_answered)
  from solo_reads[OF ex this] show thesis using that by blast
qed

section \<open>Properties\<close>

text \<open>C9: a completed registration misses no completed round. Let the matchmakers of a generation each run
  from a fresh store over any inputs in which a ballot registers one configuration, and let a candidate fold
  their answers in any order until a quorum of them has answered it in full. Then its readings never panic,
  no two matchmakers disagreed, every configuration of \<open>H_b\<close> was registered at a ballot between the watermark
  and its own, and for every lower ballot that a quorum of the generation registered, either the watermark
  the candidate learned has passed it, or its configuration is in \<open>H_b\<close> and, if it was a reconfiguration, the
  effective configuration the candidate learned is at or above it.\<close>

theorem prior_misses_no_round:
  assumes "ms_new g members = Some s" "card (set members) \<le> isize_max"
    and deployed: "\<forall>mm \<in> set (ms_members s). deployment_ok (cfg mm) (l mm) \<and> list_all (mm_input_ok T D) (inputs mm)"
    and request: "mq_for_kind kind j from b config g = Some request"
    and reads: "candidate_reads (\<lambda>mm. answers_of (cfg mm) (l mm) (inputs mm)) request kind s asked m"
    and quorum: "mk_quorum_held m s = Some True"
    and lower: "b' < b" "finite Q" "ms_has_quorum s Q = Some True"
      "\<forall>mm \<in> Q \<inter> set (ms_members s). \<exists>cursor page. answered (answers_of (cfg mm) (l mm) (inputs mm)) j g b' cursor page"
  shows "\<exists>prior watermark effective. mk_prior m = Some prior \<and> mk_watermark' m = Some watermark \<and> mk_effective' m = Some effective \<and>
    mk_disagreements' m = Some 0 \<and> (\<forall>c \<in> set prior. \<exists>k. watermark \<le> k \<and> k < b \<and> c = rg_config (T j k)) \<and>
    (b' < watermark \<or> rg_config (T j b') \<in> set prior \<and>
       (kind_is_reconfiguration (rg_kind (T j b')) \<longrightarrow> (\<exists>k c. effective = Some (k, c) \<and> b' \<le> k)))"
proof -
  let ?A = "\<lambda>mm. answers_of (cfg mm) (l mm) (inputs mm)"
  have ms: "ms_ok s" using assms(1,2) by (rule ms_new_ok)
  obtain m0 L where ex: "\<forall>mm \<in> set (ms_members s). sealed_by T j g b (m0 mm) (?A mm) (L mm)" using explained_all[OF deployed] by blast
  have c: "candidate_ok (T j) b s (\<lambda>mm. pages_at (?A mm) j g b) L asked m" by (rule candidate_reads_ok[OF ex request reads])
  then have ok: "mk_ok m" "mk_core m" "union_agrees (T j) b m" "mk_registered_by m \<subseteq> set (ms_members s)" by (simp_all add: candidate_ok_def mk_ok_def)
  have "ms_quorum s (mk_registered_by m)" "ms_quorum s Q"
    using quorum lower(2,3) by (simp_all add: mk_quorum_held_total[OF ok(2) ms] ms_has_quorum_total[OF ms])
  then obtain mm where mm: "mm \<in> mk_registered_by m" "mm \<in> Q" using mmq.phases_meet[OF ms] by blast
  then have mem: "mm \<in> set (ms_members s)" using ok(4) by blast
  obtain prior where prior: "mk_prior m = Some prior"
    "\<forall>c. c \<in> set prior \<longleftrightarrow> (\<exists>k cs. mk_watermark m \<le> k \<and> fmlookup (mk_history m) k = Some cs \<and> c \<in> set cs)"
    and sound: "\<forall>c \<in> set prior. \<exists>k. mk_watermark m \<le> k \<and> k < b \<and> c = rg_config (T j k)"
    using candidate_prior[OF ok(3)] by blast
  note within = prior(2)[rule_format]
  have "reads_of (pages_at (?A mm) j g b) (L mm) m mm" using c mem by (simp add: candidate_ok_def)
  moreover obtain cursor page where "answered (?A mm) j g b' cursor page" using lower(4) mm(2) mem by blast
  ultimately have "b' < mk_watermark m \<or> accounted m None (L mm) (b', T j b')"
    by (rule lower_round_accounted[OF bspec[OF ex mem] _ mm(1) lower(1)])
  then have "b' < mk_watermark m \<or> rg_config (T j b') \<in> set prior \<and>
      (kind_is_reconfiguration (rg_kind (T j b')) \<longrightarrow> (\<exists>k c. mk_effective m = Some (k, c) \<and> b' \<le> k))"
    using accounted_prior[OF _ within] by blast
  then show ?thesis
    using prior(1) sound mk_readings_total[OF ok(1)] union_agrees_count[OF ok(3,2)] by auto
qed

theorem prior_misses_no_round_witness:
  "\<exists>asked m prior watermark. candidate_reads (\<lambda>mm. solo_answers) (solo_request (Ballot 2 1)) Reconfiguration solo_set asked m \<and>
    mk_quorum_held m solo_set = Some True \<and> mk_prior m = Some prior \<and> mk_watermark' m = Some watermark \<and>
    (Ballot 1 1 < watermark \<or> rg_config solo_registration \<in> set prior)"
proof -
  obtain asked m where m: "candidate_reads (\<lambda>mm. solo_answers) (solo_request (Ballot 2 1)) Reconfiguration solo_set asked m" "mk_quorum_held m solo_set = Some True"
    by (rule solo_campaign)
  have lower: "\<forall>mm \<in> {1} \<inter> set (ms_members solo_set). \<exists>cursor page. answered solo_answers 0 0 (Ballot 1 1) cursor page"
    using solo_answered_below by blast
  have q: "ms_has_quorum solo_set {1} = Some True"
    using ms_has_quorum_total[OF solo_set_ok(3), of "{1}"] by (simp add: ms_quorum_def solo_set_ok(2))
  from prior_misses_no_round[OF solo_set_ok(1) _ solo_deployed solo_request_for_kind m _ _ q lower]
  show ?thesis using m by (auto simp: isize_max_def less_ballot_def solo_proposals_def)
qed

text \<open>C10: a matchmaker that answers is heard. In any state of such a candidate, the answer to the page it is
  waiting for from a matchmaker folds without a panic and is never ignored: the matchmaker is counted, or its
  cursor moves strictly up and stays below the candidate's ballot.\<close>

theorem awaited_page_is_folded:
  assumes deployed: "\<forall>mm \<in> set (ms_members s). deployment_ok (cfg mm) (l mm) \<and> list_all (mm_input_ok T D) (inputs mm)"
    and request: "mq_for_kind kind j from b config g = Some request"
    and reads: "candidate_reads (\<lambda>mm. answers_of (cfg mm) (l mm) (inputs mm)) request kind s asked m"
    and awaited: "mk_unanswered m s = Some us" "(mm, cursor) \<in> set us"
    and answer: "(request_at request cursor, answer) \<in> answers_of (cfg mm) (l mm) (inputs mm)" "page_from_outcome answer = Some (Some (Inr page))"
  shows "\<exists>result m'. mk_fold m mm page = Some (result, m') \<and>
    (result = Fold_Registered \<and> mm \<in> mk_registered_by m' \<or>
     (\<exists>n. result = Fold_Paged n \<and> fmlookup (mk_page_next m') mm = Some n \<and> n < b \<and> (case cursor of None \<Rightarrow> True | Some c \<Rightarrow> c < n)))"
proof -
  have mm: "mm \<notin> mk_registered_by m" using awaited by (auto simp: mk_unanswered_total ms_unanswered_def)
  note fold = awaited_folds[OF assms]
  show ?thesis
    using fold(1-3) mm by (cases "pg_next_from_ballot page"; cases cursor) auto
qed

theorem awaited_page_is_folded_witness:
  "\<exists>m answer page result m'. candidate_reads (\<lambda>mm. solo_answers) (solo_request (Ballot 2 1)) Reconfiguration solo_set {(1, None)} m \<and>
    (solo_request (Ballot 2 1), answer) \<in> solo_answers \<and> page_from_outcome answer = Some (Some (Inr page)) \<and> mk_fold m 1 page = Some (result, m')"
proof -
  obtain m where m: "candidate_reads (\<lambda>mm. solo_answers) (solo_request (Ballot 2 1)) Reconfiguration solo_set {(1, None)} m"
    "mk_unanswered m solo_set = Some [(1, None)]" by (rule solo_start)
  obtain o1 o2 p1 p2 where a: "(solo_request (Ballot 2 1), o2) \<in> solo_answers" "page_decode o2 = Some (Inr p2)" by (rule solo_answered)
  then have ans: "(request_at (solo_request (Ballot 2 1)) None, o2) \<in> solo_answers" "page_from_outcome o2 = Some (Some (Inr p2))"
    by (simp_all add: request_at_def page_from_outcome_total)
  have "(1, None) \<in> set [(1, None)]" by simp
  from awaited_page_is_folded[OF solo_deployed solo_request_for_kind m this ans] show ?thesis using m(1) a(1) ans(2) by blast
qed

end
