(* ===== verification/Collector.thy ===== *)
theory Collector
  imports Matchmaker
begin

section \<open>The collection tally of a leadership\<close>

text \<open>
  \<^verbatim>\<open>paros-core/src/collector.rs\<close>: the tally by which a leader learns that its prior configurations are no
  longer needed. Region 1 asks that a Phase-2 quorum of its configuration has chosen everything up to the
  fence; the requests then go to the matchmakers of a generation, and the floor is effective once a quorum
  of them has acknowledged a watermark at or above the leader's ballot.
\<close>

datatype gc_step =
    Gc_Ignored
  | Gc_Acked nat
  | Gc_Frozen matchmaker_generation
  | Gc_Effective ballot "node_id list"

record collector =
  co_generation :: matchmaker_generation
  co_fence :: "slot option"
  co_prior_members :: "node_id set"
  co_prior :: "node_config list"
  co_peer_chosen :: "(node_id, slot) fmap"
  co_requested :: bool
  co_acked_by :: "matchmaker_id set"
  co_effective :: "(ballot \<times> node_id list) option"

definition co_assert_invariants :: "collector \<Rightarrow> unit option" where
  "co_assert_invariants c = do {
     (if co_effective c \<noteq> None then check (co_requested c) else Some ());
     (if \<not> co_requested c then check (co_acked_by c = {}) else Some ());
     (case co_effective c of None \<Rightarrow> Some ()
      | Some (_, retired) \<Rightarrow> check (list_all (\<lambda>n. n \<in> co_prior_members c) retired))
   }"

text \<open>Whether every member of a configuration is in a pool.\<close>

definition members_within :: "node_id set \<Rightarrow> node_config \<Rightarrow> bool option" where
  "members_within pool config = do { members \<leftarrow> ac_members' config; Some (list_all (\<lambda>m. m \<in> pool) members) }"

definition co_new :: "matchmaker_generation \<Rightarrow> slot option \<Rightarrow> node_config list \<Rightarrow> collector option" where
  "co_new generation fence prior = do {
     members \<leftarrow> try_map ac_members' prior;
     let c = \<lparr>co_generation = generation, co_fence = fence, co_prior_members = set (concat members),
        co_prior = fold (\<lambda>config kept. if config \<in> set kept then kept else kept @ [config]) prior [],
        co_peer_chosen = fmempty, co_requested = False, co_acked_by = {}, co_effective = None\<rparr>;
     named \<leftarrow> try_all (members_within (co_prior_members c)) prior;
     check named;
     check (co_peer_chosen c = fmempty);
     co_assert_invariants c;
     Some c
   }"

definition co_prior' :: "collector \<Rightarrow> node_config list option" where
  "co_prior' c = do {
     named \<leftarrow> try_all (members_within (co_prior_members c)) (co_prior c);
     check named;
     Some (co_prior c)
   }"

definition co_effective' :: "collector \<Rightarrow> (ballot \<times> node_id list) option option" where
  "co_effective' c = do {
     (if co_effective c \<noteq> None then do { check (co_requested c); check (co_acked_by c \<noteq> {}) } else Some ());
     Some (co_effective c)
   }"

definition co_unacked :: "collector \<Rightarrow> matchmaker_set \<Rightarrow> matchmaker_id list" where
  "co_unacked c matchmakers = ms_unanswered matchmakers (co_acked_by c)"

definition co_request :: "collector \<Rightarrow> collector option" where
  "co_request c = do {
     check (\<not> co_requested c);
     check (co_effective c = None);
     Some (c\<lparr>co_requested := True\<rparr>)
   }"

definition co_reset_for_generation :: "collector \<Rightarrow> matchmaker_generation \<Rightarrow> collector option" where
  "co_reset_for_generation c generation = do {
     let c = (if co_effective c = None \<and> co_generation c \<noteq> generation
              then c\<lparr>co_requested := False, co_acked_by := {}, co_generation := generation\<rparr> else c);
     (if co_effective c = None then check (co_generation c = generation) else Some ());
     co_assert_invariants c;
     Some c
   }"

definition co_note_chosen :: "collector \<Rightarrow> node_id \<Rightarrow> slot option \<Rightarrow> collector option" where
  "co_note_chosen c from chosen = do {
     let before = fmlookup (co_peer_chosen c) from;
     c \<leftarrow> (case chosen of None \<Rightarrow> Some c
       | Some chosen \<Rightarrow> do {
           let entry = max (case fmlookup (co_peer_chosen c) from of None \<Rightarrow> chosen | Some held \<Rightarrow> held) chosen;
           check (entry \<ge> chosen);
           Some (c\<lparr>co_peer_chosen := fmupd from entry (co_peer_chosen c)\<rparr>)
         });
     check (fmlookup (co_peer_chosen c) from \<ge> before);
     Some c
   }"

definition reached :: "slot option \<Rightarrow> slot option \<Rightarrow> bool" where
  "reached fence chosen = (case fence of None \<Rightarrow> True
     | Some fence \<Rightarrow> (case chosen of None \<Rightarrow> False | Some c \<Rightarrow> c \<ge> fence))"

definition co_covered :: "collector \<Rightarrow> node_config \<Rightarrow> (node_id \<times> slot option) option \<Rightarrow> bool option" where
  "co_covered c config own = do {
     let me = map_option fst own;
     (case me of None \<Rightarrow> Some ()
      | Some me \<Rightarrow> do { member \<leftarrow> ac_contains config me; check member });
     let holders = (case own of None \<Rightarrow> {} | Some (me, chosen) \<Rightarrow> if reached (co_fence c) chosen then {me} else {});
     config_members \<leftarrow> ac_members' config;
     let holders = holders \<union> set (filter (\<lambda>m. reached (co_fence c) (fmlookup (co_peer_chosen c) m))
        (filter (\<lambda>m. Some m \<noteq> me) config_members));
     members \<leftarrow> try_all (ac_contains config) (sorted_list_of_set holders);
     check members;
     ac_has_phase2_quorum config holders
   }"

definition co_fold_ack ::
  "collector \<Rightarrow> gc_ack \<Rightarrow> matchmaker_set \<Rightarrow> ballot \<Rightarrow> node_config \<Rightarrow> (gc_step \<times> collector) option" where
  "co_fold_ack c ack matchmakers ballot config = (
     let generation = ms_generation matchmakers in
     if \<not> co_requested c \<or> co_effective c \<noteq> None \<or> ga_generation ack \<noteq> generation \<or> co_generation c \<noteq> generation
     then Some (Gc_Ignored, c)
     else if ga_watermark ack < ballot then Some (Gc_Ignored, c)
     else if ga_matchmaker ack \<in> co_acked_by c then Some (Gc_Ignored, c)
     else do {
       let c = c\<lparr>co_acked_by := insert (ga_matchmaker ack) (co_acked_by c)\<rparr>;
       quorum \<leftarrow> ms_has_quorum matchmakers (co_acked_by c);
       if \<not> quorum then do { remaining \<leftarrow> ms_remaining matchmakers (co_acked_by c); Some (Gc_Acked remaining, c) }
       else do {
         retired \<leftarrow> try_fold (\<lambda>n retired. do { member \<leftarrow> ac_contains config n; Some (if member then retired else retired @ [n]) })
            (sorted_list_of_set (co_prior_members c)) [];
         members \<leftarrow> ac_members' config;
         check (list_all (\<lambda>m. m \<notin> set retired) members);
         check (ga_watermark ack \<ge> ballot);
         let c = c\<lparr>co_effective := Some (ballot, retired)\<rparr>;
         co_assert_invariants c;
         Some (Gc_Effective ballot retired, c)
       }
     })"

section \<open>What the tally guarantees\<close>

definition collector_ok :: "collector \<Rightarrow> bool" where
  "collector_ok c \<longleftrightarrow> finite (co_acked_by c) \<and> finite (co_prior_members c) \<and>
     (\<forall>config \<in> set (co_prior c). ac_members config \<noteq> [] \<and> set (ac_members config) \<subseteq> co_prior_members c) \<and>
     (co_effective c \<noteq> None \<longrightarrow> co_requested c \<and> co_acked_by c \<noteq> {}) \<and> (\<not> co_requested c \<longrightarrow> co_acked_by c = {}) \<and>
     (\<forall>b retired. co_effective c = Some (b, retired) \<longrightarrow> set retired \<subseteq> co_prior_members c)"

lemma co_assert_total [total_simps]: "collector_ok c \<Longrightarrow> co_assert_invariants c = Some ()"
  by (auto simp: collector_ok_def co_assert_invariants_def list_all_iff split: option.split)

lemma kept_once:
  "set (fold (\<lambda>config kept. if config \<in> set kept then kept else kept @ [config]) prior kept) = set prior \<union> set kept"
  by (induction prior arbitrary: kept) auto

lemma members_within_all:
  "\<forall>config \<in> set configs. ac_members config \<noteq> [] \<and> set (ac_members config) \<subseteq> pool \<Longrightarrow> try_all (members_within pool) configs = Some True"
  by (induction configs) (auto simp: members_within_def ac_members'_def list_all_iff)

lemma members_of_all: "\<forall>config \<in> set configs. ac_members config \<noteq> [] \<Longrightarrow> try_map ac_members' configs = Some (map ac_members configs)"
  by (induction configs) (auto simp: ac_members'_def)

lemma co_new_total [total_simps]:
  assumes "\<forall>config \<in> set prior. ac_members config \<noteq> []"
  shows "\<exists>c. co_new generation fence prior = Some c \<and> collector_ok c \<and> co_generation c = generation \<and> co_fence c = fence \<and> co_acked_by c = {} \<and>
     co_prior_members c = (\<Union>config \<in> set prior. set (ac_members config)) \<and> set (co_prior c) = set prior \<and> co_effective c = None \<and> \<not> co_requested c"
proof -
  have "try_all (members_within (\<Union>config \<in> set prior. set (ac_members config))) prior = Some True"
    using assms by (intro members_within_all) blast
  then show ?thesis
    using assms by (auto simp: co_new_def Let_def members_of_all[OF assms] kept_once collector_ok_def co_assert_invariants_def)
qed

lemma co_readings_total [total_simps]:
  assumes "collector_ok c"
  shows "co_prior' c = Some (co_prior c)" "co_effective' c = Some (co_effective c)"
  using assms members_within_all[of "co_prior c" "co_prior_members c"] by (auto simp: collector_ok_def co_prior'_def co_effective'_def)

lemma co_request_total [total_simps]:
  assumes "collector_ok c"
  shows "co_request c = (if co_requested c then None else Some (c\<lparr>co_requested := True\<rparr>))"
  using assms by (auto simp: collector_ok_def co_request_def)

lemma co_reset_total [total_simps]:
  assumes "collector_ok c"
  shows "co_reset_for_generation c g = Some (if co_effective c = None \<and> co_generation c \<noteq> g
      then c\<lparr>co_requested := False, co_acked_by := {}, co_generation := g\<rparr> else c)"
proof -
  have "collector_ok (c\<lparr>co_requested := False, co_acked_by := {}, co_generation := g\<rparr>)" if "co_effective c = None"
    using assms that by (auto simp: collector_ok_def)
  then show ?thesis using assms by (auto simp: co_reset_for_generation_def Let_def co_assert_total)
qed

lemma co_note_total [total_simps]:
  "co_note_chosen c n chosen = Some (case chosen of None \<Rightarrow> c
     | Some s \<Rightarrow> c\<lparr>co_peer_chosen := fmupd n (case fmlookup (co_peer_chosen c) n of None \<Rightarrow> s | Some held \<Rightarrow> max held s) (co_peer_chosen c)\<rparr>)"
  by (auto simp: co_note_chosen_def Let_def split: option.split)

lemma config_members_total: "config_ok config \<Longrightarrow> ac_members' config = Some (ac_members config)"
  using runs_over_nonempty by (fastforce simp: ac_members'_def config_ok_def)

text \<open>Region 1: the configuration has a Phase-2 quorum of members known to have chosen everything up to the fence.\<close>

lemma co_covered_total [total_simps]:
  assumes "config_ok config" and own: "\<And>me chosen. own = Some (me, chosen) \<Longrightarrow> me \<in> set (ac_members config)"
  shows "co_covered c config own = Some (config_phase2 config {m \<in> set (ac_members config).
    reached (co_fence c) (case own of Some (me, chosen) \<Rightarrow> if m = me then chosen else fmlookup (co_peer_chosen c) m | None \<Rightarrow> fmlookup (co_peer_chosen c) m)})"
proof -
  let ?H = "{m \<in> set (ac_members config). reached (co_fence c)
    (case own of Some (me, chosen) \<Rightarrow> if m = me then chosen else fmlookup (co_peer_chosen c) m | None \<Rightarrow> fmlookup (co_peer_chosen c) m)}"
  have fin: "finite ?H" by simp
  have holders: "(case own of None \<Rightarrow> {} | Some (me, chosen) \<Rightarrow> if reached (co_fence c) chosen then {me} else {}) \<union>
      set (filter (\<lambda>m. reached (co_fence c) (fmlookup (co_peer_chosen c) m)) (filter (\<lambda>m. Some m \<noteq> map_option fst own) (ac_members config))) = ?H"
    using own by (cases own) (auto split: if_splits)
  have "try_all (ac_contains config) (sorted_list_of_set ?H) = Some True"
    using fin by (subst try_all_total[OF ac_contains_total[OF assms(1)]]) auto
  moreover have "(case map_option fst own of None \<Rightarrow> Some () | Some me \<Rightarrow> do { member \<leftarrow> ac_contains config me; check member }) = Some ()"
    using own by (cases own) (auto simp: ac_contains_total[OF assms(1)])
  ultimately show ?thesis
    unfolding co_covered_def Let_def config_members_total[OF assms(1)] Option.bind_lunit holders using ac_has_phase2_quorum_total[OF assms(1) fin] by simp
qed

lemma outside_loop:
  assumes "config_ok config"
  shows "try_fold (\<lambda>n retired. do { member \<leftarrow> ac_contains config n; Some (if member then retired else retired @ [n]) }) ns acc =
    Some (acc @ filter (\<lambda>n. n \<notin> set (ac_members config)) ns)"
  by (induction ns arbitrary: acc) (simp_all add: ac_contains_total[OF assms])

text \<open>The acknowledgement that is counted, and what it leads to.\<close>

definition ack_counts :: "collector \<Rightarrow> gc_ack \<Rightarrow> matchmaker_set \<Rightarrow> ballot \<Rightarrow> bool" where
  "ack_counts c ack s b \<longleftrightarrow> co_requested c \<and> co_effective c = None \<and> ga_generation ack = ms_generation s \<and> co_generation c = ms_generation s \<and>
     b \<le> ga_watermark ack \<and> ga_matchmaker ack \<notin> co_acked_by c"

definition retired_by :: "collector \<Rightarrow> node_config \<Rightarrow> node_id list" where
  "retired_by c config = filter (\<lambda>n. n \<notin> set (ac_members config)) (sorted_list_of_set (co_prior_members c))"

lemma set_retired_by [simp]: "collector_ok c \<Longrightarrow> set (retired_by c config) = co_prior_members c - set (ac_members config)"
  by (auto simp: retired_by_def collector_ok_def)

definition acked_after :: "collector \<Rightarrow> gc_ack \<Rightarrow> matchmaker_set \<Rightarrow> ballot \<Rightarrow> node_config \<Rightarrow> gc_step \<times> collector" where
  "acked_after c ack s b config = (
     let acked = insert (ga_matchmaker ack) (co_acked_by c) in
     if \<not> ack_counts c ack s b then (Gc_Ignored, c)
     else if ms_quorum s acked then (Gc_Effective b (retired_by c config), c\<lparr>co_acked_by := acked, co_effective := Some (b, retired_by c config)\<rparr>)
     else (Gc_Acked (length (ms_members s) div 2 + 1 - card acked), c\<lparr>co_acked_by := acked\<rparr>))"

lemma acked_after_ok: "collector_ok c \<Longrightarrow> collector_ok (snd (acked_after c ack s b config))"
  by (auto simp: acked_after_def Let_def) (auto simp: collector_ok_def ack_counts_def retired_by_def)

lemma co_fold_ack_total [total_simps]:
  assumes "collector_ok c" "ms_ok s" "config_ok config"
  shows "co_fold_ack c ack s b config = Some (acked_after c ack s b config)"
proof -
  let ?c = "c\<lparr>co_acked_by := insert (ga_matchmaker ack) (co_acked_by c)\<rparr>"
  have fin: "finite (insert (ga_matchmaker ack) (co_acked_by c))" using assms(1) by (simp add: collector_ok_def)
  have inv: "co_assert_invariants (?c\<lparr>co_effective := Some (b, retired_by c config)\<rparr>) = Some ()" if "ack_counts c ack s b"
    using assms(1) that by (auto simp: co_assert_invariants_def collector_ok_def ack_counts_def list_all_iff retired_by_def)
  show ?thesis
    using inv assms(1) by (auto simp: co_fold_ack_def acked_after_def ack_counts_def Let_def ms_has_quorum_total[OF assms(2) fin]
      ms_remaining_total[OF assms(2) fin] outside_loop[OF assms(3)] config_members_total[OF assms(3)] retired_by_def list_all_iff)
qed

subsection \<open>Runs\<close>

datatype gc_event =
    Ge_Request
  | Ge_Reset matchmaker_generation
  | Ge_Chosen node_id "slot option"
  | Ge_Ack gc_ack matchmaker_set

fun co_feed :: "ballot \<Rightarrow> node_config \<Rightarrow> gc_event \<Rightarrow> collector \<Rightarrow> collector option" where
  "co_feed b config Ge_Request c = co_request c"
| "co_feed b config (Ge_Reset g) c = co_reset_for_generation c g"
| "co_feed b config (Ge_Chosen n chosen) c = co_note_chosen c n chosen"
| "co_feed b config (Ge_Ack ack s) c = do { (_, c) \<leftarrow> co_fold_ack c ack s b config; Some c }"

definition co_run :: "ballot \<Rightarrow> node_config \<Rightarrow> matchmaker_generation \<Rightarrow> slot option \<Rightarrow> node_config list \<Rightarrow> gc_event list \<Rightarrow> collector option" where
  "co_run b config g fence prior events = do { c \<leftarrow> co_new g fence prior; try_fold (co_feed b config) events c }"

text \<open>The sets of matchmakers a run judges its acknowledgements by are well formed.\<close>

definition sets_ok :: "gc_event list \<Rightarrow> bool" where
  "sets_ok = list_all (\<lambda>e. case e of Ge_Ack _ s \<Rightarrow> ms_ok s | _ \<Rightarrow> True)"

text \<open>What stands behind the tally: an acknowledgement of the tally's generation at or above the ballot for
  everyone counted, and a quorum of a set of that generation behind an effective floor.\<close>

definition gc_tally_ok :: "ballot \<Rightarrow> node_config \<Rightarrow> node_config list \<Rightarrow> gc_event list \<Rightarrow> collector \<Rightarrow> bool" where
  "gc_tally_ok b config prior events c \<longleftrightarrow> collector_ok c \<and> co_prior_members c = (\<Union>config \<in> set prior. set (ac_members config)) \<and>
     (\<forall>mm \<in> co_acked_by c. \<exists>ack s. Ge_Ack ack s \<in> set events \<and> ga_matchmaker ack = mm \<and> ga_generation ack = co_generation c \<and> b \<le> ga_watermark ack) \<and>
     (\<forall>x. co_effective c = Some x \<longrightarrow> x = (b, retired_by c config) \<and>
        (\<exists>ack s. Ge_Ack ack s \<in> set events \<and> ms_generation s = co_generation c \<and> ms_quorum s (co_acked_by c)))"

lemma gc_tally_okD:
  assumes "gc_tally_ok b config prior events c"
  shows "collector_ok c" "co_prior_members c = (\<Union>config \<in> set prior. set (ac_members config))"
    "mm \<in> co_acked_by c \<Longrightarrow> \<exists>ack s. Ge_Ack ack s \<in> set events \<and> ga_matchmaker ack = mm \<and> ga_generation ack = co_generation c \<and> b \<le> ga_watermark ack"
    "co_effective c = Some x \<Longrightarrow> x = (b, retired_by c config)"
    "co_effective c = Some x \<Longrightarrow> \<exists>ack s. Ge_Ack ack s \<in> set events \<and> ms_generation s = co_generation c \<and> ms_quorum s (co_acked_by c)"
  using assms unfolding gc_tally_ok_def by blast+

lemma gc_tally_feed:
  assumes t: "gc_tally_ok b config prior events c" and feed: "co_feed b config e c = Some c'" and config: "config_ok config"
    and e: "\<And>ack s. e = Ge_Ack ack s \<Longrightarrow> ms_ok s"
  shows "gc_tally_ok b config prior (events @ [e]) c'"
proof -
  note d = gc_tally_okD[OF t]
  have more: "gc_tally_ok b config prior (events @ [e]) c" using t by (fastforce simp: gc_tally_ok_def)
  show ?thesis
  proof (cases e)
    case Ge_Request
    then have c': "c' = c\<lparr>co_requested := True\<rparr>" "\<not> co_requested c" using feed d(1) by (auto simp: co_request_total split: if_splits)
    then have "collector_ok c'" "co_effective c = None" "co_acked_by c = {}" using d(1) by (auto simp: collector_ok_def)
    then show ?thesis using more c'(1) by (simp add: gc_tally_ok_def)
  next
    case (Ge_Reset g)
    show ?thesis
    proof (cases "co_effective c = None \<and> co_generation c \<noteq> g")
      case True
      then have c': "c' = c\<lparr>co_requested := False, co_acked_by := {}, co_generation := g\<rparr>" using feed Ge_Reset co_reset_total[OF d(1)] by simp
      then have "collector_ok c'" using d(1) True by (auto simp: collector_ok_def)
      then show ?thesis using d(2) c' True by (simp add: gc_tally_ok_def)
    next
      case False
      then have "c' = c" using feed Ge_Reset co_reset_total[OF d(1)] by auto
      then show ?thesis using more by simp
    qed
  next
    case (Ge_Chosen n chosen)
    have "gc_tally_ok b config prior es (c\<lparr>co_peer_chosen := m\<rparr>) = gc_tally_ok b config prior es c" for es m
      by (simp add: gc_tally_ok_def collector_ok_def retired_by_def)
    then show ?thesis using feed more Ge_Chosen by (auto simp: co_note_total split: option.splits)
  next
    case (Ge_Ack ack s)
    then have c': "c' = snd (acked_after c ack s b config)"
      using feed co_fold_ack_total[OF d(1) e[OF Ge_Ack] config, of ack b] by (simp add: case_prod_beta)
    show ?thesis
    proof (cases "ack_counts c ack s b")
      case False
      then show ?thesis using c' more by (simp add: acked_after_def)
    next
      case True
      let ?acked = "insert (ga_matchmaker ack) (co_acked_by c)"
      have ok: "collector_ok c'" using acked_after_ok[OF d(1)] c' by simp
      have c's: "co_acked_by c' = ?acked" "co_generation c' = co_generation c" "co_prior_members c' = co_prior_members c"
        "co_effective c' = (if ms_quorum s ?acked then Some (b, retired_by c config) else None)"
        using True by (auto simp: c' acked_after_def Let_def ack_counts_def)
      have mine: "Ge_Ack ack s \<in> set (events @ [e])" "ga_generation ack = co_generation c" "b \<le> ga_watermark ack" "ms_generation s = co_generation c"
        using True Ge_Ack by (auto simp: ack_counts_def)
      have "\<exists>ack s. Ge_Ack ack s \<in> set (events @ [e]) \<and> ga_matchmaker ack = mm \<and> ga_generation ack = co_generation c \<and> b \<le> ga_watermark ack"
        if "mm \<in> ?acked" for mm using that mine d(3)[of mm] by auto
      moreover have "retired_by c' config = retired_by c config" using c's(3) by (simp add: retired_by_def)
      ultimately show ?thesis
        unfolding gc_tally_ok_def c's using ok mine d(2) by auto
    qed
  qed
qed

lemma gc_tally_run:
  assumes "co_run b config g fence prior events = Some c" "config_ok config" "\<forall>config \<in> set prior. ac_members config \<noteq> []" "sets_ok events"
  shows "gc_tally_ok b config prior events c"
proof -
  obtain c0 where c0: "co_new g fence prior = Some c0" "gc_tally_ok b config prior [] c0"
    using co_new_total[OF assms(3), of g fence] by (auto simp: gc_tally_ok_def)
  have "try_fold (co_feed b config) events c0 = Some c \<Longrightarrow> sets_ok events \<Longrightarrow> gc_tally_ok b config prior events c" for c
  proof (induction events arbitrary: c rule: rev_induct)
    case Nil
    then show ?case using c0 by simp
  next
    case (snoc e events)
    then obtain c1 where c1: "try_fold (co_feed b config) events c0 = Some c1" "co_feed b config e c1 = Some c"
      by (auto simp: try_fold_append bind_Some_iff)
    have "gc_tally_ok b config prior events c1" using snoc.IH[OF c1(1)] snoc.prems(2) by (simp add: sets_ok_def)
    then show ?case by (rule gc_tally_feed[OF _ c1(2) assms(2)]) (use snoc.prems(2) in \<open>simp add: sets_ok_def\<close>)
  qed
  then show ?thesis using assms(1,4) c0(1) by (simp add: co_run_def)
qed

end
