(* ===== verification/Retirement.thy ===== *)
theory Retirement
  imports Prior_History Collector
begin

section \<open>The retirement of prior configurations\<close>

text \<open>
  Collection put together: the matchmakers of a generation run as in the theory \<open>Matchmaker_Runs\<close>, a leader
  folds their acknowledgements into its tally, and a candidate that registers afterwards reads their answers
  as in the theory \<open>Prior_History\<close>. Once the leader's floor is effective, no such candidate asks a configuration
  registered below it, so a node the floor retires is never needed again.
\<close>

subsection \<open>The acknowledgements of a run\<close>

definition ack_of :: "mm_input \<Rightarrow> matchmaker \<Rightarrow> gc_ack list" where
  "ack_of i m = (case i of
     In_Gc q \<Rightarrow> (case do { (outcome, m) \<leftarrow> advance_gc_watermark m (gq_journal q) (gq_generation q) (gq_watermark q); mm_gc_ack m q outcome } of
         None \<Rightarrow> [] | Some ack \<Rightarrow> [ack])
   | _ \<Rightarrow> [])"

fun mm_acks :: "mm_input list \<Rightarrow> matchmaker \<times> mem_registry \<Rightarrow> gc_ack list" where
  "mm_acks [] x = []"
| "mm_acks (i # inputs) x = ack_of i (fst x) @ (case mm_feed i x of None \<Rightarrow> [] | Some y \<Rightarrow> mm_acks inputs y)"

definition acks_of :: "matchmaker_config \<Rightarrow> limits \<Rightarrow> mm_input list \<Rightarrow> gc_ack set" where
  "acks_of cfg l inputs = (case mm_boot cfg fresh_store l of None \<Rightarrow> {} | Some m \<Rightarrow> set (mm_acks inputs (m, fresh_store)))"

text \<open>The answers of a matchmaker to the inputs that come after others.\<close>

definition answers_after :: "matchmaker_config \<Rightarrow> limits \<Rightarrow> mm_input list \<Rightarrow> mm_input list \<Rightarrow> (match_request \<times> match_outcome) set" where
  "answers_after cfg l before after = (case do { m \<leftarrow> mm_boot cfg fresh_store l; mm_run before (m, fresh_store) } of
     None \<Rightarrow> {} | Some x \<Rightarrow> set (mm_answers after x))"

lemma gc_ack_watermark: "mm_gc_ack m q out = Some ack \<Longrightarrow> ga_watermark ack = mm_gc m (ga_journal ack)"
  by (auto simp: mm_gc_ack_def Let_def bind_Some_iff)

lemma ack_of_watermark:
  assumes "mm_feed i (m, s) = Some (m', s')" "ack \<in> set (ack_of i m)"
  shows "ga_watermark ack = mm_gc m' (ga_journal ack)"
  using assms gc_ack_watermark by (cases i) (auto simp: ack_of_def bind_Some_iff split: option.splits)

lemma registry_after_gc: "registry_after m m' \<Longrightarrow> mm_gc m j \<le> mm_gc m' j"
  by (simp add: registry_after_def)

lemma ack_bounds_watermark:
  assumes "driven_ok T D (m, s)" "list_all (mm_input_ok T D) inputs" "mm_run inputs (m, s) = Some (m', s')" "ack \<in> set (mm_acks inputs (m, s))"
  shows "ga_watermark ack \<le> mm_gc m' (ga_journal ack)"
  using assms
proof (induction inputs arbitrary: m s)
  case (Cons i inputs)
  obtain m1 s1 where f: "mm_feed i (m, s) = Some (m1, s1)" "driven_ok T D (m1, s1)"
    using mm_feed_total[OF Cons.prems(1), of i] Cons.prems(2) by auto
  have rest: "mm_run inputs (m1, s1) = Some (m', s')" using Cons.prems(3) f(1) by (simp add: mm_run_def)
  have "registry_after m1 m'" using mm_run_total[OF f(2), of inputs] Cons.prems(2) rest by auto
  moreover have "ack \<in> set (ack_of i m) \<or> ack \<in> set (mm_acks inputs (m1, s1))" using Cons.prems(4) f(1) by auto
  ultimately show ?case
    using ack_of_watermark[OF f(1)] registry_after_gc Cons.IH[OF f(2) _ rest] Cons.prems(2) by auto
qed simp

subsection \<open>The answers that come after\<close>

lemma answer_watermark:
  assumes d: "driven_ok T D (m, s)" and i: "mm_input_ok T D i" and feed: "mm_feed i (m, s) = Some (m', s')"
    and a: "(q, answer) \<in> set (answer_of i m')" "page_decode answer = Some (Inr page)"
  shows "pg_gc_watermark page = mm_gc m (mq_journal q)"
proof -
  have iq: "i = In_Match q" "answer = mp_outcome (last (mm_replies m'))" using a(1) by (cases i; auto simp: answer_of_def)+
  then have q: "match_request_ok T q" and step: "mm_step m q = Some m'" using i feed by (auto simp: bind_Some_iff)
  have ok: "mm_ok T D m" by (rule driven_okD[OF d])
  have o': "answer = fst (mm_stepped m q)" using step iq(2) mm_step_total[OF ok q] by (auto simp: mm_reply_def)
  then obtain f h c w e where r: "fst (mm_stepped m q) = Match_Registered f h c w e" using a(2) by (cases "fst (mm_stepped m q)") (auto simp: page_decode_def)
  obtain kind where kind: "mq_purpose q = Purpose_Register kind"
    using r by (cases "mq_purpose q") (auto simp: mm_stepped_def split: option.splits)
  have "registers m q kind" using registers_outcome(1)[OF kind] r by blast
  then have "answer = mm_answer m (mq_journal q) (mq_from_ballot q) (mq_ballot q)" using registers_outcome(2)[OF kind] o' by simp
  then show ?thesis using a(2) by (auto simp: page_decode_def mm_answer_def Let_def)
qed

lemma answers_watermark:
  assumes "driven_ok T D (m, s)" "list_all (mm_input_ok T D) inputs" "(q, answer) \<in> set (mm_answers inputs (m, s))" "page_decode answer = Some (Inr page)"
  shows "mm_gc m (mq_journal q) \<le> pg_gc_watermark page"
  using assms
proof (induction inputs arbitrary: m s)
  case (Cons i inputs)
  obtain m1 s1 where f: "mm_feed i (m, s) = Some (m1, s1)" "driven_ok T D (m1, s1)" "registry_after m m1"
    using mm_feed_total[OF Cons.prems(1), of i] Cons.prems(2) by auto
  have "(q, answer) \<in> set (answer_of i m1) \<or> (q, answer) \<in> set (mm_answers inputs (m1, s1))" using Cons.prems(3) f(1) by auto
  then show ?case
  proof
    assume "(q, answer) \<in> set (answer_of i m1)"
    then show ?thesis using answer_watermark[OF Cons.prems(1) _ f(1) _ Cons.prems(4)] Cons.prems(2) by auto
  next
    assume "(q, answer) \<in> set (mm_answers inputs (m1, s1))"
    then have "mm_gc m1 (mq_journal q) \<le> pg_gc_watermark page" using Cons.IH[OF f(2)] Cons.prems(2,4) by simp
    with registry_after_gc[OF f(3)] show ?thesis by (rule order_trans)
  qed
qed simp

lemma after_run:
  assumes "deployment_ok cfg l" "list_all (mm_input_ok T D) before" "list_all (mm_input_ok T D) after"
  shows "\<exists>m s. driven_ok T D (m, s) \<and> answers_after cfg l before after = set (mm_answers after (m, s)) \<and>
    (\<forall>ack \<in> acks_of cfg l before. ga_watermark ack \<le> mm_gc m (ga_journal ack)) \<and>
    (\<exists>m' L. sealed_by T j g b m' (answers_after cfg l before after) L)"
proof -
  let ?m = "fresh_matchmaker cfg l"
  have d: "driven_ok T D (?m, fresh_store)" by (rule fresh_driven[OF assms(1)])
  obtain m s where run: "mm_run before (?m, fresh_store) = Some (m, s)" "driven_ok T D (m, s)" using mm_run_total[OF d assms(2)] by blast
  have boot: "mm_boot cfg fresh_store l = Some ?m" by (rule fresh_matchmaker_ok(3)[OF assms(1)])
  have ans: "answers_after cfg l before after = set (mm_answers after (m, s))" using boot run(1) by (simp add: answers_after_def)
  have acks: "ga_watermark ack \<le> mm_gc m (ga_journal ack)" if "ack \<in> acks_of cfg l before" for ack
    using that ack_bounds_watermark[OF d assms(2) run(1)] boot by (simp add: acks_of_def)
  have "sealed_by T j g b m {} (below b (mm_ledger m j))"
    using mm_ledger_agrees[OF driven_okD[OF run(2)], of j] below_dom by (intro sealed_byI) (auto simp: answered_def ledger_agrees_def)
  from sealed_run[OF this run(2) assms(3)] show ?thesis using run(2) ans acks by auto
qed

lemma acked_page_watermark:
  assumes "deployment_ok cfg l" "list_all (mm_input_ok T D) before" "list_all (mm_input_ok T D) after"
    and ack: "ack \<in> acks_of cfg l before" "ga_journal ack = j" and page: "page \<in> pages_at (answers_after cfg l before after) j g b"
  shows "ga_watermark ack \<le> pg_gc_watermark page"
proof -
  obtain m s where m: "driven_ok T D (m, s)" "answers_after cfg l before after = set (mm_answers after (m, s))"
    "\<forall>ack \<in> acks_of cfg l before. ga_watermark ack \<le> mm_gc m (ga_journal ack)" using after_run[OF assms(1-3)] by blast
  have "ga_watermark ack \<le> mm_gc m j" using m(3) ack by blast
  also have "mm_gc m j \<le> pg_gc_watermark page"
    using page answers_watermark[OF m(1) assms(3)] unfolding pages_at_def answered_def m(2) by blast
  finally show ?thesis .
qed

section \<open>Properties\<close>

text \<open>C11: a retired configuration is never asked again. Let the matchmakers of a generation each run from a
  fresh store over any inputs in which a ballot registers one configuration, let a leader at ballot \<open>b\<close> with a
  well-formed configuration fold their acknowledgements, and let its floor become effective. Then the nodes it
  retires are those of its prior configurations outside its own, and a candidate whose registration the
  matchmakers answer afterwards, in any order and until a quorum has answered in full, learns a watermark at
  or above \<open>b\<close> and prior configurations that were all registered at or above \<open>b\<close>: a retired node is asked only
  if such a later configuration names it.\<close>

theorem retired_nodes_are_not_asked:
  assumes ms: "ms_new g members = Some s" "card (set members) \<le> isize_max"
    and deployed: "\<forall>mm \<in> set (ms_members s). deployment_ok (cfg mm) (l mm) \<and> list_all (mm_input_ok T D) (before mm) \<and>
      list_all (mm_input_ok T D) (after mm)"
    and tally: "co_run b config g' fence prior events = Some c" "config_ok config" "\<forall>config \<in> set prior. ac_members config \<noteq> []"
    and acks: "\<forall>ack s'. Ge_Ack ack s' \<in> set events \<longrightarrow> s' = s \<and> ga_journal ack = j \<and> ack \<in> acks_of (cfg (ga_matchmaker ack)) (l (ga_matchmaker ack)) (before (ga_matchmaker ack))"
    and effective: "co_effective' c = Some (Some (b1, retired))"
    and request: "mq_for_kind kind j from b2 config2 g = Some request"
    and reads: "candidate_reads (\<lambda>mm. answers_after (cfg mm) (l mm) (before mm) (after mm)) request kind s asked m"
    and quorum: "mk_quorum_held m s = Some True"
  shows "b1 = b \<and> set retired = (\<Union>config \<in> set prior. set (ac_members config)) - set (ac_members config) \<and>
    (\<exists>prior2 watermark. mk_prior m = Some prior2 \<and> mk_watermark' m = Some watermark \<and> b \<le> watermark \<and>
      (\<forall>c2 \<in> set prior2. \<exists>k. b \<le> k \<and> k < b2 \<and> c2 = rg_config (T j k)) \<and>
      (\<forall>n \<in> set retired. (\<forall>k. b \<le> k \<and> k < b2 \<longrightarrow> n \<notin> set (ac_members (rg_config (T j k)))) \<longrightarrow> (\<forall>c2 \<in> set prior2. n \<notin> set (ac_members c2))))"
proof -
  let ?A = "\<lambda>mm. answers_after (cfg mm) (l mm) (before mm) (after mm)"
  have s: "ms_ok s" using ms by (rule ms_new_ok)
  have "sets_ok events" using acks s by (auto simp: sets_ok_def list_all_iff split: gc_event.split)
  then have t: "gc_tally_ok b config prior events c" using tally by (intro gc_tally_run)
  note td = gc_tally_okD[OF t]
  have e: "co_effective c = Some (b1, retired)" using effective co_readings_total(2)[OF td(1)] by simp
  have q: "ms_quorum s (co_acked_by c)" using td(5)[OF e] acks by blast
  have "\<forall>mm \<in> set (ms_members s). \<exists>m' L. sealed_by T j g b2 m' (?A mm) L" using after_run deployed by blast
  then obtain m0 L where ex: "\<forall>mm \<in> set (ms_members s). sealed_by T j g b2 (m0 mm) (?A mm) (L mm)" by metis
  have cand: "candidate_ok (T j) b2 s (\<lambda>mm. pages_at (?A mm) j g b2) L asked m" by (rule candidate_reads_ok[OF ex request reads])
  then have ok: "mk_ok m" "mk_core m" "union_agrees (T j) b2 m" "mk_registered_by m \<subseteq> set (ms_members s)" by (simp_all add: candidate_ok_def mk_ok_def)
  have "ms_quorum s (mk_registered_by m)" using quorum by (simp add: mk_quorum_held_total[OF ok(2) s])
  then obtain mm where mm: "mm \<in> mk_registered_by m" "mm \<in> co_acked_by c" using mmq.phases_meet[OF s] q by blast
  then have mem: "mm \<in> set (ms_members s)" using ok(4) by blast
  obtain ack s' where ack: "Ge_Ack ack s' \<in> set events" "ga_matchmaker ack = mm" "b \<le> ga_watermark ack" using td(3)[OF mm(2)] by blast
  have low: "b \<le> pg_gc_watermark page" if "page \<in> pages_at (?A mm) j g b2" for page
    using order_trans[OF ack(3) acked_page_watermark[OF _ _ _ _ _ that]] deployed mem acks ack(1,2) by blast
  have "reads_of (pages_at (?A mm) j g b2) (L mm) m mm" using cand mem by (simp add: candidate_ok_def)
  then obtain page where "page \<in> pages_at (?A mm) j g b2" "pg_gc_watermark page \<le> mk_watermark m" using mm(1) unfolding reads_of_def by blast
  then have w: "b \<le> mk_watermark m" using low order_trans by blast
  obtain prior2 where p2: "mk_prior m = Some prior2" "\<forall>c2 \<in> set prior2. \<exists>k. mk_watermark m \<le> k \<and> k < b2 \<and> c2 = rg_config (T j k)"
    using candidate_prior[OF ok(3)] by blast
  then have above: "\<forall>c2 \<in> set prior2. \<exists>k. b \<le> k \<and> k < b2 \<and> c2 = rg_config (T j k)" using w order_trans by blast
  have "b1 = b" "retired = retired_by c config" using td(4)[OF e] by simp_all
  then have r: "b1 = b" "set retired = (\<Union>config \<in> set prior. set (ac_members config)) - set (ac_members config)" using td(1,2) by simp_all
  have w': "mk_watermark' m = Some (mk_watermark m)" using mk_readings_total[OF ok(1)] by simp
  have away: "n \<notin> set (ac_members c2)" if n: "\<forall>k. b \<le> k \<and> k < b2 \<longrightarrow> n \<notin> set (ac_members (rg_config (T j k)))" and c2: "c2 \<in> set prior2" for n c2
  proof -
    obtain k where "b \<le> k \<and> k < b2" "c2 = rg_config (T j k)" using bspec[OF above c2] by (elim exE conjE) simp
    then show ?thesis using n by simp
  qed
  have "\<forall>n \<in> set retired. (\<forall>k. b \<le> k \<and> k < b2 \<longrightarrow> n \<notin> set (ac_members (rg_config (T j k)))) \<longrightarrow> (\<forall>c2 \<in> set prior2. n \<notin> set (ac_members c2))"
    by (intro ballI impI) (rule away)
  then show ?thesis by (intro conjI exI[of _ prior2] exI[of _ "mk_watermark m"] r p2(1) w' w above)
qed

definition collect_request :: gc_request where
  "collect_request = \<lparr>gq_from = 1, gq_journal = 0, gq_generation = 0, gq_watermark = Ballot 1 1\<rparr>"

definition collect_ack :: gc_ack where
  "collect_ack = \<lparr>ga_matchmaker = 1, ga_journal = 0, ga_generation = 0, ga_applied = True, ga_watermark = Ballot 1 1, ga_newer = None, ga_stopped = False\<rparr>"

definition pair_config :: node_config where
  "pair_config = (rg_config solo_registration)\<lparr>ac_members := [1, 2]\<rparr>"

lemma collect_feed:
  defines "m \<equiv> fresh_matchmaker solo_config limits_default"
  shows "mm_feed (In_Gc collect_request) (m, fresh_store) = Some (mm_collected m 0 (Ballot 1 1), fresh_store)"
    "ack_of (In_Gc collect_request) m = [collect_ack]"
proof -
  have ok: "mm_ok solo_proposals (\<lambda>_ _. []) m" unfolding m_def by (rule fresh_matchmaker_ok(1)[OF solo_ok(1)])
  have "gc_result m 0 0 (Ballot 1 1) = (Gc_Raised, mm_collected m 0 (Ballot 1 1))"
    using solo_serves[of limits_default] by (simp add: gc_result_def m_def judged_None ballot_zero_def less_eq_ballot_def)
  then have adv: "advance_gc_watermark m 0 0 (Ballot 1 1) = Some (Gc_Raised, mm_collected m 0 (Ballot 1 1))" by (simp add: advance_gc_total[OF ok])
  have ack: "mm_gc_ack (mm_collected m 0 (Ballot 1 1)) collect_request Gc_Raised = Some collect_ack"
    using mm_gc_collected[of m 0 "Ballot 1 1" 0]
    by (simp add: mm_gc_ack_def collect_request_def collect_ack_def mm_collected_def m_def fresh_matchmaker_def solo_config_def Let_def)
  show "mm_feed (In_Gc collect_request) (m, fresh_store) = Some (mm_collected m 0 (Ballot 1 1), fresh_store)"
    "ack_of (In_Gc collect_request) m = [collect_ack]"
    using adv ack by (simp_all add: ack_of_def collect_request_def)
qed

lemma collect_answer:
  "\<exists>answer page. (solo_request (Ballot 2 1), answer) \<in> answers_after solo_config limits_default [In_Gc collect_request] [In_Match (solo_request (Ballot 2 1))] \<and>
     page_decode answer = Some (Inr page) \<and> pg_next_from_ballot page = None"
proof -
  let ?m = "fresh_matchmaker solo_config limits_default" and ?q = "solo_request (Ballot 2 1)"
  let ?m1 = "mm_collected ?m 0 (Ballot 1 1)"
  note ok = mm_ok_collected[OF fresh_matchmaker_ok(1)[OF solo_ok(1), of solo_proposals "\<lambda>_ _. []"], of 0 "Ballot 1 1"]
  have led: "mm_ledger ?m1 0 = fmempty" using solo_serves(3)[of limits_default 0] by (simp add: mm_ledger_collected fm_from_def)
  have "judged ?m1 0 = judged ?m 0" by (rule judged_cong) (simp_all add: mm_collected_def mm_phase_of_def)
  then have "judged ?m1 0 = None" using solo_serves(1,2) by (simp add: judged_None)
  then have r: "registers ?m1 ?q Reconfiguration"
    using led mm_gc_collected[of ?m 0 "Ballot 1 1" 0] by (simp add: registers_def solo_request_def less_eq_ballot_def)
  have p: "mq_purpose ?q = Purpose_Register Reconfiguration" by (simp add: solo_request_def)
  obtain m2 where m2: "mm_step ?m1 ?q = Some m2" "mp_outcome (last (mm_replies m2)) = fst (mm_stepped ?m1 ?q)"
    using step_answer[OF ok solo_ok(2)[of "Ballot 2 1"]] by blast
  have "answers_after solo_config limits_default [In_Gc collect_request] [In_Match ?q] = {(?q, fst (mm_stepped ?m1 ?q))}"
    using m2 by (simp add: answers_after_def fresh_matchmaker_ok(3)[OF solo_ok(1)] mm_run_def answer_of_def collect_feed(1) del: mm_feed.simps(2) One_nat_def)
  moreover have "fst (mm_stepped ?m1 ?q) = mm_answer ?m1 0 None (Ballot 2 1)" using registers_outcome(2)[OF p r] by (simp add: solo_request_def)
  moreover have "kept_records (window_of ?m1 0 (page_from ?m1 0 None) (Ballot 2 1)) = []"
    using kept_length[of "window_of ?m1 0 (page_from ?m1 0 None) (Ballot 2 1)"] window_length[of ?m1 0 "page_from ?m1 0 None" "Ballot 2 1"]
    by (simp add: led del: One_nat_def)
  ultimately show ?thesis using answer_decodes[of ?m1 0 None "Ballot 2 1"] by (auto simp: page_next_def)
qed

lemma solo_config_ok: "config_ok (rg_config solo_registration)"
  by (simp add: solo_registration_def config_ok_def members_ok_def u64_max_def)

lemma collect_tally:
  "\<exists>c. co_run (Ballot 1 1) (rg_config solo_registration) 0 None [pair_config] [Ge_Request, Ge_Ack collect_ack solo_set] = Some c \<and>
     co_effective' c = Some (Some (Ballot 1 1, [2]))"
proof -
  have ne: "\<forall>config \<in> set [pair_config]. ac_members config \<noteq> []" by (simp add: pair_config_def)
  obtain c where c: "co_new 0 None [pair_config] = Some c" "collector_ok c" "co_generation c = 0" "co_acked_by c = {}"
    "co_prior_members c = {1, 2}" "co_effective c = None" "\<not> co_requested c"
    using co_new_total[OF ne, of 0 None] by (auto simp: pair_config_def)
  let ?c = "c\<lparr>co_requested := True\<rparr>"
  have ok: "collector_ok ?c" using c(2,6,7) by (simp add: collector_ok_def)
  have "ms_quorum solo_set {1}" "ms_generation solo_set = 0" by (simp_all add: ms_quorum_def solo_set_def)
  moreover have "retired_by ?c (rg_config solo_registration) = [2]" using c(5) by (simp add: retired_by_def solo_registration_def)
  ultimately have a: "acked_after ?c collect_ack solo_set (Ballot 1 1) (rg_config solo_registration) =
      (Gc_Effective (Ballot 1 1) [2], ?c\<lparr>co_acked_by := {1}, co_effective := Some (Ballot 1 1, [2])\<rparr>)"
    using c(3,4,6) by (simp add: acked_after_def ack_counts_def collect_ack_def)
  have "collector_ok (?c\<lparr>co_acked_by := {1}, co_effective := Some (Ballot 1 1, [2])\<rparr>)"
    using acked_after_ok[OF ok, of collect_ack solo_set "Ballot 1 1" "rg_config solo_registration"] unfolding a by simp
  then show ?thesis
    using c(1,7) a co_request_total[OF c(2)] co_fold_ack_total[OF ok solo_set_ok(3) solo_config_ok] co_readings_total(2)
    by (fastforce simp: co_run_def)
qed

theorem retired_nodes_are_not_asked_witness:
  "\<exists>c asked m prior2. co_run (Ballot 1 1) (rg_config solo_registration) 0 None [pair_config] [Ge_Request, Ge_Ack collect_ack solo_set] = Some c \<and>
     co_effective' c = Some (Some (Ballot 1 1, [2])) \<and>
     candidate_reads (\<lambda>mm. answers_after solo_config limits_default [In_Gc collect_request] [In_Match (solo_request (Ballot 2 1))])
       (solo_request (Ballot 2 1)) Reconfiguration solo_set asked m \<and>
     mk_quorum_held m solo_set = Some True \<and> mk_prior m = Some prior2 \<and> (\<forall>c2 \<in> set prior2. 2 \<notin> set (ac_members c2))"
proof -
  let ?before = "[In_Gc collect_request]" and ?after = "[In_Match (solo_request (Ballot 2 1))]"
  have dep: "\<forall>mm \<in> set (ms_members solo_set). deployment_ok solo_config limits_default \<and>
      list_all (mm_input_ok solo_proposals (\<lambda>_ _. [])) ?before \<and> list_all (mm_input_ok solo_proposals (\<lambda>_ _. [])) ?after"
    by (simp add: solo_ok)
  then obtain m' L where "\<forall>mm \<in> set (ms_members solo_set). sealed_by solo_proposals 0 0 (Ballot 2 1) m' (answers_after solo_config limits_default ?before ?after) L"
    using after_run[OF solo_ok(1), of solo_proposals "\<lambda>_ _. []" ?before ?after 0 0 "Ballot 2 1"] by (auto simp: solo_ok)
  then obtain asked m where m: "candidate_reads (\<lambda>mm. answers_after solo_config limits_default ?before ?after) (solo_request (Ballot 2 1)) Reconfiguration solo_set asked m"
    "mk_quorum_held m solo_set = Some True"
    using collect_answer solo_reads[of solo_proposals "Ballot 2 1" "\<lambda>_. m'" "\<lambda>_. answers_after solo_config limits_default ?before ?after" "\<lambda>_. L"] by blast
  obtain c where c: "co_run (Ballot 1 1) (rg_config solo_registration) 0 None [pair_config] [Ge_Request, Ge_Ack collect_ack solo_set] = Some c"
    "co_effective' c = Some (Some (Ballot 1 1, [2]))" using collect_tally by blast
  have "collect_ack \<in> acks_of solo_config limits_default ?before"
    using collect_feed by (simp add: acks_of_def fresh_matchmaker_ok(3)[OF solo_ok(1)])
  then have acks: "\<forall>ack s'. Ge_Ack ack s' \<in> set [Ge_Request, Ge_Ack collect_ack solo_set] \<longrightarrow> s' = solo_set \<and> ga_journal ack = 0 \<and> ack \<in> acks_of solo_config limits_default ?before"
    by (simp add: collect_ack_def)
  have "\<forall>config \<in> set [pair_config]. ac_members config \<noteq> []" by (simp add: pair_config_def)
  from retired_nodes_are_not_asked[OF solo_set_ok(1) _ dep c(1) solo_config_ok this acks c(2) solo_request_for_kind m]
  obtain prior2 where p: "mk_prior m = Some prior2" "\<forall>n \<in> set [2]. (\<forall>k. Ballot 1 1 \<le> k \<and> k < Ballot 2 1 \<longrightarrow> n \<notin> set (ac_members (rg_config (solo_proposals 0 k)))) \<longrightarrow>
    (\<forall>c2 \<in> set prior2. n \<notin> set (ac_members c2))" by (auto simp: isize_max_def)
  have "2 \<notin> set (ac_members (rg_config (solo_proposals 0 k)))" for k by (simp add: solo_proposals_def solo_registration_def)
  then show ?thesis using c m p by auto
qed

end
