(* ===== verification/Quorum_Read.thy ===== *)
theory Quorum_Read
  imports Acceptor_Config
begin

section \<open>Quorum reads\<close>

text \<open>
  \<^verbatim>\<open>paros-core/src/quorum_read.rs\<close>: a reader asks the members of a Phase-1 quorum for their vote watermarks
  and serves the read once the journal is applied up to the highest of them. The identity of a member is a
  type parameter, and the test that an index is applied is the argument \<open>covered\<close> of \<open>reads_serve\<close>.
\<close>

record 'id read_basis =
  rb_config :: "'id acceptor_config"
  rb_since :: ballot
  rb_fence :: "slot option"

datatype pre_read_fold = Pre_Ignored | Pre_Counted | Pre_Superseded

datatype read_stage = Tallying | Confirmed "slot option"

record 'id quorum_read =
  qr_ctx :: nat
  qr_row :: "nat option"
  qr_config :: "'id acceptor_config"
  qr_config_since :: ballot
  qr_fence :: "slot option"
  qr_watermarks :: "('id, slot option) fmap"
  qr_created_tick :: nat
  qr_stage :: read_stage

subsection \<open>One read\<close>

definition qr_ctx' :: "'id quorum_read \<Rightarrow> nat option" where
  "qr_ctx' r = do { check (ac_admits_read_row (qr_config r) (qr_row r)); Some (qr_ctx r) }"

definition qr_row' :: "'id quorum_read \<Rightarrow> nat option option" where
  "qr_row' r = do { check (ac_admits_read_row (qr_config r) (qr_row r)); Some (qr_row r) }"

definition qr_config' :: "'id::linorder quorum_read \<Rightarrow> 'id acceptor_config option" where
  "qr_config' r = do {
     well_formed \<leftarrow> ac_is_well_formed (qr_config r);
     check well_formed;
     Some (qr_config r)
   }"

definition qr_watermarks' :: "'id::linorder quorum_read \<Rightarrow> ('id, slot option) fmap option" where
  "qr_watermarks' r = do {
     addressed \<leftarrow> try_all (\<lambda>id. ac_is_phase1_addressee (qr_config r) id (qr_row r)) (fm_keys (qr_watermarks r));
     check addressed;
     Some (qr_watermarks r)
   }"

definition qr_max_watermark :: "'id::linorder quorum_read \<Rightarrow> slot option option" where
  "qr_max_watermark r = do {
     let ws = map snd (fm_entries (qr_watermarks r));
     let max = iter_max (flatten_opts ws);
     check (list_all (\<lambda>w. w \<le> max) ws);
     Some max
   }"

definition qr_confirmed_index :: "'id::linorder quorum_read \<Rightarrow> slot option option option" where
  "qr_confirmed_index r = do {
     let confirmed = (case qr_stage r of Tallying \<Rightarrow> None | Confirmed index \<Rightarrow> Some index);
     (case confirmed of None \<Rightarrow> Some ()
      | Some index \<Rightarrow> do { max \<leftarrow> qr_max_watermark r; check (index = max) });
     Some confirmed
   }"

subsection \<open>The reads in flight\<close>

record 'id quorum_reads =
  qs_reads :: "'id quorum_read list"

definition reads_new :: "'id quorum_reads" where
  "reads_new = \<lparr>qs_reads = []\<rparr>"

definition reads_pending :: "'id quorum_reads \<Rightarrow> 'id quorum_read list option" where
  "reads_pending s = do {
     check (list_all (\<lambda>i. list_all (\<lambda>other. qr_ctx other \<noteq> qr_ctx (qs_reads s ! i)) (take i (qs_reads s))) [0..<length (qs_reads s)]);
     Some (qs_reads s)
   }"

definition reads_is_empty :: "'id quorum_reads \<Rightarrow> bool" where
  "reads_is_empty s \<longleftrightarrow> qs_reads s = []"

definition reads_open ::
  "'id::linorder quorum_reads \<Rightarrow> nat \<Rightarrow> nat option \<Rightarrow> 'id read_basis \<Rightarrow> nat \<Rightarrow> ('id \<times> slot option) option \<Rightarrow>
   ('id list \<times> 'id quorum_reads) option" where
  "reads_open s ctx row basis created_tick own = do {
     let config = rb_config basis;
     check (list_all (\<lambda>r. qr_ctx r \<noteq> ctx) (qs_reads s));
     check (ac_admits_read_row config row);
     addressees \<leftarrow> ac_phase1_addressees config row;
     (watermarks, addressees) \<leftarrow> (case own of
         None \<Rightarrow> Some (fmempty, addressees)
       | Some (me, watermark) \<Rightarrow> do {
           mine \<leftarrow> ac_is_phase1_addressee config me row;
           check mine;
           Some (fmupd me watermark fmempty, filter (\<lambda>id. id \<noteq> me) addressees)
         });
     let opened = length (qs_reads s);
     let s = s\<lparr>qs_reads := qs_reads s @ [\<lparr>qr_ctx = ctx, qr_row = row, qr_config = config, qr_config_since = rb_since basis,
        qr_fence = rb_fence basis, qr_watermarks = watermarks, qr_created_tick = created_tick, qr_stage = Tallying\<rparr>]\<rparr>;
     (case own of None \<Rightarrow> Some () | Some (me, _) \<Rightarrow> check (me \<notin> set addressees));
     check (length (qs_reads s) = opened + 1);
     Some (addressees, s)
   }"

text \<open>The position of the read of a token.\<close>

fun read_position :: "nat \<Rightarrow> 'id quorum_read list \<Rightarrow> nat option" where
  "read_position ctx [] = None"
| "read_position ctx (r # rs) = (if qr_ctx r = ctx then Some 0 else map_option Suc (read_position ctx rs))"

definition reads_fold ::
  "'id::linorder quorum_reads \<Rightarrow> nat \<Rightarrow> 'id \<Rightarrow> slot option \<Rightarrow> ballot option \<Rightarrow> (pre_read_fold \<times> 'id quorum_reads) option" where
  "reads_fold s ctx from watermark config_since = (case read_position ctx (qs_reads s) of
       None \<Rightarrow> Some (Pre_Ignored, s)
     | Some position \<Rightarrow> do {
         let read = qs_reads s ! position;
         addressed \<leftarrow> ac_is_phase1_addressee (qr_config read) from (qr_row read);
         if \<not> addressed then Some (Pre_Ignored, s)
         else if (case config_since of None \<Rightarrow> False | Some since \<Rightarrow> since > qr_config_since read)
         then Some (Pre_Superseded, s\<lparr>qs_reads := take position (qs_reads s) @ drop (Suc position) (qs_reads s)\<rparr>)
         else if qr_stage read \<noteq> Tallying \<or> fmlookup (qr_watermarks read) from \<noteq> None then Some (Pre_Ignored, s)
         else do {
           let read = read\<lparr>qr_watermarks := fmupd from watermark (qr_watermarks read)\<rparr>;
           check (fmlookup (qr_watermarks read) from = Some watermark);
           check (qr_stage read = Tallying);
           Some (Pre_Counted, s\<lparr>qs_reads := (qs_reads s)[position := read]\<rparr>)
         }
       })"

definition reads_abandon_superseded :: "'id quorum_reads \<Rightarrow> ballot \<Rightarrow> 'id quorum_reads option" where
  "reads_abandon_superseded s config_since = do {
     let s = s\<lparr>qs_reads := filter (\<lambda>r. qr_config_since r \<ge> config_since) (qs_reads s)\<rparr>;
     check (list_all (\<lambda>r. qr_config_since r \<ge> config_since) (qs_reads s));
     Some s
   }"

text \<open>The verdict on one read: it stays, with the stage it has reached, or it is served.\<close>

definition read_confirm :: "'id::linorder quorum_read \<Rightarrow> 'id quorum_read option" where
  "read_confirm r = (case qr_stage r of
       Confirmed _ \<Rightarrow> Some r
     | Tallying \<Rightarrow> do {
         let answered = fmdom' (qr_watermarks r);
         quorum \<leftarrow> ac_has_phase1_quorum_in (qr_config r) answered (qr_row r);
         if \<not> quorum then Some r
         else do {
           addressed \<leftarrow> try_all (\<lambda>id. ac_is_phase1_addressee (qr_config r) id (qr_row r)) (fm_keys (qr_watermarks r));
           check addressed;
           index \<leftarrow> qr_max_watermark r;
           Some (r\<lparr>qr_stage := Confirmed index\<rparr>)
         }
       })"

definition read_served :: "(slot option \<Rightarrow> bool) \<Rightarrow> 'id quorum_read \<Rightarrow> (nat \<times> slot option) option option" where
  "read_served covered r = (case qr_stage r of
       Tallying \<Rightarrow> Some None
     | Confirmed index \<Rightarrow> do {
         let index = max index (qr_fence r);
         check (index \<ge> qr_fence r);
         Some (if covered index then Some (qr_ctx r, index) else None)
       })"

definition reads_serve ::
  "'id::linorder quorum_reads \<Rightarrow> (slot option \<Rightarrow> bool) \<Rightarrow> ((nat \<times> slot option) list \<times> 'id quorum_reads) option" where
  "reads_serve s covered = do {
     (kept, served) \<leftarrow> try_fold (\<lambda>r (kept, served). do {
         r \<leftarrow> read_confirm r;
         answer \<leftarrow> read_served covered r;
         Some (case answer of None \<Rightarrow> (kept @ [r], served) | Some index \<Rightarrow> (kept, served @ [index]))
       }) (qs_reads s) ([], []);
     let s = s\<lparr>qs_reads := kept\<rparr>;
     check (list_all (\<lambda>(ctx, _). list_all (\<lambda>r. qr_ctx r \<noteq> ctx) (qs_reads s)) served);
     Some (served, s)
   }"

definition reads_expire :: "'id quorum_reads \<Rightarrow> nat \<Rightarrow> nat \<Rightarrow> 'id quorum_reads option" where
  "reads_expire s now ttl = do {
     let s = s\<lparr>qs_reads := filter (\<lambda>r. now - qr_created_tick r \<le> ttl) (qs_reads s)\<rparr>;
     check (list_all (\<lambda>r. now - qr_created_tick r \<le> ttl) (qs_reads s));
     check (list_all (\<lambda>r. qr_created_tick r \<le> now) (qs_reads s));
     Some s
   }"

record read_state =
  rs_ctx :: nat
  rs_index :: "slot option"

section \<open>What a quorum read guarantees\<close>

lemma iter_max_upper: "w \<in> set ws \<Longrightarrow> w \<le> iter_max (flatten_opts ws)"
proof (induction ws)
  case (Cons x xs)
  then show ?case unfolding iter_max_flatten by (auto simp: le_max_iff_disj)
qed simp

definition max_reported :: "'id::linorder quorum_read \<Rightarrow> slot option" where
  "max_reported r = iter_max (flatten_opts (map snd (fm_entries (qr_watermarks r))))"

lemma max_watermark_total [total_simps]: "qr_max_watermark r = Some (max_reported r)"
  using iter_max_upper[of _ "map snd (fm_entries (qr_watermarks r))"]
  by (simp add: qr_max_watermark_def max_reported_def Let_def list_all_iff del: set_map)

lemma max_reported_upper: "fmlookup (qr_watermarks r) n = Some w \<Longrightarrow> w \<le> max_reported r"
  unfolding max_reported_def by (rule iter_max_upper) (simp, rule image_eqI[of _ _ "(n, w)"], simp_all)

lemma admits_names_cell: "ac_admits_read_row c row \<Longrightarrow> names_cell (ac_quorum_system c) row"
  by (cases "ac_quorum_system c"; cases row) (auto simp: ac_admits_read_row_def)

text \<open>The members a read addresses.\<close>

definition addressed :: "'id::linorder acceptor_config \<Rightarrow> nat option \<Rightarrow> 'id set" where
  "addressed c row = {n. ac_is_phase1_addressee c n row = Some True}"

lemma addressed_total:
  assumes "config_ok c" "ac_admits_read_row c row"
  shows "ac_is_phase1_addressee c n row = Some (n \<in> addressed c row)"
    "\<exists>to. ac_phase1_addressees c row = Some to \<and> set to = addressed c row"
  using ac_phase1_addressees_total[OF assms(1) admits_names_cell[OF assms(2)]] by (auto simp: addressed_def)

definition read_ok :: "'id::linorder quorum_read \<Rightarrow> bool" where
  "read_ok r \<longleftrightarrow> config_ok (qr_config r) \<and> ac_admits_read_row (qr_config r) (qr_row r) \<and>
     fmdom' (qr_watermarks r) \<subseteq> addressed (qr_config r) (qr_row r) \<and>
     (\<forall>index. qr_stage r = Confirmed index \<longrightarrow> index = max_reported r \<and>
        phase1_holds (ac_quorum_system (qr_config r)) (ac_members (qr_config r)) (fmdom' (qr_watermarks r)) (qr_row r))"

lemma read_confirm_total [total_simps]:
  assumes "read_ok r"
  shows "read_confirm r = Some (if qr_stage r = Tallying \<and>
      phase1_holds (ac_quorum_system (qr_config r)) (ac_members (qr_config r)) (fmdom' (qr_watermarks r)) (qr_row r)
    then r\<lparr>qr_stage := Confirmed (max_reported r)\<rparr> else r)"
proof -
  have ok: "config_ok (qr_config r)" "ac_admits_read_row (qr_config r) (qr_row r)" "fmdom' (qr_watermarks r) \<subseteq> addressed (qr_config r) (qr_row r)"
    using assms by (simp_all add: read_ok_def)
  have "try_all (\<lambda>id. ac_is_phase1_addressee (qr_config r) id (qr_row r)) (fm_keys (qr_watermarks r)) = Some True"
    using ok(3) by (subst try_all_total[OF addressed_total(1)[OF ok(1,2)]]) auto
  then show ?thesis
    using ac_has_phase1_quorum_in_total[OF ok(1) _ admits_names_cell[OF ok(2)], of "fmdom' (qr_watermarks r)"]
    by (cases "qr_stage r") (simp_all add: read_confirm_def max_watermark_total Let_def)
qed

lemma read_confirm_ok:
  assumes "read_ok r" "read_confirm r = Some r'"
  shows "read_ok r'" "qr_ctx r' = qr_ctx r" "qr_config r' = qr_config r" "qr_row r' = qr_row r" "qr_fence r' = qr_fence r"
    "qr_watermarks r' = qr_watermarks r" "qr_config_since r' = qr_config_since r" "qr_created_tick r' = qr_created_tick r"
proof -
  have "max_reported (r\<lparr>qr_stage := st\<rparr>) = max_reported r" for st by (simp add: max_reported_def)
  then show "read_ok r'" using assms by (auto simp: read_confirm_total read_ok_def split: if_splits)
qed (use assms in \<open>auto simp: read_confirm_total split: if_splits\<close>)

lemma read_served_total [total_simps]:
  "read_served covered r = Some (case qr_stage r of Tallying \<Rightarrow> None
     | Confirmed index \<Rightarrow> if covered (max index (qr_fence r)) then Some (qr_ctx r, max index (qr_fence r)) else None)"
  by (simp add: read_served_def Let_def split: read_stage.split)

subsection \<open>Runs\<close>

datatype 'id read_event =
    Rd_Open nat "nat option" "'id read_basis" nat "('id \<times> slot option) option"
  | Rd_Fold nat 'id "slot option" "ballot option"
  | Rd_Abandon ballot
  | Rd_Serve "slot option \<Rightarrow> bool"
  | Rd_Expire nat nat

type_synonym 'id read_log = "(nat \<times> slot option) list \<times> 'id quorum_reads"

fun reads_feed :: "'id::linorder read_event \<Rightarrow> 'id read_log \<Rightarrow> 'id read_log option" where
  "reads_feed (Rd_Open ctx row basis tick own) (served, s) = do { (_, s) \<leftarrow> reads_open s ctx row basis tick own; Some (served, s) }"
| "reads_feed (Rd_Fold ctx from watermark since) (served, s) = do { (_, s) \<leftarrow> reads_fold s ctx from watermark since; Some (served, s) }"
| "reads_feed (Rd_Abandon since) (served, s) = do { s \<leftarrow> reads_abandon_superseded s since; Some (served, s) }"
| "reads_feed (Rd_Serve covered) (served, s) = do { (now, s) \<leftarrow> reads_serve s covered; Some (served @ now, s) }"
| "reads_feed (Rd_Expire now ttl) (served, s) = do { s \<leftarrow> reads_expire s now ttl; Some (served, s) }"

definition reads_run :: "'id::linorder read_event list \<Rightarrow> 'id read_log option" where
  "reads_run events = try_fold reads_feed events ([], reads_new)"

text \<open>A watermark that was reported for a token, by an answer or by the reader itself.\<close>

definition read_reported :: "'id read_event list \<Rightarrow> nat \<Rightarrow> 'id \<Rightarrow> slot option \<Rightarrow> bool" where
  "read_reported events ctx n w \<longleftrightarrow> (\<exists>since. Rd_Fold ctx n w since \<in> set events) \<or>
     (\<exists>row basis tick. Rd_Open ctx row basis tick (Some (n, w)) \<in> set events)"

text \<open>An index that covers whatever was chosen under a basis: if every report of a Phase-2 quorum is at or
  above a slot, so is the index.\<close>

definition covers_chosen :: "'id::linorder read_event list \<Rightarrow> nat \<Rightarrow> 'id read_basis \<Rightarrow> slot option \<Rightarrow> bool" where
  "covers_chosen events ctx basis index \<longleftrightarrow> rb_fence basis \<le> index \<and>
     (\<forall>Q column slot. phase2_holds (ac_quorum_system (rb_config basis)) (ac_members (rb_config basis)) Q column \<and>
        (\<forall>n w. n \<in> Q \<and> read_reported events ctx n w \<longrightarrow> Some slot \<le> w) \<longrightarrow> Some slot \<le> index)"

definition opened_as :: "'id read_event list \<Rightarrow> nat \<Rightarrow> 'id read_basis \<Rightarrow> bool" where
  "opened_as events ctx basis \<longleftrightarrow> (\<exists>row tick own. Rd_Open ctx row basis tick own \<in> set events)"

definition sound_answer :: "'id::linorder read_event list \<Rightarrow> nat \<Rightarrow> slot option \<Rightarrow> bool" where
  "sound_answer events ctx index \<longleftrightarrow> (\<exists>basis. opened_as events ctx basis \<and> covers_chosen events ctx basis index)"

definition tracked :: "'id::linorder read_event list \<Rightarrow> 'id quorum_read \<Rightarrow> bool" where
  "tracked events r \<longleftrightarrow> read_ok r \<and> (\<exists>basis. opened_as events (qr_ctx r) basis \<and> rb_config basis = qr_config r \<and> rb_fence basis = qr_fence r) \<and>
     (\<forall>n w. fmlookup (qr_watermarks r) n = Some w \<longrightarrow> read_reported events (qr_ctx r) n w)"

definition reads_ok :: "'id::linorder read_event list \<Rightarrow> 'id read_log \<Rightarrow> bool" where
  "reads_ok events = (\<lambda>(served, s). distinct (map qr_ctx (qs_reads s)) \<and> (\<forall>r \<in> set (qs_reads s). tracked events r) \<and>
     (\<forall>ctx index. (ctx, index) \<in> set served \<longrightarrow> sound_answer events ctx index))"

lemma reads_okD:
  assumes "reads_ok events (served, s)"
  shows "distinct (map qr_ctx (qs_reads s))" "r \<in> set (qs_reads s) \<Longrightarrow> tracked events r"
    "(ctx, index) \<in> set served \<Longrightarrow> sound_answer events ctx index"
  using assms by (simp_all add: reads_ok_def)

lemma read_reported_more: "read_reported events ctx n w \<Longrightarrow> read_reported (events @ es) ctx n w"
  by (auto simp: read_reported_def)

lemma tracked_more: "tracked events r \<Longrightarrow> tracked (events @ es) r"
  unfolding tracked_def opened_as_def using read_reported_more by (metis Un_iff set_append)

lemma served_more:
  "sound_answer events ctx index \<Longrightarrow>
    sound_answer (events @ es) ctx index"
  unfolding sound_answer_def covers_chosen_def opened_as_def using read_reported_more by (metis Un_iff set_append)

lemma reads_ok_sub:
  assumes "reads_ok events (served, s)" "distinct (map qr_ctx rs)" "\<And>r. r \<in> set rs \<Longrightarrow> tracked (events @ [e]) r"
  shows "reads_ok (events @ [e]) (served, s\<lparr>qs_reads := rs\<rparr>)"
  using assms(2,3) served_more[OF reads_okD(3)[OF assms(1)]] by (simp add: reads_ok_def)

lemma distinct_filter_ctx: "distinct (map qr_ctx rs) \<Longrightarrow> distinct (map qr_ctx (filter P rs))"
  by (induction rs) auto

text \<open>What a served read rests on.\<close>

lemma confirmed_covers:
  assumes r: "tracked events r" and stage: "qr_stage r = Confirmed index"
  shows "sound_answer events (qr_ctx r) (max index (qr_fence r))"
proof -
  obtain basis where basis: "opened_as events (qr_ctx r) basis" "rb_config basis = qr_config r" "rb_fence basis = qr_fence r"
    using r by (auto simp: tracked_def)
  have ok: "config_ok (qr_config r)" "index = max_reported r"
    "phase1_holds (ac_quorum_system (qr_config r)) (ac_members (qr_config r)) (fmdom' (qr_watermarks r)) (qr_row r)"
    using r stage by (simp_all add: tracked_def read_ok_def)
  have "Some slot \<le> index" if Q: "phase2_holds (ac_quorum_system (qr_config r)) (ac_members (qr_config r)) Q column"
    and low: "\<forall>n w. n \<in> Q \<and> read_reported events (qr_ctx r) n w \<longrightarrow> Some slot \<le> w" for Q column slot
  proof -
    obtain n where n: "n \<in> fmdom' (qr_watermarks r)" "n \<in> Q"
      using phases_intersect[OF config_okD(1,2)[OF ok(1)] ok(3) Q] by blast
    then obtain w where w: "fmlookup (qr_watermarks r) n = Some w" by (auto simp: fmlookup_dom'_iff)
    then have "Some slot \<le> w" using low n(2) r by (auto simp: tracked_def)
    also have "w \<le> index" using max_reported_upper[OF w] ok(2) by simp
    finally show ?thesis .
  qed
  then have "covers_chosen events (qr_ctx r) basis (max index (qr_fence r))"
    unfolding covers_chosen_def basis(2,3) by (simp add: le_max_iff_disj) blast
  then show ?thesis unfolding sound_answer_def using basis(1) by blast
qed

lemma read_position_Some: "read_position ctx rs = Some i \<Longrightarrow> i < length rs \<and> qr_ctx (rs ! i) = ctx"
  by (induction rs arbitrary: i) (auto split: if_splits)

subsection \<open>Every operation keeps the reads\<close>

lemma reads_open_ok:
  assumes run: "reads_ok events (served, s)" and o': "reads_open s ctx row basis tick own = Some (to, s')" and c: "config_ok (rb_config basis)"
  shows "reads_ok (events @ [Rd_Open ctx row basis tick own]) (served, s')"
proof -
  let ?e = "Rd_Open ctx row basis tick own"
  let ?w = "case own of None \<Rightarrow> fmempty | Some (me, watermark) \<Rightarrow> fmupd me watermark fmempty"
  let ?r = "\<lparr>qr_ctx = ctx, qr_row = row, qr_config = rb_config basis, qr_config_since = rb_since basis, qr_fence = rb_fence basis,
    qr_watermarks = ?w, qr_created_tick = tick, qr_stage = Tallying\<rparr>"
  have fresh: "\<forall>r \<in> set (qs_reads s). qr_ctx r \<noteq> ctx" and row: "ac_admits_read_row (rb_config basis) row"
    and own: "own = Some (me, w) \<Longrightarrow> me \<in> addressed (rb_config basis) row" and s': "s' = s\<lparr>qs_reads := qs_reads s @ [?r]\<rparr>" for me w
    using o' by (auto simp: reads_open_def bind_Some_iff Let_def list_all_iff addressed_def split: option.splits)
  have own_report: "fmlookup ?w n = Some w \<Longrightarrow> read_reported (events @ [?e]) ctx n w" for n w
    unfolding read_reported_def by (intro disjI2 exI[of _ row] exI[of _ basis] exI[of _ tick]) (auto split: option.splits if_splits)
  have "fmdom' ?w \<subseteq> addressed (rb_config basis) row" using own by (auto split: option.splits)
  then have "read_ok ?r" using c row by (simp add: read_ok_def)
  moreover have "opened_as (events @ [?e]) ctx basis" by (auto simp: opened_as_def)
  ultimately have "tracked (events @ [?e]) ?r" using own_report by (auto simp: tracked_def)
  then show ?thesis
    unfolding s' using fresh reads_okD(1)[OF run] tracked_more[OF reads_okD(2)[OF run]] by (intro reads_ok_sub[OF run]) auto
qed

lemma reads_fold_ok:
  assumes run: "reads_ok events (served, s)"
  shows "\<exists>result s'. reads_fold s ctx from watermark since = Some (result, s') \<and> reads_ok (events @ [Rd_Fold ctx from watermark since]) (served, s')"
proof -
  let ?e = "Rd_Fold ctx from watermark since"
  note more = tracked_more[OF reads_okD(2)[OF run], where es = "[?e]"]
  have same: "reads_ok (events @ [?e]) (served, s)"
    using reads_ok_sub[OF run reads_okD(1)[OF run] more] by simp
  show ?thesis
  proof (cases "read_position ctx (qs_reads s)")
    case None
    then show ?thesis using same by (simp add: reads_fold_def)
  next
    case (Some i)
    let ?r = "qs_reads s ! i"
    have i: "i < length (qs_reads s)" "qr_ctx ?r = ctx" using read_position_Some[OF Some] by simp_all
    then have "?r \<in> set (qs_reads s)" by simp
    then have tr: "tracked (events @ [?e]) ?r" by (rule more)
    then have ok: "read_ok ?r" by (simp add: tracked_def)
    then have ad: "ac_is_phase1_addressee (qr_config ?r) from (qr_row ?r) = Some (from \<in> addressed (qr_config ?r) (qr_row ?r))"
      by (intro addressed_total(1)) (simp_all add: read_ok_def)
    let ?rest = "take i (qs_reads s) @ drop (Suc i) (qs_reads s)"
    have "distinct (map qr_ctx (take i (qs_reads s) @ ?r # drop (Suc i) (qs_reads s)))"
      using reads_okD(1)[OF run] id_take_nth_drop[OF i(1)] by simp
    then have "distinct (map qr_ctx ?rest)" by auto
    moreover have "set ?rest \<subseteq> set (qs_reads s)" using set_take_subset set_drop_subset by fastforce
    ultimately have gone: "reads_ok (events @ [?e]) (served, s\<lparr>qs_reads := ?rest\<rparr>)" using more by (intro reads_ok_sub[OF run]) blast+
    let ?r' = "?r\<lparr>qr_watermarks := fmupd from watermark (qr_watermarks ?r)\<rparr>"
    have counted: "reads_ok (events @ [?e]) (served, s\<lparr>qs_reads := (qs_reads s)[i := ?r']\<rparr>)"
      if "qr_stage ?r = Tallying" "from \<in> addressed (qr_config ?r) (qr_row ?r)"
    proof (rule reads_ok_sub[OF run])
      have "map qr_ctx ((qs_reads s)[i := ?r']) = map qr_ctx (qs_reads s)" using i by (simp add: map_update list_update_same_conv)
      then show "distinct (map qr_ctx ((qs_reads s)[i := ?r']))" using reads_okD(1)[OF run] by simp
      have "read_reported (events @ [?e]) ctx from watermark" by (auto simp: read_reported_def)
      then have "tracked (events @ [?e]) ?r'" using tr that i(2) ok by (auto simp: tracked_def read_ok_def)
      then show "tracked (events @ [?e]) r" if "r \<in> set ((qs_reads s)[i := ?r'])" for r
        using that more set_update_subset_insert[of "qs_reads s" i ?r'] by blast
    qed
    show ?thesis
      using same gone counted by (auto simp: reads_fold_def Some ad Let_def)
  qed
qed

text \<open>What serving leaves behind: the reads it keeps and the reads it answers have been opened apart.\<close>

definition serve_good :: "'id::linorder read_event list \<Rightarrow> 'id quorum_read list \<Rightarrow> 'id quorum_read list \<times> (nat \<times> slot option) list \<Rightarrow> bool" where
  "serve_good events rs = (\<lambda>(kept, now). distinct (map qr_ctx kept) \<and> qr_ctx ` set kept \<union> fst ` set now \<subseteq> qr_ctx ` set rs \<and>
     qr_ctx ` set kept \<inter> fst ` set now = {} \<and> (\<forall>r \<in> set kept. tracked events r) \<and>
     (\<forall>ctx index. (ctx, index) \<in> set now \<longrightarrow> sound_answer events ctx index))"

definition serve_one ::
  "(slot option \<Rightarrow> bool) \<Rightarrow> 'id::linorder quorum_read \<Rightarrow> 'id quorum_read list \<times> (nat \<times> slot option) list \<Rightarrow>
   ('id quorum_read list \<times> (nat \<times> slot option) list) option" where
  "serve_one covered r = (\<lambda>(kept, served). do {
     r \<leftarrow> read_confirm r;
     answer \<leftarrow> read_served covered r;
     Some (case answer of None \<Rightarrow> (kept @ [r], served) | Some index \<Rightarrow> (kept, served @ [index]))
   })"

lemma serve_one_good:
  assumes g: "serve_good events rs (kept, now)" and r: "tracked events r" "qr_ctx r \<notin> qr_ctx ` set rs"
  shows "\<exists>x. serve_one covered r (kept, now) = Some x \<and> serve_good events (rs @ [r]) x"
proof -
  have ok: "read_ok r" using r(1) by (simp add: tracked_def)
  obtain r' where r': "read_confirm r = Some r'" using read_confirm_total[OF ok] by blast
  note same = read_confirm_ok[OF ok r']
  have tr: "tracked events r'" using r(1) same(1) unfolding tracked_def same(2-) by simp
  have out: "qr_ctx r' \<notin> qr_ctx ` set kept" "qr_ctx r' \<notin> fst ` set now" using g r(2) same(2) by (auto simp: serve_good_def)
  show ?thesis
  proof (cases "read_served covered r' = Some None")
    case True
    have "serve_good events (rs @ [r]) (kept @ [r'], now)" using g tr out same(2) by (auto simp: serve_good_def)
    then show ?thesis using r' True by (simp add: serve_one_def)
  next
    case False
    then obtain index where i: "qr_stage r' = Confirmed index" "read_served covered r' = Some (Some (qr_ctx r', max index (qr_fence r')))"
      by (auto simp: read_served_total split: read_stage.splits if_splits)
    have "serve_good events (rs @ [r]) (kept, now @ [(qr_ctx r', max index (qr_fence r'))])"
      using g out same(2) confirmed_covers[OF tr i(1)] by (auto simp: serve_good_def)
    then show ?thesis using r' i(2) by (simp add: serve_one_def)
  qed
qed

lemma serve_all_good:
  "distinct (map qr_ctx rs) \<Longrightarrow> \<forall>r \<in> set rs. tracked events r \<Longrightarrow>
    \<exists>x. try_fold (serve_one covered) rs ([], []) = Some x \<and> serve_good events rs x"
proof (induction rs rule: rev_induct)
  case Nil
  then show ?case by (simp add: serve_good_def)
next
  case (snoc r rs)
  then obtain kept now where "try_fold (serve_one covered) rs ([], []) = Some (kept, now)" "serve_good events rs (kept, now)" by auto
  then show ?case using serve_one_good[of events rs kept now r covered] snoc.prems by (auto simp: try_fold_append)
qed

lemma served_apart:
  assumes "serve_good events rs (kept, now)"
  shows "list_all (\<lambda>(ctx, _). list_all (\<lambda>r. qr_ctx r \<noteq> ctx) kept) now"
proof -
  have apart: "qr_ctx ` set kept \<inter> fst ` set now = {}" using assms by (simp add: serve_good_def)
  have "qr_ctx r \<noteq> ctx" if "(ctx, index) \<in> set now" "r \<in> set kept" for ctx index r
    using apart imageI[OF that(1), of fst] imageI[OF that(2), of qr_ctx] by auto
  then show ?thesis unfolding list_all_iff by blast
qed

lemma reads_serve_ok:
  assumes run: "reads_ok events (served, s)"
  shows "\<exists>now s'. reads_serve s covered = Some (now, s') \<and> reads_ok (events @ [Rd_Serve covered]) (served @ now, s')"
proof -
  let ?es = "events @ [Rd_Serve covered]"
  have "\<forall>r \<in> set (qs_reads s). tracked ?es r" using tracked_more[OF reads_okD(2)[OF run]] by blast
  from serve_all_good[OF reads_okD(1)[OF run] this, of covered] obtain kept now where
    x: "try_fold (serve_one covered) (qs_reads s) ([], []) = Some (kept, now)" "serve_good ?es (qs_reads s) (kept, now)" by auto
  have "list_all (\<lambda>(ctx, _). list_all (\<lambda>r. qr_ctx r \<noteq> ctx) kept) now"
    using served_apart[OF x(2)] .
  then have "reads_serve s covered = Some (now, s\<lparr>qs_reads := kept\<rparr>)"
    using x(1) by (simp add: reads_serve_def serve_one_def[abs_def] Let_def)
  moreover have "reads_ok ?es (served @ now, s\<lparr>qs_reads := kept\<rparr>)"
    using x(2) served_more[OF reads_okD(3)[OF run], where es = "[Rd_Serve covered]"]
    by (auto simp: reads_ok_def serve_good_def)
  ultimately show ?thesis by blast
qed

lemma reads_kept_ok:
  assumes "reads_ok events (served, s)"
  shows "reads_ok (events @ [e]) (served, s\<lparr>qs_reads := filter P (qs_reads s)\<rparr>)"
  using distinct_filter_ctx[OF reads_okD(1)[OF assms]] tracked_more[OF reads_okD(2)[OF assms]] by (intro reads_ok_sub[OF assms]) auto

lemma reads_feed_ok:
  assumes run: "reads_ok events x" and feed: "reads_feed e x = Some y"
    and c: "\<And>ctx row basis tick own. e = Rd_Open ctx row basis tick own \<Longrightarrow> config_ok (rb_config basis)"
  shows "reads_ok (events @ [e]) y"
proof -
  obtain served s where x: "x = (served, s)" by fastforce
  show ?thesis
  proof (cases e)
    case (Rd_Open ctx row basis tick own)
    then show ?thesis using reads_open_ok[OF run[unfolded x]] c feed x by (auto simp: bind_Some_iff)
  next
    case (Rd_Fold ctx n w since)
    then show ?thesis using reads_fold_ok[OF run[unfolded x], of ctx n w since] feed x by auto
  next
    case (Rd_Abandon since)
    then show ?thesis using reads_kept_ok[OF run[unfolded x]] feed x by (auto simp: reads_abandon_superseded_def Let_def bind_Some_iff)
  next
    case (Rd_Serve covered)
    then show ?thesis using reads_serve_ok[OF run[unfolded x], of covered] feed x by auto
  next
    case (Rd_Expire now ttl)
    then show ?thesis using reads_kept_ok[OF run[unfolded x]] feed x by (auto simp: reads_expire_def Let_def bind_Some_iff)
  qed
qed

text \<open>Every basis a run opens a read with has a well-formed configuration.\<close>

definition bases_ok :: "'id::linorder read_event list \<Rightarrow> bool" where
  "bases_ok = list_all (\<lambda>e. case e of Rd_Open _ _ basis _ _ \<Rightarrow> config_ok (rb_config basis) | _ \<Rightarrow> True)"

lemma reads_run_ok: "reads_run events = Some x \<Longrightarrow> bases_ok events \<Longrightarrow> reads_ok events x"
proof (induction events arbitrary: x rule: rev_induct)
  case Nil
  then show ?case by (auto simp: reads_run_def reads_new_def reads_ok_def)
next
  case (snoc e events)
  then obtain y where y: "reads_run events = Some y" "reads_feed e y = Some x"
    by (auto simp: reads_run_def try_fold_append bind_Some_iff)
  have "reads_ok events y" using snoc.IH[OF y(1)] snoc.prems(2) by (simp add: bases_ok_def)
  then show ?case by (rule reads_feed_ok[OF _ y(2)]) (use snoc.prems(2) in \<open>simp add: bases_ok_def\<close>)
qed

text \<open>C13: a quorum read misses nothing that was chosen. Over every run of opens, answers, abandonments,
  expiries and serves whose bases have a well-formed configuration, an answer that is served was opened with a
  basis, its index is at or above that basis's fence, and for every Phase-2 quorum of the basis's configuration
  whose members reported nothing below a slot, the index is at or above that slot. In the state reached, folding
  any answer and serving under any test run to the end: no assertion fails.\<close>

theorem served_read_covers_chosen:
  assumes "reads_run events = Some (served, s)" "bases_ok events"
  shows "(\<forall>ctx index. (ctx, index) \<in> set served \<longrightarrow> (\<exists>basis. opened_as events ctx basis \<and> covers_chosen events ctx basis index)) \<and>
    reads_fold s ctx from watermark since \<noteq> None \<and> reads_serve s covered \<noteq> None"
  using reads_run_ok[OF assms] reads_fold_ok[OF reads_run_ok[OF assms], of ctx "from" watermark since] reads_serve_ok[OF reads_run_ok[OF assms], of covered]
  by (auto simp: reads_ok_def sound_answer_def)

definition three_config :: "nat acceptor_config" where
  "three_config = \<lparr>ac_members = [1, 2, 3], ac_quorum_system = Majority, ac_domains = [], ac_cell = 0, ac_proxies = 0, ac_replicas = 0\<rparr>"

definition three_basis :: "nat read_basis" where
  "three_basis = \<lparr>rb_config = three_config, rb_since = Ballot 1 0, rb_fence = Some 4\<rparr>"

definition read_at_seven :: "nat read_event list" where
  "read_at_seven = [Rd_Open 9 None three_basis 0 (Some (1, Some 5)), Rd_Fold 9 2 (Some 7) None, Rd_Serve (\<lambda>index. index \<le> Some 6),
     Rd_Fold 9 3 (Some 8) None, Rd_Serve (\<lambda>index. index \<le> Some 7)]"

lemma three_config_ok: "config_ok three_config" "ac_quorum_system three_config = Majority" "ac_members three_config = [1, 2, 3]"
  "ac_admits_read_row three_config None"
  by (simp_all add: three_config_def config_ok_def members_ok_def u64_max_def ac_admits_read_row_def)

lemma three_addressees: "ac_phase1_addressees three_config None = Some [1, 2, 3]" "ac_is_phase1_addressee three_config n None = Some (n \<in> {1, 2, 3})"
proof -
  have to: "phase1_addressees (ac_quorum_system three_config) (ac_members three_config) None = Some [1, 2, 3]"
    by (simp add: three_config_ok phase1_addressees_def)
  show "ac_phase1_addressees three_config None = Some [1, 2, 3]" "ac_is_phase1_addressee three_config n None = Some (n \<in> {1, 2, 3})"
    using ac_phase1_addressees_total[OF three_config_ok(1) admits_names_cell[OF three_config_ok(4)]] to by auto
qed

lemma read_at_seven_run:
  "reads_run read_at_seven = Some ([(9, Some 7)], \<lparr>qs_reads = []\<rparr>)"
proof -
  let ?r = "\<lambda>w st. \<lparr>qr_ctx = 9, qr_row = None, qr_config = three_config, qr_config_since = Ballot 1 0, qr_fence = Some 4,
    qr_watermarks = w, qr_created_tick = 0, qr_stage = st\<rparr>"
  let ?w = "fmupd 2 (Some 7) (fmupd (1 :: nat) (Some (5 :: nat)) fmempty)"
  have keys: "fmdom' ?w = {1, 2}" by auto
  have quorum: "read_confirm (?r ?w Tallying) = Some (?r ?w (Confirmed (Some 7)))"
  proof -
    have "read_ok (?r ?w Tallying)" using three_addressees(2) by (auto simp: read_ok_def three_config_ok addressed_def)
    moreover have "max_reported (?r ?w Tallying) = Some 7" by (simp add: max_reported_def fm_entries_def fm_keys_def keys)
    ultimately show ?thesis by (simp add: read_confirm_total three_config_ok keys)
  qed
  have "reads_open reads_new 9 None three_basis 0 (Some (1, Some 5)) = Some ([2, 3], \<lparr>qs_reads = [?r (fmupd 1 (Some 5) fmempty) Tallying]\<rparr>)"
    by (simp add: reads_open_def reads_new_def three_basis_def three_config_ok three_addressees Let_def)
  moreover have "reads_fold \<lparr>qs_reads = [?r (fmupd 1 (Some 5) fmempty) Tallying]\<rparr> 9 2 (Some 7) None = Some (Pre_Counted, \<lparr>qs_reads = [?r ?w Tallying]\<rparr>)"
    by (simp add: reads_fold_def three_addressees Let_def)
  moreover have "reads_serve \<lparr>qs_reads = [?r ?w Tallying]\<rparr> (\<lambda>index. index \<le> Some 6) = Some ([], \<lparr>qs_reads = [?r ?w (Confirmed (Some 7))]\<rparr>)"
    by (simp add: reads_serve_def quorum[simplified] read_served_total Let_def)
  moreover have "reads_fold \<lparr>qs_reads = [?r ?w (Confirmed (Some 7))]\<rparr> 9 3 (Some 8) None = Some (Pre_Ignored, \<lparr>qs_reads = [?r ?w (Confirmed (Some 7))]\<rparr>)"
    by (simp add: reads_fold_def three_addressees Let_def)
  moreover have "reads_serve \<lparr>qs_reads = [?r ?w (Confirmed (Some 7))]\<rparr> (\<lambda>index. index \<le> Some 7) = Some ([(9, Some 7)], \<lparr>qs_reads = []\<rparr>)"
    by (simp add: reads_serve_def read_confirm_def read_served_total Let_def)
  ultimately show ?thesis by (simp add: reads_run_def read_at_seven_def)
qed

theorem served_read_covers_chosen_witness:
  "reads_run read_at_seven = Some ([(9, Some 7)], \<lparr>qs_reads = []\<rparr>) \<and> covers_chosen read_at_seven 9 three_basis (Some 7)"
proof -
  have ok: "bases_ok read_at_seven" by (simp add: bases_ok_def read_at_seven_def three_basis_def three_config_ok)
  have "opened_as read_at_seven 9 basis \<Longrightarrow> basis = three_basis" for basis
    by (auto simp: opened_as_def read_at_seven_def)
  then show ?thesis using served_read_covers_chosen[OF read_at_seven_run ok] read_at_seven_run by (metis list.set_intros(1))
qed

end
