(* ===== verification/Batcher.thy ===== *)
theory Batcher
  imports Journal
begin

section \<open>The batcher\<close>

text \<open>
  \<^verbatim>\<open>paros-core/src/batcher.rs\<close>: writes of one journal are merged into batches within the limits, and the
  answer to a merged write is scattered back over its writes. The token of a write is a type parameter.
\<close>

text \<open>The derived order of a journal identifier: by tenant, then by journal.\<close>

instantiation journal_identifier_ext :: (linorder) linorder
begin

definition less_eq_journal_identifier_ext :: "'a journal_identifier_scheme \<Rightarrow> 'a journal_identifier_scheme \<Rightarrow> bool" where
  "less_eq_journal_identifier_ext a b \<longleftrightarrow> ji_tenant a < ji_tenant b \<or> ji_tenant a = ji_tenant b \<and>
     (ji_journal a < ji_journal b \<or> ji_journal a = ji_journal b \<and> journal_identifier.more a \<le> journal_identifier.more b)"

definition less_journal_identifier_ext :: "'a journal_identifier_scheme \<Rightarrow> 'a journal_identifier_scheme \<Rightarrow> bool" where
  "less_journal_identifier_ext a b \<longleftrightarrow> ji_tenant a < ji_tenant b \<or> ji_tenant a = ji_tenant b \<and>
     (ji_journal a < ji_journal b \<or> ji_journal a = ji_journal b \<and> journal_identifier.more a < journal_identifier.more b)"

instance
  by intro_classes (auto simp: less_eq_journal_identifier_ext_def less_journal_identifier_ext_def)

end

subsection \<open>Batches and lanes\<close>

record batch_limits =
  bl_max_records :: nat
  bl_max_bytes :: nat
  bl_flush_records :: nat

definition bl_valid :: "batch_limits \<Rightarrow> bool" where
  "bl_valid l \<longleftrightarrow> bl_max_records l \<ge> 1 \<and> bl_max_bytes l \<ge> 1 \<and> bl_flush_records l \<ge> 1 \<and> bl_flush_records l \<le> bl_max_records l"

record 't batch =
  bt_journal :: journal_identifier
  bt_writes :: "('t \<times> nat) list"
  bt_records :: "value_bytes list"

definition bytes_of :: "value_bytes list \<Rightarrow> nat" where
  "bytes_of records = fold (\<lambda>record total. saturating_add64 total (length record)) records 0"

definition batch_merged :: "'t batch \<Rightarrow> bool" where
  "batch_merged b \<longleftrightarrow> length (bt_writes b) > 1"

definition batch_bytes :: "'t batch \<Rightarrow> nat" where
  "batch_bytes b = bytes_of (bt_records b)"

record 't lane =
  ln_writes :: "('t \<times> nat) list"
  ln_records :: "value_bytes list"
  ln_bytes :: nat

definition lane_new :: "'t lane" where
  "lane_new = \<lparr>ln_writes = [], ln_records = [], ln_bytes = 0\<rparr>"

text \<open>The sum of the counts of the writes.\<close>

definition sum_counts :: "('t \<times> nat) list \<Rightarrow> nat option" where
  "sum_counts writes = try_fold (\<lambda>(_, n) total. checked_add64 total n) writes 0"

definition lane_take :: "'t lane \<Rightarrow> journal_identifier \<Rightarrow> ('t batch \<times> 't lane) option" where
  "lane_take lane journal = do {
     let batch = \<lparr>bt_journal = journal, bt_writes = ln_writes lane, bt_records = ln_records lane\<rparr>;
     let bytes = ln_bytes lane;
     let lane = lane\<lparr>ln_writes := [], ln_records := []\<rparr>;
     total \<leftarrow> sum_counts (bt_writes batch);
     check (total = length (bt_records batch));
     check (batch_bytes batch = bytes);
     let lane = lane\<lparr>ln_bytes := 0\<rparr>;
     check (ln_writes lane = [] \<and> ln_records lane = []);
     Some (batch, lane)
   }"

subsection \<open>The batcher\<close>

record 't batcher =
  ba_limits :: batch_limits
  ba_lanes :: "(journal_identifier, 't lane) fmap"

definition batcher_pending :: "'t batcher \<Rightarrow> nat" where
  "batcher_pending b = sum_list (map (\<lambda>(_, lane). length (ln_writes lane)) (fm_entries (ba_lanes b)))"

definition batcher_new :: "batch_limits \<Rightarrow> 't batcher option" where
  "batcher_new limits = do {
     check (bl_valid limits);
     let b = \<lparr>ba_limits = limits, ba_lanes = fmempty\<rparr>;
     check (batcher_pending b = 0);
     Some b
   }"

definition lower_limits :: "'t batcher \<Rightarrow> nat \<Rightarrow> nat \<Rightarrow> 't batcher option" where
  "lower_limits b max_records max_bytes = do {
     let before = ba_limits b;
     let limits = before\<lparr>bl_max_records := min (bl_max_records before) (max max_records 1)\<rparr>;
     let limits = limits\<lparr>bl_max_bytes := min (bl_max_bytes limits) (max max_bytes 1)\<rparr>;
     let limits = limits\<lparr>bl_flush_records := min (bl_flush_records limits) (bl_max_records limits)\<rparr>;
     check (bl_valid limits);
     check (bl_max_records limits \<le> bl_max_records before \<and> bl_max_bytes limits \<le> bl_max_bytes before);
     Some (b\<lparr>ba_limits := limits\<rparr>)
   }"

definition fits_alone :: "'t batcher \<Rightarrow> value_bytes list \<Rightarrow> bool" where
  "fits_alone b records \<longleftrightarrow> length records \<le> bl_max_records (ba_limits b) \<and> bytes_of records \<le> bl_max_bytes (ba_limits b)"

definition batcher_push :: "'t batcher \<Rightarrow> journal_identifier \<Rightarrow> 't \<Rightarrow> value_bytes list \<Rightarrow> ('t batch list \<times> 't batcher) option" where
  "batcher_push b journal token records = do {
     let before = batcher_pending b;
     let count = length records;
     if records = [] \<or> \<not> fits_alone b records
     then do {
       (out, b) \<leftarrow> (case fmlookup (ba_lanes b) journal of
           None \<Rightarrow> Some ([], b)
         | Some lane \<Rightarrow>
             if ln_writes lane \<noteq> []
             then do {
               (batch, lane) \<leftarrow> lane_take lane journal;
               Some ([batch], b\<lparr>ba_lanes := fmupd journal lane (ba_lanes b)\<rparr>)
             }
             else Some ([], b));
       let out = out @ [\<lparr>bt_journal = journal, bt_writes = [(token, count)], bt_records = records\<rparr>];
       check (batcher_pending b \<le> before);
       Some (out, b)
     }
     else do {
       let bytes = bytes_of records;
       let limits = ba_limits b;
       let lane = (case fmlookup (ba_lanes b) journal of None \<Rightarrow> lane_new | Some lane \<Rightarrow> lane);
       total_records \<leftarrow> checked_add64 (length (ln_records lane)) count;
       over \<leftarrow> (if total_records > bl_max_records limits then Some True
               else do { total_bytes \<leftarrow> checked_add64 (ln_bytes lane) bytes; Some (total_bytes > bl_max_bytes limits) });
       (out, lane) \<leftarrow> (if over
           then do {
             check (ln_writes lane \<noteq> []);
             (batch, lane) \<leftarrow> lane_take lane journal;
             Some ([batch], lane)
           }
           else Some ([], lane));
       total_bytes \<leftarrow> checked_add64 (ln_bytes lane) bytes;
       let lane = \<lparr>ln_writes = ln_writes lane @ [(token, count)], ln_records = ln_records lane @ records, ln_bytes = total_bytes\<rparr>;
       check (length (ln_records lane) \<le> bl_max_records limits \<and> ln_bytes lane \<le> bl_max_bytes limits);
       (out, lane) \<leftarrow> (if length (ln_records lane) \<ge> bl_flush_records limits
           then do { (batch, lane) \<leftarrow> lane_take lane journal; Some (out @ [batch], lane) }
           else Some (out, lane));
       check (list_all (\<lambda>batch. bt_journal batch = journal \<and> bt_writes batch \<noteq> []) out);
       Some (out, b\<lparr>ba_lanes := fmupd journal lane (ba_lanes b)\<rparr>)
     }
   }"

definition batcher_tick :: "'t batcher \<Rightarrow> ('t batch list \<times> 't batcher) option" where
  "batcher_tick b = do {
     out \<leftarrow> try_map (\<lambda>(journal, lane). do { (batch, _) \<leftarrow> lane_take lane journal; Some batch })
       (filter (\<lambda>(_, lane). ln_writes lane \<noteq> []) (fm_entries (ba_lanes b)));
     let b = b\<lparr>ba_lanes := fmempty\<rparr>;
     check (batcher_pending b = 0);
     check (list_all (\<lambda>batch. bt_writes batch \<noteq> []) out);
     Some (out, b)
   }"

subsection \<open>The unbatcher\<close>

definition scatter :: "('t \<times> nat) list \<Rightarrow> nat \<Rightarrow> nat \<Rightarrow> ('t \<times> nat \<times> nat) list option" where
  "scatter writes seq count = do {
     total \<leftarrow> sum_counts writes;
     check (total = count);
     (at, out) \<leftarrow> try_fold (\<lambda>(token, n) (at, out). do {
         next \<leftarrow> checked_add64 at n;
         Some (next, out @ [(token, at, n)])
       }) writes (seq, []);
     top \<leftarrow> checked_add64 seq count;
     check (at = top);
     check (length out = length writes);
     Some out
   }"

section \<open>What the batcher guarantees\<close>

abbreviation total_bytes :: "value_bytes list \<Rightarrow> nat" where
  "total_bytes records \<equiv> sum_list (map length records)"

abbreviation total_count :: "('t \<times> nat) list \<Rightarrow> nat" where
  "total_count writes \<equiv> sum_list (map snd writes)"

lemma bytes_of_total: "total_bytes records \<le> u64_max \<Longrightarrow> bytes_of records = total_bytes records"
proof -
  have "acc + total_bytes rs \<le> u64_max \<Longrightarrow> fold (\<lambda>r total. saturating_add64 total (length r)) rs acc = acc + total_bytes rs" for acc rs
    by (induction rs arbitrary: acc) (simp_all add: saturating_add64_def min_absorb1)
  from this[of 0] show "total_bytes records \<le> u64_max \<Longrightarrow> bytes_of records = total_bytes records" by (simp add: bytes_of_def)
qed

lemma sum_counts_total: "total_count writes \<le> u64_max \<Longrightarrow> sum_counts writes = Some (total_count writes)"
proof -
  have "acc + total_count ws \<le> u64_max \<Longrightarrow> try_fold (\<lambda>(_, n) total. checked_add64 total n) ws acc = Some (acc + total_count ws)" for acc and ws :: "('t \<times> nat) list"
  proof (induction ws arbitrary: acc)
    case (Cons w ws)
    obtain t n where w: "w = (t, n)" by fastforce
    then show ?case using Cons.IH[of "acc + n"] Cons.prems by (simp add: add.assoc checked_add64_def[of acc n])
  qed simp
  from this[of 0 writes] show "total_count writes \<le> u64_max \<Longrightarrow> sum_counts writes = Some (total_count writes)" by (simp add: sum_counts_def)
qed

text \<open>A lane counts the records and the bytes of its writes. Both fit in the address space.\<close>

definition lane_ok :: "'t lane \<Rightarrow> bool" where
  "lane_ok lane \<longleftrightarrow> total_count (ln_writes lane) = length (ln_records lane) \<and> ln_bytes lane = total_bytes (ln_records lane) \<and>
     length (ln_records lane) \<le> isize_max \<and> total_bytes (ln_records lane) \<le> isize_max"

lemma lane_new_ok [simp]: "lane_ok lane_new" "ln_writes lane_new = []" "ln_records lane_new = []" "ln_bytes lane_new = 0"
  by (simp_all add: lane_ok_def lane_new_def)

definition lane_batch :: "journal_identifier \<Rightarrow> 't lane \<Rightarrow> 't batch" where
  "lane_batch journal lane = \<lparr>bt_journal = journal, bt_writes = ln_writes lane, bt_records = ln_records lane\<rparr>"

lemma isize_le_u64: "n \<le> isize_max \<Longrightarrow> n \<le> u64_max"
  using isize_less_u64 by (simp add: less_imp_le)

lemma lane_take_total [total_simps]: "lane_ok lane \<Longrightarrow> lane_take lane journal = Some (lane_batch journal lane, lane_new)"
  by (simp add: lane_take_def lane_ok_def sum_counts_total batch_bytes_def bytes_of_total isize_le_u64 lane_batch_def lane_new_def)

definition lane_of :: "'t batcher \<Rightarrow> journal_identifier \<Rightarrow> 't lane" where
  "lane_of b journal = (case fmlookup (ba_lanes b) journal of None \<Rightarrow> lane_new | Some lane \<Rightarrow> lane)"

lemma lane_of_simps [simp]:
  "lane_of (b\<lparr>ba_lanes := fmupd journal lane lanes\<rparr>) k = (if k = journal then lane else lane_of (b\<lparr>ba_lanes := lanes\<rparr>) k)"
  "lane_of (b\<lparr>ba_lanes := fmempty\<rparr>) k = lane_new" "lane_of (b\<lparr>ba_limits := limits\<rparr>) k = lane_of b k"
  "lane_of (b\<lparr>ba_lanes := ba_lanes b\<rparr>) k = lane_of b k"
  by (simp_all add: lane_of_def)

lemma pending_emptied: "fmlookup (ba_lanes b) journal = Some lane \<Longrightarrow> batcher_pending (b\<lparr>ba_lanes := fmupd journal lane_new (ba_lanes b)\<rparr>) \<le> batcher_pending b"
proof -
  assume lane: "fmlookup (ba_lanes b) journal = Some lane"
  have p: "batcher_pending b = (\<Sum>k \<in> fmdom' (ba_lanes b). length (ln_writes (lane_of b k)))" for b :: "'a batcher"
  proof -
    have "batcher_pending b = (\<Sum>k \<in> fmdom' (ba_lanes b). length (ln_writes (the (fmlookup (ba_lanes b) k))))"
      by (simp add: batcher_pending_def fm_entries_def comp_def fm_keys_def sum_list_distinct_conv_sum_set)
    also have "\<dots> = (\<Sum>k \<in> fmdom' (ba_lanes b). length (ln_writes (lane_of b k)))"
      by (rule sum.cong) (auto simp: lane_of_def fmlookup_dom'_iff)
    finally show ?thesis .
  qed
  have "insert journal (fmdom' (ba_lanes b)) = fmdom' (ba_lanes b)" using lane by (auto simp: fmdom'I)
  then show ?thesis unfolding p by (auto intro!: sum_mono)
qed

lemma lane_empty: "lane_ok lane \<Longrightarrow> ln_writes lane = [] \<Longrightarrow> lane = lane_new"
  by (simp add: lane_ok_def lane_new_def)

text \<open>The writes and the records of a list of batches, in order.\<close>

abbreviation writes_of :: "'t batch list \<Rightarrow> ('t \<times> nat) list" where
  "writes_of out \<equiv> concat (map bt_writes out)"

abbreviation records_of :: "'t batch list \<Rightarrow> value_bytes list" where
  "records_of out \<equiv> concat (map bt_records out)"

text \<open>What the limits promise of a batch: a merged one is within them.\<close>

definition batch_within :: "batch_limits \<Rightarrow> 't batch \<Rightarrow> bool" where
  "batch_within l batch \<longleftrightarrow> bt_writes batch \<noteq> [] \<and> total_count (bt_writes batch) = length (bt_records batch) \<and>
     (batch_merged batch \<longrightarrow> length (bt_records batch) \<le> bl_max_records l \<and> total_bytes (bt_records batch) \<le> bl_max_bytes l)"

definition lane_within :: "batch_limits \<Rightarrow> 't lane \<Rightarrow> bool" where
  "lane_within l lane \<longleftrightarrow> lane_ok lane \<and> length (ln_records lane) < bl_flush_records l \<and>
     length (ln_records lane) \<le> bl_max_records l \<and> total_bytes (ln_records lane) \<le> bl_max_bytes l"

lemma lane_within_batch: "lane_within l lane \<Longrightarrow> ln_writes lane \<noteq> [] \<Longrightarrow> batch_within l (lane_batch journal lane)"
  by (simp add: lane_within_def batch_within_def lane_batch_def lane_ok_def)

definition limits_below :: "batch_limits \<Rightarrow> batch_limits \<Rightarrow> bool" where
  "limits_below a b \<longleftrightarrow> bl_max_records a \<le> bl_max_records b \<and> bl_max_bytes a \<le> bl_max_bytes b \<and> bl_flush_records a \<le> bl_flush_records b"

text \<open>A push, or a tick, of a batcher within the limits it started with.\<close>

definition batcher_ok :: "batch_limits \<Rightarrow> 't batcher \<Rightarrow> bool" where
  "batcher_ok l b \<longleftrightarrow> bl_valid (ba_limits b) \<and> limits_below (ba_limits b) l \<and> (\<forall>journal. lane_within l (lane_of b journal))"

definition pushes_to :: "batch_limits \<Rightarrow> 't batcher \<Rightarrow> journal_identifier \<Rightarrow> 't \<Rightarrow> value_bytes list \<Rightarrow> 't batch list \<Rightarrow> 't batcher \<Rightarrow> bool" where
  "pushes_to l b journal token records out b' \<longleftrightarrow> batcher_ok l b' \<and>
    (\<forall>k. k \<noteq> journal \<longrightarrow> lane_of b' k = lane_of b k) \<and> (\<forall>batch \<in> set out. bt_journal batch = journal \<and> batch_within l batch) \<and>
    writes_of out @ ln_writes (lane_of b' journal) = ln_writes (lane_of b journal) @ [(token, length records)] \<and>
    records_of out @ ln_records (lane_of b' journal) = ln_records (lane_of b journal) @ records"

lemma batcher_okD:
  assumes "batcher_ok l b"
  shows "lane_within l (lane_of b journal)" "lane_ok (lane_of b journal)" "bl_valid (ba_limits b)" "limits_below (ba_limits b) l" "lane_within l lane_new"
    "lane_within l lane \<Longrightarrow> batcher_ok l (b\<lparr>ba_lanes := fmupd journal lane (ba_lanes b)\<rparr>)"
  using assms by (auto simp: batcher_ok_def lane_within_def bl_valid_def limits_below_def)

lemma push_alone:
  assumes ok: "batcher_ok l b" and alone: "records = [] \<or> \<not> fits_alone b records"
  shows "\<exists>out b'. batcher_push b journal token records = Some (out, b') \<and> pushes_to l b journal token records out b'"
proof -
  let ?lane = "lane_of b journal"
  let ?single = "\<lparr>bt_journal = journal, bt_writes = [(token, length records)], bt_records = records\<rparr>"
  note lane = batcher_okD(1,2)[OF ok, of journal]
  have single: "batch_within l ?single" by (simp add: batch_within_def batch_merged_def)
  show ?thesis
  proof (cases "ln_writes ?lane = []")
    case e: True
    then have "?lane = lane_new" by (rule lane_empty[OF lane(2)])
    moreover have "batcher_push b journal token records = Some ([?single], b)"
      using alone e by (cases "fmlookup (ba_lanes b) journal") (simp_all add: batcher_push_def lane_of_def Let_def)
    ultimately show ?thesis using ok single by (auto simp: pushes_to_def)
  next
    case ne: False
    then have l: "fmlookup (ba_lanes b) journal = Some ?lane" by (cases "fmlookup (ba_lanes b) journal") (simp_all add: lane_of_def)
    let ?b = "b\<lparr>ba_lanes := fmupd journal lane_new (ba_lanes b)\<rparr>"
    have "batcher_push b journal token records = Some ([lane_batch journal ?lane, ?single], ?b)"
      using alone ne pending_emptied[OF l] by (simp add: batcher_push_def l lane_take_total[OF lane(2)] Let_def)
    then show ?thesis
      using batcher_okD(5,6)[OF ok] single lane_within_batch[OF lane(1) ne] by (auto simp: pushes_to_def lane_batch_def)
  qed
qed

lemma push_joins:
  assumes ok: "batcher_ok l b" and fits: "records \<noteq> []" "fits_alone b records" and bytes: "bytes_of records = total_bytes records"
    and room: "length (ln_records (lane_of b journal)) + length records \<le> isize_max" "total_bytes (ln_records (lane_of b journal)) + total_bytes records \<le> isize_max"
  shows "\<exists>out b'. batcher_push b journal token records = Some (out, b') \<and> pushes_to l b journal token records out b'"
proof -
  let ?lane = "lane_of b journal" and ?l = "ba_limits b"
  note lane = batcher_okD(1,2)[OF ok, of journal]
  have below: "bl_max_records ?l \<le> bl_max_records l" "bl_max_bytes ?l \<le> bl_max_bytes l" "bl_flush_records ?l \<le> bl_flush_records l"
    using batcher_okD(4)[OF ok] by (simp_all add: limits_below_def)
  have alone: "length records \<le> bl_max_records ?l" "total_bytes records \<le> bl_max_bytes ?l" using fits(2) bytes by (simp_all add: fits_alone_def)
  have lb: "ln_bytes ?lane = total_bytes (ln_records ?lane)" using lane(2) by (simp add: lane_ok_def)
  define over where "over \<longleftrightarrow> length (ln_records ?lane) + length records > bl_max_records ?l \<or> ln_bytes ?lane + total_bytes records > bl_max_bytes ?l"
  define out1 where "out1 = (if over then [lane_batch journal ?lane] else [])"
  define lane1 where "lane1 = (if over then lane_new else ?lane)"
  define lane2 where "lane2 = \<lparr>ln_writes = ln_writes lane1 @ [(token, length records)], ln_records = ln_records lane1 @ records, ln_bytes = ln_bytes lane1 + total_bytes records\<rparr>"
  define full where "full \<longleftrightarrow> length (ln_records lane2) \<ge> bl_flush_records ?l"
  have ne: "over \<Longrightarrow> ln_writes ?lane \<noteq> []" using alone lane_empty[OF lane(2)] by (auto simp: over_def)
  have lane1: "lane_ok lane1" "length (ln_records lane1) + length records \<le> bl_max_records ?l" "ln_bytes lane1 + total_bytes records \<le> bl_max_bytes ?l"
    "length (ln_records lane1) + length records \<le> isize_max" "ln_bytes lane1 + total_bytes records \<le> isize_max"
    using lane(2) alone room lb by (auto simp: lane1_def over_def)
  have lane2: "lane_ok lane2" "length (ln_records lane2) \<le> bl_max_records ?l" "ln_bytes lane2 \<le> bl_max_bytes ?l" "ln_writes lane2 \<noteq> []"
    using lane1 by (simp_all add: lane2_def lane_ok_def)
  have within: "\<not> full \<Longrightarrow> lane_within l lane2" "batch_within l (lane_batch journal lane2)"
    using lane2 below by (auto simp: full_def lane_within_def batch_within_def lane_batch_def lane_ok_def)
  have add: "checked_add64 (length (ln_records ?lane)) (length records) = Some (length (ln_records ?lane) + length records)"
    "checked_add64 (ln_bytes ?lane) (total_bytes records) = Some (ln_bytes ?lane + total_bytes records)"
    "checked_add64 (ln_bytes lane1) (total_bytes records) = Some (ln_bytes lane1 + total_bytes records)"
    using room lb lane1(5) isize_le_u64 by simp_all
  have over: "(if length (ln_records ?lane) + length records > bl_max_records ?l then Some True
      else do { t \<leftarrow> checked_add64 (ln_bytes ?lane) (total_bytes records); Some (t > bl_max_bytes ?l) }) = Some over"
    unfolding add(2) by (simp add: over_def)
  have first: "(if over then do { check (ln_writes ?lane \<noteq> []); (batch, lane) \<leftarrow> lane_take ?lane journal; Some ([batch], lane) }
      else Some ([], ?lane)) = Some (out1, lane1)"
    using ne by (simp add: out1_def lane1_def lane_take_total[OF lane(2)])
  let ?b = "b\<lparr>ba_lanes := fmupd journal (if full then lane_new else lane2) (ba_lanes b)\<rparr>" and ?out = "if full then out1 @ [lane_batch journal lane2] else out1"
  have "batcher_push b journal token records = Some (?out, ?b)"
  proof -
    have "list_all (\<lambda>batch. bt_journal batch = journal \<and> bt_writes batch \<noteq> []) ?out" using ne lane2(4) by (auto simp: out1_def lane_batch_def)
    then show ?thesis
      using fits lane2 unfolding batcher_push_def Let_def bytes lane_of_def[symmetric] add(1) over Option.bind_lunit first prod.case add(3) lane2_def[symmetric]
      by (cases full) (simp_all add: full_def[symmetric] lane_take_total[OF lane2(1)])
  qed
  moreover have "pushes_to l b journal token records ?out ?b"
    using within batcher_okD(5,6)[OF ok] lane_within_batch[OF lane(1) ne]
    by (auto simp: pushes_to_def out1_def lane1_def lane2_def lane_batch_def)
  ultimately show ?thesis by blast
qed

lemma batcher_push_total:
  assumes ok: "batcher_ok l b"
    and room: "length (ln_records (lane_of b journal)) + length records \<le> isize_max" "total_bytes (ln_records (lane_of b journal)) + total_bytes records \<le> isize_max"
  shows "\<exists>out b'. batcher_push b journal token records = Some (out, b') \<and> pushes_to l b journal token records out b'"
proof (cases "records = [] \<or> \<not> fits_alone b records")
  case True
  then show ?thesis by (rule push_alone[OF ok])
next
  case False
  moreover have "bytes_of records = total_bytes records" using room(2) by (intro bytes_of_total isize_le_u64) simp
  ultimately show ?thesis using push_joins[OF ok _ _ _ room] by simp
qed

lemma entries_at: "filter (\<lambda>e. fst e = k) (fm_entries m) = (case fmlookup m k of None \<Rightarrow> [] | Some v \<Rightarrow> [(k, v)])"
proof -
  have d: "distinct xs \<Longrightarrow> filter (\<lambda>x. x = k) xs = (if k \<in> set xs then [k] else [])" for xs
    by (induction xs) auto
  have "filter (\<lambda>e. fst e = k) (fm_entries m) = map (\<lambda>k. (k, the (fmlookup m k))) (filter (\<lambda>x. x = k) (fm_keys m))"
    by (simp add: fm_entries_def filter_map comp_def)
  also have "\<dots> = (case fmlookup m k of None \<Rightarrow> [] | Some v \<Rightarrow> [(k, v)])"
    by (simp add: d fmdom'_iff split: option.split)
  finally show ?thesis .
qed

lemma batcher_tick_total:
  assumes ok: "batcher_ok l b"
  shows "\<exists>out b'. batcher_tick b = Some (out, b') \<and> batcher_ok l b' \<and> (\<forall>batch \<in> set out. batch_within l batch) \<and>
    (\<forall>k. ln_writes (lane_of b' k) = [] \<and> ln_records (lane_of b' k) = [] \<and>
       writes_of (filter (\<lambda>batch. bt_journal batch = k) out) = ln_writes (lane_of b k) \<and>
       records_of (filter (\<lambda>batch. bt_journal batch = k) out) = ln_records (lane_of b k))"
proof -
  let ?es = "filter (\<lambda>(_, lane). ln_writes lane \<noteq> []) (fm_entries (ba_lanes b))"
  let ?out = "map (\<lambda>(journal, lane). lane_batch journal lane) ?es" and ?b = "b\<lparr>ba_lanes := fmempty\<rparr>"
  have es: "(k, lane) \<in> set ?es \<Longrightarrow> lane = lane_of b k" for k lane by (auto simp: lane_of_def)
  have out: "try_map (\<lambda>(journal, lane). do { (batch, _) \<leftarrow> lane_take lane journal; Some batch }) ?es = Some ?out"
  proof (rule try_map_total)
    fix e assume e: "e \<in> set ?es"
    obtain k lane where k: "e = (k, lane)" by fastforce
    then have "lane_ok lane" using es[of k lane] batcher_okD(2)[OF ok, of k] e by simp
    then show "(case e of (journal, lane) \<Rightarrow> do { (batch, _) \<leftarrow> lane_take lane journal; Some batch }) = Some (case e of (journal, lane) \<Rightarrow> lane_batch journal lane)"
      using k by (simp add: lane_take_total)
  qed
  have within: "batch_within l batch" "bt_writes batch \<noteq> []" if b: "batch \<in> set ?out" for batch
  proof -
    obtain k lane where k: "(k, lane) \<in> set ?es" "batch = lane_batch k lane" using b by auto
    then have "ln_writes lane \<noteq> []" by auto
    then show "batch_within l batch" "bt_writes batch \<noteq> []"
      using k es[OF k(1)] lane_within_batch[OF batcher_okD(1)[OF ok, of k]] by (simp_all add: lane_batch_def)
  qed
  have at: "filter (\<lambda>batch. bt_journal batch = k) ?out = (if ln_writes (lane_of b k) = [] then [] else [lane_batch k (lane_of b k)])" for k
  proof -
    have "filter (\<lambda>batch. bt_journal batch = k) ?out = map (\<lambda>(journal, lane). lane_batch journal lane)
        (filter (\<lambda>(_, lane). ln_writes lane \<noteq> []) (filter (\<lambda>e. fst e = k) (fm_entries (ba_lanes b))))"
      by (simp add: filter_map comp_def case_prod_unfold lane_batch_def conj_commute)
    also have "\<dots> = (if ln_writes (lane_of b k) = [] then [] else [lane_batch k (lane_of b k)])"
      unfolding entries_at by (cases "fmlookup (ba_lanes b) k") (simp_all add: lane_of_def)
    finally show ?thesis .
  qed
  have "batcher_tick b = Some (?out, ?b)"
    using out within(2) by (simp add: batcher_tick_def Let_def list_all_iff batcher_pending_def fm_entries_def fm_keys_def)
  moreover have "batcher_ok l ?b" using ok batcher_okD(5)[OF ok] by (simp add: batcher_ok_def)
  moreover have "ln_records (lane_of b k) = []" if "ln_writes (lane_of b k) = []" for k
    using lane_empty[OF batcher_okD(2)[OF ok] that] by simp
  ultimately show ?thesis using within(1) at by (auto simp: lane_batch_def)
qed

lemma lower_limits_total:
  assumes "batcher_ok l b"
  shows "\<exists>b'. lower_limits b mr mb = Some b' \<and> batcher_ok l b' \<and> (\<forall>k. lane_of b' k = lane_of b k)"
  using assms
  by (auto simp: lower_limits_def batcher_ok_def bl_valid_def limits_below_def Let_def)

subsection \<open>Runs\<close>

datatype 't batch_event = Ev_Push journal_identifier 't "value_bytes list" | Ev_Tick | Ev_Lower nat nat

fun batcher_feed :: "'t batch_event \<Rightarrow> 't batch list \<times> 't batcher \<Rightarrow> ('t batch list \<times> 't batcher) option" where
  "batcher_feed (Ev_Push journal token records) (sent, b) = do { (out, b) \<leftarrow> batcher_push b journal token records; Some (sent @ out, b) }"
| "batcher_feed Ev_Tick (sent, b) = do { (out, b) \<leftarrow> batcher_tick b; Some (sent @ out, b) }"
| "batcher_feed (Ev_Lower max_records max_bytes) (sent, b) = do { b \<leftarrow> lower_limits b max_records max_bytes; Some (sent, b) }"

definition batcher_run :: "batch_limits \<Rightarrow> 't batch_event list \<Rightarrow> ('t batch list \<times> 't batcher) option" where
  "batcher_run l events = do { b \<leftarrow> batcher_new l; try_fold batcher_feed events ([], b) }"

text \<open>The writes pushed for a journal and the batches sent for it.\<close>

fun pushed :: "journal_identifier \<Rightarrow> 't batch_event list \<Rightarrow> ('t \<times> value_bytes list) list" where
  "pushed journal (Ev_Push k token records # events) = (if k = journal then (token, records) # pushed journal events else pushed journal events)"
| "pushed journal (_ # events) = pushed journal events"
| "pushed journal [] = []"

abbreviation sent_for :: "journal_identifier \<Rightarrow> 't batch list \<Rightarrow> 't batch list" where
  "sent_for journal sent \<equiv> filter (\<lambda>batch. bt_journal batch = journal) sent"

abbreviation counted_writes :: "('t \<times> value_bytes list) list \<Rightarrow> ('t \<times> nat) list" where
  "counted_writes ws \<equiv> map (\<lambda>(token, records). (token, length records)) ws"

lemma pushed_append: "pushed journal (xs @ ys) = pushed journal xs @ pushed journal ys"
  by (induction journal xs rule: pushed.induct) auto

text \<open>What a journal has pushed fits in the address space.\<close>

definition fits_memory :: "'t batch_event list \<Rightarrow> bool" where
  "fits_memory events \<longleftrightarrow> (\<forall>journal. length (concat (map snd (pushed journal events))) \<le> isize_max \<and>
     total_bytes (concat (map snd (pushed journal events))) \<le> isize_max)"

definition run_ok :: "batch_limits \<Rightarrow> 't batch_event list \<Rightarrow> 't batch list \<times> 't batcher \<Rightarrow> bool" where
  "run_ok l events = (\<lambda>(sent, b). batcher_ok l b \<and> (\<forall>batch \<in> set sent. batch_within l batch) \<and>
     (\<forall>journal. writes_of (sent_for journal sent) @ ln_writes (lane_of b journal) = counted_writes (pushed journal events) \<and>
        records_of (sent_for journal sent) @ ln_records (lane_of b journal) = concat (map snd (pushed journal events))))"

lemma run_okD:
  assumes "run_ok l events (sent, b)"
  shows "batcher_ok l b" "batch \<in> set sent \<Longrightarrow> batch_within l batch"
    "writes_of (sent_for journal sent) @ ln_writes (lane_of b journal) = counted_writes (pushed journal events)"
    "records_of (sent_for journal sent) @ ln_records (lane_of b journal) = concat (map snd (pushed journal events))"
  using assms by (simp_all add: run_ok_def)

lemma batcher_feed_total:
  assumes run: "run_ok l events (sent, b)" and mem: "fits_memory (events @ [e])"
  shows "\<exists>x. batcher_feed e (sent, b) = Some x \<and> run_ok l (events @ [e]) x"
proof (cases e)
  case (Ev_Push journal token records)
  note r = run_okD[OF run]
  have pe: "pushed k (events @ [e]) = pushed k events @ (if k = journal then [(token, records)] else [])" for k using Ev_Push by (simp add: pushed_append)
  have "length (concat (map snd (pushed journal (events @ [e])))) \<le> isize_max \<and> total_bytes (concat (map snd (pushed journal (events @ [e])))) \<le> isize_max"
    using mem unfolding fits_memory_def by blast
  then have "length (concat (map snd (pushed journal events))) + length records \<le> isize_max"
    "total_bytes (concat (map snd (pushed journal events))) + total_bytes records \<le> isize_max"
    by (simp_all add: pe)
  then have room: "length (ln_records (lane_of b journal)) + length records \<le> isize_max"
    "total_bytes (ln_records (lane_of b journal)) + total_bytes records \<le> isize_max"
    unfolding r(4)[of journal, symmetric] by simp_all
  obtain out b' where p: "batcher_push b journal token records = Some (out, b')" "pushes_to l b journal token records out b'"
    using batcher_push_total[OF r(1) room] by blast
  have at: "sent_for k out = (if k = journal then out else [])" for k
    using p(2) by (auto simp: pushes_to_def filter_id_conv filter_empty_conv)
  have "writes_of (sent_for k (sent @ out)) @ ln_writes (lane_of b' k) = counted_writes (pushed k (events @ [e])) \<and>
      records_of (sent_for k (sent @ out)) @ ln_records (lane_of b' k) = concat (map snd (pushed k (events @ [e])))" for k
  proof (cases "k = journal")
    case True
    have "writes_of out @ ln_writes (lane_of b' journal) = ln_writes (lane_of b journal) @ [(token, length records)]"
      "records_of out @ ln_records (lane_of b' journal) = ln_records (lane_of b journal) @ records"
      using p(2) by (simp_all add: pushes_to_def)
    then show ?thesis using True by (simp add: pe at flip: r(3,4))
  next
    case False
    then have "lane_of b' k = lane_of b k" using p(2) by (simp add: pushes_to_def)
    then show ?thesis using False r(3,4)[of k] by (simp add: pe at)
  qed
  then have "run_ok l (events @ [e]) (sent @ out, b')" using p(2) r(2) by (auto simp: run_ok_def pushes_to_def)
  then show ?thesis using p(1) Ev_Push by simp
next
  case Ev_Tick
  note r = run_okD[OF run]
  obtain out b' where t: "batcher_tick b = Some (out, b')" "batcher_ok l b'" "\<forall>batch \<in> set out. batch_within l batch"
    "\<forall>k. ln_writes (lane_of b' k) = [] \<and> ln_records (lane_of b' k) = [] \<and>
       writes_of (sent_for k out) = ln_writes (lane_of b k) \<and> records_of (sent_for k out) = ln_records (lane_of b k)"
    using batcher_tick_total[OF r(1)] by blast
  then have "run_ok l (events @ [e]) (sent @ out, b')" using r Ev_Tick by (auto simp: run_ok_def pushed_append)
  then show ?thesis using t(1) Ev_Tick by simp
next
  case (Ev_Lower mr mb)
  obtain b' where "lower_limits b mr mb = Some b'" "batcher_ok l b'" "\<forall>k. lane_of b' k = lane_of b k"
    using lower_limits_total[OF run_okD(1)[OF run]] by blast
  then show ?thesis using run Ev_Lower by (auto simp: run_ok_def pushed_append)
qed

lemma fits_memory_prefix: "fits_memory (xs @ ys) \<Longrightarrow> fits_memory xs"
proof -
  assume m: "fits_memory (xs @ ys)"
  have "length (concat (map snd (pushed k xs))) \<le> isize_max \<and> total_bytes (concat (map snd (pushed k xs))) \<le> isize_max" for k
    using m[unfolded fits_memory_def, rule_format, of k] by (simp add: pushed_append)
  then show ?thesis unfolding fits_memory_def by blast
qed

lemma batcher_run_total:
  assumes "bl_valid l" "fits_memory (events :: 't batch_event list)"
  shows "\<exists>x. batcher_run l events = Some x \<and> run_ok l events x"
proof -
  let ?b = "\<lparr>ba_limits = l, ba_lanes = fmempty\<rparr> :: 't batcher"
  have new: "batcher_new l = Some ?b" using assms(1) by (simp add: batcher_new_def batcher_pending_def fm_entries_def fm_keys_def)
  have "lane_of ?b journal = lane_new" for journal by (simp add: lane_of_def)
  then have ok: "run_ok l [] ([], ?b)"
    using assms(1) by (simp add: run_ok_def batcher_ok_def limits_below_def lane_within_def bl_valid_def)
  have "\<exists>x. try_fold batcher_feed events ([], ?b) = Some x \<and> run_ok l events x"
    using assms(2)
  proof (induction events rule: rev_induct)
    case Nil
    then show ?case using ok by simp
  next
    case (snoc e events)
    then obtain sent b where x: "try_fold batcher_feed events ([], ?b) = Some (sent, b)" "run_ok l events (sent, b)"
      using fits_memory_prefix by fastforce
    then show ?case using batcher_feed_total[OF x(2) snoc.prems] by (auto simp: try_fold_append)
  qed
  then show ?thesis by (simp add: batcher_run_def new)
qed

subsection \<open>Scattering\<close>

text \<open>The positions of writes that are accepted one after the other.\<close>

fun positions :: "nat \<Rightarrow> ('t \<times> nat) list \<Rightarrow> ('t \<times> nat \<times> nat) list" where
  "positions seq [] = []"
| "positions seq ((token, n) # writes) = (token, seq, n) # positions (seq + n) writes"

lemma positions_append: "positions seq (xs @ ys) = positions seq xs @ positions (seq + total_count xs) ys"
  by (induction seq xs rule: positions.induct) (simp_all add: add.assoc)

lemma length_positions [simp]: "length (positions seq xs) = length xs"
  by (induction seq xs rule: positions.induct) simp_all

lemma scatter_total:
  assumes "seq + total_count writes \<le> u64_max"
  shows "scatter writes seq count = (if count = total_count writes then Some (positions seq writes) else None)"
proof -
  have "at + total_count ws \<le> u64_max \<Longrightarrow> try_fold (\<lambda>(token, n) (at, out). do { next \<leftarrow> checked_add64 at n; Some (next, out @ [(token, at, n)]) }) ws (at, out) =
      Some (at + total_count ws, out @ positions at ws)" for at out and ws :: "('a \<times> nat) list"
  proof (induction ws arbitrary: at out)
    case (Cons w ws)
    obtain t n where w: "w = (t, n)" by fastforce
    then show ?case using Cons.IH[of "at + n" "out @ [(t, at, n)]"] Cons.prems by (simp add: add.assoc checked_add64_def[of at n])
  qed simp
  from this[of seq writes "[]"] show ?thesis
    using assms sum_counts_total[of writes] by (auto simp: scatter_def checked_add64_def[of seq])
qed

text \<open>A sequence of batches accepted one after the other, each answer scattered over its writes.\<close>

fun scatter_all :: "nat \<Rightarrow> 't batch list \<Rightarrow> ('t \<times> nat \<times> nat) list option" where
  "scatter_all seq [] = Some []"
| "scatter_all seq (batch # batches) = do {
     answers \<leftarrow> scatter (bt_writes batch) seq (length (bt_records batch));
     rest \<leftarrow> scatter_all (seq + length (bt_records batch)) batches;
     Some (answers @ rest)
   }"

lemma scatter_all_total:
  assumes "\<forall>batch \<in> set batches. total_count (bt_writes batch) = length (bt_records batch)" "seq + total_count (writes_of batches) \<le> u64_max"
  shows "scatter_all seq batches = Some (positions seq (writes_of batches))"
  using assms
proof (induction batches arbitrary: seq)
  case (Cons batch batches)
  have "scatter (bt_writes batch) seq (length (bt_records batch)) = Some (positions seq (bt_writes batch))"
    using Cons.prems by (subst scatter_total) auto
  then show ?case using Cons.IH[of "seq + length (bt_records batch)"] Cons.prems by (simp add: positions_append add.assoc)
qed simp

section \<open>Properties\<close>


definition sample_limits :: batch_limits where
  "sample_limits = \<lparr>bl_max_records = 3, bl_max_bytes = 8, bl_flush_records = 2\<rparr>"

definition sample_journal :: journal_identifier where
  "sample_journal = \<lparr>ji_tenant = 1, ji_journal = 1\<rparr>"

definition sample_events :: "nat batch_event list" where
  "sample_events = [Ev_Push sample_journal 7 [[1]], Ev_Push sample_journal 8 [[2], [3]], Ev_Push sample_journal 9 [], Ev_Tick]"

lemma sample_ok: "bl_valid sample_limits" "fits_memory sample_events"
  by (simp_all add: bl_valid_def sample_limits_def fits_memory_def sample_events_def isize_max_def)


text \<open>C39: merging and scattering is sending each write alone. When the batches a run has sent for a journal
  are accepted one after the other from a position on, and nothing of the journal is left in its lane, the
  records accepted are those of the writes pushed, in order, and scattering each answer gives every write,
  once and in order, the position and the count it would have had alone.\<close>

theorem scatter_inverts_batching:
  assumes "bl_valid l" "fits_memory events" "batcher_run l events = Some (sent, b)"
    and "case fmlookup (ba_lanes b) journal of None \<Rightarrow> True | Some lane \<Rightarrow> ln_writes lane = []"
    and "seq + length (concat (map snd (pushed journal events))) \<le> u64_max"
  shows "scatter_all seq (sent_for journal sent) = Some (positions seq (counted_writes (pushed journal events))) \<and>
    records_of (sent_for journal sent) = concat (map snd (pushed journal events))"
proof -
  have run: "run_ok l events (sent, b)" using batcher_run_total[OF assms(1,2)] assms(3) by auto
  note r = run_okD[OF run]
  have "ln_writes (lane_of b journal) = []" using assms(4) by (simp add: lane_of_def split: option.splits)
  then have "lane_of b journal = lane_new" using lane_empty[OF batcher_okD(2)[OF r(1)]] by blast
  then have w: "writes_of (sent_for journal sent) = counted_writes (pushed journal events)"
    "records_of (sent_for journal sent) = concat (map snd (pushed journal events))" using r(3,4)[of journal] by simp_all
  have "total_count (counted_writes ws) = length (concat (map snd ws))" for ws :: "('a \<times> value_bytes list) list"
    by (induction ws) auto
  then have "seq + total_count (writes_of (sent_for journal sent)) \<le> u64_max" using assms(5) w(1) by simp
  moreover have "\<forall>batch \<in> set (sent_for journal sent). total_count (bt_writes batch) = length (bt_records batch)"
    using r(2) by (simp add: batch_within_def)
  ultimately show ?thesis using scatter_all_total[of "sent_for journal sent" seq] w by simp
qed

theorem scatter_inverts_batching_witness:
  "\<exists>sent b. batcher_run sample_limits sample_events = Some (sent, b) \<and>
    scatter_all 10 (sent_for sample_journal sent) = Some [(7, 10, 1), (8, 11, 2), (9, 13, 0)]"
proof -
  obtain sent b where run: "batcher_run sample_limits sample_events = Some (sent, b)" "run_ok sample_limits sample_events (sent, b)"
    using batcher_run_total[OF sample_ok] by auto
  obtain sent' b' where "batcher_run sample_limits (butlast sample_events) = Some (sent', b')"
    using batcher_run_total[OF sample_ok(1) fits_memory_prefix[of "butlast sample_events" "[Ev_Tick]"]] sample_ok(2) by (auto simp: sample_events_def)
  then have "ba_lanes b = fmempty"
    using run(1) by (auto simp: batcher_run_def sample_events_def bind_Some_iff batcher_tick_def Let_def)
  then show ?thesis
    using scatter_inverts_batching[OF sample_ok run(1), of sample_journal 10] run(1) by (simp add: sample_events_def u64_max_def)
qed

end
