(* ===== verification/Messages.thy ===== *)
theory Messages
  imports Journal Registry
begin

section \<open>The messages of the protocol\<close>

text \<open>
  \<^verbatim>\<open>paros-core/src/contract/message.rs\<close>: who a reply goes to, the audience of an outbound message and how the
  driver's map resolves it to nodes, and the messages themselves.
\<close>

datatype party = Party_Node node_id | Party_Proxy proxy_id

datatype audience =
    Audience_Node node_id
  | Audience_Proxy proxy_id
  | AcceptorsOf node_config "nat option"
  | Learners

fun party_audience :: "party \<Rightarrow> audience" where
  "party_audience (Party_Node node) = Audience_Node node"
| "party_audience (Party_Proxy proxy) = Audience_Proxy proxy"

fun party_node :: "party \<Rightarrow> node_id option" where
  "party_node (Party_Node node) = Some node"
| "party_node (Party_Proxy _) = None"

fun audience_proxy :: "audience \<Rightarrow> proxy_id option" where
  "audience_proxy (Audience_Proxy proxy) = Some proxy"
| "audience_proxy _ = None"

fun resolve_unfiltered :: "audience \<Rightarrow> node_id list \<Rightarrow> node_id option \<Rightarrow> node_id list option" where
  "resolve_unfiltered (Audience_Node to) pool me = Some [to]"
| "resolve_unfiltered (Audience_Proxy _) pool me = Some []"
| "resolve_unfiltered (AcceptorsOf config column) pool me = do {
     addressees \<leftarrow> ac_phase2_addressees config column;
     Some (filter (\<lambda>p. Some p \<noteq> me) addressees)
   }"
| "resolve_unfiltered Learners pool me = Some (filter (\<lambda>p. Some p \<noteq> me) pool)"

definition resolve_excluding :: "audience \<Rightarrow> node_id list \<Rightarrow> node_id option \<Rightarrow> node_id list option" where
  "resolve_excluding a pool me = do {
     resolved \<leftarrow> resolve_unfiltered a pool me;
     (if audience_proxy a \<noteq> None then check (resolved = []) else Some ());
     (case me of None \<Rightarrow> Some ()
      | Some me \<Rightarrow> (case a of Audience_Node _ \<Rightarrow> Some () | _ \<Rightarrow> check (me \<notin> set resolved)));
     Some resolved
   }"

definition resolve :: "audience \<Rightarrow> node_id list \<Rightarrow> node_id \<Rightarrow> node_id list option" where
  "resolve a pool me = resolve_excluding a pool (Some me)"

definition resolve_from_proxy :: "audience \<Rightarrow> node_id list \<Rightarrow> node_id list option" where
  "resolve_from_proxy a pool = resolve_excluding a pool None"

text \<open>A message, with the fields of its constructor in the order of the source: \<open>Msg_Prepare\<close> carries the
  reply address, the ballot, the first slot and the configuration; \<open>Msg_Promise\<close> the sender, the ballot, the
  first slot, the accepted records, the faulty slots and the next cursor; \<open>Msg_Accept\<close> the reply party, the
  leader, the ballot, the slot, the command and the configuration.\<close>

datatype message =
    Msg_Prepare node_id ballot slot "node_config option"
  | Msg_Promise node_id ballot slot "(slot, ballot \<times> command) fmap" "(slot, ballot) fmap" "slot option"
  | Msg_Accept party node_id ballot slot command "node_config option"
  | Msg_Accepted node_id ballot slot fingerprint
  | Msg_Nack node_id ballot slot
  | Msg_Commit party ballot slot command
  | Msg_CatchUpRequest node_id slot
  | Msg_CatchUpResponse node_id "(slot, ballot \<times> command) fmap"
  | Msg_TrimmedTo node_id slot journal_state
  | Msg_Relinquish node_id node_id ballot slot slot "(slot, ballot \<times> command) fmap" "(slot, command) fmap" "node_config option" "node_config list"
  | Msg_Heartbeat node_id ballot "slot option" "node_config option" "slot option"
  | Msg_PreRead node_id nat
  | Msg_PreReadAck node_id nat "slot option" "ballot option"
  | Msg_HeartbeatAck node_id ballot "slot option"

text \<open>A configuration's fan-out resolves without a panic to its addressees other than the sender.\<close>

lemma resolve_acceptors:
  assumes "ac_phase2_addressees config column = Some to"
  shows "resolve_excluding (AcceptorsOf config column) pool me = Some (filter (\<lambda>p. Some p \<noteq> me) to)"
  using assms by (simp add: resolve_excluding_def split: option.split)

end
