(* ===== verification/Proxy_Leader.thy ===== *)
theory Proxy_Leader
  imports Messages Rounds
begin

section \<open>Proxy leaders\<close>

text \<open>
  \<^verbatim>\<open>paros-core/src/proxy_leader.rs\<close> and \<^verbatim>\<open>proxy_leader/ready.rs\<close>: a Phase-2 tally on a process of its own. A
  leader delegates rounds to it; the proxy fans the accepts out, counts the votes and announces the
  decisions. The counters are 64-bit and wrap, as they do in a release build; no decision reads them.
\<close>

definition DONE_MEMORY :: nat where
  "DONE_MEMORY = 1024"

record proxy_counters =
  pc_delegated :: nat
  pc_refanned :: nat
  pc_ignored :: nat
  pc_decided :: nat
  pc_relayed_nacks :: nat
  pc_superseded :: nat
  pc_expired :: nat

definition wrapping_inc :: "nat \<Rightarrow> nat" where
  "wrapping_inc n = (n + 1) mod (u64_max + 1)"

record proxy_leader =
  px_id :: proxy_id
  px_acceptors :: node_config
  px_acceptors_since :: ballot
  px_ballot :: ballot
  px_rounds :: "(node_id, command) rounds"
  px_delegators :: "(slot, node_id) fmap"
  px_done :: "(slot, ballot) fmap"
  px_pending_messages :: "(audience \<times> message) list"
  px_counters :: proxy_counters

abbreviation px_by_slot :: "proxy_leader \<Rightarrow> (slot, (node_id, command) round) fmap" where
  "px_by_slot p \<equiv> rs_by_slot (px_rounds p)"

definition px_assert_invariants :: "proxy_leader \<Rightarrow> unit option" where
  "px_assert_invariants p = do {
     check (list_all (\<lambda>slot. fmlookup (px_delegators p) slot \<noteq> None) (fm_keys (px_by_slot p)));
     check (list_all (\<lambda>slot. fmlookup (px_by_slot p) slot \<noteq> None) (fm_keys (px_delegators p)));
     check (list_all (\<lambda>(_, r). rd_proxy r = None) (fm_entries (px_by_slot p)));
     check (rounds_all_at (px_rounds p) (px_ballot p));
     check (fm_len (px_done p) \<le> DONE_MEMORY)
   }"

definition px_new :: "proxy_id \<Rightarrow> node_config \<Rightarrow> proxy_leader option" where
  "px_new id' acceptors = do {
     let p = \<lparr>px_id = id', px_acceptors = acceptors, px_acceptors_since = ballot_zero, px_ballot = ballot_zero,
        px_rounds = rounds_default, px_delegators = fmempty, px_done = fmempty, px_pending_messages = [],
        px_counters = \<lparr>pc_delegated = 0, pc_refanned = 0, pc_ignored = 0, pc_decided = 0, pc_relayed_nacks = 0,
          pc_superseded = 0, pc_expired = 0\<rparr>\<rparr>;
     px_assert_invariants p;
     Some p
   }"

definition px_fan_out :: "proxy_leader \<Rightarrow> node_id \<Rightarrow> ballot \<Rightarrow> slot \<Rightarrow> command \<Rightarrow> nat option \<Rightarrow> proxy_leader option" where
  "px_fan_out p leader ballot slot command column = do {
     check (ballot = px_ballot p);
     let queued = length (px_pending_messages p);
     let p = p\<lparr>px_pending_messages := px_pending_messages p @
        [(AcceptorsOf (px_acceptors p) column, Msg_Accept (Party_Proxy (px_id p)) leader ballot slot command None)]\<rparr>;
     check (length (px_pending_messages p) = queued + 1);
     Some p
   }"

definition px_learn_config :: "proxy_leader \<Rightarrow> ballot \<Rightarrow> node_config option \<Rightarrow> proxy_leader option" where
  "px_learn_config p ballot config = (case config of
       None \<Rightarrow> Some p
     | Some config \<Rightarrow>
         if ballot \<le> px_acceptors_since p then Some p
         else do {
           let since = px_acceptors_since p;
           let p = p\<lparr>px_acceptors := config, px_acceptors_since := ballot\<rparr>;
           check (px_acceptors_since p > since);
           Some p
         })"

text \<open>One round that a proxy closes because its leadership is superseded, or because nobody answered it.\<close>

definition px_supersede :: "slot \<Rightarrow> proxy_leader \<Rightarrow> proxy_leader" where
  "px_supersede slot p = p\<lparr>px_delegators := fmdrop slot (px_delegators p),
     px_counters := (px_counters p)\<lparr>pc_superseded := wrapping_inc (pc_superseded (px_counters p))\<rparr>\<rparr>"

definition px_close_below :: "proxy_leader \<Rightarrow> ballot \<Rightarrow> proxy_leader option" where
  "px_close_below p ballot = do {
     (closed, rounds) \<leftarrow> rounds_close_below (px_rounds p) ballot;
     let p = fold px_supersede closed (p\<lparr>px_rounds := rounds\<rparr>);
     check (rounds_all_at (px_rounds p) ballot);
     Some p
   }"

definition px_count_ignored :: "proxy_leader \<Rightarrow> proxy_leader" where
  "px_count_ignored p = p\<lparr>px_counters := (px_counters p)\<lparr>pc_ignored := wrapping_inc (pc_ignored (px_counters p))\<rparr>\<rparr>"

definition px_on_delegated ::
  "proxy_leader \<Rightarrow> party \<Rightarrow> node_id \<Rightarrow> ballot \<Rightarrow> slot \<Rightarrow> command \<Rightarrow> node_config option \<Rightarrow> proxy_leader option" where
  "px_on_delegated p reply_to leader ballot slot command config = (
     if reply_to \<noteq> Party_Proxy (px_id p) then Some (px_count_ignored p)
     else if ballot < px_ballot p then Some (px_count_ignored p)
     else do {
       p \<leftarrow> (if ballot > px_ballot p then px_close_below (p\<lparr>px_ballot := ballot\<rparr>) ballot else Some p);
       p \<leftarrow> px_learn_config p ballot config;
       if fmlookup (px_done p) slot = Some ballot then Some (px_count_ignored p)
       else do {
         column \<leftarrow> ac_column_of (px_acceptors p) slot;
         case fmlookup (px_by_slot p) slot of
           Some rd \<Rightarrow>
             if rd_ballot rd = ballot then do {
               check (rd_command rd = command);
               let p = p\<lparr>px_delegators := fmupd slot leader (px_delegators p),
                  px_counters := (px_counters p)\<lparr>pc_refanned := wrapping_inc (pc_refanned (px_counters p))\<rparr>\<rparr>;
               px_fan_out p leader ballot slot command column
             }
             else None
         | None \<Rightarrow> do {
             rounds \<leftarrow> rounds_open (px_rounds p) slot ballot command None column;
             let p = p\<lparr>px_rounds := rounds, px_delegators := fmupd slot leader (px_delegators p),
                px_counters := (px_counters p)\<lparr>pc_delegated := wrapping_inc (pc_delegated (px_counters p))\<rparr>\<rparr>;
             p \<leftarrow> px_fan_out p leader ballot slot command column;
             check (rounds_is_open_at (px_rounds p) slot ballot);
             check (fmlookup (px_delegators p) slot = Some leader);
             Some p
           }
       }
     })"

text \<open>The memory of decided rounds, trimmed from its lowest slot.\<close>

function done_trim :: "(slot, ballot) fmap \<Rightarrow> (slot, ballot) fmap" where
  "done_trim m = (if fm_len m > DONE_MEMORY
     then (case fm_first m of None \<Rightarrow> m | Some slot \<Rightarrow> done_trim (fmdrop slot m)) else m)"
  by auto
termination
  by (relation "measure fm_len") (auto simp: fm_len_def card_gt_0_iff intro!: card_Diff1_less dest!: fm_first_SomeD)

definition px_remember_done :: "proxy_leader \<Rightarrow> slot \<Rightarrow> ballot \<Rightarrow> proxy_leader option" where
  "px_remember_done p slot ballot = do {
     check (ballot = px_ballot p);
     let p = p\<lparr>px_done := done_trim (fmupd slot ballot (px_done p))\<rparr>;
     check (fm_len (px_done p) \<le> DONE_MEMORY);
     Some p
   }"

definition px_on_accepted :: "proxy_leader \<Rightarrow> node_id \<Rightarrow> ballot \<Rightarrow> slot \<Rightarrow> fingerprint \<Rightarrow> proxy_leader option" where
  "px_on_accepted p from ballot slot vhash = do {
     (counted, rounds) \<leftarrow> rounds_fold_accepted_in command_fingerprint (px_rounds p) (px_acceptors p) from ballot slot vhash;
     let p = p\<lparr>px_rounds := rounds\<rparr>;
     if \<not> counted then Some p
     else do {
       decided \<leftarrow> rounds_decided (px_rounds p) slot (px_acceptors p);
       case decided of
         None \<Rightarrow> Some p
       | Some (ballot, command) \<Rightarrow> do {
           check (command_fingerprint command = vhash);
           let p = p\<lparr>px_rounds := rounds_close (px_rounds p) slot, px_delegators := fmdrop slot (px_delegators p)\<rparr>;
           p \<leftarrow> px_remember_done p slot ballot;
           let p = p\<lparr>px_counters := (px_counters p)\<lparr>pc_decided := wrapping_inc (pc_decided (px_counters p))\<rparr>\<rparr>;
           check (rounds_column (px_rounds p) slot = None);
           check (fmlookup (px_delegators p) slot = None);
           Some (p\<lparr>px_pending_messages := px_pending_messages p @ [(Learners, Msg_Commit (Party_Proxy (px_id p)) ballot slot command)]\<rparr>)
         }
     }
   }"

definition px_on_nack :: "proxy_leader \<Rightarrow> node_id \<Rightarrow> ballot \<Rightarrow> slot \<Rightarrow> proxy_leader option" where
  "px_on_nack p from ballot slot = do {
     member \<leftarrow> ac_contains (px_acceptors p) from;
     if \<not> member \<or> \<not> rounds_is_open_at (px_rounds p) slot ballot then Some p
     else do {
       let p = p\<lparr>px_rounds := rounds_close (px_rounds p) slot\<rparr>;
       case fmlookup (px_delegators p) slot of
         None \<Rightarrow> Some p
       | Some leader \<Rightarrow> do {
           let p = p\<lparr>px_delegators := fmdrop slot (px_delegators p),
              px_counters := (px_counters p)\<lparr>pc_relayed_nacks := wrapping_inc (pc_relayed_nacks (px_counters p))\<rparr>\<rparr>;
           check (\<not> rounds_is_open_at (px_rounds p) slot ballot);
           Some (p\<lparr>px_pending_messages := px_pending_messages p @ [(Audience_Node leader, Msg_Nack from ballot slot)]\<rparr>)
         }
     }
   }"

definition px_step :: "proxy_leader \<Rightarrow> message \<Rightarrow> proxy_leader option" where
  "px_step p msg = do {
     let ballot = px_ballot p;
     let since = px_acceptors_since p;
     p \<leftarrow> (case msg of
         Msg_Accept reply_to leader ballot slot command config \<Rightarrow> px_on_delegated p reply_to leader ballot slot command config
       | Msg_Accepted from ballot slot vhash \<Rightarrow> px_on_accepted p from ballot slot vhash
       | Msg_Nack from ballot slot \<Rightarrow> px_on_nack p from ballot slot
       | _ \<Rightarrow> Some p);
     check (px_ballot p \<ge> ballot);
     check (px_acceptors_since p \<ge> since);
     px_assert_invariants p;
     Some p
   }"

definition px_resend_pending :: "proxy_leader \<Rightarrow> proxy_leader option" where
  "px_resend_pending p = do {
     let ballot = px_ballot p;
     (accepts, rounds) \<leftarrow> rounds_resend_page (px_rounds p) RESEND_BATCH;
     p \<leftarrow> try_fold (\<lambda>accept p. do {
         leader \<leftarrow> fmlookup (px_delegators p) (pa_slot accept);
         px_fan_out p leader (pa_ballot accept) (pa_slot accept) (pa_command accept) (pa_column accept)
       }) accepts (p\<lparr>px_rounds := rounds\<rparr>);
     check (px_ballot p = ballot);
     px_assert_invariants p;
     Some p
   }"

definition px_has_pending_accepts :: "proxy_leader \<Rightarrow> bool option" where
  "px_has_pending_accepts p = do {
     let pending = (\<not> rounds_is_empty (px_rounds p));
     check (pending \<noteq> (px_delegators p = fmempty));
     Some pending
   }"

definition px_evict :: "slot \<Rightarrow> proxy_leader \<Rightarrow> proxy_leader" where
  "px_evict slot p = p\<lparr>px_rounds := rounds_close (px_rounds p) slot, px_delegators := fmdrop slot (px_delegators p),
     px_counters := (px_counters p)\<lparr>pc_expired := wrapping_inc (pc_expired (px_counters p))\<rparr>\<rparr>"

definition px_expire_stale :: "proxy_leader \<Rightarrow> nat \<Rightarrow> (slot list \<times> proxy_leader) option" where
  "px_expire_stale p after = do {
     stale \<leftarrow> rounds_stalled (px_rounds p) after;
     check (list_all (\<lambda>slot. case fmlookup (px_by_slot p) slot of None \<Rightarrow> False | Some r \<Rightarrow> rd_resends r \<ge> after) stale);
     let p = fold px_evict stale p;
     check (list_all (\<lambda>slot. rounds_column (px_rounds p) slot = None) stale);
     check (list_all (\<lambda>(_, r). rd_resends r < after) (fm_entries (px_by_slot p)));
     px_assert_invariants p;
     Some (stale, p)
   }"

definition px_delegator :: "proxy_leader \<Rightarrow> slot \<Rightarrow> node_id option option" where
  "px_delegator p slot = do {
     let delegator = fmlookup (px_delegators p) slot;
     (if delegator \<noteq> None then check (rounds_column (px_rounds p) slot \<noteq> None) else Some ());
     Some delegator
   }"

subsection \<open>The batch\<close>

definition px_messages :: "proxy_leader \<Rightarrow> (audience \<times> message) list option" where
  "px_messages p = do {
     let messages = px_pending_messages p;
     check (list_all (\<lambda>(_, m). case m of
         Msg_Accept reply_to _ _ _ _ _ \<Rightarrow> reply_to = Party_Proxy (px_id p)
       | Msg_Commit from _ _ _ \<Rightarrow> from = Party_Proxy (px_id p)
       | _ \<Rightarrow> True) messages);
     check (list_all (\<lambda>(_, m). case m of
         Msg_Accept _ _ ballot _ _ _ \<Rightarrow> ballot \<le> px_ballot p
       | Msg_Commit _ ballot _ _ \<Rightarrow> ballot \<le> px_ballot p
       | _ \<Rightarrow> True) messages);
     Some messages
   }"

definition px_advance :: "proxy_leader \<Rightarrow> proxy_leader" where
  "px_advance p = p\<lparr>px_pending_messages := []\<rparr>"

section \<open>What a proxy guarantees\<close>

text \<open>The leaders' side of the contract: a ballot has one configuration, and proposes one command for a slot.\<close>

type_synonym proposal_plan = "ballot \<Rightarrow> slot \<Rightarrow> command"

text \<open>A decision that rests on the votes: a Phase-2 quorum of the ballot's configuration voted for the command
  the ballot proposes at the slot.\<close>

definition chosen_by :: "(ballot \<Rightarrow> node_config) \<Rightarrow> proposal_plan \<Rightarrow> node_id vote set \<Rightarrow> ballot \<Rightarrow> slot \<Rightarrow> command \<Rightarrow> bool" where
  "chosen_by conf cmd V b slot c \<longleftrightarrow> c = cmd b slot \<and>
     (\<exists>Q column. phase2_holds (ac_quorum_system (conf b)) (ac_members (conf b)) Q column \<and>
        (\<forall>n \<in> Q. (n, slot, b, command_fingerprint c) \<in> V))"

fun said_ok :: "(ballot \<Rightarrow> node_config) \<Rightarrow> proposal_plan \<Rightarrow> node_id vote set \<Rightarrow> proxy_id \<Rightarrow> ballot \<Rightarrow> audience \<times> message \<Rightarrow> bool" where
  "said_ok conf cmd V i b (a, Msg_Accept reply_to leader b' slot c config) \<longleftrightarrow>
     reply_to = Party_Proxy i \<and> b' \<le> b \<and> c = cmd b' slot \<and> config = None \<and> (\<exists>column. a = AcceptorsOf (conf b') column \<and> column_ok (conf b') column)"
| "said_ok conf cmd V i b (a, Msg_Commit from b' slot c) \<longleftrightarrow> a = Learners \<and> from = Party_Proxy i \<and> b' \<le> b \<and> chosen_by conf cmd V b' slot c"
| "said_ok conf cmd V i b (a, Msg_Nack from b' slot) \<longleftrightarrow> (\<exists>leader. a = Audience_Node leader)"
| "said_ok conf cmd V i b (a, _) \<longleftrightarrow> False"

lemma chosen_by_mono: "chosen_by conf cmd V b slot c \<Longrightarrow> V \<subseteq> W \<Longrightarrow> chosen_by conf cmd W b slot c"
  unfolding chosen_by_def by blast

lemma said_ok_mono: "said_ok conf cmd V i b x \<Longrightarrow> V \<subseteq> W \<Longrightarrow> b \<le> b2 \<Longrightarrow> said_ok conf cmd W i b2 x"
  by (induction conf cmd V i b x rule: said_ok.induct) (auto intro: chosen_by_mono order_trans)

definition px_ok :: "node_config \<Rightarrow> (ballot \<Rightarrow> node_config) \<Rightarrow> proposal_plan \<Rightarrow> node_id vote set \<Rightarrow> proxy_leader \<Rightarrow> bool" where
  "px_ok boot conf cmd V p \<longleftrightarrow> config_ok (px_acceptors p) \<and> px_acceptors_since p \<le> px_ballot p \<and>
     (px_acceptors p = conf (px_ballot p) \<or> px_ballot p = ballot_zero \<and> px_acceptors p = boot \<and> px_by_slot p = fmempty) \<and>
     rounds_ok (px_acceptors p) command_fingerprint V (px_rounds p) \<and>
     (\<forall>slot rd. fmlookup (px_by_slot p) slot = Some rd \<longrightarrow> rd_ballot rd = px_ballot p \<and> rd_command rd = cmd (px_ballot p) slot \<and> rd_proxy rd = None) \<and>
     fmdom' (px_delegators p) = fmdom' (px_by_slot p) \<and> fm_len (px_done p) \<le> DONE_MEMORY \<and>
     (\<forall>x \<in> set (px_pending_messages p). said_ok conf cmd V (px_id p) (px_ballot p) x)"

lemma px_okD:
  assumes "px_ok boot conf cmd V p"
  shows "config_ok (px_acceptors p)" "px_acceptors_since p \<le> px_ballot p"
    "px_acceptors p = conf (px_ballot p) \<or> px_ballot p = ballot_zero \<and> px_acceptors p = boot \<and> px_by_slot p = fmempty"
    "rounds_ok (px_acceptors p) command_fingerprint V (px_rounds p)"
    "fmlookup (px_by_slot p) slot = Some rd \<Longrightarrow> rd_ballot rd = px_ballot p"
    "fmlookup (px_by_slot p) slot = Some rd \<Longrightarrow> rd_command rd = cmd (px_ballot p) slot"
    "fmlookup (px_by_slot p) slot = Some rd \<Longrightarrow> rd_proxy rd = None"
    "fmdom' (px_delegators p) = fmdom' (px_by_slot p)" "fm_len (px_done p) \<le> DONE_MEMORY"
    "x \<in> set (px_pending_messages p) \<Longrightarrow> said_ok conf cmd V (px_id p) (px_ballot p) x"
  using assms unfolding px_ok_def by blast+

lemma px_ok_counters [simp]: "px_ok boot conf cmd V (p\<lparr>px_counters := n\<rparr>) = px_ok boot conf cmd V p"
  by (simp add: px_ok_def)

lemma fm_lists_empty [simp]: "fm_keys fmempty = []" "fm_entries fmempty = []"
  by (simp_all add: fm_keys_def fm_entries_def)

lemma px_assert_total [total_simps]:
  assumes "px_ok boot conf cmd V p"
  shows "px_assert_invariants p = Some ()"
proof -
  note d = px_okD[OF assms]
  have "fmlookup (px_delegators p) slot \<noteq> None \<longleftrightarrow> fmlookup (px_by_slot p) slot \<noteq> None" for slot
    using d(8) by (simp only: flip: fmdom'_iff)
  then have "list_all (\<lambda>slot. fmlookup (px_delegators p) slot \<noteq> None) (fm_keys (px_by_slot p))"
    "list_all (\<lambda>slot. fmlookup (px_by_slot p) slot \<noteq> None) (fm_keys (px_delegators p))"
    by (auto simp: list_all_iff fmlookup_dom'_iff)
  moreover have "list_all (\<lambda>(_, r). rd_proxy r = None) (fm_entries (px_by_slot p))" "rounds_all_at (px_rounds p) (px_ballot p)"
    using d(5,7) by (auto simp: list_all_iff rounds_all_at_def)
  ultimately show ?thesis using d(9) by (simp add: px_assert_invariants_def)
qed

lemma px_new_total [total_simps]:
  assumes "config_ok boot"
  shows "\<exists>p. px_new i boot = Some p \<and> px_ok boot conf cmd {} p \<and> px_id p = i \<and> px_pending_messages p = []"
  using assms by (simp add: px_new_def px_ok_def px_assert_invariants_def rounds_default_def rounds_all_at_def Let_def rounds_ok_def)

text \<open>The fan-out of a round that is open here.\<close>

definition fanned :: "node_id \<Rightarrow> slot \<Rightarrow> command \<Rightarrow> nat option \<Rightarrow> proxy_leader \<Rightarrow> proxy_leader" where
  "fanned leader slot c column p = p\<lparr>px_pending_messages := px_pending_messages p @
     [(AcceptorsOf (px_acceptors p) column, Msg_Accept (Party_Proxy (px_id p)) leader (px_ballot p) slot c None)]\<rparr>"

lemma px_fan_out_total [total_simps]: "px_fan_out p leader (px_ballot p) slot c column = Some (fanned leader slot c column p)"
  by (simp add: px_fan_out_def fanned_def Let_def)

lemma fanned_ok:
  assumes "px_ok boot conf cmd V p" "px_acceptors p = conf (px_ballot p)" "column_ok (px_acceptors p) column"
  shows "px_ok boot conf cmd V (fanned leader slot (cmd (px_ballot p) slot) column p)"
  using assms by (auto simp: px_ok_def fanned_def)

subsection \<open>A higher ballot\<close>

lemma fold_fmdrop: "fmlookup (fold fmdrop ks m) k = (if k \<in> set ks then None else fmlookup m k)"
  by (induction ks arbitrary: m) auto

lemma fold_fmdrop_all: "fold fmdrop (fm_keys m) m = fmempty"
  by (rule fmap_ext) (auto simp: fold_fmdrop fmdom'_iff)

lemma fold_supersede: "\<exists>n. fold px_supersede ks p = p\<lparr>px_delegators := fold fmdrop ks (px_delegators p), px_counters := n\<rparr>"
proof (induction ks arbitrary: p)
  case Nil
  have "p = p\<lparr>px_delegators := px_delegators p, px_counters := px_counters p\<rparr>" by simp
  then show ?case by (simp only: fold.simps id_apply) blast
next
  case (Cons k ks)
  obtain n where "fold px_supersede ks (px_supersede k p) =
      (px_supersede k p)\<lparr>px_delegators := fold fmdrop ks (px_delegators (px_supersede k p)), px_counters := n\<rparr>" using Cons.IH by blast
  then have "fold px_supersede (k # ks) p = p\<lparr>px_delegators := fold fmdrop (k # ks) (px_delegators p), px_counters := n\<rparr>"
    by (simp add: px_supersede_def[of k])
  then show ?case by blast
qed

lemma close_below_total:
  assumes ok: "px_ok boot conf cmd V p" and b: "px_ballot p < b"
  shows "\<exists>n. px_close_below (p\<lparr>px_ballot := b\<rparr>) b =
    Some (p\<lparr>px_ballot := b, px_rounds := (px_rounds p)\<lparr>rs_by_slot := fmempty\<rparr>, px_delegators := fmempty, px_counters := n\<rparr>)"
proof -
  have "filter (\<lambda>(_, r). rd_ballot r < b) (fm_entries (px_by_slot p)) = fm_entries (px_by_slot p)"
    using px_okD(5)[OF ok] b by (auto simp: filter_id_conv)
  then have rs: "rounds_close_below (px_rounds p) b = Some (fm_keys (px_by_slot p), (px_rounds p)\<lparr>rs_by_slot := fmempty\<rparr>)"
    by (simp add: rounds_close_below_def Let_def fold_fmdrop_all list_all_iff)
  have "fm_keys (px_delegators p) = fm_keys (px_by_slot p)" using px_okD(8)[OF ok] by (simp add: fm_keys_def)
  then have "fold fmdrop (fm_keys (px_by_slot p)) (px_delegators p) = fmempty" using fold_fmdrop_all[of "px_delegators p"] by simp
  then obtain n where "fold px_supersede (fm_keys (px_by_slot p)) (p\<lparr>px_ballot := b, px_rounds := (px_rounds p)\<lparr>rs_by_slot := fmempty\<rparr>\<rparr>) =
      p\<lparr>px_ballot := b, px_rounds := (px_rounds p)\<lparr>rs_by_slot := fmempty\<rparr>, px_delegators := fmempty, px_counters := n\<rparr>"
    using fold_supersede[of "fm_keys (px_by_slot p)" "p\<lparr>px_ballot := b, px_rounds := (px_rounds p)\<lparr>rs_by_slot := fmempty\<rparr>\<rparr>"] by auto
  then show ?thesis using rs by (auto simp: px_close_below_def rounds_all_at_def Let_def)
qed

text \<open>A delegation that meets the contract: the ballot's command, with the ballot's configuration or, in a
  deployment whose configuration is fixed, with none.\<close>

definition delegation_ok :: "node_config \<Rightarrow> (ballot \<Rightarrow> node_config) \<Rightarrow> proposal_plan \<Rightarrow> ballot \<Rightarrow> slot \<Rightarrow> command \<Rightarrow> node_config option \<Rightarrow> bool" where
  "delegation_ok boot conf cmd b slot c config \<longleftrightarrow> c = cmd b slot \<and>
     (config = Some (conf b) \<and> ballot_zero < b \<or> config = None \<and> (\<forall>b. conf b = boot))"

lemma enter_ballot:
  assumes ok: "px_ok boot conf cmd V p" and conf: "\<And>b. config_ok (conf b)" and d: "delegation_ok boot conf cmd b slot c config" and b: "px_ballot p \<le> b"
  shows "\<exists>p1. do { p \<leftarrow> (if b > px_ballot p then px_close_below (p\<lparr>px_ballot := b\<rparr>) b else Some p); px_learn_config p b config } = Some p1 \<and>
    px_ok boot conf cmd V p1 \<and> px_ballot p1 = b \<and> px_acceptors p1 = conf b \<and> px_id p1 = px_id p \<and> px_acceptors_since p \<le> px_acceptors_since p1"
proof -
  note d' = px_okD[OF ok]
  have kept: "px_learn_config q b config = Some (if config \<noteq> None \<and> px_acceptors_since q < b then q\<lparr>px_acceptors := conf b, px_acceptors_since := b\<rparr> else q)" for q
    using d by (auto simp: px_learn_config_def delegation_ok_def Let_def)
  show ?thesis
  proof (cases "b = px_ballot p")
    case True
    have acc: "px_acceptors p = conf b"
    proof (rule ccontr)
      assume no: "px_acceptors p \<noteq> conf b"
      then have "px_ballot p = ballot_zero" "px_acceptors p = boot" using d'(3) True by auto
      then show False using d no True by (auto simp: delegation_ok_def)
    qed
    show ?thesis
    proof (cases "config \<noteq> None \<and> px_acceptors_since p < b")
      case True
      let ?p = "p\<lparr>px_acceptors := conf b, px_acceptors_since := b\<rparr>"
      have "px_ok boot conf cmd V ?p" using ok acc \<open>b = px_ballot p\<close> by (auto simp: px_ok_def)
      then show ?thesis using True kept[of p] \<open>b = px_ballot p\<close> d'(2) by auto
    next
      case False
      then show ?thesis using kept[of p] True ok acc by auto
    qed
  next
    case False
    then have up: "px_ballot p < b" using b by simp
    obtain n where n: "px_close_below (p\<lparr>px_ballot := b\<rparr>) b =
        Some (p\<lparr>px_ballot := b, px_rounds := (px_rounds p)\<lparr>rs_by_slot := fmempty\<rparr>, px_delegators := fmempty, px_counters := n\<rparr>)"
      using close_below_total[OF ok up] by blast
    let ?q = "p\<lparr>px_ballot := b, px_rounds := (px_rounds p)\<lparr>rs_by_slot := fmempty\<rparr>, px_delegators := fmempty, px_counters := n\<rparr>"
    have since: "px_acceptors_since p < b" using d'(2) up by (rule le_less_trans)
    have said: "\<forall>x \<in> set (px_pending_messages p). said_ok conf cmd V (px_id p) b x"
      using d'(10) said_ok_mono[OF _ subset_refl less_imp_le[OF up]] by blast
    show ?thesis
    proof (cases config)
      case None
      then have "conf b = boot" "px_acceptors p = boot" using d d'(3) by (auto simp: delegation_ok_def)
      then have "px_ok boot conf cmd V ?q" using conf[of b] d'(9) less_imp_le[OF since] said by (auto simp: px_ok_def rounds_ok_def)
      then show ?thesis using n kept[of ?q] None up \<open>conf b = boot\<close> \<open>px_acceptors p = boot\<close> by auto
    next
      case (Some x)
      let ?r = "?q\<lparr>px_acceptors := conf b, px_acceptors_since := b\<rparr>"
      have "px_ok boot conf cmd V ?r" using conf[of b] d'(9) said by (auto simp: px_ok_def rounds_ok_def)
      then show ?thesis using n kept[of ?q] Some up since by (auto intro: less_imp_le)
    qed
  qed
qed

subsection \<open>The operations\<close>

lemma ignored_ok [simp]: "px_ok boot conf cmd V (px_count_ignored p) = px_ok boot conf cmd V p"
  "px_ballot (px_count_ignored p) = px_ballot p" "px_acceptors_since (px_count_ignored p) = px_acceptors_since p" "px_id (px_count_ignored p) = px_id p"
  by (simp_all add: px_count_ignored_def)

definition follows :: "proxy_leader \<Rightarrow> proxy_leader \<Rightarrow> bool" where
  "follows p p' \<longleftrightarrow> px_id p' = px_id p \<and> px_ballot p \<le> px_ballot p' \<and> px_acceptors_since p \<le> px_acceptors_since p'"

lemma column_of_ok: "config_ok c \<Longrightarrow> \<exists>column. ac_column_of c slot = Some column \<and> column_ok c column"
  by (auto simp: ac_column_of_total column_ok_def config_ok_def split: quorum_system.split)

lemma open_round_ok:
  assumes ok: "px_ok boot conf cmd V p" and acc: "px_acceptors p = conf (px_ballot p)" and col: "column_ok (px_acceptors p) column"
    and new: "fmlookup (px_by_slot p) slot = None"
  shows "px_ok boot conf cmd V (p\<lparr>px_rounds := (px_rounds p)\<lparr>rs_by_slot := fmupd slot (fresh_round (px_ballot p) (cmd (px_ballot p) slot) (custody_colocated None) column) (px_by_slot p)\<rparr>,
    px_delegators := fmupd slot leader (px_delegators p), px_counters := n\<rparr>)"
proof -
  let ?rd = "fresh_round (px_ballot p) (cmd (px_ballot p) slot) (custody_colocated None) column :: (node_id, command) round"
  have "round_ok (px_acceptors p) command_fingerprint V slot ?rd" using col by (simp add: round_ok_def fresh_round_def rd_accepted_by_def custody_colocated_def)
  from rounds_ok_upd[OF px_okD(4)[OF ok] subset_refl this, where rs' = "(px_rounds p)\<lparr>rs_by_slot := fmupd slot ?rd (px_by_slot p)\<rparr>"]
  have "rounds_ok (px_acceptors p) command_fingerprint V ((px_rounds p)\<lparr>rs_by_slot := fmupd slot ?rd (px_by_slot p)\<rparr>)" by simp
  moreover have "rd_proxy ?rd = None" by (simp add: rd_proxy_def fresh_round_def custody_colocated_def)
  ultimately show ?thesis using ok acc unfolding px_ok_def by (auto simp: fresh_round_def)
qed

lemma on_delegated_total:
  assumes ok: "px_ok boot conf cmd V p" and conf: "\<And>b. config_ok (conf b)"
    and d: "reply_to = Party_Proxy (px_id p) \<Longrightarrow> delegation_ok boot conf cmd b slot c config"
  shows "\<exists>p'. px_on_delegated p reply_to leader b slot c config = Some p' \<and> px_ok boot conf cmd V p' \<and> follows p p'"
proof (cases "reply_to \<noteq> Party_Proxy (px_id p) \<or> b < px_ballot p")
  case True
  then show ?thesis using ok by (auto simp: px_on_delegated_def follows_def)
next
  case False
  then have b: "px_ballot p \<le> b" and d: "delegation_ok boot conf cmd b slot c config" using d by auto
  obtain p1 where p1: "do { p \<leftarrow> (if b > px_ballot p then px_close_below (p\<lparr>px_ballot := b\<rparr>) b else Some p); px_learn_config p b config } = Some p1"
    "px_ok boot conf cmd V p1" "px_ballot p1 = b" "px_acceptors p1 = conf b" "px_id p1 = px_id p" "px_acceptors_since p \<le> px_acceptors_since p1"
    using enter_ballot[OF ok conf d b] by blast
  have c: "c = cmd b slot" using d by (simp add: delegation_ok_def)
  obtain column where col: "ac_column_of (px_acceptors p1) slot = Some column" "column_ok (px_acceptors p1) column"
    using column_of_ok[OF px_okD(1)[OF p1(2)]] by blast
  have rest: "px_on_delegated p reply_to leader b slot c config = (if fmlookup (px_done p1) slot = Some b then Some (px_count_ignored p1)
      else case fmlookup (px_by_slot p1) slot of
        Some rd \<Rightarrow> if rd_ballot rd = b then do { check (rd_command rd = c);
            px_fan_out (p1\<lparr>px_delegators := fmupd slot leader (px_delegators p1),
              px_counters := (px_counters p1)\<lparr>pc_refanned := wrapping_inc (pc_refanned (px_counters p1))\<rparr>\<rparr>) leader b slot c column } else None
      | None \<Rightarrow> do { rounds \<leftarrow> rounds_open (px_rounds p1) slot b c None column;
            p \<leftarrow> px_fan_out (p1\<lparr>px_rounds := rounds, px_delegators := fmupd slot leader (px_delegators p1),
              px_counters := (px_counters p1)\<lparr>pc_delegated := wrapping_inc (pc_delegated (px_counters p1))\<rparr>\<rparr>) leader b slot c column;
            check (rounds_is_open_at (px_rounds p) slot b); check (fmlookup (px_delegators p) slot = Some leader); Some p })"
    using False p1(1) col(1) unfolding px_on_delegated_def by (auto simp: bind_Some_iff Let_def split: option.split)
  show ?thesis
  proof (cases "fmlookup (px_by_slot p1) slot")
    case None
    let ?n = "(px_counters p1)\<lparr>pc_delegated := wrapping_inc (pc_delegated (px_counters p1))\<rparr>"
    let ?q = "p1\<lparr>px_rounds := (px_rounds p1)\<lparr>rs_by_slot := fmupd slot (fresh_round b c (custody_colocated None) column) (px_by_slot p1)\<rparr>,
      px_delegators := fmupd slot leader (px_delegators p1), px_counters := ?n\<rparr>"
    have q: "px_ok boot conf cmd V ?q" using open_round_ok[OF p1(2) _ col(2) None, where leader = leader and n = ?n] p1(3,4) c by simp
    have "px_ok boot conf cmd V (fanned leader slot c column ?q)" using fanned_ok[OF q, where column = column and leader = leader and slot = slot] p1(3,4) col(2) c by simp
    moreover have "px_fan_out ?q leader b slot c column = Some (fanned leader slot c column ?q)" using px_fan_out_total[of ?q] p1(3) by simp
    ultimately show ?thesis
      using rest None p1 b by (auto simp: rounds_open_total fanned_def rounds_is_open_at_def fresh_round_def follows_def)
  next
    case (Some rd)
    let ?n = "(px_counters p1)\<lparr>pc_refanned := wrapping_inc (pc_refanned (px_counters p1))\<rparr>"
    let ?q = "p1\<lparr>px_delegators := fmupd slot leader (px_delegators p1), px_counters := ?n\<rparr>"
    have rd: "rd_ballot rd = b" "rd_command rd = c" using px_okD(5,6)[OF p1(2) Some] p1(3) c by simp_all
    have "slot \<in> fmdom' (px_by_slot p1)" using Some by (simp add: fmdom'I)
    then have q: "px_ok boot conf cmd V ?q" using p1(2) by (auto simp: px_ok_def)
    have "px_ok boot conf cmd V (fanned leader slot c column ?q)" using fanned_ok[OF q, where column = column and leader = leader and slot = slot] p1(3,4) col(2) c by simp
    moreover have "px_fan_out ?q leader b slot c column = Some (fanned leader slot c column ?q)" using px_fan_out_total[of ?q] p1(3) by simp
    ultimately show ?thesis using rest Some rd p1 b by (auto simp: fanned_def follows_def)
  qed
qed

lemma close_slot_ok:
  assumes "px_ok boot conf cmd V p"
  shows "px_ok boot conf cmd V (p\<lparr>px_rounds := rounds_close (px_rounds p) slot, px_delegators := fmdrop slot (px_delegators p), px_counters := n\<rparr>)"
proof -
  have "rounds_ok (px_acceptors p) command_fingerprint V (rounds_close (px_rounds p) slot)"
    by (rule rounds_ok_sub[OF px_okD(4)[OF assms]]) (simp add: rounds_close_def split: if_splits)
  moreover have "px_by_slot p = fmempty \<Longrightarrow> rs_by_slot (rounds_close (px_rounds p) slot) = fmempty" by (simp add: rounds_close_def)
  ultimately show ?thesis using assms unfolding px_ok_def by (auto simp: rounds_close_def split: if_splits)
qed

lemma px_ok_votes:
  assumes "px_ok boot conf cmd V p" "V \<subseteq> W"
  shows "px_ok boot conf cmd W p"
  using assms said_ok_mono[OF _ assms(2) order_refl] round_ok_mono[OF _ assms(2)] unfolding px_ok_def rounds_ok_def by blast

lemma on_nack_total:
  assumes ok: "px_ok boot conf cmd V p"
  shows "\<exists>p'. px_on_nack p from b slot = Some p' \<and> px_ok boot conf cmd V p' \<and> follows p p'"
proof (cases "from \<in> set (ac_members (px_acceptors p)) \<and> rounds_is_open_at (px_rounds p) slot b")
  case False
  then show ?thesis using ok ac_contains_total[OF px_okD(1)[OF ok]] by (auto simp: px_on_nack_def follows_def)
next
  case True
  then obtain rd where "fmlookup (px_by_slot p) slot = Some rd" by (auto simp: rounds_is_open_at_def split: option.splits)
  then have "slot \<in> fmdom' (px_delegators p)" using px_okD(8)[OF ok] by (simp add: fmdom'I)
  then obtain leader where l: "fmlookup (px_delegators p) slot = Some leader" by (auto simp: fmlookup_dom'_iff)
  let ?n = "(px_counters p)\<lparr>pc_relayed_nacks := wrapping_inc (pc_relayed_nacks (px_counters p))\<rparr>"
  let ?p = "p\<lparr>px_rounds := rounds_close (px_rounds p) slot, px_delegators := fmdrop slot (px_delegators p), px_counters := ?n\<rparr>"
  have "px_ok boot conf cmd V (?p\<lparr>px_pending_messages := px_pending_messages p @ [(Audience_Node leader, Msg_Nack from b slot)]\<rparr>)"
    using close_slot_ok[OF ok, where slot = slot and n = ?n] unfolding px_ok_def by auto
  then show ?thesis
    using True l ac_contains_total[OF px_okD(1)[OF ok]]
    by (auto simp: px_on_nack_def follows_def Let_def rounds_is_open_at_def rounds_close_def split: option.splits)
qed

declare done_trim.simps [simp del]

lemma done_trim_bounded: "fm_len (done_trim m) \<le> DONE_MEMORY"
proof (induction m rule: done_trim.induct)
  case (1 m)
  show ?case
  proof (cases "fm_len m > DONE_MEMORY")
    case True
    then have "m \<noteq> fmempty" by auto
    then obtain slot where "fm_first m = Some slot" using fm_first_ex by blast
    then show ?thesis using 1 True by (subst done_trim.simps) simp
  qed (subst done_trim.simps, simp)
qed

lemma px_remember_total [total_simps]:
  "px_remember_done p slot (px_ballot p) = Some (p\<lparr>px_done := done_trim (fmupd slot (px_ballot p) (px_done p))\<rparr>)"
  by (simp add: px_remember_done_def Let_def done_trim_bounded)

text \<open>A vote that is counted keeps the tally, and everything the proxy has said.\<close>

lemma counted_ok:
  assumes ok: "px_ok boot conf cmd V p" and fold: "rounds_fold_accepted_in command_fingerprint (px_rounds p) (px_acceptors p) from b slot h = Some (cnt, rs)"
  shows "px_ok boot conf cmd (insert (from, slot, b, h) V) (p\<lparr>px_rounds := rs\<rparr>)"
proof -
  note d = px_okD[OF ok]
  have rs: "rounds_ok (px_acceptors p) command_fingerprint (insert (from, slot, b, h) V) rs" by (rule rounds_ok_voted[OF d(4,1) fold])
  have same: "\<exists>rd A. fmlookup (px_by_slot p) s = Some rd \<and> (rd' = rd \<or> rd' = rd\<lparr>rd_custody := Colocated A\<rparr>)"
    if "fmlookup (rs_by_slot rs) s = Some rd'" for s rd'
    using fold that by (auto simp: rounds_fold_accepted_in_total[OF d(1,4)] rounds_fold_accepted_total split: option.splits if_splits)
  have dom: "fmdom' (rs_by_slot rs) = fmdom' (px_by_slot p)"
    using fold by (auto simp: rounds_fold_accepted_in_total[OF d(1,4)] rounds_fold_accepted_total fmdom'I split: option.splits if_splits)
  have "rd_ballot rd = px_ballot p \<and> rd_command rd = cmd (px_ballot p) s \<and> rd_proxy rd = None" if rd: "fmlookup (rs_by_slot rs) s = Some rd" for s rd
    using same[OF rd] d(5,6,7) by (auto simp: rd_proxy_def)
  moreover have "px_by_slot p = fmempty \<Longrightarrow> rs_by_slot rs = fmempty" using dom by (simp flip: fmdom'_empty_iff)
  ultimately show ?thesis
    using px_ok_votes[OF ok subset_insertI] rs dom unfolding px_ok_def by auto
qed

lemma decided_chosen:
  assumes ok: "px_ok boot conf cmd V p" and dec: "rounds_decided (px_rounds p) slot (px_acceptors p) = Some (Some (b, c))"
  shows "b = px_ballot p" "c = cmd b slot" "chosen_by conf cmd V b slot c"
proof -
  note d = px_okD[OF ok]
  obtain rd A where rd: "fmlookup (px_by_slot p) slot = Some rd" "rd_accepted_by rd = Some A" "b = rd_ballot rd" "c = rd_command rd"
    "phase2_holds (ac_quorum_system (px_acceptors p)) (ac_members (px_acceptors p)) A (rd_column rd)"
    using dec by (auto simp: rounds_decided_total[OF d(1,4)] split: option.splits if_splits)
  show b: "b = px_ballot p" and c: "c = cmd b slot" using rd d(5,6)[OF rd(1)] by simp_all
  have "px_acceptors p = conf b" using d(3) rd(1) b by auto
  moreover have "\<forall>n \<in> A. (n, slot, b, command_fingerprint c) \<in> V" using rounds_okD[OF d(4) rd(1)] rd(2-4) by (auto simp: round_ok_def)
  ultimately show "chosen_by conf cmd V b slot c" using rd(5) c unfolding chosen_by_def by metis
qed

lemma on_accepted_total:
  assumes ok: "px_ok boot conf cmd V p" and h: "h = command_fingerprint (cmd b slot)"
  shows "\<exists>p'. px_on_accepted p from b slot h = Some p' \<and> px_ok boot conf cmd (insert (from, slot, b, h) V) p' \<and> follows p p'"
proof -
  note d = px_okD[OF ok]
  let ?V = "insert (from, slot, b, h) V"
  have hash: "fmlookup (px_by_slot p) slot = Some rd \<Longrightarrow> rd_ballot rd = b \<Longrightarrow> command_fingerprint (rd_command rd) = h" for rd
    using d(5,6)[of slot rd] h by simp
  obtain cnt rs where fold: "rounds_fold_accepted_in command_fingerprint (px_rounds p) (px_acceptors p) from b slot h = Some (cnt, rs)"
  proof -
    have "rounds_fold_accepted_in command_fingerprint (px_rounds p) (px_acceptors p) from b slot h \<noteq> None"
      unfolding rounds_fold_accepted_in_total[OF d(1,4)] rounds_fold_accepted_total using hash by (auto split: option.split)
    then show thesis using that by auto
  qed
  let ?p = "p\<lparr>px_rounds := rs\<rparr>"
  have ok1: "px_ok boot conf cmd ?V ?p" by (rule counted_ok[OF ok fold])
  note d1 = px_okD[OF ok1]
  obtain decided where dec: "rounds_decided rs slot (px_acceptors p) = Some decided" using rounds_decided_total[OF d1(1,4)] by simp
  show ?thesis
  proof (cases "cnt \<and> decided \<noteq> None")
    case False
    then show ?thesis using fold dec ok1 by (auto simp: px_on_accepted_def Let_def follows_def)
  next
    case True
    then obtain b' c where bc: "decided = Some (b', c)" by auto
    note ch = decided_chosen[OF ok1, of slot b' c]
    have c: "b' = px_ballot p" "c = cmd b' slot" "chosen_by conf cmd ?V b' slot c" using ch dec bc by simp_all
    have "\<exists>rd. fmlookup (px_by_slot p) slot = Some rd \<and> rd_ballot rd = b"
      using fold True by (auto simp: rounds_fold_accepted_in_total[OF d(1,4)] rounds_fold_accepted_total split: option.splits if_splits)
    then have b: "b = px_ballot p" using d(5) by blast
    let ?n = "(px_counters p)\<lparr>pc_decided := wrapping_inc (pc_decided (px_counters p))\<rparr>"
    let ?q = "p\<lparr>px_rounds := rounds_close rs slot, px_delegators := fmdrop slot (px_delegators p), px_counters := ?n\<rparr>"
    let ?r = "?q\<lparr>px_done := done_trim (fmupd slot (px_ballot p) (px_done p)), px_pending_messages := px_pending_messages p @ [(Learners, Msg_Commit (Party_Proxy (px_id p)) b' slot c)]\<rparr>"
    have "px_ok boot conf cmd ?V ?q" using close_slot_ok[OF ok1, where slot = slot and n = ?n] by simp
    then have "px_ok boot conf cmd ?V ?r" using c done_trim_bounded unfolding px_ok_def by auto
    moreover have "px_on_accepted p from b slot h = Some ?r"
      using fold dec True bc c b h px_remember_total[of "p\<lparr>px_rounds := rounds_close rs slot, px_delegators := fmdrop slot (px_delegators p)\<rparr>" slot]
      by (simp add: px_on_accepted_def Let_def rounds_column_def rounds_close_def)
    ultimately show ?thesis by (auto simp: follows_def)
  qed
qed

text \<open>The messages a proxy may be handed: delegations that meet the contract, and votes for the command the
  ballot proposes.\<close>

definition input_ok :: "node_config \<Rightarrow> (ballot \<Rightarrow> node_config) \<Rightarrow> proposal_plan \<Rightarrow> proxy_id \<Rightarrow> message \<Rightarrow> bool" where
  "input_ok boot conf cmd i msg \<longleftrightarrow> (case msg of
       Msg_Accept reply_to _ b slot c config \<Rightarrow> reply_to = Party_Proxy i \<longrightarrow> delegation_ok boot conf cmd b slot c config
     | Msg_Accepted _ b slot h \<Rightarrow> h = command_fingerprint (cmd b slot)
     | _ \<Rightarrow> True)"

definition votes_in :: "message \<Rightarrow> node_id vote set" where
  "votes_in msg = (case msg of Msg_Accepted n b slot h \<Rightarrow> {(n, slot, b, h)} | _ \<Rightarrow> {})"

lemma px_step_total [total_simps]:
  assumes ok: "px_ok boot conf cmd V p" and conf: "\<And>b. config_ok (conf b)" and msg: "input_ok boot conf cmd (px_id p) msg"
  shows "\<exists>p'. px_step p msg = Some p' \<and> px_ok boot conf cmd (votes_in msg \<union> V) p' \<and> follows p p'"
proof -
  let ?f = "case msg of
         Msg_Accept reply_to leader b slot c config \<Rightarrow> px_on_delegated p reply_to leader b slot c config
       | Msg_Accepted from b slot vhash \<Rightarrow> px_on_accepted p from b slot vhash
       | Msg_Nack from b slot \<Rightarrow> px_on_nack p from b slot
       | _ \<Rightarrow> Some p"
  have "\<exists>p'. ?f = Some p' \<and> px_ok boot conf cmd (votes_in msg \<union> V) p' \<and> follows p p'"
  proof (cases msg)
    case (Msg_Accept reply_to leader b slot c config)
    then show ?thesis using on_delegated_total[OF ok conf, of reply_to b slot c config leader] msg by (simp add: input_ok_def votes_in_def)
  next
    case (Msg_Accepted n b slot h)
    then show ?thesis using on_accepted_total[OF ok, of h b slot n] msg by (simp add: input_ok_def votes_in_def)
  next
    case (Msg_Nack n b slot)
    then show ?thesis using on_nack_total[OF ok, of n b slot] by (simp add: votes_in_def)
  qed (use ok in \<open>simp_all add: votes_in_def follows_def\<close>)
  then obtain p' where p': "?f = Some p'" "px_ok boot conf cmd (votes_in msg \<union> V) p'" "follows p p'" by blast
  then have "px_step p msg = Some p'" unfolding px_step_def Let_def p'(1) using px_assert_total[OF p'(2)] by (simp add: follows_def)
  then show ?thesis using p'(2,3) by blast
qed

subsection \<open>Re-sends and evictions\<close>

lemma px_ok_paged:
  assumes ok: "px_ok boot conf cmd V p"
  shows "px_ok boot conf cmd V (p\<lparr>px_rounds := paged (px_rounds p) limit\<rparr>)"
proof -
  note d = px_okD[OF ok]
  have old: "\<exists>rd n. fmlookup (px_by_slot p) s = Some rd \<and> rd' = rd\<lparr>rd_resends := n\<rparr>" if "fmlookup (rs_by_slot (paged (px_rounds p) limit)) s = Some rd'" for s rd'
    using that count_resends_lookup by (simp add: paged_def)
  have "rounds_ok (px_acceptors p) command_fingerprint V (paged (px_rounds p) limit)"
    unfolding rounds_ok_def
  proof (intro allI impI)
    fix s rd' assume "fmlookup (rs_by_slot (paged (px_rounds p) limit)) s = Some rd'"
    then obtain rd n where "fmlookup (px_by_slot p) s = Some rd" "rd' = rd\<lparr>rd_resends := n\<rparr>" using old by blast
    then show "round_ok (px_acceptors p) command_fingerprint V s rd'" using rounds_okD[OF d(4)] by (simp add: round_ok_def rd_accepted_by_def)
  qed
  moreover have dom: "fmdom' (rs_by_slot (paged (px_rounds p) limit)) = fmdom' (px_by_slot p)" by (simp add: paged_def)
  moreover have "rd_ballot rd = px_ballot p \<and> rd_command rd = cmd (px_ballot p) s \<and> rd_proxy rd = None"
    if rd: "fmlookup (rs_by_slot (paged (px_rounds p) limit)) s = Some rd" for s rd
    using old[OF rd] d(5,6,7) by (auto simp: rd_proxy_def)
  moreover have "px_by_slot p = fmempty \<Longrightarrow> rs_by_slot (paged (px_rounds p) limit) = fmempty" using dom by (simp flip: fmdom'_empty_iff)
  ultimately show ?thesis using ok unfolding px_ok_def by simp blast
qed

lemma page_entry:
  assumes "a \<in> set (page_pending rs limit)"
  shows "\<exists>rd. fmlookup (rs_by_slot rs) (pa_slot a) = Some rd \<and> pa_ballot a = rd_ballot rd \<and> pa_command a = rd_command rd \<and> pa_column a = rd_column rd"
  using assms by (auto simp: page_pending_def pending_of_def Let_def dest!: in_set_takeD split: if_splits)

lemma fans_total:
  assumes "px_ok boot conf cmd V p"
    and "\<And>a. a \<in> set as \<Longrightarrow> px_acceptors p = conf (px_ballot p) \<and> pa_ballot a = px_ballot p \<and> pa_command a = cmd (px_ballot p) (pa_slot a) \<and>
      column_ok (px_acceptors p) (pa_column a) \<and> pa_slot a \<in> fmdom' (px_delegators p)"
  shows "\<exists>p'. try_fold (\<lambda>accept p. do {
         leader \<leftarrow> fmlookup (px_delegators p) (pa_slot accept);
         px_fan_out p leader (pa_ballot accept) (pa_slot accept) (pa_command accept) (pa_column accept)
       }) as p = Some p' \<and> px_ok boot conf cmd V p' \<and> px_id p' = px_id p \<and> px_ballot p' = px_ballot p \<and> px_acceptors_since p' = px_acceptors_since p"
  using assms
proof (induction as arbitrary: p)
  case (Cons a as)
  have a: "px_acceptors p = conf (px_ballot p)" "pa_ballot a = px_ballot p" "pa_command a = cmd (px_ballot p) (pa_slot a)"
    "column_ok (px_acceptors p) (pa_column a)" "pa_slot a \<in> fmdom' (px_delegators p)"
    using Cons.prems(2)[OF list.set_intros(1)] by blast+
  then obtain leader where l: "fmlookup (px_delegators p) (pa_slot a) = Some leader" by (auto simp: fmlookup_dom'_iff)
  let ?p = "fanned leader (pa_slot a) (pa_command a) (pa_column a) p"
  have same: "px_acceptors ?p = px_acceptors p" "px_ballot ?p = px_ballot p" "px_delegators ?p = px_delegators p" "px_id ?p = px_id p"
    "px_acceptors_since ?p = px_acceptors_since p" by (simp_all add: fanned_def)
  have "px_ok boot conf cmd V ?p" using fanned_ok[OF Cons.prems(1) a(1,4)] a(3) by simp
  note IH = Cons.IH[OF this, unfolded same, OF Cons.prems(2)[OF list.set_intros(2)]]
  show ?case using IH l a(2) by (simp add: px_fan_out_total)
qed simp

lemma px_resend_total [total_simps]:
  assumes ok: "px_ok boot conf cmd V p"
  shows "\<exists>p'. px_resend_pending p = Some p' \<and> px_ok boot conf cmd V p' \<and> follows p p'"
proof -
  let ?as = "page_pending (px_rounds p) RESEND_BATCH" and ?p = "p\<lparr>px_rounds := paged (px_rounds p) RESEND_BATCH\<rparr>"
  note d = px_okD[OF ok]
  have page: "rounds_resend_page (px_rounds p) RESEND_BATCH = Some (?as, paged (px_rounds p) RESEND_BATCH)"
    by (rule rounds_resend_page_total) (simp_all add: RESEND_BATCH_def)
  have each: "px_acceptors ?p = conf (px_ballot ?p) \<and> pa_ballot a = px_ballot ?p \<and> pa_command a = cmd (px_ballot ?p) (pa_slot a) \<and>
      column_ok (px_acceptors ?p) (pa_column a) \<and> pa_slot a \<in> fmdom' (px_delegators ?p)" if a: "a \<in> set ?as" for a
  proof -
    obtain rd where rd: "fmlookup (px_by_slot p) (pa_slot a) = Some rd" "pa_ballot a = rd_ballot rd" "pa_command a = rd_command rd" "pa_column a = rd_column rd"
      using page_entry[OF a] by blast
    have "px_acceptors p = conf (px_ballot p)" using d(3) rd(1) by auto
    then show ?thesis using rd d(5,6)[OF rd(1)] d(8) rounds_okD[OF d(4) rd(1)] by (simp add: round_ok_def fmdom'I)
  qed
  obtain p' where p': "try_fold (\<lambda>accept p. do {
         leader \<leftarrow> fmlookup (px_delegators p) (pa_slot accept);
         px_fan_out p leader (pa_ballot accept) (pa_slot accept) (pa_command accept) (pa_column accept)
       }) ?as ?p = Some p'" "px_ok boot conf cmd V p'" "px_id p' = px_id p" "px_ballot p' = px_ballot p" "px_acceptors_since p' = px_acceptors_since p"
    using fans_total[OF px_ok_paged[OF ok] each] by auto
  then show ?thesis using page px_assert_total[OF p'(2)] by (auto simp: px_resend_pending_def Let_def follows_def)
qed

lemma fold_evict:
  assumes "px_ok boot conf cmd V p"
  shows "px_ok boot conf cmd V (fold px_evict ks p) \<and> follows p (fold px_evict ks p) \<and> px_by_slot (fold px_evict ks p) = fold fmdrop ks (px_by_slot p)"
  using assms
proof (induction ks arbitrary: p)
  case (Cons k ks)
  have "px_ok boot conf cmd V (px_evict k p)" unfolding px_evict_def by (rule close_slot_ok[OF Cons.prems])
  from Cons.IH[OF this] show ?case by (simp add: follows_def px_evict_def[of k] rounds_close_def)
qed (simp add: follows_def)

lemma px_expire_total [total_simps]:
  assumes ok: "px_ok boot conf cmd V p"
  shows "\<exists>stale p'. px_expire_stale p after = Some (stale, p') \<and> px_ok boot conf cmd V p' \<and> follows p p'"
proof -
  let ?stale = "map fst (filter (\<lambda>(_, r). rd_resends r \<ge> after) (fm_entries (px_by_slot p)))"
  let ?p = "fold px_evict ?stale p"
  have in_stale: "s \<in> set ?stale \<longleftrightarrow> (\<exists>r. fmlookup (px_by_slot p) s = Some r \<and> after \<le> rd_resends r)" for s by force
  have "sorted_wrt (<) (map fst (fm_entries (px_by_slot p)))" using sorted_fm_keys[of "px_by_slot p"] by (simp add: strict_sorted_iff)
  then have "sorted_wrt (<) ?stale" unfolding sorted_wrt_map by (rule sorted_wrt_filter)
  then have st: "rounds_stalled (px_rounds p) after = Some ?stale" by (simp add: rounds_stalled_def Let_def)
  have e: "px_ok boot conf cmd V ?p" "follows p ?p" "px_by_slot ?p = fold fmdrop ?stale (px_by_slot p)" using fold_evict[OF ok] by simp_all
  have "list_all (\<lambda>slot. case fmlookup (px_by_slot p) slot of None \<Rightarrow> False | Some r \<Rightarrow> rd_resends r \<ge> after) ?stale"
    unfolding list_all_iff using in_stale by fastforce
  moreover have "list_all (\<lambda>slot. rounds_column (px_rounds ?p) slot = None) ?stale"
    unfolding list_all_iff rounds_column_def e(3) by (simp add: fold_fmdrop)
  moreover have "list_all (\<lambda>(_, r). rd_resends r < after) (fm_entries (px_by_slot ?p))"
    using in_stale unfolding list_all_iff e(3) by (auto simp: fold_fmdrop not_le split: if_splits)
  ultimately have "px_expire_stale p after = Some (?stale, ?p)"
    unfolding px_expire_stale_def st Option.bind_lunit Let_def using px_assert_total[OF e(1)] by simp
  then show ?thesis using e by blast
qed

subsection \<open>Runs\<close>

text \<open>What drives a proxy: messages, the re-send timer, the eviction of stale rounds, and the driver that hands
  out the batch and clears it.\<close>

datatype proxy_event = Px_Message message | Px_Resend | Px_Expire nat | Px_Flush

type_synonym proxy_log = "(audience \<times> message) list \<times> proxy_leader"

fun px_feed :: "proxy_event \<Rightarrow> proxy_log \<Rightarrow> proxy_log option" where
  "px_feed (Px_Message msg) (sent, p) = do { p \<leftarrow> px_step p msg; Some (sent, p) }"
| "px_feed Px_Resend (sent, p) = do { p \<leftarrow> px_resend_pending p; Some (sent, p) }"
| "px_feed (Px_Expire after) (sent, p) = do { (_, p) \<leftarrow> px_expire_stale p after; Some (sent, p) }"
| "px_feed Px_Flush (sent, p) = do { messages \<leftarrow> px_messages p; Some (sent @ messages, px_advance p) }"

definition px_run :: "proxy_id \<Rightarrow> node_config \<Rightarrow> proxy_event list \<Rightarrow> proxy_log option" where
  "px_run i boot events = do { p \<leftarrow> px_new i boot; try_fold px_feed events ([], p) }"

definition proxy_event_ok :: "node_config \<Rightarrow> (ballot \<Rightarrow> node_config) \<Rightarrow> proposal_plan \<Rightarrow> proxy_id \<Rightarrow> proxy_event \<Rightarrow> bool" where
  "proxy_event_ok boot conf cmd i e \<longleftrightarrow> (case e of Px_Message msg \<Rightarrow> input_ok boot conf cmd i msg | _ \<Rightarrow> True)"

text \<open>The votes a run was handed.\<close>

definition votes_of :: "proxy_event list \<Rightarrow> node_id vote set" where
  "votes_of events = {(n, slot, b, h). Px_Message (Msg_Accepted n b slot h) \<in> set events}"

lemma votes_of_Nil [simp]: "votes_of [] = {}"
  by (auto simp: votes_of_def)

lemma votes_of_append: "votes_of (events @ [e]) = (case e of Px_Message msg \<Rightarrow> votes_in msg | _ \<Rightarrow> {}) \<union> votes_of events"
  by (auto simp: votes_of_def votes_in_def split: proxy_event.split message.split)

definition px_log_ok :: "node_config \<Rightarrow> (ballot \<Rightarrow> node_config) \<Rightarrow> proposal_plan \<Rightarrow> proxy_id \<Rightarrow> node_id vote set \<Rightarrow> proxy_log \<Rightarrow> bool" where
  "px_log_ok boot conf cmd i V = (\<lambda>(sent, p). px_ok boot conf cmd V p \<and> px_id p = i \<and> (\<forall>x \<in> set sent. said_ok conf cmd V i (px_ballot p) x))"

lemma log_follows:
  assumes "px_log_ok boot conf cmd i V (sent, p)" "px_ok boot conf cmd W p'" "follows p p'" "V \<subseteq> W"
  shows "px_log_ok boot conf cmd i W (sent, p')"
  using assms said_ok_mono[OF _ assms(4)] by (auto simp: px_log_ok_def follows_def)

lemma px_messages_total [total_simps]:
  assumes "px_ok boot conf cmd V p"
  shows "px_messages p = Some (px_pending_messages p)"
proof -
  have said: "said_ok conf cmd V (px_id p) (px_ballot p) (a, m)" if "(a, m) \<in> set (px_pending_messages p)" for a m
    using px_okD(10)[OF assms that] .
  have "list_all (\<lambda>(_, m). case m of Msg_Accept reply_to _ _ _ _ _ \<Rightarrow> reply_to = Party_Proxy (px_id p)
       | Msg_Commit from _ _ _ \<Rightarrow> from = Party_Proxy (px_id p) | _ \<Rightarrow> True) (px_pending_messages p)"
    "list_all (\<lambda>(_, m). case m of Msg_Accept _ _ b _ _ _ \<Rightarrow> b \<le> px_ballot p
       | Msg_Commit _ b _ _ \<Rightarrow> b \<le> px_ballot p | _ \<Rightarrow> True) (px_pending_messages p)"
    using said by (fastforce simp: list_all_iff split: message.split)+
  then show ?thesis by (simp add: px_messages_def Let_def)
qed

lemma px_feed_total:
  assumes log: "px_log_ok boot conf cmd i (votes_of events) x" and conf: "\<And>b. config_ok (conf b)" and e: "proxy_event_ok boot conf cmd i e"
  shows "\<exists>y. px_feed e x = Some y \<and> px_log_ok boot conf cmd i (votes_of (events @ [e])) y"
proof -
  obtain sent p where x: "x = (sent, p)" by fastforce
  have ok: "px_ok boot conf cmd (votes_of events) p" "px_id p = i" using log by (simp_all add: x px_log_ok_def)
  note next_log = log_follows[OF log[unfolded x]]
  show ?thesis
  proof (cases e)
    case (Px_Message msg)
    then show ?thesis using px_step_total[OF ok(1) conf, of msg] e ok(2) next_log by (auto simp: x proxy_event_ok_def votes_of_append)
  next
    case Px_Resend
    then show ?thesis using px_resend_total[OF ok(1)] next_log by (auto simp: x votes_of_append)
  next
    case (Px_Expire after)
    then show ?thesis using px_expire_total[OF ok(1), of after] next_log by (auto simp: x votes_of_append)
  next
    case Px_Flush
    have "px_log_ok boot conf cmd i (votes_of events) (sent @ px_pending_messages p, px_advance p)"
      using log by (auto simp: x px_log_ok_def px_advance_def px_ok_def)
    then show ?thesis using Px_Flush px_messages_total[OF ok(1)] by (simp add: x votes_of_append)
  qed
qed

lemma px_run_total:
  assumes "config_ok boot" "\<And>b. config_ok (conf b)" "list_all (proxy_event_ok boot conf cmd i) events"
  shows "\<exists>x. px_run i boot events = Some x \<and> px_log_ok boot conf cmd i (votes_of events) x"
proof -
  obtain p where p: "px_new i boot = Some p" "px_ok boot conf cmd {} p" "px_id p = i" using px_new_total[OF assms(1)] by blast
  have "\<exists>x. try_fold px_feed events ([], p) = Some x \<and> px_log_ok boot conf cmd i (votes_of events) x"
    using assms(3)
  proof (induction events rule: rev_induct)
    case Nil
    then show ?case using p by (simp add: px_log_ok_def)
  next
    case (snoc e events)
    then obtain x where x: "try_fold px_feed events ([], p) = Some x" "px_log_ok boot conf cmd i (votes_of events) x" by auto
    then show ?case using px_feed_total[OF x(2) assms(2), of e] snoc.prems by (auto simp: try_fold_append)
  qed
  then show ?thesis using p(1) by (simp add: px_run_def)
qed

section \<open>Properties\<close>

text \<open>C12: a proxy announces only what was chosen. Let every ballot have one well-formed configuration and propose
  one command at a slot, and hand a proxy any sequence of messages in which the delegations to it and the
  votes agree with that, with re-sends, evictions and flushes in between. Then no assertion of the proxy
  fails, and of the messages it has sent, every commit is for the command its ballot proposed and rests on the votes,
  among those it was handed, of a Phase-2 quorum of the ballot's configuration, and every accept is the
  ballot's own command, addressed to that configuration with replies to the proxy itself.\<close>

theorem proxy_commits_are_chosen:
  assumes "config_ok boot" "\<forall>b. config_ok (conf b)" "list_all (proxy_event_ok boot conf cmd i) events"
  shows "\<exists>sent p. px_run i boot events = Some (sent, p) \<and>
    (\<forall>a from b slot c. (a, Msg_Commit from b slot c) \<in> set sent \<longrightarrow> a = Learners \<and> from = Party_Proxy i \<and> c = cmd b slot \<and>
       (\<exists>Q column. phase2_holds (ac_quorum_system (conf b)) (ac_members (conf b)) Q column \<and>
          (\<forall>n \<in> Q. Px_Message (Msg_Accepted n b slot (command_fingerprint c)) \<in> set events))) \<and>
    (\<forall>a reply_to leader b slot c config. (a, Msg_Accept reply_to leader b slot c config) \<in> set sent \<longrightarrow>
       reply_to = Party_Proxy i \<and> c = cmd b slot \<and> config = None \<and> (\<exists>column. a = AcceptorsOf (conf b) column \<and> column_ok (conf b) column))"
proof -
  obtain sent p where run: "px_run i boot events = Some (sent, p)" and log: "px_log_ok boot conf cmd i (votes_of events) (sent, p)"
    using px_run_total[OF assms(1) _ assms(3)] assms(2) by auto
  have said: "said_ok conf cmd (votes_of events) i (px_ballot p) x" if "x \<in> set sent" for x using log that by (simp add: px_log_ok_def)
  have "a = Learners \<and> from = Party_Proxy i \<and> c = cmd b slot \<and>
       (\<exists>Q column. phase2_holds (ac_quorum_system (conf b)) (ac_members (conf b)) Q column \<and>
          (\<forall>n \<in> Q. Px_Message (Msg_Accepted n b slot (command_fingerprint c)) \<in> set events))"
    if "(a, Msg_Commit from b slot c) \<in> set sent" for a "from" b slot c
    using said[OF that] by (simp add: chosen_by_def votes_of_def) blast
  moreover have "reply_to = Party_Proxy i \<and> c = cmd b slot \<and> config = None \<and> (\<exists>column. a = AcceptorsOf (conf b) column \<and> column_ok (conf b) column)"
    if "(a, Msg_Accept reply_to leader b slot c config) \<in> set sent" for a reply_to leader b slot c config
    using said[OF that] by simp
  ultimately show ?thesis using run by blast
qed

definition lone_acceptor :: node_config where
  "lone_acceptor = \<lparr>ac_members = [1], ac_quorum_system = Majority, ac_domains = [], ac_cell = 0, ac_proxies = 4, ac_replicas = 0\<rparr>"

definition lone_delegation :: "proxy_event list" where
  "lone_delegation = [Px_Message (Msg_Accept (Party_Proxy 3) 1 (Ballot 1 1) 0 (Control Noop) None),
     Px_Message (Msg_Accepted 1 (Ballot 1 1) 0 (command_fingerprint (Control Noop))), Px_Flush]"

lemma lone_acceptor_ok: "config_ok lone_acceptor" "ac_column_of lone_acceptor slot = Some None"
  "ac_is_phase2_addressee lone_acceptor 1 None = Some True" "ac_phase2_addressees lone_acceptor None = Some [1]"
  "ac_has_phase2_quorum_in lone_acceptor {1} None = Some True"
proof -
  show ok: "config_ok lone_acceptor" by (simp add: lone_acceptor_def config_ok_def members_ok_def u64_max_def MAX_ROLE_COUNT_def)
  show "ac_column_of lone_acceptor slot = Some None" using ac_column_of_total[OF ok] by (simp add: lone_acceptor_def)
  have to: "phase2_addressees (ac_quorum_system lone_acceptor) (ac_members lone_acceptor) None = Some [1]"
    by (simp add: lone_acceptor_def phase2_addressees_def)
  show "ac_is_phase2_addressee lone_acceptor 1 None = Some True" "ac_phase2_addressees lone_acceptor None = Some [1]"
    using ac_phase2_addressees_total[OF ok, of None] to by (auto simp: lone_acceptor_def)
  show "ac_has_phase2_quorum_in lone_acceptor {1} None = Some True"
    using ac_has_phase2_quorum_in_total[OF ok, of "{1}" None] by (simp add: lone_acceptor_def)
qed

lemma lone_delegation_sent:
  "map_option fst (px_run 3 lone_acceptor lone_delegation) = Some
    [(AcceptorsOf lone_acceptor None, Msg_Accept (Party_Proxy 3) 1 (Ballot 1 1) 0 (Control Noop) None),
     (Learners, Msg_Commit (Party_Proxy 3) (Ballot 1 1) 0 (Control Noop))]"
proof -
  have trim: "done_trim (fmupd 0 (Ballot 1 1) fmempty) = fmupd 0 (Ballot 1 1) fmempty"
    by (subst done_trim.simps) (simp add: DONE_MEMORY_def fm_len_fmupd)
  note facts = lone_acceptor_ok[simplified] trim[simplified] px_assert_invariants_def rounds_all_at_def fm_keys_def fm_entries_def fm_len_fmupd DONE_MEMORY_def
    rounds_default_def ballot_zero_def less_ballot_def less_eq_ballot_def Let_def
  obtain p0 where p0: "px_new 3 lone_acceptor = Some p0" "px_by_slot p0 = fmempty" "px_done p0 = fmempty" "px_delegators p0 = fmempty" "px_ballot p0 = ballot_zero"
    "px_id p0 = 3" "px_acceptors p0 = lone_acceptor" "px_pending_messages p0 = []" "px_acceptors_since p0 = ballot_zero"
    by (simp add: px_new_def facts)
  show ?thesis
    unfolding px_run_def lone_delegation_def p0(1)
    using p0(2-)
    by (simp add: facts px_step_def px_on_delegated_def px_close_below_def rounds_close_below_def px_learn_config_def rounds_open_total px_fan_out_def
        rounds_is_open_at_def fresh_round_def custody_colocated_def rd_proxy_def px_on_accepted_def rounds_fold_accepted_in_def rounds_column_def
        rounds_fold_accepted_def rounds_decided_def rd_accepted_by_def rounds_close_def px_remember_done_def px_messages_def px_advance_def
        del: command_fingerprint.simps)
qed

theorem proxy_commits_are_chosen_witness:
  "\<exists>sent p. px_run 3 lone_acceptor lone_delegation = Some (sent, p) \<and> (Learners, Msg_Commit (Party_Proxy 3) (Ballot 1 1) 0 (Control Noop)) \<in> set sent \<and>
    (\<exists>Q column. phase2_holds (ac_quorum_system lone_acceptor) (ac_members lone_acceptor) Q column \<and>
      (\<forall>n \<in> Q. Px_Message (Msg_Accepted n (Ballot 1 1) 0 (command_fingerprint (Control Noop))) \<in> set lone_delegation))"
proof -
  have events: "list_all (proxy_event_ok lone_acceptor (\<lambda>_. lone_acceptor) (\<lambda>_ _. Control Noop) 3) lone_delegation"
    by (simp add: lone_delegation_def proxy_event_ok_def input_ok_def delegation_ok_def del: command_fingerprint.simps)
  obtain sent p where run: "px_run 3 lone_acceptor lone_delegation = Some (sent, p)"
    "(Learners, Msg_Commit (Party_Proxy 3) (Ballot 1 1) 0 (Control Noop)) \<in> set sent"
    using lone_delegation_sent by auto
  have "\<forall>b :: ballot. config_ok lone_acceptor" using lone_acceptor_ok(1) by simp
  from proxy_commits_are_chosen[OF lone_acceptor_ok(1) this events] run(1)
  have "\<forall>a from b slot c. (a, Msg_Commit from b slot c) \<in> set sent \<longrightarrow>
      (\<exists>Q column. phase2_holds (ac_quorum_system lone_acceptor) (ac_members lone_acceptor) Q column \<and>
        (\<forall>n \<in> Q. Px_Message (Msg_Accepted n b slot (command_fingerprint c)) \<in> set lone_delegation))"
    by (metis (no_types, lifting) option.inject prod.inject)
  from this[rule_format, OF run(2)] show ?thesis using run by blast
qed

end
