(* ===== verification/Spec2Isabelle.thy ===== *)
theory Spec2Isabelle
  imports Zone_Rule Matchmaker_Set Retention Journal Agreement Decree Matchmaker_Runs Retirement Quorum_Read Batcher Proxy_Leader
begin

text \<open>
  \<^bold>\<open>Verification of the consensus core of paros\<close>

  paros is a replicated journal service built on Multi-Paxos. Its core, \<^verbatim>\<open>src/crates/lib/paros-core\<close>, is
  sans-IO: a set of state machines without clock, network or disk. Acceptors vote; a proposer campaigns,
  recovers and runs rounds; proxy leaders run rounds on a leader's behalf; matchmakers register the
  configuration of every ballot and hand over from one generation to the next; replicas fold the decided
  commands into a journal; readers serve quorum reads; a batcher merges client writes. The drivers around
  the core persist its writes and carry its messages. All paths below are relative to
  \<^verbatim>\<open>src/crates/lib/paros-core/src\<close>.

  \<^bold>\<open>How the code is read\<close>

  \<^item> A struct is a \<^verbatim>\<open>record\<close>, an enum a \<^verbatim>\<open>datatype\<close>, and a method a function that returns the updated state.
  \<^item> A panic is \<open>None\<close>: every \<^verbatim>\<open>assert!\<close>, \<^verbatim>\<open>expect\<close> and \<^verbatim>\<open>unreachable!\<close> is a \<open>check\<close> or a \<open>None\<close> branch of the
    model, in the place where the code has it. A refusal is a value of the code's own enum.
  \<^item> A \<^verbatim>\<open>BTreeMap\<close> is a finite map walked in key order (\<open>fm_keys\<close>, \<open>fm_entries\<close>), a \<^verbatim>\<open>BTreeSet\<close> a set, a \<^verbatim>\<open>Vec\<close> a list.
  \<^item> A \<^verbatim>\<open>u64\<close> is a natural number, with \<open>checked_add64\<close>, \<open>saturating_add64\<close> and the wrap of the proxy's counters
    written out. A fingerprint is a 64-bit word.
  \<^item> The identity of a member and the type of a value are type parameters where the code has them.

  \<^bold>\<open>The theories, and the code they model\<close>

  \<^descr> \<open>Paros_Prelude\<close>: panics as options, bounded 64-bit arithmetic, ordered maps, and the collections \<open>total_simps\<close>
    (an operation under its precondition, as an equation without panic) and \<open>inv_intros\<close>.
  \<^descr> \<open>Ballots\<close>: \<^verbatim>\<open>types.rs\<close>, with the order of ballots and FNV-1a.
  \<^descr> \<open>Quorum_System\<close>, \<open>Acceptor_Config\<close>, \<open>Zone_Rule\<close>, \<open>Matchmaker_Set\<close>: \<^verbatim>\<open>membership/*.rs\<close>. The locale \<open>quorum_family\<close> is
    the contract the tallies rely on; it is interpreted for quorum systems, configurations and matchmaker sets.
  \<^descr> \<open>Retained_Window\<close>: \<^verbatim>\<open>retained.rs\<close>, with the locale \<open>floored_map\<close>.
  \<^descr> \<open>Acceptor\<close>, \<open>Retention\<close>: \<^verbatim>\<open>acceptor.rs\<close>, \<^verbatim>\<open>acceptor/retention.rs\<close> and the write batches of \<^verbatim>\<open>contract/write.rs\<close>.
  \<^descr> \<open>Limits\<close>: \<^verbatim>\<open>contract/limits.rs\<close>.
  \<^descr> \<open>Promise_Tally\<close>, \<open>Election\<close>, \<open>Rounds\<close>, \<open>Leadership\<close>, \<open>Proposer\<close>, \<open>Campaign\<close>: \<^verbatim>\<open>proposer.rs\<close> and \<^verbatim>\<open>proposer/*.rs\<close>.
  \<^descr> \<open>Decree\<close>: \<^verbatim>\<open>decree.rs\<close>, over the whole model of the proposer.
  \<^descr> \<open>Registry\<close>, \<open>History_Page\<close>, \<open>Matchmaker\<close>, \<open>Generation\<close>: \<^verbatim>\<open>matchmaker.rs\<close> and \<^verbatim>\<open>matchmaker/{state,storage,ready,message,generation}.rs\<close>.
  \<^descr> \<open>Matchmaker_Inv\<close>, \<open>Restart\<close>, \<open>Generation_Inv\<close>, \<open>Matchmaker_Runs\<close>: the invariant of a matchmaker over its store, and
    what holds over every run of it.
  \<^descr> \<open>Matchmaking\<close>: \<^verbatim>\<open>matchmaking.rs\<close> and \<^verbatim>\<open>matchmaking/probe.rs\<close>, the candidate's side of a registration.
  \<^descr> \<open>Collector\<close>: \<^verbatim>\<open>collector.rs\<close>, the tally that retires prior configurations.
  \<^descr> \<open>Prior_History\<close>, \<open>Retirement\<close>: matchmakers, candidates and collectors put together.
  \<^descr> \<open>Messages\<close>, \<open>Proxy_Leader\<close>: \<^verbatim>\<open>contract/message.rs\<close>, \<^verbatim>\<open>proxy_leader.rs\<close> and \<^verbatim>\<open>proxy_leader/ready.rs\<close>.
  \<^descr> \<open>Quorum_Read\<close>: \<^verbatim>\<open>quorum_read.rs\<close>.
  \<^descr> \<open>Journal\<close>, \<open>Batcher\<close>: \<^verbatim>\<open>journal/*.rs\<close> and \<^verbatim>\<open>batcher.rs\<close>.
  \<^descr> \<open>Voting\<close>: the abstract machine of promises, votes and proposals, with agreement proved in the locale \<open>voting_system\<close>.
  \<^descr> \<open>Consensus\<close>, \<open>Consensus_Inv\<close>, \<open>Consensus_Nodes\<close>, \<open>Consensus_Leaders\<close>, \<open>Consensus_Safety\<close>, \<open>Agreement\<close>: acceptors, proposers and
    learners as a cluster over an asynchronous network, and its refinement of \<open>Voting\<close>.

  \<^bold>\<open>What is shown\<close>

  \<^item> Consensus (C1 to C3): in every reachable cluster, with reconfigurations, delegated rounds, lost and repeated
    messages, rot, reboots and truncation, a committed or learned value never changes, every step is a run of the
    voting machine, and no delivery trips an assertion.
  \<^item> Matchmakers (C4 to C11): an answered registration is sealed, pages read one after the other are the whole
    answer, a restart rebuilds the running matchmaker, no run panics, and a stop freezes a generation. A candidate
    misses no completed round and hears every matchmaker that answers; what a collector retires is not asked again.
  \<^item> Proxies and reads (C12, C13): a proxy announces only what a quorum chose, and a served read covers it.
  \<^item> Memberships (C14 to C20): the quorum predicates answer their specification, the two phases intersect, the
    fan-out is the tally, constructed and decoded configurations are well formed, the zone rule and the
    matchmaker majorities decide what they name.
  \<^item> Acceptor (C21 to C25): windows and logs only move up, the writes rebuild the state, pages are complete,
    retention keeps the votes.
  \<^item> Journal (C26 to C28): the verdict of every command, dense positions, retries that answer as the first time.
  \<^item> Proposer (C29 to C37): decidable slots hide nothing, decisions rest on quorums, re-sends are fair, recovery
    ends, a won campaign misses nothing, and closing a campaign or a probe decides what it should. The decree
    refines a two-phase machine.
  \<^item> Batcher (C38, C39): batches stay in their limits, and scattering the answers undoes the merging.
  \<^item> A defect (C40): a repeated registration with a cursor above its ballot panics, and nothing on the wire's way
    in refuses it.

  Each property with hypotheses is followed by a witness that applies it to a concrete run.

  \<^bold>\<open>Bounds and hypotheses\<close>

  \<^item> Loops are structural recursions, or functions with a termination proof (\<open>done_trim\<close>). Reading pages to the end is
    the one place with fuel: \<open>read_suffix\<close> and \<open>read_pages\<close> are shown to give the whole answer whenever the fuel
    exceeds the number of records, so a reader that asks on until there is no cursor ends.
  \<^item> A membership is smaller than the 64-bit range, a matchmaker set and the pushes of a batcher fit in memory
    (\<open>isize_max\<close>, the bound of a \<^verbatim>\<open>Vec\<close>), and a matchmaker generation lies below \<^verbatim>\<open>u64::MAX\<close>.
  \<^item> The cluster runs under a plan of campaigns in which the prior configurations of a ballot contain the
    configuration of every lower ballot (\<open>plan_ok\<close>). C9 shows that the matchmakers provide it for the rounds they have
    not collected; C11 shows what collection takes away.
  \<^item> Matchmakers and proxies are driven by leaders that register one configuration per ballot and propose one
    command per ballot and slot, as the proposer does; a cursor on the wire lies below its ballot.
    C40 shows that the last condition is needed.
  \<^item> The lookup of an accepted write and the test that an index is applied are arguments of the operations, as in
    the code.

  \<^bold>\<open>Not modelled\<close>

  \<^item> \<^verbatim>\<open>node.rs\<close> and \<^verbatim>\<open>node/*.rs\<close>: the handle that routes messages and ticks to the roles above. Its timers, role changes
    and hand-offs would need every role of a node in one state; the voting roles are composed in \<open>Consensus\<close> instead.
  \<^item> \<^verbatim>\<open>replica.rs\<close> and \<^verbatim>\<open>replica_node.rs\<close>: the chosen log, its caches and its read pages, around the fold that \<open>Journal\<close> models.
  \<^item> \<^verbatim>\<open>matchmaker/reconfigurer.rs\<close>: the driver of a handover; the matchmakers' side and the decree it runs are modelled.
  \<^item> \<^verbatim>\<open>contract/{config,hard_state,mem_storage,storage}.rs\<close>: data of the node handle. \<^verbatim>\<open>models\<close> and \<^verbatim>\<open>probe.rs\<close>: test code
    and coverage marks.
  \<^item> The textual forms of identifiers and parties, and the tracing of the operations.
  \<^item> The other crates: asynchronous drivers, coordinators, transport, generated wire types, disk files, command
    lines and the simulation. They perform I/O or fold control journals above the core.
\<close>

end
